(* ===== verification/Prelude.thy ===== *)
theory Prelude
  imports Main "HOL-Library.Word" "HOL-Library.List_Lexorder"
begin

unbundle bit_operations_syntax

text \<open>
  Shared vocabulary of the development: byte strings, JavaScript exceptions as values, reads and
  writes of typed arrays, little- and big-endian integers, and the lexicographic byte order in
  which the storage engine keeps its keys.
\<close>

section \<open>Byte strings and errors\<close>

type_synonym byte = "8 word"
type_synonym bytes = "byte list"

text \<open>
  The error classes of \<^verbatim>\<open>packages/sdk/src/errors.ts\<close>, the JavaScript built-in ones the sources
  throw, the error names built with \<^verbatim>\<open>namedError\<close>, \<^verbatim>\<open>corrupt\<close> and \<^verbatim>\<open>workerProtocolError\<close>, and the
  classes of \<^verbatim>\<open>sql.ts\<close> and \<^verbatim>\<open>sql-parser.ts\<close> (\<open>SqlSyntax\<close> for \<^verbatim>\<open>SqlSyntaxError\<close>).
  The message is the fixed text of the source; interpolated values are left out of it.
\<close>

datatype error_class =
    TypeError | RangeError | PlainError | SyntaxError
  | UnsupportedPlatformError | DatabaseBusyError | CorruptionError | StoreExistsError
  | StoreNotFoundError | IndexNotFoundError | ConstraintError | UniqueIndexConstraintError
  | WriteTransactionAlreadyOpenError | TransactionConflictError | ReadonlyTransactionError
  | TransactionClosedError | DatabaseClosedError | ValueTooLargeError | KeyTooLargeError
  | StoreNameTooLongError | ReservedStoreNameError | InvalidRangeError | StorageError
  | SerializationError | InjectedFailureError | ChangeFeedCompactedError | RecoveryRequiredError
  | InternalError | InvalidOpenOptionsError | VersionError | WorkerProtocolError | AggregateError
  | SqlSchemaError | SqlTypeError | SqlSyntax

datatype error = Throw error_class string

type_synonym 'a result = "error + 'a"

abbreviation throw :: "error_class \<Rightarrow> string \<Rightarrow> 'a result" where
  "throw c m \<equiv> Inl (Throw c m)"

named_theorems result_simps \<open>rewriting of sequenced computations that may throw\<close>

text \<open>Sequencing: an exception ends the computation.\<close>

fun bindr :: "'a result \<Rightarrow> ('a \<Rightarrow> 'b result) \<Rightarrow> 'b result" where
  "bindr (Inl e) f = Inl e"
| "bindr (Inr x) f = f x"

lemma bindr_eq_Inr [result_simps]: "bindr m f = Inr y \<longleftrightarrow> (\<exists>x. m = Inr x \<and> f x = Inr y)"
  by (cases m) auto

lemma bindr_eq_Inl [result_simps]:
  "bindr m f = Inl e \<longleftrightarrow> m = Inl e \<or> (\<exists>x. m = Inr x \<and> f x = Inl e)"
  by (cases m) auto

lemma bindr_assoc [simp]: "bindr (bindr m f) g = bindr m (\<lambda>x. bindr (f x) g)"
  by (cases m) auto

lemma bindr_Inr_right [simp]: "bindr m Inr = m"
  by (cases m) auto

lemma bindr_cong [fundef_cong]:
  assumes "m = m'" and "\<And>x. m' = Inr x \<Longrightarrow> f x = g x"
  shows "bindr m f = bindr m' g"
  using assms by (cases m') auto

text \<open>A loop over a list whose body may throw, collecting the results.\<close>

fun mapr :: "('a \<Rightarrow> 'b result) \<Rightarrow> 'a list \<Rightarrow> 'b list result" where
  "mapr f [] = Inr []"
| "mapr f (x # xs) = bindr (f x) (\<lambda>y. bindr (mapr f xs) (\<lambda>ys. Inr (y # ys)))"

lemma mapr_all_Inr: "(\<And>x. x \<in> set xs \<Longrightarrow> f x = Inr (g x)) \<Longrightarrow> mapr f xs = Inr (map g xs)"
  by (induction xs) auto

lemma mapr_Inr_iff: "mapr f xs = Inr ys \<longleftrightarrow> list_all2 (\<lambda>x y. f x = Inr y) xs ys"
proof (induction xs arbitrary: ys)
  case Nil
  then show ?case by auto
next
  case (Cons x xs)
  then show ?case by (cases ys) (auto simp: bindr_eq_Inr)
qed

section \<open>Effects\<close>

text \<open>
  An asynchronous method that reads and changes a state \<open>'s\<close> and may throw: run to its end it gives
  the result and the new state. A state change made before an exception stays.
\<close>

type_synonym ('s, 'a) eff = "'s \<Rightarrow> 'a result \<times> 's"

definition ret :: "'a \<Rightarrow> ('s, 'a) eff" where
  "ret x = (\<lambda>s. (Inr x, s))"

definition raise :: "error \<Rightarrow> ('s, 'a) eff" where
  "raise e = (\<lambda>s. (Inl e, s))"

definition lift_result :: "'a result \<Rightarrow> ('s, 'a) eff" where
  "lift_result r = (\<lambda>s. (r, s))"

definition bindm :: "('s, 'a) eff \<Rightarrow> ('a \<Rightarrow> ('s, 'b) eff) \<Rightarrow> ('s, 'b) eff" where
  "bindm m f = (\<lambda>s. case m s of (Inl e, s') \<Rightarrow> (Inl e, s') | (Inr x, s') \<Rightarrow> f x s')"

named_theorems eff_simps \<open>running effectful methods\<close>

lemma eff_run [eff_simps]:
  "ret x s = (Inr x, s)" "raise e s = (Inl e, s)" "lift_result r s = (r, s)"
  "bindm m f s = (case m s of (Inl e, s') \<Rightarrow> (Inl e, s') | (Inr x, s') \<Rightarrow> f x s')"
  by (simp_all add: ret_def raise_def lift_result_def bindm_def)

section \<open>Typed arrays\<close>

text \<open>An index past the end of an array reads \<^verbatim>\<open>undefined\<close>.\<close>

definition read_at :: "'a list \<Rightarrow> nat \<Rightarrow> 'a option" where
  "read_at xs i = (if i < length xs then Some (xs ! i) else None)"

lemma read_at_append [simp]:
  "read_at (pre @ x # suf) (length pre) = Some x"
  "read_at (pre @ x # y # suf) (Suc (length pre)) = Some y"
  by (auto simp: read_at_def nth_append)

lemma read_at_end [simp]: "read_at pre (length pre) = None"
  by (simp add: read_at_def)

text \<open>
  \<^term>\<open>overlay out off w\<close> is the array \<^verbatim>\<open>out\<close> after \<^verbatim>\<open>out.set(w, off)\<close>. A single element
  store \<^verbatim>\<open>out[off] = b\<close> is \<^term>\<open>out[off := b]\<close>: like the typed array store it leaves the
  array alone when the index is out of range.
\<close>

definition overlay :: "'a list \<Rightarrow> nat \<Rightarrow> 'a list \<Rightarrow> 'a list" where
  "overlay out off w = take off out @ w @ drop (off + length w) out"

named_theorems overlay_simps \<open>composition of array stores\<close>

lemma overlay_Nil [simp]: "overlay out off [] = out"
  by (simp add: overlay_def)

lemma overlay_update [overlay_simps]:
  "off < length out \<Longrightarrow> out[off := b] = overlay out off [b]"
  by (simp add: overlay_def upd_conv_take_nth_drop)

lemma length_overlay [simp]:
  "off + length w \<le> length out \<Longrightarrow> length (overlay out off w) = length out"
  by (simp add: overlay_def)

lemma overlay_overlay [overlay_simps]:
  "off + length a \<le> length out \<Longrightarrow> overlay (overlay out off a) (off + length a) b = overlay out off (a @ b)"
  by (simp add: overlay_def ac_simps)

lemma overlay_full [simp]: "length w = length out \<Longrightarrow> overlay out 0 w = w"
  by (simp add: overlay_def)

lemma overlay_update_after [overlay_simps]:
  assumes "off + length a < length out"
  shows "(overlay out off a)[off + length a := b] = overlay out off (a @ [b])"
  using assms by (simp add: overlay_update overlay_overlay)

text \<open>Consecutive element stores \<^verbatim>\<open>out[off] = b0; out[off + 1] = b1; ...\<close>.\<close>

fun stores :: "'a list \<Rightarrow> nat \<Rightarrow> 'a list \<Rightarrow> 'a list" where
  "stores out off [] = out"
| "stores out off (b # bs) = stores (out[off := b]) (off + 1) bs"

lemma stores_overlay [overlay_simps]:
  "off + length bs \<le> length out \<Longrightarrow> stores out off bs = overlay out off bs"
proof (induction bs arbitrary: out off)
  case Nil
  then show ?case by simp
next
  case (Cons b bs)
  then have "stores out off (b # bs) = overlay (overlay out off [b]) (off + length [b]) bs"
    by (simp add: overlay_update)
  also have "\<dots> = overlay out off (b # bs)"
    using Cons.prems overlay_overlay [of off "[b]" out bs] by simp
  finally show ?case .
qed

declare stores.simps(2) [simp del]

section \<open>Endian integers\<close>

text \<open>\<^verbatim>\<open>DataView\<close> accesses: \<^term>\<open>le_bytes 4\<close> is \<^verbatim>\<open>setUint32(_, v, true)\<close> and
  \<^term>\<open>be_bytes 8\<close> is \<^verbatim>\<open>setBigUint64(_, v, false)\<close>; both keep the low bits of the value.\<close>

primrec le_bytes :: "nat \<Rightarrow> nat \<Rightarrow> bytes" where
  "le_bytes 0 n = []"
| "le_bytes (Suc k) n = of_nat n # le_bytes k (n div 256)"

primrec le_val :: "bytes \<Rightarrow> nat" where
  "le_val [] = 0"
| "le_val (b # bs) = unat b + 256 * le_val bs"

primrec be_bytes :: "nat \<Rightarrow> nat \<Rightarrow> bytes" where
  "be_bytes 0 n = []"
| "be_bytes (Suc k) n = of_nat (n div 256 ^ k) # be_bytes k n"

primrec be_val :: "bytes \<Rightarrow> nat" where
  "be_val [] = 0"
| "be_val (b # bs) = unat b * 256 ^ length bs + be_val bs"

lemma length_le_bytes [simp]: "length (le_bytes k n) = k"
  by (induction k arbitrary: n) auto

lemma length_be_bytes [simp]: "length (be_bytes k n) = k"
  by (induction k) auto

lemma unat_of_nat_byte [simp]: "unat (of_nat n :: byte) = n mod 256"
  by (simp add: unat_of_nat)

lemma unat_byte_less [simp]: "unat (b :: byte) < 256"
  using unsigned_less [of b] by simp

lemma unat_byte_le [simp]: "unat (b :: byte) \<le> 255"
  using unat_byte_less [of b] by linarith

lemma le_val_le_bytes: "le_val (le_bytes k n) = n mod 256 ^ k"
proof (induction k arbitrary: n)
  case 0
  then show ?case by simp
next
  case (Suc k)
  then show ?case by (simp add: mod_mult2_eq)
qed

lemma le_val_round [simp]: "n < 256 ^ k \<Longrightarrow> le_val (le_bytes k n) = n"
  by (simp add: le_val_le_bytes)

lemma of_nat_unat_byte_add [simp]: "(of_nat (unat b + 256 * n) :: byte) = b"
  by (simp add: word_unat_eq_iff del: of_nat_add)

lemma le_bytes_le_val: "le_bytes (length bs) (le_val bs) = bs"
  by (induction bs) (simp_all del: of_nat_add)

lemma be_bytes_mod: "be_bytes k (n mod 256 ^ j) = be_bytes k n" if "k \<le> j"
  using that
proof (induction k)
  case 0
  then show ?case by simp
next
  case (Suc k)
  then obtain d where j: "j = Suc k + d" using le_Suc_ex by blast
  have "n mod 256 ^ j = 256 ^ k * (n div 256 ^ k mod 256 ^ Suc d) + n mod 256 ^ k"
    using mod_mult2_eq [of n "256 ^ k" "256 ^ Suc d"] by (simp add: j power_add ac_simps)
  then have "(n mod 256 ^ j) div 256 ^ k = (n div 256 ^ k) mod 256 ^ (Suc d)"
    by (simp add: div_mult_self4)
  then have "(n mod 256 ^ j) div 256 ^ k mod 256 = n div 256 ^ k mod 256"
    by (simp add: mod_mod_cancel)
  then have "(of_nat ((n mod 256 ^ j) div 256 ^ k) :: byte) = of_nat (n div 256 ^ k)"
    by (metis unat_of_nat_byte word_unat_eq_iff)
  with Suc show ?case by simp
qed

lemma be_val_be_bytes: "be_val (be_bytes k n) = n mod 256 ^ k"
proof (induction k)
  case 0
  then show ?case by simp
next
  case (Suc k)
  then show ?case
    using mod_mult2_eq [of n "256 ^ k" 256] by (simp add: mult.commute)
qed

lemma be_bytes_be_val: "be_bytes (length bs) (be_val bs) = bs"
proof (induction bs)
  case Nil
  then show ?case by simp
next
  case (Cons b bs)
  have lt: "be_val xs < 256 ^ length xs" for xs :: bytes
  proof (induction xs)
    case Nil
    then show ?case by simp
  next
    case (Cons x xs)
    have "unat x * 256 ^ length xs \<le> 255 * 256 ^ length xs" by (rule mult_le_mono1) simp
    moreover have "be_val xs < 256 ^ length xs" by fact
    ultimately show ?case
      by (simp only: be_val.simps length_Cons power_Suc)
  qed
  have "be_bytes (length bs) (unat b * 256 ^ length bs + be_val bs) = be_bytes (length bs) (be_val bs)"
    using be_bytes_mod [of "length bs" "length bs"] lt [of bs]
    by (metis mod_less mod_mult_self3 order_refl)
  then show ?case using Cons lt [of bs] by simp
qed

section \<open>Bit operations on naturals\<close>

lemma nat_or_add:
  fixes x :: nat
  assumes "x < 2 ^ k"
  shows "(a * 2 ^ k) OR x = a * 2 ^ k + x"
proof -
  have "x = take_bit k x" using assms by (simp add: take_bit_nat_eq_self)
  then have "push_bit k a AND x = 0"
    by (auto intro!: bit_eqI simp: bit_simps) (metis bit_take_bit_iff linorder_not_le)
  then show ?thesis by (simp add: disjunctive_add_eq_or push_bit_eq_mult)
qed

lemma nat_and_63: "n AND 63 = n mod (64 :: nat)"
  using take_bit_eq_mask [of 6 n] by (simp add: take_bit_eq_mod mask_eq_exp_minus_1)

section \<open>The byte order of keys\<close>

lemma append_less_append [simp]: "(p @ xs < p @ ys) = (xs < (ys :: 'a :: linorder list))"
  by (induction p) auto

lemma append_le_append [simp]: "(p @ xs \<le> p @ ys) = (xs \<le> (ys :: 'a :: linorder list))"
  by (induction p) auto

lemma self_le_append [simp]: "p \<le> p @ (xs :: 'a :: linorder list)"
  by (induction p) auto

lemma div_mod_less_iff:
  "(n div p < m div p \<or> n div p = m div p \<and> n mod p < m mod p) \<longleftrightarrow> n < (m :: nat)"
proof -
  have eq: "n = n div p * p + n mod p" "m = m div p * p + m mod p" by (simp_all only: div_mult_mod_eq)
  have "n < m" if "n div p < m div p"
    using that div_le_mono [of m n p] by linarith
  moreover have "m < n" if "m div p < n div p"
    using that div_le_mono [of n m p] by linarith
  moreover have "n < m \<longleftrightarrow> n mod p < m mod p" if "n div p = m div p"
    using eq that by (metis add_less_cancel_left)
  ultimately show ?thesis by (metis linorder_neqE_nat order_less_asym)
qed

lemma be_bytes_less:
  assumes "n < 256 ^ k" and "m < 256 ^ k"
  shows "be_bytes k n < be_bytes k m \<longleftrightarrow> n < m"
  using assms
proof (induction k arbitrary: n m)
  case 0
  then show ?case by simp
next
  case (Suc k)
  let ?P = "(256::nat) ^ k"
  have q: "n div ?P < 256" "m div ?P < 256"
    using Suc.prems by (simp_all add: less_mult_imp_div_less)
  have head: "(of_nat (n div ?P) < (of_nat (m div ?P) :: byte)) = (n div ?P < m div ?P)"
       "((of_nat (n div ?P) :: byte) = of_nat (m div ?P)) = (n div ?P = m div ?P)"
    using q by (auto simp: word_less_nat_alt word_unat_eq_iff)
  have "be_bytes k n < be_bytes k m \<longleftrightarrow> n mod ?P < m mod ?P"
    using Suc.IH [of "n mod ?P" "m mod ?P"] by (simp add: be_bytes_mod)
  then have "be_bytes (Suc k) n < be_bytes (Suc k) m \<longleftrightarrow>
      n div ?P < m div ?P \<or> n div ?P = m div ?P \<and> n mod ?P < m mod ?P"
    using head by simp
  also have "\<dots> \<longleftrightarrow> n < m"
    by (rule div_mod_less_iff)
  finally show ?case .
qed

section \<open>Self-delimiting encodings\<close>

text \<open>
  The contract of an encoding whose concatenations can be read back and compared: the code of one
  valid item decides every comparison against the code of another one, whatever follows the two
  codes.
\<close>

locale delimited_code =
  fixes enc :: "'a :: linorder \<Rightarrow> bytes" and valid :: "'a \<Rightarrow> bool"
  assumes enc_less: "valid x \<Longrightarrow> valid y \<Longrightarrow> enc x @ u < enc y @ v \<longleftrightarrow> x < y \<or> x = y \<and> u < v"
    and enc_nonempty: "valid x \<Longrightarrow> enc x \<noteq> []"
begin

lemma enc_eq: "valid x \<Longrightarrow> valid y \<Longrightarrow> enc x @ u = enc y @ v \<longleftrightarrow> x = y \<and> u = v"
  using enc_less [of x y u v] enc_less [of y x v u] by (metis linorder_neq_iff)

lemma enc_list_less:
  "list_all valid xs \<Longrightarrow> list_all valid ys \<Longrightarrow> concat (map enc xs) < concat (map enc ys) \<longleftrightarrow> xs < ys"
proof (induction xs arbitrary: ys)
  case Nil
  have "[] < enc y @ u" if "valid y" for y u
    using enc_nonempty [OF that] by (cases "enc y") simp_all
  with Nil show ?case by (cases ys) simp_all
next
  case (Cons x xs)
  then show ?case using enc_nonempty [of x] by (cases ys) (simp_all add: enc_less)
qed

lemma enc_list_inj:
  "list_all valid xs \<Longrightarrow> list_all valid ys \<Longrightarrow> concat (map enc xs) = concat (map enc ys) \<longleftrightarrow> xs = ys"
  using enc_list_less [of xs ys] enc_list_less [of ys xs] by (metis linorder_neq_iff)

lemma enc_list_prefix:
  "list_all valid xs \<Longrightarrow> list_all valid ys \<Longrightarrow>
     (\<exists>u. concat (map enc ys) = concat (map enc xs) @ u) \<longleftrightarrow> (\<exists>zs. ys = xs @ zs)"
proof (induction xs arbitrary: ys)
  case Nil
  then show ?case by simp
next
  case (Cons x xs)
  then show ?case
    using enc_nonempty by (cases ys) (auto simp: enc_eq)
qed

end

end
