(* ===== verification/JsNumber.thy ===== *)
theory JsNumber
  imports Prelude
begin

text \<open>
  JavaScript numbers as IEEE-754 binary64 bit patterns, and \<^verbatim>\<open>bigint\<close> values as integers.
  Every finite double is an integral multiple of \<open>2\<^sup>-\<^sup>1\<^sup>0\<^sup>7\<^sup>4\<close>, so the exact value of a finite
  number is kept as the integer \<open>f64_scaled\<close>, its value in units of \<open>2\<^sup>-\<^sup>1\<^sup>0\<^sup>7\<^sup>4\<close>; comparisons and
  the integer predicates of \<^verbatim>\<open>Number\<close> are exact on it.
\<close>

section \<open>Bit patterns\<close>

type_synonym f64 = "64 word"

definition f64_mag :: "f64 \<Rightarrow> nat" where
  "f64_mag v = unat v mod 2 ^ 63"

definition f64_negative :: "f64 \<Rightarrow> bool" where
  "f64_negative v \<longleftrightarrow> 2 ^ 63 \<le> unat v"

definition f64_is_finite :: "f64 \<Rightarrow> bool" where
  "f64_is_finite v \<longleftrightarrow> f64_mag v div 2 ^ 52 < 2047"

definition f64_is_negative_zero :: "f64 \<Rightarrow> bool" where
  "f64_is_negative_zero v \<longleftrightarrow> v = 2 ^ 63"

text \<open>The magnitude of a number in units of \<open>2\<^sup>-\<^sup>1\<^sup>0\<^sup>7\<^sup>4\<close>: subnormal numbers have a zero exponent field.\<close>

definition mag_scaled :: "nat \<Rightarrow> nat" where
  "mag_scaled m =
     (let e = m div 2 ^ 52; f = m mod 2 ^ 52
      in if e = 0 then f else (2 ^ 52 + f) * 2 ^ (e - 1))"

definition f64_scaled :: "f64 \<Rightarrow> int" where
  "f64_scaled v = (if f64_negative v then - int (mag_scaled (f64_mag v)) else int (mag_scaled (f64_mag v)))"

definition f64_unit :: int where
  "f64_unit = 2 ^ 1074"

text \<open>\<^verbatim>\<open>Number.isInteger\<close>, \<^verbatim>\<open>Number.isSafeInteger\<close>, \<^verbatim>\<open>BigInt(number)\<close>.\<close>

definition f64_is_integer :: "f64 \<Rightarrow> bool" where
  "f64_is_integer v \<longleftrightarrow> f64_is_finite v \<and> f64_scaled v mod f64_unit = 0"

definition f64_int :: "f64 \<Rightarrow> int" where
  "f64_int v = f64_scaled v div f64_unit"

definition max_safe_integer :: int where
  "max_safe_integer = 2 ^ 53 - 1"

definition f64_is_safe_integer :: "f64 \<Rightarrow> bool" where
  "f64_is_safe_integer v \<longleftrightarrow> f64_is_integer v \<and> \<bar>f64_int v\<bar> \<le> max_safe_integer"

text \<open>A value of the TypeScript type \<^verbatim>\<open>number | bigint\<close>.\<close>

datatype numeric = Num f64 | Big int

text \<open>The number with a given natural value, for values below \<open>2\<^sup>5\<^sup>3\<close>.\<close>

fun ilog2 :: "nat \<Rightarrow> nat" where
  "ilog2 n = (if n < 2 then 0 else Suc (ilog2 (n div 2)))"

declare ilog2.simps [simp del]

definition f64_of_nat :: "nat \<Rightarrow> f64" where
  "f64_of_nat n =
     (if n = 0 then 0
      else let e = ilog2 n in of_nat ((1023 + e) * 2 ^ 52 + (n * 2 ^ (52 - e) - 2 ^ 52)))"

section \<open>The order of numbers\<close>

lemma mag_scaled_split:
  assumes "f < 2 ^ 52"
  shows "mag_scaled (e * 2 ^ 52 + f) = (if e = 0 then f else (2 ^ 52 + f) * 2 ^ (e - 1))"
proof -
  have "(e * 2 ^ 52 + f) div 2 ^ 52 = e" "(e * 2 ^ 52 + f) mod 2 ^ 52 = f"
    using assms by simp_all
  then show ?thesis by (simp only: mag_scaled_def Let_def)
qed

lemma mag_scaled_Suc: "mag_scaled m < mag_scaled (Suc m)"
proof -
  define e f where "e = m div 2 ^ 52" and "f = m mod 2 ^ 52"
  have m: "m = e * 2 ^ 52 + f"
    by (simp only: e_def f_def div_mult_mod_eq)
  have f: "f < 2 ^ 52" by (simp add: f_def)
  have now: "mag_scaled m = (if e = 0 then f else (2 ^ 52 + f) * 2 ^ (e - 1))"
    using mag_scaled_split [OF f] by (simp only: m)
  show ?thesis
  proof (cases "Suc f < 2 ^ 52")
    case True
    have "Suc m = e * 2 ^ 52 + Suc f" using m by simp
    then have "mag_scaled (Suc m) = (if e = 0 then Suc f else (2 ^ 52 + Suc f) * 2 ^ (e - 1))"
      using mag_scaled_split [OF True] by (simp only:)
    with now show ?thesis by simp
  next
    case False
    with f have "Suc f = 2 ^ 52" by linarith
    then have "Suc m = Suc e * 2 ^ 52 + 0" using m by simp
    then have "mag_scaled (Suc m) = 2 ^ 52 * 2 ^ e"
      using mag_scaled_split [of 0 "Suc e"] by (simp only:) simp
    moreover have "(2 ^ 52 + f) * 2 ^ (e - 1) < 2 ^ 52 * 2 ^ e" if "e \<noteq> 0"
    proof -
      have "(2 ^ 52 + f) * 2 ^ (e - 1) < (2 ^ 52 + 2 ^ 52) * (2 :: nat) ^ (e - 1)"
        using f by simp
      also have "\<dots> = 2 ^ 52 * 2 ^ e"
        using that by (cases e) simp_all
      finally show ?thesis .
    qed
    ultimately show ?thesis using now f by simp
  qed
qed

lemma mag_scaled_less [simp]: "mag_scaled m < mag_scaled n \<longleftrightarrow> m < n"
proof -
  have "strict_mono mag_scaled"
    by (simp add: strict_mono_Suc_iff mag_scaled_Suc)
  then show ?thesis by (rule strict_mono_less)
qed

lemma mag_scaled_zero [simp]: "mag_scaled 0 = 0"
  by (simp add: mag_scaled_def)

lemma mag_scaled_eq_0 [simp]: "mag_scaled m = 0 \<longleftrightarrow> m = 0"
  using mag_scaled_less [of 0 m] by (metis bot_nat_0.not_eq_extremum mag_scaled_zero)

lemma f64_sign: "unat v div 2 ^ 63 = (if f64_negative v then 1 else 0)"
proof -
  have "unat v < 2 ^ 64" using unsigned_less [of v] by simp
  then show ?thesis by (auto simp: f64_negative_def div_nat_eqI)
qed

lemma unat_f64: "unat v = (if f64_negative v then 2 ^ 63 else 0) + f64_mag v"
  using div_mult_mod_eq [of "unat v" "2 ^ 63"] unfolding f64_sign f64_mag_def by (simp split: if_splits)

lemma f64_mag_less [simp]: "f64_mag v < 2 ^ 63"
  by (simp add: f64_mag_def)

lemma f64_negative_zero_iff: "f64_is_negative_zero v \<longleftrightarrow> f64_negative v \<and> f64_mag v = 0"
proof -
  have "f64_is_negative_zero v \<longleftrightarrow> unat v = 2 ^ 63"
    by (simp add: f64_is_negative_zero_def word_unat_eq_iff)
  then show ?thesis using unat_f64 [of v] f64_mag_less [of v] by (auto split: if_splits)
qed

section \<open>Natural numbers\<close>

lemma ilog2_bounds: "0 < n \<Longrightarrow> 2 ^ ilog2 n \<le> n \<and> n < 2 * 2 ^ ilog2 n"
proof (induction n rule: ilog2.induct)
  case (1 n)
  show ?case
  proof (cases "n < 2")
    case True
    with 1 show ?thesis by (simp add: ilog2.simps [of n])
  next
    case False
    then have "2 ^ ilog2 (n div 2) \<le> n div 2 \<and> n div 2 < 2 * 2 ^ ilog2 (n div 2)"
      using 1 by simp
    then have "2 * 2 ^ ilog2 (n div 2) \<le> n" "n < 2 * (2 * 2 ^ ilog2 (n div 2))" by linarith+
    then show ?thesis using False by (simp add: ilog2.simps [of n])
  qed
qed

lemma f64_of_nat_parts:
  assumes "0 < n" and "n < 2 ^ 53"
  defines "f \<equiv> n * 2 ^ (52 - ilog2 n) - 2 ^ 52"
  shows "ilog2 n \<le> 52" and "f < 2 ^ 52" and "(2 ^ 52 + f) * 2 ^ ilog2 n = n * 2 ^ 52"
proof -
  let ?e = "ilog2 n"
  have b: "2 ^ ?e \<le> n" "n < 2 ^ Suc ?e" using ilog2_bounds [OF assms(1)] by simp_all
  then have "(2 :: nat) ^ ?e < 2 ^ 53" using assms(2) by linarith
  then have "?e < 53" by (rule power_less_imp_less_exp [rotated]) simp
  then show e: "?e \<le> 52" by simp
  have p: "(2 :: nat) ^ ?e * 2 ^ (52 - ?e) = 2 ^ 52" "(2 :: nat) ^ Suc ?e * 2 ^ (52 - ?e) = 2 ^ 53"
    using e by (simp_all flip: power_add)
  have lo: "2 ^ 52 \<le> n * 2 ^ (52 - ?e)" using mult_le_mono1 [OF b(1), of "2 ^ (52 - ?e)"] p by simp
  have "n * 2 ^ (52 - ?e) < 2 ^ Suc ?e * 2 ^ (52 - ?e)" using b(2) by (intro mult_strict_right_mono) simp_all
  then have "n * 2 ^ (52 - ?e) < 2 ^ 53" using p(2) by (simp only:)
  then show "f < 2 ^ 52" using lo by (simp add: f_def)
  have "2 ^ 52 + f = n * 2 ^ (52 - ?e)" using lo by (simp add: f_def)
  then show "(2 ^ 52 + f) * 2 ^ ?e = n * 2 ^ 52"
    using p(1) by (metis mult.assoc mult.commute)
qed

lemma f64_of_nat_scaled:
  assumes "n < 2 ^ 53"
  shows "f64_scaled (f64_of_nat n) = int n * f64_unit" and "f64_is_finite (f64_of_nat n)"
proof -
  have "f64_scaled (f64_of_nat n) = int n * f64_unit \<and> f64_is_finite (f64_of_nat n)"
  proof (cases "n = 0")
    case True
    then show ?thesis
      by (simp add: f64_of_nat_def f64_scaled_def f64_mag_def f64_is_finite_def)
  next
    case False
    define e f where "e = ilog2 n" and "f = n * 2 ^ (52 - ilog2 n) - 2 ^ 52"
    have parts: "e \<le> 52" "f < 2 ^ 52" "(2 ^ 52 + f) * 2 ^ e = n * 2 ^ 52"
      using f64_of_nat_parts [of n] False assms by (simp_all only: e_def f_def neq0_conv)
    define u where "u = (1023 + e) * 2 ^ 52 + f"
    have u: "u < 2 ^ 63" using parts(1,2) by (simp add: u_def)
    have v: "f64_of_nat n = of_nat u" using False by (simp only: f64_of_nat_def u_def e_def f_def Let_def if_False)
    have "unat (of_nat u :: f64) = u" using u by (simp add: unat_of_nat)
    then have mag: "f64_mag (of_nat u) = u" "\<not> f64_negative (of_nat u)"
      using u by (simp_all add: f64_mag_def f64_negative_def)
    have "mag_scaled u = (2 ^ 52 + f) * 2 ^ (e + 1022)"
      unfolding u_def by (subst mag_scaled_split [OF parts(2)]) (simp add: add.commute)
    also have "\<dots> = (2 ^ 52 + f) * 2 ^ e * 2 ^ 1022" by (simp only: power_add mult.assoc)
    also have "\<dots> = n * (2 ^ 52 * 2 ^ 1022)" by (simp only: parts(3) mult.assoc)
    also have "\<dots> = n * 2 ^ (52 + 1022)" by (simp only: power_add)
    finally have s: "mag_scaled u = n * 2 ^ 1074" by (simp only: arith_simps)
    have "u div 2 ^ 52 = 1023 + e" using parts(2) by (simp add: u_def)
    then show ?thesis using s mag parts(1) by (simp add: v f64_scaled_def f64_unit_def f64_is_finite_def)
  qed
  then show "f64_scaled (f64_of_nat n) = int n * f64_unit" "f64_is_finite (f64_of_nat n)" by blast+
qed

lemma f64_of_nat [simp]:
  assumes "n < 2 ^ 53"
  shows "f64_int (f64_of_nat n) = int n" "f64_is_integer (f64_of_nat n)" "f64_is_safe_integer (f64_of_nat n)"
proof -
  have "f64_unit \<noteq> 0" by (simp add: f64_unit_def)
  with f64_of_nat_scaled [OF assms] show i: "f64_int (f64_of_nat n) = int n" and n: "f64_is_integer (f64_of_nat n)"
    by (simp_all add: f64_int_def f64_is_integer_def)
  have "int n \<le> 2 ^ 53 - 1" using assms by simp
  with i n show "f64_is_safe_integer (f64_of_nat n)"
    by (simp add: f64_is_safe_integer_def max_safe_integer_def)
qed

end
