(* ===== verification/JsString.thy ===== *)
theory JsString
  imports Prelude
begin

text \<open>
  JavaScript strings as lists of UTF-16 code units, and the part of the platform's string library
  the sources use: iteration by code point, \<^verbatim>\<open>TextEncoder\<close>, and \<^verbatim>\<open>TextDecoder\<close> in its fatal mode
  (which also drops a leading byte order mark).
\<close>

section \<open>Code units and code points\<close>

type_synonym code_unit = "16 word"
type_synonym jsstring = "code_unit list"

text \<open>String literals of the sources are ASCII.\<close>

definition js :: "string \<Rightarrow> jsstring" where
  "js s = map of_char s"

definition is_surrogate :: "nat \<Rightarrow> bool" where
  "is_surrogate p \<longleftrightarrow> 0xd800 \<le> p \<and> p \<le> 0xdfff"

definition is_high :: "nat \<Rightarrow> bool" where
  "is_high p \<longleftrightarrow> 0xd800 \<le> p \<and> p \<le> 0xdbff"

definition is_low :: "nat \<Rightarrow> bool" where
  "is_low p \<longleftrightarrow> 0xdc00 \<le> p \<and> p \<le> 0xdfff"

definition is_scalar :: "nat \<Rightarrow> bool" where
  "is_scalar p \<longleftrightarrow> p < 0x110000 \<and> \<not> is_surrogate p"

lemmas code_point_defs = is_surrogate_def is_high_def is_low_def is_scalar_def

text \<open>The code points of a string, as \<^verbatim>\<open>for (const c of s)\<close> visits them: a lone surrogate is itself.\<close>

fun code_points :: "jsstring \<Rightarrow> nat list" where
  "code_points [] = []"
| "code_points [c] = [unat c]"
| "code_points (c # d # s) =
     (if is_high (unat c) \<and> is_low (unat d)
      then ((unat c - 0xd800) * 1024 + (unat d - 0xdc00) + 0x10000) # code_points s
      else unat c # code_points (d # s))"

definition well_formed :: "jsstring \<Rightarrow> bool" where
  "well_formed s \<longleftrightarrow> list_all (\<lambda>p. \<not> is_surrogate p) (code_points s)"

definition utf16_point :: "nat \<Rightarrow> jsstring" where
  "utf16_point p =
     (if p < 0x10000 then [of_nat p]
      else [of_nat (0xd800 + (p - 0x10000) div 1024), of_nat (0xdc00 + (p - 0x10000) mod 1024)])"

definition utf16 :: "nat list \<Rightarrow> jsstring" where
  "utf16 ps = concat (map utf16_point ps)"

section \<open>UTF-8\<close>

definition utf8_point :: "nat \<Rightarrow> bytes" where
  "utf8_point p =
     (if p < 0x80 then [of_nat p]
      else if p < 0x800 then [of_nat (0xc0 + p div 64), of_nat (0x80 + p mod 64)]
      else if p < 0x10000 then
        [of_nat (0xe0 + p div 4096), of_nat (0x80 + p div 64 mod 64), of_nat (0x80 + p mod 64)]
      else [of_nat (0xf0 + p div 262144), of_nat (0x80 + p div 4096 mod 64),
            of_nat (0x80 + p div 64 mod 64), of_nat (0x80 + p mod 64)])"

definition utf8 :: "nat list \<Rightarrow> bytes" where
  "utf8 ps = concat (map utf8_point ps)"

text \<open>\<^verbatim>\<open>TextEncoder.encode\<close> replaces a lone surrogate by U+FFFD.\<close>

definition to_scalar :: "nat \<Rightarrow> nat" where
  "to_scalar p = (if is_surrogate p then 0xfffd else p)"

definition text_encode :: "jsstring \<Rightarrow> bytes" where
  "text_encode s = utf8 (map to_scalar (code_points s))"

definition continuation :: "byte \<Rightarrow> bool" where
  "continuation b \<longleftrightarrow> 0x80 \<le> unat b \<and> unat b < 0xc0"

definition low6 :: "byte \<Rightarrow> nat" where
  "low6 b = unat b mod 64"

text \<open>Strict UTF-8 decoding: shortest forms of scalar values only.\<close>

fun utf8_decode :: "bytes \<Rightarrow> nat list option" where
  "utf8_decode [] = Some []"
| "utf8_decode (a # bs) =
     (let n = unat a in
      if n < 0x80 then map_option ((#) n) (utf8_decode bs)
      else if n < 0xc0 then None
      else case bs of
        [] \<Rightarrow> None
      | b # bs1 \<Rightarrow>
        if \<not> continuation b then None
        else if n < 0xe0 then
          (let p = (n - 0xc0) * 64 + low6 b
           in if p < 0x80 then None else map_option ((#) p) (utf8_decode bs1))
        else (case bs1 of
          [] \<Rightarrow> None
        | c # bs2 \<Rightarrow>
          if \<not> continuation c then None
          else if n < 0xf0 then
            (let p = (n - 0xe0) * 4096 + low6 b * 64 + low6 c
             in if p < 0x800 \<or> is_surrogate p then None else map_option ((#) p) (utf8_decode bs2))
          else (case bs2 of
            [] \<Rightarrow> None
          | d # bs3 \<Rightarrow>
            if \<not> continuation d \<or> 0xf8 \<le> n then None
            else
              (let p = (n - 0xf0) * 262144 + low6 b * 4096 + low6 c * 64 + low6 d
               in if p < 0x10000 \<or> 0x110000 \<le> p then None
                  else map_option ((#) p) (utf8_decode bs3)))))"

definition strip_bom :: "bytes \<Rightarrow> bytes" where
  "strip_bom bs = (if take 3 bs = [0xef, 0xbb, 0xbf] then drop 3 bs else bs)"

text \<open>\<^verbatim>\<open>new TextDecoder('utf-8', { fatal: true }).decode\<close>: \<^term>\<open>None\<close> is the thrown \<^verbatim>\<open>TypeError\<close>.\<close>

definition text_decode_fatal :: "bytes \<Rightarrow> jsstring option" where
  "text_decode_fatal bs = map_option utf16 (utf8_decode (strip_bom bs))"

section \<open>Round trips\<close>

lemma unat_code_unit_less [simp]: "unat (c :: code_unit) < 65536"
  using unsigned_less [of c] by simp

lemma unat_of_nat_code_unit [simp]: "unat (of_nat n :: code_unit) = n mod 65536"
  by (simp add: unat_of_nat)

lemma of_nat_unat_code_unit [simp]: "of_nat (unat c) = (c :: code_unit)"
  by simp

lemma js_Nil: "js [] = []"
  by (simp add: js_def)

lemma js_eq_iff: "js s = js t \<longleftrightarrow> s = t"
proof -
  have unat: "unat (of_char c :: code_unit) = of_char c" for c :: char
  proof -
    have "unat (of_nat (of_char c) :: code_unit) = of_char c"
      using nat_of_char_less_256 [of c] by (simp add: unat_of_nat del: nat_of_char_less_256 of_nat_of_char)
    then show ?thesis by (simp only: of_nat_of_char)
  qed
  have "inj (of_char :: char \<Rightarrow> code_unit)"
    by (rule injI) (metis unat of_char_eq_iff)
  then show ?thesis by (simp add: js_def inj_map_eq_map)
qed

lemma utf16_code_points: "utf16 (code_points s) = s"
proof (induction s rule: code_points.induct)
  case (3 c d s)
  show ?case
  proof (cases "is_high (unat c) \<and> is_low (unat d)")
    case True
    define h l where "h = unat c - 0xd800" and "l = unat d - 0xdc00"
    have hl: "unat c = 0xd800 + h" "unat d = 0xdc00 + l" "l < 1024"
      using True by (auto simp: h_def l_def is_high_def is_low_def)
    then have "c = of_nat (0xd800 + h)" "d = of_nat (0xdc00 + l)"
      by (metis of_nat_unat_code_unit)+
    moreover have "(h * 1024 + l + 0x10000 - 0x10000) div 1024 = h"
        "(h * 1024 + l + 0x10000 - 0x10000) mod 1024 = l"
      using hl by simp_all
    ultimately have "utf16_point (h * 1024 + l + 0x10000) = [c, d]"
      by (simp add: utf16_point_def del: of_nat_add)
    with 3 True show ?thesis by (simp add: utf16_def flip: h_def l_def)
  next
    case False
    with 3 show ?thesis by (auto simp: utf16_def utf16_point_def)
  qed
qed (simp_all add: utf16_def utf16_point_def)

lemma code_points_bound: "p \<in> set (code_points s) \<Longrightarrow> p < 0x110000"
proof (induction s rule: code_points.induct)
  case (2 c)
  then show ?case using unat_code_unit_less [of c] by (simp del: unat_code_unit_less)
next
  case (3 c d s)
  then show ?case using unat_code_unit_less [of c]
    by (auto simp del: unat_code_unit_less simp: is_high_def is_low_def split: if_splits)
qed simp

lemma well_formed_scalars: "well_formed s \<Longrightarrow> p \<in> set (code_points s) \<Longrightarrow> is_scalar p"
  using code_points_bound [of p s] by (auto simp: well_formed_def list_all_iff is_scalar_def)

lemma continuation_byte [simp]:
  "r < 64 \<Longrightarrow> continuation (of_nat (0x80 + r))"
  "r < 64 \<Longrightarrow> low6 (of_nat (0x80 + r)) = r"
  using mod_mult_self3 [of 2 64 r] by (simp_all add: continuation_def low6_def del: of_nat_add)

lemma utf8_decode_lead:
  "q < 32 \<Longrightarrow> r < 64 \<Longrightarrow> 0x80 \<le> q * 64 + r \<Longrightarrow>
     utf8_decode (of_nat (0xc0 + q) # of_nat (0x80 + r) # bs) = map_option ((#) (q * 64 + r)) (utf8_decode bs)"
  "q < 16 \<Longrightarrow> r < 64 \<Longrightarrow> s < 64 \<Longrightarrow> 0x800 \<le> q * 4096 + r * 64 + s \<Longrightarrow>
     \<not> is_surrogate (q * 4096 + r * 64 + s) \<Longrightarrow>
     utf8_decode (of_nat (0xe0 + q) # of_nat (0x80 + r) # of_nat (0x80 + s) # bs) =
       map_option ((#) (q * 4096 + r * 64 + s)) (utf8_decode bs)"
  "q < 8 \<Longrightarrow> r < 64 \<Longrightarrow> s < 64 \<Longrightarrow> t < 64 \<Longrightarrow> 0x10000 \<le> q * 262144 + r * 4096 + s * 64 + t \<Longrightarrow>
     q * 262144 + r * 4096 + s * 64 + t < 0x110000 \<Longrightarrow>
     utf8_decode (of_nat (0xf0 + q) # of_nat (0x80 + r) # of_nat (0x80 + s) # of_nat (0x80 + t) # bs) =
       map_option ((#) (q * 262144 + r * 4096 + s * 64 + t)) (utf8_decode bs)"
  by (simp_all add: Let_def del: of_nat_add)

lemma utf8_decode_point:
  assumes "is_scalar p"
  shows "utf8_decode (utf8_point p @ bs) = map_option ((#) p) (utf8_decode bs)"
proof -
  have d: "p div 4096 = p div 64 div 64" "p div 262144 = p div 64 div 64 div 64"
    by (simp_all flip: div_mult2_eq)
  have e: "p div 64 * 64 + p mod 64 = p" "p div 4096 * 4096 + p div 64 mod 64 * 64 + p mod 64 = p"
      "p div 262144 * 262144 + p div 4096 mod 64 * 4096 + p div 64 mod 64 * 64 + p mod 64 = p"
    unfolding d using div_mult_mod_eq [of p 64] div_mult_mod_eq [of "p div 64" 64]
      div_mult_mod_eq [of "p div 64 div 64" 64] by linarith+
  consider "p < 0x80" | "0x80 \<le> p" "p < 0x800" | "0x800 \<le> p" "p < 0x10000" | "0x10000 \<le> p" "p < 0x110000"
    using assms by (fastforce simp: is_scalar_def)
  then show ?thesis
  proof cases
    case 1
    then show ?thesis by (simp add: utf8_point_def)
  next
    case 2
    then have "p div 64 < 32" by (simp add: less_mult_imp_div_less)
    with 2 show ?thesis
      using utf8_decode_lead(1) [of "p div 64" "p mod 64" bs] e
      by (simp add: utf8_point_def del: of_nat_add utf8_decode.simps)
  next
    case 3
    then have "p div 4096 < 16" by (simp add: less_mult_imp_div_less)
    with 3 show ?thesis
      using utf8_decode_lead(2) [of "p div 4096" "p div 64 mod 64" "p mod 64" bs] e assms
      by (simp add: utf8_point_def is_scalar_def del: of_nat_add utf8_decode.simps)
  next
    case 4
    then have "p div 262144 < 8" by (simp add: less_mult_imp_div_less)
    with 4 show ?thesis
      using utf8_decode_lead(3) [of "p div 262144" "p div 4096 mod 64" "p div 64 mod 64" "p mod 64" bs] e
      by (simp add: utf8_point_def del: of_nat_add utf8_decode.simps)
  qed
qed

lemma utf8_decode_utf8: "list_all is_scalar ps \<Longrightarrow> utf8_decode (utf8 ps) = Some ps"
  by (induction ps) (auto simp: utf8_def utf8_decode_point)

lemma utf8_decode_well_formed:
  assumes "well_formed s"
  shows "utf8_decode (utf8 (code_points s)) = Some (code_points s)"
  using assms by (auto intro: utf8_decode_utf8 simp: list_all_iff well_formed_scalars)

lemma text_encode_well_formed: "well_formed s \<Longrightarrow> text_encode s = utf8 (code_points s)"
proof -
  assume "well_formed s"
  then have "map to_scalar (code_points s) = code_points s"
    by (intro map_idI) (auto simp: to_scalar_def well_formed_def list_all_iff)
  then show ?thesis by (simp add: text_encode_def)
qed

lemma text_encode_inj:
  assumes "well_formed s" "well_formed t" "text_encode s = text_encode t"
  shows "s = t"
  using assms utf8_decode_well_formed [of s] utf8_decode_well_formed [of t]
  by (metis option.inject text_encode_well_formed utf16_code_points)

section \<open>UTF-8 keeps the order of code points\<close>

lemma byte_less_iff:
  assumes "a < 256" and "b < 256"
  shows "(of_nat a :: byte) < of_nat b \<longleftrightarrow> a < b" and "(of_nat a :: byte) = of_nat b \<longleftrightarrow> a = b"
  using assms by (auto simp: word_less_nat_alt word_unat_eq_iff)

lemma utf8_digits:
  "(p div 64 < q div 64 \<or> p div 64 = q div 64 \<and> p mod 64 < q mod 64) \<longleftrightarrow> p < (q :: nat)"
  "(p div 4096 < q div 4096 \<or> p div 4096 = q div 4096 \<and>
     (p div 64 mod 64 < q div 64 mod 64 \<or> p div 64 mod 64 = q div 64 mod 64 \<and> p mod 64 < q mod 64)) \<longleftrightarrow> p < q"
  "(p div 262144 < q div 262144 \<or> p div 262144 = q div 262144 \<and>
     (p div 4096 mod 64 < q div 4096 mod 64 \<or> p div 4096 mod 64 = q div 4096 mod 64 \<and>
      (p div 64 mod 64 < q div 64 mod 64 \<or> p div 64 mod 64 = q div 64 mod 64 \<and> p mod 64 < q mod 64))) \<longleftrightarrow> p < q"
proof -
  have d: "x div 4096 = x div 64 div 64" "x div 262144 = x div 64 div 64 div 64" for x :: nat
    by (simp_all flip: div_mult2_eq)
  have eq: "x div k = y div k \<and> x mod k = y mod k \<longleftrightarrow> x = y" for x y k :: nat
    by (metis div_mult_mod_eq)
  note lex = div_mod_less_iff [of _ 64, symmetric]
  show "(p div 64 < q div 64 \<or> p div 64 = q div 64 \<and> p mod 64 < q mod 64) \<longleftrightarrow> p < q"
    by (rule div_mod_less_iff)
  show "(p div 4096 < q div 4096 \<or> p div 4096 = q div 4096 \<and>
     (p div 64 mod 64 < q div 64 mod 64 \<or> p div 64 mod 64 = q div 64 mod 64 \<and> p mod 64 < q mod 64)) \<longleftrightarrow> p < q"
    unfolding d lex [of p q] lex [of "p div 64" "q div 64"]
    using eq [of "p div 64" 64 "q div 64"] by blast
  show "(p div 262144 < q div 262144 \<or> p div 262144 = q div 262144 \<and>
     (p div 4096 mod 64 < q div 4096 mod 64 \<or> p div 4096 mod 64 = q div 4096 mod 64 \<and>
      (p div 64 mod 64 < q div 64 mod 64 \<or> p div 64 mod 64 = q div 64 mod 64 \<and> p mod 64 < q mod 64))) \<longleftrightarrow> p < q"
    unfolding d lex [of p q] lex [of "p div 64" "q div 64"] lex [of "p div 64 div 64" "q div 64 div 64"]
    using eq [of "p div 64" 64 "q div 64"] eq [of "p div 64 div 64" 64 "q div 64 div 64"] by blast
qed

lemma utf8_point_less:
  assumes "p < q" and "q < 0x110000"
  shows "utf8_point p @ u < utf8_point q @ v"
proof -
  have lead: "x div 64 < 32" if "x < 0x800" for x :: nat using that by (simp add: less_mult_imp_div_less)
  have lead3: "x div 4096 < 16" if "x < 0x10000" for x :: nat using that by (simp add: less_mult_imp_div_less)
  have lead4: "x div 262144 < 8" if "x < 0x110000" for x :: nat using that by (simp add: less_mult_imp_div_less)
  have m: "128 + x mod 64 < (256 :: nat)" for x using mod_less_divisor [of 64 x] by linarith
  consider (1) "q < 0x80" | (2) "0x80 \<le> p" "q < 0x800" | (3) "0x800 \<le> p" "q < 0x10000" | (4) "0x10000 \<le> p"
    | (12) "p < 0x80" "0x80 \<le> q" | (23) "0x80 \<le> p" "p < 0x800" "0x800 \<le> q" | (34) "0x800 \<le> p" "p < 0x10000" "0x10000 \<le> q"
    using assms by linarith
  then show ?thesis
  proof cases
    case 1
    then show ?thesis using assms by (simp add: utf8_point_def byte_less_iff del: of_nat_add)
  next
    case 2
    then show ?thesis
      using assms lead [of p] lead [of q] m utf8_digits(1) [of p q]
      by (auto simp: utf8_point_def byte_less_iff simp del: of_nat_add)
  next
    case 3
    then show ?thesis
      using assms lead3 [of p] lead3 [of q] m utf8_digits(2) [of p q]
      by (auto simp: utf8_point_def byte_less_iff simp del: of_nat_add)
  next
    case 4
    then show ?thesis
      using assms lead4 [of p] lead4 [of q] m utf8_digits(3) [of p q]
      by (auto simp: utf8_point_def byte_less_iff simp del: of_nat_add)
  next
    case 12
    then show ?thesis
      using assms lead [of q] lead3 [of q] lead4 [of q]
      by (simp add: utf8_point_def byte_less_iff del: of_nat_add)
  next
    case 23
    then show ?thesis
      using assms lead [of p] lead3 [of q] lead4 [of q]
      by (simp add: utf8_point_def byte_less_iff del: of_nat_add)
  next
    case 34
    then show ?thesis
      using assms lead3 [of p] lead4 [of q]
      by (simp add: utf8_point_def byte_less_iff del: of_nat_add)
  qed
qed

interpretation point: delimited_code utf8_point "\<lambda>p. p < 0x110000"
proof
  fix p q :: nat and u v :: bytes
  assume "p < 0x110000" "q < 0x110000"
  then show "utf8_point p @ u < utf8_point q @ v \<longleftrightarrow> p < q \<or> p = q \<and> u < v"
    using utf8_point_less [of p q u v] utf8_point_less [of q p v u]
    by (cases p q rule: linorder_cases) auto
  show "utf8_point p \<noteq> []"
    by (simp add: utf8_point_def)
qed

lemma code_points_bounded: "list_all (\<lambda>p. p < 0x110000) (code_points s)"
  by (induction s rule: code_points.induct)
    (auto simp: is_high_def is_low_def intro: less_trans [OF unat_code_unit_less])

lemma utf8_code_points_less:
  "utf8 (code_points s) < utf8 (code_points t) \<longleftrightarrow> code_points s < code_points t"
  using point.enc_list_less [OF code_points_bounded code_points_bounded] by (simp add: utf8_def)

lemma utf8_code_points_eq:
  "utf8 (code_points s) = utf8 (code_points t) \<longleftrightarrow> s = t"
  using point.enc_list_inj [OF code_points_bounded [of s] code_points_bounded [of t]] utf16_code_points
  by (metis utf8_def)

section \<open>The byte order mark\<close>

lemma bom_utf8: "utf8_point 0xfeff = [0xef, 0xbb, 0xbf]"
  by (simp add: utf8_point_def)

lemma bom_prefix:
  assumes "list_all is_scalar ps"
  shows "take 3 (utf8 ps) = [0xef, 0xbb, 0xbf] \<longleftrightarrow> (\<exists>qs. ps = 0xfeff # qs)"
proof -
  have bounded: "list_all (\<lambda>p. p < 0x110000) ps" "list_all (\<lambda>p. p < 0x110000) [0xfeff :: nat]"
    using assms by (simp_all add: list_all_iff is_scalar_def)
  have "take 3 (utf8 ps) = [0xef, 0xbb, 0xbf] \<longleftrightarrow> (\<exists>u. utf8 ps = [0xef, 0xbb, 0xbf] @ u)"
  proof
    assume "take 3 (utf8 ps) = [0xef, 0xbb, 0xbf]"
    then show "\<exists>u. utf8 ps = [0xef, 0xbb, 0xbf] @ u" by (metis append_take_drop_id)
  qed auto
  also have "\<dots> \<longleftrightarrow> (\<exists>qs. ps = [0xfeff] @ qs)"
    using point.enc_list_prefix [OF bounded(2,1)] by (simp add: utf8_def bom_utf8)
  finally show ?thesis by simp
qed

definition starts_with_bom :: "jsstring \<Rightarrow> bool" where
  "starts_with_bom s \<longleftrightarrow> take 1 s = [0xfeff]"

lemma code_points_bom: "(\<exists>qs. code_points s = 0xfeff # qs) \<longleftrightarrow> starts_with_bom s"
proof (cases s rule: code_points.cases)
  case (2 c)
  have "unat c = 0xfeff \<longleftrightarrow> c = 0xfeff" by (auto simp: word_unat_eq_iff)
  with 2 show ?thesis by (simp add: starts_with_bom_def)
next
  case (3 c d t)
  have "unat c = 0xfeff \<longleftrightarrow> c = 0xfeff" by (auto simp: word_unat_eq_iff)
  moreover have "\<not> is_high 0xfeff" by (simp add: is_high_def)
  moreover have "(unat c - 0xd800) * 1024 + (unat d - 0xdc00) + 0x10000 \<noteq> 0xfeff" by simp
  ultimately show ?thesis using 3 by (auto simp: starts_with_bom_def)
qed (simp add: starts_with_bom_def)

lemma code_points_after_bom: "code_points (0xfeff # s) = 0xfeff # code_points s"
  by (cases s) (simp_all add: is_high_def)

lemma text_decode_fatal_utf8:
  assumes "well_formed s"
  shows "text_decode_fatal (utf8 (code_points s)) = Some (if starts_with_bom s then tl s else s)"
proof (cases "starts_with_bom s")
  case True
  then obtain t where s: "s = 0xfeff # t" by (cases s) (auto simp: starts_with_bom_def)
  have "utf8 (code_points s) = [0xef, 0xbb, 0xbf] @ utf8 (code_points t)"
    by (simp add: s code_points_after_bom utf8_def bom_utf8)
  moreover have "well_formed t"
    using assms by (simp add: s code_points_after_bom well_formed_def)
  ultimately show ?thesis
    by (simp add: text_decode_fatal_def strip_bom_def utf8_decode_well_formed utf16_code_points s starts_with_bom_def)
next
  case False
  have "list_all is_scalar (code_points s)"
    using assms by (auto simp: list_all_iff well_formed_scalars)
  then have "strip_bom (utf8 (code_points s)) = utf8 (code_points s)"
    using False by (simp add: strip_bom_def bom_prefix code_points_bom)
  then show ?thesis
    using False assms by (simp add: text_decode_fatal_def utf8_decode_well_formed utf16_code_points)
qed

end
