(* ===== verification/Codec.thy ===== *)
theory Codec
  imports JsNumber JsString
begin

text \<open>
  The key codec, \<^verbatim>\<open>packages/sdk/src/codec.ts\<close>: typed scalar keys, compound keys built from escaped
  and terminated parts, and prefix ranges. Encoders that fill a preallocated buffer are modelled as
  such: a first pass computes the length, a second one stores into an array of that length.

  The lemmas show that the two passes agree, that compound keys can be split back into their parts,
  and that the byte order of the encodings is the order of the encoded values.
\<close>

section \<open>Values and constants\<close>

text \<open>A runtime value where a \<^verbatim>\<open>CompoundKeyPart\<close> is expected; \<open>KOther\<close> is any other value.\<close>

datatype CompoundKeyPart =
    KNull | KBool bool | KNumber f64 | KString jsstring | KBytes bytes | KOther

abbreviation (input) TYPE_NULL :: byte where "TYPE_NULL \<equiv> 0x10"
abbreviation (input) TYPE_FALSE :: byte where "TYPE_FALSE \<equiv> 0x20"
abbreviation (input) TYPE_TRUE :: byte where "TYPE_TRUE \<equiv> 0x21"
abbreviation (input) TYPE_NUMBER :: byte where "TYPE_NUMBER \<equiv> 0x30"
abbreviation (input) TYPE_STRING :: byte where "TYPE_STRING \<equiv> 0x40"
abbreviation (input) TYPE_BYTES :: byte where "TYPE_BYTES \<equiv> 0x50"
abbreviation (input) COMPOUND_ESCAPE :: byte where "COMPOUND_ESCAPE \<equiv> 0x00"
abbreviation (input) COMPOUND_ESCAPE_CONT :: byte where "COMPOUND_ESCAPE_CONT \<equiv> 0xff"
abbreviation (input) COMPOUND_TERM :: byte where "COMPOUND_TERM \<equiv> 0x00"

text \<open>The \<^verbatim>\<open>Range\<close> of \<^verbatim>\<open>types.ts\<close>: optional fields are \<open>option\<close>s.\<close>

record range =
  gt :: "bytes option"
  gte :: "bytes option"
  lt :: "bytes option"
  lte :: "bytes option"
  reverse :: "bool option"
  limit :: "f64 option"

definition empty_range :: range where
  "empty_range = \<lparr>gt = None, gte = None, lt = None, lte = None, reverse = None, limit = None\<rparr>"

section \<open>Integers and numbers\<close>

definition u64Key :: "numeric \<Rightarrow> bytes result" where
  "u64Key value =
     (let not_safe = (case value of
          Num v \<Rightarrow> \<not> f64_is_safe_integer v \<or> f64_int v < 0
        | Big _ \<Rightarrow> False)
      in if not_safe then throw RangeError ''u64Key number inputs must be safe non-negative integers; use bigint for larger values''
      else let asBigInt = (case value of Num v \<Rightarrow> f64_int v | Big n \<Rightarrow> n) in
        if asBigInt < 0 then throw RangeError ''u64Key only accepts non-negative values''
        else if 0xffffffffffffffff < asBigInt
          then throw RangeError ''u64Key value exceeds the unsigned 64-bit range''
        else Inr (be_bytes 8 (nat asBigInt)))"

text \<open>The in-place transformation of a nine byte view.\<close>

definition writeSortableNumber :: "bytes \<Rightarrow> f64 \<Rightarrow> bytes result" where
  "writeSortableNumber view value =
     (if \<not> f64_is_finite value then throw TypeError ''compound key number parts must be finite''
      else
        let normalized = (if f64_is_negative_zero value then 0 else value);
            view1 = view[0 := TYPE_NUMBER];
            view2 = overlay view1 1 (be_bytes 8 (unat normalized));
            bits = (of_nat (be_val (take 8 (drop 1 view2))) :: 64 word);
            bits' = (if bits AND push_bit 63 1 \<noteq> 0 then NOT bits else bits XOR push_bit 63 1)
        in Inr (overlay view2 1 (be_bytes 8 (unat bits'))))"

definition sortableNumberBytes :: bytes where
  "sortableNumberBytes = replicate 9 0"

definition encodeSortableNumber :: "f64 \<Rightarrow> bytes result" where
  "encodeSortableNumber value = writeSortableNumber (replicate 9 0) value"

section \<open>Strings\<close>

text \<open>
  \<open>walkUtf8 value out offset escapeNul\<close>: with no output array it only counts; lone surrogates are
  rejected. The string argument is the rest of the string from the loop's index on.
\<close>

definition emit :: "bytes option \<Rightarrow> nat \<Rightarrow> bytes \<Rightarrow> bytes option" where
  "emit out offset bs = map_option (\<lambda>arr. stores arr offset bs) out"

function walkUtf8 :: "jsstring \<Rightarrow> bytes option \<Rightarrow> nat \<Rightarrow> bool \<Rightarrow> (bytes option \<times> nat) result" where
  "walkUtf8 [] out offset escapeNul = Inr (out, offset)"
| "walkUtf8 (c # rest) out offset escapeNul =
     (let code = unat c; next = map_option unat (read_at rest 0) in
      if code \<le> 0x7f then
        (if escapeNul \<and> code = 0
         then walkUtf8 rest (emit out offset [COMPOUND_ESCAPE, COMPOUND_ESCAPE_CONT]) (offset + 2) escapeNul
         else walkUtf8 rest (emit out offset [of_nat code]) (offset + 1) escapeNul)
      else if code \<le> 0x7ff then
        walkUtf8 rest
          (emit out offset [of_nat (0xc0 OR drop_bit 6 code), of_nat (0x80 OR (code AND 0x3f))])
          (offset + 2) escapeNul
      else if 0xd800 \<le> code \<and> code \<le> 0xdbff \<and>
              (case next of None \<Rightarrow> False | Some n \<Rightarrow> 0xdc00 \<le> n \<and> n \<le> 0xdfff) then
        (let point = push_bit 10 (code - 0xd800) + (the next - 0xdc00) + 0x10000
         in walkUtf8 (drop 1 rest)
              (emit out offset
                 [of_nat (0xf0 OR drop_bit 18 point), of_nat (0x80 OR (drop_bit 12 point AND 0x3f)),
                  of_nat (0x80 OR (drop_bit 6 point AND 0x3f)), of_nat (0x80 OR (point AND 0x3f))])
              (offset + 4) escapeNul)
      else if 0xd800 \<le> code \<and> code \<le> 0xdfff then
        throw TypeError ''compound key string parts must contain valid Unicode scalar values''
      else
        walkUtf8 rest
          (emit out offset
             [of_nat (0xe0 OR drop_bit 12 code), of_nat (0x80 OR (drop_bit 6 code AND 0x3f)),
              of_nat (0x80 OR (code AND 0x3f))])
          (offset + 3) escapeNul)"
  by pat_completeness auto
termination
  by (relation "measure (\<lambda>(s, _, _, _). length s)") auto

definition encodeStringKey :: "jsstring \<Rightarrow> bytes result" where
  "encodeStringKey value =
     bindr (walkUtf8 value None 0 False) (\<lambda>(_, len).
       let out = (replicate (1 + len) 0)[0 := TYPE_STRING]
       in bindr (walkUtf8 value (Some out) 1 False) (\<lambda>(out', _). Inr (the out')))"

section \<open>Scalar and compound keys\<close>

definition encodeCompoundKeyPart :: "CompoundKeyPart \<Rightarrow> bytes result" where
  "encodeCompoundKeyPart value =
     (case value of
        KNull \<Rightarrow> Inr [TYPE_NULL]
      | KBool b \<Rightarrow> Inr [if b then TYPE_TRUE else TYPE_FALSE]
      | KNumber v \<Rightarrow> encodeSortableNumber v
      | KString s \<Rightarrow> encodeStringKey s
      | KBytes bs \<Rightarrow> Inr (overlay ((replicate (1 + length bs) 0)[0 := TYPE_BYTES]) 1 bs)
      | KOther \<Rightarrow> throw TypeError ''compound key parts must be string, number, boolean, null, or Uint8Array'')"

definition encodeIndexScalar :: "CompoundKeyPart \<Rightarrow> bytes result" where
  "encodeIndexScalar value = encodeCompoundKeyPart value"

fun escape_zeros :: "bytes \<Rightarrow> nat" where
  "escape_zeros [] = 0"
| "escape_zeros (b # bs) = (if b = COMPOUND_ESCAPE then 1 else 0) + escape_zeros bs"

definition escapedByteLength :: "bytes \<Rightarrow> nat" where
  "escapedByteLength bs = length bs + escape_zeros bs"

fun writeEscapedBytes :: "bytes \<Rightarrow> nat \<Rightarrow> bytes \<Rightarrow> bytes \<times> nat" where
  "writeEscapedBytes out offset [] = (out, offset)"
| "writeEscapedBytes out offset (b # bs) =
     (if b = COMPOUND_ESCAPE
      then writeEscapedBytes (stores out offset [COMPOUND_ESCAPE, COMPOUND_ESCAPE_CONT]) (offset + 2) bs
      else writeEscapedBytes (out[offset := b]) (offset + 1) bs)"

definition writeTerminator :: "bytes \<times> nat \<Rightarrow> bytes \<times> nat" where
  "writeTerminator = (\<lambda>(out, offset). (stores out offset [COMPOUND_TERM, COMPOUND_TERM], offset + 2))"

definition compoundPartEncodedLength :: "CompoundKeyPart \<Rightarrow> nat result" where
  "compoundPartEncodedLength value =
     (case value of
        KNull \<Rightarrow> Inr 3
      | KBool _ \<Rightarrow> Inr 3
      | KNumber v \<Rightarrow> bindr (writeSortableNumber sortableNumberBytes v) (\<lambda>bs. Inr (escapedByteLength bs + 2))
      | KString s \<Rightarrow> bindr (walkUtf8 s None 0 True) (\<lambda>(_, n). Inr (1 + n + 2))
      | KBytes bs \<Rightarrow> Inr (1 + escapedByteLength bs + 2)
      | KOther \<Rightarrow> throw TypeError ''compound key parts must be string, number, boolean, null, or Uint8Array'')"

definition writeCompoundPart :: "bytes \<Rightarrow> nat \<Rightarrow> CompoundKeyPart \<Rightarrow> (bytes \<times> nat) result" where
  "writeCompoundPart out offset value =
     (case value of
        KNull \<Rightarrow> Inr (writeTerminator (out[offset := TYPE_NULL], offset + 1))
      | KBool b \<Rightarrow> Inr (writeTerminator (out[offset := (if b then TYPE_TRUE else TYPE_FALSE)], offset + 1))
      | KNumber v \<Rightarrow>
          bindr (writeSortableNumber sortableNumberBytes v)
            (\<lambda>bs. Inr (writeTerminator (writeEscapedBytes out offset bs)))
      | KString s \<Rightarrow>
          bindr (walkUtf8 s (Some (out[offset := TYPE_STRING])) (offset + 1) True)
            (\<lambda>(out', n). Inr (writeTerminator (the out', n)))
      | KBytes bs \<Rightarrow> Inr (writeTerminator (writeEscapedBytes (out[offset := TYPE_BYTES]) (offset + 1) bs))
      | KOther \<Rightarrow> throw TypeError ''compound key parts must be string, number, boolean, null, or Uint8Array'')"

fun compound_lengths :: "nat \<Rightarrow> CompoundKeyPart list \<Rightarrow> nat result" where
  "compound_lengths len [] = Inr len"
| "compound_lengths len (p # ps) =
     bindr (compoundPartEncodedLength p) (\<lambda>n. compound_lengths (len + n) ps)"

fun compound_write :: "bytes \<Rightarrow> nat \<Rightarrow> CompoundKeyPart list \<Rightarrow> bytes result" where
  "compound_write out offset [] = Inr out"
| "compound_write out offset (p # ps) =
     bindr (writeCompoundPart out offset p) (\<lambda>(out', offset'). compound_write out' offset' ps)"

definition encodeCompoundKeyList :: "CompoundKeyPart list \<Rightarrow> bytes result" where
  "encodeCompoundKeyList parts =
     bindr (compound_lengths 0 parts) (\<lambda>len. compound_write (replicate len 0) 0 parts)"

definition compoundKey :: "CompoundKeyPart list \<Rightarrow> bytes result" where
  "compoundKey parts = encodeCompoundKeyList parts"

text \<open>\<^verbatim>\<open>indexKey\<close> takes one part or a list of parts.\<close>

definition indexKey :: "CompoundKeyPart + CompoundKeyPart list \<Rightarrow> bytes result" where
  "indexKey value = (case value of Inl p \<Rightarrow> encodeCompoundKeyPart p | Inr ps \<Rightarrow> encodeCompoundKeyList ps)"

fun compound_bytes_length :: "nat \<Rightarrow> bytes list \<Rightarrow> nat" where
  "compound_bytes_length len [] = len"
| "compound_bytes_length len (p # ps) = compound_bytes_length (len + (escapedByteLength p + 2)) ps"

fun compound_bytes_write :: "bytes \<Rightarrow> nat \<Rightarrow> bytes list \<Rightarrow> bytes" where
  "compound_bytes_write out offset [] = out"
| "compound_bytes_write out offset (p # ps) =
     (let (out', offset') = writeTerminator (writeEscapedBytes out offset p)
      in compound_bytes_write out' offset' ps)"

definition encodeCompoundBytes :: "bytes list \<Rightarrow> bytes" where
  "encodeCompoundBytes parts = compound_bytes_write (replicate (compound_bytes_length 0 parts) 0) 0 parts"

definition encodeCompoundKeyParts :: "bytes list \<Rightarrow> bytes" where
  "encodeCompoundKeyParts parts = encodeCompoundBytes parts"

section \<open>Splitting compound keys\<close>

text \<open>The inner loop: where the part that starts at the index ends, and its unescaped length.\<close>

function split_scan :: "bytes \<Rightarrow> nat \<Rightarrow> nat \<Rightarrow> (nat \<times> nat) result" where
  "split_scan key index len =
     (if index < length key then
        if key ! index \<noteq> COMPOUND_ESCAPE then split_scan key (index + 1) (len + 1)
        else (let next = read_at key (index + 1) in
          if next = Some COMPOUND_ESCAPE_CONT then split_scan key (index + 2) (len + 1)
          else if next = Some COMPOUND_TERM then Inr (index + 2, len)
          else throw TypeError ''invalid compound key encoding'')
      else throw TypeError ''compound key terminated unexpectedly'')"
  by pat_completeness auto
termination
  by (relation "measure (\<lambda>(key, index, _). length key - index)") auto

declare split_scan.simps [simp del]

function split_copy :: "bytes \<Rightarrow> nat \<Rightarrow> nat \<Rightarrow> bytes \<Rightarrow> nat \<Rightarrow> bytes" where
  "split_copy key cursor stop part offset =
     (if cursor < stop then
        if key ! cursor \<noteq> COMPOUND_ESCAPE
        then split_copy key (cursor + 1) stop (part[offset := key ! cursor]) (offset + 1)
        else split_copy key (cursor + 2) stop (part[offset := COMPOUND_ESCAPE]) (offset + 1)
      else part)"
  by pat_completeness auto
termination
  by (relation "measure (\<lambda>(key, cursor, stop, _). stop - cursor)") auto

declare split_copy.simps [simp del]

lemma split_scan_progress: "split_scan key index len = Inr (stop, n) \<Longrightarrow> index < stop"
proof (induction key index len rule: split_scan.induct)
  case (1 key index len)
  then show ?case
    using split_scan.simps [of key index len] by (force simp: Let_def split: if_splits)
qed

function split_loop :: "bytes \<Rightarrow> nat \<Rightarrow> bytes list \<Rightarrow> bytes list result" where
  "split_loop key index parts =
     (if index < length key then
        bindr (split_scan key index 0) (\<lambda>(stop, len).
          split_loop key stop (parts @ [split_copy key index (stop - 2) (replicate len 0) 0]))
      else Inr parts)"
  by pat_completeness auto
termination
  by (relation "measure (\<lambda>(key, index, _). length key - index)") (auto dest: split_scan_progress)

declare split_loop.simps [simp del]

definition splitCompoundKey :: "bytes \<Rightarrow> bytes list result" where
  "splitCompoundKey key = split_loop key 0 []"

section \<open>Prefix ranges\<close>

fun prefix_end :: "bytes \<Rightarrow> nat \<Rightarrow> nat" where
  "prefix_end prefix 0 = 0"
| "prefix_end prefix (Suc n) = (if prefix ! n = 0xff then prefix_end prefix n else Suc n)"

definition prefixSuccessor :: "bytes \<Rightarrow> bytes option" where
  "prefixSuccessor prefix =
     (let end = prefix_end prefix (length prefix) in
      if end = 0 then None
      else let out = overlay (replicate end 0) 0 (take end prefix)
           in Some (out[end - 1 := out ! (end - 1) + 1]))"

definition prefixRange :: "bytes \<Rightarrow> range" where
  "prefixRange prefix =
     (case prefixSuccessor prefix of
        Some upper \<Rightarrow> empty_range\<lparr>gte := Some prefix, lt := Some upper\<rparr>
      | None \<Rightarrow> empty_range\<lparr>gte := Some prefix\<rparr>)"

definition compoundKeyRange :: "CompoundKeyPart list \<Rightarrow> range result" where
  "compoundKeyRange parts = bindr (compoundKey parts) (\<lambda>key. Inr (prefixRange key))"

section \<open>Reference encodings\<close>

text \<open>Concatenations that the buffer filling encoders are compared with.\<close>

definition escape :: "bytes \<Rightarrow> bytes" where
  "escape bs = concat (map (\<lambda>b. if b = COMPOUND_ESCAPE then [COMPOUND_ESCAPE, COMPOUND_ESCAPE_CONT] else [b]) bs)"

definition joined :: "bytes list \<Rightarrow> bytes" where
  "joined parts = concat (map (\<lambda>p. escape p @ [COMPOUND_TERM, COMPOUND_TERM]) parts)"

lemma escape_simps [simp]:
  "escape [] = []"
  "escape (b # bs) = (if b = 0 then [0, 0xff] else [b]) @ escape bs"
  "escape (xs @ ys) = escape xs @ escape ys"
  by (auto simp: escape_def)

lemma joined_simps [simp]:
  "joined [] = []"
  "joined (p # ps) = escape p @ 0 # 0 # joined ps"
  by (auto simp: joined_def)

lemma escapedByteLength_eq [simp]: "escapedByteLength bs = length (escape bs)"
proof -
  have "length bs + escape_zeros bs = length (escape bs)"
    by (induction bs) auto
  then show ?thesis by (simp add: escapedByteLength_def)
qed

lemma writeEscapedBytes_eq:
  "off + length (escape bs) \<le> length out \<Longrightarrow>
     writeEscapedBytes out off bs = (overlay out off (escape bs), off + length (escape bs))"
proof (induction bs arbitrary: out off)
  case Nil
  then show ?case by simp
next
  case (Cons b bs)
  let ?w = "if b = 0 then [0, 0xff] else [b]"
  have "writeEscapedBytes out off (b # bs) = writeEscapedBytes (overlay out off ?w) (off + length ?w) bs"
    using Cons.prems by (simp add: stores_overlay overlay_update split: if_splits)
  also have "\<dots> = (overlay (overlay out off ?w) (off + length ?w) (escape bs), off + length ?w + length (escape bs))"
    using Cons.prems by (intro Cons.IH) (simp split: if_splits)
  also have "\<dots> = (overlay out off (escape (b # bs)), off + length (escape (b # bs)))"
    using Cons.prems overlay_overlay [of off ?w out "escape bs"] by (simp split: if_splits)
  finally show ?case .
qed

lemma writeTerminator_eq:
  assumes "off + length w + 2 \<le> length out"
  shows "writeTerminator (overlay out off w, off + length w) = (overlay out off (w @ [0, 0]), off + length w + 2)"
  using assms overlay_overlay [of off w out "[0, 0]"]
  by (simp add: writeTerminator_def stores_overlay)

lemma compound_bytes_length_eq: "compound_bytes_length len ps = len + length (joined ps)"
  by (induction ps arbitrary: len) auto

lemma compound_bytes_write_eq:
  "off + length (joined ps) \<le> length out \<Longrightarrow> compound_bytes_write out off ps = overlay out off (joined ps)"
proof (induction ps arbitrary: out off)
  case Nil
  then show ?case by simp
next
  case (Cons p ps)
  let ?w = "escape p @ [0, 0]"
  have "writeTerminator (writeEscapedBytes out off p) = (overlay out off ?w, off + length ?w)"
    using Cons.prems writeTerminator_eq [of off "escape p" out] by (simp add: writeEscapedBytes_eq)
  then have "compound_bytes_write out off (p # ps) = compound_bytes_write (overlay out off ?w) (off + length ?w) ps"
    by simp
  also have "\<dots> = overlay (overlay out off ?w) (off + length ?w) (joined ps)"
    using Cons.prems by (intro Cons.IH) simp
  finally show ?case
    using Cons.prems overlay_overlay [of off ?w out "joined ps"] by simp
qed

lemma encodeCompoundBytes_eq: "encodeCompoundBytes ps = joined ps"
  by (simp add: encodeCompoundBytes_def compound_bytes_length_eq compound_bytes_write_eq)

lemma encodeCompoundKeyParts_eq: "encodeCompoundKeyParts ps = joined ps"
  by (simp add: encodeCompoundKeyParts_def encodeCompoundBytes_eq)

subsection \<open>Strings\<close>

definition point_bytes :: "bool \<Rightarrow> nat \<Rightarrow> bytes" where
  "point_bytes esc = (\<lambda>p. if esc then escape (utf8_point p) else utf8_point p)"

definition string_bytes :: "bool \<Rightarrow> jsstring \<Rightarrow> bytes" where
  "string_bytes esc s = concat (map (point_bytes esc) (code_points s))"

lemma string_bytes_plain: "string_bytes False s = utf8 (code_points s)"
  by (simp add: string_bytes_def point_bytes_def utf8_def)

lemma string_bytes_escaped: "string_bytes True s = escape (string_bytes False s)"
proof -
  have "concat (map (\<lambda>p. escape (utf8_point p)) ps) = escape (concat (map utf8_point ps))" for ps
    by (induction ps) auto
  then show ?thesis by (simp add: string_bytes_def point_bytes_def)
qed

lemma byte_nonzero: "0 < n mod 256 \<Longrightarrow> (of_nat n :: byte) \<noteq> 0"
  by (metis not_less_zero unat_0 unat_of_nat_byte)

lemma escape_nonzero: "0 \<notin> set bs \<Longrightarrow> escape bs = bs"
  by (induction bs) auto

lemma utf8_point_nonzero:
  assumes "0 < p" "p < 0x110000"
  shows "0 \<notin> set (utf8_point p)"
proof -
  have "0 < (0x80 + x mod 64) mod (256 :: nat)" for x by simp
  moreover have "0 < (0xc0 + p div 64) mod 256" if "p < 0x800"
    using that less_mult_imp_div_less [of p 32 64] by simp
  moreover have "0 < (0xe0 + p div 4096) mod 256" if "p < 0x10000"
    using that less_mult_imp_div_less [of p 16 4096] by simp
  moreover have "0 < (0xf0 + p div 262144) mod 256"
    using assms less_mult_imp_div_less [of p 8 262144] by simp
  ultimately show ?thesis
    using assms by (auto simp: utf8_point_def byte_nonzero [symmetric, THEN not_sym] simp del: of_nat_add dest: sym)
qed

lemma point_bytes_eq:
  "p < 0x110000 \<Longrightarrow> point_bytes esc p = (if esc \<and> p = 0 then [0, 0xff] else utf8_point p)"
proof (cases "p = 0")
  case True
  then show ?thesis by (simp add: point_bytes_def utf8_point_def)
next
  case False
  moreover assume "p < 0x110000"
  ultimately show ?thesis
    using utf8_point_nonzero [of p] by (simp add: point_bytes_def escape_nonzero)
qed

lemma utf8_bits:
  "p < 0x800 \<Longrightarrow> 0xc0 OR drop_bit 6 p = 0xc0 + p div (64 :: nat)"
  "p < 0x10000 \<Longrightarrow> 0xe0 OR drop_bit 12 p = 0xe0 + p div (4096 :: nat)"
  "p < 0x110000 \<Longrightarrow> 0xf0 OR drop_bit 18 p = 0xf0 + p div (262144 :: nat)"
  "0x80 OR (q AND 0x3f) = 0x80 + q mod (64 :: nat)"
  "drop_bit 12 q mod 64 = q div 4096 mod (64 :: nat)"
  "drop_bit 6 q mod 64 = q div 64 mod (64 :: nat)"
  "n + 3 = Suc (Suc (Suc n))"
  "n + 4 = Suc (Suc (Suc (Suc n)))"
  using nat_or_add [of "p div 64" 6 3] nat_or_add [of "p div 4096" 5 7] nat_or_add [of "p div 262144" 4 15]
    nat_or_add [of "q mod 64" 7 1] less_mult_imp_div_less [of p 32 64]
    less_mult_imp_div_less [of p 16 4096] less_mult_imp_div_less [of p 8 262144]
  by (simp_all add: drop_bit_eq_div nat_and_63)

lemma walkUtf8_step:
  "\<exists>p rest'. code_points (c # rest) = p # code_points rest' \<and> length rest' \<le> length rest \<and>
     (\<forall>out off esc. walkUtf8 (c # rest) out off esc =
        (if is_surrogate p
         then throw TypeError ''compound key string parts must contain valid Unicode scalar values''
         else walkUtf8 rest' (emit out off (point_bytes esc p)) (off + length (point_bytes esc p)) esc))"
proof (cases "\<exists>d r. rest = d # r \<and> is_high (unat c) \<and> is_low (unat d)")
  case True
  then obtain d r where r: "rest = d # r" "is_high (unat c)" "is_low (unat d)" by blast
  define p where "p = (unat c - 0xd800) * 1024 + (unat d - 0xdc00) + 0x10000"
  have b: "0x10000 \<le> p" "p < 0x110000" "\<not> is_surrogate p"
    using r by (auto simp: p_def is_high_def is_low_def is_surrogate_def)
  have push: "push_bit 10 (unat c - 0xd800) + (unat d - 0xdc00) + 0x10000 = p"
    by (simp add: p_def push_bit_eq_mult)
  have "walkUtf8 (c # rest) out off esc =
      walkUtf8 r (emit out off (point_bytes esc p)) (off + length (point_bytes esc p)) esc" for out off esc
    using r b push
    by (simp add: read_at_def is_high_def is_low_def Let_def point_bytes_eq utf8_point_def utf8_bits
        del: of_nat_add)
  with r b show ?thesis by (intro exI [of _ p] exI [of _ r]) (simp add: p_def)
next
  case False
  then have cp: "code_points (c # rest) = unat c # code_points rest" by (cases rest) auto
  have lt: "unat c < 0x10000" by simp
  have no_pair: "\<not> (0xd800 \<le> unat c \<and> unat c \<le> 0xdbff \<and>
      (case map_option unat (read_at rest 0) of None \<Rightarrow> False | Some n \<Rightarrow> 0xdc00 \<le> n \<and> n \<le> 0xdfff))"
    using False by (cases rest) (auto simp: read_at_def is_high_def is_low_def)
  have "walkUtf8 (c # rest) out off esc =
        (if is_surrogate (unat c)
         then throw TypeError ''compound key string parts must contain valid Unicode scalar values''
         else walkUtf8 rest (emit out off (point_bytes esc (unat c))) (off + length (point_bytes esc (unat c))) esc)"
    for out off esc
  proof -
    consider "unat c \<le> 0x7f" | "0x7f < unat c" "unat c \<le> 0x7ff" | "0x7ff < unat c" by linarith
    then show ?thesis
    proof cases
      case 1
      then show ?thesis
        by (simp add: Let_def point_bytes_eq utf8_point_def is_surrogate_def)
    next
      case 2
      then show ?thesis
        by (simp add: Let_def point_bytes_eq utf8_point_def is_surrogate_def utf8_bits del: of_nat_add)
    next
      case 3
      have "unat c < 0x110000" using lt by linarith
      then have pb: "point_bytes esc (unat c) =
          [of_nat (0xe0 + unat c div 4096), of_nat (0x80 + unat c div 64 mod 64), of_nat (0x80 + unat c mod 64)]"
        using 3 lt by (simp only: point_bytes_eq utf8_point_def) simp
      have rng: "\<not> unat c \<le> 0x7f" "\<not> unat c \<le> 0x7ff" "0xd800 \<le> unat c \<and> unat c \<le> 0xdfff \<longleftrightarrow> is_surrogate (unat c)"
        using 3 by (simp_all add: is_surrogate_def)
      show ?thesis
        by (simp only: walkUtf8.simps Let_def no_pair rng if_False pb utf8_bits(2) [OF lt] utf8_bits(4,5,6)) (simp add: utf8_bits(7))
    qed
  qed
  with cp show ?thesis by blast
qed

abbreviation bad_string :: "'a result" where
  "bad_string \<equiv> throw TypeError ''compound key string parts must contain valid Unicode scalar values''"

definition fits :: "bytes option \<Rightarrow> nat \<Rightarrow> bool" where
  "fits out n \<longleftrightarrow> (case out of None \<Rightarrow> True | Some arr \<Rightarrow> n \<le> length arr)"

lemma emit_fits:
  "fits out (off + length w) \<Longrightarrow> emit out off w = map_option (\<lambda>arr. overlay arr off w) out"
  by (cases out) (simp_all add: fits_def emit_def stores_overlay)

lemma walkUtf8_eq:
  "fits out (off + length (string_bytes esc s)) \<Longrightarrow>
     walkUtf8 s out off esc =
       (if well_formed s
        then Inr (map_option (\<lambda>arr. overlay arr off (string_bytes esc s)) out, off + length (string_bytes esc s))
        else bad_string)"
proof (induction "length s" arbitrary: s out off rule: less_induct)
  case less
  show ?case
  proof (cases s)
    case Nil
    then show ?thesis
      by (cases out) (simp_all add: string_bytes_def well_formed_def)
  next
    case (Cons c rest)
    obtain p rest' where step: "code_points (c # rest) = p # code_points rest'" "length rest' \<le> length rest"
      and walk: "\<And>out off esc. walkUtf8 (c # rest) out off esc =
        (if is_surrogate p then bad_string
         else walkUtf8 rest' (emit out off (point_bytes esc p)) (off + length (point_bytes esc p)) esc)"
      using walkUtf8_step [of c rest] by blast
    let ?w = "point_bytes esc p" and ?r = "string_bytes esc rest'"
    have sb: "string_bytes esc s = ?w @ ?r" and wf: "well_formed s \<longleftrightarrow> \<not> is_surrogate p \<and> well_formed rest'"
      using Cons step by (simp_all add: string_bytes_def well_formed_def)
    have fit: "fits out (off + length ?w)" "fits (map_option (\<lambda>arr. overlay arr off ?w) out) (off + length ?w + length ?r)"
      using less.prems by (auto simp: sb fits_def split: option.splits)
    have "walkUtf8 rest' (emit out off ?w) (off + length ?w) esc =
        (if well_formed rest'
         then Inr (map_option (\<lambda>arr. overlay arr off (?w @ ?r)) out, off + length (?w @ ?r))
         else bad_string)"
      using less.hyps [of rest', OF _ fit(2)] fit step Cons
      by (cases out) (simp_all add: emit_fits fits_def overlay_overlay add.assoc)
    then show ?thesis using Cons walk [of out off esc] sb wf by simp
  qed
qed

lemma length_string_bytes_overlay [simp]:
  "off + length w \<le> length out \<Longrightarrow> fits (Some out) (off + length w)"
  by (simp add: fits_def)

lemma encodeStringKey_eq:
  "encodeStringKey s = (if well_formed s then Inr (0x40 # utf8 (code_points s)) else bad_string)"
  by (simp add: encodeStringKey_def walkUtf8_eq fits_def overlay_def string_bytes_plain)

subsection \<open>Numbers\<close>

definition sortable_bits :: "f64 \<Rightarrow> nat" where
  "sortable_bits v =
     (if f64_negative v \<and> f64_mag v \<noteq> 0 then 2 ^ 63 - 1 - f64_mag v else 2 ^ 63 + f64_mag v)"

lemma sign_bit: "(w AND push_bit 63 1 \<noteq> 0) = f64_negative w" for w :: f64
proof -
  have "(w AND push_bit 63 1 \<noteq> 0) = bit w 63"
    by (simp only: bit_iff_and_push_bit_not_eq_0)
  also have "\<dots> = odd (unat w div 2 ^ 63)"
    using bit_unsigned_iff [of w 63, where ?'a = nat] by (simp add: bit_iff_odd)
  finally show ?thesis by (simp only: f64_sign) simp
qed

lemma xor_eq_or_if_disjoint: "a AND b = 0 \<Longrightarrow> a XOR b = a OR b" for a b :: "'a :: len word"
  by (rule bit_word_eqI) (metis bit_and_iff bit_or_iff bit_xor_iff bit_0_eq bot_apply bot_bool_def)

lemma unat_not: "unat (NOT w) = 2 ^ 64 - 1 - unat w" for w :: f64
proof -
  have "NOT w = - 1 - w" by (simp add: not_eq_complement)
  moreover have "unat (- 1 - w) = unat (- 1 :: f64) - unat w" by (rule unat_sub) simp
  moreover have "unat (- 1 :: f64) = 2 ^ 64 - 1" by (simp add: unsigned_minus_1_eq_mask mask_eq_exp_minus_1)
  ultimately show ?thesis by simp
qed

lemma unat_sortable:
  "unat (if w AND push_bit 63 1 \<noteq> 0 then NOT w else w XOR push_bit 63 1) =
     (if f64_negative w then 2 ^ 63 - 1 - f64_mag w else 2 ^ 63 + f64_mag w)" for w :: f64
proof (cases "f64_negative w")
  case True
  have "unat (NOT w) = 2 ^ 64 - 1 - unat w" by (rule unat_not)
  then show ?thesis using True unat_f64 [of w] unfolding sign_bit by simp
next
  case False
  then have "w AND push_bit 63 1 = 0" using sign_bit [of w] by blast
  then have "w XOR push_bit 63 1 = w + push_bit 63 1"
    by (metis disjunctive_add_eq_or xor_eq_or_if_disjoint)
  moreover have "unat (w + push_bit 63 1) = unat w + 2 ^ 63"
    using False unat_f64 [of w] f64_mag_less [of w] by (simp add: unat_word_ariths push_bit_of_1)
  ultimately show ?thesis using False unat_f64 [of w] sign_bit [of w] by simp
qed

lemma sortable_bits_less [simp]: "sortable_bits v < 2 ^ 64"
  using f64_mag_less [of v] by (auto simp: sortable_bits_def)

lemma overlay_same: "length a = length b \<Longrightarrow> overlay (overlay out off a) off b = overlay out off b"
  if "off + length a \<le> length out"
  using that by (simp add: overlay_def)

abbreviation bad_number :: "'a result" where
  "bad_number \<equiv> throw TypeError ''compound key number parts must be finite''"

lemma writeSortableNumber_eq:
  assumes "length view = 9"
  shows "writeSortableNumber view v =
    (if f64_is_finite v then Inr (0x30 # be_bytes 8 (sortable_bits v)) else bad_number)"
proof -
  define w :: f64 where "w = (if f64_is_negative_zero v then 0 else v)"
  have view: "overlay (view[0 := 0x30]) 1 bs = 0x30 # bs" if "length bs = 8" for bs
    using assms that by (cases view) (simp_all add: overlay_def)
  have "(of_nat (be_val (be_bytes 8 (unat w))) :: 64 word) = w"
    using unsigned_less [of w, where ?'a = nat] by (simp add: be_val_be_bytes)
  moreover have "unat (if w AND push_bit 63 1 \<noteq> 0 then NOT w else w XOR push_bit 63 1) = sortable_bits v"
    unfolding unat_sortable
    by (auto simp: w_def sortable_bits_def f64_negative_zero_iff f64_negative_def f64_mag_def)
  moreover have "take 8 (drop 1 (0x30 # bs)) = bs" "overlay (0x30 # bs) 1 cs = 0x30 # cs"
    if "length bs = 8" "length cs = 8" for bs cs :: bytes
    using that by (simp_all add: overlay_def)
  ultimately show ?thesis
    by (simp only: writeSortableNumber_def Let_def view length_be_bytes flip: w_def) (auto split: if_splits)
qed

lemma encodeSortableNumber_eq:
  "encodeSortableNumber v =
     (if f64_is_finite v then Inr (0x30 # be_bytes 8 (sortable_bits v)) else bad_number)"
  by (simp add: encodeSortableNumber_def writeSortableNumber_eq)

lemma sortable_bits_order: "sortable_bits v < sortable_bits w \<longleftrightarrow> f64_scaled v < f64_scaled w"
proof -
  have pos: "0 < mag_scaled m \<longleftrightarrow> m \<noteq> 0" for m
    using mag_scaled_less [of 0 m] by (simp del: mag_scaled_less)
  consider "f64_negative v" "f64_negative w" | "f64_negative v" "\<not> f64_negative w"
    | "\<not> f64_negative v" "f64_negative w" | "\<not> f64_negative v" "\<not> f64_negative w" by blast
  then show ?thesis
  proof cases
    case 1
    then show ?thesis
      using f64_mag_less [of v] f64_mag_less [of w] pos [of "f64_mag v"]
      by (auto simp: sortable_bits_def f64_scaled_def)
  next
    case 2
    then show ?thesis
      using f64_mag_less [of v] pos [of "f64_mag v"] pos [of "f64_mag w"]
      by (cases "f64_mag v = 0"; cases "f64_mag w = 0") (auto simp: sortable_bits_def f64_scaled_def)
  next
    case 3
    then show ?thesis
      using f64_mag_less [of w] by (auto simp: sortable_bits_def f64_scaled_def)
  next
    case 4
    then show ?thesis by (simp add: sortable_bits_def f64_scaled_def)
  qed
qed

subsection \<open>Parts and lists of parts\<close>

lemma compoundPartEncodedLength_eq:
  "compoundPartEncodedLength p = bindr (encodeCompoundKeyPart p) (\<lambda>bs. Inr (length (escape bs) + 2))"
  by (cases p)
    (simp_all add: compoundPartEncodedLength_def encodeCompoundKeyPart_def encodeSortableNumber_eq
      writeSortableNumber_eq sortableNumberBytes_def encodeStringKey_eq walkUtf8_eq fits_def
      string_bytes_escaped string_bytes_plain overlay_def)

lemma writeCompoundPart_eq:
  assumes "encodeCompoundKeyPart p = Inr bs" and fit: "off + length (escape bs) + 2 \<le> length out"
  shows "writeCompoundPart out off p = Inr (overlay out off (escape bs @ [0, 0]), off + length (escape bs) + 2)"
proof -
  have tagged: "writeTerminator (writeEscapedBytes (out[off := b]) (off + 1) cs) =
      (overlay out off (escape (b # cs) @ [0, 0]), off + length (escape (b # cs)) + 2)"
    if "b \<noteq> 0" "off + length (escape (b # cs)) + 2 \<le> length out" for b cs
    using that writeTerminator_eq [of off "escape (b # cs)" out] overlay_overlay [of off "[b]" out "escape cs"]
    by (simp add: overlay_update writeEscapedBytes_eq)
  have plain: "writeTerminator (writeEscapedBytes out off bs) = (overlay out off (escape bs @ [0, 0]), off + length (escape bs) + 2)"
    using fit writeTerminator_eq [of off "escape bs" out] by (simp add: writeEscapedBytes_eq)
  show ?thesis
  proof (cases p)
    case (KString s)
    let ?u = "string_bytes True s"
    have s: "well_formed s" "bs = 0x40 # utf8 (code_points s)"
      using assms(1) KString by (auto simp: encodeCompoundKeyPart_def encodeStringKey_eq split: if_splits)
    then have esc: "escape bs = 0x40 # ?u" by (simp add: string_bytes_escaped string_bytes_plain)
    have "walkUtf8 s (Some (out[off := 0x40])) (off + 1) True = Inr (Some (overlay out off (escape bs)), off + length (escape bs))"
      using s fit esc overlay_overlay [of off "[0x40]" out ?u] by (simp add: walkUtf8_eq fits_def overlay_update)
    then show ?thesis
      using KString fit writeTerminator_eq [of off "escape bs" out] by (simp add: writeCompoundPart_def)
  next
    case (KNumber v)
    then show ?thesis
      using assms(1) plain
      by (auto simp: writeCompoundPart_def encodeCompoundKeyPart_def encodeSortableNumber_eq writeSortableNumber_eq
          sortableNumberBytes_def split: if_splits)
  qed (use assms tagged [of "0x10" "[]"] tagged [of "0x20" "[]"] tagged [of "0x21" "[]"] tagged [of "0x50"] in
      \<open>auto simp: writeCompoundPart_def encodeCompoundKeyPart_def overlay_def\<close>)
qed

lemma compound_lengths_eq:
  "compound_lengths len ps = bindr (mapr encodeCompoundKeyPart ps) (\<lambda>bs. Inr (len + length (joined bs)))"
proof (induction ps arbitrary: len)
  case Nil
  then show ?case by simp
next
  case (Cons p ps)
  then show ?case
    by (cases "encodeCompoundKeyPart p"; cases "mapr encodeCompoundKeyPart ps")
      (simp_all add: compoundPartEncodedLength_eq)
qed

lemma compound_write_eq:
  "mapr encodeCompoundKeyPart ps = Inr bs \<Longrightarrow> off + length (joined bs) \<le> length out \<Longrightarrow>
     compound_write out off ps = Inr (overlay out off (joined bs))"
proof (induction ps arbitrary: bs off out)
  case Nil
  then show ?case by simp
next
  case (Cons p ps)
  then obtain b bs' where b: "encodeCompoundKeyPart p = Inr b" "mapr encodeCompoundKeyPart ps = Inr bs'" "bs = b # bs'"
    by (auto simp: bindr_eq_Inr)
  let ?w = "escape b @ [0, 0]"
  have "compound_write out off (p # ps) = compound_write (overlay out off ?w) (off + length ?w) ps"
    using b Cons.prems by (simp add: writeCompoundPart_eq)
  also have "\<dots> = Inr (overlay (overlay out off ?w) (off + length ?w) (joined bs'))"
    using b Cons.prems by (intro Cons.IH) simp_all
  finally show ?case
    using b Cons.prems overlay_overlay [of off ?w out "joined bs'"] by simp
qed

section \<open>Compound keys are self-delimiting\<close>

lemma escaped_less:
  "escape x @ 0 # 0 # u < escape y @ 0 # 0 # v \<longleftrightarrow> x < y \<or> x = y \<and> u < v"
proof (induction x arbitrary: y)
  case Nil
  then show ?case by (cases y) (auto simp: word_neq_0_conv)
next
  case (Cons a x)
  then show ?case by (cases y) (auto simp: word_neq_0_conv)
qed

interpretation part: delimited_code "\<lambda>p. encodeCompoundKeyParts [p]" "\<lambda>_. True"
  by unfold_locales (simp_all add: encodeCompoundKeyParts_eq escaped_less)

lemma parts_concat: "encodeCompoundKeyParts ps = concat (map (\<lambda>p. encodeCompoundKeyParts [p]) ps)"
  by (simp add: encodeCompoundKeyParts_eq joined_def)

fun take_part :: "bytes \<Rightarrow> (bytes \<times> bytes) result" where
  "take_part [] = throw TypeError ''compound key terminated unexpectedly''"
| "take_part (b # bs) =
     (if b \<noteq> 0 then bindr (take_part bs) (\<lambda>(p, rest). Inr (b # p, rest))
      else case bs of
        [] \<Rightarrow> throw TypeError ''invalid compound key encoding''
      | c # cs \<Rightarrow>
          if c = 0xff then bindr (take_part cs) (\<lambda>(p, rest). Inr (0 # p, rest))
          else if c = 0 then Inr ([], cs)
          else throw TypeError ''invalid compound key encoding'')"

lemma take_part_iff: "take_part bs = Inr (p, rest) \<longleftrightarrow> bs = escape p @ 0 # 0 # rest"
proof
  show "take_part bs = Inr (p, rest) \<Longrightarrow> bs = escape p @ 0 # 0 # rest"
    by (induction bs arbitrary: p rule: take_part.induct)
      (auto simp: bindr_eq_Inr split: if_splits list.splits)
  show "bs = escape p @ 0 # 0 # rest \<Longrightarrow> take_part bs = Inr (p, rest)"
    by (induction p arbitrary: bs) auto
qed

lemma split_scan_at:
  "split_scan (pre @ b # bs) (length pre) n =
     (if b \<noteq> 0 then split_scan ((pre @ [b]) @ bs) (length (pre @ [b])) (n + 1)
      else case bs of
        [] \<Rightarrow> throw TypeError ''invalid compound key encoding''
      | c # cs \<Rightarrow>
          if c = 0xff then split_scan ((pre @ [b, c]) @ cs) (length (pre @ [b, c])) (n + 1)
          else if c = 0 then Inr (length pre + 2, n)
          else throw TypeError ''invalid compound key encoding'')"
  using read_at_end [of "pre @ [b]"]
  by (cases bs) (auto simp: split_scan.simps [of _ "length pre"])

lemma split_scan_eq:
  "split_scan (pre @ bs) (length pre) n =
     bindr (take_part bs) (\<lambda>(p, rest). Inr (length pre + length bs - length rest, n + length p))"
proof (induction bs arbitrary: pre n rule: take_part.induct)
  case 1
  then show ?case by (simp add: split_scan.simps)
next
  case (2 b bs)
  show ?case
  proof (cases "b = 0")
    case False
    then show ?thesis
      using 2(1) [of "pre @ [b]" "n + 1"] by (cases "take_part bs") (auto simp: split_scan_at simp del: append_assoc)
  next
    case True
    then show ?thesis
      using 2(2) [of _ _ "pre @ [0, 0xff]" "n + 1"]
      by (cases bs) (auto simp: split_scan_at split_def simp del: append_assoc)
  qed
qed

lemma split_copy_eq:
  "off + length p \<le> length part \<Longrightarrow>
     split_copy (pre @ escape p @ rest) (length pre) (length pre + length (escape p)) part off = overlay part off p"
proof (induction p arbitrary: pre part off)
  case Nil
  then show ?case by (simp add: split_copy.simps)
next
  case (Cons b p)
  let ?w = "if b = 0 then [0, 0xff] else [b]"
  have "split_copy (pre @ escape (b # p) @ rest) (length pre) (length pre + length (escape (b # p))) part off =
      split_copy ((pre @ ?w) @ escape p @ rest) (length (pre @ ?w)) (length (pre @ ?w) + length (escape p)) (part[off := b]) (off + 1)"
    by (simp add: split_copy.simps [of _ "length pre"])
  also have "\<dots> = overlay (part[off := b]) (off + 1) p"
    using Cons.prems by (intro Cons.IH) simp
  also have "\<dots> = overlay part off (b # p)"
    using Cons.prems overlay_overlay [of off "[b]" part p] by (simp add: overlay_update)
  finally show ?case .
qed

lemma split_loop_step:
  assumes "bs \<noteq> []"
  shows "split_loop (pre @ bs) (length pre) parts =
    bindr (take_part bs) (\<lambda>(p, rest). split_loop (pre @ bs) (length pre + length bs - length rest) (parts @ [p]))"
proof (cases "take_part bs")
  case (Inl e)
  then show ?thesis using assms by (simp add: split_loop.simps split_scan_eq)
next
  case (Inr pr)
  then obtain p rest where pr: "take_part bs = Inr (p, rest)" "bs = escape p @ 0 # 0 # rest"
    by (cases pr) (auto simp: take_part_iff)
  have "split_copy (pre @ bs) (length pre) (length pre + length (escape p)) (replicate (length p) 0) 0 = p"
    using split_copy_eq [of 0 p "replicate (length p) 0" pre "0 # 0 # rest"] pr(2) by simp
  then show ?thesis
    using assms pr by (simp add: split_loop.simps [of _ "length pre"] split_scan_eq)
qed

lemma split_loop_iff:
  "split_loop (pre @ bs) (length pre) parts = Inr ps \<longleftrightarrow> (\<exists>qs. ps = parts @ qs \<and> bs = joined qs)"
proof (induction "length bs" arbitrary: bs pre parts rule: less_induct)
  case less
  show ?case
  proof (cases "bs = []")
    case True
    have "qs = []" if "joined qs = []" for qs using that by (cases qs) simp_all
    then show ?thesis using True by (auto simp: split_loop.simps)
  next
    case False
    have IH: "split_loop (pre @ bs) (length pre + length bs - length rest) (parts @ [p]) = Inr ps \<longleftrightarrow>
        (\<exists>qs. ps = parts @ p # qs \<and> rest = joined qs)"
      if "bs = escape p @ 0 # 0 # rest" for p rest
      using less [of rest "pre @ escape p @ [0, 0]" "parts @ [p]"] that by simp
    have "split_loop (pre @ bs) (length pre) parts = Inr ps \<longleftrightarrow>
        (\<exists>p rest. bs = escape p @ 0 # 0 # rest \<and>
           split_loop (pre @ bs) (length pre + length bs - length rest) (parts @ [p]) = Inr ps)"
      using False by (auto simp: split_loop_step bindr_eq_Inr take_part_iff)
    also have "\<dots> \<longleftrightarrow> (\<exists>p rest qs. bs = escape p @ 0 # 0 # rest \<and> ps = parts @ p # qs \<and> rest = joined qs)"
      using IH by blast
    also have "\<dots> \<longleftrightarrow> (\<exists>qs. ps = parts @ qs \<and> bs = joined qs)"
    proof -
      have "joined qs = bs \<longleftrightarrow> (\<exists>p qs'. qs = p # qs' \<and> bs = escape p @ 0 # 0 # joined qs')" for qs
        using False by (cases qs) auto
      then show ?thesis by metis
    qed
    finally show ?thesis .
  qed
qed

section \<open>The order of keys\<close>

text \<open>
  The order a reader of the API expects: \<^verbatim>\<open>null\<close>, then \<^verbatim>\<open>false\<close> and \<^verbatim>\<open>true\<close>, then numbers by value,
  strings by code points, and byte strings; lists of parts are compared part by part.
\<close>

fun part_rank :: "CompoundKeyPart \<Rightarrow> nat" where
  "part_rank KNull = 0"
| "part_rank (KBool _) = 1"
| "part_rank (KNumber _) = 2"
| "part_rank (KString _) = 3"
| "part_rank (KBytes _) = 4"
| "part_rank KOther = 5"

fun part_less :: "CompoundKeyPart \<Rightarrow> CompoundKeyPart \<Rightarrow> bool" where
  "part_less (KBool a) (KBool b) = (\<not> a \<and> b)"
| "part_less (KNumber v) (KNumber w) = (f64_scaled v < f64_scaled w)"
| "part_less (KString s) (KString t) = (code_points s < code_points t)"
| "part_less (KBytes a) (KBytes b) = (a < b)"
| "part_less p q = (part_rank p < part_rank q)"

fun parts_less :: "CompoundKeyPart list \<Rightarrow> CompoundKeyPart list \<Rightarrow> bool" where
  "parts_less _ [] = False"
| "parts_less [] (q # qs) = True"
| "parts_less (p # ps) (q # qs) = (part_less p q \<or> \<not> part_less q p \<and> parts_less ps qs)"

lemma encodeCompoundKeyPart_cases:
  assumes "encodeCompoundKeyPart p = Inr a"
  obtains "p = KNull" "a = [0x10]" | b where "p = KBool b" "a = [if b then 0x21 else 0x20]"
    | v where "p = KNumber v" "f64_is_finite v" "a = 0x30 # be_bytes 8 (sortable_bits v)"
    | s where "p = KString s" "well_formed s" "a = 0x40 # utf8 (code_points s)"
    | bs where "p = KBytes bs" "a = 0x50 # bs"
  using assms
  by (cases p)
    (auto simp: encodeCompoundKeyPart_def encodeSortableNumber_eq encodeStringKey_eq overlay_def split: if_splits)

lemma sortable_bytes_less:
  "be_bytes 8 (sortable_bits v) < be_bytes 8 (sortable_bits w) \<longleftrightarrow> f64_scaled v < f64_scaled w"
proof -
  have "sortable_bits u < 256 ^ 8" for u using sortable_bits_less [of u] by simp
  then show ?thesis by (simp only: be_bytes_less sortable_bits_order)
qed

lemma encodeCompoundKeyPart_less:
  assumes "encodeCompoundKeyPart p = Inr a" and "encodeCompoundKeyPart q = Inr b"
  shows "a < b \<longleftrightarrow> part_less p q"
  by (rule encodeCompoundKeyPart_cases [OF assms(1)]; rule encodeCompoundKeyPart_cases [OF assms(2)])
    (simp_all add: sortable_bytes_less utf8_code_points_less)

lemma parts_less_encoded:
  "mapr encodeCompoundKeyPart ps = Inr as \<Longrightarrow> mapr encodeCompoundKeyPart qs = Inr bs \<Longrightarrow>
     as < bs \<longleftrightarrow> parts_less ps qs"
proof (induction ps qs arbitrary: as bs rule: parts_less.induct)
  case (3 p ps q qs)
  then obtain a as' b bs' where ab: "encodeCompoundKeyPart p = Inr a" "mapr encodeCompoundKeyPart ps = Inr as'" "as = a # as'"
      "encodeCompoundKeyPart q = Inr b" "mapr encodeCompoundKeyPart qs = Inr bs'" "bs = b # bs'"
    by (auto simp: bindr_eq_Inr)
  then show ?case
    using 3(1) [of as' bs'] encodeCompoundKeyPart_less [of p a q b] encodeCompoundKeyPart_less [of q b p a]
    by (auto simp: not_less)
qed (auto simp: bindr_eq_Inr)

lemma compoundKey_eq:
  "compoundKey ps = bindr (mapr encodeCompoundKeyPart ps) (\<lambda>bs. Inr (encodeCompoundKeyParts bs))"
proof (cases "mapr encodeCompoundKeyPart ps")
  case (Inl e)
  then show ?thesis by (simp add: compoundKey_def encodeCompoundKeyList_def compound_lengths_eq)
next
  case (Inr bs)
  then show ?thesis
    by (simp add: compoundKey_def encodeCompoundKeyList_def compound_lengths_eq compound_write_eq encodeCompoundKeyParts_eq)
qed

lemma encodeCompoundKeyParts_less: "encodeCompoundKeyParts xs < encodeCompoundKeyParts ys \<longleftrightarrow> xs < ys"
  using part.enc_list_less [of xs ys] by (simp only: list.pred_True flip: parts_concat)

section \<open>Ranges\<close>

text \<open>Which keys the engine's scans return for a range: all bounds that are present hold.\<close>

definition in_range :: "bytes \<Rightarrow> range \<Rightarrow> bool" where
  "in_range key r \<longleftrightarrow>
     (case gt r of None \<Rightarrow> True | Some b \<Rightarrow> b < key) \<and> (case gte r of None \<Rightarrow> True | Some b \<Rightarrow> b \<le> key) \<and>
     (case lt r of None \<Rightarrow> True | Some b \<Rightarrow> key < b) \<and> (case lte r of None \<Rightarrow> True | Some b \<Rightarrow> key \<le> b)"

lemma byte_max [simp]: "(0xff :: byte) \<le> b \<longleftrightarrow> b = 0xff" "\<not> 0xff < (b :: byte)"
  using unat_byte_le [of b] by (auto simp: word_le_nat_alt word_less_nat_alt word_unat_eq_iff simp del: unat_byte_le)

lemma ge_all_ones: "replicate n (0xff :: byte) \<le> k \<longleftrightarrow> (\<exists>u. k = replicate n 0xff @ u)"
proof (induction n arbitrary: k)
  case 0
  then show ?case by simp
next
  case (Suc n)
  then show ?case by (cases k) auto
qed

lemma byte_between: "b \<noteq> 0xff \<Longrightarrow> b \<le> c \<Longrightarrow> c < b + 1 \<Longrightarrow> c = (b :: byte)"
  using unat_byte_less [of b] by (auto simp: word_le_nat_alt word_less_nat_alt word_unat_eq_iff unat_word_ariths)

lemma prefix_end_spec:
  "n \<le> length p \<Longrightarrow> prefix_end p n \<le> n \<and>
     take n p = take (prefix_end p n) p @ replicate (n - prefix_end p n) 0xff \<and>
     (0 < prefix_end p n \<longrightarrow> p ! (prefix_end p n - 1) \<noteq> 0xff)"
proof (induction n)
  case 0
  then show ?case by simp
next
  case (Suc n)
  then show ?case
    by (auto simp: take_Suc_conv_app_nth Suc_diff_le replicate_append_same)
qed

lemma prefix_shape:
  obtains (ones) n where "p = replicate n 0xff" "prefixSuccessor p = None"
    | (bump) q b n where "p = q @ b # replicate n 0xff" "b \<noteq> 0xff" "prefixSuccessor p = Some (q @ [b + 1])"
proof -
  define e where "e = prefix_end p (length p)"
  have e: "e \<le> length p" "p = take e p @ replicate (length p - e) 0xff" "0 < e \<Longrightarrow> p ! (e - 1) \<noteq> 0xff"
    using prefix_end_spec [of "length p" p] by (simp_all add: e_def)
  show thesis
  proof (cases "e = 0")
    case True
    then show thesis using e ones [of "length p"] by (simp add: prefixSuccessor_def flip: e_def)
  next
    case False
    then have t: "take e p = take (e - 1) p @ [p ! (e - 1)]"
      using e take_Suc_conv_app_nth [of "e - 1" p] by simp
    have "prefixSuccessor p = Some ((take e p)[e - 1 := take e p ! (e - 1) + 1])"
      using False e by (simp add: prefixSuccessor_def flip: e_def)
    also have "\<dots> = Some (take (e - 1) p @ [p ! (e - 1) + 1])"
      using False e by (simp add: t nth_append list_update_append)
    finally show thesis
      using False e t bump [of "take (e - 1) p" "p ! (e - 1)" "length p - e"] by simp
  qed
qed

lemma bumped_prefix:
  fixes b :: byte
  assumes "b \<noteq> 0xff"
  shows "q @ b # replicate n 0xff \<le> k \<and> k < q @ [b + 1] \<longleftrightarrow> (\<exists>u. k = (q @ b # replicate n 0xff) @ u)"
proof (induction q arbitrary: k)
  case Nil
  have "Suc (unat b) mod 256 = Suc (unat b)"
    using assms unat_byte_less [of b] by (auto simp: mod_Suc word_unat_eq_iff)
  then have "b < b + 1"
    by (auto simp: word_less_nat_alt word_unat_eq_iff unat_word_ariths)
  then show ?case
    using byte_between [OF assms, of "hd k"] ge_all_ones [of n "tl k"]
    by (cases k) (auto simp: less_imp_le)
next
  case (Cons c q)
  then show ?case by (cases k) auto
qed

lemma prefixRange_exact: "in_range k (prefixRange p) \<longleftrightarrow> (\<exists>u. k = p @ u)"
proof (cases p rule: prefix_shape)
  case (ones n)
  then show ?thesis by (simp add: prefixRange_def in_range_def empty_range_def ge_all_ones)
next
  case (bump q b n)
  then show ?thesis using bumped_prefix [of b q n k] by (simp add: prefixRange_def in_range_def empty_range_def)
qed

section \<open>Properties\<close>

text \<open>
  C1. The compound key encoder, which first measures and then fills one buffer, returns exactly the
  typed encodings of the parts, escaped, terminated and concatenated; it throws exactly the error of
  the first part that has no encoding, and never writes outside the buffer it allocated.
\<close>

theorem encodeCompoundKeyList_reference:
  "encodeCompoundKeyList ps = bindr (mapr encodeCompoundKeyPart ps) (\<lambda>bs. Inr (joined bs))"
  using compoundKey_eq [of ps] by (simp add: compoundKey_def encodeCompoundKeyParts_eq)

text \<open>
  C2. Splitting a compound key returns exactly the parts it was built from, and a byte string that
  no list of parts encodes to is rejected.
\<close>

theorem splitCompoundKey_iff:
  "splitCompoundKey key = Inr parts \<longleftrightarrow> encodeCompoundKeyParts parts = key"
  using split_loop_iff [of "[]" key "[]" parts]
  by (auto simp: splitCompoundKey_def encodeCompoundKeyParts_eq)

text \<open>
  C3. Byte order of compound keys is the order of their parts: type by type, numbers by their exact
  value, strings by code points, byte strings bytewise, and lists part by part.
\<close>

theorem compoundKey_order:
  assumes "compoundKey ps = Inr j" and "compoundKey qs = Inr k"
  shows "j < k \<longleftrightarrow> parts_less ps qs"
proof -
  from assms obtain as bs where "mapr encodeCompoundKeyPart ps = Inr as" "mapr encodeCompoundKeyPart qs = Inr bs"
      "j = encodeCompoundKeyParts as" "k = encodeCompoundKeyParts bs"
    by (auto simp: compoundKey_eq bindr_eq_Inr)
  then show ?thesis by (simp add: encodeCompoundKeyParts_less parts_less_encoded)
qed

theorem compoundKey_order_witness:
  "\<exists>j k. compoundKey [KNull, KNumber 0x3ff0000000000000] = Inr j \<and>
     compoundKey [KNull, KString [0x41]] = Inr k \<and> j < k"
proof -
  let ?ps = "[KNull, KNumber 0x3ff0000000000000]" and ?qs = "[KNull, KString [0x41]]"
  have "f64_is_finite 0x3ff0000000000000"
    by (simp add: f64_is_finite_def f64_mag_def)
  then obtain j where j: "compoundKey ?ps = Inr j"
    by (simp add: compoundKey_eq encodeCompoundKeyPart_def encodeSortableNumber_eq)
  have "well_formed [0x41]"
    by (simp add: well_formed_def is_surrogate_def)
  then obtain k where k: "compoundKey ?qs = Inr k"
    by (simp add: compoundKey_eq encodeCompoundKeyPart_def encodeStringKey_eq)
  have "j < k"
    using compoundKey_order [OF j k] by simp
  with j k show ?thesis by blast
qed

text \<open>
  C4. The keys in the range of a compound prefix are exactly the keys that extend the prefix: among
  encoded part lists, those whose first parts have the encodings of the given ones.
\<close>

theorem compoundKeyRange_exact:
  assumes "mapr encodeCompoundKeyPart ps = Inr bs" and "compoundKeyRange ps = Inr r"
  shows "in_range (encodeCompoundKeyParts cs) r \<longleftrightarrow> (\<exists>ds. cs = bs @ ds)"
proof -
  have "r = prefixRange (encodeCompoundKeyParts bs)"
    using assms by (simp add: compoundKeyRange_def compoundKey_eq)
  then show ?thesis
    using part.enc_list_prefix [of bs cs]
    by (simp only: prefixRange_exact list.pred_True flip: parts_concat)
qed

theorem compoundKeyRange_exact_witness:
  "\<exists>r. compoundKeyRange [KBool True] = Inr r \<and> in_range (encodeCompoundKeyParts [[0x21], [0x10]]) r"
proof -
  have m: "mapr encodeCompoundKeyPart [KBool True] = Inr [[0x21]]"
    by (simp add: encodeCompoundKeyPart_def)
  then obtain r where r: "compoundKeyRange [KBool True] = Inr r"
    by (simp only: compoundKeyRange_def compoundKey_eq bindr.simps)
  show ?thesis
    using compoundKeyRange_exact [OF m r, of "[[0x21], [0x10]]"] r by auto
qed

text \<open>
  A prefix range contains a key exactly when the key starts with the prefix, the prefixes of
  all-ones bytes that have no successor included.
\<close>

theorem prefixRange_iff: "in_range k (prefixRange p) \<longleftrightarrow> (\<exists>u. k = p @ u)"
  by (rule prefixRange_exact)

definition numeric_int :: "numeric \<Rightarrow> int" where
  "numeric_int v = (case v of Num f \<Rightarrow> f64_int f | Big n \<Rightarrow> n)"

lemma u64Key_ok:
  "u64Key v = Inr k \<longleftrightarrow>
     (\<forall>f. v = Num f \<longrightarrow> f64_is_safe_integer f) \<and> 0 \<le> numeric_int v \<and> numeric_int v < 2 ^ 64 \<and>
     k = be_bytes 8 (nat (numeric_int v))"
  by (cases v) (auto simp: u64Key_def numeric_int_def Let_def)

text \<open>
  An unsigned key is the eight byte big-endian form of the value, so that the byte order of two
  keys is the order of the values.
\<close>

theorem u64Key_order:
  assumes "u64Key v = Inr j" and "u64Key w = Inr k"
  shows "length j = 8 \<and> int (be_val j) = numeric_int v \<and> (j < k \<longleftrightarrow> numeric_int v < numeric_int w)"
proof -
  have v: "0 \<le> numeric_int v" "nat (numeric_int v) < 256 ^ 8" "j = be_bytes 8 (nat (numeric_int v))"
    and w: "0 \<le> numeric_int w" "nat (numeric_int w) < 256 ^ 8" "k = be_bytes 8 (nat (numeric_int w))"
    using assms by (auto simp: u64Key_ok nat_less_iff)
  then have "j < k \<longleftrightarrow> nat (numeric_int v) < nat (numeric_int w)"
    by (simp only: be_bytes_less)
  with v w show ?thesis by (auto simp: be_val_be_bytes)
qed

theorem u64Key_order_witness:
  "\<exists>j k. u64Key (Big 7) = Inr j \<and> u64Key (Big 300) = Inr k \<and> j < k"
proof -
  obtain j where j: "u64Key (Big 7) = Inr j" by (simp add: u64Key_def)
  obtain k where k: "u64Key (Big 300) = Inr k" by (simp add: u64Key_def)
  show ?thesis using u64Key_order [OF j k] j k by (simp add: numeric_int_def)
qed

end
