(* ===== verification/IndexKeys.thy ===== *)
theory IndexKeys
  imports Codec
begin

text \<open>
  Physical keys of secondary indexes, the second half of \<^verbatim>\<open>packages/sdk/src/indexing.ts\<close>. An index
  is a store whose keys are the two escaped and terminated parts (logical key, primary key). The
  module has its own copies of the compound key routines of \<^verbatim>\<open>codec.ts\<close>, tuned for two parts; the
  lemmas relate them to the general ones and show that a range over logical keys is translated to
  the right range over physical keys.
\<close>

section \<open>Encoding\<close>

fun count_zeros :: "bytes \<Rightarrow> nat" where
  "count_zeros [] = 0"
| "count_zeros (b # bs) = (if b = 0 then 1 else 0) + count_zeros bs"

definition compoundEncodedLength :: "bytes \<Rightarrow> nat" where
  "compoundEncodedLength part = length part + count_zeros part + 2"

fun write_escaped :: "bytes \<Rightarrow> nat \<Rightarrow> bytes \<Rightarrow> bytes \<times> nat" where
  "write_escaped out offset [] = (out, offset)"
| "write_escaped out offset (b # bs) =
     (if b = 0 then write_escaped (stores out offset [0, 0xff]) (offset + 2) bs
      else write_escaped (out[offset := b]) (offset + 1) bs)"

definition writeIndexPart :: "bytes \<Rightarrow> nat \<Rightarrow> bytes \<Rightarrow> bytes \<times> nat" where
  "writeIndexPart out offset part =
     (let (out', offset') = write_escaped out offset part
      in (stores out' offset' [0, 0], offset' + 2))"

definition encodeCompoundPrefix :: "bytes \<Rightarrow> bytes" where
  "encodeCompoundPrefix part = fst (writeIndexPart (replicate (compoundEncodedLength part) 0) 0 part)"

definition encodeIndexEntryKey :: "bytes \<Rightarrow> bytes \<Rightarrow> bytes" where
  "encodeIndexEntryKey logicalIndexKey primaryKey =
     (let out = replicate (compoundEncodedLength logicalIndexKey + compoundEncodedLength primaryKey) 0;
          (out1, primaryAt) = writeIndexPart out 0 logicalIndexKey
      in fst (writeIndexPart out1 primaryAt primaryKey))"

section \<open>Decoding\<close>

function read_part_from :: "bytes \<Rightarrow> nat \<Rightarrow> nat \<Rightarrow> (nat \<times> nat) result" where
  "read_part_from bs index unescaped =
     (if index < length bs then
        if bs ! index \<noteq> 0 then read_part_from bs (index + 1) (unescaped + 1)
        else (let next = read_at bs (index + 1) in
          if next = Some 0xff then read_part_from bs (index + 2) (unescaped + 1)
          else if next = Some 0 then Inr (unescaped, index + 2)
          else throw TypeError ''invalid compound key encoding'')
      else throw TypeError ''compound key terminated unexpectedly'')"
  by pat_completeness auto
termination
  by (relation "measure (\<lambda>(bs, index, _). length bs - index)") auto

declare read_part_from.simps [simp del]

text \<open>The Boolean result and the cursor it fills: \<^term>\<open>None\<close> is \<^verbatim>\<open>false\<close>, and the pair is
  \<^verbatim>\<open>(cursor.unescaped, cursor.end)\<close>.\<close>

definition readCompoundPart :: "bytes \<Rightarrow> nat \<Rightarrow> (nat \<times> nat) option result" where
  "readCompoundPart bs start =
     (if length bs \<le> start then Inr None
      else bindr (read_part_from bs start 0) (\<lambda>cursor. Inr (Some cursor)))"

function copy_part_from :: "bytes \<Rightarrow> nat \<Rightarrow> bytes \<Rightarrow> nat \<Rightarrow> bytes" where
  "copy_part_from bs index out offset =
     (if offset < length out then
        (case read_at bs index of
           None \<Rightarrow> copy_part_from bs (index + 1) (out[offset := 0]) (offset + 1)
         | Some b \<Rightarrow>
             if b \<noteq> 0 then copy_part_from bs (index + 1) (out[offset := b]) (offset + 1)
             else if read_at bs (index + 1) = Some 0xff
               then copy_part_from bs (index + 2) (out[offset := 0]) (offset + 1)
             else out)
      else out)"
  by pat_completeness auto
termination
  by (relation "measure (\<lambda>(bs, index, out, offset). length out - offset)") auto

declare copy_part_from.simps [simp del]

definition copyUnescapedPart :: "bytes \<Rightarrow> nat \<Rightarrow> bytes \<Rightarrow> bytes" where
  "copyUnescapedPart bs start out = copy_part_from bs start out 0"

text \<open>The loop over surplus parts: it always ends in an error.\<close>

function surplus_parts :: "bytes \<Rightarrow> nat \<Rightarrow> error" where
  "surplus_parts bs end =
     (case readCompoundPart bs end of
        Inl e \<Rightarrow> e
      | Inr None \<Rightarrow> Throw SerializationError ''invalid index entry key encoding''
      | Inr (Some (_, end')) \<Rightarrow>
          if end' \<le> end then Throw TypeError ''invalid compound key encoding''
          else if end' = length bs then Throw SerializationError ''invalid index entry key encoding''
          else surplus_parts bs end')"
  by pat_completeness auto
termination
  by (relation "measure (\<lambda>(bs, end). length bs - end)")
    (auto simp: readCompoundPart_def split: if_splits)

declare surplus_parts.simps [simp del]

definition decodeTwoPartIndexKey :: "bytes \<Rightarrow> (bytes \<times> bytes) result" where
  "decodeTwoPartIndexKey bs =
     bindr (readCompoundPart bs 0) (\<lambda>first.
       case first of
         None \<Rightarrow> throw SerializationError ''invalid index entry key encoding''
       | Some (logicalLength, primaryStart) \<Rightarrow>
         bindr (readCompoundPart bs primaryStart) (\<lambda>second.
           case second of
             None \<Rightarrow> throw SerializationError ''invalid index entry key encoding''
           | Some (primaryLength, end) \<Rightarrow>
               if end \<noteq> length bs then Inl (surplus_parts bs end)
               else Inr (copyUnescapedPart bs 0 (replicate logicalLength 0),
                         copyUnescapedPart bs primaryStart (replicate primaryLength 0))))"

definition decodeIndexEntryKey :: "bytes \<Rightarrow> (bytes \<times> bytes) result" where
  "decodeIndexEntryKey bs =
     (case decodeTwoPartIndexKey bs of
        Inr parts \<Rightarrow> Inr parts
      | Inl (Throw SerializationError msg) \<Rightarrow> throw SerializationError msg
      | Inl (Throw _ _) \<Rightarrow> throw SerializationError ''invalid index entry key encoding'')"

section \<open>Ranges\<close>

fun advance_from :: "bytes \<Rightarrow> nat \<Rightarrow> bytes option" where
  "advance_from prefix 0 = None"
| "advance_from prefix (Suc index) =
     (if prefix ! index \<noteq> 0xff
      then (let prefix' = prefix[index := prefix ! index + 1]
            in Some (if index + 1 = length prefix then prefix' else take (index + 1) prefix'))
      else advance_from prefix index)"

definition advanceEncodedPrefix :: "bytes \<Rightarrow> bytes option" where
  "advanceEncodedPrefix prefix = advance_from prefix (length prefix)"

definition indexKeyExactRange :: "bytes \<Rightarrow> range" where
  "indexKeyExactRange logicalIndexKey =
     (let gte' = encodeCompoundPrefix logicalIndexKey
      in case advanceEncodedPrefix gte' of
           Some upper \<Rightarrow> empty_range\<lparr>gte := Some gte', lt := Some upper\<rparr>
         | None \<Rightarrow> empty_range\<lparr>gte := Some gte'\<rparr>)"

definition MAX_ENGINE_SCAN_LIMIT :: int where
  "MAX_ENGINE_SCAN_LIMIT = 0xffffffff"

definition assertValidScanRange :: "range \<Rightarrow> unit result" where
  "assertValidScanRange r =
     (if gt r \<noteq> None \<and> gte r \<noteq> None then throw InvalidRangeError ''range cannot include both gt and gte''
      else if lt r \<noteq> None \<and> lte r \<noteq> None then throw InvalidRangeError ''range cannot include both lt and lte''
      else case limit r of
        None \<Rightarrow> Inr ()
      | Some n \<Rightarrow>
          if \<not> f64_is_safe_integer n \<or> f64_int n < 0 \<or> MAX_ENGINE_SCAN_LIMIT < f64_int n
          then throw InvalidRangeError ''limit must be an integer between 0 and 4294967295''
          else Inr ())"

definition indexRangeToPhysicalRange :: "range \<Rightarrow> range result" where
  "indexRangeToPhysicalRange r =
     bindr (assertValidScanRange r) (\<lambda>_.
       let p0 = empty_range;
           p1 = (case reverse r of None \<Rightarrow> p0 | Some b \<Rightarrow> p0\<lparr>reverse := Some b\<rparr>);
           p2 = (case limit r of None \<Rightarrow> p1 | Some n \<Rightarrow> p1\<lparr>limit := Some n\<rparr>);
           p3 = (case gte r of None \<Rightarrow> p2 | Some b \<Rightarrow> p2\<lparr>gte := Some (encodeCompoundPrefix b)\<rparr>);
           p4 = (case gt r of None \<Rightarrow> p3 | Some b \<Rightarrow>
                  (case advanceEncodedPrefix (encodeCompoundPrefix b) of
                     None \<Rightarrow> p3 | Some lower \<Rightarrow> p3\<lparr>gte := Some lower\<rparr>));
           p5 = (case lt r of None \<Rightarrow> p4 | Some b \<Rightarrow> p4\<lparr>lt := Some (encodeCompoundPrefix b)\<rparr>);
           p6 = (case lte r of None \<Rightarrow> p5 | Some b \<Rightarrow>
                  (case advanceEncodedPrefix (encodeCompoundPrefix b) of
                     None \<Rightarrow> p5 | Some upper \<Rightarrow> p5\<lparr>lt := Some upper\<rparr>))
       in Inr p6)"

section \<open>Agreement with the general codec\<close>

lemma compoundEncodedLength_eq: "compoundEncodedLength part = length (escape part) + 2"
proof -
  have "length part + count_zeros part = length (escape part)"
    by (induction part) auto
  then show ?thesis by (simp add: compoundEncodedLength_def)
qed

lemma write_escaped_eq: "write_escaped out off part = writeEscapedBytes out off part"
  by (induction part arbitrary: out off) auto

lemma writeIndexPart_eq:
  assumes "off + length (escape part) + 2 \<le> length out"
  shows "writeIndexPart out off part = (overlay out off (escape part @ [0, 0]), off + length (escape part) + 2)"
proof -
  have "writeIndexPart out off part = writeTerminator (writeEscapedBytes out off part)"
    by (simp add: writeIndexPart_def write_escaped_eq writeTerminator_def split_def Let_def)
  then show ?thesis
    using assms writeTerminator_eq [of off "escape part" out] by (simp add: writeEscapedBytes_eq)
qed

lemma encodeCompoundPrefix_eq: "encodeCompoundPrefix part = encodeCompoundKeyParts [part]"
  by (simp add: encodeCompoundPrefix_def compoundEncodedLength_eq writeIndexPart_eq encodeCompoundKeyParts_eq)

lemma encodeIndexEntryKey_eq: "encodeIndexEntryKey l p = encodeCompoundKeyParts [l, p]"
proof -
  let ?out = "replicate (length (escape l) + 2 + (length (escape p) + 2)) 0"
  have "overlay (overlay ?out 0 (escape l @ [0, 0])) (length (escape l) + 2) (escape p @ [0, 0]) =
      overlay ?out 0 ((escape l @ [0, 0]) @ escape p @ [0, 0])"
    using overlay_overlay [of 0 "escape l @ [0, 0]" ?out "escape p @ [0, 0]"] by simp
  then show ?thesis
    by (simp add: encodeIndexEntryKey_def compoundEncodedLength_eq writeIndexPart_eq encodeCompoundKeyParts_eq)
qed

lemma encodeIndexEntryKey_split: "encodeIndexEntryKey l p = encodeCompoundPrefix l @ encodeCompoundPrefix p"
  by (simp add: encodeIndexEntryKey_eq encodeCompoundPrefix_eq encodeCompoundKeyParts_eq)

lemma advance_from_eq:
  "n \<le> length p \<Longrightarrow> advance_from p n =
     (let e = prefix_end p n in if e = 0 then None else Some ((take e p)[e - 1 := p ! (e - 1) + 1]))"
  by (induction n) (auto simp: Let_def take_update_swap)

lemma advanceEncodedPrefix_eq: "advanceEncodedPrefix p = prefixSuccessor p"
proof -
  have "prefix_end p (length p) \<le> length p"
    using prefix_end_spec [of "length p" p] by simp
  then show ?thesis
    by (simp add: advanceEncodedPrefix_def advance_from_eq prefixSuccessor_def Let_def)
qed

lemma read_part_from_eq: "read_part_from bs i n = bindr (split_scan bs i n) (\<lambda>(stop, len). Inr (len, stop))"
proof (induction bs i n rule: read_part_from.induct)
  case (1 bs i n)
  then show ?case
    using read_part_from.simps [of bs i n] split_scan.simps [of bs i n] by (simp add: Let_def)
qed

lemma readCompoundPart_at:
  "readCompoundPart (pre @ bs) (length pre) =
     (if bs = [] then Inr None
      else bindr (take_part bs) (\<lambda>(p, rest). Inr (Some (length p, length pre + length bs - length rest))))"
  by (simp add: readCompoundPart_def read_part_from_eq split_scan_eq split_def)

lemma readCompoundPart_Some:
  "readCompoundPart (pre @ bs) (length pre) = Inr (Some (n, stop)) \<longleftrightarrow>
     (\<exists>p rest. bs = escape p @ 0 # 0 # rest \<and> n = length p \<and> stop = length pre + length bs - length rest)"
  by (auto simp: readCompoundPart_at bindr_eq_Inr take_part_iff)

lemma copy_part_from_eq:
  "length out = off + length p \<Longrightarrow>
     copy_part_from (pre @ escape p @ rest) (length pre) out off = overlay out off p"
proof (induction p arbitrary: pre out off)
  case Nil
  then show ?case by (simp add: copy_part_from.simps)
next
  case (Cons b p)
  let ?w = "if b = 0 then [0, 0xff] else [b]"
  have "copy_part_from (pre @ escape (b # p) @ rest) (length pre) out off =
      copy_part_from ((pre @ ?w) @ escape p @ rest) (length (pre @ ?w)) (out[off := b]) (off + 1)"
    using Cons.prems by (simp add: copy_part_from.simps [of _ "length pre"])
  also have "\<dots> = overlay (out[off := b]) (off + 1) p"
    using Cons.prems by (intro Cons.IH) simp
  also have "\<dots> = overlay out off (b # p)"
    using Cons.prems overlay_overlay [of off "[b]" out p] by (simp add: overlay_update)
  finally show ?case .
qed

lemma copyUnescapedPart_eq:
  "copyUnescapedPart (pre @ escape p @ rest) (length pre) (replicate (length p) 0) = p"
  by (simp add: copyUnescapedPart_def copy_part_from_eq)

lemma decodeTwoPartIndexKey_encoded: "decodeTwoPartIndexKey (encodeIndexEntryKey l p) = Inr (l, p)"
proof -
  let ?a = "escape l @ [0, 0]" and ?b = "escape p @ [0, 0]"
  have bs: "encodeIndexEntryKey l p = ?a @ ?b"
    by (simp add: encodeIndexEntryKey_eq encodeCompoundKeyParts_eq)
  have t: "take_part (?a @ ?b) = Inr (l, ?b)" "take_part ?b = Inr (p, [])"
    by (simp_all add: take_part_iff)
  have "readCompoundPart (?a @ ?b) 0 = Inr (Some (length l, length ?a))"
    using readCompoundPart_at [of "[]" "?a @ ?b"] t by simp
  moreover have "readCompoundPart (?a @ ?b) (length ?a) = Inr (Some (length p, length (?a @ ?b)))"
    using readCompoundPart_at [of ?a ?b] t by simp
  moreover have "copyUnescapedPart (?a @ ?b) 0 (replicate (length l) 0) = l"
    using copyUnescapedPart_eq [of "[]" l "[0, 0] @ ?b"] by simp
  moreover have "copyUnescapedPart (?a @ ?b) (length ?a) (replicate (length p) 0) = p"
    using copyUnescapedPart_eq [of ?a p "[0, 0]"] by simp
  ultimately show ?thesis by (simp only: bs decodeTwoPartIndexKey_def bindr.simps option.case prod.case) simp
qed

lemma decodeTwoPartIndexKey_sound:
  assumes "decodeTwoPartIndexKey bs = Inr (l, p)"
  shows "bs = encodeIndexEntryKey l p"
proof -
  obtain n stop m where first: "readCompoundPart bs 0 = Inr (Some (n, stop))"
    and second: "readCompoundPart bs stop = Inr (Some (m, length bs))"
    using assms by (auto simp: decodeTwoPartIndexKey_def bindr_eq_Inr split: option.splits if_splits)
  obtain l' rest where l': "bs = escape l' @ 0 # 0 # rest" "stop = length bs - length rest"
    using first readCompoundPart_Some [of "[]" bs n stop] by auto
  then have stop: "bs = (escape l' @ [0, 0]) @ rest" "stop = length (escape l' @ [0, 0])" by simp_all
  obtain p' rest' where p': "rest = escape p' @ 0 # 0 # rest'" "length bs = length bs - length rest'"
    using second readCompoundPart_Some [of "escape l' @ [0, 0]" rest m "length bs"] stop by auto
  then have "bs = encodeIndexEntryKey l' p'"
    using stop by (simp add: encodeIndexEntryKey_eq encodeCompoundKeyParts_eq)
  with assms decodeTwoPartIndexKey_encoded [of l' p'] show ?thesis by simp
qed

section \<open>Comparisons with bounds\<close>

lemma prefixSuccessor_encoded: "\<exists>s. prefixSuccessor (encodeCompoundPrefix b) = Some s"
proof (cases "encodeCompoundPrefix b" rule: prefix_shape)
  case (ones n)
  then have "0 \<in> set (replicate n (0xff :: byte))"
    by (simp add: encodeCompoundPrefix_eq encodeCompoundKeyParts_eq flip: ones(1))
  then show ?thesis by simp
qed simp

lemma below_successor:
  assumes "prefixSuccessor p = Some s"
  shows "k < s \<longleftrightarrow> k < p \<or> (\<exists>u. k = p @ u)"
proof -
  have "in_range p (prefixRange p)" by (subst prefixRange_exact) simp
  then have "p < s" using assms by (simp add: prefixRange_def in_range_def)
  moreover have "p \<le> k \<and> k < s \<longleftrightarrow> (\<exists>u. k = p @ u)"
    using prefixRange_exact [of k p] assms by (simp add: prefixRange_def in_range_def empty_range_def)
  ultimately show ?thesis by (meson leI le_less_trans less_le)
qed

lemma entry_key_bounds:
  "encodeIndexEntryKey l p < encodeCompoundPrefix b \<longleftrightarrow> l < b"
  "encodeCompoundPrefix b \<le> encodeIndexEntryKey l p \<longleftrightarrow> b \<le> l"
  "(\<exists>u. encodeIndexEntryKey l p = encodeCompoundPrefix b @ u) \<longleftrightarrow> l = b"
proof -
  show less: "encodeIndexEntryKey l p < encodeCompoundPrefix b \<longleftrightarrow> l < b"
    using part.enc_less [of l "encodeCompoundPrefix p" b "[]"]
    by (simp add: encodeIndexEntryKey_split encodeCompoundPrefix_eq)
  then show "encodeCompoundPrefix b \<le> encodeIndexEntryKey l p \<longleftrightarrow> b \<le> l"
    by (metis linorder_not_less)
  show "(\<exists>u. encodeIndexEntryKey l p = encodeCompoundPrefix b @ u) \<longleftrightarrow> l = b"
    using part.enc_eq [of l "encodeCompoundPrefix p" b]
    by (auto simp: encodeIndexEntryKey_split encodeCompoundPrefix_eq)
qed

lemma entry_key_advanced:
  assumes "advanceEncodedPrefix (encodeCompoundPrefix b) = Some s"
  shows "encodeIndexEntryKey l p < s \<longleftrightarrow> l \<le> b" and "s \<le> encodeIndexEntryKey l p \<longleftrightarrow> b < l"
proof -
  show "encodeIndexEntryKey l p < s \<longleftrightarrow> l \<le> b"
    using below_successor [of "encodeCompoundPrefix b" s "encodeIndexEntryKey l p"] assms
    by (simp add: advanceEncodedPrefix_eq entry_key_bounds le_less)
  then show "s \<le> encodeIndexEntryKey l p \<longleftrightarrow> b < l"
    by (metis linorder_not_less)
qed

definition upper_of :: "bytes \<Rightarrow> bytes" where
  "upper_of b = the (advanceEncodedPrefix (encodeCompoundPrefix b))"

lemma advance_upper_of [simp]: "advanceEncodedPrefix (encodeCompoundPrefix b) = Some (upper_of b)"
  using prefixSuccessor_encoded [of b] by (auto simp: upper_of_def advanceEncodedPrefix_eq)

lemmas entry_key_order = entry_key_bounds entry_key_advanced [OF advance_upper_of]

section \<open>Properties\<close>

text \<open>
  C6. An index entry key decodes to a pair of logical and primary key exactly when it is the
  encoding of that pair; every other byte string is a \<^verbatim>\<open>SerializationError\<close>.
\<close>

theorem decodeIndexEntryKey_iff:
  "(decodeIndexEntryKey bs = Inr (l, p) \<longleftrightarrow> bs = encodeIndexEntryKey l p) \<and>
   (decodeIndexEntryKey bs = Inl e \<longrightarrow> (\<exists>msg. e = Throw SerializationError msg))"
proof
  have "decodeIndexEntryKey bs = Inr (l, p) \<longleftrightarrow> decodeTwoPartIndexKey bs = Inr (l, p)"
    by (auto simp: decodeIndexEntryKey_def split: sum.splits error.splits error_class.splits)
  then show "decodeIndexEntryKey bs = Inr (l, p) \<longleftrightarrow> bs = encodeIndexEntryKey l p"
    using decodeTwoPartIndexKey_sound [of bs l p] decodeTwoPartIndexKey_encoded [of l p] by auto
  show "decodeIndexEntryKey bs = Inl e \<longrightarrow> (\<exists>msg. e = Throw SerializationError msg)"
    by (auto simp: decodeIndexEntryKey_def split: sum.splits error.splits error_class.splits)
qed

theorem decodeIndexEntryKey_iff_witness:
  "decodeIndexEntryKey (encodeIndexEntryKey [0, 1] [2]) = Inr ([0, 1], [2])"
  using decodeIndexEntryKey_iff [of "encodeIndexEntryKey [0, 1] [2]" "[0, 1]" "[2]"] by simp

lemma physical_range:
  assumes "indexRangeToPhysicalRange r = Inr physical"
  shows "(in_range (encodeIndexEntryKey l p) physical \<longleftrightarrow> in_range l r) \<and>
    reverse physical = reverse r \<and> limit physical = limit r"
proof -
  have excl: "gt r = None \<or> gte r = None" "lt r = None \<or> lte r = None"
    using assms by (auto simp: indexRangeToPhysicalRange_def assertValidScanRange_def split: if_splits)
  have phys: "physical = \<lparr>gt = None,
      gte = (case gt r of Some b \<Rightarrow> Some (upper_of b) | None \<Rightarrow> map_option encodeCompoundPrefix (gte r)),
      lt = (case lte r of Some b \<Rightarrow> Some (upper_of b) | None \<Rightarrow> map_option encodeCompoundPrefix (lt r)),
      lte = None, reverse = reverse r, limit = limit r\<rparr>"
    using assms
    by (auto simp: indexRangeToPhysicalRange_def bindr_eq_Inr empty_range_def Let_def split: option.splits)
  show ?thesis
    using excl by (auto simp: phys in_range_def entry_key_order split: option.splits)
qed

text \<open>
  C7. A scan of an index over a range of logical keys reads exactly the entries whose logical key is
  in the range, whatever their primary keys, and keeps the direction and the limit of the request.
\<close>

theorem indexRangeToPhysicalRange_exact:
  assumes "indexRangeToPhysicalRange r = Inr physical"
  shows "(in_range (encodeIndexEntryKey l p) physical \<longleftrightarrow> in_range l r) \<and>
    reverse physical = reverse r \<and> limit physical = limit r"
  by (rule physical_range [OF assms])

theorem indexRangeToPhysicalRange_exact_witness:
  "\<exists>physical. indexRangeToPhysicalRange (empty_range\<lparr>gt := Some [5], lte := Some [7]\<rparr>) = Inr physical \<and>
     in_range (encodeIndexEntryKey [7] [9]) physical \<and> \<not> in_range (encodeIndexEntryKey [5] [9]) physical"
proof -
  let ?r = "empty_range\<lparr>gt := Some [5], lte := Some [7]\<rparr>"
  obtain ph where ph: "indexRangeToPhysicalRange ?r = Inr ph"
    by (simp add: indexRangeToPhysicalRange_def assertValidScanRange_def empty_range_def)
  have "in_range [7] ?r" "\<not> in_range [5] ?r"
    by (simp_all add: in_range_def empty_range_def)
  then show ?thesis
    using ph indexRangeToPhysicalRange_exact [OF ph] by blast
qed

text \<open>
  The exact range of a logical key holds the entries of that logical key and no others, and the
  entries of an index are ordered by logical key first and primary key second.
\<close>

theorem index_entries_ordered:
  "(in_range (encodeIndexEntryKey l p) (indexKeyExactRange k) \<longleftrightarrow> l = k) \<and>
   (encodeIndexEntryKey l p < encodeIndexEntryKey l' p' \<longleftrightarrow> l < l' \<or> l = l' \<and> p < p')"
proof
  show "in_range (encodeIndexEntryKey l p) (indexKeyExactRange k) \<longleftrightarrow> l = k"
    by (auto simp: indexKeyExactRange_def in_range_def empty_range_def entry_key_order)
  have "[l, p] < [l', p'] \<longleftrightarrow> l < l' \<or> l = l' \<and> p < p'" by simp
  then show "encodeIndexEntryKey l p < encodeIndexEntryKey l' p' \<longleftrightarrow> l < l' \<or> l = l' \<and> p < p'"
    by (simp only: encodeIndexEntryKey_eq encodeCompoundKeyParts_less)
qed

end
