(* ===== verification/JsValue.thy ===== *)
theory JsValue
  imports JsNumber JsString
begin

text \<open>
  Values of the TypeScript type \<^verbatim>\<open>unknown\<close>, with the operations on them the sources use: own
  properties, property reads, and the quoting of strings by \<^verbatim>\<open>JSON.stringify\<close>. Objects are plain
  objects, kept as their own enumerable properties in order; arrays have no holes.
\<close>

section \<open>Values\<close>

datatype jsval =
    VUndefined | VNull | VBool bool | VNumber f64 | VBigint int | VString jsstring
  | VBytes bytes \<comment> \<open>a \<^verbatim>\<open>Uint8Array\<close>\<close>
  | VArray "jsval list"
  | VObject "(jsstring \<times> jsval) list"
  | VOther \<comment> \<open>a function or a symbol\<close>

definition is_object :: "jsval \<Rightarrow> bool" where
  "is_object v \<longleftrightarrow> (case v of VBytes _ \<Rightarrow> True | VArray _ \<Rightarrow> True | VObject _ \<Rightarrow> True | _ \<Rightarrow> False)"

text \<open>Decimal digits, as array indices are spelled when used as property names.\<close>

fun decimal :: "nat \<Rightarrow> jsstring" where
  "decimal n = (if n < 10 then [of_nat (0x30 + n)] else decimal (n div 10) @ [of_nat (0x30 + n mod 10)])"

declare decimal.simps [simp del]

definition indexed :: "(nat \<Rightarrow> jsval) \<Rightarrow> nat \<Rightarrow> jsstring \<Rightarrow> jsval option" where
  "indexed f n key = map_of (map (\<lambda>i. (decimal i, f i)) [0..<n]) key"

text \<open>\<^verbatim>\<open>Object.hasOwn(v, key)\<close> and \<^verbatim>\<open>Reflect.get(v, key)\<close> for own properties.\<close>

definition own_property :: "jsval \<Rightarrow> jsstring \<Rightarrow> jsval option" where
  "own_property v key =
     (case v of
        VObject ps \<Rightarrow> map_of ps key
      | VArray xs \<Rightarrow>
          if key = js ''length'' then Some (VNumber (f64_of_nat (length xs)))
          else indexed (\<lambda>i. xs ! i) (length xs) key
      | VBytes bs \<Rightarrow> indexed (\<lambda>i. VNumber (f64_of_nat (unat (bs ! i)))) (length bs) key
      | _ \<Rightarrow> None)"

text \<open>A property read \<^verbatim>\<open>v.key\<close> of a plain object: a missing property is \<^verbatim>\<open>undefined\<close>.\<close>

definition prop_get :: "jsval \<Rightarrow> jsstring \<Rightarrow> jsval" where
  "prop_get v key = (case own_property v key of Some x \<Rightarrow> x | None \<Rightarrow> VUndefined)"

section \<open>String functions\<close>

text \<open>\<^verbatim>\<open>compareStringsByCodeUnit\<close> of \<^verbatim>\<open>internal.ts\<close>.\<close>

definition compareStringsByCodeUnit :: "jsstring \<Rightarrow> jsstring \<Rightarrow> int" where
  "compareStringsByCodeUnit left right = (if left < right then -1 else if right < left then 1 else 0)"

definition starts_with :: "'a list \<Rightarrow> 'a list \<Rightarrow> bool" where
  "starts_with s p \<longleftrightarrow> take (length p) s = p"

definition ends_with :: "'a list \<Rightarrow> 'a list \<Rightarrow> bool" where
  "ends_with s p \<longleftrightarrow> length p \<le> length s \<and> drop (length s - length p) s = p"

fun str_includes :: "'a list \<Rightarrow> 'a list \<Rightarrow> bool" where
  "str_includes [] p = (p = [])"
| "str_includes (c # s) p = (starts_with (c # s) p \<or> str_includes s p)"

text \<open>\<^verbatim>\<open>s.split(c)\<close> for a separator of one code unit.\<close>

fun split_on :: "'a \<Rightarrow> 'a list \<Rightarrow> 'a list list" where
  "split_on c [] = [[]]"
| "split_on c (d # s) =
     (if d = c then [] # split_on c s
      else case split_on c s of [] \<Rightarrow> [[d]] | w # ws \<Rightarrow> (d # w) # ws)"

fun join_with :: "'a list \<Rightarrow> 'a list list \<Rightarrow> 'a list" where
  "join_with sep [] = []"
| "join_with sep [w] = w"
| "join_with sep (w # ws) = w @ sep @ join_with sep ws"

section \<open>Quoting\<close>

definition hex_digit :: "nat \<Rightarrow> code_unit" where
  "hex_digit d = of_nat (if d < 10 then 0x30 + d else 0x57 + d)"

definition unicode_escape :: "nat \<Rightarrow> jsstring" where
  "unicode_escape p = js [CHR 0x5C, CHR ''u''] @
     [hex_digit (p div 4096 mod 16), hex_digit (p div 256 mod 16), hex_digit (p div 16 mod 16), hex_digit (p mod 16)]"

definition quote_point :: "nat \<Rightarrow> jsstring" where
  "quote_point p =
     (if p = 0x22 then [0x5c, 0x22] else if p = 0x5c then [0x5c, 0x5c]
      else if p = 0x08 then [0x5c, 0x62] else if p = 0x09 then [0x5c, 0x74]
      else if p = 0x0a then [0x5c, 0x6e] else if p = 0x0c then [0x5c, 0x66]
      else if p = 0x0d then [0x5c, 0x72]
      else if p < 0x20 \<or> is_surrogate p then unicode_escape p
      else utf16_point p)"

text \<open>\<^verbatim>\<open>JSON.stringify\<close> of a string.\<close>

definition json_quote :: "jsstring \<Rightarrow> jsstring" where
  "json_quote s = [0x22] @ concat (map quote_point (code_points s)) @ [0x22]"

section \<open>Quoting is unambiguous\<close>

lemma hex_digit_inj: "d < 16 \<Longrightarrow> e < 16 \<Longrightarrow> hex_digit d = hex_digit e \<Longrightarrow> d = e"
  by (auto simp: hex_digit_def word_unat_eq_iff simp del: of_nat_add split: if_splits)

lemma unicode_escape_inj:
  assumes "p < 0x10000" "q < 0x10000" "unicode_escape p @ u = unicode_escape q @ v"
  shows "p = q \<and> u = v"
proof -
  have digits: "x mod 16 < 16" for x :: nat by simp
  have expand: "x = x div 4096 mod 16 * 4096 + x div 256 mod 16 * 256 + x div 16 mod 16 * 16 + x mod 16" if "x < 0x10000" for x :: nat
  proof -
    have "x div 4096 = x div 16 div 16 div 16" "x div 256 = x div 16 div 16"
      by (simp_all flip: div_mult2_eq)
    moreover have "x div 16 div 16 div 16 mod 16 = x div 16 div 16 div 16"
      using that by (simp flip: div_mult2_eq add: less_mult_imp_div_less)
    moreover have "x' = w * 4096 + t * 256 + s * 16 + r"
      if "x' = y * 16 + r" "y = z * 16 + s" "z = w * 16 + t" for x' w y z r s t :: nat
      using that by simp
    ultimately show ?thesis
      by (metis div_mult_mod_eq)
  qed
  have h: "hex_digit (p div 4096 mod 16) = hex_digit (q div 4096 mod 16)"
      "hex_digit (p div 256 mod 16) = hex_digit (q div 256 mod 16)"
      "hex_digit (p div 16 mod 16) = hex_digit (q div 16 mod 16)" "hex_digit (p mod 16) = hex_digit (q mod 16)" "u = v"
    using assms(3) by (simp_all add: unicode_escape_def)
  note h(1-4) [THEN hex_digit_inj [OF digits digits]] h(5)
  then show ?thesis using expand [OF assms(1)] expand [OF assms(2)] by simp
qed

definition short_escapes :: "(nat \<times> code_unit) list" where
  "short_escapes = [(0x22, 0x22), (0x5c, 0x5c), (0x08, 0x62), (0x09, 0x74), (0x0a, 0x6e), (0x0c, 0x66), (0x0d, 0x72)]"

lemma quote_point_cases:
  obtains (short) c where "(p, c) \<in> set short_escapes" "quote_point p = [0x5c, c]"
    | (escaped) "p < 0x10000" "quote_point p = unicode_escape p"
    | (raw) "p \<noteq> 0x22" "p \<noteq> 0x5c" "\<not> is_surrogate p" "quote_point p = utf16_point p"
proof (cases "p \<in> fst ` set short_escapes")
  case True
  then show thesis
    using short by (auto simp: short_escapes_def quote_point_def)
next
  case False
  then have q: "quote_point p = (if p < 0x20 \<or> is_surrogate p then unicode_escape p else utf16_point p)"
      "p \<noteq> 0x22" "p \<noteq> 0x5c"
    by (auto simp: short_escapes_def quote_point_def)
  show thesis
  proof (cases "p < 0x20 \<or> is_surrogate p")
    case True
    then show thesis using q escaped by (auto simp: is_surrogate_def)
  next
    case False
    then show thesis using q raw by simp
  qed
qed

lemma short_escapes_inj:
  "(p, c) \<in> set short_escapes \<Longrightarrow> (q, c) \<in> set short_escapes \<Longrightarrow> p = q"
  "(p, c) \<in> set short_escapes \<Longrightarrow> c \<noteq> 0x75"
  by (auto simp: short_escapes_def)

lemma utf16_point_head:
  assumes "p < 0x110000" "\<not> is_surrogate p"
  obtains c w where "utf16_point p = c # w" "unat c = (if p < 0x10000 then p else 0xd800 + (p - 0x10000) div 1024)"
proof (cases "p < 0x10000")
  case True
  then show thesis using that [of "of_nat p" "[]"] by (simp add: utf16_point_def)
next
  case False
  then have "(p - 0x10000) div 1024 < 1024" using assms by (simp add: less_mult_imp_div_less)
  with False show thesis
    using that [of "of_nat (0xd800 + (p - 0x10000) div 1024)" "[of_nat (0xdc00 + (p - 0x10000) mod 1024)]"]
    by (simp add: utf16_point_def del: of_nat_add)
qed

lemma utf16_point_inj:
  assumes "p < 0x110000" "\<not> is_surrogate p" "q < 0x110000" "\<not> is_surrogate q"
    and "utf16_point p @ u = utf16_point q @ v"
  shows "p = q \<and> u = v"
proof -
  have high: "0xd800 + (x - 0x10000) div 1024 < 0xdc00" if "x < 0x110000" for x :: nat
    using that less_mult_imp_div_less [of "x - 0x10000" 1024 1024] by linarith
  have eq: "(if p < 0x10000 then p else 0xd800 + (p - 0x10000) div 1024) =
      (if q < 0x10000 then q else 0xd800 + (q - 0x10000) div 1024)"
    using assms by (metis append_Cons list.inject utf16_point_head)
  then have same: "p < 0x10000 \<longleftrightarrow> q < 0x10000"
    using assms high [of p] high [of q] by (auto simp: is_surrogate_def split: if_splits)
  show ?thesis
  proof (cases "p < 0x10000")
    case True
    then show ?thesis using eq same assms(5) by (simp add: utf16_point_def)
  next
    case False
    have low: "unat (of_nat (0xdc00 + x mod 1024) :: code_unit) = 0xdc00 + x mod 1024" for x
      using mod_less_divisor [of 1024 x] by (simp del: of_nat_add)
    have "(of_nat (0xdc00 + (p - 0x10000) mod 1024) :: code_unit) = of_nat (0xdc00 + (q - 0x10000) mod 1024)" "u = v"
      using False same assms(5) by (auto simp: utf16_point_def)
    then have "(p - 0x10000) mod 1024 = (q - 0x10000) mod 1024" by (metis add_left_cancel low)
    moreover have "(p - 0x10000) div 1024 = (q - 0x10000) div 1024" using eq False same by simp
    ultimately have "p - 0x10000 = q - 0x10000" by (metis div_mult_mod_eq)
    with False same \<open>u = v\<close> show ?thesis by simp
  qed
qed

lemma raw_first:
  assumes "p < 0x110000" "p \<noteq> 0x22" "p \<noteq> 0x5c" "\<not> is_surrogate p"
  shows "hd (utf16_point p @ u) \<noteq> 0x5c \<and> hd (utf16_point p @ u) \<noteq> 0x22"
proof -
  obtain c w where c: "utf16_point p = c # w" "unat c = (if p < 0x10000 then p else 0xd800 + (p - 0x10000) div 1024)"
    using utf16_point_head [OF assms(1,4)] by blast
  then have "unat c \<noteq> 0x5c" "unat c \<noteq> 0x22" using assms by simp_all
  with c show ?thesis by auto
qed

lemma unicode_escape_shape: "\<exists>w. unicode_escape p = 0x5c # 0x75 # w"
  by (simp add: unicode_escape_def js_def)

lemma quote_point_first:
  assumes "p < 0x110000"
  shows "hd (quote_point p @ u) \<noteq> 0x22"
  using raw_first [OF assms, of u] unicode_escape_shape [of p] by (cases p rule: quote_point_cases) auto

lemma quote_point_inj:
  assumes p: "p < 0x110000" and q: "q < 0x110000" and eq: "quote_point p @ u = quote_point q @ v"
  shows "p = q \<and> u = v"
proof -
  note heads = raw_first [OF p, of u] raw_first [OF q, of v]
    unicode_escape_shape [of p] unicode_escape_shape [of q]
  show ?thesis
  proof (cases p rule: quote_point_cases)
    case (short c)
    then show ?thesis
      using eq [symmetric] heads short_escapes_inj by (cases q rule: quote_point_cases) auto
  next
    case escaped
    then show ?thesis
      using eq [symmetric] heads short_escapes_inj unicode_escape_inj [of p q u v] by (cases q rule: quote_point_cases) auto
  next
    case raw
    then show ?thesis
      using eq heads p q utf16_point_inj [of p q u v] by (cases q rule: quote_point_cases) auto
  qed
qed

lemma quote_points_inj:
  "list_all (\<lambda>p. p < 0x110000) ps \<Longrightarrow> list_all (\<lambda>p. p < 0x110000) qs \<Longrightarrow>
   concat (map quote_point ps) @ 0x22 # u = concat (map quote_point qs) @ 0x22 # v \<Longrightarrow> ps = qs \<and> u = v"
proof (induction ps arbitrary: qs)
  case Nil
  have "0x22 # u \<noteq> quote_point q @ w" if "q < 0x110000" for q w
    using quote_point_first [OF that, of w] by (metis list.sel(1))
  then show ?case using Nil by (cases qs) auto
next
  case (Cons p ps)
  have "quote_point p @ w \<noteq> 0x22 # v" for w
    using quote_point_first [of p w] Cons.prems(1) by (metis list.sel(1) list.pred_inject(2))
  then obtain q qs' where qs: "qs = q # qs'"
    using Cons.prems by (cases qs) auto
  let ?r = "concat (map quote_point ps) @ 0x22 # u" and ?r' = "concat (map quote_point qs') @ 0x22 # v"
  have "p = q \<and> ?r = ?r'"
    using Cons.prems qs by (intro quote_point_inj) simp_all
  then show ?case
    using Cons.prems qs Cons.IH [of qs'] by simp
qed

lemma json_quote_inj:
  assumes "json_quote s @ u = json_quote t @ v"
  shows "s = t \<and> u = v"
proof -
  have "code_points s = code_points t \<and> u = v"
    using assms by (intro quote_points_inj code_points_bounded) (simp add: json_quote_def)
  then show ?thesis by (metis utf16_code_points)
qed

end
