(* ===== verification/JsDecimal.thy ===== *)
theory JsDecimal
  imports JsValue
begin

text \<open>
  Decimal texts of JavaScript numbers: the value of a digit string, \<^verbatim>\<open>BigInt(text)\<close>, \<^verbatim>\<open>Number(text)\<close> with
  its exact rounding, \<^verbatim>\<open>Number(bigint)\<close> in the safe range, and the lemmas about them.
\<close>

section \<open>Texts\<close>

definition is_digit :: "code_unit \<Rightarrow> bool" where
  "is_digit c \<longleftrightarrow> 0x30 \<le> c \<and> c \<le> 0x39"


definition to_lower :: "jsstring \<Rightarrow> jsstring" where
  "to_lower s = map (\<lambda>c. if 0x41 \<le> c \<and> c \<le> 0x5a then c + 0x20 else c) s"

text \<open>The natural number of a string of decimal digits.\<close>

definition digit_value :: "code_unit \<Rightarrow> nat" where
  "digit_value c = unat c - 0x30"

definition digits_value :: "jsstring \<Rightarrow> nat" where
  "digits_value s = fold (\<lambda>c n. 10 * n + digit_value c) s 0"

definition split_sign :: "jsstring \<Rightarrow> bool \<times> jsstring" where
  "split_sign s =
     (case s of [] \<Rightarrow> (False, []) | c # cs \<Rightarrow> if c = 0x2d then (True, cs) else if c = 0x2b then (False, cs) else (False, c # cs))"

text \<open>\<^verbatim>\<open>/^[+-]?\d+$/u\<close> and \<^verbatim>\<open>BigInt\<close> of such a text.\<close>

definition is_integer_text :: "jsstring \<Rightarrow> bool" where
  "is_integer_text s \<longleftrightarrow> (let ds = snd (split_sign s) in ds \<noteq> [] \<and> list_all is_digit ds)"

definition signed_value :: "jsstring \<Rightarrow> int" where
  "signed_value s = (case split_sign s of (neg, ds) \<Rightarrow> if neg then - int (digits_value ds) else int (digits_value ds))"

text \<open>\<^verbatim>\<open>Number\<close> of a \<^verbatim>\<open>bigint\<close> in the safe range.\<close>

definition f64_of_int :: "int \<Rightarrow> f64" where
  "f64_of_int i = (if i < 0 then 2 ^ 63 + f64_of_nat (nat (- i)) else f64_of_nat (nat i))"

text \<open>
  The double nearest to the ratio \<open>n / d\<close>, ties to even: the ratio in units of \<open>2\<^sup>-\<^sup>1\<^sup>0\<^sup>7\<^sup>4\<close>, rounded to 53
  significant bits. The magnitudes of the finite doubles are the numbers below \<open>2047 * 2\<^sup>5\<^sup>2\<close>; that one is
  infinity.
\<close>

definition round_half_even :: "nat \<Rightarrow> nat \<Rightarrow> nat" where
  "round_half_even n d =
     (let q = n div d; r = n mod d in if d < 2 * r \<or> 2 * r = d \<and> odd q then q + 1 else q)"

definition ratio_mag :: "nat \<Rightarrow> nat \<Rightarrow> nat" where
  "ratio_mag n d =
     (let u = n * 2 ^ 1074; m = u div d; e = (if m < 2 ^ 53 then 0 else ilog2 m - 52)
      in min (2047 * 2 ^ 52) (e * 2 ^ 52 + round_half_even u (d * 2 ^ e)))"

text \<open>
  The parts of a decimal literal: its sign, its digits, and the power of ten they are multiplied with.
\<close>

definition mantissa_of :: "jsstring \<Rightarrow> jsstring" where
  "mantissa_of s = hd (split_on 0x65 (to_lower s))"

definition exponent_of :: "jsstring \<Rightarrow> jsstring" where
  "exponent_of s = (case split_on 0x65 (to_lower s) of _ # e # _ \<Rightarrow> e | _ \<Rightarrow> js ''0'')"

definition fraction_length :: "jsstring \<Rightarrow> nat" where
  "fraction_length mantissa = (if 0x2e \<in> set mantissa then length mantissa - length (takeWhile (\<lambda>c. c \<noteq> 0x2e) mantissa) - 1 else 0)"

definition mantissa_digits :: "jsstring \<Rightarrow> jsstring" where
  "mantissa_digits mantissa = filter (\<lambda>c. c \<noteq> 0x2b \<and> c \<noteq> 0x2e \<and> c \<noteq> 0x2d) mantissa"

definition decimal_exponent :: "jsstring \<Rightarrow> int" where
  "decimal_exponent s = signed_value (exponent_of s) - int (fraction_length (mantissa_of s))"

text \<open>\<^verbatim>\<open>Number(text)\<close> for a decimal literal with an optional sign.\<close>

definition to_number :: "jsstring \<Rightarrow> f64" where
  "to_number s =
     (let ds = digits_value (mantissa_digits (mantissa_of s)); x = decimal_exponent s;
          mag = (if 0 \<le> x then ratio_mag (ds * 10 ^ nat x) 1 else ratio_mag ds (10 ^ nat (- x)))
      in of_nat ((if fst (split_sign s) then 2 ^ 63 else 0) + mag))"

section \<open>Integer literals\<close>

lemma f64_of_nat_sign:
  assumes "n < 2 ^ 53"
  shows "\<not> f64_negative (f64_of_nat n)"
proof (cases "n = 0")
  case True
  then show ?thesis by (simp add: f64_of_nat_def f64_negative_def)
next
  case False
  then have "0 < f64_scaled (f64_of_nat n)" using f64_of_nat_scaled(1) [OF assms] by (simp add: f64_unit_def)
  then show ?thesis by (auto simp: f64_scaled_def split: if_splits)
qed

lemma f64_negate:
  assumes "\<not> f64_negative v"
  shows "f64_scaled (2 ^ 63 + v) = - f64_scaled v" "f64_is_finite (2 ^ 63 + v) = f64_is_finite v" "f64_negative (2 ^ 63 + v)"
    "f64_mag (2 ^ 63 + v) = f64_mag v"
proof -
  have v: "unat v < 2 ^ 63" using assms by (simp add: f64_negative_def)
  then have u: "unat (2 ^ 63 + v) = 2 ^ 63 + unat v"
    by (subst unat_plus_if') simp
  show m: "f64_mag (2 ^ 63 + v) = f64_mag v" unfolding f64_mag_def u by simp
  show n: "f64_negative (2 ^ 63 + v)" unfolding f64_negative_def u by simp
  show "f64_scaled (2 ^ 63 + v) = - f64_scaled v" "f64_is_finite (2 ^ 63 + v) = f64_is_finite v"
    using assms m n by (simp_all add: f64_scaled_def f64_is_finite_def)
qed

lemma f64_of_int_scaled:
  assumes "\<bar>i\<bar> \<le> max_safe_integer"
  shows "f64_scaled (f64_of_int i) = i * f64_unit" "f64_is_finite (f64_of_int i)"
proof -
  have n: "nat \<bar>i\<bar> < 2 ^ 53" using assms by (simp add: max_safe_integer_def)
  note facts = f64_of_nat_scaled [OF n] f64_negate [OF f64_of_nat_sign [OF n]]
  show "f64_scaled (f64_of_int i) = i * f64_unit" "f64_is_finite (f64_of_int i)"
    using facts by (auto simp: f64_of_int_def)
qed

lemma f64_of_int_safe:
  assumes "\<bar>i\<bar> \<le> max_safe_integer"
  shows "f64_int (f64_of_int i) = i" "f64_is_safe_integer (f64_of_int i)"
proof -
  have "f64_unit \<noteq> 0" by (simp add: f64_unit_def)
  then show "f64_int (f64_of_int i) = i" "f64_is_safe_integer (f64_of_int i)"
    using f64_of_int_scaled [OF assms] assms by (simp_all add: f64_int_def f64_is_safe_integer_def f64_is_integer_def)
qed

text \<open>A number is determined by its value, except for the sign of zero.\<close>

lemma f64_scaled_inj:
  assumes "f64_scaled v = f64_scaled w" and "\<not> f64_is_negative_zero v" and "\<not> f64_is_negative_zero w"
  shows "v = w"
proof -
  have mono: "mag_scaled m = mag_scaled n \<longleftrightarrow> m = n" for m n
    by (metis linorder_less_linear mag_scaled_less order_less_irrefl)
  have "f64_negative v = f64_negative w"
  proof (rule ccontr)
    assume "f64_negative v \<noteq> f64_negative w"
    then have "int (mag_scaled (f64_mag v)) = - int (mag_scaled (f64_mag w))"
      using assms(1) by (auto simp: f64_scaled_def split: if_splits)
    then have "mag_scaled (f64_mag v) = 0" "mag_scaled (f64_mag w) = 0" by linarith+
    then show False using assms(2,3) \<open>f64_negative v \<noteq> f64_negative w\<close> by (auto simp: f64_negative_zero_iff)
  qed
  moreover from this have "f64_mag v = f64_mag w"
    using assms(1) by (auto simp: f64_scaled_def mono split: if_splits)
  ultimately have "f64_negative v = f64_negative w \<and> f64_mag v = f64_mag w" by blast
  then have "unat v = unat w" by (simp add: unat_f64)
  then show ?thesis by (simp add: word_unat_eq_iff)
qed

lemma safe_integer_f64:
  assumes "f64_is_safe_integer v" and "\<not> f64_is_negative_zero v"
  shows "v = f64_of_int (f64_int v)"
proof (rule f64_scaled_inj)
  have safe: "\<bar>f64_int v\<bar> \<le> max_safe_integer" "f64_scaled v mod f64_unit = 0"
    using assms(1) by (simp_all add: f64_is_safe_integer_def f64_is_integer_def)
  then show "f64_scaled v = f64_scaled (f64_of_int (f64_int v))"
    using f64_of_int_scaled(1) [OF safe(1)] by (metis add.right_neutral div_mult_mod_eq f64_int_def)
  show "\<not> f64_is_negative_zero (f64_of_int (f64_int v))"
  proof
    assume z: "f64_is_negative_zero (f64_of_int (f64_int v))"
    then have "f64_scaled (f64_of_int (f64_int v)) = 0" by (simp add: f64_negative_zero_iff f64_scaled_def)
    then have "f64_int v = 0" using f64_of_int_scaled(1) [OF safe(1)] by (simp add: f64_unit_def)
    then show False using z f64_of_nat_sign [of 0] by (simp add: f64_of_int_def f64_negative_zero_iff)
  qed
qed (fact assms(2))

section \<open>Decimal digits\<close>

lemma decimal_text: "list_all is_digit (decimal n) \<and> decimal n \<noteq> [] \<and> digits_value (decimal n) = n"
proof (induction n rule: decimal.induct)
  case (1 n)
  have digit: "is_digit (of_nat (0x30 + d))" "digit_value (of_nat (0x30 + d)) = d" if "d < 10" for d
    using that by (simp_all add: is_digit_def digit_value_def word_le_nat_alt del: of_nat_add)
  show ?case
  proof (cases "n < 10")
    case True
    then show ?thesis using digit [of n] by (simp add: decimal.simps [of n] digits_value_def)
  next
    case False
    have "n mod 10 < 10" by simp
    then show ?thesis using digit [of "n mod 10"] 1 [OF False] False
      by (simp add: decimal.simps [of n] digits_value_def del: of_nat_add decimal.simps)
  qed
qed

lemma decimal_head: "\<exists>c cs. decimal n = c # cs \<and> is_digit c"
  using decimal_text [of n] by (cases "decimal n") auto


end
