(* ===== verification/JsJson.thy ===== *)
theory JsJson
  imports JsDecimal
begin

text \<open>
  \<^verbatim>\<open>JSON.stringify\<close> and \<^verbatim>\<open>JSON.parse\<close> as the sources use them, \<^verbatim>\<open>jsonEncode\<close> and \<^verbatim>\<open>jsonDecode\<close> of
  \<^verbatim>\<open>codec.ts\<close>, and the round trip of JSON values. Numbers are printed with the fewest digits that round
  to them, and read with exact rounding.
\<close>

section \<open>Number texts\<close>

text \<open>The magnitude of the double nearest to \<open>d * 10\<^sup>x\<close>.\<close>

definition dec_mag :: "nat \<Rightarrow> int \<Rightarrow> nat" where
  "dec_mag d x = (if 0 \<le> x then ratio_mag (d * 10 ^ nat x) 1 else ratio_mag d (10 ^ nat (- x)))"

text \<open>
  The value is \<open>t * 10\<^sup>-\<^sup>1\<^sup>0\<^sup>7\<^sup>4\<close>. The last \<open>j\<close> digits are dropped, rounding to the nearer side first; when
  neither side rounds to the magnitude \<open>m\<close>, one digit more is kept.
\<close>

fun shortest :: "nat \<Rightarrow> nat \<Rightarrow> nat \<Rightarrow> nat \<times> int" where
  "shortest m t j =
     (let q = t div 10 ^ j;
          sides = (if 2 * (t mod 10 ^ j) \<le> 10 ^ j then [q, q + 1] else [q + 1, q])
      in case find (\<lambda>c. dec_mag c (int j - 1074) = m) sides of
           Some c \<Rightarrow> (c, int j - 1074)
         | None \<Rightarrow> if j = 0 then (t, - 1074) else shortest m t (j - 1))"

declare shortest.simps [simp del]

fun strip_zeros :: "nat \<Rightarrow> int \<Rightarrow> nat \<times> int" where
  "strip_zeros d x = (if d \<noteq> 0 \<and> d mod 10 = 0 then strip_zeros (d div 10) (x + 1) else (d, x))"

declare strip_zeros.simps [simp del]

definition shortest_decimal :: "nat \<Rightarrow> nat \<times> int" where
  "shortest_decimal m =
     (let t = mag_scaled m * 5 ^ 1074; (d, x) = shortest m t (length (decimal t) - 1) in strip_zeros d x)"

text \<open>A decimal literal: sign, integer part, fraction part and exponent.\<close>

definition exponent_text :: "int option \<Rightarrow> jsstring" where
  "exponent_text ex = (case ex of None \<Rightarrow> [] | Some x \<Rightarrow> 0x65 # (if x < 0 then 0x2d else 0x2b) # decimal (nat \<bar>x\<bar>))"

definition number_literal :: "bool \<Rightarrow> jsstring \<Rightarrow> jsstring \<Rightarrow> int option \<Rightarrow> jsstring" where
  "number_literal neg ip fp ex =
     (if neg then [0x2d] else []) @ ip @ (if fp = [] then [] else 0x2e # fp) @ exponent_text ex"

definition zeros :: "nat \<Rightarrow> jsstring" where
  "zeros n = replicate n 0x30"

definition layout :: "bool \<Rightarrow> nat \<Rightarrow> int \<Rightarrow> jsstring" where
  "layout neg d x =
     (let ds = decimal d; k = length ds; n = int k + x in
      if int k \<le> n \<and> n \<le> 21 then number_literal neg (ds @ zeros (nat x)) [] None
      else if 0 < n \<and> n \<le> 21 then number_literal neg (take (nat n) ds) (drop (nat n) ds) None
      else if - 6 < n \<and> n \<le> 0 then number_literal neg [0x30] (zeros (nat (- n)) @ ds) None
      else number_literal neg [hd ds] (tl ds) (Some (n - 1)))"

text \<open>\<^verbatim>\<open>String(v)\<close> of a finite number. Safe integers are their digits.\<close>

definition number_text :: "f64 \<Rightarrow> jsstring" where
  "number_text v =
     (if f64_is_safe_integer v then (if f64_int v < 0 then [0x2d] else []) @ decimal (nat \<bar>f64_int v\<bar>)
      else case shortest_decimal (f64_mag v) of (d, x) \<Rightarrow> layout (f64_negative v) d x)"

section \<open>Stringify\<close>

lemma mapr_cong [fundef_cong]: "xs = ys \<Longrightarrow> (\<And>x. x \<in> set ys \<Longrightarrow> f x = g x) \<Longrightarrow> mapr f xs = mapr g ys"
proof (induction ys arbitrary: xs)
  case (Cons y ys)
  then show ?case by (auto intro!: bindr_cong)
qed simp

text \<open>
  \<^term>\<open>None\<close> is \<^verbatim>\<open>undefined\<close>: a value without a JSON text, left out of objects and \<^verbatim>\<open>null\<close> in arrays.
  A typed array is written as the object of its elements.
\<close>

definition member_text :: "jsstring \<Rightarrow> jsstring option \<Rightarrow> jsstring list" where
  "member_text k t = (case t of None \<Rightarrow> [] | Some s \<Rightarrow> [json_quote k @ 0x3a # s])"

definition object_text :: "jsstring list \<Rightarrow> jsstring" where
  "object_text ms = 0x7b # join_with [0x2c] ms @ [0x7d]"

fun json_text :: "jsval \<Rightarrow> jsstring option result" where
  "json_text VUndefined = Inr None"
| "json_text VOther = Inr None"
| "json_text VNull = Inr (Some (js ''null''))"
| "json_text (VBool b) = Inr (Some (if b then js ''true'' else js ''false''))"
| "json_text (VNumber v) = Inr (Some (if f64_is_finite v then number_text v else js ''null''))"
| "json_text (VBigint i) = throw TypeError ''Do not know how to serialize a BigInt''"
| "json_text (VString s) = Inr (Some (json_quote s))"
| "json_text (VBytes bs) =
     Inr (Some (object_text (map (\<lambda>i. json_quote (decimal i) @ 0x3a # decimal (unat (bs ! i))) [0..<length bs])))"
| "json_text (VArray xs) =
     bindr (mapr json_text xs) (\<lambda>ts. Inr (Some (0x5b # join_with [0x2c] (map (\<lambda>t. case t of None \<Rightarrow> js ''null'' | Some s \<Rightarrow> s) ts) @ [0x5d])))"
| "json_text (VObject ps) =
     bindr (mapr (\<lambda>p. bindr (json_text (snd p)) (\<lambda>t. Inr (member_text (fst p) t))) ps) (\<lambda>ms. Inr (Some (object_text (concat ms))))"

definition jsonEncode :: "jsval \<Rightarrow> bytes result" where
  "jsonEncode v = bindr (json_text v) (\<lambda>t. case t of
     None \<Rightarrow> throw TypeError ''value has no JSON representation''
   | Some s \<Rightarrow> Inr (text_encode s))"

section \<open>Parse\<close>

text \<open>
  The own properties of an object after \<^verbatim>\<open>o[key] = v\<close>: array indices come first, in ascending order, then
  the other keys in the order of their insertion.
\<close>

definition array_index :: "jsstring \<Rightarrow> nat option" where
  "array_index key =
     (if key \<noteq> [] \<and> list_all is_digit key \<and> decimal (digits_value key) = key \<and> digits_value key < 2 ^ 32 - 1
      then Some (digits_value key) else None)"

definition goes_before :: "jsstring \<Rightarrow> jsstring \<Rightarrow> bool" where
  "goes_before key other =
     (case array_index key of None \<Rightarrow> False
      | Some i \<Rightarrow> (case array_index other of None \<Rightarrow> True | Some j \<Rightarrow> i < j))"

fun obj_insert :: "jsstring \<Rightarrow> 'v \<Rightarrow> (jsstring \<times> 'v) list \<Rightarrow> (jsstring \<times> 'v) list" where
  "obj_insert key v [] = [(key, v)]"
| "obj_insert key v (p # ps) = (if goes_before key (fst p) then (key, v) # p # ps else p # obj_insert key v ps)"

definition obj_put :: "jsstring \<Rightarrow> 'v \<Rightarrow> (jsstring \<times> 'v) list \<Rightarrow> (jsstring \<times> 'v) list" where
  "obj_put key v ps =
     (if key \<in> fst ` set ps then map (\<lambda>p. if fst p = key then (key, v) else p) ps else obj_insert key v ps)"

definition json_space :: "code_unit \<Rightarrow> bool" where
  "json_space c \<longleftrightarrow> c = 0x20 \<or> c = 0x09 \<or> c = 0x0a \<or> c = 0x0d"

definition skip_ws :: "jsstring \<Rightarrow> jsstring" where
  "skip_ws s = dropWhile json_space s"

definition hex_value :: "code_unit \<Rightarrow> nat option" where
  "hex_value c =
     (if is_digit c then Some (digit_value c)
      else if 0x61 \<le> c \<and> c \<le> 0x66 then Some (unat c - 0x57)
      else if 0x41 \<le> c \<and> c \<le> 0x46 then Some (unat c - 0x37) else None)"

definition hex4 :: "jsstring \<Rightarrow> code_unit option" where
  "hex4 s =
     (case s of
        a # b # c # d # _ \<Rightarrow>
          (case (hex_value a, hex_value b, hex_value c, hex_value d) of
             (Some p, Some q, Some r, Some t) \<Rightarrow> Some (of_nat (p * 4096 + q * 256 + r * 16 + t))
           | _ \<Rightarrow> None)
      | _ \<Rightarrow> None)"

definition simple_escape :: "code_unit \<Rightarrow> code_unit option" where
  "simple_escape c =
     map_of [(0x22, 0x22), (0x5c, 0x5c), (0x2f, 0x2f), (0x62, 0x08), (0x66, 0x0c), (0x6e, 0x0a), (0x72, 0x0d), (0x74, 0x09)] c"

text \<open>The rest of a string after its opening quote.\<close>

fun json_string :: "jsstring \<Rightarrow> (jsstring \<times> jsstring) option" where
  "json_string [] = None"
| "json_string (c # cs) =
     (if c = 0x22 then Some ([], cs)
      else if c = 0x5c then
        (if take 1 cs = [0x75] then
           (case hex4 (drop 1 cs) of
              None \<Rightarrow> None
            | Some w \<Rightarrow> map_option (\<lambda>(s, r). (w # s, r)) (json_string (drop 5 cs)))
         else
           (case Option.bind (read_at cs 0) simple_escape of
              None \<Rightarrow> None
            | Some w \<Rightarrow> map_option (\<lambda>(s, r). (w # s, r)) (json_string (drop 1 cs))))
      else if c < 0x20 then None
      else map_option (\<lambda>(s, r). (c # s, r)) (json_string cs))"

text \<open>
  A number at the start of a text: the integer part, the fraction and the exponent. Each gives the text
  after it, or \<^term>\<open>None\<close> when digits are missing.
\<close>

definition json_int :: "jsstring \<Rightarrow> jsstring option" where
  "json_int s =
     (let ip = (if take 1 s = [0x30] then [0x30] else takeWhile is_digit s)
      in if ip = [] then None else Some (drop (length ip) s))"

definition json_digits :: "jsstring \<Rightarrow> jsstring option" where
  "json_digits s = (let ds = takeWhile is_digit s in if ds = [] then None else Some (drop (length ds) s))"

definition json_frac :: "jsstring \<Rightarrow> jsstring option" where
  "json_frac s = (if take 1 s = [0x2e] then json_digits (drop 1 s) else Some s)"

definition json_exp :: "jsstring \<Rightarrow> jsstring option" where
  "json_exp s =
     (if take 1 s \<in> {[0x65], [0x45]} then
        json_digits (if take 1 (drop 1 s) \<in> {[0x2b], [0x2d]} then drop 2 s else drop 1 s)
      else Some s)"

definition json_number_rest :: "jsstring \<Rightarrow> jsstring option" where
  "json_number_rest s =
     Option.bind (json_int (if take 1 s = [0x2d] then drop 1 s else s)) (\<lambda>r. Option.bind (json_frac r) json_exp)"

definition json_word :: "jsstring \<Rightarrow> jsval \<Rightarrow> jsstring \<Rightarrow> (jsval \<times> jsstring) option" where
  "json_word w v s = (if starts_with s w then Some (v, drop (length w) s) else None)"

text \<open>
  Values, and the rest of an array or of an object after its first bracket. Each carries fuel; a text of
  \<open>n\<close> code units needs at most \<open>2 * n + 2\<close>.
\<close>

fun json_value :: "nat \<Rightarrow> jsstring \<Rightarrow> (jsval \<times> jsstring) option"
and json_elements :: "nat \<Rightarrow> jsstring \<Rightarrow> jsval list \<Rightarrow> (jsval \<times> jsstring) option"
and json_members :: "nat \<Rightarrow> jsstring \<Rightarrow> (jsstring \<times> jsval) list \<Rightarrow> (jsval \<times> jsstring) option" where
  "json_value 0 s = None"
| "json_value (Suc n) s =
     (case skip_ws s of
        [] \<Rightarrow> None
      | c # cs \<Rightarrow>
          if c = 0x6e then json_word (js ''null'') VNull (c # cs)
          else if c = 0x74 then json_word (js ''true'') (VBool True) (c # cs)
          else if c = 0x66 then json_word (js ''false'') (VBool False) (c # cs)
          else if c = 0x22 then map_option (\<lambda>(t, r). (VString t, r)) (json_string cs)
          else if c = 0x5b then
            (if take 1 (skip_ws cs) = [0x5d] then Some (VArray [], drop 1 (skip_ws cs)) else json_elements n cs [])
          else if c = 0x7b then
            (if take 1 (skip_ws cs) = [0x7d] then Some (VObject [], drop 1 (skip_ws cs)) else json_members n cs [])
          else map_option (\<lambda>r. (VNumber (to_number (take (length (c # cs) - length r) (c # cs))), r)) (json_number_rest (c # cs)))"
| "json_elements 0 s vs = None"
| "json_elements (Suc n) s vs =
     (case json_value n s of
        None \<Rightarrow> None
      | Some (v, r) \<Rightarrow>
          (case skip_ws r of
             [] \<Rightarrow> None
           | c # r' \<Rightarrow>
               if c = 0x2c then json_elements n r' (vs @ [v])
               else if c = 0x5d then Some (VArray (vs @ [v]), r') else None))"
| "json_members 0 s ps = None"
| "json_members (Suc n) s ps =
     (case skip_ws s of
        [] \<Rightarrow> None
      | q # r0 \<Rightarrow>
          if q \<noteq> 0x22 then None
          else
            (case json_string r0 of
               None \<Rightarrow> None
             | Some (key, r1) \<Rightarrow>
                 if take 1 (skip_ws r1) \<noteq> [0x3a] then None
                 else
                   (case json_value n (drop 1 (skip_ws r1)) of
                      None \<Rightarrow> None
                    | Some (v, r2) \<Rightarrow>
                        (case skip_ws r2 of
                           [] \<Rightarrow> None
                         | c # r3 \<Rightarrow>
                             if c = 0x2c then json_members n r3 (obj_put key v ps)
                             else if c = 0x7d then Some (VObject (obj_put key v ps), r3) else None))))"

declare json_value.simps [simp del] json_elements.simps [simp del] json_members.simps [simp del]

definition json_parse :: "jsstring \<Rightarrow> jsval option" where
  "json_parse s =
     (case json_value (2 * length s + 2) s of
        None \<Rightarrow> None
      | Some (v, r) \<Rightarrow> if skip_ws r = [] then Some v else None)"

definition jsonDecode :: "bytes \<Rightarrow> jsval result" where
  "jsonDecode bs =
     (case text_decode_fatal bs of
        None \<Rightarrow> throw TypeError ''The encoded data was not valid for encoding utf-8''
      | Some s \<Rightarrow> (case json_parse s of None \<Rightarrow> throw SyntaxError ''Unexpected token in JSON'' | Some v \<Rightarrow> Inr v))"

section \<open>Numbers are read back\<close>

lemma round_half_even_scale: "0 < c \<Longrightarrow> round_half_even (c * n) (c * d) = round_half_even n d"
proof -
  assume "0 < c"
  then have "c * d < 2 * (c * r) \<longleftrightarrow> d < 2 * r" "2 * (c * r) = c * d \<longleftrightarrow> 2 * r = d" for r
    using mult_less_cancel1 [of c d "2 * r"] mult_cancel1 [of c "2 * r" d] by (simp_all add: mult.left_commute)
  then show ?thesis using \<open>0 < c\<close> unfolding round_half_even_def Let_def by (simp flip: mult_mod_right)
qed

lemma ratio_mag_scale: "0 < c \<Longrightarrow> ratio_mag (c * n) (c * d) = ratio_mag n d"
proof -
  assume c: "0 < c"
  have "c * n * 2 ^ 1074 div (c * d) = n * 2 ^ 1074 div d" using c by (simp add: mult.assoc del: power_numeral)
  moreover have "round_half_even (c * n * 2 ^ 1074) (c * d * e) = round_half_even (n * 2 ^ 1074) (d * e)" for e
    using round_half_even_scale [OF c, of "n * 2 ^ 1074" "d * e"] by (simp only: mult.assoc)
  ultimately show ?thesis by (simp only: ratio_mag_def Let_def)
qed

lemma ilog2_eq: "2 ^ e \<le> n \<Longrightarrow> n < 2 ^ Suc e \<Longrightarrow> ilog2 n = e"
proof -
  assume b: "2 ^ e \<le> n" "n < 2 ^ Suc e"
  then have "0 < n" by (metis less_le_trans zero_less_numeral zero_less_power)
  note c = ilog2_bounds [OF this]
  have "(2 :: nat) ^ ilog2 n < 2 ^ Suc e" "(2 :: nat) ^ e < 2 ^ Suc (ilog2 n)" using b c by simp_all
  then have "ilog2 n < Suc e" "e < Suc (ilog2 n)" by (auto elim!: power_less_imp_less_exp [rotated] simp del: power_Suc)
  then show ?thesis by simp
qed

lemma round_half_even_exact: "0 < d \<Longrightarrow> round_half_even (n * d) d = n"
  by (simp add: round_half_even_def)

lemma ratio_mag_exact:
  assumes "m < 2047 * 2 ^ 52"
  shows "ratio_mag (mag_scaled m) (2 ^ 1074) = m"
proof -
  define e f where "e = m div 2 ^ 52" and "f = m mod 2 ^ 52"
  have f: "f < 2 ^ 52" "m = e * 2 ^ 52 + f" by (simp_all add: e_def f_def)
  define M where "M = mag_scaled m"
  have div1: "M * 2 ^ 1074 div 2 ^ 1074 = M" by (rule nonzero_mult_div_cancel_right [OF power_not_zero]) simp
  have key: "(if M < 2 ^ 53 then 0 else ilog2 M - 52) = e - 1 \<and> M = (m - (e - 1) * 2 ^ 52) * 2 ^ (e - 1)"
  proof (cases "e \<le> 1")
    case True
    have M: "M = (if e = 0 then f else (2 ^ 52 + f) * 2 ^ (e - 1))"
      by (simp add: M_def mag_scaled_def Let_def e_def f_def)
    from True consider "e = 0" | "e = 1" by linarith
    then have "M = m" "m < 2 ^ 53" using f M by (cases; simp)+
    then show ?thesis using True by simp
  next
    case False
    then have M: "M = (2 ^ 52 + f) * 2 ^ (e - 1)" unfolding e_def f_def M_def by (simp add: mag_scaled_def Let_def)
    have "2 ^ 52 * 2 ^ (e - 1) \<le> M" "M < 2 ^ 53 * 2 ^ (e - 1)" unfolding M using f by simp_all
    then have bounds: "2 ^ (52 + (e - 1)) \<le> M" "M < 2 ^ Suc (52 + (e - 1))" by (simp_all add: power_add del: power_numeral)
    have "(2 :: nat) ^ 53 \<le> 2 ^ (52 + (e - 1))" using False by (intro power_increasing) auto
    then have "\<not> M < 2 ^ 53" using bounds(1) by linarith
    moreover have "ilog2 M = 52 + (e - 1)" by (rule ilog2_eq [OF bounds])
    moreover have "m - (e - 1) * 2 ^ 52 = 2 ^ 52 + f" using f(2) False by (cases e) (simp_all)
    ultimately show ?thesis using M by (simp del: power_numeral)
  qed
  then have e: "(if M < 2 ^ 53 then 0 else ilog2 M - 52) = e - 1" and M: "M = (m - (e - 1) * 2 ^ 52) * 2 ^ (e - 1)" by blast+
  have "round_half_even (M * 2 ^ 1074) (2 ^ 1074 * 2 ^ (e - 1)) = round_half_even M (2 ^ (e - 1))"
    using round_half_even_scale [of "2 ^ 1074" M "2 ^ (e - 1)"] by (simp only: mult.commute zero_less_power zero_less_numeral simp_thms)
  also have "\<dots> = m - (e - 1) * 2 ^ 52" by (subst M) (simp only: round_half_even_exact zero_less_power zero_less_numeral)
  finally have "ratio_mag M (2 ^ 1074) = min (2047 * 2 ^ 52) ((e - 1) * 2 ^ 52 + (m - (e - 1) * 2 ^ 52))"
    unfolding ratio_mag_def Let_def div1 e by (simp only:)
  also have "(e - 1) * 2 ^ 52 + (m - (e - 1) * 2 ^ 52) = m" using f(2) by (cases e) simp_all
  finally show ?thesis using assms by (simp add: M_def)
qed

lemma ratio_mag_0: "0 < d \<Longrightarrow> ratio_mag 0 d = 0"
  by (simp add: ratio_mag_def round_half_even_def)

lemma dec_mag_0 [simp]: "dec_mag 0 x = 0"
  by (simp add: dec_mag_def ratio_mag_0)

lemma dec_mag_shift: "dec_mag (d * 10 ^ k) (x - int k) = dec_mag d x"
proof -
  consider "int k \<le> x" | "x < 0" | "0 \<le> x" "x < int k" by linarith
  then show ?thesis
  proof cases
    case 1
    then have "k + nat (x - int k) = nat x" by simp
    then have a: "d * 10 ^ k * 10 ^ nat (x - int k) = d * 10 ^ nat x" by (metis mult.assoc power_add)
    have "dec_mag (d * 10 ^ k) (x - int k) = ratio_mag (d * 10 ^ k * 10 ^ nat (x - int k)) 1" using 1 by (simp add: dec_mag_def)
    also note a
    also have "ratio_mag (d * 10 ^ nat x) 1 = dec_mag d x" using 1 by (simp add: dec_mag_def)
    finally show ?thesis .
  next
    case 2
    have "nat (- (x - int k)) = k + nat (- x)" using 2 by simp
    then show ?thesis using 2 ratio_mag_scale [of "10 ^ k" d "10 ^ nat (- x)"] by (simp add: dec_mag_def power_add mult.commute)
  next
    case 3
    define i where "i = nat (- (x - int k))"
    have k: "k = i + nat x" using 3 by (simp add: i_def)
    have "ratio_mag (d * 10 ^ k) (10 ^ i) = ratio_mag (10 ^ i * (d * 10 ^ nat x)) (10 ^ i * 1)"
      by (simp add: k power_add mult_ac)
    also have "\<dots> = ratio_mag (d * 10 ^ nat x) 1" by (rule ratio_mag_scale) simp
    finally show ?thesis using 3 by (simp add: dec_mag_def i_def)
  qed
qed

lemma shortest_sound:
  "dec_mag t (- 1074) = m \<Longrightarrow> shortest m t j = (d, x) \<Longrightarrow> dec_mag d x = m"
proof (induction j)
  case (Suc j)
  then show ?case
    by (subst (asm) (2) shortest.simps) (auto simp: Let_def find_Some_iff split: option.splits)
next
  case 0
  then show ?case
    by (subst (asm) shortest.simps) (auto simp: Let_def find_Some_iff split: option.splits)
qed

lemma strip_zeros_sound: "dec_mag d x = m \<Longrightarrow> strip_zeros d x = (d', x') \<Longrightarrow> dec_mag d' x' = m"
proof (induction d x rule: strip_zeros.induct)
  case (1 d x)
  show ?case
  proof (cases "d \<noteq> 0 \<and> d mod 10 = 0")
    case True
    then have "dec_mag (d div 10) (x + 1) = dec_mag d x"
      using dec_mag_shift [of "d div 10" 1 "x + 1"] by (simp add: mod_0_imp_dvd)
    then show ?thesis using 1 True by (subst (asm) (2) strip_zeros.simps) simp
  next
    case False
    then show ?thesis using 1(2,3) by (subst (asm) strip_zeros.simps) auto
  qed
qed

lemma shortest_decimal_sound:
  assumes "shortest_decimal m = (d, x)" and "m < 2047 * 2 ^ 52"
  shows "dec_mag d x = m"
proof -
  let ?t = "mag_scaled m * 5 ^ 1074"
  have tens: "dec_mag (M * 5 ^ n) (- int n) = ratio_mag M (2 ^ n)" for M n :: nat
  proof -
    have "dec_mag (M * 5 ^ n) (- int n) = ratio_mag (5 ^ n * M) (10 ^ n)"
      by (cases "n = 0") (simp_all add: dec_mag_def mult.commute)
    also have "(10 :: nat) ^ n = 5 ^ n * 2 ^ n" by (simp flip: power_mult_distrib)
    finally show ?thesis by (simp only: ratio_mag_scale zero_less_power zero_less_numeral)
  qed
  have exact: "dec_mag ?t (- 1074) = m"
    using tens [of "mag_scaled m" 1074] unfolding ratio_mag_exact [OF assms(2)] by (simp only: of_nat_numeral)
  obtain c y where c: "shortest m ?t (length (decimal ?t) - 1) = (c, y)" by (cases "shortest m ?t (length (decimal ?t) - 1)")
  then have "strip_zeros c y = (d, x)" using assms(1) unfolding shortest_decimal_def Let_def c by simp
  then show ?thesis using strip_zeros_sound shortest_sound [OF exact c] by blast
qed
lemma to_lower_id: "list_all (\<lambda>c. c < 0x41 \<or> 0x5a < c) s \<Longrightarrow> to_lower s = s"
  by (induction s) (auto simp: to_lower_def word_less_nat_alt word_le_nat_alt)

lemma split_on_none: "c \<notin> set a \<Longrightarrow> split_on c a = [a]"
  by (induction a) auto

lemma split_on_first: "c \<notin> set a \<Longrightarrow> split_on c (a @ c # b) = a # split_on c b"
  by (induction a) auto

lemma digit_unat: "is_digit c \<longleftrightarrow> 0x30 \<le> unat c \<and> unat c \<le> 0x39"
  by (simp add: is_digit_def word_le_nat_alt)

lemma digit_not:
  "is_digit c \<Longrightarrow> c \<noteq> 0x65 \<and> c \<noteq> 0x45 \<and> c \<noteq> 0x2e \<and> c \<noteq> 0x2d \<and> c \<noteq> 0x2b \<and> c < 0x41"
  by (auto simp: digit_unat word_less_nat_alt)

lemma digits_plain:
  assumes "list_all is_digit ds"
  shows "0x65 \<notin> set ds" "0x2e \<notin> set ds" "0x2d \<notin> set ds" "0x2b \<notin> set ds"
    "list_all (\<lambda>c. c < 0x41 \<or> 0x5a < c) ds" "filter (\<lambda>c. c \<noteq> 0x2b \<and> c \<noteq> 0x2e \<and> c \<noteq> 0x2d) ds = ds"
    "takeWhile (\<lambda>c. c \<noteq> 0x2e) (ds @ u) = ds @ takeWhile (\<lambda>c. c \<noteq> 0x2e) u"
  using assms digit_not by (auto simp: list_all_iff filter_id_conv intro!: takeWhile_append2)

definition literal_ok :: "jsstring \<Rightarrow> jsstring \<Rightarrow> bool" where
  "literal_ok ip fp \<longleftrightarrow> ip \<noteq> [] \<and> list_all is_digit ip \<and> list_all is_digit fp"

lemma signed_value_exponent: "signed_value ((if x < 0 then 0x2d else 0x2b) # decimal (nat \<bar>x\<bar>)) = x"
  by (auto simp: signed_value_def split_sign_def decimal_text)

lemma to_number_literal:
  assumes "literal_ok ip fp"
  shows "to_number (number_literal neg ip fp ex) =
    of_nat ((if neg then 2 ^ 63 else 0) +
      dec_mag (digits_value (ip @ fp)) ((case ex of None \<Rightarrow> 0 | Some x \<Rightarrow> x) - int (length fp)))"
proof -
  let ?body = "(if neg then [0x2d] else []) @ ip @ (if fp = [] then [] else 0x2e # fp)"
  let ?s = "number_literal neg ip fp ex"
  have ip: "ip \<noteq> []" "list_all is_digit ip" "list_all is_digit fp" using assms by (simp_all add: literal_ok_def)
  note plain = digits_plain [OF ip(2)] digits_plain [OF ip(3)] digits_plain [OF decimal_text [THEN conjunct1]]
  have body: "0x65 \<notin> set ?body" using plain by auto
  have shape: "number_literal neg ip fp y = ?body @ exponent_text y" for y by (simp add: number_literal_def)
  have "to_lower ?s = ?s"
    by (rule to_lower_id) (simp add: number_literal_def exponent_text_def plain split: option.split)
  then have split: "split_on 0x65 (to_lower ?s) =
      (case ex of None \<Rightarrow> [?body] | Some x \<Rightarrow> ?body # split_on 0x65 ((if x < 0 then 0x2d else 0x2b) # decimal (nat \<bar>x\<bar>)))"
    using split_on_none [OF body] split_on_first [OF body]
    by (cases ex) (simp_all only: shape exponent_text_def option.case append_Nil2)
  have rest: "split_on 0x65 ((if x < 0 then 0x2d else 0x2b) # decimal (nat \<bar>x\<bar>)) = [(if x < 0 then 0x2d else 0x2b) # decimal (nat \<bar>x\<bar>)]" for x :: int
    using plain(15) [of "nat \<bar>x\<bar>"] by (intro split_on_none) auto
  have m: "mantissa_of ?s = ?body" by (simp add: mantissa_of_def split split: option.splits)
  have e: "signed_value (exponent_of ?s) = (case ex of None \<Rightarrow> 0 | Some x \<Rightarrow> x)"
  proof (cases ex)
    case None
    have "signed_value (js ''0'') = 0" by (simp add: signed_value_def split_sign_def js_def digits_value_def digit_value_def)
    then show ?thesis using split None by (simp add: exponent_of_def)
  next
    case (Some x)
    then show ?thesis using split rest [of x] by (simp add: exponent_of_def signed_value_exponent)
  qed
  have "takeWhile (\<lambda>c. c \<noteq> 0x2e) ?body = (if neg then [0x2d] else []) @ ip"
    using plain(7) [of "if fp = [] then [] else 0x2e # fp"] by simp
  moreover have "0x2e \<in> set ?body \<longleftrightarrow> fp \<noteq> []" using plain by auto
  ultimately have f: "fraction_length ?body = length fp" by (simp add: fraction_length_def plain(7))
  have d: "mantissa_digits ?body = ip @ fp"
    using plain(6,13) by (simp add: mantissa_digits_def)
  have "fst (split_sign ?s) = neg"
    using ip digit_not by (cases ip) (auto simp: number_literal_def split_sign_def)
  then show ?thesis
    by (simp add: to_number_def decimal_exponent_def m e f d Let_def dec_mag_def)
qed

lemma not_digit [simp]: "\<not> is_digit 0x2e" "\<not> is_digit 0x65" "\<not> is_digit 0x45" "is_digit 0x30"
  by (simp_all add: is_digit_def)

definition next_in :: "(code_unit \<Rightarrow> bool) \<Rightarrow> jsstring \<Rightarrow> bool" where
  "next_in P w \<longleftrightarrow> (case w of [] \<Rightarrow> False | c # _ \<Rightarrow> P c)"

lemma next_in_simps [simp]: "\<not> next_in P []" "next_in P (c # w) \<longleftrightarrow> P c"
  by (simp_all add: next_in_def)

lemma next_in_disj [simp]: "next_in (\<lambda>c. P c \<or> Q c) w \<longleftrightarrow> next_in P w \<or> next_in Q w"
  by (cases w) simp_all

lemma take_1_next [simp]: "take (Suc 0) w = [c] \<longleftrightarrow> next_in (\<lambda>d. d = c) w"
  by (cases w) simp_all

lemma takeWhile_next: "list_all P xs \<Longrightarrow> \<not> next_in P w \<Longrightarrow> takeWhile P (xs @ w) = xs"
  by (induction xs) (auto simp: next_in_def split: list.splits)

lemma json_digits_text: "ds \<noteq> [] \<Longrightarrow> list_all is_digit ds \<Longrightarrow> \<not> next_in is_digit w \<Longrightarrow> json_digits (ds @ w) = Some w"
  by (simp add: json_digits_def takeWhile_next)

lemma json_int_text:
  "ip \<noteq> [] \<Longrightarrow> list_all is_digit ip \<Longrightarrow> ip = [0x30] \<or> hd ip \<noteq> 0x30 \<Longrightarrow> \<not> next_in is_digit w \<Longrightarrow> json_int (ip @ w) = Some w"
  by (cases ip) (auto simp: json_int_def takeWhile_next)

lemma json_frac_text:
  "list_all is_digit fp \<Longrightarrow> \<not> next_in (\<lambda>c. is_digit c \<or> c = 0x2e) w \<Longrightarrow>
   json_frac ((if fp = [] then [] else 0x2e # fp) @ w) = Some w"
  by (auto simp: json_frac_def json_digits_text)

lemma json_exp_text:
  "\<not> next_in (\<lambda>c. is_digit c \<or> c = 0x65 \<or> c = 0x45) w \<Longrightarrow> json_exp (exponent_text ex @ w) = Some w"
  by (cases ex) (auto simp: json_exp_def exponent_text_def json_digits_text decimal_text)

text \<open>The text after a number.\<close>

definition number_stop :: "jsstring \<Rightarrow> bool" where
  "number_stop w \<longleftrightarrow> \<not> next_in (\<lambda>c. is_digit c \<or> c = 0x2e \<or> c = 0x65 \<or> c = 0x45) w"

definition json_literal :: "jsstring \<Rightarrow> jsstring \<Rightarrow> bool" where
  "json_literal ip fp \<longleftrightarrow> literal_ok ip fp \<and> (ip = [0x30] \<or> hd ip \<noteq> 0x30)"

lemma json_number_literal:
  assumes "json_literal ip fp" and "number_stop w"
  shows "json_number_rest (number_literal neg ip fp ex @ w) = Some w"
proof -
  have ip: "ip \<noteq> []" "list_all is_digit ip" "list_all is_digit fp" "ip = [0x30] \<or> hd ip \<noteq> 0x30"
    using assms(1) by (simp_all add: json_literal_def literal_ok_def)
  define ew fw lit where "ew = exponent_text ex @ w" and "fw = (if fp = [] then [] else 0x2e # fp) @ ew"
    and "lit = number_literal neg ip fp ex @ w"
  have e: "json_exp ew = Some w" unfolding ew_def using assms(2) by (intro json_exp_text) (simp add: number_stop_def)
  have n: "\<not> next_in (\<lambda>c. is_digit c \<or> c = 0x2e) ew"
    using assms(2) by (cases ex) (auto simp: ew_def exponent_text_def number_stop_def is_digit_def)
  then have f: "json_frac fw = Some ew" unfolding fw_def by (rule json_frac_text [OF ip(3)])
  have "\<not> next_in is_digit fw" using n by (simp add: fw_def)
  then have i: "json_int (ip @ fw) = Some fw" by (rule json_int_text [OF ip(1,2,4)])
  have "(if take 1 lit = [0x2d] then drop 1 lit else lit) = ip @ fw"
    using ip(1,2) digit_not by (cases ip) (auto simp: number_literal_def lit_def fw_def ew_def)
  then have "json_number_rest lit = Some w" unfolding json_number_rest_def by (simp only: i f e bind.bind_lunit)
  then show ?thesis by (simp add: lit_def)
qed

section \<open>Number texts round trip\<close>

lemma digits_value_append: "digits_value (a @ b) = digits_value a * 10 ^ length b + digits_value b"
proof -
  let ?f = "\<lambda>c n. 10 * n + digit_value c"
  have "fold ?f b k = k * 10 ^ length b + fold ?f b 0" for k
  proof (induction b arbitrary: k)
    case (Cons c b)
    show ?case by (simp add: Cons.IH [of "10 * k + digit_value c"] Cons.IH [of "digit_value c"] distrib_right)
  qed simp
  from this [of "fold ?f a 0"] show ?thesis by (simp add: digits_value_def)
qed

lemma digits_zeros [simp]:
  "digits_value (zeros n) = 0" "list_all is_digit (zeros n)" "length (zeros n) = n" "zeros n = [] \<longleftrightarrow> n = 0"
proof -
  show "digits_value (zeros n) = 0"
    by (induction n) (simp_all add: zeros_def digits_value_def digit_value_def)
qed (simp_all add: zeros_def list_all_iff is_digit_def)

lemma decimal_lead: "0 < n \<Longrightarrow> hd (decimal n) \<noteq> 0x30"
proof (induction n rule: decimal.induct)
  case (1 n)
  show ?case
  proof (cases "n < 10")
    case True
    then have "unat (of_nat (0x30 + n) :: code_unit) = 0x30 + n" by (simp del: of_nat_add)
    then show ?thesis using True 1(2) by (auto simp: decimal.simps [of n] word_unat_eq_iff simp del: of_nat_add)
  next
    case False
    then show ?thesis using 1 decimal_text [of "n div 10"] by (simp add: decimal.simps [of n])
  qed
qed

lemma layout_literal:
  assumes "0 < d"
  obtains ip fp ex where "layout neg d x = number_literal neg ip fp ex" "json_literal ip fp"
    "to_number (layout neg d x) = of_nat ((if neg then 2 ^ 63 else 0) + dec_mag d x)"
proof -
  note result = that
  let ?ds = "decimal d"
  have ds: "list_all is_digit ?ds" "?ds \<noteq> []" "digits_value ?ds = d" "hd ?ds \<noteq> 0x30"
    using decimal_text [of d] decimal_lead [OF assms] by auto
  define n where "n = int (length ?ds) + x"
  have goal: thesis
    if "layout neg d x = number_literal neg ip fp ex" "literal_ok ip fp" "ip = [0x30] \<or> hd ip \<noteq> 0x30"
      "dec_mag (digits_value (ip @ fp)) ((case ex of None \<Rightarrow> 0 | Some x \<Rightarrow> x) - int (length fp)) = dec_mag d x" for ip fp ex
  proof -
    have "to_number (layout neg d x) = of_nat ((if neg then 2 ^ 63 else 0) + dec_mag d x)"
      unfolding that(1) to_number_literal [OF that(2)] that(4) ..
    then show thesis using that(1-3) by (intro result [OF that(1)]) (simp_all add: json_literal_def)
  qed
  consider "int (length ?ds) \<le> n" "n \<le> 21" | "0 < n" "n \<le> 21" "n < int (length ?ds)"
    | "- 6 < n" "n \<le> 0" | "n \<le> - 6 \<or> 21 < n" by linarith
  then show thesis
  proof cases
    case 1
    have "dec_mag (d * 10 ^ nat x) (x - int (nat x)) = dec_mag d x" by (rule dec_mag_shift)
    then show thesis using 1 ds
      by (intro goal [of "?ds @ zeros (nat x)" "[]" None])
        (simp_all add: layout_def Let_def n_def literal_ok_def digits_value_append)
  next
    case 2
    have "list_all is_digit (take (nat n) ?ds) \<and> list_all is_digit (drop (nat n) ?ds)"
      using ds(1) by (auto simp: list_all_iff dest: in_set_takeD in_set_dropD)
    moreover have "int (length ?ds - nat n) = - x" using 2 by (simp add: n_def)
    ultimately show thesis using 2 ds
      by (intro goal [of "take (nat n) ?ds" "drop (nat n) ?ds" None])
        (simp_all add: layout_def Let_def n_def literal_ok_def)
  next
    case 3
    have "digits_value ([0x30] @ zeros (nat (- n)) @ ?ds) = d"
      unfolding digits_value_append ds(3) digits_zeros(1) by (simp add: digits_value_def digit_value_def)
    moreover have x: "n - int (length ?ds) = x" by (simp add: n_def)
    moreover have "\<not> int (length ?ds) \<le> n" using 3 ds(2) by (cases ?ds) auto
    ultimately show thesis using 3 ds
      by (intro goal [of "[0x30]" "zeros (nat (- n)) @ ?ds" None])
        (simp_all add: layout_def Let_def literal_ok_def flip: n_def)
  next
    case 4
    have "list_all is_digit [hd ?ds] \<and> list_all is_digit (tl ?ds)" using ds(1,2) by (cases ?ds) auto
    moreover have "n - 1 - int (length ?ds - 1) = x" using ds(2) by (cases ?ds) (simp_all add: n_def)
    ultimately show thesis using 4 ds
      by (intro goal [of "[hd ?ds]" "tl ?ds" "Some (n - 1)"])
        (auto simp: layout_def Let_def literal_ok_def simp flip: n_def)
  qed
qed

lemma f64_parts: "of_nat ((if f64_negative v then 2 ^ 63 else 0) + f64_mag v) = v"
  by (simp flip: unat_f64)

lemma f64_of_nat_ratio:
  assumes "f64_scaled v = int n * f64_unit" and "f64_is_finite v"
  shows "dec_mag n 0 = f64_mag v"
proof -
  define k :: nat where "k = 2 ^ 1074"
  have k: "f64_unit = int k" "0 < k" by (simp_all only: f64_unit_def k_def of_nat_power of_nat_numeral zero_less_power zero_less_numeral)
  have "int (mag_scaled (f64_mag v)) = \<bar>f64_scaled v\<bar>" by (simp add: f64_scaled_def)
  also have "\<dots> = int (n * k)" unfolding assms(1) k(1) by simp
  finally have n: "mag_scaled (f64_mag v) = k * n" by (simp only: of_nat_eq_iff mult.commute)
  have "f64_mag v < 2047 * 2 ^ 52" using assms(2) by (simp add: f64_is_finite_def div_less_iff_less_mult)
  then have "ratio_mag (k * n) (k * 1) = f64_mag v"
    using ratio_mag_exact [of "f64_mag v"] unfolding n k_def [symmetric] mult_1_right by blast
  then show ?thesis unfolding dec_mag_def ratio_mag_scale [OF k(2)] by simp
qed

lemma number_text_literal:
  assumes "f64_is_finite v" and "\<not> f64_is_negative_zero v"
  obtains neg ip fp ex where "number_text v = number_literal neg ip fp ex" "json_literal ip fp" "to_number (number_text v) = v"
proof (cases "f64_is_safe_integer v")
  case True
  define i where "i = f64_int v"
  have i: "f64_scaled v = i * f64_unit"
    using True by (simp add: i_def f64_int_def f64_is_safe_integer_def f64_is_integer_def) (metis add.right_neutral div_mult_mod_eq mult.commute)
  have neg: "f64_negative v \<longleftrightarrow> i < 0"
  proof -
    have "0 < f64_unit" by (simp add: f64_unit_def)
    then have "i < 0 \<longleftrightarrow> f64_scaled v < 0" by (simp add: i mult_less_0_iff)
    also have "\<dots> \<longleftrightarrow> f64_negative v" using assms(2) mag_scaled_eq_0 [of "f64_mag v"]
      by (auto simp: f64_scaled_def f64_negative_zero_iff simp del: mag_scaled_eq_0)
    finally show ?thesis by blast
  qed
  let ?ds = "decimal (nat \<bar>i\<bar>)"
  have shape: "number_text v = number_literal (i < 0) ?ds [] None"
    using True by (simp add: number_text_def number_literal_def exponent_text_def i_def)
  have ok: "json_literal ?ds []"
    using decimal_text [of "nat \<bar>i\<bar>"] decimal_lead [of "nat \<bar>i\<bar>"]
    by (cases "i = 0") (auto simp: json_literal_def literal_ok_def decimal.simps [of 0])
  have "dec_mag (nat \<bar>i\<bar>) 0 = f64_mag v"
  proof -
    define w where "w = (of_nat (f64_mag v) :: f64)"
    have "unat w = f64_mag v" using f64_mag_less [of v] by (simp add: w_def unat_of_nat)
    then have w: "\<not> f64_negative w" "f64_mag w = f64_mag v" using f64_mag_less [of v] by (simp_all add: f64_negative_def f64_mag_def)
    have "f64_scaled w = \<bar>f64_scaled v\<bar>" by (simp add: f64_scaled_def w)
    also have "\<dots> = int (nat \<bar>i\<bar>) * f64_unit" by (simp add: i abs_mult f64_unit_def)
    finally show ?thesis using f64_of_nat_ratio [of w] w assms(1) by (simp add: f64_is_finite_def)
  qed
  then have "to_number (number_text v) = v"
    using ok f64_parts [of v] decimal_text unfolding shape neg
    by (subst to_number_literal) (auto simp: json_literal_def)
  then show thesis using that shape ok by blast
next
  case False
  obtain d x where d: "shortest_decimal (f64_mag v) = (d, x)" by (cases "shortest_decimal (f64_mag v)")
  have "f64_mag v < 2047 * 2 ^ 52" using assms(1) by (simp add: f64_is_finite_def div_less_iff_less_mult)
  then have m: "dec_mag d x = f64_mag v" by (rule shortest_decimal_sound [OF d])
  have "d \<noteq> 0"
  proof
    assume "d = 0"
    then have "f64_mag v = 0" using m by simp
    then have "f64_is_safe_integer v"
      using assms(1) by (simp add: f64_is_safe_integer_def f64_is_integer_def f64_int_def f64_scaled_def max_safe_integer_def)
    then show False using False by blast
  qed
  then show thesis
    using layout_literal [of d "f64_negative v" x] that f64_parts [of v] False
    by (simp add: number_text_def d m) metis
qed

lemma number_text_not_ws: "f64_is_finite v \<Longrightarrow> \<not> f64_is_negative_zero v \<Longrightarrow>
    \<exists>c cs. number_text v = c # cs \<and> (is_digit c \<or> c = 0x2d)"
  by (erule (1) number_text_literal)
    (auto simp: number_literal_def json_literal_def literal_ok_def neq_Nil_conv list_all_iff)

section \<open>Strings are read back\<close>

lemma hex_digit_value:
  assumes "d < 16"
  shows "hex_value (hex_digit d) = Some d"
proof -
  have u: "unat (of_nat k :: code_unit) = k" if "k < 256" for k using that by simp
  show ?thesis
    using assms u [of "0x30 + d"] u [of "0x57 + d"]
    by (auto simp: hex_digit_def hex_value_def is_digit_def digit_value_def word_le_nat_alt simp del: of_nat_add)
qed

lemma hex4_escape:
  assumes "p < 0x10000"
  shows "\<exists>w. unicode_escape p = 0x5c # 0x75 # w \<and> length w = 4 \<and> hex4 (w @ u) = Some (of_nat p)"
proof -
  define a b c d where "a = p div 4096 mod 16" and "b = p div 256 mod 16" and "c = p div 16 mod 16" and "d = p mod 16"
  have small: "a < 16" "b < 16" "c < 16" "d < 16" by (simp_all add: a_def b_def c_def d_def)
  have "a * 4096 + b * 256 + c * 16 + d = p"
  proof -
    have "p div 256 = p div 16 div 16" "p div 4096 = p div 16 div 16 div 16" by (simp_all flip: div_mult2_eq)
    moreover have "p div 16 div 16 div 16 mod 16 = p div 16 div 16 div 16" using assms by (simp add: less_mult_imp_div_less flip: div_mult2_eq)
    moreover have "w * 4096 + t * 256 + c * 16 + r = x" if "x = y * 16 + r" "y = z * 16 + c" "z = w * 16 + t" for x y z w t c r :: nat
      using that by simp
    ultimately show ?thesis unfolding a_def b_def c_def d_def by (metis div_mult_mod_eq)
  qed
  then have "hex4 ([hex_digit a, hex_digit b, hex_digit c, hex_digit d] @ u) = Some (of_nat p)"
    using small by (simp add: hex4_def hex_digit_value del: of_nat_add of_nat_mult)
  then show ?thesis by (simp add: unicode_escape_def js_def a_def b_def c_def d_def)
qed

lemma json_string_raw:
  assumes "list_all (\<lambda>c. c \<noteq> 0x22 \<and> c \<noteq> 0x5c \<and> \<not> c < 0x20) w"
  shows "json_string (w @ r) = map_option (\<lambda>(s, t). (w @ s, t)) (json_string r)"
  using assms
proof (induction w)
  case Nil
  then show ?case by (cases "json_string r") auto
next
  case (Cons c w)
  then show ?case by (cases "json_string r") auto
qed

lemma json_string_point:
  assumes "p < 0x110000"
  shows "json_string (quote_point p @ r) = map_option (\<lambda>(s, t). (utf16_point p @ s, t)) (json_string r)"
proof (cases p rule: quote_point_cases)
  case (short c)
  then have "(p, c) \<in> set short_escapes" "quote_point p = [0x5c, c]" by auto
  then show ?thesis by (auto simp: short_escapes_def simple_escape_def read_at_def utf16_point_def)
next
  case escaped
  then have "p < 0x10000" by (auto simp: is_surrogate_def)
  from hex4_escape [OF this] obtain w where "unicode_escape p = 0x5c # 0x75 # w" "length w = 4" "hex4 (w @ r) = Some (of_nat p)" by blast
  then show ?thesis using escaped \<open>p < 0x10000\<close> by (simp add: utf16_point_def)
next
  case raw
  have "list_all (\<lambda>c. c \<noteq> 0x22 \<and> c \<noteq> 0x5c \<and> \<not> c < 0x20) (utf16_point p)"
  proof (cases "p < 0x10000")
    case True
    then have "unat (of_nat p :: code_unit) = p" by simp
    moreover have "\<not> p < 0x20"
      using raw by (auto simp: quote_point_def unicode_escape_def js_def utf16_point_def split: if_splits)
    ultimately show ?thesis using raw(1,2) True by (auto simp: utf16_point_def word_less_nat_alt word_unat_eq_iff)
  next
    case False
    have "unat (of_nat k :: code_unit) = k" if "k < 0x10000" for k using that by simp
    moreover have "0xd800 + (p - 0x10000) div 1024 < 0x10000" "0xdc00 + (p - 0x10000) mod 1024 < 0x10000"
      using assms mod_less_divisor [of 1024 "p - 0x10000"] by auto
    ultimately have "unat (of_nat (0xd800 + (p - 0x10000) div 1024) :: code_unit) = 0xd800 + (p - 0x10000) div 1024"
      "unat (of_nat (0xdc00 + (p - 0x10000) mod 1024) :: code_unit) = 0xdc00 + (p - 0x10000) mod 1024" by blast+
    then show ?thesis using False by (auto simp: utf16_point_def word_less_nat_alt word_unat_eq_iff simp del: of_nat_add)
  qed
  then show ?thesis using raw json_string_raw by simp
qed

lemma json_string_points:
  "list_all (\<lambda>p. p < 0x110000) ps \<Longrightarrow> json_string (concat (map quote_point ps) @ 0x22 # u) = Some (utf16 ps, u)"
  by (induction ps) (simp_all add: json_string_point utf16_def)

lemma json_string_quote: "\<exists>t. json_quote s @ u = 0x22 # t \<and> json_string t = Some (s, u)"
  using json_string_points [OF code_points_bounded [of s], of u] by (simp add: json_quote_def utf16_code_points)

section \<open>Values are read back\<close>

definition obj_of :: "(jsstring \<times> 'v) list \<Rightarrow> (jsstring \<times> 'v) list" where
  "obj_of ps = fold (\<lambda>p. obj_put (fst p) (snd p)) ps []"

text \<open>The values that JSON texts denote: properties are in the order of an object.\<close>

fun json_ok :: "jsval \<Rightarrow> bool" where
  "json_ok (VNumber v) = (f64_is_finite v \<and> \<not> f64_is_negative_zero v)"
| "json_ok (VArray xs) = list_all json_ok xs"
| "json_ok (VObject ps) = (obj_of ps = ps \<and> list_all (\<lambda>p. json_ok (snd p)) ps)"
| "json_ok VNull = True"
| "json_ok (VBool b) = True"
| "json_ok (VString s) = True"
| "json_ok _ = False"

definition ok_text :: "jsval \<Rightarrow> jsstring" where
  "ok_text v = (case json_text v of Inr (Some t) \<Rightarrow> t | _ \<Rightarrow> [])"

definition member :: "jsstring \<times> jsval \<Rightarrow> jsstring" where
  "member p = json_quote (fst p) @ 0x3a # ok_text (snd p)"

lemma json_text_ok: "json_ok v \<Longrightarrow> json_text v = Inr (Some (ok_text v))"
proof (induction v rule: json_ok.induct)
  case (2 xs)
  then have "mapr json_text xs = Inr (map (\<lambda>x. Some (ok_text x)) xs)" by (intro mapr_all_Inr) (auto simp: list_all_iff)
  then show ?case by (simp add: ok_text_def)
next
  case (3 ps)
  then have "mapr (\<lambda>p. bindr (json_text (snd p)) (\<lambda>t. Inr (member_text (fst p) t))) ps = Inr (map (\<lambda>p. [member p]) ps)"
    by (intro mapr_all_Inr) (auto simp: list_all_iff member_text_def member_def)
  then show ?case by (simp add: ok_text_def)
qed (auto simp: ok_text_def)

lemma concat_singletons: "concat (map (\<lambda>p. [f p]) ps) = map f ps"
  by (induction ps) auto

lemma ok_text_simps:
  "ok_text VNull = js ''null''" "ok_text (VBool b) = (if b then js ''true'' else js ''false'')"
  "ok_text (VString s) = json_quote s" "json_ok (VNumber v) \<Longrightarrow> ok_text (VNumber v) = number_text v"
  "json_ok (VArray xs) \<Longrightarrow> ok_text (VArray xs) = 0x5b # join_with [0x2c] (map ok_text xs) @ [0x5d]"
  "json_ok (VObject ps) \<Longrightarrow> ok_text (VObject ps) = 0x7b # join_with [0x2c] (map member ps) @ [0x7d]"
proof -
  show "ok_text (VArray xs) = 0x5b # join_with [0x2c] (map ok_text xs) @ [0x5d]" if "json_ok (VArray xs)"
  proof -
    have "mapr json_text xs = Inr (map (\<lambda>x. Some (ok_text x)) xs)"
      using that json_text_ok by (intro mapr_all_Inr) (auto simp: list_all_iff)
    then show ?thesis by (simp add: ok_text_def [of "VArray xs"] comp_def)
  qed
  show "ok_text (VObject ps) = 0x7b # join_with [0x2c] (map member ps) @ [0x7d]" if "json_ok (VObject ps)"
  proof -
    have "mapr (\<lambda>p. bindr (json_text (snd p)) (\<lambda>t. Inr (member_text (fst p) t))) ps = Inr (map (\<lambda>p. [member p]) ps)"
      using that json_text_ok by (intro mapr_all_Inr) (auto simp: list_all_iff member_text_def member_def)
    then show ?thesis by (simp add: ok_text_def [of "VObject ps"] object_text_def concat_singletons)
  qed
qed (simp_all add: ok_text_def)

text \<open>The first character of a value: not white space, and not a closing bracket.\<close>

lemma ok_text_head:
  assumes "json_ok v"
  obtains c cs where "ok_text v = c # cs" "\<not> json_space c" "c \<noteq> 0x5d" "c \<noteq> 0x7d"
proof -
  have "\<exists>c cs. ok_text v = c # cs \<and> \<not> json_space c \<and> c \<noteq> 0x5d \<and> c \<noteq> 0x7d"
  proof (cases v)
    case (VNumber x)
    then show ?thesis using assms number_text_not_ws [of x] by (auto simp: ok_text_simps json_space_def is_digit_def)
  qed (use assms in \<open>auto simp: ok_text_simps json_quote_def json_space_def js_def\<close>)
  then show thesis using that by blast
qed

lemma skip_ws_head: "\<not> json_space c \<Longrightarrow> skip_ws (c # w) = c # w"
  by (simp add: skip_ws_def)

definition reads_back :: "jsval \<Rightarrow> bool" where
  "reads_back v \<longleftrightarrow> (\<forall>n u. 2 * length (ok_text v) \<le> n \<longrightarrow> number_stop u \<longrightarrow> json_value n (ok_text v @ u) = Some (v, u))"

lemma reads_backD: "reads_back v \<Longrightarrow> 2 * length (ok_text v) \<le> n \<Longrightarrow> number_stop u \<Longrightarrow> json_value n (ok_text v @ u) = Some (v, u)"
  by (simp add: reads_back_def)

lemma number_stop_simps [simp]: "number_stop []" "number_stop (c # w) \<longleftrightarrow> \<not> (is_digit c \<or> c = 0x2e \<or> c = 0x65 \<or> c = 0x45)"
  by (simp_all add: number_stop_def)

lemma separators [simp]: "\<not> is_digit 0x2c" "\<not> is_digit 0x5d" "\<not> is_digit 0x7d" "\<not> json_space 0x2c" "\<not> json_space 0x5d" "\<not> json_space 0x7d"
    "\<not> json_space 0x22" "\<not> json_space 0x3a" "\<not> json_space 0x5b" "\<not> json_space 0x7b"
  by (simp_all add: is_digit_def json_space_def)

lemma json_elements_text:
  assumes "xs \<noteq> []" and "\<And>x. x \<in> set xs \<Longrightarrow> reads_back x"
    and "2 * length (join_with [0x2c] (map ok_text xs)) + 2 \<le> n"
  shows "json_elements n (join_with [0x2c] (map ok_text xs) @ 0x5d # u) vs = Some (VArray (vs @ xs), u)"
  using assms
proof (induction xs arbitrary: n vs rule: list_nonempty_induct)
  case (single x)
  then obtain m where n: "n = Suc m" by (cases n) auto
  have "json_value m (ok_text x @ 0x5d # u) = Some (x, 0x5d # u)"
    using single n by (intro reads_backD) auto
  then show ?case by (simp add: n json_elements.simps skip_ws_head)
next
  case (cons x xs)
  then obtain m where n: "n = Suc m" by (cases n) auto
  obtain y ys where xs: "xs = y # ys" using cons.hyps by (cases xs) auto
  then have shape: "join_with [0x2c] (map ok_text (x # xs)) = ok_text x @ 0x2c # join_with [0x2c] (map ok_text xs)" by simp
  have "json_value m (ok_text x @ 0x2c # join_with [0x2c] (map ok_text xs) @ 0x5d # u)
      = Some (x, 0x2c # join_with [0x2c] (map ok_text xs) @ 0x5d # u)"
    using cons.prems unfolding shape by (intro reads_backD) (auto simp: n)
  moreover have "json_elements m (join_with [0x2c] (map ok_text xs) @ 0x5d # u) (vs @ [x]) = Some (VArray ((vs @ [x]) @ xs), u)"
    using cons.prems unfolding shape by (intro cons.IH) (auto simp: n)
  ultimately show ?case unfolding shape n by (simp add: json_elements.simps skip_ws_head)
qed

lemma member_value:
  assumes "reads_back (snd p)" and "json_ok (snd p)" and "2 * length (member p) \<le> m" and "number_stop u"
  obtains t where "member p @ u = 0x22 # t" "json_string t = Some (fst p, 0x3a # ok_text (snd p) @ u)"
    "json_value m (ok_text (snd p) @ u) = Some (snd p, u)"
proof -
  obtain t where "json_quote (fst p) @ 0x3a # ok_text (snd p) @ u = 0x22 # t" "json_string t = Some (fst p, 0x3a # ok_text (snd p) @ u)"
    using json_string_quote by blast
  moreover have "json_value m (ok_text (snd p) @ u) = Some (snd p, u)"
    using assms by (intro reads_backD) (auto simp: member_def)
  ultimately show thesis using that by (simp add: member_def)
qed

lemma json_members_text:
  assumes "ps \<noteq> []" and "\<And>p. p \<in> set ps \<Longrightarrow> reads_back (snd p) \<and> json_ok (snd p)"
    and "2 * length (join_with [0x2c] (map member ps)) + 2 \<le> n"
  shows "json_members n (join_with [0x2c] (map member ps) @ 0x7d # u) acc =
    Some (VObject (fold (\<lambda>p. obj_put (fst p) (snd p)) ps acc), u)"
  using assms
proof (induction ps arbitrary: n acc rule: list_nonempty_induct)
  case (single p)
  then obtain m where n: "n = Suc m" by (cases n) auto
  obtain t where "member p @ 0x7d # u = 0x22 # t" "json_string t = Some (fst p, 0x3a # ok_text (snd p) @ 0x7d # u)"
    "json_value m (ok_text (snd p) @ 0x7d # u) = Some (snd p, 0x7d # u)"
    using single n member_value [of p m "0x7d # u"] by auto
  then show ?case by (simp add: n json_members.simps skip_ws_head)
next
  case (cons p ps)
  then obtain m where n: "n = Suc m" by (cases n) auto
  obtain y ys where ps: "ps = y # ys" using cons.hyps by (cases ps) auto
  let ?r = "join_with [0x2c] (map member ps) @ 0x7d # u"
  have shape: "join_with [0x2c] (map member (p # ps)) = member p @ 0x2c # join_with [0x2c] (map member ps)" using ps by simp
  obtain t where "member p @ 0x2c # ?r = 0x22 # t" "json_string t = Some (fst p, 0x3a # ok_text (snd p) @ 0x2c # ?r)"
    "json_value m (ok_text (snd p) @ 0x2c # ?r) = Some (snd p, 0x2c # ?r)"
    using cons.prems member_value [of p m "0x2c # ?r"] unfolding shape by (auto simp: n)
  moreover have "json_members m ?r (obj_put (fst p) (snd p) acc) =
      Some (VObject (fold (\<lambda>p. obj_put (fst p) (snd p)) ps (obj_put (fst p) (snd p) acc)), u)"
    using cons.prems unfolding shape by (intro cons.IH) (auto simp: n)
  ultimately show ?case unfolding shape n by (simp add: json_members.simps skip_ws_head)
qed

lemma json_words:
  "0 < n \<Longrightarrow> json_value n (js ''null'' @ u) = Some (VNull, u)"
  "0 < n \<Longrightarrow> json_value n (js ''true'' @ u) = Some (VBool True, u)"
  "0 < n \<Longrightarrow> json_value n (js ''false'' @ u) = Some (VBool False, u)"
  by (cases n; simp add: js_def json_value.simps skip_ws_head json_word_def starts_with_def json_space_def)+

lemma json_reads_back: "json_ok v \<Longrightarrow> reads_back v"
proof (induction v rule: json_ok.induct)
  case (1 v)
  obtain neg ip fp ex where l: "number_text v = number_literal neg ip fp ex" "json_literal ip fp" "to_number (number_text v) = v"
    using 1 number_text_literal [of v] by (metis json_ok.simps(1))
  obtain c cs where head: "number_text v = c # cs" "is_digit c \<or> c = 0x2d" using 1 number_text_not_ws [of v] by auto
  have c: "\<not> json_space c" "c \<noteq> 0x6e" "c \<noteq> 0x74" "c \<noteq> 0x66" "c \<noteq> 0x22" "c \<noteq> 0x5b" "c \<noteq> 0x7b"
    using head(2) by (auto simp: json_space_def is_digit_def)
  show ?case
    unfolding reads_back_def
  proof (intro allI impI)
    fix n u assume n: "2 * length (ok_text (VNumber v)) \<le> n" and u: "number_stop u"
    have "0 < n" using n 1 head(1) by (simp add: ok_text_simps)
    then obtain m where m: "n = Suc m" by (cases n) auto
    have "json_number_rest (c # cs @ u) = Some u" using json_number_literal [OF l(2) u, of neg ex] head(1) l(1) by simp
    then show "json_value n (ok_text (VNumber v) @ u) = Some (VNumber v, u)"
      using 1 c head(1) l(3) by (simp add: ok_text_simps m json_value.simps skip_ws_head)
  qed
next
  case (2 xs)
  then have sub: "\<And>x. x \<in> set xs \<Longrightarrow> reads_back x" by (auto simp: list_all_iff)
  show ?case
    unfolding reads_back_def
  proof (intro allI impI)
    fix n u assume n: "2 * length (ok_text (VArray xs)) \<le> n"
    then obtain m where m: "n = Suc m" by (cases n) (use 2 in \<open>auto simp: ok_text_simps\<close>)
    show "json_value n (ok_text (VArray xs) @ u) = Some (VArray xs, u)"
    proof (cases xs)
      case Nil
      then show ?thesis using 2 by (simp add: ok_text_simps m json_value.simps skip_ws_head)
    next
      case (Cons x ys)
      let ?t = "join_with [0x2c] (map ok_text xs) @ 0x5d # u"
      obtain c cs where "ok_text x = c # cs" "\<not> json_space c" "c \<noteq> 0x5d"
        using ok_text_head [of x] 2(2) Cons by (metis json_ok.simps(2) list.pred_inject(2))
      then have "\<exists>r. ?t = c # r" using Cons by (cases ys) auto
      then have "take 1 (skip_ws ?t) \<noteq> [0x5d]" using \<open>\<not> json_space c\<close> \<open>c \<noteq> 0x5d\<close> by (auto simp: skip_ws_head)
      moreover have "json_elements m ?t [] = Some (VArray ([] @ xs), u)"
        using n m 2 Cons sub by (intro json_elements_text) (auto simp: ok_text_simps)
      ultimately show ?thesis using 2 by (simp add: ok_text_simps m json_value.simps skip_ws_head)
    qed
  qed
next
  case (3 ps)
  then have sub: "\<And>p. p \<in> set ps \<Longrightarrow> reads_back (snd p) \<and> json_ok (snd p)" by (auto simp: list_all_iff)
  show ?case
    unfolding reads_back_def
  proof (intro allI impI)
    fix n u assume n: "2 * length (ok_text (VObject ps)) \<le> n"
    then obtain m where m: "n = Suc m" by (cases n) (use 3 in \<open>auto simp: ok_text_simps\<close>)
    show "json_value n (ok_text (VObject ps) @ u) = Some (VObject ps, u)"
    proof (cases ps)
      case Nil
      then show ?thesis using 3 by (simp add: ok_text_simps m json_value.simps skip_ws_head)
    next
      case (Cons p qs)
      let ?t = "join_with [0x2c] (map member ps) @ 0x7d # u"
      have "\<exists>r. ?t = 0x22 # r" using Cons by (cases qs) (auto simp: member_def json_quote_def)
      then have "take 1 (skip_ws ?t) \<noteq> [0x7d]" by (auto simp: skip_ws_head)
      moreover have "json_members m ?t [] = Some (VObject (fold (\<lambda>p. obj_put (fst p) (snd p)) ps []), u)"
        using n m 3 Cons sub by (intro json_members_text) (auto simp: ok_text_simps)
      moreover have "fold (\<lambda>p. obj_put (fst p) (snd p)) ps [] = ps" using 3 by (simp add: obj_of_def)
      ultimately show ?thesis using 3 by (simp add: ok_text_simps m json_value.simps skip_ws_head)
    qed
  qed
next
  case (6 s)
  show ?case
    unfolding reads_back_def
  proof (intro allI impI)
    fix n u assume n: "2 * length (ok_text (VString s)) \<le> n"
    then obtain m where m: "n = Suc m" by (cases n) (auto simp: ok_text_simps json_quote_def)
    obtain t where "json_quote s @ u = 0x22 # t" "json_string t = Some (s, u)" using json_string_quote by blast
    then show "json_value n (ok_text (VString s) @ u) = Some (VString s, u)"
      by (simp add: ok_text_simps m json_value.simps skip_ws_head)
  qed
qed (auto simp: reads_back_def ok_text_simps json_words json_words [simplified js_def, simplified] js_def)

text \<open>Encoding and decoding a JSON value gives it back.\<close>

lemma json_parse_ok_text: "json_ok v \<Longrightarrow> json_parse (ok_text v) = Some v"
  using json_reads_back [of v] reads_backD [of v _ "[]"] by (simp add: json_parse_def skip_ws_def)

section \<open>Texts are well-formed\<close>

lemma code_points_scalar:
  assumes "is_scalar p"
  shows "code_points (utf16_point p @ s) = p # code_points s"
proof (cases "p < 0x10000")
  case True
  then have "unat (of_nat p :: code_unit) = p" by simp
  moreover have "\<not> is_high (of_nat p)" using assms calculation by (auto simp: is_high_def is_scalar_def is_surrogate_def)
  ultimately show ?thesis using True by (cases s) (simp_all add: utf16_point_def)
next
  case False
  have "(p - 0x10000) div 1024 < 1024" using assms False by (intro less_mult_imp_div_less) (auto simp: is_scalar_def)
  then have "unat (of_nat (0xd800 + (p - 0x10000) div 1024) :: code_unit) = 0xd800 + (p - 0x10000) div 1024"
    "unat (of_nat (0xdc00 + (p - 0x10000) mod 1024) :: code_unit) = 0xdc00 + (p - 0x10000) mod 1024"
    using mod_less_divisor [of 1024 "p - 0x10000"] by (simp_all del: of_nat_add)
  moreover from this have "is_high (of_nat (0xd800 + (p - 0x10000) div 1024))" "is_low (of_nat (0xdc00 + (p - 0x10000) mod 1024))"
    using \<open>(p - 0x10000) div 1024 < 1024\<close> mod_less_divisor [of 1024 "p - 0x10000"] by (simp_all add: is_high_def is_low_def del: of_nat_add)
  moreover have "(p - 0x10000) div 1024 * 1024 + (p - 0x10000) mod 1024 + 0x10000 = p" using False by simp
  ultimately show ?thesis using False by (simp add: utf16_point_def del: of_nat_add)
qed

lemma code_points_utf16: "list_all is_scalar ps \<Longrightarrow> code_points (utf16 ps) = ps"
  by (induction ps) (simp_all add: utf16_def code_points_scalar)

definition scalar_text :: "jsstring \<Rightarrow> bool" where
  "scalar_text s \<longleftrightarrow> (\<exists>ps. list_all is_scalar ps \<and> s = utf16 ps)"

lemma scalar_text_well_formed: "scalar_text s \<Longrightarrow> well_formed s"
  by (auto simp: scalar_text_def well_formed_def code_points_utf16 list_all_iff is_scalar_def)

lemma scalar_text_append: "scalar_text a \<Longrightarrow> scalar_text b \<Longrightarrow> scalar_text (a @ b)"
  unfolding scalar_text_def by (metis (no_types, lifting) concat_append list_all_append map_append utf16_def)

lemma scalar_text_ascii: "list_all (\<lambda>c. c < 0x80) s \<Longrightarrow> scalar_text s"
proof -
  assume a: "list_all (\<lambda>c. c < 0x80) s"
  have "s = utf16 (map unat s)" by (induction s) (simp_all add: utf16_def utf16_point_def)
  moreover have "list_all is_scalar (map unat s)"
    using a by (auto simp: list_all_iff is_scalar_def is_surrogate_def word_less_nat_alt)
  ultimately show ?thesis unfolding scalar_text_def by blast
qed

lemma scalar_text_Cons: "c < 0x80 \<Longrightarrow> scalar_text s \<Longrightarrow> scalar_text (c # s)"
  using scalar_text_append [of "[c]" s] scalar_text_ascii [of "[c]"] by simp

lemma scalar_text_Nil [simp]: "scalar_text []"
  by (rule scalar_text_ascii) simp

lemma hex_digit_ascii: "hex_digit d < 0x80 \<or> 16 \<le> d"
proof (cases "16 \<le> d")
  case False
  then have "unat (of_nat (0x30 + d) :: code_unit) = 0x30 + d" "unat (of_nat (0x57 + d) :: code_unit) = 0x57 + d" by (simp_all del: of_nat_add)
  then show ?thesis using False by (simp add: hex_digit_def word_less_nat_alt del: of_nat_add)
qed simp

lemma unicode_escape_ascii: "list_all (\<lambda>c. c < 0x80) (unicode_escape p)"
proof -
  have "hex_digit (n mod 16) < 0x80" for n using hex_digit_ascii [of "n mod 16"] mod_less_divisor [of 16 n] by (auto simp del: mod_less_divisor)
  then show ?thesis by (simp add: unicode_escape_def js_def)
qed

lemma scalar_text_point: "p < 0x110000 \<Longrightarrow> scalar_text (quote_point p)"
proof (cases p rule: quote_point_cases)
  case (short c)
  then show ?thesis by (auto simp: short_escapes_def intro: scalar_text_ascii)
next
  case escaped
  then show ?thesis by (simp add: unicode_escape_ascii scalar_text_ascii)
next
  case raw
  moreover assume "p < 0x110000"
  ultimately have "list_all is_scalar [p] \<and> quote_point p = utf16 [p]" by (simp add: is_scalar_def utf16_def)
  then show ?thesis unfolding scalar_text_def by blast
qed

lemma scalar_text_quote: "scalar_text (json_quote s)"
proof -
  have "list_all (\<lambda>p. p < 0x110000) ps \<Longrightarrow> scalar_text (concat (map quote_point ps))" for ps
    by (induction ps) (auto intro: scalar_text_append scalar_text_point)
  then show ?thesis
    using code_points_bounded [of s] unfolding json_quote_def by (intro scalar_text_append) (auto intro: scalar_text_ascii)
qed

lemma scalar_text_number:
  assumes "f64_is_finite v" and "\<not> f64_is_negative_zero v"
  shows "scalar_text (number_text v)"
proof -
  obtain neg ip fp ex where l: "number_text v = number_literal neg ip fp ex" "json_literal ip fp"
    by (rule number_text_literal [OF assms])
  have d: "list_all (\<lambda>c. c < 0x80) ds" if "list_all is_digit ds" for ds
    using that by (auto simp: list_all_iff is_digit_def word_le_nat_alt word_less_nat_alt)
  have "list_all (\<lambda>c. c < 0x80) ip" "list_all (\<lambda>c. c < 0x80) fp" "list_all (\<lambda>c. c < 0x80) (decimal n)" for n
    using l(2) decimal_text [of n] by (simp_all add: d json_literal_def literal_ok_def)
  then show ?thesis
    unfolding l(1) by (intro scalar_text_ascii) (simp add: number_literal_def exponent_text_def split: option.split)
qed

lemma scalar_text_join: "(\<And>t. t \<in> set ts \<Longrightarrow> scalar_text t) \<Longrightarrow> scalar_text (join_with [0x2c] ts)"
  by (induction "[0x2c] :: jsstring" ts rule: join_with.induct) (auto intro!: scalar_text_append scalar_text_Cons)

lemma scalar_text_json: "json_ok v \<Longrightarrow> scalar_text (ok_text v)"
proof (induction v rule: json_ok.induct)
  case (2 xs)
  then show ?case
    by (auto simp: ok_text_simps list_all_iff intro!: scalar_text_Cons scalar_text_append scalar_text_join scalar_text_ascii [of "[0x5d]"])
next
  case (3 ps)
  then have "scalar_text (member p)" if "p \<in> set ps" for p
    using that by (cases p) (auto simp: member_def list_all_iff scalar_text_quote intro!: scalar_text_append scalar_text_Cons)
  then show ?case using 3
    by (auto simp: ok_text_simps intro!: scalar_text_Cons scalar_text_append scalar_text_join scalar_text_ascii [of "[0x7d]"])
qed (auto simp: ok_text_simps scalar_text_quote scalar_text_number js_def intro!: scalar_text_ascii)

text \<open>Encoding and decoding a JSON value gives it back.\<close>

lemma jsonEncode_ok: "json_ok v \<Longrightarrow> jsonEncode v = Inr (text_encode (ok_text v))"
  by (simp add: jsonEncode_def json_text_ok)

lemma jsonDecode_encoded:
  assumes "json_ok v"
  shows "jsonDecode (text_encode (ok_text v)) = Inr v"
proof -
  have wf: "well_formed (ok_text v)" using assms by (intro scalar_text_well_formed scalar_text_json)
  obtain c cs where c: "ok_text v = c # cs" "\<not> json_space c" using ok_text_head [OF assms] by blast
  have "c \<noteq> 0xfeff"
  proof (cases v)
    case (VNumber x)
    then show ?thesis using c assms number_text_not_ws [of x] by (auto simp: ok_text_simps is_digit_def)
  qed (use assms c in \<open>auto simp: ok_text_simps json_quote_def js_def split: if_splits\<close>)
  then have "\<not> starts_with_bom (ok_text v)" by (simp add: starts_with_bom_def c)
  then show ?thesis
    using text_decode_fatal_utf8 [OF wf] json_parse_ok_text [OF assms]
    by (simp add: jsonDecode_def text_encode_well_formed [OF wf])
qed

section \<open>The fuel is enough\<close>

lemma skip_ws_length: "length (skip_ws s) \<le> length s"
  by (simp add: skip_ws_def length_dropWhile_le)

lemma skip_ws_cons: "skip_ws s = c # cs \<Longrightarrow> length cs < length s"
  using skip_ws_length [of s] by simp

lemma json_string_length: "json_string s = Some (t, r) \<Longrightarrow> length r < length s"
proof (induction s arbitrary: t r rule: json_string.induct)
  case (2 c cs)
  then show ?case by (fastforce split: if_splits option.splits)
qed simp

lemma json_digits_length: "json_digits s = Some r \<Longrightarrow> length r < length s"
  by (cases s) (auto simp: json_digits_def Let_def split: if_splits)

lemma json_number_length: "json_number_rest s = Some r \<Longrightarrow> length r < length s"
proof -
  have i: "length r < length s" if "json_int s = Some r" for s r
    using that by (cases s) (auto simp: json_int_def Let_def split: if_splits)
  have f: "length r \<le> length s" if "json_frac s = Some r" for s r
    using that json_digits_length [of "drop 1 s" r] by (auto simp: json_frac_def split: if_splits)
  have e: "length r \<le> length s" if "json_exp s = Some r" for s r
    using that json_digits_length [of "drop 1 s" r] json_digits_length [of "drop 2 s" r]
    by (auto simp: json_exp_def split: if_splits)
  show "json_number_rest s = Some r \<Longrightarrow> length r < length s"
    by (auto simp: json_number_rest_def bind_eq_Some_conv split: if_splits dest!: i f e)
qed

text \<open>One step through an array or an object.\<close>

lemma json_elements_step:
  assumes "json_elements (Suc n) s vs = Some (v, r)"
  obtains x r1 c r2 where "json_value n s = Some (x, r1)" "skip_ws r1 = c # r2"
    "c = 0x2c \<and> json_elements n r2 (vs @ [x]) = Some (v, r) \<or> r = r2"
  using assms by (auto simp: json_elements.simps split: option.splits prod.splits list.splits if_splits)

lemma json_members_step:
  assumes "json_members (Suc n) s ps = Some (v, r)"
  obtains r0 k r1 x r2 c r3 where "skip_ws s = 0x22 # r0" "json_string r0 = Some (k, r1)" "take 1 (skip_ws r1) = [0x3a]"
    "json_value n (drop 1 (skip_ws r1)) = Some (x, r2)" "skip_ws r2 = c # r3"
    "c = 0x2c \<and> json_members n r3 (obj_put k x ps) = Some (v, r) \<or> r = r3"
  using assms by (auto simp: json_members.simps split: option.splits prod.splits list.splits if_splits)

lemma json_length:
  "(\<forall>s v r. json_value n s = Some (v, r) \<longrightarrow> length r < length s) \<and>
   (\<forall>s vs v r. json_elements n s vs = Some (v, r) \<longrightarrow> length r < length s) \<and>
   (\<forall>s ps v r. json_members n s ps = Some (v, r) \<longrightarrow> length r < length s)"
proof (induction n)
  case (Suc n)
  then have IH: "length r < length s" if "json_value n s = Some (v, r) \<or> (\<exists>vs. json_elements n s vs = Some (v, r)) \<or> (\<exists>ps. json_members n s ps = Some (v, r))" for s v r
    using that by blast
  have "length r < length s" if v: "json_value (Suc n) s = Some (v, r)" for s v r
  proof (cases "skip_ws s")
    case Nil
    then show ?thesis using v by (simp add: json_value.simps)
  next
    case (Cons c cs)
    have short: "length cs < length s" "length (skip_ws cs) \<le> length cs" using skip_ws_cons [OF Cons] skip_ws_length by auto
    have word: "length r < length s" if "json_word w x (c # cs) = Some (v, r)" "w \<noteq> []" for w x
      using that short by (cases w) (auto simp: json_word_def split: if_splits)
    consider "\<exists>w x. json_word w x (c # cs) = Some (v, r) \<and> w \<noteq> []" | "\<exists>t. json_string cs = Some (t, r)"
      | "r = drop 1 (skip_ws cs)" | "json_elements n cs [] = Some (v, r)" | "json_members n cs [] = Some (v, r)" | "json_number_rest (c # cs) = Some r"
      using v Cons by (auto simp: json_value.simps js_def split: if_splits)
    then show ?thesis
      using word IH [of cs] json_string_length [of cs] json_number_length [of "c # cs"] short by cases fastforce+
  qed
  moreover have "length r < length s" if e: "json_elements (Suc n) s vs = Some (v, r)" for s vs v r
  proof (rule json_elements_step [OF e])
    fix x r1 c r2 assume a: "json_value n s = Some (x, r1)" "skip_ws r1 = c # r2"
      "c = 0x2c \<and> json_elements n r2 (vs @ [x]) = Some (v, r) \<or> r = r2"
    then have "length r1 < length s" "length r2 < length r1" "length r \<le> length r2"
      using IH skip_ws_cons by (blast intro: less_imp_le)+
    then show ?thesis by simp
  qed
  moreover have "length r < length s" if e: "json_members (Suc n) s ps = Some (v, r)" for s ps v r
  proof (rule json_members_step [OF e])
    fix r0 k r1 x r2 c r3 assume a: "skip_ws s = 0x22 # r0" "json_string r0 = Some (k, r1)" "take 1 (skip_ws r1) = [0x3a]"
      "json_value n (drop 1 (skip_ws r1)) = Some (x, r2)" "skip_ws r2 = c # r3"
      "c = 0x2c \<and> json_members n r3 (obj_put k x ps) = Some (v, r) \<or> r = r3"
    have "length r0 < length s" "length r1 < length r0" "length (skip_ws r1) \<le> length r1"
      using a(1,2) skip_ws_cons json_string_length skip_ws_length by blast+
    moreover have "length r2 < length (drop 1 (skip_ws r1))" "length r3 < length r2" "length r \<le> length r3"
      using a(4,5,6) IH skip_ws_cons by (blast intro: less_imp_le)+
    ultimately show ?thesis by simp
  qed
  ultimately show ?case by blast
qed (simp add: json_value.simps json_elements.simps json_members.simps)

lemma json_fuel:
  "(\<forall>s. 2 * length s + 1 \<le> n \<longrightarrow> json_value (Suc n) s = json_value n s) \<and>
   (\<forall>s vs. 2 * length s + 2 \<le> n \<longrightarrow> json_elements (Suc n) s vs = json_elements n s vs) \<and>
   (\<forall>s ps. 2 * length s + 2 \<le> n \<longrightarrow> json_members (Suc n) s ps = json_members n s ps)"
proof (induction n)
  case (Suc n)
  then have IH: "2 * length s + 1 \<le> n \<Longrightarrow> json_value (Suc n) s = json_value n s"
    "2 * length s + 2 \<le> n \<Longrightarrow> json_elements (Suc n) s vs = json_elements n s vs"
    "2 * length s + 2 \<le> n \<Longrightarrow> json_members (Suc n) s ps = json_members n s ps" for s vs ps
    by blast+
  have "json_value (Suc (Suc n)) s = json_value (Suc n) s" if "2 * length s + 1 \<le> Suc n" for s
  proof (cases "skip_ws s")
    case (Cons c cs)
    have "2 * length cs + 2 \<le> n" using skip_ws_cons [OF Cons] that by simp
    then show ?thesis using Cons IH(2,3) by (simp add: json_value.simps(2))
  qed (simp add: json_value.simps(2))
  moreover have "json_elements (Suc (Suc n)) s vs = json_elements (Suc n) s vs" if "2 * length s + 2 \<le> Suc n" for s vs
  proof -
    have "json_elements (Suc n) r2 (vs @ [x]) = json_elements n r2 (vs @ [x])"
      if "json_value n s = Some (x, r1)" "skip_ws r1 = c # r2" for x r1 c r2
      using json_length [of n] that skip_ws_cons [OF that(2)] \<open>2 * length s + 2 \<le> Suc n\<close> by (intro IH(2)) fastforce
    then show ?thesis using IH(1) [of s] that
      by (subst (1 2) json_elements.simps) (auto split: option.splits prod.splits list.splits)
  qed
  moreover have "json_members (Suc (Suc n)) s ps = json_members (Suc n) s ps" if "2 * length s + 2 \<le> Suc n" for s ps
  proof -
    have short: "length (drop 1 (skip_ws r1)) + 1 < length s" if "skip_ws s = q # r0" "json_string r0 = Some (k, r1)" for q r0 k r1
      using skip_ws_cons [OF that(1)] json_string_length [OF that(2)] skip_ws_length [of r1] by simp
    have v: "json_value (Suc n) (drop 1 (skip_ws r1)) = json_value n (drop 1 (skip_ws r1))"
      if "skip_ws s = q # r0" "json_string r0 = Some (k, r1)" for q r0 k r1
      using short [OF that] \<open>2 * length s + 2 \<le> Suc n\<close> by (intro IH(1)) simp
    have m: "json_members (Suc n) r3 qs = json_members n r3 qs"
      if "skip_ws s = q # r0" "json_string r0 = Some (k, r1)" "json_value n (drop 1 (skip_ws r1)) = Some (x, r2)" "skip_ws r2 = c # r3"
      for q r0 k r1 x r2 c r3 qs
    proof (rule IH(3))
      have "length r2 < length (drop 1 (skip_ws r1))" using json_length [of n] that(3) by blast
      then show "2 * length r3 + 2 \<le> n"
        using short [OF that(1,2)] skip_ws_cons [OF that(4)] \<open>2 * length s + 2 \<le> Suc n\<close> by simp
    qed
    show ?thesis using v m by (subst (1 2) json_members.simps) (auto split: option.splits prod.splits list.splits)
  qed
  ultimately show ?case by blast
qed simp

text \<open>The fuel of \<open>json_parse\<close> decides: more of it gives the same result.\<close>

lemma json_parse_fuel: "2 * length s + 2 \<le> n \<Longrightarrow> json_value n s = json_value (2 * length s + 2) s"
proof (induction n)
  case (Suc n)
  then show ?case using json_fuel [of n] by (cases "2 * length s + 2 = Suc n") auto
qed simp

section \<open>Properties\<close>

text \<open>
  C5. A JSON value is read back as written: \<^verbatim>\<open>jsonEncode\<close> succeeds on it and \<^verbatim>\<open>jsonDecode\<close> of the bytes
  gives the same value, with its numbers exact, its strings unescaped and its properties in order.
\<close>

theorem json_round_trip:
  assumes "json_ok v"
  shows "\<exists>bs. jsonEncode v = Inr bs \<and> jsonDecode bs = Inr v"
  using jsonEncode_ok [OF assms] jsonDecode_encoded [OF assms] by blast

theorem json_round_trip_witness:
  "\<exists>bs. jsonEncode (VArray [VNumber 0x3fb999999999999a, VString [0xd800, 0x22], VObject [(js ''a'', VNull)]]) = Inr bs \<and>
    jsonDecode bs = Inr (VArray [VNumber 0x3fb999999999999a, VString [0xd800, 0x22], VObject [(js ''a'', VNull)]])"
proof (rule json_round_trip)
  show "json_ok (VArray [VNumber 0x3fb999999999999a, VString [0xd800, 0x22], VObject [(js ''a'', VNull)]])"
    by (simp add: f64_is_finite_def f64_mag_def f64_is_negative_zero_def obj_of_def obj_put_def)
qed

end
