(* ===== verification/IndexDefs.thy ===== *)
theory IndexDefs
  imports Codec JsJson "HOL-Library.Multiset"
begin

text \<open>
  Index definitions, the first half of \<^verbatim>\<open>packages/sdk/src/indexing.ts\<close>: normalization of the definitions
  passed to \<^verbatim>\<open>open\<close>, the names of the internal stores that hold the index entries, and the logical
  key of a document under a definition.
\<close>

section \<open>Definitions\<close>

record NormalizedIndexDef =
  def_store :: jsstring
  def_name :: jsstring
  def_keyPath :: "jsstring list"
  def_compound :: bool
  def_unique :: bool
  def_internalStore :: jsstring

definition INTERNAL_STORE_PREFIX :: jsstring where
  "INTERNAL_STORE_PREFIX = js ''__browserdb:''"

definition INTERNAL_INDEX_STORE_PREFIX :: jsstring where
  "INTERNAL_INDEX_STORE_PREFIX = js ''__browserdb:index:''"

definition isInternalStoreName :: "jsstring \<Rightarrow> bool" where
  "isInternalStoreName n = starts_with n INTERNAL_STORE_PREFIX"

definition assertPublicStoreName :: "jsstring \<Rightarrow> unit result" where
  "assertPublicStoreName n =
     (if isInternalStoreName n then throw ReservedStoreNameError ''reserved store name'' else Inr ())"

section \<open>Internal store names\<close>

definition base64_digit :: "nat \<Rightarrow> code_unit" where
  "base64_digit d =
     (if d < 26 then of_nat (0x41 + d) else if d < 52 then of_nat (0x61 + (d - 26))
      else if d < 62 then of_nat (0x30 + (d - 52)) else if d = 62 then 0x2b else 0x2f)"

text \<open>\<^verbatim>\<open>btoa\<close> of a string of code units below 256.\<close>

fun btoa :: "nat list \<Rightarrow> jsstring" where
  "btoa [] = []"
| "btoa [a] = [base64_digit (a div 4), base64_digit (a mod 4 * 16), 0x3d, 0x3d]"
| "btoa [a, b] =
     [base64_digit (a div 4), base64_digit (a mod 4 * 16 + b div 16), base64_digit (b mod 16 * 4), 0x3d]"
| "btoa (a # b # c # rest) =
     [base64_digit (a div 4), base64_digit (a mod 4 * 16 + b div 16),
      base64_digit (b mod 16 * 4 + c div 64), base64_digit (c mod 64)] @ btoa rest"

definition url_digit :: "code_unit \<Rightarrow> code_unit" where
  "url_digit c = (if c = 0x2b then 0x2d else if c = 0x2f then 0x5f else c)"

definition base64Url :: "bytes \<Rightarrow> jsstring" where
  "base64Url bs = rev (dropWhile (\<lambda>c. c = 0x3d) (rev (map url_digit (btoa (map unat bs)))))"

text \<open>\<^verbatim>\<open>hash.toString(16).padStart(16, '0')\<close>.\<close>

fun hex_string :: "nat \<Rightarrow> jsstring" where
  "hex_string n = (if n < 16 then [hex_digit n] else hex_string (n div 16) @ [hex_digit (n mod 16)])"

declare hex_string.simps [simp del]

definition pad_start :: "nat \<Rightarrow> code_unit \<Rightarrow> jsstring \<Rightarrow> jsstring" where
  "pad_start n c s = replicate (n - length s) c @ s"

fun fnv_loop :: "64 word \<Rightarrow> bytes \<Rightarrow> 64 word" where
  "fnv_loop hash [] = hash"
| "fnv_loop hash (b # bs) = fnv_loop ((hash XOR ucast b) * 0x100000001b3) bs"

definition fnv1a64Hex :: "bytes \<Rightarrow> jsstring" where
  "fnv1a64Hex bs = pad_start 16 0x30 (hex_string (unat (fnv_loop 0xcbf29ce484222325 bs)))"

definition makeInternalIndexStoreName :: "jsstring \<Rightarrow> jsstring \<Rightarrow> jsstring" where
  "makeInternalIndexStoreName store name =
     (let storeToken = base64Url (text_encode store);
          nameToken = base64Url (text_encode name);
          candidate = INTERNAL_INDEX_STORE_PREFIX @ storeToken @ js '':'' @ nameToken
      in if length (text_encode candidate) \<le> 255 then candidate
         else INTERNAL_INDEX_STORE_PREFIX @ js ''h:'' @ fnv1a64Hex (text_encode (store @ [0] @ name)))"

section \<open>Normalization\<close>

definition validateSingleKeyPath :: "jsstring \<Rightarrow> unit result" where
  "validateSingleKeyPath value =
     (if value = [] then throw InvalidOpenOptionsError ''index keyPath strings must be non-empty''
      else if starts_with value (js ''.'') \<or> ends_with value (js ''.'') \<or> str_includes value (js ''..'')
        then throw InvalidOpenOptionsError ''invalid index keyPath''
      else Inr ())"

fun string_items :: "jsval list \<Rightarrow> jsstring list option" where
  "string_items [] = Some []"
| "string_items (VString s # vs) = map_option ((#) s) (string_items vs)"
| "string_items (_ # vs) = None"

definition normalizeIndexKeyPath :: "jsval \<Rightarrow> (jsstring list \<times> bool) result" where
  "normalizeIndexKeyPath value =
     (let bad = throw InvalidOpenOptionsError ''index keyPath must be a non-empty string or non-empty string[]''
      in case value of
           VString s \<Rightarrow> bindr (validateSingleKeyPath s) (\<lambda>_. Inr ([s], False))
         | VArray vs \<Rightarrow>
             if vs = [] then bad
             else (case string_items vs of
                     None \<Rightarrow> bad
                   | Some paths \<Rightarrow> bindr (mapr validateSingleKeyPath paths) (\<lambda>_. Inr (paths, True)))
         | _ \<Rightarrow> bad)"

definition serializeIndexKeyPath :: "NormalizedIndexDef \<Rightarrow> jsstring" where
  "serializeIndexKeyPath d =
     (if def_compound d then js ''['' @ join_with (js '','') (def_keyPath d) @ js '']'' else hd (def_keyPath d))"

definition compareNormalizedIndexDefinitions :: "NormalizedIndexDef \<Rightarrow> NormalizedIndexDef \<Rightarrow> int" where
  "compareNormalizedIndexDefinitions left right =
     (let storeCompare = compareStringsByCodeUnit (def_store left) (def_store right) in
      if storeCompare \<noteq> 0 then storeCompare
      else let nameCompare = compareStringsByCodeUnit (def_name left) (def_name right) in
      if nameCompare \<noteq> 0 then nameCompare
      else let uniqueCompare = of_bool (def_unique left) - of_bool (def_unique right) in
      if uniqueCompare \<noteq> 0 then uniqueCompare
      else compareStringsByCodeUnit (serializeIndexKeyPath left) (serializeIndexKeyPath right))"

definition indexDefinitionIdentity :: "jsstring \<Rightarrow> jsstring \<Rightarrow> jsstring" where
  "indexDefinitionIdentity store name = js ''['' @ json_quote store @ js '','' @ json_quote name @ js '']''"

text \<open>\<^verbatim>\<open>typeof v === 'string' && v.length > 0\<close>, with the string.\<close>

definition non_empty_string :: "jsval \<Rightarrow> jsstring option" where
  "non_empty_string v = (case v of VString s \<Rightarrow> if s = [] then None else Some s | _ \<Rightarrow> None)"

definition is_array :: "jsval \<Rightarrow> bool" where
  "is_array v = (case v of VArray _ \<Rightarrow> True | _ \<Rightarrow> False)"

text \<open>\<^verbatim>\<open>unique ?? false\<close> of a value that is \<^verbatim>\<open>undefined\<close> or a Boolean.\<close>

definition optional_flag :: "jsval \<Rightarrow> bool option" where
  "optional_flag v = (case v of VUndefined \<Rightarrow> Some False | VBool b \<Rightarrow> Some b | _ \<Rightarrow> None)"

text \<open>The checks on one entry of the option array, in the order of the loop body.\<close>

definition normalizeIndexEntry :: "jsval \<Rightarrow> NormalizedIndexDef result" where
  "normalizeIndexEntry entry =
     (if \<not> is_object entry \<or> is_array entry
        then throw InvalidOpenOptionsError ''each index definition must be an object''
      else case non_empty_string (prop_get entry (js ''store'')) of
        None \<Rightarrow> throw InvalidOpenOptionsError ''index store must be a non-empty string''
      | Some store \<Rightarrow>
        (case non_empty_string (prop_get entry (js ''name'')) of
           None \<Rightarrow> throw InvalidOpenOptionsError ''index name must be a non-empty string''
         | Some name \<Rightarrow>
           bindr (assertPublicStoreName store) (\<lambda>_.
           bindr (normalizeIndexKeyPath (prop_get entry (js ''keyPath''))) (\<lambda>(paths, compound).
             case optional_flag (prop_get entry (js ''unique'')) of
               None \<Rightarrow> throw InvalidOpenOptionsError ''index unique must be a boolean''
             | Some unique \<Rightarrow>
                 Inr \<lparr>def_store = store, def_name = name, def_keyPath = paths,
                   def_compound = compound, def_unique = unique,
                   def_internalStore = makeInternalIndexStoreName store name\<rparr>))))"

fun normalize_loop ::
  "NormalizedIndexDef list \<Rightarrow> jsstring list \<Rightarrow> (jsstring \<rightharpoonup> jsstring) \<Rightarrow> jsval list \<Rightarrow> NormalizedIndexDef list result" where
  "normalize_loop normalized identities internalStores [] = Inr normalized"
| "normalize_loop normalized identities internalStores (entry # entries) =
     bindr (normalizeIndexEntry entry) (\<lambda>d.
       let identity = indexDefinitionIdentity (def_store d) (def_name d) in
       if identity \<in> set identities then throw InvalidOpenOptionsError ''duplicate index definition''
       else let mapped = internalStores (def_internalStore d) in
       if mapped \<noteq> None \<and> mapped \<noteq> Some [] \<and> mapped \<noteq> Some identity
         then throw InvalidOpenOptionsError ''index definitions map to the same internal store''
       else normalize_loop (normalized @ [d]) (identity # identities)
              (internalStores(def_internalStore d \<mapsto> identity)) entries)"

text \<open>\<^verbatim>\<open>Array.prototype.sort\<close> with a comparator: a stable sort.\<close>

fun insert_by :: "('a \<Rightarrow> 'a \<Rightarrow> int) \<Rightarrow> 'a \<Rightarrow> 'a list \<Rightarrow> 'a list" where
  "insert_by cmp x [] = [x]"
| "insert_by cmp x (y # ys) = (if cmp x y \<le> 0 then x # y # ys else y # insert_by cmp x ys)"

definition js_sort :: "('a \<Rightarrow> 'a \<Rightarrow> int) \<Rightarrow> 'a list \<Rightarrow> 'a list" where
  "js_sort cmp xs = foldr (insert_by cmp) xs []"

definition normalizeIndexDefinitions :: "jsval \<Rightarrow> NormalizedIndexDef list result" where
  "normalizeIndexDefinitions value =
     (case value of
        VUndefined \<Rightarrow> Inr []
      | VArray entries \<Rightarrow>
          bindr (normalize_loop [] [] Map.empty entries)
            (\<lambda>normalized. Inr (js_sort compareNormalizedIndexDefinitions normalized))
      | _ \<Rightarrow> throw InvalidOpenOptionsError ''indexes must be an array'')"

definition findIndexDefinition :: "NormalizedIndexDef list \<Rightarrow> jsstring \<Rightarrow> jsstring \<Rightarrow> NormalizedIndexDef option" where
  "findIndexDefinition defs store name = find (\<lambda>d. def_store d = store \<and> def_name d = name) defs"

definition indexesForStore :: "NormalizedIndexDef list \<Rightarrow> jsstring \<Rightarrow> NormalizedIndexDef list" where
  "indexesForStore defs store = filter (\<lambda>d. def_store d = store) defs"

definition cloneNormalizedIndexDefinitions :: "NormalizedIndexDef list \<Rightarrow> NormalizedIndexDef list" where
  "cloneNormalizedIndexDefinitions defs = map (\<lambda>d.
     \<lparr>def_store = def_store d, def_name = def_name d, def_keyPath = def_keyPath d, def_compound = def_compound d,
      def_unique = def_unique d, def_internalStore = def_internalStore d\<rparr>) defs"

definition toPublicIndexDefinition :: "NormalizedIndexDef \<Rightarrow> jsval" where
  "toPublicIndexDefinition d = VObject
     [(js ''store'', VString (def_store d)), (js ''name'', VString (def_name d)),
      (js ''keyPath'', if def_compound d then VArray (map VString (def_keyPath d)) else VString (hd (def_keyPath d))),
      (js ''unique'', VBool (def_unique d))]"

definition toPublicIndexDefinitions :: "NormalizedIndexDef list \<Rightarrow> jsval" where
  "toPublicIndexDefinitions defs = VArray (map toPublicIndexDefinition defs)"

section \<open>Metadata records\<close>

definition encodeIndexMetadataKey :: "jsstring \<Rightarrow> jsstring \<Rightarrow> bytes" where
  "encodeIndexMetadataKey store name = encodeCompoundKeyParts [text_encode store, text_encode name]"

text \<open>\<^verbatim>\<open>JSON.stringify\<close> of a public definition: strings, an array of strings and a Boolean.\<close>

definition json_strings :: "jsstring list \<Rightarrow> jsstring" where
  "json_strings ss = js ''['' @ join_with (js '','') (map json_quote ss) @ js '']''"

definition json_index_definition :: "NormalizedIndexDef \<Rightarrow> jsstring" where
  "json_index_definition d =
     js ''{'' @ json_quote (js ''store'') @ js '':'' @ json_quote (def_store d) @ js '','' @
     json_quote (js ''name'') @ js '':'' @ json_quote (def_name d) @ js '','' @
     json_quote (js ''keyPath'') @ js '':'' @
       (if def_compound d then json_strings (def_keyPath d) else json_quote (hd (def_keyPath d))) @ js '','' @
     json_quote (js ''unique'') @ js '':'' @ (if def_unique d then js ''true'' else js ''false'') @ js ''}''"

definition encodeIndexMetadataValue :: "NormalizedIndexDef \<Rightarrow> bytes" where
  "encodeIndexMetadataValue d = text_encode (json_index_definition d)"

definition serializeNormalizedIndexDefinitions :: "NormalizedIndexDef list \<Rightarrow> jsstring" where
  "serializeNormalizedIndexDefinitions defs =
     js ''['' @ join_with (js '','') (map json_index_definition defs) @ js '']''"

definition decodeIndexMetadataValue :: "bytes \<Rightarrow> NormalizedIndexDef result" where
  "decodeIndexMetadataValue bs =
     (let bad = throw SerializationError ''invalid persisted index metadata''
      in case text_decode_fatal bs of
           None \<Rightarrow> bad
         | Some text \<Rightarrow>
             (case json_parse text of
                None \<Rightarrow> bad
              | Some parsed \<Rightarrow>
                  (case normalizeIndexDefinitions (VArray [parsed]) of
                     Inr (d # _) \<Rightarrow> Inr d
                   | _ \<Rightarrow> bad)))"

section \<open>Logical keys of documents\<close>

definition decodeIndexedDocument :: "bytes \<Rightarrow> jsval result" where
  "decodeIndexedDocument bs =
     (case Option.bind (text_decode_fatal bs) json_parse of
        Some v \<Rightarrow> Inr v
      | None \<Rightarrow> throw SerializationError ''indexed values must be valid UTF-8 JSON'')"

text \<open>\<^term>\<open>None\<close> is the \<^verbatim>\<open>MISSING\<close> symbol.\<close>

fun resolve_segments :: "jsval \<Rightarrow> jsstring list \<Rightarrow> jsval option" where
  "resolve_segments current [] = Some current"
| "resolve_segments current (segment # segments) =
     (if \<not> is_object current then None
      else case own_property current segment of
        None \<Rightarrow> None
      | Some v \<Rightarrow> resolve_segments v segments)"

definition resolveKeyPath :: "jsval \<Rightarrow> jsstring \<Rightarrow> jsval option" where
  "resolveKeyPath root keyPath = resolve_segments root (split_on 0x2e keyPath)"

fun scalar_part :: "jsval \<Rightarrow> CompoundKeyPart option" where
  "scalar_part VNull = Some KNull"
| "scalar_part (VString s) = Some (KString s)"
| "scalar_part (VNumber v) = Some (KNumber v)"
| "scalar_part (VBool b) = Some (KBool b)"
| "scalar_part (VBytes bs) = Some (KBytes bs)"
| "scalar_part _ = None"

definition encodeDocumentIndexValue :: "jsval \<Rightarrow> bytes result" where
  "encodeDocumentIndexValue value =
     (case scalar_part value of
        Some p \<Rightarrow>
          (case encodeIndexScalar p of
             Inl (Throw TypeError _) \<Rightarrow> throw SerializationError ''invalid indexed keyPath value''
           | r \<Rightarrow> r)
      | None \<Rightarrow> throw SerializationError
          ''indexed keyPath values must resolve to string, number, boolean, null, or Uint8Array'')"

fun extract_parts :: "jsval \<Rightarrow> jsstring list \<Rightarrow> bytes list \<Rightarrow> bytes list option result" where
  "extract_parts doc [] parts = Inr (Some parts)"
| "extract_parts doc (keyPath # keyPaths) parts =
     (case resolveKeyPath doc keyPath of
        None \<Rightarrow> Inr None
      | Some v \<Rightarrow> bindr (encodeDocumentIndexValue v) (\<lambda>p. extract_parts doc keyPaths (parts @ [p])))"

definition extractLogicalIndexKeyFromDocument :: "NormalizedIndexDef \<Rightarrow> jsval \<Rightarrow> bytes option result" where
  "extractLogicalIndexKeyFromDocument d doc =
     (if def_compound d
      then bindr (extract_parts doc (def_keyPath d) []) (\<lambda>r. Inr (map_option encodeCompoundKeyParts r))
      else case resolveKeyPath doc (hd (def_keyPath d)) of
        None \<Rightarrow> Inr None
      | Some v \<Rightarrow> bindr (encodeDocumentIndexValue v) (\<lambda>key. Inr (Some key)))"

definition extractLogicalIndexKey ::
  "NormalizedIndexDef \<Rightarrow> bytes \<Rightarrow> bytes option result" where
  "extractLogicalIndexKey d valueBytes =
     bindr (decodeIndexedDocument valueBytes) (extractLogicalIndexKeyFromDocument d)"

text \<open>The extractor's closure variables: the decoded document, once there is one.\<close>

definition createIndexKeyExtractor ::
  "bytes \<Rightarrow> jsval option \<Rightarrow> NormalizedIndexDef \<Rightarrow> (jsval option \<times> bytes option) result" where
  "createIndexKeyExtractor valueBytes decoded d =
     (case decoded of
        Some doc \<Rightarrow> bindr (extractLogicalIndexKeyFromDocument d doc) (\<lambda>k. Inr (Some doc, k))
      | None \<Rightarrow> bindr (decodeIndexedDocument valueBytes) (\<lambda>doc.
          bindr (extractLogicalIndexKeyFromDocument d doc) (\<lambda>k. Inr (Some doc, k))))"

section \<open>Identities and order\<close>

lemma indexDefinitionIdentity_inj:
  "indexDefinitionIdentity s n = indexDefinitionIdentity s' n' \<longleftrightarrow> s = s' \<and> n = n'"
  using json_quote_inj [of s "js '','' @ json_quote n @ js '']''" s' "js '','' @ json_quote n' @ js '']''"]
    json_quote_inj [of n "js '']''" n' "js '']''"]
  by (auto simp: indexDefinitionIdentity_def)

definition def_key :: "NormalizedIndexDef \<Rightarrow> jsstring \<times> jsstring" where
  "def_key d = (def_store d, def_name d)"

definition def_less :: "NormalizedIndexDef \<Rightarrow> NormalizedIndexDef \<Rightarrow> bool" where
  "def_less d e \<longleftrightarrow> def_store d < def_store e \<or> def_store d = def_store e \<and> def_name d < def_name e"

lemma def_less_trans: "def_less c d \<Longrightarrow> def_less d e \<Longrightarrow> def_less c e"
  by (auto simp: def_less_def)

lemma compare_le_iff:
  "def_key d \<noteq> def_key e \<Longrightarrow> compareNormalizedIndexDefinitions d e \<le> 0 \<longleftrightarrow> def_less d e"
  by (auto simp: compareNormalizedIndexDefinitions_def compareStringsByCodeUnit_def def_less_def def_key_def Let_def)

lemma def_less_total: "def_key d \<noteq> def_key e \<Longrightarrow> \<not> def_less d e \<Longrightarrow> def_less e d"
  by (auto simp: def_less_def def_key_def)

lemma set_insert_by [simp]: "set (insert_by cmp x ys) = insert x (set ys)"
  by (induction ys) auto

lemma mset_insert_by [simp]: "mset (insert_by cmp x ys) = add_mset x (mset ys)"
  by (induction ys) auto

lemma mset_js_sort [simp]: "mset (js_sort cmp xs) = mset xs"
  by (induction xs) (simp_all add: js_sort_def)

lemma insert_by_sorted:
  "sorted_wrt def_less ys \<Longrightarrow> def_key d \<notin> def_key ` set ys \<Longrightarrow>
     sorted_wrt def_less (insert_by compareNormalizedIndexDefinitions d ys)"
proof (induction ys)
  case Nil
  then show ?case by simp
next
  case (Cons e ys)
  then show ?case
    using compare_le_iff [of d e] def_less_total [of d e] by (auto intro: def_less_trans)
qed

lemma set_js_sort: "set (js_sort cmp xs) = set xs"
  by (metis mset_js_sort set_mset_mset)

lemma js_sort_sorted:
  "distinct (map def_key ds) \<Longrightarrow> sorted_wrt def_less (js_sort compareNormalizedIndexDefinitions ds)"
proof (induction ds)
  case Nil
  then show ?case by (simp add: js_sort_def)
next
  case (Cons d ds)
  then show ?case
    using insert_by_sorted [of "js_sort compareNormalizedIndexDefinitions ds" d] set_js_sort [of _ ds]
    by (simp add: js_sort_def)
qed

lemma sorted_distinct_keys: "sorted_wrt def_less ds \<Longrightarrow> distinct (map def_key ds)"
  by (induction ds) (auto simp: def_less_def def_key_def)

lemma js_sort_id: "sorted_wrt def_less ds \<Longrightarrow> js_sort compareNormalizedIndexDefinitions ds = ds"
proof (induction ds)
  case Nil
  then show ?case by (simp add: js_sort_def)
next
  case (Cons d ds)
  have "insert_by compareNormalizedIndexDefinitions d ds = d # ds"
    using Cons.prems sorted_distinct_keys [OF Cons.prems] compare_le_iff [of d "hd ds"] by (cases ds) auto
  then show ?case using Cons by (simp add: js_sort_def)
qed

section \<open>The loop\<close>

definition valid_path :: "jsstring \<Rightarrow> bool" where
  "valid_path p \<longleftrightarrow> p \<noteq> [] \<and> \<not> starts_with p (js ''.'') \<and> \<not> ends_with p (js ''.'') \<and> \<not> str_includes p (js ''..'')"

definition valid_def :: "NormalizedIndexDef \<Rightarrow> bool" where
  "valid_def d \<longleftrightarrow>
     def_store d \<noteq> [] \<and> def_name d \<noteq> [] \<and> \<not> isInternalStoreName (def_store d) \<and>
     def_keyPath d \<noteq> [] \<and> list_all valid_path (def_keyPath d) \<and> (\<not> def_compound d \<longrightarrow> length (def_keyPath d) = 1) \<and>
     def_internalStore d = makeInternalIndexStoreName (def_store d) (def_name d)"

lemma validateSingleKeyPath_iff: "validateSingleKeyPath p = Inr u \<longleftrightarrow> valid_path p"
  by (auto simp: validateSingleKeyPath_def valid_path_def)

lemma validate_paths: "(\<exists>us. mapr validateSingleKeyPath ps = Inr us) \<longleftrightarrow> list_all valid_path ps"
  by (induction ps) (auto simp: bindr_eq_Inr validateSingleKeyPath_iff)

lemma string_items_Some: "string_items vs = Some ss \<longleftrightarrow> vs = map VString ss"
  by (induction vs arbitrary: ss rule: string_items.induct) auto

lemma normalizeIndexKeyPath_valid:
  "normalizeIndexKeyPath v = Inr (paths, c) \<Longrightarrow>
     paths \<noteq> [] \<and> list_all valid_path paths \<and> (\<not> c \<longrightarrow> length paths = 1)"
  using validate_paths [of paths]
  by (cases v) (auto simp: normalizeIndexKeyPath_def Let_def bindr_eq_Inr validateSingleKeyPath_iff string_items_Some
      split: if_splits option.splits)

lemma non_empty_string_Some: "non_empty_string v = Some s \<longleftrightarrow> v = VString s \<and> s \<noteq> []"
  by (cases v) (auto simp: non_empty_string_def)

lemma normalizeIndexEntry_valid: "normalizeIndexEntry e = Inr d \<Longrightarrow> valid_def d"
  by (auto simp: normalizeIndexEntry_def valid_def_def bindr_eq_Inr assertPublicStoreName_def non_empty_string_Some
      split: if_splits option.splits dest!: normalizeIndexKeyPath_valid)

lemma normalizeIndexKeyPath_public:
  assumes "valid_def d"
  shows "normalizeIndexKeyPath (if def_compound d then VArray (map VString (def_keyPath d)) else VString (hd (def_keyPath d)))
    = Inr (def_keyPath d, def_compound d)"
proof (cases "def_compound d")
  case True
  obtain us where "mapr validateSingleKeyPath (def_keyPath d) = Inr us"
    using assms validate_paths [of "def_keyPath d"] by (auto simp: valid_def_def)
  moreover have "string_items (map VString (def_keyPath d)) = Some (def_keyPath d)"
    by (simp add: string_items_Some)
  ultimately show ?thesis
    using True assms by (simp add: normalizeIndexKeyPath_def valid_def_def)
next
  case False
  then obtain p where "def_keyPath d = [p]" "valid_path p"
    using assms by (auto simp: valid_def_def length_Suc_conv)
  with False show ?thesis
    by (auto simp: normalizeIndexKeyPath_def validateSingleKeyPath_def valid_path_def)
qed

lemma normalizeIndexEntry_public:
  assumes "valid_def d"
  shows "normalizeIndexEntry (toPublicIndexDefinition d) = Inr d"
proof -
  have get: "prop_get (toPublicIndexDefinition d) (js ''store'') = VString (def_store d)"
      "prop_get (toPublicIndexDefinition d) (js ''name'') = VString (def_name d)"
      "prop_get (toPublicIndexDefinition d) (js ''keyPath'') =
        (if def_compound d then VArray (map VString (def_keyPath d)) else VString (hd (def_keyPath d)))"
      "prop_get (toPublicIndexDefinition d) (js ''unique'') = VBool (def_unique d)"
    by (simp_all add: prop_get_def own_property_def toPublicIndexDefinition_def js_def)
  have "is_object (toPublicIndexDefinition d)" "\<not> is_array (toPublicIndexDefinition d)"
    by (simp_all add: toPublicIndexDefinition_def is_object_def is_array_def)
  then show ?thesis
    using assms get normalizeIndexKeyPath_public [OF assms]
    by (auto simp: normalizeIndexEntry_def valid_def_def assertPublicStoreName_def non_empty_string_def optional_flag_def)
qed

text \<open>What the two collections of the loop hold about the definitions accepted so far.\<close>

definition identity_of :: "NormalizedIndexDef \<Rightarrow> jsstring" where
  "identity_of d = indexDefinitionIdentity (def_store d) (def_name d)"

lemma identity_of_inj: "identity_of d = identity_of e \<longleftrightarrow> def_key d = def_key e"
  by (simp add: identity_of_def indexDefinitionIdentity_inj def_key_def)

lemma identity_nonempty [simp]: "identity_of d \<noteq> []"
  by (simp add: identity_of_def indexDefinitionIdentity_def js_def)

definition loop_inv :: "NormalizedIndexDef list \<Rightarrow> jsstring list \<Rightarrow> (jsstring \<rightharpoonup> jsstring) \<Rightarrow> bool" where
  "loop_inv ds ids stores' \<longleftrightarrow>
     set ids = identity_of ` set ds \<and> distinct (map def_key ds) \<and> distinct (map def_internalStore ds) \<and>
     (\<forall>st. stores' st = (case find (\<lambda>d. def_internalStore d = st) ds of None \<Rightarrow> None | Some d \<Rightarrow> Some (identity_of d)))"

lemma find_append: "find P (xs @ ys) = (case find P xs of None \<Rightarrow> find P ys | Some x \<Rightarrow> Some x)"
  by (induction xs) auto

lemma find_image_None: "find (\<lambda>e. f e = a) xs = None \<longleftrightarrow> a \<notin> f ` set xs"
  by (auto simp: find_None_iff)

lemma loop_inv_step:
  assumes inv: "loop_inv ds ids m" and new: "identity_of d \<notin> set ids"
  shows "m (def_internalStore d) = None \<or> m (def_internalStore d) = Some [] \<or> m (def_internalStore d) = Some (identity_of d)
    \<longleftrightarrow> def_internalStore d \<notin> def_internalStore ` set ds"
    and "def_internalStore d \<notin> def_internalStore ` set ds \<Longrightarrow>
      loop_inv (ds @ [d]) (identity_of d # ids) (m(def_internalStore d \<mapsto> identity_of d))"
proof -
  have look: "m st = (case find (\<lambda>d. def_internalStore d = st) ds of None \<Rightarrow> None | Some d \<Rightarrow> Some (identity_of d))" for st
    using inv by (simp add: loop_inv_def)
  have "identity_of d \<notin> identity_of ` set ds" using inv new by (simp add: loop_inv_def)
  then have fresh: "identity_of e \<noteq> identity_of d" if "e \<in> set ds" for e
    using that by (metis imageI)
  show "m (def_internalStore d) = None \<or> m (def_internalStore d) = Some [] \<or> m (def_internalStore d) = Some (identity_of d)
    \<longleftrightarrow> def_internalStore d \<notin> def_internalStore ` set ds"
    using fresh by (auto simp: look find_None_iff find_Some_iff split: option.splits) (metis imageI nth_mem)+
  assume "def_internalStore d \<notin> def_internalStore ` set ds"
  moreover have "def_key d \<notin> def_key ` set ds"
    using fresh identity_of_inj by (metis imageE)
  moreover have "find (\<lambda>e. def_internalStore e = def_internalStore d) ds = None"
    using \<open>def_internalStore d \<notin> def_internalStore ` set ds\<close> by (simp add: find_image_None)
  ultimately show "loop_inv (ds @ [d]) (identity_of d # ids) (m(def_internalStore d \<mapsto> identity_of d))"
    using inv by (auto simp: loop_inv_def find_append split: option.splits)
qed

lemma normalize_loop_step:
  assumes "loop_inv ds ids m"
  shows "normalize_loop ds ids m (e # es) = bindr (normalizeIndexEntry e) (\<lambda>d.
    if identity_of d \<in> set ids then throw InvalidOpenOptionsError ''duplicate index definition''
    else if def_internalStore d \<in> def_internalStore ` set ds
      then throw InvalidOpenOptionsError ''index definitions map to the same internal store''
    else normalize_loop (ds @ [d]) (identity_of d # ids) (m(def_internalStore d \<mapsto> identity_of d)) es)"
proof -
  have "(m (def_internalStore d) \<noteq> None \<and> m (def_internalStore d) \<noteq> Some [] \<and> m (def_internalStore d) \<noteq> Some (identity_of d))
      \<longleftrightarrow> def_internalStore d \<in> def_internalStore ` set ds" if "identity_of d \<notin> set ids" for d
    using loop_inv_step(1) [OF assms that] by argo
  then show ?thesis
    unfolding normalize_loop.simps Let_def identity_of_def [symmetric] by (intro bindr_cong) simp_all
qed

lemma normalize_loop_sound:
  "loop_inv ds ids m \<Longrightarrow> normalize_loop ds ids m es = Inr out \<Longrightarrow>
     \<exists>ds'. mapr normalizeIndexEntry es = Inr ds' \<and> out = ds @ ds' \<and> distinct (map def_key out) \<and> distinct (map def_internalStore out)"
proof (induction es arbitrary: ds ids m)
  case Nil
  then show ?case by (simp add: loop_inv_def)
next
  case (Cons e es)
  then obtain d where d: "normalizeIndexEntry e = Inr d" "identity_of d \<notin> set ids"
      "def_internalStore d \<notin> def_internalStore ` set ds"
      "normalize_loop (ds @ [d]) (identity_of d # ids) (m(def_internalStore d \<mapsto> identity_of d)) es = Inr out"
    by (auto simp only: normalize_loop_step bindr_eq_Inr split: if_splits)
  show ?case
    using Cons.IH [OF loop_inv_step(2) [OF Cons.prems(1) d(2,3)] d(4)] d(1) by auto
qed

lemma normalize_loop_complete:
  "loop_inv ds ids m \<Longrightarrow> mapr normalizeIndexEntry es = Inr ds' \<Longrightarrow>
     distinct (map def_key (ds @ ds')) \<Longrightarrow> distinct (map def_internalStore (ds @ ds')) \<Longrightarrow>
     normalize_loop ds ids m es = Inr (ds @ ds')"
proof (induction es arbitrary: ds ids m ds')
  case Nil
  then show ?case by simp
next
  case (Cons e es)
  then obtain d ds'' where d: "normalizeIndexEntry e = Inr d" "mapr normalizeIndexEntry es = Inr ds''" "ds' = d # ds''"
    by (auto simp: bindr_eq_Inr)
  have "def_key d \<notin> def_key ` set ds" and new: "def_internalStore d \<notin> def_internalStore ` set ds"
    using Cons.prems(3,4) d(3) by auto
  then have fresh: "identity_of d \<notin> set ids"
    using Cons.prems(1) by (auto simp: loop_inv_def identity_of_inj)
  have "distinct (map def_key ((ds @ [d]) @ ds''))" "distinct (map def_internalStore ((ds @ [d]) @ ds''))"
    using Cons.prems(3,4) d(3) by auto
  from Cons.IH [OF loop_inv_step(2) [OF Cons.prems(1) fresh new] d(2) this] show ?case
    unfolding normalize_loop_step [OF Cons.prems(1)] using d fresh new by (simp add: fun_upd_def)
qed

lemma loop_inv_empty: "loop_inv [] [] Map.empty"
  by (simp add: loop_inv_def)

section \<open>Logical keys\<close>

text \<open>The scalars a document has at the key paths of a definition, if it has them all.\<close>

definition document_parts :: "NormalizedIndexDef \<Rightarrow> jsval \<Rightarrow> CompoundKeyPart list option" where
  "document_parts d doc =
     those (map (\<lambda>path. Option.bind (resolveKeyPath doc path) scalar_part) (def_keyPath d))"

lemma encodeDocumentIndexValue_Inr:
  "encodeDocumentIndexValue v = Inr bs \<longleftrightarrow> (\<exists>p. scalar_part v = Some p \<and> encodeCompoundKeyPart p = Inr bs)"
  by (auto simp: encodeDocumentIndexValue_def encodeIndexScalar_def
      split: option.splits sum.splits error.splits error_class.splits)

lemma extract_parts_Some:
  "extract_parts doc paths acc = Inr (Some out) \<Longrightarrow>
     \<exists>ps bs. those (map (\<lambda>path. Option.bind (resolveKeyPath doc path) scalar_part) paths) = Some ps \<and>
       mapr encodeCompoundKeyPart ps = Inr bs \<and> out = acc @ bs"
proof (induction paths arbitrary: acc)
  case Nil
  then show ?case by simp
next
  case (Cons path paths)
  then obtain v p b where "resolveKeyPath doc path = Some v" "scalar_part v = Some p" "encodeCompoundKeyPart p = Inr b"
      "extract_parts doc paths (acc @ [b]) = Inr (Some out)"
    by (auto simp: bindr_eq_Inr encodeDocumentIndexValue_Inr split: option.splits)
  with Cons.IH [of "acc @ [b]"] show ?case by (fastforce split: option.splits)
qed

lemma extractLogicalIndexKeyFromDocument_Some:
  assumes "valid_def d" and "extractLogicalIndexKeyFromDocument d doc = Inr (Some k)"
  obtains ps bs where "document_parts d doc = Some ps" "mapr encodeCompoundKeyPart ps = Inr bs"
    "k = (if def_compound d then encodeCompoundKeyParts bs else hd bs)" "\<not> def_compound d \<Longrightarrow> length bs = 1"
proof (cases "def_compound d")
  case True
  then show thesis
    using assms that extract_parts_Some [of doc "def_keyPath d" "[]"]
    by (fastforce simp: extractLogicalIndexKeyFromDocument_def bindr_eq_Inr document_parts_def)
next
  case False
  then obtain path where path: "def_keyPath d = [path]"
    using assms(1) by (auto simp: valid_def_def length_Suc_conv)
  then obtain v p where "resolveKeyPath doc path = Some v" "scalar_part v = Some p" "encodeCompoundKeyPart p = Inr k"
    using False assms(2)
    by (auto simp: extractLogicalIndexKeyFromDocument_def bindr_eq_Inr encodeDocumentIndexValue_Inr split: option.splits)
  then show thesis
    using that [of "[p]" "[k]"] False path by (simp add: document_parts_def)
qed

lemma normalizeIndexDefinitions_cases:
  assumes "normalizeIndexDefinitions (VArray entries) = Inr defs"
  obtains ds where "mapr normalizeIndexEntry entries = Inr ds" "mset defs = mset ds" "sorted_wrt def_less defs"
    "distinct (map def_internalStore defs)" "list_all valid_def defs"
proof -
  obtain ds where ds: "mapr normalizeIndexEntry entries = Inr ds" "distinct (map def_key ds)" "distinct (map def_internalStore ds)"
      "defs = js_sort compareNormalizedIndexDefinitions ds"
    using assms normalize_loop_sound [OF loop_inv_empty, of entries]
    by (fastforce simp: normalizeIndexDefinitions_def bindr_eq_Inr)
  moreover have "mset (map def_internalStore defs) = mset (map def_internalStore ds)"
    using ds(4) by simp
  then have "distinct (map def_internalStore defs)"
    using ds(3) by (metis mset_eq_imp_distinct_iff)
  moreover have "list_all valid_def ds"
    using ds(1) normalizeIndexEntry_valid by (fastforce simp: mapr_Inr_iff list_all2_conv_all_nth list_all_length)
  ultimately show thesis
    using js_sort_sorted [of ds] that [of ds] by (simp add: set_js_sort list_all_iff)
qed

definition sample_entry :: jsval where
  "sample_entry = VObject
     [(js ''store'', VString (js ''s'')), (js ''name'', VString (js ''n'')), (js ''keyPath'', VString (js ''a''))]"

lemma sample_entry_normalizes: "\<exists>d. normalizeIndexDefinitions (VArray [sample_entry]) = Inr [d]"
  by (simp add: sample_entry_def normalizeIndexDefinitions_def normalizeIndexEntry_def is_object_def is_array_def prop_get_def
      own_property_def js_def non_empty_string_def optional_flag_def normalizeIndexKeyPath_def
      validateSingleKeyPath_def starts_with_def ends_with_def assertPublicStoreName_def isInternalStoreName_def
      INTERNAL_STORE_PREFIX_def js_sort_def Let_def)

section \<open>Metadata is read back\<close>

lemma toPublicIndexDefinition_json: "json_ok (toPublicIndexDefinition d)"
  by (simp add: toPublicIndexDefinition_def obj_of_def obj_put_def goes_before_def array_index_def is_digit_def js_def list_all_iff)

lemma json_index_definition_text: "json_index_definition d = ok_text (toPublicIndexDefinition d)"
proof -
  have "ok_text (VArray (map VString ss)) = json_strings ss" for ss
    by (simp add: ok_text_simps list_all_iff json_strings_def js_def comp_def)
  then show ?thesis
    using toPublicIndexDefinition_json [of d] unfolding toPublicIndexDefinition_def
    by (subst ok_text_simps(6)) (auto simp: member_def ok_text_simps(2,3) json_index_definition_def js_def)
qed

lemma decode_public_metadata:
  assumes "valid_def d"
  shows "decodeIndexMetadataValue (encodeIndexMetadataValue d) = Inr d"
proof -
  let ?v = "toPublicIndexDefinition d"
  have "jsonDecode (text_encode (ok_text ?v)) = Inr ?v" by (rule jsonDecode_encoded [OF toPublicIndexDefinition_json])
  then obtain s where s: "text_decode_fatal (text_encode (ok_text ?v)) = Some s" "json_parse s = Some ?v"
    by (auto simp: jsonDecode_def split: option.splits)
  have "normalizeIndexDefinitions (VArray [?v]) = Inr [d]"
    using normalizeIndexEntry_public [OF assms] by (simp add: normalizeIndexDefinitions_def js_sort_def)
  then show ?thesis
    using s by (simp add: decodeIndexMetadataValue_def encodeIndexMetadataValue_def json_index_definition_text)
qed

section \<open>Properties\<close>

text \<open>
  C8. Normalized index definitions are strictly ordered by store and name, all satisfy the rules
  for names and key paths, are the given entries in another order, and no two of them share an
  internal store.
\<close>

theorem normalizeIndexDefinitions_sound:
  assumes "normalizeIndexDefinitions (VArray entries) = Inr defs"
  shows "sorted_wrt def_less defs \<and> list_all valid_def defs \<and> distinct (map def_internalStore defs) \<and>
    (\<exists>ds. mapr normalizeIndexEntry entries = Inr ds \<and> mset defs = mset ds)"
  using assms by (blast elim: normalizeIndexDefinitions_cases)

theorem normalizeIndexDefinitions_sound_witness:
  "\<exists>d. normalizeIndexDefinitions (VArray [sample_entry]) = Inr [d] \<and> valid_def d"
proof -
  obtain d where d: "normalizeIndexDefinitions (VArray [sample_entry]) = Inr [d]"
    using sample_entry_normalizes by blast
  show ?thesis using normalizeIndexDefinitions_sound [OF d] d by auto
qed

text \<open>
  Definitions survive publication: normalizing the public form of normalized definitions gives
  the same definitions in the same order. This is the path of definitions through the metadata store
  and through messages to a worker.
\<close>

theorem normalize_public_definitions:
  assumes "normalizeIndexDefinitions v = Inr defs"
  shows "normalizeIndexDefinitions (toPublicIndexDefinitions defs) = Inr defs"
proof (cases v)
  case (VArray entries)
  with assms have "normalizeIndexDefinitions (VArray entries) = Inr defs" by simp
  then have sorted: "sorted_wrt def_less defs" and dist: "distinct (map def_internalStore defs)" and valid: "list_all valid_def defs"
    by (blast elim: normalizeIndexDefinitions_cases)+
  have "mapr normalizeIndexEntry (map toPublicIndexDefinition defs) = Inr defs"
    using valid by (simp add: mapr_Inr_iff list_all2_conv_all_nth list_all_length normalizeIndexEntry_public)
  then show ?thesis
    using normalize_loop_complete [OF loop_inv_empty, of _ defs] sorted dist sorted_distinct_keys
    by (simp add: normalizeIndexDefinitions_def toPublicIndexDefinitions_def js_sort_id)
qed (use assms in \<open>auto simp: normalizeIndexDefinitions_def toPublicIndexDefinitions_def js_sort_def\<close>)

theorem normalize_public_definitions_witness:
  "\<exists>d. normalizeIndexDefinitions (toPublicIndexDefinitions [d]) = Inr [d]"
proof -
  obtain d where d: "normalizeIndexDefinitions (VArray [sample_entry]) = Inr [d]"
    using sample_entry_normalizes by blast
  show ?thesis using normalize_public_definitions [OF d] by blast
qed

text \<open>
  C9. The logical keys of an index order documents by the values at its key paths: numbers by value,
  strings by code points, key path after key path for a compound index.
\<close>

theorem logical_key_order:
  assumes "valid_def d" and "extractLogicalIndexKeyFromDocument d doc = Inr (Some k)"
    and "extractLogicalIndexKeyFromDocument d doc' = Inr (Some k')"
  shows "\<exists>ps qs. document_parts d doc = Some ps \<and> document_parts d doc' = Some qs \<and> (k < k' \<longleftrightarrow> parts_less ps qs)"
proof -
  obtain ps bs where ps: "document_parts d doc = Some ps" "mapr encodeCompoundKeyPart ps = Inr bs"
      "k = (if def_compound d then encodeCompoundKeyParts bs else hd bs)" "\<not> def_compound d \<Longrightarrow> length bs = 1"
    using extractLogicalIndexKeyFromDocument_Some [OF assms(1,2)] by blast
  obtain qs cs where qs: "document_parts d doc' = Some qs" "mapr encodeCompoundKeyPart qs = Inr cs"
      "k' = (if def_compound d then encodeCompoundKeyParts cs else hd cs)" "\<not> def_compound d \<Longrightarrow> length cs = 1"
    using extractLogicalIndexKeyFromDocument_Some [OF assms(1,3)] by blast
  have "k < k' \<longleftrightarrow> bs < cs"
    using ps qs by (auto simp: encodeCompoundKeyParts_less length_Suc_conv)
  also have "\<dots> \<longleftrightarrow> parts_less ps qs"
    by (rule parts_less_encoded) (fact ps(2) qs(2))+
  finally show ?thesis using ps(1) qs(1) by blast
qed

theorem logical_key_order_witness:
  "\<exists>d doc doc' k k'. extractLogicalIndexKeyFromDocument d doc = Inr (Some k) \<and>
     extractLogicalIndexKeyFromDocument d doc' = Inr (Some k') \<and> k < k'"
proof -
  define d where "d = \<lparr>def_store = js ''s'', def_name = js ''n'', def_keyPath = [js ''a''], def_compound = False,
    def_unique = False, def_internalStore = makeInternalIndexStoreName (js ''s'') (js ''n'')\<rparr>"
  define doc where "doc = (\<lambda>v. VObject [(js ''a'', v)])"
  have v: "valid_def d"
    by (simp add: d_def valid_def_def valid_path_def starts_with_def ends_with_def isInternalStoreName_def
        INTERNAL_STORE_PREFIX_def js_def)
  have r: "resolveKeyPath (doc x) (js ''a'') = Some x" for x
    by (simp add: resolveKeyPath_def doc_def js_def own_property_def is_object_def)
  have k: "extractLogicalIndexKeyFromDocument d (doc VNull) = Inr (Some [0x10])"
      "extractLogicalIndexKeyFromDocument d (doc (VBool True)) = Inr (Some [0x21])"
    by (simp_all add: extractLogicalIndexKeyFromDocument_def d_def r encodeDocumentIndexValue_def
        encodeIndexScalar_def encodeCompoundKeyPart_def)
  have "([0x10] :: bytes) < [0x21]"
    using logical_key_order [OF v k] by (auto simp: document_parts_def d_def r)
  with k show ?thesis by blast
qed

text \<open>
  The identity strings of index definitions are unambiguous: two definitions share an identity
  exactly when they have the same store and the same name.
\<close>

theorem indexDefinitionIdentity_iff:
  "indexDefinitionIdentity s n = indexDefinitionIdentity s' n' \<longleftrightarrow> s = s' \<and> n = n'"
  by (rule indexDefinitionIdentity_inj)

text \<open>
  The metadata record of an index definition is read back: encoding a normalized definition for the
  metadata store and decoding the record gives the same definition.
\<close>

theorem index_metadata_round_trip:
  assumes "normalizeIndexDefinitions (VArray entries) = Inr defs" and "d \<in> set defs"
  shows "decodeIndexMetadataValue (encodeIndexMetadataValue d) = Inr d"
proof -
  have "list_all valid_def defs" using assms(1) by (blast elim: normalizeIndexDefinitions_cases)
  then show ?thesis using assms(2) by (simp add: decode_public_metadata list_all_iff)
qed

theorem index_metadata_round_trip_witness:
  "\<exists>d. normalizeIndexDefinitions (VArray [sample_entry]) = Inr [d] \<and>
    decodeIndexMetadataValue (encodeIndexMetadataValue d) = Inr d"
proof -
  obtain d where d: "normalizeIndexDefinitions (VArray [sample_entry]) = Inr [d]"
    using sample_entry_normalizes by blast
  then show ?thesis using index_metadata_round_trip [OF d] by simp
qed

end
