(* ===== verification/Records.thy ===== *)
theory Records
  imports Codec JsJson
begin

text \<open>
  Typed records, \<^verbatim>\<open>packages/sdk/src/records.ts\<close>: codecs for keys, the check that a value is JSON, ranges
  over typed keys, and record stores that translate typed operations to operations of the underlying
  database or transaction. The database operations are parameters (a record of effectful functions).
\<close>

section \<open>Key codecs\<close>

record 'k RecordCodec =
  encode :: "'k \<Rightarrow> bytes result"
  decode :: "bytes \<Rightarrow> 'k result"

definition sameBytes :: "bytes \<Rightarrow> bytes \<Rightarrow> bool" where
  "sameBytes left right \<longleftrightarrow> length left = length right \<and> list_all (\<lambda>i. left ! i = right ! i) [0..<length left]"

definition decode_number :: "bytes \<Rightarrow> f64" where
  "decode_number bs =
     (let ordered = (of_nat (be_val bs) :: 64 word);
          bits = (if ordered AND push_bit 63 1 \<noteq> 0 then ordered XOR push_bit 63 1 else ordered XOR (- 1))
      in bits)"

definition decodeScalarKey :: "bytes \<Rightarrow> CompoundKeyPart result" where
  "decodeScalarKey bs =
     (if bs = [] then throw TypeError ''invalid scalar key encoding''
      else
        let tag = bs ! 0;
            value =
              (if tag = 0x10 then Inr KNull
               else if tag = 0x20 then Inr (KBool False)
               else if tag = 0x21 then Inr (KBool True)
               else if tag = 0x30 then
                 (if length bs \<noteq> 9 then throw TypeError ''invalid number key encoding''
                  else Inr (KNumber (decode_number (take 8 (drop 1 bs)))))
               else if tag = 0x40 then
                 (case text_decode_fatal (drop 1 bs) of
                    None \<Rightarrow> throw TypeError ''The encoded data was not valid for encoding utf-8''
                  | Some s \<Rightarrow> Inr (KString s))
               else if tag = 0x50 then Inr (KBytes (drop 1 bs))
               else throw TypeError ''invalid scalar key type'')
        in bindr value (\<lambda>v. bindr (encodeIndexScalar v) (\<lambda>again.
             if \<not> sameBytes again bs then throw TypeError ''noncanonical scalar key encoding'' else Inr v)))"

definition scalarKeyCodec :: "CompoundKeyPart RecordCodec" where
  "scalarKeyCodec = \<lparr>encode = encodeIndexScalar, decode = decodeScalarKey\<rparr>"

definition check_key :: "string \<Rightarrow> (CompoundKeyPart \<Rightarrow> bool) \<Rightarrow> CompoundKeyPart \<Rightarrow> CompoundKeyPart result" where
  "check_key type accepts value =
     (if \<not> accepts value then throw TypeError (''key must be '' @ type) else Inr value)"

definition typedKeyCodec :: "string \<Rightarrow> (CompoundKeyPart \<Rightarrow> bool) \<Rightarrow> CompoundKeyPart RecordCodec" where
  "typedKeyCodec type accepts =
     \<lparr>encode = (\<lambda>value. bindr (check_key type accepts value) encodeIndexScalar),
      decode = (\<lambda>bs. bindr (decodeScalarKey bs) (check_key type accepts))\<rparr>"

datatype key_type = TString | TNumber | TBoolean | TNull | TBytes

fun accepts_type :: "key_type \<Rightarrow> CompoundKeyPart \<Rightarrow> bool" where
  "accepts_type TString (KString _) = True"
| "accepts_type TNumber (KNumber _) = True"
| "accepts_type TBoolean (KBool _) = True"
| "accepts_type TNull KNull = True"
| "accepts_type TBytes (KBytes _) = True"
| "accepts_type _ _ = False"

text \<open>The members of the \<^verbatim>\<open>keyCodecs\<close> object.\<close>

fun keyCodecs :: "key_type \<Rightarrow> CompoundKeyPart RecordCodec" where
  "keyCodecs TString = typedKeyCodec ''a string'' (accepts_type TString)"
| "keyCodecs TNumber = typedKeyCodec ''a finite number'' (accepts_type TNumber)"
| "keyCodecs TBoolean = typedKeyCodec ''a boolean'' (accepts_type TBoolean)"
| "keyCodecs TNull = typedKeyCodec ''null'' (accepts_type TNull)"
| "keyCodecs TBytes = typedKeyCodec ''Uint8Array'' (accepts_type TBytes)"

fun map_codecs :: "('c \<Rightarrow> 'a \<Rightarrow> 'b result) \<Rightarrow> 'c list \<Rightarrow> 'a list \<Rightarrow> 'b list result" where
  "map_codecs f (c # cs) (x # xs) = bindr (f c x) (\<lambda>y. bindr (map_codecs f cs xs) (\<lambda>ys. Inr (y # ys)))"
| "map_codecs f _ _ = Inr []"

definition compoundKeyCodec :: "CompoundKeyPart RecordCodec list \<Rightarrow> CompoundKeyPart list RecordCodec" where
  "compoundKeyCodec parts =
     \<lparr>encode = (\<lambda>value.
        if length value \<noteq> length parts then throw TypeError ''compound key must contain parts''
        else bindr (map_codecs encode parts value) (\<lambda>bs. Inr (encodeCompoundKeyParts bs))),
      decode = (\<lambda>bs. bindr (splitCompoundKey bs) (\<lambda>encoded.
        if length encoded \<noteq> length parts then throw TypeError ''compound key must contain parts''
        else map_codecs decode parts encoded))\<rparr>"

section \<open>The JSON domain\<close>

text \<open>
  The explicit stack of \<^verbatim>\<open>assertJsonValue\<close>; its top is the head of the list, and \<open>Leave\<close> entries mark
  the end of an object. Values are trees here, so the set of active objects, which the code
  uses to find cycles, never contains the object that is visited.
\<close>

datatype pending = Visit jsval | Leave

definition json_children :: "jsval \<Rightarrow> jsval list" where
  "json_children v = (case v of VArray xs \<Rightarrow> xs | VObject ps \<Rightarrow> map snd ps | _ \<Rightarrow> [])"

definition json_number :: "f64 \<Rightarrow> bool" where
  "json_number n \<longleftrightarrow> f64_is_finite n \<and> \<not> f64_is_negative_zero n"

lemma size_snd [termination_simp]:
  "p \<in> set ps \<Longrightarrow> size (snd p) < Suc (size_list (size_prod (\<lambda>x. 0) size) ps)"
  by (auto intro!: less_SucI size_list_estimation simp: size_prod_simp)

fun json_weight :: "jsval \<Rightarrow> nat" where
  "json_weight (VArray xs) = 3 + sum_list (map json_weight xs)"
| "json_weight (VObject ps) = 3 + sum_list (map (\<lambda>p. json_weight (snd p)) ps)"
| "json_weight _ = 1"

fun pending_weight :: "pending \<Rightarrow> nat" where
  "pending_weight (Visit v) = json_weight v"
| "pending_weight Leave = 1"

text \<open>One turn of the loop is the visit of the top entry; children are pushed in order, so the last
  one is visited first.\<close>

function json_loop :: "pending list \<Rightarrow> unit result" where
  "json_loop [] = Inr ()"
| "json_loop (Leave # rest) = json_loop rest"
| "json_loop (Visit current # rest) =
     (let outside = throw TypeError ''record must contain JSON values without cycles, nonfinite numbers or negative zero'';
          push = map Visit (rev (json_children current)) @ Leave # rest
      in case current of
           VNull \<Rightarrow> json_loop rest
         | VString _ \<Rightarrow> json_loop rest
         | VBool _ \<Rightarrow> json_loop rest
         | VNumber n \<Rightarrow> if json_number n then json_loop rest else outside
         | VBytes _ \<Rightarrow> throw TypeError ''record objects must be plain objects or arrays''
         | VArray _ \<Rightarrow> json_loop push
         | VObject _ \<Rightarrow> json_loop push
         | _ \<Rightarrow> outside)"
  by pat_completeness auto
termination
  by (relation "measure (\<lambda>ps. sum_list (map pending_weight ps))")
    (auto simp: json_children_def comp_def sum_list_rev simp flip: rev_map)

definition assertJsonValue :: "jsval \<Rightarrow> unit result" where
  "assertJsonValue value = json_loop [Visit value]"

text \<open>\<^verbatim>\<open>jsonRecordCodec(validate)\<close>.\<close>

definition check_json :: "(jsval \<Rightarrow> bool) option \<Rightarrow> jsval \<Rightarrow> jsval result" where
  "check_json validate value =
     bindr (assertJsonValue value) (\<lambda>_.
       case validate of
         None \<Rightarrow> Inr value
       | Some accepts \<Rightarrow>
           if \<not> accepts value then throw TypeError ''record does not match its schema''
           else bindr (assertJsonValue value) (\<lambda>_. Inr value))"

definition jsonRecordCodec :: "(jsval \<Rightarrow> bool) option \<Rightarrow> jsval RecordCodec" where
  "jsonRecordCodec validate =
     \<lparr>encode = (\<lambda>value. bindr (check_json validate value) jsonEncode),
      decode = (\<lambda>bs. bindr (jsonDecode bs) (check_json validate))\<rparr>"

section \<open>Typed ranges\<close>

text \<open>A bound that is an own property of the range is encoded, even when it is \<^verbatim>\<open>undefined\<close>: the
  codec rejects it then.\<close>

record 'k RecordRange =
  r_gt :: "'k option"
  r_gte :: "'k option"
  r_lt :: "'k option"
  r_lte :: "'k option"
  r_reverse :: "bool option"
  r_limit :: "f64 option"

definition encode_bound :: "'k RecordCodec \<Rightarrow> 'k option \<Rightarrow> bytes option result" where
  "encode_bound codec bound =
     (case bound of None \<Rightarrow> Inr None | Some k \<Rightarrow> bindr (encode codec k) (\<lambda>b. Inr (Some b)))"

definition encodeRange :: "'k RecordCodec \<Rightarrow> 'k RecordRange \<Rightarrow> range result" where
  "encodeRange codec r =
     bindr (encode_bound codec (r_gt r)) (\<lambda>gt'.
     bindr (encode_bound codec (r_gte r)) (\<lambda>gte'.
     bindr (encode_bound codec (r_lt r)) (\<lambda>lt'.
     bindr (encode_bound codec (r_lte r)) (\<lambda>lte'.
       Inr \<lparr>gt = gt', gte = gte', lt = lt', lte = lte', reverse = r_reverse r, limit = r_limit r\<rparr>))))"

section \<open>Transactions\<close>

datatype TxMode = Readonly | Readwrite

text \<open>The calls a record transaction makes on its database.\<close>

record ('s, 't) tx_source =
  tx_begin :: "TxMode \<Rightarrow> ('s, 't) eff"
  tx_commit :: "'t \<Rightarrow> ('s, unit) eff"
  tx_rollback :: "'t \<Rightarrow> ('s, unit) eff"

definition withRecordTransaction ::
  "('s, 't, 'z) tx_source_scheme \<Rightarrow> TxMode \<Rightarrow> ('t \<Rightarrow> ('s, 'r) eff) \<Rightarrow> ('s, 'r) eff" where
  "withRecordTransaction db mode action =
     bindm (tx_begin db mode) (\<lambda>transaction s.
       case action transaction s of
         (Inl error, s1) \<Rightarrow>
           (case tx_rollback db transaction s1 of
              (Inl (Throw TransactionClosedError _), s2) \<Rightarrow> (Inl error, s2)
            | (Inl _, s2) \<Rightarrow> (throw AggregateError ''record transaction and rollback failed'', s2)
            | (Inr _, s2) \<Rightarrow> (Inl error, s2))
       | (Inr result, s1) \<Rightarrow>
           bindm (if mode = Readwrite then tx_commit db transaction else tx_rollback db transaction)
             (\<lambda>_. ret result) s1)"

section \<open>Record stores\<close>

text \<open>
  The operations of \<^verbatim>\<open>DB\<close> and \<^verbatim>\<open>Transaction\<close> that record stores call. A handle is the database
  itself or one of its transactions; \<^verbatim>\<open>'begin' in source\<close> tells them apart.
\<close>

datatype 't handle = OnDb | InTx 't

datatype BatchOp = PutOp bytes bytes | DeleteOp bytes

record ('s, 't) db_ops = "('s, 't) tx_source" +
  op_get :: "'t handle \<Rightarrow> jsstring \<Rightarrow> bytes \<Rightarrow> ('s, bytes option) eff"
  op_getMany :: "'t handle \<Rightarrow> jsstring \<Rightarrow> bytes list \<Rightarrow> ('s, bytes option list) eff"
  op_has :: "'t handle \<Rightarrow> jsstring \<Rightarrow> bytes \<Rightarrow> ('s, bool) eff"
  op_put :: "'t handle \<Rightarrow> jsstring \<Rightarrow> bytes \<Rightarrow> bytes \<Rightarrow> f64 option \<Rightarrow> ('s, unit) eff"
  op_delete :: "'t handle \<Rightarrow> jsstring \<Rightarrow> bytes \<Rightarrow> ('s, bool) eff"
  op_scan :: "'t handle \<Rightarrow> jsstring \<Rightarrow> range \<Rightarrow> ('s, (bytes \<times> bytes) list) eff"
  op_clearStore :: "'t handle \<Rightarrow> jsstring \<Rightarrow> ('s, unit) eff"
  op_createStore :: "'t handle \<Rightarrow> jsstring \<Rightarrow> ('s, unit) eff"
  op_putMany :: "'t \<Rightarrow> jsstring \<Rightarrow> (bytes \<times> bytes) list \<Rightarrow> f64 option \<Rightarrow> ('s, unit) eff"
  op_deleteMany :: "'t \<Rightarrow> jsstring \<Rightarrow> bytes list \<Rightarrow> ('s, unit) eff"
  op_applyBatch :: "'t \<Rightarrow> jsstring \<Rightarrow> BatchOp list \<Rightarrow> ('s, unit) eff"
  op_getByIndex :: "'t \<Rightarrow> jsstring \<Rightarrow> jsstring \<Rightarrow> bytes \<Rightarrow> ('s, bytes option) eff"
  op_scanByIndex :: "'t \<Rightarrow> jsstring \<Rightarrow> jsstring \<Rightarrow> range \<Rightarrow> ('s, (bytes \<times> bytes) list) eff"

definition useTransaction ::
  "('s, 't, 'z) tx_source_scheme \<Rightarrow> 't handle \<Rightarrow> TxMode \<Rightarrow> ('t \<Rightarrow> ('s, 'r) eff) \<Rightarrow> ('s, 'r) eff" where
  "useTransaction db source mode action =
     (case source of OnDb \<Rightarrow> withRecordTransaction db mode action | InTx transaction \<Rightarrow> action transaction)"

record ('k, 'v) RecordCodecs =
  key_codec :: "'k RecordCodec"
  value_codec :: "'v RecordCodec"

record ('t, 'k, 'v) RecordStore =
  rs_source :: "'t handle"
  rs_name :: jsstring
  rs_codecs :: "('k, 'v) RecordCodecs"

definition decode_optional :: "'v RecordCodec \<Rightarrow> bytes option \<Rightarrow> 'v option result" where
  "decode_optional codec value =
     (case value of None \<Rightarrow> Inr None | Some bs \<Rightarrow> bindr (decode codec bs) (\<lambda>v. Inr (Some v)))"

definition decode_row :: "('k, 'v) RecordCodecs \<Rightarrow> bytes \<times> bytes \<Rightarrow> ('k \<times> 'v) result" where
  "decode_row codecs = (\<lambda>(key, value).
     bindr (decode (key_codec codecs) key) (\<lambda>k. bindr (decode (value_codec codecs) value) (\<lambda>v. Inr (k, v))))"

definition encode_entry :: "('k, 'v) RecordCodecs \<Rightarrow> 'k \<times> 'v \<Rightarrow> (bytes \<times> bytes) result" where
  "encode_entry codecs = (\<lambda>(key, value).
     bindr (encode (key_codec codecs) key) (\<lambda>k. bindr (encode (value_codec codecs) value) (\<lambda>v. Inr (k, v))))"

definition rs_get :: "('s, 't) db_ops \<Rightarrow> ('t, 'k, 'v) RecordStore \<Rightarrow> 'k \<Rightarrow> ('s, 'v option) eff" where
  "rs_get db st key =
     bindm (lift_result (encode (key_codec (rs_codecs st)) key)) (\<lambda>k.
     bindm (op_get db (rs_source st) (rs_name st) k) (\<lambda>value.
       lift_result (decode_optional (value_codec (rs_codecs st)) value)))"

definition rs_getMany :: "('s, 't) db_ops \<Rightarrow> ('t, 'k, 'v) RecordStore \<Rightarrow> 'k list \<Rightarrow> ('s, 'v option list) eff" where
  "rs_getMany db st keys =
     bindm (lift_result (mapr (encode (key_codec (rs_codecs st))) keys)) (\<lambda>ks.
     bindm (op_getMany db (rs_source st) (rs_name st) ks) (\<lambda>values.
       lift_result (mapr (decode_optional (value_codec (rs_codecs st))) values)))"

definition rs_has :: "('s, 't) db_ops \<Rightarrow> ('t, 'k, 'v) RecordStore \<Rightarrow> 'k \<Rightarrow> ('s, bool) eff" where
  "rs_has db st key =
     bindm (lift_result (encode (key_codec (rs_codecs st)) key)) (op_has db (rs_source st) (rs_name st))"

definition rs_put :: "('s, 't) db_ops \<Rightarrow> ('t, 'k, 'v) RecordStore \<Rightarrow> 'k \<Rightarrow> 'v \<Rightarrow> f64 option \<Rightarrow> ('s, unit) eff" where
  "rs_put db st key value ttl =
     bindm (lift_result (encode_entry (rs_codecs st) (key, value))) (\<lambda>(k, v).
       op_put db (rs_source st) (rs_name st) k v ttl)"

definition rs_putMany :: "('s, 't) db_ops \<Rightarrow> ('t, 'k, 'v) RecordStore \<Rightarrow> ('k \<times> 'v) list \<Rightarrow> f64 option \<Rightarrow> ('s, unit) eff" where
  "rs_putMany db st entries ttl =
     bindm (lift_result (mapr (encode_entry (rs_codecs st)) entries)) (\<lambda>encoded.
       useTransaction db (rs_source st) Readwrite (\<lambda>transaction.
         op_putMany db transaction (rs_name st) encoded ttl))"

definition rs_delete :: "('s, 't) db_ops \<Rightarrow> ('t, 'k, 'v) RecordStore \<Rightarrow> 'k \<Rightarrow> ('s, bool) eff" where
  "rs_delete db st key =
     bindm (lift_result (encode (key_codec (rs_codecs st)) key)) (op_delete db (rs_source st) (rs_name st))"

definition rs_deleteMany :: "('s, 't) db_ops \<Rightarrow> ('t, 'k, 'v) RecordStore \<Rightarrow> 'k list \<Rightarrow> ('s, unit) eff" where
  "rs_deleteMany db st keys =
     bindm (lift_result (mapr (encode (key_codec (rs_codecs st))) keys)) (\<lambda>encoded.
       useTransaction db (rs_source st) Readwrite (\<lambda>transaction.
         op_deleteMany db transaction (rs_name st) encoded))"

text \<open>\<open>RBad\<close> is an operation whose \<^verbatim>\<open>kind\<close> is neither of the two.\<close>

datatype ('k, 'v) RecordBatchOp = RPut 'k 'v | RDelete 'k | RBad

fun encode_batch_op :: "('k, 'v) RecordCodecs \<Rightarrow> ('k, 'v) RecordBatchOp \<Rightarrow> BatchOp result" where
  "encode_batch_op codecs (RPut key value) =
     bindr (encode_entry codecs (key, value)) (\<lambda>(k, v). Inr (PutOp k v))"
| "encode_batch_op codecs (RDelete key) = bindr (encode (key_codec codecs) key) (\<lambda>k. Inr (DeleteOp k))"
| "encode_batch_op codecs RBad = throw TypeError ''record batch operation must be put or delete''"

definition rs_applyBatch :: "('s, 't) db_ops \<Rightarrow> ('t, 'k, 'v) RecordStore \<Rightarrow> ('k, 'v) RecordBatchOp list \<Rightarrow> ('s, unit) eff" where
  "rs_applyBatch db st operations =
     bindm (lift_result (mapr (encode_batch_op (rs_codecs st)) operations)) (\<lambda>encoded.
       useTransaction db (rs_source st) Readwrite (\<lambda>transaction.
         op_applyBatch db transaction (rs_name st) encoded))"

definition rs_scan :: "('s, 't) db_ops \<Rightarrow> ('t, 'k, 'v) RecordStore \<Rightarrow> 'k RecordRange \<Rightarrow> ('s, ('k \<times> 'v) list) eff" where
  "rs_scan db st r =
     bindm (lift_result (encodeRange (key_codec (rs_codecs st)) r)) (\<lambda>encoded.
     bindm (op_scan db (rs_source st) (rs_name st) encoded) (\<lambda>rows.
       lift_result (mapr (decode_row (rs_codecs st)) rows)))"

definition rs_clear :: "('s, 't) db_ops \<Rightarrow> ('t, 'k, 'v) RecordStore \<Rightarrow> ('s, unit) eff" where
  "rs_clear db st = op_clearStore db (rs_source st) (rs_name st)"

definition rs_transaction ::
  "('s, 't) db_ops \<Rightarrow> ('t, 'k, 'v) RecordStore \<Rightarrow> TxMode \<Rightarrow> (('t, 'k, 'v) RecordStore \<Rightarrow> 't \<Rightarrow> ('s, 'r) eff) \<Rightarrow> ('s, 'r) eff" where
  "rs_transaction db st mode action =
     (case rs_source st of
        InTx _ \<Rightarrow> raise (Throw TypeError ''record store already belongs to a transaction'')
      | OnDb \<Rightarrow> withRecordTransaction db mode (\<lambda>transaction. action (st\<lparr>rs_source := InTx transaction\<rparr>) transaction))"

definition openRecordStore :: "'t handle \<Rightarrow> jsstring \<Rightarrow> ('k, 'v) RecordCodecs \<Rightarrow> ('t, 'k, 'v) RecordStore" where
  "openRecordStore source name codecs = \<lparr>rs_source = source, rs_name = name, rs_codecs = codecs\<rparr>"

definition createRecordStore ::
  "('s, 't) db_ops \<Rightarrow> 't handle \<Rightarrow> jsstring \<Rightarrow> ('k, 'v) RecordCodecs \<Rightarrow> ('s, ('t, 'k, 'v) RecordStore) eff" where
  "createRecordStore db source name codecs =
     bindm (op_createStore db source name) (\<lambda>_. ret (openRecordStore source name codecs))"

text \<open>A record index is a record store with the name and the key codec of one of its indexes.\<close>

record ('t, 'i, 'k, 'v) RecordIndex = "('t, 'k, 'v) RecordStore" +
  ri_index :: jsstring
  ri_key :: "'i RecordCodec"

definition rs_index :: "('t, 'k, 'v) RecordStore \<Rightarrow> jsstring \<Rightarrow> 'i RecordCodec \<Rightarrow> ('t, 'i, 'k, 'v) RecordIndex" where
  "rs_index st name key = RecordStore.extend st \<lparr>ri_index = name, ri_key = key\<rparr>"

definition ri_get :: "('s, 't) db_ops \<Rightarrow> ('t, 'i, 'k, 'v) RecordIndex \<Rightarrow> 'i \<Rightarrow> ('s, 'v option) eff" where
  "ri_get db ix key =
     bindm (lift_result (encode (ri_key ix) key)) (\<lambda>encoded.
       useTransaction db (rs_source ix) Readonly (\<lambda>transaction.
         bindm (op_getByIndex db transaction (rs_name ix) (ri_index ix) encoded) (\<lambda>value.
           lift_result (decode_optional (value_codec (rs_codecs ix)) value))))"

definition ri_scan :: "('s, 't) db_ops \<Rightarrow> ('t, 'i, 'k, 'v) RecordIndex \<Rightarrow> 'i RecordRange \<Rightarrow> ('s, ('k \<times> 'v) list) eff" where
  "ri_scan db ix r =
     bindm (lift_result (encodeRange (ri_key ix) r)) (\<lambda>encoded.
       useTransaction db (rs_source ix) Readonly (\<lambda>transaction.
         bindm (op_scanByIndex db transaction (rs_name ix) (ri_index ix) encoded) (\<lambda>rows.
           lift_result (mapr (decode_row (rs_codecs ix)) rows))))"

section \<open>Round trips of key codecs\<close>

lemma sameBytes_iff [simp]: "sameBytes left right \<longleftrightarrow> left = right"
  by (auto simp: sameBytes_def list_all_iff list_eq_iff_nth_eq [of left right])

text \<open>Negative zero is stored as zero.\<close>

fun normal_part :: "CompoundKeyPart \<Rightarrow> CompoundKeyPart" where
  "normal_part (KNumber v) = KNumber (if f64_is_negative_zero v then 0 else v)"
| "normal_part p = p"

fun bom_key :: "CompoundKeyPart \<Rightarrow> bool" where
  "bom_key (KString s) = starts_with_bom s"
| "bom_key _ = False"

lemma decode_number_sortable:
  "decode_number (be_bytes 8 (sortable_bits v)) = (if f64_is_negative_zero v then 0 else v)"
proof -
  define x :: f64 where "x = (if f64_is_negative_zero v then 0 else v)"
  define w :: f64 where "w = of_nat (sortable_bits v)"
  have word: "(of_nat (be_val (be_bytes 8 (sortable_bits v))) :: f64) = w"
    using sortable_bits_less [of v] by (simp add: be_val_be_bytes w_def)
  have "unat w = sortable_bits v"
    unfolding w_def unat_of_nat using sortable_bits_less [of v] by simp
  also have bits: "sortable_bits v = (if f64_negative x then 2 ^ 63 - 1 - f64_mag x else 2 ^ 63 + f64_mag x)"
    by (auto simp: x_def sortable_bits_def f64_negative_zero_iff f64_negative_def f64_mag_def)
  also have "\<dots> = unat (if f64_negative x then NOT x else x XOR push_bit 63 1)"
    using unat_sortable [of x] unfolding sign_bit by simp
  finally have w: "w = (if f64_negative x then NOT x else x XOR push_bit 63 1)"
    by (simp only: word_unat_eq_iff)
  have "f64_negative w \<longleftrightarrow> \<not> f64_negative x"
    using f64_mag_less [of x] bits \<open>unat w = sortable_bits v\<close> by (auto simp: f64_negative_def [of w])
  then have "(if f64_negative w then w XOR push_bit 63 1 else w XOR - 1) = x"
    using w by (simp add: xor.assoc)
  then show ?thesis
    unfolding decode_number_def Let_def word sign_bit x_def .
qed

lemma encode_normal_part: "encodeIndexScalar (normal_part p) = encodeIndexScalar p"
proof (cases p)
  case (KNumber v)
  have "sortable_bits (0 :: f64) = sortable_bits v \<and> f64_is_finite (0 :: f64) \<and> f64_is_finite v" if "f64_is_negative_zero v"
    using that by (auto simp: sortable_bits_def f64_negative_zero_iff f64_mag_def f64_negative_def f64_is_finite_def)
  then show ?thesis
    using KNumber by (auto simp: encodeIndexScalar_def encodeCompoundKeyPart_def encodeSortableNumber_eq)
qed simp_all

lemma decodeScalarKey_canonical: "decodeScalarKey bs = Inr p \<Longrightarrow> encodeIndexScalar p = Inr bs"
  by (auto simp: decodeScalarKey_def Let_def bindr_eq_Inr split: if_splits)

lemma decodeScalarKey_encoded:
  assumes "encodeIndexScalar p = Inr bs"
  shows "decodeScalarKey bs =
    (if bom_key p then throw TypeError ''noncanonical scalar key encoding'' else Inr (normal_part p))"
proof (rule encodeCompoundKeyPart_cases [OF assms [unfolded encodeIndexScalar_def]])
  fix v assume "p = KNumber v" "f64_is_finite v" "bs = 0x30 # be_bytes 8 (sortable_bits v)"
  then show ?thesis
    using assms encode_normal_part [of p] by (simp add: decodeScalarKey_def Let_def decode_number_sortable)
next
  fix s assume s: "p = KString s" "well_formed s" "bs = 0x40 # utf8 (code_points s)"
  let ?t = "if starts_with_bom s then tl s else s"
  have "well_formed ?t"
    using s(2) by (cases s) (auto simp: starts_with_bom_def well_formed_def code_points_after_bom)
  moreover have "utf8 (code_points ?t) = utf8 (code_points s) \<longleftrightarrow> \<not> starts_with_bom s"
    by (cases s) (auto simp: utf8_code_points_eq starts_with_bom_def)
  ultimately show ?thesis
    using s by (simp add: decodeScalarKey_def Let_def text_decode_fatal_utf8 encodeIndexScalar_def
        encodeCompoundKeyPart_def encodeStringKey_eq)
qed (simp_all add: decodeScalarKey_def Let_def encodeIndexScalar_def encodeCompoundKeyPart_def overlay_def)

text \<open>
  What a record store relies on: keys of the domain are read back as they were written, and a byte
  string that decodes is the encoding of its key.
\<close>

locale record_codec =
  fixes codec :: "'k RecordCodec" and dom :: "'k \<Rightarrow> bool"
  assumes round: "dom x \<Longrightarrow> \<exists>bs. encode codec x = Inr bs \<and> decode codec bs = Inr x"
    and canonical: "decode codec bs = Inr x \<Longrightarrow> encode codec x = Inr bs"
begin

lemma encode_inj: "dom x \<Longrightarrow> encode codec x = encode codec y \<Longrightarrow> dom y \<Longrightarrow> x = y"
  using round [of x] round [of y] by force

lemma decode_encode: "dom x \<Longrightarrow> encode codec x = Inr bs \<Longrightarrow> decode codec bs = Inr x"
  using round [of x] by auto

lemma decode_inj: "decode codec bs = Inr x \<Longrightarrow> decode codec bs' = Inr x \<Longrightarrow> bs = bs'"
  using canonical [of bs x] canonical [of bs' x] by simp

end

definition key_dom :: "CompoundKeyPart \<Rightarrow> bool" where
  "key_dom p \<longleftrightarrow> (\<exists>bs. encodeIndexScalar p = Inr bs) \<and> normal_part p = p \<and> \<not> bom_key p"

lemma key_dom_round: "key_dom p \<Longrightarrow> \<exists>bs. encodeIndexScalar p = Inr bs \<and> decodeScalarKey bs = Inr p"
  using decodeScalarKey_encoded [of p] by (auto simp: key_dom_def)

interpretation scalar_key: record_codec scalarKeyCodec key_dom
  by unfold_locales (simp_all add: scalarKeyCodec_def key_dom_round decodeScalarKey_canonical)

lemma typedKeyCodec_record_codec:
  "record_codec (typedKeyCodec type acc) (\<lambda>p. key_dom p \<and> acc p)"
proof
  fix p assume "key_dom p \<and> acc p"
  then show "\<exists>bs. encode (typedKeyCodec type acc) p = Inr bs \<and> decode (typedKeyCodec type acc) bs = Inr p"
    using key_dom_round [of p] by (auto simp: typedKeyCodec_def check_key_def)
next
  fix bs p assume "decode (typedKeyCodec type acc) bs = Inr p"
  then show "encode (typedKeyCodec type acc) p = Inr bs"
    using decodeScalarKey_canonical [of bs p]
    by (auto simp: typedKeyCodec_def check_key_def bindr_eq_Inr split: if_splits)
qed

interpretation typed_key: record_codec "keyCodecs t" "\<lambda>p. key_dom p \<and> accepts_type t p"
  by (cases t) (simp_all add: typedKeyCodec_record_codec)

lemma map_codecs_round:
  assumes "\<And>c x. P c x \<Longrightarrow> \<exists>y. f c x = Inr y \<and> g c y = Inr x" and "list_all2 P cs xs"
  shows "\<exists>ys. map_codecs f cs xs = Inr ys \<and> map_codecs g cs ys = Inr xs \<and> length ys = length cs"
  using assms(2)
proof (induction rule: list_all2_induct)
  case Nil
  then show ?case by simp
next
  case (Cons c cs x xs)
  then obtain y ys where "f c x = Inr y" "g c y = Inr x" "map_codecs f cs xs = Inr ys" "map_codecs g cs ys = Inr xs" "length ys = length cs"
    using assms(1) by blast
  then show ?case by simp
qed

lemma map_codecs_inverse:
  assumes "\<And>c x y. c \<in> set cs \<Longrightarrow> g c y = Inr x \<Longrightarrow> f c x = Inr y"
  shows "length ys = length cs \<Longrightarrow> map_codecs g cs ys = Inr xs \<Longrightarrow> map_codecs f cs xs = Inr ys \<and> length xs = length cs"
  using assms
proof (induction cs arbitrary: ys xs)
  case Nil
  then show ?case by simp
next
  case (Cons c cs)
  then show ?case by (cases ys) (auto simp: bindr_eq_Inr)
qed

lemma splitCompoundKey_parts: "splitCompoundKey bs = Inr ps \<longleftrightarrow> bs = encodeCompoundKeyParts ps"
  using split_loop_iff [of "[]" bs "[]" ps] by (auto simp: splitCompoundKey_def encodeCompoundKeyParts_eq)

lemma map_codecs_map: "map_codecs f (map h is) xs = map_codecs (\<lambda>i. f (h i)) is xs"
proof (induction "is" arbitrary: xs)
  case Nil
  then show ?case by simp
next
  case (Cons i "is")
  then show ?case by (cases xs) simp_all
qed

lemma compoundKeyCodec_record_codec:
  assumes "\<And>i. record_codec (c i) (P i)"
  shows "record_codec (compoundKeyCodec (map c is)) (list_all2 P is)"
proof
  fix xs assume xs: "list_all2 P is xs"
  then obtain ys where "map_codecs (\<lambda>i. encode (c i)) is xs = Inr ys" "map_codecs (\<lambda>i. decode (c i)) is ys = Inr xs"
      "length ys = length is"
    using map_codecs_round [of P "\<lambda>i. encode (c i)" "\<lambda>i. decode (c i)" "is" xs] record_codec.round [OF assms] by blast
  then show "\<exists>bs. encode (compoundKeyCodec (map c is)) xs = Inr bs \<and> decode (compoundKeyCodec (map c is)) bs = Inr xs"
    using list_all2_lengthD [OF xs] splitCompoundKey_parts [of "encodeCompoundKeyParts ys" ys]
    by (simp add: compoundKeyCodec_def map_codecs_map)
next
  fix bs xs assume "decode (compoundKeyCodec (map c is)) bs = Inr xs"
  then obtain ys where "splitCompoundKey bs = Inr ys" "length ys = length is" "map_codecs (\<lambda>i. decode (c i)) is ys = Inr xs"
    by (auto simp: compoundKeyCodec_def bindr_eq_Inr map_codecs_map split: if_splits)
  then show "encode (compoundKeyCodec (map c is)) xs = Inr bs"
    using map_codecs_inverse [of "is" "\<lambda>i. decode (c i)" "\<lambda>i. encode (c i)" ys xs] record_codec.canonical [OF assms]
    by (simp add: compoundKeyCodec_def splitCompoundKey_parts map_codecs_map)
qed

definition typed_dom :: "key_type \<Rightarrow> CompoundKeyPart \<Rightarrow> bool" where
  "typed_dom t p \<longleftrightarrow> key_dom p \<and> accepts_type t p"

interpretation compound_key: record_codec "compoundKeyCodec (map keyCodecs ts)" "list_all2 typed_dom ts"
  unfolding typed_dom_def by (rule compoundKeyCodec_record_codec) (rule typed_key.record_codec_axioms)

section \<open>JSON values\<close>

fun is_json :: "jsval \<Rightarrow> bool" where
  "is_json VNull = True"
| "is_json (VString _) = True"
| "is_json (VBool _) = True"
| "is_json (VNumber n) = json_number n"
| "is_json (VArray xs) = list_all is_json xs"
| "is_json (VObject ps) = list_all (\<lambda>p. is_json (snd p)) ps"
| "is_json _ = False"

fun pending_json :: "pending \<Rightarrow> bool" where
  "pending_json (Visit v) = is_json v"
| "pending_json Leave = True"

lemma json_loop_iff: "json_loop ps = Inr () \<longleftrightarrow> list_all pending_json ps"
proof (induction ps rule: json_loop.induct)
  case (3 current rest)
  then show ?case
    by (cases current) (simp_all add: json_children_def list.pred_map comp_def conj_commute)
qed simp_all

section \<open>Typed bounds\<close>

text \<open>The range a caller means: bounds compared in the order of typed keys.\<close>

definition in_typed_range :: "CompoundKeyPart \<Rightarrow> CompoundKeyPart RecordRange \<Rightarrow> bool" where
  "in_typed_range p r \<longleftrightarrow>
     (case r_gt r of None \<Rightarrow> True | Some b \<Rightarrow> part_less b p) \<and>
     (case r_gte r of None \<Rightarrow> True | Some b \<Rightarrow> \<not> part_less p b) \<and>
     (case r_lt r of None \<Rightarrow> True | Some b \<Rightarrow> part_less p b) \<and>
     (case r_lte r of None \<Rightarrow> True | Some b \<Rightarrow> \<not> part_less b p)"

lemma encode_bound_Inr:
  "encode_bound scalarKeyCodec b = Inr e \<longleftrightarrow>
     (b = None \<and> e = None \<or> (\<exists>p k. b = Some p \<and> e = Some k \<and> encodeCompoundKeyPart p = Inr k))"
  by (cases b) (auto simp: encode_bound_def scalarKeyCodec_def encodeIndexScalar_def bindr_eq_Inr)

section \<open>Properties\<close>

text \<open>
  C10. Scalar keys are read back as they were written, negative zero as zero, and only encodings
  of keys are accepted. The one exception is a string that starts with a byte order mark: it has an
  encoding, but the decoder, whose text decoder drops the mark, rejects it.
\<close>

theorem decodeScalarKey_round_trip:
  "(encodeIndexScalar p = Inr bs \<longrightarrow>
      decodeScalarKey bs =
        (if bom_key p then throw TypeError ''noncanonical scalar key encoding'' else Inr (normal_part p))) \<and>
   (decodeScalarKey bs = Inr p \<longrightarrow> encodeIndexScalar p = Inr bs)"
  using decodeScalarKey_encoded [of p bs] decodeScalarKey_canonical [of bs p] by blast

theorem decodeScalarKey_round_trip_witness:
  "decodeScalarKey [0x50, 1, 2] = Inr (KBytes [1, 2])"
proof -
  have "encodeIndexScalar (KBytes [1, 2]) = Inr [0x50, 1, 2]"
    by (simp add: encodeIndexScalar_def encodeCompoundKeyPart_def overlay_def)
  then show ?thesis using decodeScalarKey_round_trip [of "KBytes [1, 2]" "[0x50, 1, 2]"] by simp
qed

lemma bom_key_rejected:
  "\<exists>bs. encode scalarKeyCodec (KString [0xfeff, 0x61]) = Inr bs \<and>
     decode scalarKeyCodec bs = throw TypeError ''noncanonical scalar key encoding''"
proof -
  have "well_formed [0xfeff, 0x61]"
    by (simp add: well_formed_def is_high_def is_surrogate_def)
  then obtain bs where "encodeIndexScalar (KString [0xfeff, 0x61]) = Inr bs"
    by (simp add: encodeIndexScalar_def encodeCompoundKeyPart_def encodeStringKey_eq)
  then show ?thesis
    using decodeScalarKey_encoded [of "KString [0xfeff, 0x61]" bs]
    by (auto simp: scalarKeyCodec_def starts_with_bom_def)
qed

text \<open>
  A compound key of typed parts that are all readable on their own is read back part by part,
  and a byte string that decodes under a list of part types is the encoding of what it decodes to.
\<close>

theorem compoundKeyCodec_round_trip:
  "(list_all2 typed_dom ts ps \<longrightarrow>
      (\<exists>bs. encode (compoundKeyCodec (map keyCodecs ts)) ps = Inr bs \<and>
        decode (compoundKeyCodec (map keyCodecs ts)) bs = Inr ps)) \<and>
   (decode (compoundKeyCodec (map keyCodecs ts)) bs = Inr ps \<longrightarrow>
      encode (compoundKeyCodec (map keyCodecs ts)) ps = Inr bs)"
  using compound_key.round [of ts ps] compound_key.canonical [of ts bs ps] by blast

theorem compoundKeyCodec_round_trip_witness:
  "\<exists>bs. decode (compoundKeyCodec (map keyCodecs [TBoolean, TNull])) bs = Inr [KBool True, KNull]"
proof -
  have "list_all2 typed_dom [TBoolean, TNull] [KBool True, KNull]"
    by (simp add: typed_dom_def key_dom_def encodeIndexScalar_def encodeCompoundKeyPart_def)
  then show ?thesis
    using compoundKeyCodec_round_trip [of "[TBoolean, TNull]" "[KBool True, KNull]"] by blast
qed

text \<open>
  C11. A typed range selects exactly the stored keys whose typed values lie within its typed bounds.
\<close>

theorem encodeRange_exact:
  assumes "encodeRange scalarKeyCodec r = Inr rg" and "encode scalarKeyCodec p = Inr k"
  shows "in_range k rg \<longleftrightarrow> in_typed_range p r"
proof -
  have k: "encodeCompoundKeyPart p = Inr k"
    using assms(2) by (simp add: scalarKeyCodec_def encodeIndexScalar_def)
  obtain a b c d where "encode_bound scalarKeyCodec (r_gt r) = Inr a" "encode_bound scalarKeyCodec (r_gte r) = Inr b"
      "encode_bound scalarKeyCodec (r_lt r) = Inr c" "encode_bound scalarKeyCodec (r_lte r) = Inr d"
      "rg = \<lparr>gt = a, gte = b, lt = c, lte = d, reverse = r_reverse r, limit = r_limit r\<rparr>"
    using assms(1) by (auto simp: encodeRange_def bindr_eq_Inr)
  then show ?thesis
    using encodeCompoundKeyPart_less [OF k] encodeCompoundKeyPart_less [OF _ k]
    by (auto simp: encode_bound_Inr in_range_def in_typed_range_def not_less [symmetric])
qed

theorem encodeRange_exact_witness:
  "\<exists>rg. encodeRange scalarKeyCodec
      \<lparr>r_gt = Some (KBool False), r_gte = None, r_lt = None, r_lte = None, r_reverse = None, r_limit = None\<rparr> = Inr rg \<and>
    in_range [0x21] rg"
proof -
  let ?r = "\<lparr>r_gt = Some (KBool False), r_gte = None, r_lt = None, r_lte = None, r_reverse = None, r_limit = None\<rparr>"
  obtain rg where rg: "encodeRange scalarKeyCodec ?r = Inr rg"
    by (simp add: encodeRange_def encode_bound_def scalarKeyCodec_def encodeIndexScalar_def encodeCompoundKeyPart_def)
  have k: "encode scalarKeyCodec (KBool True) = Inr [0x21]"
    by (simp add: scalarKeyCodec_def encodeIndexScalar_def encodeCompoundKeyPart_def)
  show ?thesis
    using encodeRange_exact [OF rg k] rg by (simp add: in_typed_range_def)
qed


text \<open>
  C13. A record transaction leaves no transaction open, whatever its action does and whichever of
  begin, action, commit and rollback fail: it closes the transaction it began and no other one. The
  hypotheses are the contract of the database: begin opens a fresh transaction or none, completion
  methods close their transaction even when they fail, and the action opens and closes no other one.
\<close>

theorem withRecordTransaction_closes:
  assumes begin_opens: "\<And>s. case tx_begin db mode s of (Inr t, s') \<Rightarrow> opens s' = insert t (opens s) \<and> t \<notin> opens s
                         | (Inl e, s') \<Rightarrow> opens s' = opens s"
    and commit_closes: "\<And>t s. opens (snd (tx_commit db t s)) = opens s - {t}"
    and rollback_closes: "\<And>t s. opens (snd (tx_rollback db t s)) = opens s - {t}"
    and action_keeps: "\<And>t s. opens (snd (action t s)) - {t} = opens s - {t}"
  shows "opens (snd (withRecordTransaction db mode action s)) = opens s"
proof (cases "tx_begin db mode s")
  case (Pair r s1)
  show ?thesis
  proof (cases r)
    case (Inl e)
    then show ?thesis
      using begin_opens [of s] Pair by (simp add: withRecordTransaction_def eff_simps)
  next
    case (Inr t)
    then have t: "opens s1 = insert t (opens s)" "t \<notin> opens s"
      using begin_opens [of s] Pair by simp_all
    obtain ar s2 where a: "action t s1 = (ar, s2)" by fastforce
    have s2: "opens s2 - {t} = opens s" using action_keeps [of t s1] a t by auto
    obtain cr s3 rr s4 where ends: "tx_commit db t s2 = (cr, s3)" "tx_rollback db t s2 = (rr, s4)" by fastforce
    then have finish: "opens s3 = opens s" "opens s4 = opens s"
      using commit_closes [of t s2] rollback_closes [of t s2] s2 by auto
    have "snd (withRecordTransaction db mode action s) \<in> {s3, s4}"
      unfolding withRecordTransaction_def using Pair Inr a ends
      by (cases ar; cases cr; cases rr) (simp_all add: eff_simps split: error.split error_class.split)
    then show ?thesis using finish by auto
  qed
qed

theorem withRecordTransaction_closes_witness:
  "set (snd (withRecordTransaction
     \<lparr>tx_begin = (\<lambda>_ s. (Inr (Suc (sum_list s)), Suc (sum_list s) # s)),
      tx_commit = (\<lambda>t s. (Inr (), filter (\<lambda>u. u \<noteq> t) s)),
      tx_rollback = (\<lambda>t s. (throw StorageError ''lost'', filter (\<lambda>u. u \<noteq> t) s))\<rparr>
     Readwrite (\<lambda>t s. (throw TypeError ''no'' :: nat result, s)) [4, 7])) = {4, 7 :: nat}"
proof -
  have fresh: "Suc (sum_list s) \<notin> set s" for s :: "nat list"
    using member_le_sum_list [of "Suc (sum_list s)" s] by auto
  show ?thesis
    by (subst withRecordTransaction_closes [where opens = set]) (auto simp: fresh)
qed

end
