(* ===== verification/Snappy.thy ===== *)
theory Snappy
  imports JsNumber
begin

text \<open>
  The Snappy block format, \<^verbatim>\<open>packages/sdk/src/snappy.ts\<close>. The encoder finds matches with a hash table that
  is kept between calls, and appends literals and copies to an output buffer it sizes beforehand; the
  decoder checks every length and offset and expands overlapping copies by doubling.

  The output of the encoder is modelled as the list of the bytes written, and a write past the buffer
  as an exception; the lemmas show that the buffer is always large enough, that decoding an encoded
  block returns the input, and that the contents the table was left with do not matter.
\<close>

section \<open>Encoding\<close>

abbreviation (input) BLOCK_SIZE :: nat where "BLOCK_SIZE \<equiv> 65536"
abbreviation (input) HASH_SIZE :: nat where "HASH_SIZE \<equiv> 16384"
abbreviation (input) MAX_LENGTH :: nat where "MAX_LENGTH \<equiv> 0xffffffff"

abbreviation corrupt :: "string \<Rightarrow> 'a result" where
  "corrupt message \<equiv> throw CorruptionError (''invalid Snappy block: '' @ message)"

definition byte_at :: "bytes \<Rightarrow> nat \<Rightarrow> 32 word" where
  "byte_at bs i = (case read_at bs i of None \<Rightarrow> 0 | Some b \<Rightarrow> ucast b)"

definition word32 :: "bytes \<Rightarrow> nat \<Rightarrow> 32 word" where
  "word32 bs offset =
     byte_at bs offset OR push_bit 8 (byte_at bs (offset + 1)) OR push_bit 16 (byte_at bs (offset + 2)) OR
     push_bit 24 (byte_at bs (offset + 3))"

definition hash_slot :: "32 word \<Rightarrow> nat \<Rightarrow> nat" where
  "hash_slot value bits = unat (drop_bit (32 - bits) (value * 0x9e3779b1))"

text \<open>The length prefix.\<close>

fun length_prefix :: "nat \<Rightarrow> bytes" where
  "length_prefix remainingLength =
     (if 128 \<le> remainingLength
      then of_nat ((remainingLength AND 0x7f) OR 0x80) # length_prefix (remainingLength div 128)
      else [of_nat remainingLength])"

declare length_prefix.simps [simp del]

definition literal_length_bytes :: "nat \<Rightarrow> nat" where
  "literal_length_bytes len = (if len \<le> 0xff then 1 else if len \<le> 0xffff then 2 else if len \<le> 0xffffff then 3 else 4)"

text \<open>The bytes that \<^verbatim>\<open>literal(start, end)\<close> and \<^verbatim>\<open>copy(offset, length)\<close> append.\<close>

definition literal :: "bytes \<Rightarrow> nat \<Rightarrow> nat \<Rightarrow> bytes" where
  "literal input start end =
     (if start = end then []
      else let len = end - start - 1
           in (if len < 60 then [of_nat (push_bit 2 len)]
               else of_nat (push_bit 2 (59 + literal_length_bytes len)) # le_bytes (literal_length_bytes len) len)
              @ take (end - start) (drop start input))"

function copy :: "nat \<Rightarrow> nat \<Rightarrow> bytes" where
  "copy offset len =
     (if 0 < len then
        let count = min len 64 in
        (if 4 \<le> count \<and> count \<le> 11 \<and> offset < 2048
         then [of_nat (1 OR push_bit 2 (count - 4) OR push_bit 5 (drop_bit 8 offset)), of_nat (offset AND 0xff)]
         else [of_nat (2 OR push_bit 2 (count - 1)), of_nat (offset AND 0xff), of_nat (drop_bit 8 offset)])
        @ copy offset (len - count)
      else [])"
  by pat_completeness auto
termination
  by (relation "measure snd") auto

declare copy.simps [simp del]

text \<open>The table size: the first power of two from \<open>2\<^sup>8\<close> on that reaches the input or the whole table.\<close>

function hash_bits_from :: "nat \<Rightarrow> nat \<Rightarrow> nat" where
  "hash_bits_from n hashBits = (if 2 ^ hashBits < min n HASH_SIZE then hash_bits_from n (hashBits + 1) else hashBits)"
  by pat_completeness auto
termination
proof (relation "measure (\<lambda>(n, b). HASH_SIZE - b)", goal_cases)
  case (2 n b)
  have "b < 2 ^ b" by (rule less_exp)
  then have "b < HASH_SIZE" using 2 by linarith
  with 2 show ?case by simp
qed simp

declare hash_bits_from.simps [simp del]

function extend_match :: "bytes \<Rightarrow> nat \<Rightarrow> nat \<Rightarrow> nat \<Rightarrow> nat \<Rightarrow> nat" where
  "extend_match input candidate matchStart blockEnd position =
     (if position < blockEnd \<and> read_at input position = read_at input (candidate + position - matchStart)
      then extend_match input candidate matchStart blockEnd (position + 1)
      else position)"
  by pat_completeness auto
termination
  by (relation "measure (\<lambda>(_, _, _, blockEnd, position). blockEnd - position)") auto

declare extend_match.simps [simp del]

lemma extend_match_ge: "position \<le> extend_match input candidate matchStart blockEnd position"
proof (induction input candidate matchStart blockEnd position rule: extend_match.induct)
  case (1 input candidate matchStart blockEnd position)
  then show ?case using extend_match.simps [of input candidate matchStart blockEnd position] by auto
qed

text \<open>The loop over one block; it returns the start of the pending literal, the table and the bytes written.\<close>

function match_loop ::
  "bytes \<Rightarrow> nat \<Rightarrow> nat \<Rightarrow> nat \<Rightarrow> nat \<Rightarrow> nat \<Rightarrow> nat \<Rightarrow> nat list \<Rightarrow> bytes \<Rightarrow> nat \<times> nat list \<times> bytes" where
  "match_loop input blockStart blockEnd hashBits position literalStart misses table out =
     (if position + 4 \<le> blockEnd then
        let current = word32 input position;
            slot = hash_slot current hashBits;
            previous = table ! slot;
            table1 = table[slot := position - blockStart + 1];
            candidate = blockStart + previous - 1
        in if previous = 0 \<or> current \<noteq> word32 input candidate
           then match_loop input blockStart blockEnd hashBits (position + 1 + min ((misses + 1) div 32) 64)
                  literalStart (misses + 1) table1 out
           else
             let position' = extend_match input candidate position blockEnd (position + 4);
                 out' = out @ literal input literalStart position @ copy (position - candidate) (position' - position);
                 table2 = (if position' + 4 \<le> blockEnd
                           then table1[hash_slot (word32 input (position' - 1)) hashBits := position' - blockStart]
                           else table1)
             in match_loop input blockStart blockEnd hashBits position' position' 0 table2 out'
      else (literalStart, table, out))"
  by pat_completeness auto
termination
proof (relation "measure (\<lambda>(_, _, blockEnd, _, position, _). blockEnd - position)", goal_cases)
  case (3 input blockStart blockEnd hashBits position literalStart misses table out current slot prev table1 candidate position')
  then show ?case using extend_match_ge [of "position + 4" input candidate position blockEnd] by simp
qed auto

declare match_loop.simps [simp del]

function block_loop :: "bytes \<Rightarrow> nat \<Rightarrow> nat \<Rightarrow> nat list \<Rightarrow> bytes \<Rightarrow> nat list \<times> bytes" where
  "block_loop input hashBits blockStart table out =
     (if blockStart < length input then
        let blockEnd = min (blockStart + BLOCK_SIZE) (length input);
            table0 = replicate (2 ^ hashBits) 0 @ drop (2 ^ hashBits) table;
            (literalStart, table', out') = match_loop input blockStart blockEnd hashBits blockStart blockStart 0 table0 out
        in block_loop input hashBits (blockStart + BLOCK_SIZE) table' (out' @ literal input literalStart blockEnd)
      else (table, out))"
  by pat_completeness auto
termination
  by (relation "measure (\<lambda>(input, _, blockStart, _). length input - blockStart)") auto

declare block_loop.simps [simp del]

definition output_size :: "nat \<Rightarrow> nat" where
  "output_size n = n + (n + 5) div 6 + 32"

text \<open>The encoder takes the contents of \<^verbatim>\<open>MATCH_TABLE\<close> and returns its new contents with the block.\<close>

definition encodeSnappy :: "nat list \<Rightarrow> bytes \<Rightarrow> (bytes \<times> nat list) result" where
  "encodeSnappy table input =
     (if MAX_LENGTH < length input then throw RangeError ''Snappy input exceeds the 32-bit length limit''
      else
        let hashBits = hash_bits_from (length input) 8;
            (table', out) = block_loop input hashBits 0 table (length_prefix (length input))
        in if output_size (length input) < length out then throw RangeError ''offset is out of bounds''
           else Inr (out, table'))"

section \<open>Decoding\<close>

text \<open>The length prefix of the rest of the input from \<^verbatim>\<open>read\<close> on.\<close>

function read_length :: "bytes \<Rightarrow> nat \<Rightarrow> nat \<Rightarrow> (nat \<times> bytes) result" where
  "read_length rest index len =
     (if rest = [] \<or> index = 5 then corrupt ''truncated or invalid length''
      else let b = unat (hd rest) in
        if index = 4 \<and> 0x0f < b then corrupt ''length exceeds 32 bits''
        else let len' = len + (b AND 0x7f) * 2 ^ (index * 7) in
          if b < 128 then Inr (len', tl rest) else read_length (tl rest) (index + 1) len')"
  by pat_completeness auto
termination
  by (relation "measure (\<lambda>(rest, _, _). length rest)") auto

declare read_length.simps [simp del]

text \<open>
  \<^verbatim>\<open>copyWithin\<close> in doubling steps. A positive offset was checked before the loop; without it the first
  step would copy nothing.
\<close>

definition copy_within :: "bytes \<Rightarrow> nat \<Rightarrow> nat \<Rightarrow> nat \<Rightarrow> bytes" where
  "copy_within out target start stop = overlay out target (take (stop - start) (drop start out))"

function expand_copy :: "bytes \<Rightarrow> nat \<Rightarrow> nat \<Rightarrow> nat \<Rightarrow> nat \<Rightarrow> bytes" where
  "expand_copy out written offset count copied =
     (if copied < count \<and> 0 < offset then
        let chunk = min (offset + copied) (count - copied)
        in expand_copy (copy_within out (written + copied) (written - offset) (written - offset + chunk))
             written offset count (copied + chunk)
      else out)"
  by pat_completeness auto
termination
  by (relation "measure (\<lambda>(_, _, _, count, copied). count - copied)") auto

declare expand_copy.simps [simp del]

function decode_loop :: "nat \<Rightarrow> bytes \<Rightarrow> bytes \<Rightarrow> nat \<Rightarrow> (bytes \<times> nat) result" where
  "decode_loop len [] output written = Inr (output, written)"
| "decode_loop len (b # rest) output written =
     (let tag = unat b; kind = tag AND 3 in
      if kind = 0 then
        (let count0 = drop_bit 2 tag in
         if 60 \<le> count0 \<and> length rest < count0 - 59 then corrupt ''truncated literal length''
         else
           let lengthBytes = (if count0 < 60 then 0 else count0 - 59);
               count = (if count0 < 60 then count0 + 1 else 1 + le_val (take lengthBytes rest));
               rest' = drop lengthBytes rest
           in if length rest' < count \<or> len - written < count then corrupt ''literal exceeds input or output''
              else decode_loop len (drop count rest') (overlay output written (take count rest')) (written + count))
      else
        let offsetBytes = (if kind = 1 then 1 else if kind = 2 then 2 else 4) in
        if length rest < offsetBytes then corrupt ''truncated copy offset''
        else
          let count = (if kind = 1 then 4 + (drop_bit 2 tag AND 7) else 1 + drop_bit 2 tag);
              offset = (if kind = 1 then push_bit 3 (tag AND 0xe0) else 0) + le_val (take offsetBytes rest)
          in if offset = 0 \<or> written < offset \<or> len - written < count
             then corrupt ''copy exceeds output or has an invalid offset''
             else decode_loop len (drop offsetBytes rest) (expand_copy output written offset count 0) (written + count))"
  by pat_completeness auto
termination
  by (relation "measure (\<lambda>(_, rest, _). length rest)") (auto simp: Let_def)

declare decode_loop.simps(2) [simp del]

definition decodeSnappy :: "bytes \<Rightarrow> f64 \<Rightarrow> f64 option \<Rightarrow> bytes result" where
  "decodeSnappy input maxOutputBytes expectedOutputBytes =
     (if \<not> f64_is_safe_integer maxOutputBytes \<or> f64_int maxOutputBytes < 0 \<or> int MAX_LENGTH < f64_int maxOutputBytes
      then throw RangeError ''invalid Snappy output limit''
      else bindr (read_length input 0 0) (\<lambda>(len, rest).
        if f64_int maxOutputBytes < int len then corrupt ''output exceeds byte limit''
        else if (case expectedOutputBytes of None \<Rightarrow> False
                 | Some e \<Rightarrow> \<not> (f64_is_integer e \<and> f64_int e = int len))
          then corrupt ''length mismatch''
        else bindr (decode_loop len rest (replicate len 0) 0) (\<lambda>(output, written).
          if written \<noteq> len then corrupt ''length mismatch'' else Inr output)))"

section \<open>The length prefix\<close>

lemma nat_and_127: "n AND 127 = n mod (128 :: nat)"
  using take_bit_eq_mask [of 7 n] by (simp add: take_bit_eq_mod mask_eq_exp_minus_1)

lemma nat_and_255: "n AND 255 = n mod (256 :: nat)"
  using take_bit_eq_mask [of 8 n] by (simp add: take_bit_eq_mod mask_eq_exp_minus_1)

lemma prefix_byte: "(n AND 0x7f) OR 0x80 = 128 + n mod (128 :: nat)"
  using nat_or_add [of "n mod 128" 7 1] by (simp add: nat_and_127 or.commute)

lemma read_length_prefix:
  "r < 2 ^ (32 - 7 * i) \<Longrightarrow> i \<le> 4 \<Longrightarrow> read_length (length_prefix r @ rest) i acc = Inr (acc + r * 2 ^ (7 * i), rest)"
proof (induction r arbitrary: i acc rule: length_prefix.induct)
  case (1 r)
  show ?case
  proof (cases "128 \<le> r")
    case True
    have "i \<noteq> 4" using 1(2) True by auto
    then have i: "i \<le> 3" "32 - 7 * i = 7 + (32 - 7 * Suc i)" using 1(3) by auto
    then have lt: "r div 128 < 2 ^ (32 - 7 * Suc i)"
      using 1(2) unfolding i(2) power_add by (intro less_mult_imp_div_less) (simp add: mult.commute)
    have b: "unat (of_nat (128 + r mod 128) :: byte) = 128 + r mod 128"
      using mod_less_divisor [of 128 r] by (simp del: of_nat_add)
    have shape: "length_prefix r = of_nat (128 + r mod 128) # length_prefix (r div 128)"
      using True by (simp only: length_prefix.simps [of r] prefix_byte if_True)
    have "(128 + r mod 128) mod 128 = r mod 128" by simp
    then have "read_length (length_prefix r @ rest) i acc =
        read_length (length_prefix (r div 128) @ rest) (i + 1) (acc + (r mod 128) * 2 ^ (7 * i))"
      using i by (simp add: shape read_length.simps [of "_ # _"] b nat_and_127 mult.commute Let_def del: of_nat_add)
    also have "\<dots> = Inr (acc + (r mod 128) * 2 ^ (7 * i) + r div 128 * 2 ^ (7 * Suc i), rest)"
      using 1(1) [OF True, of "i + 1"] lt i by simp
    also have "acc + (r mod 128) * 2 ^ (7 * i) + r div 128 * 2 ^ (7 * Suc i) = acc + r * 2 ^ (7 * i)"
    proof -
      have "acc + a * k + d * (128 * k) = acc + (d * 128 + a) * k" for a d k :: nat
        by (simp add: algebra_simps)
      moreover have "(2 :: nat) ^ (7 * Suc i) = 128 * 2 ^ (7 * i)" by (simp add: power_add)
      ultimately show ?thesis by (simp only: div_mult_mod_eq)
    qed
    finally show ?thesis .
  next
    case False
    moreover have "i = 4 \<longrightarrow> \<not> 15 < r" using 1(2) by auto
    ultimately show ?thesis
      using 1(3) by (simp add: length_prefix.simps [of r] read_length.simps [of "_ # _"] nat_and_127 mult.commute)
  qed
qed

section \<open>Copies\<close>

definition repeat_tail :: "bytes \<Rightarrow> nat \<Rightarrow> nat \<Rightarrow> bytes" where
  "repeat_tail done off n = map (\<lambda>i. done ! (length done - off + i mod off)) [0..<n]"

lemma length_repeat_tail [simp]: "length (repeat_tail done off n) = n"
  by (simp add: repeat_tail_def)

lemma nth_repeat_tail:
  assumes "0 < off" "off \<le> length done" "t < off + n"
  shows "(done @ repeat_tail done off n @ rest) ! (length done - off + t) = done ! (length done - off + t mod off)"
proof (cases "t < off")
  case True
  then have "length done - off + t < length done" using assms by linarith
  then show ?thesis using True by (simp add: nth_append)
next
  case False
  then have "length done - off + t = length done + (t - off)" using assms by simp
  moreover have "(t - off) mod off = t mod off" using False by (simp add: le_mod_geq)
  moreover have "t - off < n" using assms False by linarith
  ultimately show ?thesis by (simp add: nth_append repeat_tail_def)
qed

lemma upt_split: "[0..<m + n] = [0..<m] @ map ((+) m) [0..<n]"
  by (induction n) simp_all

lemma repeat_tail_Suc_chunk:
  assumes "off dvd c"
  shows "repeat_tail done off (c + k) = repeat_tail done off c @ map (\<lambda>i. done ! (length done - off + i mod off)) [0..<k]"
proof -
  have "[0..<c + k] = [0..<c] @ map ((+) c) [0..<k]"
    by (rule upt_split)
  moreover have "(c + i) mod off = i mod off" for i
    using assms by (metis mod_add_left_eq dvd_imp_mod_0 add_0)
  ultimately show ?thesis by (simp add: repeat_tail_def)
qed

lemma take_drop_map: "s + n \<le> length xs \<Longrightarrow> take n (drop s xs) = map (\<lambda>i. xs ! (s + i)) [0..<n]"
  by (rule nth_equalityI) simp_all

lemma expand_copy_eq:
  assumes "0 < off" "off \<le> length done" "count \<le> length z"
  shows "off dvd c \<or> c = count \<Longrightarrow> c \<le> count \<Longrightarrow>
    expand_copy (done @ repeat_tail done off c @ drop c z) (length done) off count c =
      done @ repeat_tail done off count @ drop count z"
proof (induction "count - c" arbitrary: c rule: less_induct)
  case less
  show ?case
  proof (cases "c < count")
    case False
    then show ?thesis using less.prems by (simp add: expand_copy.simps)
  next
    case True
    let ?chunk = "min (off + c) (count - c)" and ?w = "length done"
    let ?out = "done @ repeat_tail done off c @ drop c z"
    have dvd: "off dvd c" using less.prems True by auto
    have "take ?chunk (drop (?w - off) ?out) = map (\<lambda>i. ?out ! (?w - off + i)) [0..<?chunk]"
      using assms True by (intro take_drop_map) simp
    also have "\<dots> = map (\<lambda>i. done ! (?w - off + i mod off)) [0..<?chunk]"
      using assms nth_repeat_tail [of off "done" _ c "drop c z"] by simp
    finally have "copy_within ?out (?w + c) (?w - off) (?w - off + ?chunk) =
        done @ repeat_tail done off (c + ?chunk) @ drop (c + ?chunk) z"
      using True assms repeat_tail_Suc_chunk [OF dvd, of "done" ?chunk]
      by (simp add: copy_within_def overlay_def add.commute [of c])
    then have "expand_copy ?out ?w off count c =
        expand_copy (done @ repeat_tail done off (c + ?chunk) @ drop (c + ?chunk) z) ?w off count (c + ?chunk)"
      using True assms(1) by (simp add: expand_copy.simps [of ?out] Let_def)
    also have "\<dots> = done @ repeat_tail done off count @ drop count z"
    proof (rule less.hyps)
      show "count - (c + ?chunk) < count - c" using True assms(1) by simp
      show "off dvd c + ?chunk \<or> c + ?chunk = count" using dvd True by (auto simp: min_def)
      show "c + ?chunk \<le> count" using True by simp
    qed
    finally show ?thesis .
  qed
qed

lemma repeat_tail_add:
  assumes "0 < off" "off \<le> length done"
  shows "repeat_tail done off (m + n) = repeat_tail done off m @ repeat_tail (done @ repeat_tail done off m) off n"
proof -
  have "(done @ repeat_tail done off m) ! (length done + m - off + i mod off) = done ! (length done - off + (m + i) mod off)" for i
  proof -
    have "length done + m - off + i mod off = length done - off + (m + i mod off)" using assms by simp
    moreover have "m + i mod off < off + m" using assms by simp
    ultimately show ?thesis
      using nth_repeat_tail [OF assms, of "m + i mod off" m "[]"] by (simp add: mod_add_right_eq add.assoc)
  qed
  moreover have "[0..<m + n] = [0..<m] @ map ((+) m) [0..<n]"
    by (rule upt_split)
  ultimately show ?thesis by (simp add: repeat_tail_def comp_def)
qed

section \<open>Decoding what was encoded\<close>

lemma quarter: "(c * 4 + 2) mod 4 = (2 :: nat)" "(c * 4 + 2) div 4 = (c :: nat)" "(c * 4 + 1) mod 4 = (1 :: nat)" "(c * 4 + 1) div 4 = c"
  by presburger+

lemma tag_bits:
  fixes c :: nat
  shows "push_bit 2 c AND 3 = 0" "drop_bit 2 (push_bit 2 c) = c"
    "(2 OR push_bit 2 c) AND 3 = 2" "drop_bit 2 (2 OR push_bit 2 c) = c" "2 OR push_bit 2 c = c * 4 + 2"
proof -
  have and3: "n AND 3 = n mod 4" for n :: nat
    using take_bit_eq_mask [of 2 n] by (simp add: take_bit_eq_mod mask_eq_exp_minus_1)
  have two: "2 OR push_bit 2 c = c * 4 + 2"
    using nat_or_add [of 2 2 c] by (simp add: push_bit_eq_mult or.commute)
  show "push_bit 2 c AND 3 = 0" by (simp add: and3 push_bit_eq_mult)
  show "drop_bit 2 (push_bit 2 c) = c" by (simp add: push_bit_eq_mult drop_bit_eq_div)
  show "(2 OR push_bit 2 c) AND 3 = 2" unfolding two and3 by (rule quarter)
  show "drop_bit 2 (2 OR push_bit 2 c) = c" unfolding two drop_bit_eq_div using quarter(2) [of c] by simp
  show "2 OR push_bit 2 c = c * 4 + 2" by (rule two)
qed

lemma and_e0: "x AND 0xe0 = x div 32 mod 8 * (32 :: nat)"
proof -
  have "x AND push_bit k y = push_bit k (drop_bit k x AND y)" for k and y :: nat
    by (rule bit_eqI) (auto simp: bit_simps)
  from this [of 5 7] have "x AND 0xe0 = push_bit 5 (drop_bit 5 x AND 7)"
    by simp
  moreover have "n AND 7 = n mod (8 :: nat)" for n
    using take_bit_eq_mask [of 3 n] by (simp add: take_bit_eq_mod mask_eq_exp_minus_1)
  ultimately show ?thesis by (simp add: push_bit_eq_mult drop_bit_eq_div)
qed

lemma short_copy_tag:
  fixes c off :: nat
  assumes "4 \<le> c" "c \<le> 11" "off < 2048"
  defines "tag \<equiv> 1 OR push_bit 2 (c - 4) OR push_bit 5 (drop_bit 8 off)"
  shows "tag < 256" "tag AND 3 = 1" "4 + (drop_bit 2 tag AND 7) = c" "push_bit 3 (tag AND 0xe0) = off div 256 * 256"
proof -
  have d: "off div 256 < 8" using assms(3) by (simp add: less_mult_imp_div_less)
  have "(1 :: nat) OR push_bit 2 (c - 4) = (c - 4) * 4 + 1"
    using nat_or_add [of 1 2 "c - 4"] by (simp add: push_bit_eq_mult or.commute)
  moreover have "(c - 4) * 4 + 1 < 2 ^ 5" using assms(2) by simp
  ultimately have tag: "tag = off div 256 * 32 + ((c - 4) * 4 + 1)"
    using nat_or_add [of "(c - 4) * 4 + 1" 5 "off div 256"]
    by (simp add: tag_def push_bit_eq_mult drop_bit_eq_div or.commute or.assoc [symmetric])
  define k d where "k = c - 4" and "d = off div 256"
  have k: "c = k + 4" "k < 8" and d8: "d < 8" and t: "tag = d * 32 + (k * 4 + 1)"
    using assms(1,2) d tag by (simp_all add: k_def d_def)
  show "tag < 256" using t d8 k(2) by simp
  have and3: "n AND 3 = n mod 4" and and7: "n AND 7 = n mod 8" for n :: nat
    using take_bit_eq_mask [of 2 n] take_bit_eq_mask [of 3 n] by (simp_all add: take_bit_eq_mod mask_eq_exp_minus_1)
  have t4: "tag = (d * 8 + k) * 4 + 1" using t by simp
  show "tag AND 3 = 1" unfolding and3 t4 by (rule quarter)
  show "4 + (drop_bit 2 tag AND 7) = c"
    unfolding drop_bit_eq_div and7 t4 using k quarter(4) [of "d * 8 + k"] by simp
  have "tag div 32 = d"
    unfolding t using k(2) by simp
  then show "push_bit 3 (tag AND 0xe0) = off div 256 * 256"
    using d8 by (simp add: and_e0 push_bit_eq_mult flip: d_def)
qed

lemma decode_literal_short:
  assumes "n < 60" "length p = n + 1" "n + 1 \<le> len - written"
  shows "decode_loop len (of_nat (push_bit 2 n) # p @ rest) out written =
    decode_loop len rest (overlay out written p) (written + (n + 1))"
proof -
  have tag: "unat (of_nat (push_bit 2 n) :: byte) = push_bit 2 n"
    unfolding unat_of_nat_byte using assms(1) by (simp add: push_bit_eq_mult)
  show ?thesis
    unfolding decode_loop.simps(2) tag Let_def tag_bits using assms by simp
qed

lemma decode_literal_long:
  assumes "1 \<le> lb" "lb \<le> 4" "n < 256 ^ lb" "length p = n + 1" "n + 1 \<le> len - written"
  shows "decode_loop len (of_nat (push_bit 2 (59 + lb)) # le_bytes lb n @ p @ rest) out written =
    decode_loop len rest (overlay out written p) (written + (n + 1))"
proof -
  have tag: "unat (of_nat (push_bit 2 (59 + lb)) :: byte) = push_bit 2 (59 + lb)"
    unfolding unat_of_nat_byte using assms(2) by (simp add: push_bit_eq_mult)
  show ?thesis
    unfolding decode_loop.simps(2) tag Let_def tag_bits using assms by simp
qed

lemma decode_copy_short:
  assumes "4 \<le> c" "c \<le> 11" "0 < off" "off < 2048" "off \<le> written" "c \<le> len - written"
  shows "decode_loop len (of_nat (1 OR push_bit 2 (c - 4) OR push_bit 5 (drop_bit 8 off)) # of_nat (off AND 0xff) # rest) out written =
    decode_loop len rest (expand_copy out written off c 0) (written + c)"
proof -
  define tag where "tag = (1 OR push_bit 2 (c - 4) OR push_bit 5 (drop_bit 8 off) :: nat)"
  note t = short_copy_tag [OF assms(1,2,4), folded tag_def]
  have b: "unat (of_nat tag :: byte) = tag" unfolding unat_of_nat_byte using t(1) by simp
  have "off div 256 * 256 + off mod 256 = off" by (rule div_mult_mod_eq)
  then have off: "push_bit 3 (tag AND 0xe0) + le_val (take 1 (of_nat (off AND 0xff) # rest)) = off"
    unfolding t(4) by (simp add: nat_and_255)
  have guards: "\<not> (1 :: nat) = 0" "\<not> length (x # rest) < 1" "drop 1 (x # rest) = rest"
      "\<not> (off = 0 \<or> written < off \<or> len - written < c)" for x :: byte
    using assms by simp_all
  show ?thesis
    unfolding tag_def [symmetric]
    by (simp only: decode_loop.simps(2) b Let_def t(2,3) guards if_False if_True refl off)
qed

lemma decode_copy_long:
  assumes "1 \<le> c" "c \<le> 64" "0 < off" "off < 65536" "off \<le> written" "c \<le> len - written"
  shows "decode_loop len (of_nat (2 OR push_bit 2 (c - 1)) # of_nat (off AND 0xff) # of_nat (drop_bit 8 off) # rest) out written =
    decode_loop len rest (expand_copy out written off c 0) (written + c)"
proof -
  have b: "unat (of_nat (2 OR push_bit 2 (c - 1)) :: byte) = 2 OR push_bit 2 (c - 1)"
    unfolding unat_of_nat_byte tag_bits(5) using assms(1,2) by simp
  have "off div 256 < 256" using assms(4) by (simp add: less_mult_imp_div_less)
  moreover have "off mod 256 + 256 * (off div 256) = off" by (rule mod_mult_div_eq)
  ultimately have off: "le_val (take 2 (of_nat (off AND 0xff) # of_nat (drop_bit 8 off) # rest)) = off"
    by (simp add: nat_and_255 drop_bit_eq_div)
  have guards: "\<not> (2 :: nat) = 0" "\<not> (2 :: nat) = 1" "1 + (c - 1) = c" "(0 :: nat) + off = off"
      "\<not> length (x # y # rest) < 2" "drop 2 (x # y # rest) = rest" "\<not> (off = 0 \<or> written < off \<or> len - written < c)" for x y :: byte
    using assms by simp_all
  show ?thesis
    by (simp only: decode_loop.simps(2) b Let_def tag_bits(3,4) guards if_False if_True refl off)
qed

text \<open>
  The bytes \<open>w\<close> take the decoder from position \<open>a\<close> of the input to position \<open>b\<close>, whatever follows them.
\<close>

definition codes :: "bytes \<Rightarrow> nat \<Rightarrow> nat \<Rightarrow> bytes \<Rightarrow> bool" where
  "codes input a b w \<longleftrightarrow> a \<le> b \<and> b \<le> length input \<and>
     (\<forall>rest z. length z = length input - a \<longrightarrow>
        decode_loop (length input) (w @ rest) (take a input @ z) a =
          decode_loop (length input) rest (take b input @ drop (b - a) z) b)"

lemma codes_refl: "a \<le> length input \<Longrightarrow> codes input a a []"
  by (simp add: codes_def)

lemma codes_trans: "codes input a b v \<Longrightarrow> codes input b c w \<Longrightarrow> codes input a c (v @ w)"
  by (simp add: codes_def)

lemma codes_literal:
  assumes "a \<le> b" "b \<le> length input" "b - a \<le> 0x10000"
  shows "codes input a b (literal input a b)"
proof (cases "a = b")
  case True
  then show ?thesis using assms by (simp add: literal_def codes_refl)
next
  case False
  define n lb where "n = b - a - 1" and "lb = literal_length_bytes n"
  let ?seg = "take (b - a) (drop a input)"
  have seg: "length ?seg = n + 1" "take a input @ ?seg = take b input" "b = a + (n + 1)"
    using assms False by (simp_all add: n_def take_add [symmetric])
  have lb: "1 \<le> lb" "lb \<le> 4" "n < 256 ^ lb"
    using assms(3) by (auto simp: lb_def n_def literal_length_bytes_def)
  have "decode_loop (length input) (literal input a b @ rest) (take a input @ z) a =
      decode_loop (length input) rest (take b input @ drop (b - a) z) b"
    if z: "length z = length input - a" for rest z
  proof -
    have out: "overlay (take a input @ z) a ?seg = take b input @ drop (b - a) z"
      using assms z by (simp add: overlay_def seg(2) [symmetric])
    have room: "n + 1 \<le> length input - a" using assms seg(3) by simp
    show ?thesis
    proof (cases "n < 60")
      case True
      then have "literal input a b = of_nat (push_bit 2 n) # ?seg"
        using False unfolding literal_def n_def Let_def by simp
      then show ?thesis
        using decode_literal_short [OF True seg(1) room, of rest "take a input @ z"] out seg(3) by simp
    next
      case long: False
      then have "literal input a b = of_nat (push_bit 2 (59 + lb)) # le_bytes lb n @ ?seg"
        using False unfolding literal_def lb_def n_def Let_def by simp
      then show ?thesis
        using decode_literal_long [OF lb seg(1) room, of rest "take a input @ z"] out seg(3) by simp
    qed
  qed
  then show ?thesis using assms by (simp add: codes_def)
qed

lemma decode_copies:
  assumes "0 < off" "off < 65536"
  shows "off \<le> length d \<Longrightarrow> n \<le> length z \<Longrightarrow> len = length d + length z \<Longrightarrow>
    decode_loop len (copy off n @ rest) (d @ z) (length d) =
      decode_loop len rest (d @ repeat_tail d off n @ drop n z) (length d + n)"
proof (induction n arbitrary: d z rule: less_induct)
  case (less n)
  show ?case
  proof (cases "n = 0")
    case True
    then show ?thesis by (simp add: copy.simps repeat_tail_def)
  next
    case False
    define c where "c = min n 64"
    have c: "1 \<le> c" "c \<le> 64" "c \<le> n" using False by (simp_all add: c_def)
    let ?d = "d @ repeat_tail d off c"
    let ?head = "if 4 \<le> c \<and> c \<le> 11 \<and> off < 2048
         then [of_nat (1 OR push_bit 2 (c - 4) OR push_bit 5 (drop_bit 8 off)), of_nat (off AND 0xff)]
         else [of_nat (2 OR push_bit 2 (c - 1)), of_nat (off AND 0xff), of_nat (drop_bit 8 off)] :: bytes"
    have "copy off n = ?head @ copy off (n - c)"
      using False unfolding copy.simps [of off n] Let_def c_def by simp
    moreover have "decode_loop len (?head @ rest') (d @ z) (length d) =
        decode_loop len rest' (expand_copy (d @ z) (length d) off c 0) (length d + c)" for rest'
    proof (cases "4 \<le> c \<and> c \<le> 11 \<and> off < 2048")
      case True
      then show ?thesis
        using decode_copy_short [of c off "length d" len rest' "d @ z"] less.prems c assms by simp
    next
      case False
      then show ?thesis
        using decode_copy_long [of c off "length d" len rest' "d @ z"] less.prems c assms
        by (simp only: if_False append.simps)
    qed
    moreover have "expand_copy (d @ z) (length d) off c 0 = ?d @ drop c z"
      using expand_copy_eq [of off d c z 0] less.prems c assms by (simp add: repeat_tail_def)
    moreover have "decode_loop len (copy off (n - c) @ rest) (?d @ drop c z) (length ?d) =
        decode_loop len rest (?d @ repeat_tail ?d off (n - c) @ drop (n - c) (drop c z)) (length ?d + (n - c))"
      using less.prems c by (intro less.IH) auto
    moreover have "repeat_tail d off (c + (n - c)) = repeat_tail d off c @ repeat_tail ?d off (n - c)"
      using repeat_tail_add [of off d c "n - c"] assms(1) less.prems(1) by blast
    moreover have "c + (n - c) = n" using c by simp
    ultimately show ?thesis by simp
  qed
qed

lemma periodic_tail:
  assumes "0 < off" "off \<le> p" "p + n \<le> length input"
    and same: "\<And>i. i < n \<Longrightarrow> input ! (p + i) = input ! (p + i - off)"
  shows "repeat_tail (take p input) off n = take n (drop p input)"
proof -
  have "input ! (p + i) = input ! (p - off + i mod off)" if "i < n" for i
    using that
  proof (induction i rule: less_induct)
    case (less i)
    show ?case
    proof (cases "i < off")
      case True
      then show ?thesis using same [OF less.prems] assms(2) by simp
    next
      case False
      then have "input ! (p + (i - off)) = input ! (p - off + (i - off) mod off)"
        using less.prems assms(1) by (intro less.IH) simp_all
      then show ?thesis
        using same [OF less.prems] False by (simp add: le_mod_geq)
    qed
  qed
  moreover have "take p input ! (p - off + i mod off) = input ! (p - off + i mod off)" for i
    using assms by (metis (no_types, lifting) add.commute less_diff_conv2 mod_less_divisor nth_take diff_diff_cancel diff_le_self less_imp_le_nat add_less_cancel_left le_add_diff_inverse2)
  ultimately show ?thesis
    using assms take_drop_map [of p n input] by (simp add: repeat_tail_def min_def)
qed

lemma codes_copy:
  assumes "c < p" "p - c < 65536" "p \<le> q" "q \<le> length input"
    and same: "\<And>i. i < q - p \<Longrightarrow> input ! (p + i) = input ! (c + i)"
  shows "codes input p q (copy (p - c) (q - p))"
proof -
  have "repeat_tail (take p input) (p - c) (q - p) = take (q - p) (drop p input)"
    using assms by (intro periodic_tail) (simp_all add: add.commute)
  moreover have "take p input @ take (q - p) (drop p input) = take q input"
    using assms(3) by (simp add: take_add [symmetric])
  ultimately have eq: "take p input @ repeat_tail (take p input) (p - c) (q - p) @ y = take q input @ y" for y
    by (metis append.assoc)
  have len: "length (take p input) = p" "p + (q - p) = q" using assms(3,4) by simp_all
  have "decode_loop (length input) (copy (p - c) (q - p) @ rest) (take p input @ z) p =
      decode_loop (length input) rest (take q input @ drop (q - p) z) q"
    if "length z = length input - p" for rest z
  proof -
    have "decode_loop (length input) (copy (p - c) (q - p) @ rest) (take p input @ z) (length (take p input)) =
        decode_loop (length input) rest (take p input @ repeat_tail (take p input) (p - c) (q - p) @ drop (q - p) z)
          (length (take p input) + (q - p))"
      by (rule decode_copies) (use assms(1-4) that in auto)
    then show ?thesis by (simp only: eq len)
  qed
  then show ?thesis using assms(3,4) by (simp add: codes_def)
qed

section \<open>Matches\<close>

lemma ucast_byte_inj: "ucast x = (ucast y :: 32 word) \<Longrightarrow> x = (y :: byte)"
  using down_ucast_inj [where ?'a = 8 and ?'b = 32] by (simp add: is_down inj_eq)

lemma byte_at_inj: "i < length bs \<Longrightarrow> j < length bs \<Longrightarrow> byte_at bs i = byte_at bs j \<longleftrightarrow> bs ! i = bs ! j"
  using ucast_byte_inj by (auto simp: byte_at_def read_at_def)

lemma byte_at_bit: "bit (byte_at bs i) n \<Longrightarrow> n < 8"
  by (auto simp: byte_at_def bit_simps split: option.splits dest: bit_imp_le_length)

lemma word32_bits:
  assumes "n < 8"
  shows "bit (word32 bs p) n = bit (byte_at bs p) n"
    "bit (word32 bs p) (n + 8) = bit (byte_at bs (p + 1)) n"
    "bit (word32 bs p) (n + 16) = bit (byte_at bs (p + 2)) n"
    "bit (word32 bs p) (n + 24) = bit (byte_at bs (p + 3)) n"
  using assms byte_at_bit [of bs]
  by (auto simp: word32_def bit_simps dest: byte_at_bit)

lemma word32_eq:
  assumes "word32 bs p = word32 bs c" "p + 4 \<le> length bs" "c + 4 \<le> length bs" "i < 4"
  shows "bs ! (p + i) = bs ! (c + i)"
proof -
  have eq: "byte_at bs (p + k) = byte_at bs (c + k)" if "k \<in> {0, 1, 2, 3}" for k
  proof (rule bit_word_eqI)
    fix n assume "n < LENGTH(32)"
    show "bit (byte_at bs (p + k)) n = bit (byte_at bs (c + k)) n"
    proof (cases "n < 8")
      case True
      then show ?thesis
        using that word32_bits [OF True, of bs p] word32_bits [OF True, of bs c] assms(1) by auto
    next
      case False
      then show ?thesis using byte_at_bit by blast
    qed
  qed
  have "i \<in> {0, 1, 2, 3}" using assms(4) by auto
  from eq [OF this] show ?thesis
    using assms by (simp add: byte_at_inj)
qed

lemma extend_match_spec:
  "candidate < matchStart \<Longrightarrow> matchStart \<le> position \<Longrightarrow> position \<le> blockEnd \<Longrightarrow> blockEnd \<le> length input \<Longrightarrow>
   (\<And>i. i < position - matchStart \<Longrightarrow> input ! (matchStart + i) = input ! (candidate + i)) \<Longrightarrow>
   (let q = extend_match input candidate matchStart blockEnd position in position \<le> q \<and> q \<le> blockEnd \<and>
     (\<forall>i < q - matchStart. input ! (matchStart + i) = input ! (candidate + i)))"
proof (induction input candidate matchStart blockEnd position rule: extend_match.induct)
  case (1 input candidate matchStart blockEnd position)
  show ?case
  proof (cases "position < blockEnd \<and> read_at input position = read_at input (candidate + position - matchStart)")
    case True
    have "input ! (matchStart + i) = input ! (candidate + i)" if "i < position + 1 - matchStart" for i
    proof (cases "i < position - matchStart")
      case True
      then show ?thesis using 1(6) by blast
    next
      case False
      then have "i = position - matchStart" using that by simp
      then show ?thesis
        using True 1(2-5) by (simp add: read_at_def split: if_splits)
    qed
    then show ?thesis
      using 1(1) [OF True] 1(2-5) True extend_match.simps [of input candidate matchStart blockEnd position]
      by (fastforce simp: Let_def)
  next
    case False
    then have "extend_match input candidate matchStart blockEnd position = position"
      using extend_match.simps [of input candidate matchStart blockEnd position] by (simp only: if_False)
    then show ?thesis using 1(2-6) by simp
  qed
qed

section \<open>Sizes\<close>

lemma length_copy: "length (copy off m) \<le> 3 * ((m + 63) div 64)"
proof (induction m rule: less_induct)
  case (less m)
  show ?case
  proof (cases "m \<le> 64")
    case True
    have "copy off 0 = []" by (simp add: copy.simps)
    then have "length (copy off m) \<le> (if m = 0 then 0 else 3)"
      using True by (simp add: copy.simps [of off m] Let_def min_def)
    moreover have "m \<noteq> 0 \<Longrightarrow> 1 \<le> (m + 63) div 64" by (simp add: div_greater_zero_iff Suc_le_eq)
    ultimately show ?thesis by (cases "m = 0") simp_all
  next
    case False
    have "length (copy off m) \<le> 3 + length (copy off (m - 64))"
      using False by (simp add: copy.simps [of off m] Let_def min_def)
    also have "\<dots> \<le> 3 + 3 * ((m - 64 + 63) div 64)" using less.IH [of "m - 64"] False by simp
    also have "\<dots> = 3 * ((m + 63) div 64)"
    proof -
      have "m + 63 = (m - 64 + 63) + 64" using False by simp
      then have "(m + 63) div 64 = (m - 64 + 63) div 64 + 1" by (metis div_add_self2 zero_neq_numeral)
      then show ?thesis by simp
    qed
    finally show ?thesis .
  qed
qed

lemma length_copy_match: "4 \<le> m \<Longrightarrow> length (copy off m) + 1 \<le> m"
proof -
  assume m: "4 \<le> m"
  have "3 * ((m + 63) div 64) + 1 \<le> m"
  proof (cases "m \<le> 64")
    case True
    then have "(m + 63) div 64 = 1" using m by (intro div_nat_eqI) simp_all
    then show ?thesis using m by simp
  next
    case False
    have "(m + 63) div 64 * 64 \<le> m + 63" by (rule div_times_less_eq_dividend)
    then show ?thesis using False by linarith
  qed
  then show ?thesis using length_copy [of off m] by linarith
qed

lemma length_literal:
  assumes "a \<le> b" "b \<le> length input" "b - a \<le> 0x10000"
  shows "30 * length (literal input a b) \<le> 31 * (b - a) + 30"
    and "30 * length (literal input a b) \<le> 31 * (b - a) + (if a = b then 0 else 30)"
proof -
  define n where "n = b - a"
  have "length (literal input a b) = (if n = 0 then 0 else if n \<le> 60 then n + 1 else if n \<le> 256 then n + 2 else n + 3)"
    using assms by (auto simp: literal_def literal_length_bytes_def n_def Let_def)
  then show "30 * length (literal input a b) \<le> 31 * (b - a) + 30"
    and "30 * length (literal input a b) \<le> 31 * (b - a) + (if a = b then 0 else 30)"
    using assms(1) by (auto simp: n_def)
qed

section \<open>The encoder's loops\<close>

definition table_ok :: "nat \<Rightarrow> nat \<Rightarrow> nat list \<Rightarrow> bool" where
  "table_ok hashBits n table \<longleftrightarrow> 2 ^ hashBits \<le> length table \<and> (\<forall>i < 2 ^ hashBits. table ! i \<le> n)"

lemma table_ok_update:
  "table_ok hashBits n table \<Longrightarrow> n \<le> m \<Longrightarrow> v \<le> m \<Longrightarrow> table_ok hashBits m (table[i := v])"
  by (cases "i < length table") (auto simp: table_ok_def nth_list_update intro: order_trans)

lemma table_ok_mono: "table_ok hashBits n table \<Longrightarrow> n \<le> m \<Longrightarrow> table_ok hashBits m table"
  by (auto simp: table_ok_def intro: order_trans)

lemma hash_slot_less: "bits \<le> 32 \<Longrightarrow> hash_slot w bits < 2 ^ bits"
proof -
  assume "bits \<le> 32"
  have "unat (drop_bit (32 - bits) x) = unat x div 2 ^ (32 - bits)" for x :: "32 word"
    using unsigned_less [of x, where ?'a = nat]
    unfolding unsigned_drop_bit_eq by (simp add: drop_bit_eq_div take_bit_nat_eq_self)
  moreover have "unat x < 2 ^ bits * 2 ^ (32 - bits)" for x :: "32 word"
    using unsigned_less [of x, where ?'a = nat] \<open>bits \<le> 32\<close> by (simp flip: power_add)
  ultimately show ?thesis by (simp add: hash_slot_def less_mult_imp_div_less)
qed

text \<open>What the bytes written so far are worth: they decode to the first \<open>n\<close> bytes of the input and are
  not much longer than those.\<close>

definition coded :: "bytes \<Rightarrow> nat \<Rightarrow> nat \<Rightarrow> bytes \<Rightarrow> bool" where
  "coded input k n w \<longleftrightarrow> codes input 0 n w \<and> 30 * length w \<le> 31 * n + k"

lemma coded_literal:
  assumes "coded input k a w" "a \<le> b" "b \<le> length input" "b - a \<le> 0x10000"
  shows "coded input (k + 30) b (w @ literal input a b)"
proof -
  obtain d where "b = a + d" using assms(2) le_Suc_ex by blast
  then show ?thesis
    using assms codes_trans [OF _ codes_literal [OF assms(2-4)]] length_literal(1) [OF assms(2-4)]
    by (auto simp: coded_def)
qed

lemma coded_match:
  assumes "coded input k a w" "a \<le> p" "p - a \<le> 0x10000" "c < p" "p - c < 65536" "p + 4 \<le> q" "q \<le> length input"
    and "\<And>i. i < q - p \<Longrightarrow> input ! (p + i) = input ! (c + i)"
  shows "coded input k q (w @ literal input a p @ copy (p - c) (q - p))"
proof -
  have "codes input a p (literal input a p)" using assms by (intro codes_literal) simp_all
  moreover have "codes input p q (copy (p - c) (q - p))" using assms by (intro codes_copy) simp_all
  ultimately have "codes input 0 q (w @ literal input a p @ copy (p - c) (q - p))"
    using assms(1) by (meson coded_def codes_trans)
  moreover have "30 * length (literal input a p) \<le> 31 * (p - a) + 30"
    using assms by (intro length_literal) simp_all
  moreover have "length (copy (p - c) (q - p)) + 1 \<le> q - p"
    using assms by (intro length_copy_match) simp
  moreover obtain d e where "p = a + d" "q = p + e" using assms(2,6) le_Suc_ex by (metis add_leD1)
  ultimately show ?thesis using assms(1) by (auto simp: coded_def)
qed

lemma match_loop_coded:
  assumes block: "blockEnd \<le> length input" "blockEnd - blockStart \<le> 0x10000" and bits: "hashBits \<le> 32"
  shows "blockStart \<le> literalStart \<Longrightarrow> literalStart \<le> position \<Longrightarrow> literalStart \<le> blockEnd \<Longrightarrow>
    table_ok hashBits (position - blockStart) table \<Longrightarrow> coded input k literalStart w \<Longrightarrow>
    \<exists>ls' table' w'. match_loop input blockStart blockEnd hashBits position literalStart misses table (pre @ w) =
        (ls', table', pre @ w') \<and> blockStart \<le> ls' \<and> ls' \<le> blockEnd \<and> coded input k ls' w' \<and> length table' = length table"
proof (induction "blockEnd - position" arbitrary: position literalStart misses table w rule: less_induct)
  case less
  note loop = match_loop.simps [of input blockStart blockEnd hashBits position literalStart misses table "pre @ w"]
  show ?case
  proof (cases "position + 4 \<le> blockEnd")
    case False
    then show ?thesis using less.prems loop by auto
  next
    case True
    define slot where "slot = hash_slot (word32 input position) hashBits"
    define c where "c = blockStart + table ! slot - 1"
    define table1 where "table1 = table[slot := position - blockStart + 1]"
    have slot: "table ! slot \<le> position - blockStart"
      using less.prems(4) hash_slot_less [OF bits] by (simp add: table_ok_def slot_def)
    have ok1: "table_ok hashBits m table1" if "position - blockStart + 1 \<le> m" for m
      unfolding table1_def using table_ok_update [OF less.prems(4), of m] that by simp
    show ?thesis
    proof (cases "table ! slot = 0 \<or> word32 input position \<noteq> word32 input c")
      case skip: True
      let ?p = "position + 1 + min ((misses + 1) div 32) 64"
      have "match_loop input blockStart blockEnd hashBits position literalStart misses table (pre @ w) =
          match_loop input blockStart blockEnd hashBits ?p literalStart (misses + 1) table1 (pre @ w)"
        using loop True skip by (simp add: Let_def slot_def c_def table1_def)
      moreover have "\<exists>ls' table' w'. match_loop input blockStart blockEnd hashBits ?p literalStart (misses + 1) table1 (pre @ w) =
          (ls', table', pre @ w') \<and> blockStart \<le> ls' \<and> ls' \<le> blockEnd \<and> coded input k ls' w' \<and> length table' = length table1"
        using less.prems True by (intro less.hyps ok1) auto
      ultimately show ?thesis by (simp add: table1_def)
    next
      case match: False
      define q where "q = extend_match input c position blockEnd (position + 4)"
      define table2 where "table2 = (if q + 4 \<le> blockEnd
          then table1[hash_slot (word32 input (q - 1)) hashBits := q - blockStart] else table1)"
      have c: "c < position" "position - c < 65536" "blockStart \<le> c"
        using match slot less.prems(1,2) True block(2) by (auto simp: c_def)
      have four: "input ! (position + i) = input ! (c + i)" if "i < 4" for i
        using word32_eq [of input position c i] match c True block(1) that by simp
      have q: "position + 4 \<le> q" "q \<le> blockEnd" "\<forall>i < q - position. input ! (position + i) = input ! (c + i)"
        using extend_match_spec [of c position "position + 4" blockEnd input] c True block(1) four
        by (auto simp: q_def Let_def)
      have ok2: "table_ok hashBits (q - blockStart) table2"
        unfolding table2_def using q less.prems(1,2) ok1 [of "q - blockStart"] table_ok_update [of hashBits "q - blockStart" table1]
        by auto
      let ?w = "w @ literal input literalStart position @ copy (position - c) (q - position)"
      have coded: "coded input k q ?w"
        using less.prems c q True block by (intro coded_match) auto
      have "match_loop input blockStart blockEnd hashBits position literalStart misses table (pre @ w) =
          match_loop input blockStart blockEnd hashBits q q 0 table2 (pre @ ?w)"
        using loop True match by (simp add: Let_def slot_def c_def table1_def q_def table2_def)
      moreover have "\<exists>ls' table' w'. match_loop input blockStart blockEnd hashBits q q 0 table2 (pre @ ?w) =
          (ls', table', pre @ w') \<and> blockStart \<le> ls' \<and> ls' \<le> blockEnd \<and> coded input k ls' w' \<and> length table' = length table2"
        using less.prems q True ok2 coded by (intro less.hyps) auto
      moreover have "length table2 = length table" by (simp add: table1_def table2_def)
      ultimately show ?thesis by (simp only:)
    qed
  qed
qed

lemma block_loop_coded:
  assumes bits: "hashBits \<le> 32"
  shows "2 ^ hashBits \<le> length table \<Longrightarrow> start = min blockStart (length input) \<Longrightarrow>
    coded input k start w \<Longrightarrow>
    \<exists>table' w'. block_loop input hashBits blockStart table (pre @ w) = (table', pre @ w') \<and>
      coded input (k + 30 * ((length input - start + 65535) div 65536)) (length input) w' \<and> length table' = length table"
proof (induction "length input - blockStart" arbitrary: blockStart start table w k rule: less_induct)
  case less
  note loop = block_loop.simps [of input hashBits blockStart table "pre @ w"]
  show ?case
  proof (cases "blockStart < length input")
    case False
    then show ?thesis using less.prems loop by auto
  next
    case True
    define blockEnd where "blockEnd = min (blockStart + 65536) (length input)"
    define table0 where "table0 = replicate (2 ^ hashBits) 0 @ drop (2 ^ hashBits) table"
    have start: "start = blockStart" using less.prems True by simp
    have be: "blockStart < blockEnd" "blockEnd \<le> length input" "blockEnd - blockStart \<le> 0x10000"
      using True by (auto simp: blockEnd_def)
    have ok: "table_ok hashBits (blockStart - blockStart) table0" "length table0 = length table"
      using less.prems(1) by (auto simp: table_ok_def table0_def nth_append)
    obtain ls table1 w1 where m: "match_loop input blockStart blockEnd hashBits blockStart blockStart 0 table0 (pre @ w) = (ls, table1, pre @ w1)"
        "blockStart \<le> ls" "ls \<le> blockEnd" "coded input k ls w1" "length table1 = length table0"
      using match_loop_coded [OF be(2,3) bits, of blockStart blockStart table0 k w 0 pre] be ok(1) less.prems(3) start by auto
    have c1: "coded input (k + 30) blockEnd (w1 @ literal input ls blockEnd)"
      using m be by (intro coded_literal) auto
    have step: "block_loop input hashBits blockStart table (pre @ w) =
        block_loop input hashBits (blockStart + 65536) table1 (pre @ w1 @ literal input ls blockEnd)"
      using loop True m(1) by (simp add: Let_def blockEnd_def table0_def)
    have "\<exists>table' w'. block_loop input hashBits (blockStart + 65536) table1 (pre @ w1 @ literal input ls blockEnd) = (table', pre @ w') \<and>
        coded input (k + 30 + 30 * ((length input - blockEnd + 65535) div 65536)) (length input) w' \<and> length table' = length table1"
      using less.prems(1) True m(5) ok(2) c1 by (intro less.hyps) (auto simp: blockEnd_def)
    moreover have "(length input - start + 65535) div 65536 = 1 + (length input - blockEnd + 65535) div 65536"
    proof (cases "blockStart + 65536 \<le> length input")
      case True
      then have "length input - start + 65535 = (length input - blockEnd + 65535) + 65536"
        using start by (simp add: blockEnd_def)
      then show ?thesis by (metis add.commute div_add_self2 zero_neq_numeral)
    next
      case short: False
      then have "(length input - start + 65535) div 65536 = 1"
        using start True by (intro div_nat_eqI) simp_all
      then show ?thesis using short by (simp add: blockEnd_def)
    qed
    then have "k + 30 + 30 * ((length input - blockEnd + 65535) div 65536) = k + 30 * ((length input - start + 65535) div 65536)"
      by (simp only: distrib_left)
    ultimately show ?thesis unfolding step using m(5) ok(2) by (simp only:)
  qed
qed

lemma hash_bits_bound: "b \<le> 14 \<Longrightarrow> hash_bits_from n b \<le> 14"
proof (induction n b rule: hash_bits_from.induct)
  case (1 n b)
  show ?case
  proof (cases "2 ^ b < min n (16384 :: nat)")
    case True
    then have "(2 :: nat) ^ b < 2 ^ 14" by simp
    then have "b + 1 \<le> 14" by (simp only: power_strict_increasing_iff)
    then show ?thesis using 1(1) [OF True] True hash_bits_from.simps [of n b] by (simp only: if_True)
  next
    case False
    then show ?thesis using 1(2) hash_bits_from.simps [of n b] by (simp only: if_False)
  qed
qed

lemma length_length_prefix: "n \<le> 0xffffffff \<Longrightarrow> length (length_prefix n) \<le> 5"
proof -
  have "length (length_prefix n) \<le> Suc k" if "n < 128 ^ Suc k" for n k
    using that
  proof (induction k arbitrary: n)
    case 0
    then show ?case by (simp add: length_prefix.simps [of n])
  next
    case (Suc k)
    then have "n div 128 < 128 ^ Suc k" by (intro less_mult_imp_div_less) simp
    then show ?case using Suc.IH [of "n div 128"] by (simp add: length_prefix.simps [of n])
  qed
  from this [of n 4] show "n \<le> 0xffffffff \<Longrightarrow> ?thesis" by simp
qed

lemma encodeSnappy_coded:
  assumes "length input \<le> 0xffffffff" and "length table = 16384"
  obtains w table' where "encodeSnappy table input = Inr (length_prefix (length input) @ w, table')"
    "codes input 0 (length input) w" "length table' = 16384"
    "length (length_prefix (length input) @ w) \<le> output_size (length input)"
proof -
  let ?n = "length input" and ?bits = "hash_bits_from (length input) 8"
  have bits: "?bits \<le> 14" by (simp add: hash_bits_bound)
  then have "(2 :: nat) ^ ?bits \<le> 2 ^ 14" by (intro power_increasing) simp_all
  then have size: "2 ^ ?bits \<le> length table" using assms(2) by simp
  have "coded input 0 0 []" by (simp add: coded_def codes_refl)
  then obtain table' w where loop: "block_loop input ?bits 0 table (length_prefix ?n @ []) = (table', length_prefix ?n @ w)"
      "coded input (0 + 30 * ((?n - 0 + 65535) div 65536)) ?n w" "length table' = length table"
    using block_loop_coded [of ?bits table 0 0 input 0 "[]" "length_prefix ?n"] bits size by auto
  have "30 * length w \<le> 31 * ?n + 30 * ((?n + 65535) div 65536)" using loop(2) by (simp add: coded_def)
  moreover have "(?n + 65535) div 65536 * 65536 \<le> ?n + 65535" by (rule div_times_less_eq_dividend)
  moreover have "?n + 5 = (?n + 5) div 6 * 6 + (?n + 5) mod 6" "(?n + 5) mod 6 < 6" by (simp_all only: div_mult_mod_eq)
  ultimately have "length w + 5 \<le> ?n + (?n + 5) div 6 + 32" by linarith
  then have bound: "length (length_prefix ?n @ w) \<le> output_size ?n"
    using length_length_prefix [OF assms(1)] by (simp add: output_size_def)
  show thesis
  proof (rule that)
    show "encodeSnappy table input = Inr (length_prefix ?n @ w, table')"
      using assms(1) loop(1) bound by (simp add: encodeSnappy_def Let_def)
    show "codes input 0 ?n w" using loop(2) by (simp add: coded_def)
  qed (use loop(3) assms(2) bound in simp_all)
qed

section \<open>The table's old contents\<close>

lemma match_loop_table:
  assumes "hashBits \<le> 32"
  shows "take (2 ^ hashBits) t = take (2 ^ hashBits) u \<Longrightarrow> 2 ^ hashBits \<le> length t \<Longrightarrow> length t = length u \<Longrightarrow>
    \<exists>ls t' u' out'. match_loop input blockStart blockEnd hashBits position literalStart misses t out = (ls, t', out') \<and>
      match_loop input blockStart blockEnd hashBits position literalStart misses u out = (ls, u', out') \<and>
      length t' = length t \<and> length u' = length u"
proof (induction "blockEnd - position" arbitrary: position literalStart misses t u out rule: less_induct)
  case less
  note loops = match_loop.simps [of input blockStart blockEnd hashBits position literalStart misses t out]
    match_loop.simps [of input blockStart blockEnd hashBits position literalStart misses u out]
  show ?case
  proof (cases "position + 4 \<le> blockEnd")
    case False
    then show ?thesis using loops by simp
  next
    case True
    define slot where "slot = hash_slot (word32 input position) hashBits"
    define c where "c = blockStart + t ! slot - 1"
    define v where "v = position - blockStart + 1"
    have "slot < 2 ^ hashBits" using hash_slot_less [OF assms] by (simp add: slot_def)
    then have same: "u ! slot = t ! slot" using less.prems by (metis nth_take)
    have upd: "take (2 ^ hashBits) (t[i := x]) = take (2 ^ hashBits) (u[i := x])" for i x
      using less.prems(1) by (simp add: take_update_swap)
    show ?thesis
    proof (cases "t ! slot = 0 \<or> word32 input position \<noteq> word32 input c")
      case skip: True
      let ?p = "position + 1 + min ((misses + 1) div 32) 64"
      have "match_loop input blockStart blockEnd hashBits position literalStart misses x out =
          match_loop input blockStart blockEnd hashBits ?p literalStart (misses + 1) (x[slot := v]) out" if "x = t \<or> x = u" for x
        using that loops True skip same by (auto simp: Let_def slot_def c_def v_def)
      moreover have "\<exists>ls t' u' out'. match_loop input blockStart blockEnd hashBits ?p literalStart (misses + 1) (t[slot := v]) out = (ls, t', out') \<and>
          match_loop input blockStart blockEnd hashBits ?p literalStart (misses + 1) (u[slot := v]) out = (ls, u', out') \<and>
          length t' = length (t[slot := v]) \<and> length u' = length (u[slot := v])"
        using less.prems True upd by (intro less.hyps) auto
      ultimately show ?thesis by simp
    next
      case match: False
      define q where "q = extend_match input c position blockEnd (position + 4)"
      define out' where "out' = out @ literal input literalStart position @ copy (position - c) (q - position)"
      define upd2 where "upd2 = (\<lambda>x. if q + 4 \<le> blockEnd
          then x[slot := v, hash_slot (word32 input (q - 1)) hashBits := q - blockStart] else x[slot := v])"
      have "position + 4 \<le> q" by (simp add: q_def extend_match_ge)
      have "match_loop input blockStart blockEnd hashBits position literalStart misses x out =
          match_loop input blockStart blockEnd hashBits q q 0 (upd2 x) out'" if "x = t \<or> x = u" for x
        using that loops True match same
        by (auto simp: Let_def slot_def c_def v_def q_def out'_def upd2_def)
      moreover have "\<exists>ls t' u' out''. match_loop input blockStart blockEnd hashBits q q 0 (upd2 t) out' = (ls, t', out'') \<and>
          match_loop input blockStart blockEnd hashBits q q 0 (upd2 u) out' = (ls, u', out'') \<and>
          length t' = length (upd2 t) \<and> length u' = length (upd2 u)"
        using less.prems True upd \<open>position + 4 \<le> q\<close>
        by (intro less.hyps) (auto simp: upd2_def take_update_swap)
      moreover have "length (upd2 x) = length x" for x by (simp add: upd2_def)
      ultimately show ?thesis by simp
    qed
  qed
qed

lemma block_loop_table:
  assumes "hashBits \<le> 32"
  shows "length t = length u \<Longrightarrow> 2 ^ hashBits \<le> length t \<Longrightarrow>
    snd (block_loop input hashBits blockStart t out) = snd (block_loop input hashBits blockStart u out)"
proof (induction "length input - blockStart" arbitrary: blockStart t u out rule: less_induct)
  case less
  note loops = block_loop.simps [of input hashBits blockStart t out] block_loop.simps [of input hashBits blockStart u out]
  show ?case
  proof (cases "blockStart < length input")
    case False
    then show ?thesis using loops by simp
  next
    case True
    let ?be = "min (blockStart + 65536) (length input)"
    let ?t = "\<lambda>x. replicate (2 ^ hashBits) 0 @ drop (2 ^ hashBits) x"
    obtain ls t' u' out' where m: "match_loop input blockStart ?be hashBits blockStart blockStart 0 (?t t) out = (ls, t', out')"
        "match_loop input blockStart ?be hashBits blockStart blockStart 0 (?t u) out = (ls, u', out')"
        "length t' = length (?t t)" "length u' = length (?t u)"
      using match_loop_table [OF assms, of "?t t" "?t u" input blockStart ?be blockStart blockStart 0 out] less.prems by auto
    have "block_loop input hashBits blockStart t out = block_loop input hashBits (blockStart + 65536) t' (out' @ literal input ls ?be)"
      "block_loop input hashBits blockStart u out = block_loop input hashBits (blockStart + 65536) u' (out' @ literal input ls ?be)"
      using loops True m(1,2) by (simp_all add: Let_def)
    moreover have "snd (block_loop input hashBits (blockStart + 65536) t' (out' @ literal input ls ?be)) =
        snd (block_loop input hashBits (blockStart + 65536) u' (out' @ literal input ls ?be))"
      using less.prems True m(3,4) by (intro less.hyps) auto
    ultimately show ?thesis by simp
  qed
qed

section \<open>Output bounds of the decoder\<close>

text \<open>The reference for overlapping copies: one byte after the other.\<close>

fun bytewise_copy :: "bytes \<Rightarrow> nat \<Rightarrow> nat \<Rightarrow> nat \<Rightarrow> bytes" where
  "bytewise_copy out written off 0 = out"
| "bytewise_copy out written off (Suc n) = bytewise_copy (out[written := out ! (written - off)]) (written + 1) off n"

lemma bytewise_copy_eq:
  "0 < off \<Longrightarrow> off \<le> length d \<Longrightarrow> n \<le> length z \<Longrightarrow>
     bytewise_copy (d @ z) (length d) off n = d @ repeat_tail d off n @ drop n z"
proof (induction n arbitrary: d z)
  case 0
  then show ?case by (simp add: repeat_tail_def)
next
  case (Suc n)
  obtain b z' where z: "z = b # z'" using Suc.prems(3) by (cases z) auto
  let ?x = "d ! (length d - off)"
  have one: "repeat_tail d off 1 = [?x]" by (simp add: repeat_tail_def)
  have "length d - off < length d" using Suc.prems by simp
  then have "bytewise_copy (d @ z) (length d) off (Suc n) = bytewise_copy ((d @ [?x]) @ z') (length (d @ [?x])) off n"
    by (simp add: z nth_append list_update_append)
  also have "\<dots> = (d @ [?x]) @ repeat_tail (d @ [?x]) off n @ drop n z'"
    using Suc.prems z by (intro Suc.IH) auto
  also have "\<dots> = d @ repeat_tail d off (1 + n) @ drop (Suc n) z"
    unfolding repeat_tail_add [OF Suc.prems(1,2)] one by (simp add: z)
  finally show ?case by simp
qed

lemma split_at: "w \<le> length out \<Longrightarrow> \<exists>d z. out = d @ z \<and> length d = w"
  by (metis append_take_drop_id length_take min.absorb2)

lemma expand_copy_bytewise:
  assumes "0 < off" "off \<le> written" "written + count \<le> length out"
  shows "expand_copy out written off count 0 = bytewise_copy out written off count"
    and "length (expand_copy out written off count 0) = length out"
proof -
  obtain d z where out: "out = d @ z" "length d = written" using split_at [of written out] assms(3) by auto
  have "expand_copy out written off count 0 = d @ repeat_tail d off count @ drop count z"
    using expand_copy_eq [of off d count z 0] assms out by (simp add: repeat_tail_def)
  moreover have "bytewise_copy out written off count = d @ repeat_tail d off count @ drop count z"
    using bytewise_copy_eq [of off d count z] assms out by simp
  ultimately show "expand_copy out written off count 0 = bytewise_copy out written off count"
    and "length (expand_copy out written off count 0) = length out"
    using assms out by simp_all
qed

lemma decode_loop_length:
  "length arr = len \<Longrightarrow> written \<le> len \<Longrightarrow> decode_loop len rest arr written = Inr (out, n) \<Longrightarrow> length out = len"
proof (induction len rest arr written rule: decode_loop.induct)
  case (1 len arr written)
  then show ?case by simp
next
  case (2 len b rest arr written)
  show ?case
  proof (cases "unat b AND 3 = 0")
    case True
    let ?c0 = "drop_bit 2 (unat b)"
    let ?lb = "if ?c0 < 60 then 0 else ?c0 - 59"
    let ?count = "if ?c0 < 60 then ?c0 + 1 else 1 + le_val (take ?lb rest)"
    have guards: "\<not> (60 \<le> ?c0 \<and> length rest < ?c0 - 59)" "\<not> (length (drop ?lb rest) < ?count \<or> len - written < ?count)"
      and cont: "decode_loop len (drop ?count (drop ?lb rest)) (overlay arr written (take ?count (drop ?lb rest))) (written + ?count) = Inr (out, n)"
      using 2(5) True unfolding decode_loop.simps(2) Let_def by (simp_all split: if_splits)
    have "length (overlay arr written (take ?count (drop ?lb rest))) = len" "written + ?count \<le> len"
      using guards 2(3,4) by (auto simp del: drop_drop)
    then show ?thesis
      using 2(1) [OF refl refl True refl guards(1) refl refl refl guards(2)] cont by blast
  next
    case False
    let ?kind = "unat b AND 3"
    let ?ob = "if ?kind = 1 then 1 else if ?kind = 2 then 2 else 4 :: nat"
    let ?count = "if ?kind = 1 then 4 + (drop_bit 2 (unat b) AND 7) else 1 + drop_bit 2 (unat b)"
    let ?off = "(if ?kind = 1 then push_bit 3 (unat b AND 0xe0) else 0) + le_val (take ?ob rest)"
    have guards: "\<not> length rest < ?ob" "\<not> (?off = 0 \<or> written < ?off \<or> len - written < ?count)"
      and cont: "decode_loop len (drop ?ob rest) (expand_copy arr written ?off ?count 0) (written + ?count) = Inr (out, n)"
      using 2(5) False unfolding decode_loop.simps(2) Let_def by (simp_all only: if_False split: if_splits) auto
    have "length (expand_copy arr written ?off ?count 0) = len" "written + ?count \<le> len"
      using guards(2) 2(3,4) expand_copy_bytewise(2) [of ?off written ?count arr] by auto
    then show ?thesis
      using 2(2) [OF refl refl False refl guards(1) refl refl guards(2)] cont by blast
  qed
qed

lemma snappy_decodes:
  assumes "length table = 16384" and "f64_is_safe_integer m"
    and "int (length input) \<le> f64_int m" and "f64_int m \<le> 0xffffffff"
    and "e = None \<or> (\<exists>x. e = Some x \<and> f64_is_integer x \<and> f64_int x = int (length input))"
  shows "\<exists>block table'. encodeSnappy table input = Inr (block, table') \<and> length table' = 16384 \<and>
    decodeSnappy block m e = Inr input"
proof -
  let ?n = "length input"
  have n: "?n \<le> 0xffffffff" using assms(3,4) by linarith
  obtain w table' where enc: "encodeSnappy table input = Inr (length_prefix ?n @ w, table')" "length table' = 16384"
      and w: "codes input 0 ?n w"
    using encodeSnappy_coded [OF n assms(1)] by blast
  have len: "read_length (length_prefix ?n @ w) 0 0 = Inr (?n, w)"
    using read_length_prefix [of ?n 0 w 0] n by simp
  have "decode_loop ?n (w @ []) (take 0 input @ replicate ?n 0) 0 = decode_loop ?n [] (take ?n input @ drop (?n - 0) (replicate ?n 0)) ?n"
    using w unfolding codes_def by (metis diff_zero length_replicate)
  then have "decode_loop ?n w (replicate ?n 0) 0 = Inr (input, ?n)" by simp
  then have "decodeSnappy (length_prefix ?n @ w) m e = Inr input"
    using assms(2-5) len by (auto simp: decodeSnappy_def not_less)
  with enc show ?thesis by blast
qed

section \<open>Properties\<close>

text \<open>
  C14. Decoding an encoded block returns the input: for every input below the 32 bit limit, whatever
  the match table holds, the encoder succeeds, and the decoder, given a limit and an expected length
  that admit the input, reproduces it.
\<close>

theorem snappy_round_trip:
  assumes "length table = 16384" and "f64_is_safe_integer m"
    and "int (length input) \<le> f64_int m" and "f64_int m \<le> 0xffffffff"
    and "e = None \<or> (\<exists>x. e = Some x \<and> f64_is_integer x \<and> f64_int x = int (length input))"
  shows "\<exists>block table'. encodeSnappy table input = Inr (block, table') \<and> length table' = 16384 \<and>
    decodeSnappy block m e = Inr input"
  using assms by (rule snappy_decodes)

theorem snappy_round_trip_witness:
  "\<exists>block table'. encodeSnappy (replicate 16384 0) [1, 2, 3] = Inr (block, table') \<and>
     decodeSnappy block 0x4008000000000000 None = Inr [1, 2, 3]"
proof -
  have m: "mag_scaled (f64_mag 0x4008000000000000) = 3 * 2 ^ 1074"
    by (simp add: f64_mag_def mag_scaled_def)
  have "\<not> f64_negative 0x4008000000000000" by (simp add: f64_negative_def)
  then have v: "f64_scaled 0x4008000000000000 = 3 * f64_unit"
    by (simp add: f64_scaled_def m f64_unit_def)
  have "f64_is_finite 0x4008000000000000" by (simp add: f64_is_finite_def f64_mag_def)
  then have i: "f64_is_safe_integer 0x4008000000000000" "f64_int 0x4008000000000000 = 3"
    by (simp_all add: f64_is_safe_integer_def f64_is_integer_def f64_int_def v max_safe_integer_def f64_unit_def)
  show ?thesis
    using snappy_round_trip [of "replicate 16384 0" "0x4008000000000000" "[1, 2, 3]" None] i by auto
qed

text \<open>
  C15. The encoder stays within the buffer it allocates, and its output does not depend on what an
  earlier call left in the match table.
\<close>

theorem snappy_buffer_and_table:
  assumes "length input \<le> 0xffffffff" and "length table = 16384" and "length table2 = 16384"
  shows "\<exists>block t t2. encodeSnappy table input = Inr (block, t) \<and> encodeSnappy table2 input = Inr (block, t2) \<and>
    length block \<le> output_size (length input)"
proof -
  let ?bits = "hash_bits_from (length input) 8"
  obtain w t where e: "encodeSnappy table input = Inr (length_prefix (length input) @ w, t)"
      "length (length_prefix (length input) @ w) \<le> output_size (length input)"
    using encodeSnappy_coded [OF assms(1,2)] by blast
  obtain w2 t2 where e2: "encodeSnappy table2 input = Inr (length_prefix (length input) @ w2, t2)"
    using encodeSnappy_coded [OF assms(1,3)] by blast
  have bits: "?bits \<le> 14" by (simp add: hash_bits_bound)
  then have "(2 :: nat) ^ ?bits \<le> 2 ^ 14" by (intro power_increasing) simp_all
  then have "snd (block_loop input ?bits 0 table (length_prefix (length input))) =
      snd (block_loop input ?bits 0 table2 (length_prefix (length input)))"
    using assms bits by (intro block_loop_table) simp_all
  then have "w = w2"
    using e(1) e2 by (auto simp: encodeSnappy_def Let_def split: if_splits prod.splits)
  with e e2 show ?thesis by blast
qed

theorem snappy_buffer_and_table_witness:
  "\<exists>block t t2. encodeSnappy (replicate 16384 0) [7] = Inr (block, t) \<and> encodeSnappy (replicate 16384 9) [7] = Inr (block, t2)"
  using snappy_buffer_and_table [of "[7]" "replicate 16384 0" "replicate 16384 9"] by auto

text \<open>
  The doubling copy of the decoder is the overlapping copy of the format, one byte after the
  other, for every valid offset and count.
\<close>

theorem expand_copy_reference:
  assumes "0 < off" and "off \<le> written" and "written + count \<le> length out"
  shows "expand_copy out written off count 0 = bytewise_copy out written off count"
  using assms by (rule expand_copy_bytewise)

theorem expand_copy_reference_witness:
  "expand_copy [1, 2, 0, 0, 0] 2 2 3 0 = [1, 2, 1, 2, 1]"
  using expand_copy_reference [of 2 2 3 "[1, 2, 0, 0, 0]"] by (simp add: numeral_3_eq_3 numeral_2_eq_2)

text \<open>
  A block never decodes to more bytes than the caller's limit, nor to another number of bytes
  than the caller expects, whatever the block contains.
\<close>

theorem decodeSnappy_bounded:
  assumes "decodeSnappy block m e = Inr out"
  shows "int (length out) \<le> f64_int m \<and> (\<forall>x. e = Some x \<longrightarrow> f64_int x = int (length out))"
proof -
  obtain len rest written where "read_length block 0 0 = Inr (len, rest)" "\<not> f64_int m < int len"
      "\<not> (case e of None \<Rightarrow> False | Some e \<Rightarrow> \<not> (f64_is_integer e \<and> f64_int e = int len))"
      "decode_loop len rest (replicate len 0) 0 = Inr (out, written)"
    using assms by (auto simp: decodeSnappy_def bindr_eq_Inr split: if_splits)
  moreover from this(4) have "length out = len"
    using decode_loop_length [of "replicate len 0" len 0 rest out written] by simp
  ultimately show ?thesis by (auto simp: not_less)
qed

theorem decodeSnappy_bounded_witness: "decodeSnappy [0] 0 None = Inr [] \<and> f64_int 0 \<ge> 0"
proof -
  have z: "f64_scaled 0 = 0" "f64_is_finite 0" by (simp_all add: f64_scaled_def f64_mag_def f64_is_finite_def)
  then have "f64_is_safe_integer 0" "f64_int 0 = 0"
    by (simp_all add: f64_is_safe_integer_def f64_is_integer_def f64_int_def max_safe_integer_def)
  then have d: "decodeSnappy [0] 0 None = Inr []"
    by (simp add: decodeSnappy_def read_length.simps)
  then show ?thesis using decodeSnappy_bounded [OF d] by simp
qed

end
