(* ===== verification/Crc32.thy ===== *)
theory Crc32
  imports Prelude
begin

text \<open>
  The checksum of compression envelopes, from \<^verbatim>\<open>packages/sdk/src/compression.ts\<close>: the eight tables
  are built by the loops of the module initializer, and \<open>crc32\<close> consumes eight bytes per step. The
  lemmas show that this is the bitwise CRC-32 of the byte string and that it detects every change
  confined to four consecutive bytes.
\<close>

section \<open>Tables and checksum\<close>

definition crc_bit :: "32 word \<Rightarrow> 32 word" where
  "crc_bit crc = (if crc AND 1 \<noteq> 0 then drop_bit 1 crc XOR 0xedb88320 else drop_bit 1 crc)"

definition crc_base :: "nat \<Rightarrow> 32 word" where
  "crc_base index = (crc_bit ^^ 8) (of_nat index)"

text \<open>The second pair of loops fills \<^verbatim>\<open>table[slice * 256 + index]\<close> from the first 256 entries.\<close>

fun crc_slice :: "nat \<Rightarrow> nat \<Rightarrow> 32 word" where
  "crc_slice 0 index = crc_base index"
| "crc_slice (Suc s) index =
     (let crc = crc_slice s index in drop_bit 8 crc XOR crc_base (unat (crc AND 0xff)))"

definition CRC32_TABLE :: "32 word list" where
  "CRC32_TABLE = concat (map (\<lambda>s. map (crc_slice s) [0..<256]) [0..<8])"

fun crc_blocks :: "32 word \<Rightarrow> bytes \<Rightarrow> 32 word \<times> bytes" where
  "crc_blocks crc (b0 # b1 # b2 # b3 # b4 # b5 # b6 # b7 # rest) =
     (let first = crc XOR ucast b0 XOR push_bit 8 (ucast b1) XOR push_bit 16 (ucast b2) XOR push_bit 24 (ucast b3)
      in crc_blocks
           (CRC32_TABLE ! (1792 + unat (first AND 0xff)) XOR
            CRC32_TABLE ! (1536 + unat (drop_bit 8 first AND 0xff)) XOR
            CRC32_TABLE ! (1280 + unat (drop_bit 16 first AND 0xff)) XOR
            CRC32_TABLE ! (1024 + unat (drop_bit 24 first)) XOR
            CRC32_TABLE ! (768 + unat b4) XOR
            CRC32_TABLE ! (512 + unat b5) XOR
            CRC32_TABLE ! (256 + unat b6) XOR
            CRC32_TABLE ! unat b7) rest)"
| "crc_blocks crc bs = (crc, bs)"

fun crc_tail :: "32 word \<Rightarrow> bytes \<Rightarrow> 32 word" where
  "crc_tail crc [] = crc"
| "crc_tail crc (b # bs) = crc_tail (drop_bit 8 crc XOR CRC32_TABLE ! unat ((crc XOR ucast b) AND 0xff)) bs"

definition crc32 :: "bytes \<Rightarrow> nat" where
  "crc32 bs = (case crc_blocks 0xffffffff bs of (crc, rest) \<Rightarrow> unat (crc_tail crc rest XOR 0xffffffff))"

section \<open>The bitwise reference\<close>

text \<open>One byte of a reflected CRC: add the byte, then shift eight times.\<close>

definition crc_byte :: "32 word \<Rightarrow> 32 word" where
  "crc_byte = crc_bit ^^ 8"

definition crc_update :: "32 word \<Rightarrow> byte \<Rightarrow> 32 word" where
  "crc_update crc b = crc_byte (crc XOR ucast b)"

definition crc32_reference :: "bytes \<Rightarrow> nat" where
  "crc32_reference bs = unat (foldl crc_update 0xffffffff bs XOR 0xffffffff)"

lemma crc_bit_alt: "crc_bit x = drop_bit 1 x XOR (if odd x then 0xedb88320 else 0)"
  by (simp add: crc_bit_def and_one_eq odd_iff_mod_2_eq_one)

lemma crc_bit_xor: "crc_bit (x XOR y) = crc_bit x XOR crc_bit y"
  unfolding crc_bit_alt drop_bit_xor
  by (cases "odd x"; cases "odd y") (simp_all add: even_xor_iff ac_simps)

lemma crc_bit_pow_xor: "(crc_bit ^^ n) (x XOR y) = (crc_bit ^^ n) x XOR (crc_bit ^^ n) y"
  by (induction n) (simp_all add: crc_bit_xor)

lemma crc_byte_xor: "crc_byte (x XOR y) = crc_byte x XOR crc_byte y"
  by (simp add: crc_byte_def crc_bit_pow_xor)

lemma crc_byte_pow_xor: "(crc_byte ^^ n) (x XOR y) = (crc_byte ^^ n) x XOR (crc_byte ^^ n) y"
  by (induction n) (simp_all add: crc_byte_xor)

lemma crc_bit_even: "even x \<Longrightarrow> crc_bit x = drop_bit 1 x"
  by (simp add: crc_bit_alt)

lemma crc_bit_shift: "n \<le> 8 \<Longrightarrow> (\<And>k. k < 8 \<Longrightarrow> \<not> bit x k) \<Longrightarrow> (crc_bit ^^ n) x = drop_bit n x"
proof (induction n)
  case 0
  then show ?case by simp
next
  case (Suc n)
  have "even (drop_bit n x)"
    using Suc.prems by (simp add: even_drop_bit_iff_not_bit)
  then show ?case
    using Suc by (simp add: crc_bit_even drop_bit_drop_bit)
qed

lemma crc_byte_shift: "x AND 0xff = 0 \<Longrightarrow> crc_byte x = drop_bit 8 x"
proof -
  assume "x AND 0xff = 0"
  then have "take_bit 8 x = 0" by (simp add: take_bit_eq_mask mask_eq_exp_minus_1)
  then have "\<not> bit x k" if "k < 8" for k
    using that by (metis bit_take_bit_iff bit_0_eq bot_apply bot_bool_def)
  then show ?thesis by (simp add: crc_byte_def crc_bit_shift)
qed

lemma low_byte_split: "x = (x AND NOT 0xff) XOR (x AND 0xff)" for x :: "32 word"
  by (rule bit_word_eqI) (auto simp: bit_simps)

lemma crc_byte_split: "crc_byte x = drop_bit 8 x XOR crc_byte (x AND 0xff)"
proof -
  have "crc_byte x = crc_byte (x AND NOT 0xff) XOR crc_byte (x AND 0xff)"
    using low_byte_split [of x] crc_byte_xor [of "x AND NOT 0xff" "x AND 0xff"] by simp
  moreover have "crc_byte (x AND NOT 0xff) = drop_bit 8 (x AND NOT 0xff)"
    by (rule crc_byte_shift) (simp add: and.assoc)
  moreover have "drop_bit 8 (x AND NOT (mask 8)) = drop_bit 8 x"
    by (rule bit_word_eqI) (auto simp: bit_simps dest: bit_imp_le_length)
  then have "drop_bit 8 (x AND NOT 0xff) = drop_bit 8 x"
    by (simp add: mask_eq_exp_minus_1)
  ultimately show ?thesis by simp
qed

section \<open>The tables\<close>

lemma and_ff_less: "unat (x AND 0xff) < 256" for x :: "32 word"
proof -
  have "x AND 0xff = take_bit 8 x" by (simp add: take_bit_eq_mask mask_eq_exp_minus_1)
  then show ?thesis
    using take_bit_nat_less_exp [of 8 "unat x"] by (simp add: unsigned_take_bit_eq)
qed

lemma crc_base_low: "crc_base (unat (x AND 0xff)) = crc_byte (x AND 0xff)"
  by (simp add: crc_base_def crc_byte_def)

lemma crc_slice_eq: "crc_slice s i = (crc_byte ^^ Suc s) (of_nat i)"
proof (induction s)
  case 0
  then show ?case by (simp add: crc_base_def crc_byte_def)
next
  case (Suc s)
  have "crc_slice (Suc s) i = crc_byte (crc_slice s i)"
    by (simp add: Let_def crc_base_low flip: crc_byte_split)
  with Suc show ?case by simp
qed

lemma CRC32_TABLE_nth:
  assumes "s < 8" "i < 256"
  shows "CRC32_TABLE ! (s * 256 + i) = (crc_byte ^^ Suc s) (of_nat i)"
proof -
  have rows: "concat (map (\<lambda>s. map (crc_slice s) [0..<256]) [0..<n]) ! (s * 256 + i) = crc_slice s i" if "s < n" for n
    using that
  proof (induction n)
    case 0
    then show ?case by simp
  next
    case (Suc n)
    have len: "length (concat (map (\<lambda>s. map (crc_slice s) [0..<256]) [0..<n])) = n * 256"
      by (induction n) simp_all
    show ?case
    proof (cases "s < n")
      case True
      then have "s * 256 + i < n * 256" using assms(2) by (metis add_less_mono1 less_le_trans Suc_leI mult_Suc mult_le_mono1 add.commute add_less_cancel_left)
      then show ?thesis using Suc.IH True len by (simp add: nth_append)
    next
      case False
      then have "s = n" using Suc.prems by simp
      then show ?thesis using len assms(2) by (simp add: nth_append)
    qed
  qed
  then show ?thesis using assms by (simp add: CRC32_TABLE_def crc_slice_eq)
qed

lemma CRC32_TABLE_row:
  "s < 8 \<Longrightarrow> i < 256 \<Longrightarrow> k = s * 256 \<Longrightarrow> n = Suc s \<Longrightarrow> CRC32_TABLE ! (k + i) = (crc_byte ^^ n) (of_nat i)"
  by (simp only: CRC32_TABLE_nth)

lemma table_rows:
  "i < 256 \<Longrightarrow> CRC32_TABLE ! i = crc_byte (of_nat i)"
  "i < 256 \<Longrightarrow> CRC32_TABLE ! (256 + i) = (crc_byte ^^ 2) (of_nat i)"
  "i < 256 \<Longrightarrow> CRC32_TABLE ! (512 + i) = (crc_byte ^^ 3) (of_nat i)"
  "i < 256 \<Longrightarrow> CRC32_TABLE ! (768 + i) = (crc_byte ^^ 4) (of_nat i)"
  "i < 256 \<Longrightarrow> CRC32_TABLE ! (1024 + i) = (crc_byte ^^ 5) (of_nat i)"
  "i < 256 \<Longrightarrow> CRC32_TABLE ! (1280 + i) = (crc_byte ^^ 6) (of_nat i)"
  "i < 256 \<Longrightarrow> CRC32_TABLE ! (1536 + i) = (crc_byte ^^ 7) (of_nat i)"
  "i < 256 \<Longrightarrow> CRC32_TABLE ! (1792 + i) = (crc_byte ^^ 8) (of_nat i)"
proof -
  assume i: "i < 256"
  show "CRC32_TABLE ! i = crc_byte (of_nat i)"
    using CRC32_TABLE_row [of 0 i 0 1] i by simp
  show "CRC32_TABLE ! (256 + i) = (crc_byte ^^ 2) (of_nat i)" by (rule CRC32_TABLE_row [of 1]) (use i in simp_all)
  show "CRC32_TABLE ! (512 + i) = (crc_byte ^^ 3) (of_nat i)" by (rule CRC32_TABLE_row [of 2]) (use i in simp_all)
  show "CRC32_TABLE ! (768 + i) = (crc_byte ^^ 4) (of_nat i)" by (rule CRC32_TABLE_row [of 3]) (use i in simp_all)
  show "CRC32_TABLE ! (1024 + i) = (crc_byte ^^ 5) (of_nat i)" by (rule CRC32_TABLE_row [of 4]) (use i in simp_all)
  show "CRC32_TABLE ! (1280 + i) = (crc_byte ^^ 6) (of_nat i)" by (rule CRC32_TABLE_row [of 5]) (use i in simp_all)
  show "CRC32_TABLE ! (1536 + i) = (crc_byte ^^ 7) (of_nat i)" by (rule CRC32_TABLE_row [of 6]) (use i in simp_all)
  show "CRC32_TABLE ! (1792 + i) = (crc_byte ^^ 8) (of_nat i)" by (rule CRC32_TABLE_row [of 7]) (use i in simp_all)
qed

section \<open>Eight bytes at a time\<close>

lemma ff_mask: "(0xff :: 32 word) = mask 8"
  by (simp add: mask_eq_exp_minus_1)

lemma word_bytes:
  "x = (x AND 0xff) XOR push_bit 8 (drop_bit 8 x AND 0xff) XOR push_bit 16 (drop_bit 16 x AND 0xff) XOR
     push_bit 24 (drop_bit 24 x)" for x :: "32 word"
  unfolding ff_mask
proof (rule bit_word_eqI)
  fix n assume "n < LENGTH(32)"
  then consider "n < 8" | "8 \<le> n" "n < 16" | "16 \<le> n" "n < 24" | "24 \<le> n" "n < 32" by fastforce
  then show "bit x n = bit ((x AND mask 8) XOR push_bit 8 (drop_bit 8 x AND mask 8) XOR
      push_bit 16 (drop_bit 16 x AND mask 8) XOR push_bit 24 (drop_bit 24 x)) n"
    by cases (auto simp: bit_simps)
qed

lemma crc_byte_push: "crc_byte (push_bit (8 + k) x) = push_bit k (x :: 32 word)" if "\<And>n. bit x n \<Longrightarrow> n + 8 + k < 32"
proof -
  have "crc_byte (push_bit (8 + k) x) = drop_bit 8 (push_bit (8 + k) x)"
    unfolding ff_mask by (rule crc_byte_shift) (auto intro!: bit_word_eqI simp: ff_mask bit_simps)
  also have "\<dots> = push_bit k x"
  proof (rule bit_word_eqI)
    fix n assume "n < LENGTH(32)"
    then show "bit (drop_bit 8 (push_bit (8 + k) x)) n = bit (push_bit k x) n"
      using that [of "n - k"] by (auto simp: bit_simps)
  qed
  finally show ?thesis .
qed

lemma crc_byte_pows:
  "(crc_byte ^^ 2) x = crc_byte (crc_byte x)"
  "(crc_byte ^^ 3) x = crc_byte (crc_byte (crc_byte x))"
  "(crc_byte ^^ 4) x = crc_byte (crc_byte (crc_byte (crc_byte x)))"
  "(crc_byte ^^ 5) x = crc_byte (crc_byte (crc_byte (crc_byte (crc_byte x))))"
  "(crc_byte ^^ 6) x = (crc_byte ^^ 5) (crc_byte x)"
  "(crc_byte ^^ 7) x = (crc_byte ^^ 6) (crc_byte x)"
  "(crc_byte ^^ 8) x = (crc_byte ^^ 7) (crc_byte x)"
  by (simp_all add: eval_nat_numeral)

lemma crc_byte_shifted:
  assumes "\<And>n. bit x n \<Longrightarrow> n < 8"
  shows "(crc_byte ^^ 8) (push_bit 8 x) = (crc_byte ^^ 7) x"
    "(crc_byte ^^ 8) (push_bit 16 x) = (crc_byte ^^ 6) x"
    "(crc_byte ^^ 8) (push_bit 24 x) = (crc_byte ^^ 5) x"
proof -
  have "crc_byte (push_bit 8 x) = x" "crc_byte (push_bit 16 x) = push_bit 8 x" "crc_byte (push_bit 24 x) = push_bit 16 x"
    using crc_byte_push [of x 0] crc_byte_push [of x 8] crc_byte_push [of x 16] assms by fastforce+
  then show "(crc_byte ^^ 8) (push_bit 8 x) = (crc_byte ^^ 7) x"
    "(crc_byte ^^ 8) (push_bit 16 x) = (crc_byte ^^ 6) x" "(crc_byte ^^ 8) (push_bit 24 x) = (crc_byte ^^ 5) x"
    by (simp_all only: crc_byte_pows(5-7))
qed

lemma byte_bits: "bit (ucast b :: 32 word) n \<Longrightarrow> n < 8" for b :: byte
  by (auto simp: bit_simps dest: bit_imp_le_length)

lemma low_bits: "bit (x AND 0xff :: 32 word) n \<Longrightarrow> n < 8" "bit (drop_bit 24 x :: 32 word) n \<Longrightarrow> n < 8"
  unfolding ff_mask by (auto simp: bit_simps dest: bit_imp_le_length)

lemma crc_byte8:
  "(crc_byte ^^ 8) x = (crc_byte ^^ 8) (x AND 0xff) XOR (crc_byte ^^ 7) (drop_bit 8 x AND 0xff) XOR
     (crc_byte ^^ 6) (drop_bit 16 x AND 0xff) XOR (crc_byte ^^ 5) (drop_bit 24 x)"
  by (subst word_bytes [of x]) (simp only: crc_byte_pow_xor crc_byte_shifted [OF low_bits(1)] crc_byte_shifted [OF low_bits(2)])

lemma foldl_eight:
  "foldl crc_update crc [b0, b1, b2, b3, b4, b5, b6, b7] =
     (crc_byte ^^ 8) (crc XOR ucast b0 XOR push_bit 8 (ucast b1) XOR push_bit 16 (ucast b2) XOR push_bit 24 (ucast b3)) XOR
     (crc_byte ^^ 4) (ucast b4) XOR (crc_byte ^^ 3) (ucast b5) XOR (crc_byte ^^ 2) (ucast b6) XOR crc_byte (ucast b7)"
  by (simp only: crc_byte_pow_xor crc_byte_shifted [OF byte_bits])
    (simp add: crc_update_def crc_byte_xor crc_byte_pows ac_simps)

lemma crc_blocks_eq: "crc_blocks crc bs = (c, rest) \<Longrightarrow> foldl crc_update crc bs = foldl crc_update c rest"
proof (induction crc bs rule: crc_blocks.induct)
  case (1 crc b0 b1 b2 b3 b4 b5 b6 b7 bs)
  define first where "first = crc XOR ucast b0 XOR push_bit 8 (ucast b1) XOR push_bit 16 (ucast b2) XOR push_bit 24 (ucast b3)"
  have "unat (drop_bit 24 first) < 256"
  proof -
    have "drop_bit 24 first = drop_bit 24 first AND 0xff"
      unfolding ff_mask using low_bits(2) [of first] by (intro bit_word_eqI) (auto simp: bit_and_iff bit_mask_iff)
    then show ?thesis using and_ff_less [of "drop_bit 24 first"] by simp
  qed
  then have "CRC32_TABLE ! (1792 + unat (first AND 0xff)) XOR CRC32_TABLE ! (1536 + unat (drop_bit 8 first AND 0xff)) XOR
      CRC32_TABLE ! (1280 + unat (drop_bit 16 first AND 0xff)) XOR CRC32_TABLE ! (1024 + unat (drop_bit 24 first)) XOR
      CRC32_TABLE ! (768 + unat b4) XOR CRC32_TABLE ! (512 + unat b5) XOR CRC32_TABLE ! (256 + unat b6) XOR
      CRC32_TABLE ! unat b7 = foldl crc_update crc [b0, b1, b2, b3, b4, b5, b6, b7]"
    unfolding foldl_eight first_def [symmetric] crc_byte8 [of first]
    by (simp only: table_rows and_ff_less unat_byte_less xor.assoc of_nat_unat ucast_id)
  then show ?case
    using 1 by (simp add: Let_def flip: first_def)
qed simp_all

lemma crc_tail_eq: "crc_tail crc bs = foldl crc_update crc bs"
proof (induction bs arbitrary: crc)
  case Nil
  then show ?case by simp
next
  case (Cons b bs)
  have "drop_bit 8 (crc XOR ucast b) = drop_bit 8 crc"
    by (rule bit_word_eqI) (auto simp: bit_simps dest: bit_imp_le_length)
  then have "drop_bit 8 crc XOR CRC32_TABLE ! unat ((crc XOR ucast b) AND 0xff) = crc_update crc b"
    unfolding crc_update_def crc_byte_split [of "crc XOR ucast b"]
    using table_rows(1) [OF and_ff_less, of "crc XOR ucast b"] by simp
  with Cons show ?case by simp
qed

lemma crc32_eq: "crc32 bs = crc32_reference bs"
  by (auto simp: crc32_def crc32_reference_def crc_tail_eq crc_blocks_eq split: prod.splits)

section \<open>Error detection\<close>

lemma xor_zero: "a XOR b = 0 \<Longrightarrow> a = b" for a b :: "'a :: len word"
  by (metis xor.assoc xor_self_eq xor.left_neutral xor.right_neutral)

lemma xor_right_cancel: "a XOR c = b XOR c \<Longrightarrow> a = b" for a b c :: "'a :: len word"
  by (metis xor.assoc xor_self_eq xor.right_neutral)

lemma crc_bit_eq_0: "crc_bit x = 0 \<longleftrightarrow> x = 0"
proof
  assume zero: "crc_bit x = 0"
  have "\<not> bit (drop_bit 1 x) 31" by (auto simp: bit_simps dest: bit_imp_le_length)
  moreover have "bit (0xedb88320 :: 32 word) 31" by simp
  ultimately have "even x"
    using zero xor_zero [of "drop_bit 1 x" "0xedb88320"] by (auto simp: crc_bit_alt split: if_splits)
  then have "drop_bit 1 x = 0" using zero by (simp add: crc_bit_alt)
  show "x = 0"
  proof (rule bit_word_eqI)
    fix n
    show "bit x n = bit 0 n"
      using \<open>even x\<close> arg_cong [OF \<open>drop_bit 1 x = 0\<close>, of "\<lambda>w. bit w (n - 1)"]
      by (cases n) (simp_all add: bit_0 bit_drop_bit_eq)
  qed
qed (simp add: crc_bit_alt)

lemma crc_byte_pow_eq_0: "(crc_byte ^^ n) x = 0 \<longleftrightarrow> x = 0"
proof -
  have "(crc_bit ^^ k) y = 0 \<longleftrightarrow> y = 0" for k y
    by (induction k) (simp_all add: crc_bit_eq_0)
  then have "crc_byte y = 0 \<longleftrightarrow> y = 0" for y by (simp add: crc_byte_def)
  then show ?thesis by (induction n) simp_all
qed

lemma foldl_crc_xor:
  "length as = length bs \<Longrightarrow> foldl crc_update x as XOR foldl crc_update y bs =
     foldl crc_update (x XOR y) (map2 (XOR) as bs)"
proof (induction as bs arbitrary: x y rule: list_induct2)
  case Nil
  then show ?case by simp
next
  case (Cons a as b bs)
  have "crc_update x a XOR crc_update y b = crc_update (x XOR y) (a XOR b)"
    by (simp add: crc_update_def crc_byte_xor ac_simps unsigned_xor_eq)
  with Cons.IH [of "crc_update x a" "crc_update y b"] show ?case by simp
qed

text \<open>Up to four bytes as one word, the first byte in the low bits.\<close>

fun le_word :: "bytes \<Rightarrow> 32 word" where
  "le_word [] = 0"
| "le_word (d # ds) = ucast d XOR push_bit 8 (le_word ds)"

lemma le_word_bits: "bit (le_word ds) n \<Longrightarrow> n < 8 * length ds"
proof (induction ds arbitrary: n)
  case Nil
  then show ?case by simp
next
  case (Cons d ds)
  have "bit (ucast d :: 32 word) n \<or> 8 \<le> n \<and> bit (le_word ds) (n - 8)"
    using Cons.prems by (auto simp: bit_simps)
  then show ?case using byte_bits [of d n] Cons.IH [of "n - 8"] by auto
qed

lemma le_word_eq_0: "length ds \<le> 4 \<Longrightarrow> le_word ds = 0 \<Longrightarrow> set ds \<subseteq> {0}"
proof (induction ds)
  case Nil
  then show ?case by simp
next
  case (Cons d ds)
  have eq: "bit (ucast d :: 32 word) n = (8 \<le> n \<and> n < 32 \<and> bit (le_word ds) (n - 8))" for n
    using arg_cong [OF Cons.prems(2), of "\<lambda>w. bit w n"] by (auto simp: bit_simps)
  have zero: "ucast d = (0 :: 32 word)"
    using eq byte_bits [of d] by (intro bit_word_eqI) fastforce
  have "\<not> bit d n" for n
    using arg_cong [OF zero, of "\<lambda>w. bit w n"] bit_imp_le_length [of d n]
    by (auto simp: bit_simps)
  then have "d = 0" by (intro bit_word_eqI) simp
  moreover have "\<not> bit (le_word ds) m" for m
    using eq [of "m + 8"] zero le_word_bits [of ds m] Cons.prems(1) by auto
  then have "le_word ds = 0" by (intro bit_word_eqI) simp
  ultimately show ?case using Cons by simp
qed

lemma foldl_le_word: "length ds \<le> 4 \<Longrightarrow> foldl crc_update x ds = (crc_byte ^^ length ds) (x XOR le_word ds)"
proof (induction ds arbitrary: x)
  case Nil
  then show ?case by simp
next
  case (Cons d ds)
  have "bit (le_word ds) n \<Longrightarrow> n + 8 + 0 < 32" for n
    using le_word_bits [of ds n] Cons.prems by simp
  then have "crc_byte (push_bit 8 (le_word ds)) = le_word ds"
    using crc_byte_push [of "le_word ds" 0] by simp
  then have "crc_byte (x XOR ucast d XOR push_bit 8 (le_word ds)) = crc_update x d XOR le_word ds"
    by (simp add: crc_byte_xor crc_update_def xor.assoc)
  then show ?case using Cons by (simp add: funpow_swap1 xor.assoc)
qed

lemma foldl_zeros: "foldl crc_update x (replicate n 0) = (crc_byte ^^ n) x"
  by (induction n arbitrary: x) (simp_all add: crc_update_def funpow_swap1)

lemma map2_xor_self: "map2 (XOR) bs bs = replicate (length bs) (0 :: byte)"
  by (induction bs) simp_all

lemma map2_xor_zero: "length as = length bs \<Longrightarrow> set (map2 (XOR) as bs) \<subseteq> {0} \<Longrightarrow> as = (bs :: bytes)"
  by (induction as bs rule: list_induct2) (auto dest: xor_zero)

lemma crc32_burst:
  assumes "length as = length bs" "length as \<le> 4" "as \<noteq> bs"
  shows "crc32 (pre @ as @ suf) \<noteq> crc32 (pre @ bs @ suf)"
proof
  assume eq: "crc32 (pre @ as @ suf) = crc32 (pre @ bs @ suf)"
  define c where "c = foldl crc_update 0xffffffff pre"
  define x y where "x = foldl crc_update c as" and "y = foldl crc_update c bs"
  have "foldl crc_update x suf XOR 0xffffffff = foldl crc_update y suf XOR 0xffffffff"
    using eq unfolding crc32_eq crc32_reference_def c_def x_def y_def foldl_append
    by (rule unsigned_word_eqI)
  then have "foldl crc_update x suf = foldl crc_update y suf"
    by (rule xor_right_cancel)
  then have "foldl crc_update (x XOR y) (replicate (length suf) 0) = 0"
    using foldl_crc_xor [of suf suf x y] by (simp add: map2_xor_self)
  then have "x XOR y = 0" by (simp add: foldl_zeros crc_byte_pow_eq_0)
  then have "foldl crc_update 0 (map2 (XOR) as bs) = 0"
    using foldl_crc_xor [OF assms(1), of c c] by (simp add: x_def y_def)
  then have "le_word (map2 (XOR) as bs) = 0"
    using foldl_le_word [of "map2 (XOR) as bs" 0] assms(1,2) by (simp add: crc_byte_pow_eq_0)
  then have "set (map2 (XOR) as bs) \<subseteq> {0}"
    using assms(1,2) by (intro le_word_eq_0) simp_all
  then show False using map2_xor_zero [OF assms(1)] assms(3) by blast
qed

section \<open>Properties\<close>

text \<open>
  C16. The table driven checksum, eight bytes per step, is the bitwise CRC-32 of the bytes.
\<close>

theorem crc32_reference: "crc32 bs = crc32_reference bs"
  by (rule crc32_eq)

text \<open>
  C17. Two byte strings that differ only within four consecutive bytes have different checksums.
\<close>

theorem crc32_detects_bursts:
  assumes "length as = length bs" and "length as \<le> 4" and "as \<noteq> bs"
  shows "crc32 (pre @ as @ suf) \<noteq> crc32 (pre @ bs @ suf)"
  using assms by (rule crc32_burst)

theorem crc32_detects_bursts_witness: "crc32 [9, 1, 2, 3] \<noteq> crc32 [9, 1, 7, 3]"
  using crc32_detects_bursts [of "[2]" "[7]" "[9, 1]" "[3]"] by simp

end
