(* ===== verification/Compression.thy ===== *)
theory Compression
  imports Snappy Crc32
begin

text \<open>
  Stored values and snapshot exports, \<^verbatim>\<open>packages/sdk/src/compression.ts\<close>: the 18 byte envelope with its
  version, compression tag, raw length and payload checksum, the policy that decides whether a
  compressed payload is worth keeping, and the readers that check an envelope before they trust it.

  The platform's \<^verbatim>\<open>CompressionStream\<close> and \<^verbatim>\<open>DecompressionStream\<close> are a parameter of the model, a
  \<open>stream_runtime\<close>. Snappy is the repository's own codec; the match table it reuses between calls is
  the state of the effectful operations.
\<close>

section \<open>Kinds and tags\<close>

text \<open>
  \<open>OtherKind\<close> stands for a value outside the declared TypeScript union, which the \<^verbatim>\<open>default\<close>
  branches of the source reject; \<^verbatim>\<open>false\<close> is \<^term>\<open>None\<close>.
\<close>

datatype CompressionKind = Gzip | Deflate | SnappyKind | OtherKind string

type_synonym CompressionOption = "CompressionKind option"

definition STORE_RECORD_MAGIC :: bytes where
  "STORE_RECORD_MAGIC = [0x42, 0x44, 0x42, 0x5a, 0x56, 0x41, 0x4c, 0x31]"

definition SNAPSHOT_EXPORT_MAGIC :: bytes where
  "SNAPSHOT_EXPORT_MAGIC = [0x42, 0x44, 0x42, 0x5a, 0x53, 0x4e, 0x50, 0x31]"

abbreviation (input) ENVELOPE_VERSION :: nat where "ENVELOPE_VERSION \<equiv> 1"
abbreviation (input) ENVELOPE_HEADER_SIZE :: nat where "ENVELOPE_HEADER_SIZE \<equiv> 18"
abbreviation (input) COMPRESSION_TAG_NONE :: nat where "COMPRESSION_TAG_NONE \<equiv> 0"
abbreviation (input) COMPRESSION_TAG_SNAPPY :: nat where "COMPRESSION_TAG_SNAPPY \<equiv> 3"
abbreviation (input) STORE_VALUE_COMPRESSION_THRESHOLD :: nat where "STORE_VALUE_COMPRESSION_THRESHOLD \<equiv> 1024"
abbreviation (input) PREFLIGHT_MIN_BYTES :: nat where "PREFLIGHT_MIN_BYTES \<equiv> 65536"
abbreviation (input) PREFLIGHT_WINDOW_BYTES :: nat where "PREFLIGHT_WINDOW_BYTES \<equiv> 1024"
abbreviation (input) PREFLIGHT_WINDOW_COUNT :: nat where "PREFLIGHT_WINDOW_COUNT \<equiv> 3"
abbreviation (input) MAX_DECOMPRESSED_STORE_VALUE_BYTES :: nat where
  "MAX_DECOMPRESSED_STORE_VALUE_BYTES \<equiv> 8388608"
abbreviation (input) MAX_DECOMPRESSED_SNAPSHOT_BYTES :: nat where
  "MAX_DECOMPRESSED_SNAPSHOT_BYTES \<equiv> 268435456"

fun compressionTag :: "CompressionOption \<Rightarrow> nat result" where
  "compressionTag None = Inr 0"
| "compressionTag (Some Gzip) = Inr 1"
| "compressionTag (Some Deflate) = Inr 2"
| "compressionTag (Some SnappyKind) = Inr 3"
| "compressionTag (Some (OtherKind _)) = throw InternalError ''unsupported compression kind''"

definition compressionKindFromTag :: "nat \<Rightarrow> CompressionOption result" where
  "compressionKindFromTag tag =
     (if tag = 0 then Inr None
      else if tag = 1 then Inr (Some Gzip)
      else if tag = 2 then Inr (Some Deflate)
      else if tag = 3 then Inr (Some SnappyKind)
      else throw CorruptionError ''invalid compression tag'')"

definition compressionFromStoreFlags :: "32 word \<Rightarrow> CompressionOption result" where
  "compressionFromStoreFlags flags =
     (let encoded = unat (drop_bit 2 (flags AND push_bit 2 3)) in
      if encoded = 0 then Inr None
      else if encoded = 1 then Inr (Some Gzip)
      else if encoded = 2 then Inr (Some Deflate)
      else if encoded = 3 then Inr (Some SnappyKind)
      else throw CorruptionError ''invalid store compression flags'')"

section \<open>Envelopes\<close>

record EnvelopeHeader =
  version :: nat
  kindTag :: nat
  rawLength :: nat
  payloadChecksum :: nat

text \<open>
  A payload is either a buffer of its own or a view of the destination buffer: a raw payload borrows
  the caller's bytes, which may lie in the buffer the record is written to.
\<close>

datatype payload = Owned bytes | Borrowed nat nat

fun payload_bytes :: "bytes \<Rightarrow> payload \<Rightarrow> bytes" where
  "payload_bytes out (Owned bs) = bs"
| "payload_bytes out (Borrowed start len) = take len (drop start out)"

text \<open>
  Element stores and \<^verbatim>\<open>setUint32\<close> of a header. The bounds are those of \<^verbatim>\<open>out.set\<close> and of the
  \<^verbatim>\<open>DataView\<close> constructor.
\<close>

definition header_stores :: "bytes \<Rightarrow> nat \<Rightarrow> bytes \<Rightarrow> nat \<Rightarrow> nat \<Rightarrow> nat \<Rightarrow> bytes" where
  "header_stores out offset magic tag rawLen checksum =
     (let out1 = overlay out offset magic;
          out2 = out1[offset + 8 := of_nat ENVELOPE_VERSION];
          out3 = out2[offset + 9 := of_nat tag];
          out4 = overlay out3 (offset + 10) (le_bytes 4 rawLen)
      in overlay out4 (offset + 14) (le_bytes 4 checksum))"

definition writeEnvelope :: "bytes \<Rightarrow> nat \<Rightarrow> bytes \<Rightarrow> nat \<Rightarrow> nat \<Rightarrow> payload \<Rightarrow> bytes result" where
  "writeEnvelope out offset magic tag rawLen payload =
     (let data = payload_bytes out payload;
          checksum = crc32 data
      in if length out < offset + ENVELOPE_HEADER_SIZE + length data
         then throw RangeError ''offset is out of bounds''
         else Inr (header_stores (overlay out (offset + ENVELOPE_HEADER_SIZE) data) offset magic tag rawLen checksum))"

definition buildEnvelope :: "bytes \<Rightarrow> nat \<Rightarrow> nat \<Rightarrow> bytes \<Rightarrow> bytes result" where
  "buildEnvelope magic tag rawLen payload =
     writeEnvelope (replicate (ENVELOPE_HEADER_SIZE + length payload) 0) 0 magic tag rawLen (Owned payload)"

text \<open>The payload here is the view of \<^verbatim>\<open>out\<close> behind the header.\<close>

definition writeEnvelopeHeader :: "bytes \<Rightarrow> bytes \<Rightarrow> nat \<Rightarrow> nat \<Rightarrow> bytes" where
  "writeEnvelopeHeader out magic tag rawLen =
     header_stores out 0 magic tag rawLen (crc32 (drop ENVELOPE_HEADER_SIZE out))"

fun place_chunks :: "bytes \<Rightarrow> nat \<Rightarrow> bytes list \<Rightarrow> bytes" where
  "place_chunks out offset [] = out"
| "place_chunks out offset (chunk # chunks) = place_chunks (overlay out offset chunk) (offset + length chunk) chunks"

definition envelopeFromChunks :: "bytes \<Rightarrow> nat \<Rightarrow> nat \<Rightarrow> bytes list \<Rightarrow> nat \<Rightarrow> bytes" where
  "envelopeFromChunks magic tag rawLen chunks totalBytes =
     writeEnvelopeHeader
       (place_chunks (replicate (ENVELOPE_HEADER_SIZE + totalBytes) 0) ENVELOPE_HEADER_SIZE chunks) magic tag rawLen"

definition readEnvelopeHeader :: "bytes \<Rightarrow> bytes \<Rightarrow> bool \<Rightarrow> EnvelopeHeader option result" where
  "readEnvelopeHeader magic bs strict =
     (if length bs < length magic then Inr None
      else if take (length magic) bs \<noteq> magic then Inr None
      else if length bs < ENVELOPE_HEADER_SIZE then
        (if strict then throw CorruptionError ''truncated compression envelope'' else Inr None)
      else Inr (Some \<lparr> version = unat (bs ! 8), kindTag = unat (bs ! 9),
                        rawLength = le_val (take 4 (drop 10 bs)),
                        payloadChecksum = le_val (take 4 (drop 14 bs)) \<rparr>))"

section \<open>Policy\<close>

definition compressionIsProfitable :: "nat \<Rightarrow> nat \<Rightarrow> bool" where
  "compressionIsProfitable rawLen compressedLength \<longleftrightarrow>
     (compressedLength + ENVELOPE_HEADER_SIZE) * 100 \<le> rawLen * (100 - 10)"

text \<open>Running the Snappy encoder on the shared match table.\<close>

definition run_snappy :: "bytes \<Rightarrow> (nat list, bytes) eff" where
  "run_snappy input = (\<lambda>table. case encodeSnappy table input of
      Inl e \<Rightarrow> (Inl e, table) | Inr (block, table') \<Rightarrow> (Inr block, table'))"

fun preflight_windows :: "bytes \<Rightarrow> nat list \<Rightarrow> nat \<Rightarrow> (nat list, nat) eff" where
  "preflight_windows value [] compressedLength = ret compressedLength"
| "preflight_windows value (index # indexes) compressedLength =
     (let offset = (length value - PREFLIGHT_WINDOW_BYTES) * index div (PREFLIGHT_WINDOW_COUNT - 1) in
      bindm (run_snappy (take PREFLIGHT_WINDOW_BYTES (drop offset value))) (\<lambda>block.
        preflight_windows value indexes (compressedLength + length block)))"

definition snappyPreflightIsProfitable :: "bytes \<Rightarrow> (nat list, bool) eff" where
  "snappyPreflightIsProfitable value =
     (if length value < PREFLIGHT_MIN_BYTES then ret True
      else bindm (preflight_windows value [0..<PREFLIGHT_WINDOW_COUNT] 0) (\<lambda>compressedLength.
        ret (compressionIsProfitable (PREFLIGHT_WINDOW_BYTES * PREFLIGHT_WINDOW_COUNT) compressedLength)))"

definition validateStoreValueLength :: "bytes \<Rightarrow> unit result" where
  "validateStoreValueLength value =
     (if MAX_DECOMPRESSED_STORE_VALUE_BYTES < length value
      then throw ValueTooLargeError ''value exceeds the byte limit'' else Inr ())"

section \<open>Prepared records\<close>

record PreparedStoreValueRecord =
  rec_byteLength :: nat
  rec_payload :: payload
  rec_rawLength :: nat
  rec_kindTag :: "nat option"

text \<open>
  The value is given as a payload of the buffer \<^verbatim>\<open>out\<close> that the record will be written to. The second
  argument is \<^term>\<open>True\<close> for \<^verbatim>\<open>'snappy'\<close> and \<^term>\<open>False\<close> for \<^verbatim>\<open>false\<close>.
\<close>

definition prepareFastStoreValueRecord ::
  "bytes \<Rightarrow> payload \<Rightarrow> bool \<Rightarrow> (nat list, PreparedStoreValueRecord) eff" where
  "prepareFastStoreValueRecord out source compression =
     (let value = payload_bytes out source; n = length value in
      if \<not> compression
      then ret \<lparr> rec_byteLength = n, rec_payload = source, rec_rawLength = n, rec_kindTag = None \<rparr>
      else bindm (lift_result (validateStoreValueLength value)) (\<lambda>_.
        bindm (if STORE_VALUE_COMPRESSION_THRESHOLD \<le> n then snappyPreflightIsProfitable value else ret False) (\<lambda>worth.
        bindm (if worth
               then bindm (run_snappy value) (\<lambda>compressed.
                 ret (if compressionIsProfitable n (length compressed)
                      then (Owned compressed, length compressed, COMPRESSION_TAG_SNAPPY)
                      else (source, n, COMPRESSION_TAG_NONE)))
               else ret (source, n, COMPRESSION_TAG_NONE)) (\<lambda>(payload, payloadLength, tag).
        ret \<lparr> rec_byteLength = ENVELOPE_HEADER_SIZE + payloadLength, rec_payload = payload,
              rec_rawLength = n, rec_kindTag = Some tag \<rparr>))))"

definition writePreparedStoreValueRecord ::
  "PreparedStoreValueRecord \<Rightarrow> bytes \<Rightarrow> f64 \<Rightarrow> (bytes \<times> int) result" where
  "writePreparedStoreValueRecord r target offset =
     (if \<not> f64_is_safe_integer offset \<or> f64_int offset < 0 \<or>
         int (length target) - f64_int offset < int (rec_byteLength r)
      then throw InternalError ''prepared store value exceeds its destination''
      else
        let off = nat (f64_int offset) in
        bindr (case rec_kindTag r of
            None \<Rightarrow>
              (let data = payload_bytes target (rec_payload r) in
               if length target < off + length data then throw RangeError ''offset is out of bounds''
               else Inr (overlay target off data))
          | Some tag \<Rightarrow> writeEnvelope target off STORE_RECORD_MAGIC tag (rec_rawLength r) (rec_payload r))
        (\<lambda>target'. Inr (target', f64_int offset + int (rec_byteLength r))))"

section \<open>Streams\<close>

text \<open>
  What the two platform transforms do with the chunks piped into them: \<^term>\<open>None\<close> when the stream
  cannot be constructed, otherwise the chunks a reader receives and whether the stream then fails.
\<close>

type_synonym transform = "CompressionKind \<Rightarrow> bytes list \<Rightarrow> (bytes list \<times> bool) option"

record stream_runtime =
  streams_available :: bool
  compression_stream :: transform
  decompression_stream :: transform

abbreviation (input) runtime_unavailable :: "'a result" where
  "runtime_unavailable \<equiv> throw UnsupportedPlatformError
     ''CompressionStream and DecompressionStream are required for moyodb compression''"

definition ensureCompressionRuntime :: "stream_runtime \<Rightarrow> unit result" where
  "ensureCompressionRuntime rt = (if streams_available rt then Inr () else runtime_unavailable)"

definition copyBytes :: "bytes \<Rightarrow> bytes" where
  "copyBytes bs = overlay (replicate (length bs) 0) 0 bs"

text \<open>The chunks a reader pulls from \<^verbatim>\<open>byteStream\<close>.\<close>

function byteStream :: "bytes \<Rightarrow> nat \<Rightarrow> bytes list" where
  "byteStream bs offset =
     (if offset < length bs
      then let stop = min (offset + 65536) (length bs)
           in take (stop - offset) (drop offset bs) # byteStream bs stop
      else [])"
  by pat_completeness auto
termination
  by (relation "measure (\<lambda>(bs, offset). length bs - offset)") auto

declare byteStream.simps [simp del]

fun collect_loop ::
  "nat option \<Rightarrow> bool \<Rightarrow> bytes list \<Rightarrow> bytes list \<Rightarrow> nat \<Rightarrow> (bytes list \<times> nat) option result" where
  "collect_loop stopAt fails [] chunks totalBytes =
     (if fails then throw InternalError ''failed to compress bytes''
      else if (case stopAt of None \<Rightarrow> False | Some s \<Rightarrow> s \<le> totalBytes) then Inr None
      else Inr (Some (chunks, totalBytes)))"
| "collect_loop stopAt fails (part # parts) chunks totalBytes =
     (let total = totalBytes + length part in
      if (case stopAt of None \<Rightarrow> False | Some s \<Rightarrow> s \<le> total) then Inr None
      else collect_loop stopAt fails parts (chunks @ [part]) total)"

definition collectCompressed ::
  "stream_runtime \<Rightarrow> bytes \<Rightarrow> CompressionKind \<Rightarrow> nat option \<Rightarrow> (bytes list \<times> nat) option result" where
  "collectCompressed rt input kind stopAtBytes =
     bindr (ensureCompressionRuntime rt) (\<lambda>_.
       case compression_stream rt kind (byteStream input 0) of
         None \<Rightarrow> runtime_unavailable
       | Some (parts, fails) \<Rightarrow> collect_loop stopAtBytes fails parts [] 0)"

fun bounded_loop :: "nat option \<Rightarrow> bool \<Rightarrow> bytes list \<Rightarrow> bytes list \<Rightarrow> nat \<Rightarrow> (bytes list \<times> nat) result" where
  "bounded_loop limit fails [] chunks totalBytes =
     (if fails then throw TypeError ''stream failed'' else Inr (chunks, totalBytes))"
| "bounded_loop limit fails (value # parts) chunks totalBytes =
     (let total = totalBytes + length value in
      if (case limit of None \<Rightarrow> False | Some l \<Rightarrow> l < total)
      then throw CorruptionError ''decompressed value exceeds byte limit''
      else bounded_loop limit fails parts (chunks @ [value]) total)"

definition readBoundedStream :: "bytes list \<times> bool \<Rightarrow> nat option \<Rightarrow> bytes result" where
  "readBoundedStream stream maxOutputBytes =
     bindr (bounded_loop maxOutputBytes (snd stream) (fst stream) [] 0) (\<lambda>(chunks, totalBytes).
       if length chunks = 1 then Inr (hd chunks)
       else Inr (place_chunks (replicate totalBytes 0) 0 chunks))"

definition decompressBytes :: "stream_runtime \<Rightarrow> bytes \<Rightarrow> CompressionKind \<Rightarrow> nat option \<Rightarrow> bytes result" where
  "decompressBytes rt data kind maxOutputBytes =
     (if kind = SnappyKind
      then decodeSnappy data
             (f64_of_nat (case maxOutputBytes of None \<Rightarrow> MAX_DECOMPRESSED_STORE_VALUE_BYTES | Some n \<Rightarrow> n))
             (map_option f64_of_nat maxOutputBytes)
      else bindr (ensureCompressionRuntime rt) (\<lambda>_.
        case decompression_stream rt kind (byteStream (copyBytes data) 0) of
          None \<Rightarrow> runtime_unavailable
        | Some stream \<Rightarrow>
            (case readBoundedStream stream maxOutputBytes of
               Inl _ \<Rightarrow> throw CorruptionError ''failed to decompress''
             | Inr out \<Rightarrow> Inr out)))"

section \<open>Store values\<close>

definition encodeStoreValueRecord :: "stream_runtime \<Rightarrow> bytes \<Rightarrow> CompressionOption \<Rightarrow> (nat list, bytes) eff" where
  "encodeStoreValueRecord rt value compression =
     bindm (lift_result (validateStoreValueLength value)) (\<lambda>_.
       case compression of
         None \<Rightarrow> ret value
       | Some kind \<Rightarrow>
           if kind = SnappyKind then
             bindm (prepareFastStoreValueRecord [] (Owned value) True) (\<lambda>r.
               bindm (lift_result (writePreparedStoreValueRecord r (replicate (rec_byteLength r) 0) 0)) (\<lambda>(output, _).
                 ret output))
           else if length value < STORE_VALUE_COMPRESSION_THRESHOLD then
             lift_result (buildEnvelope STORE_RECORD_MAGIC COMPRESSION_TAG_NONE (length value) value)
           else
             let stored = overlay (replicate (ENVELOPE_HEADER_SIZE + length value) 0) ENVELOPE_HEADER_SIZE value;
                 payload = drop ENVELOPE_HEADER_SIZE stored
             in bindm (lift_result (collectCompressed rt payload kind (Some (length payload)))) (\<lambda>compressed.
               let sealed = writeEnvelopeHeader stored STORE_RECORD_MAGIC COMPRESSION_TAG_NONE (length payload) in
               case compressed of
                 None \<Rightarrow> ret sealed
               | Some (chunks, totalBytes) \<Rightarrow>
                   if \<not> compressionIsProfitable (length payload) totalBytes then ret sealed
                   else bindm (lift_result (compressionTag (Some kind))) (\<lambda>tag.
                     ret (envelopeFromChunks STORE_RECORD_MAGIC tag (length payload) chunks totalBytes))))"

definition decodeStoreValueRecord :: "stream_runtime \<Rightarrow> bytes \<Rightarrow> bool \<Rightarrow> bytes result" where
  "decodeStoreValueRecord rt value strict =
     bindr (readEnvelopeHeader STORE_RECORD_MAGIC value strict) (\<lambda>header.
       case header of
         None \<Rightarrow> Inr value
       | Some h \<Rightarrow>
           if version h \<noteq> ENVELOPE_VERSION
           then (if strict then throw CorruptionError ''unsupported value record version'' else Inr value)
           else (case compressionKindFromTag (kindTag h) of
               Inl error \<Rightarrow> (if strict then Inl error else Inr value)
             | Inr compression \<Rightarrow>
                 let payload = drop ENVELOPE_HEADER_SIZE value in
                 if crc32 payload \<noteq> payloadChecksum h
                 then (if strict then throw CorruptionError ''value record checksum mismatch'' else Inr value)
                 else (case compression of
                     None \<Rightarrow>
                       if length payload \<noteq> rawLength h
                       then (if strict then throw CorruptionError ''value record length mismatch'' else Inr value)
                       else Inr payload
                   | Some kind \<Rightarrow>
                       if MAX_DECOMPRESSED_STORE_VALUE_BYTES < rawLength h
                       then throw CorruptionError ''compressed value exceeds the byte limit''
                       else bindr (decompressBytes rt payload kind (Some (rawLength h))) (\<lambda>decompressed.
                         if length decompressed \<noteq> rawLength h
                         then throw CorruptionError ''decompressed value length mismatch''
                         else Inr decompressed))))"

section \<open>Snapshot exports\<close>

definition wrapSnapshotWithCompression :: "stream_runtime \<Rightarrow> bytes \<Rightarrow> CompressionOption \<Rightarrow> bytes result" where
  "wrapSnapshotWithCompression rt snapshot compression =
     (case compression of
        None \<Rightarrow> Inr snapshot
      | Some kind \<Rightarrow>
          if kind \<noteq> Gzip \<and> kind \<noteq> Deflate then throw InternalError ''unsupported snapshot compression kind''
          else if MAX_DECOMPRESSED_SNAPSHOT_BYTES < length snapshot
          then throw SerializationError ''snapshot exceeds the byte limit''
          else
            let input = copyBytes snapshot in
            bindr (collectCompressed rt input kind None) (\<lambda>compressed.
              case compressed of
                None \<Rightarrow> throw InternalError ''failed to compress bytes''
              | Some (chunks, totalBytes) \<Rightarrow>
                  bindr (compressionTag (Some kind)) (\<lambda>tag.
                    Inr (envelopeFromChunks SNAPSHOT_EXPORT_MAGIC tag (length input) chunks totalBytes))))"

definition unwrapSnapshotCompression :: "stream_runtime \<Rightarrow> bytes \<Rightarrow> bytes result" where
  "unwrapSnapshotCompression rt snapshot =
     bindr (readEnvelopeHeader SNAPSHOT_EXPORT_MAGIC snapshot True) (\<lambda>header.
       case header of
         None \<Rightarrow> Inr snapshot
       | Some h \<Rightarrow>
           if version h \<noteq> ENVELOPE_VERSION then throw CorruptionError ''unsupported snapshot compression version''
           else bindr (compressionKindFromTag (kindTag h)) (\<lambda>compression.
             case compression of
               None \<Rightarrow> throw CorruptionError ''snapshot compression envelope cannot store kind none''
             | Some kind \<Rightarrow>
                 if kind = SnappyKind then throw CorruptionError ''invalid snapshot compression tag''
                 else
                   let payload = drop ENVELOPE_HEADER_SIZE snapshot in
                   if crc32 payload \<noteq> payloadChecksum h
                   then throw CorruptionError ''snapshot compression checksum mismatch''
                   else if MAX_DECOMPRESSED_SNAPSHOT_BYTES < rawLength h
                   then throw CorruptionError ''compressed snapshot exceeds the byte limit''
                   else bindr (decompressBytes rt payload kind (Some (rawLength h))) (\<lambda>decompressed.
                     if length decompressed \<noteq> rawLength h
                     then throw CorruptionError ''decompressed snapshot length mismatch''
                     else Inr decompressed)))"

section \<open>The envelope layout\<close>

text \<open>What an envelope is, byte by byte.\<close>

definition envelope :: "bytes \<Rightarrow> nat \<Rightarrow> nat \<Rightarrow> bytes \<Rightarrow> bytes" where
  "envelope magic tag rawLen payload =
     magic @ [1, of_nat tag] @ le_bytes 4 rawLen @ le_bytes 4 (crc32 payload) @ payload"

lemma magic_lengths [simp]: "length STORE_RECORD_MAGIC = 8" "length SNAPSHOT_EXPORT_MAGIC = 8"
  by (simp_all add: STORE_RECORD_MAGIC_def SNAPSHOT_EXPORT_MAGIC_def)

lemma length_envelope [simp]: "length magic = 8 \<Longrightarrow> length (envelope magic tag n payload) = 18 + length payload"
  by (simp add: envelope_def)

lemma overlay_before [overlay_simps]:
  "off + length h + length d \<le> length out \<Longrightarrow> overlay (overlay out (off + length h) d) off h = overlay out off (h @ d)"
  by (simp add: overlay_def ac_simps)

lemma header_stores_eq:
  assumes "length magic = 8" and "off + 18 \<le> length out"
  shows "header_stores out off magic tag n c = overlay out off (magic @ [1, of_nat tag] @ le_bytes 4 n @ le_bytes 4 c)"
proof -
  define h1 h2 h3 where "h1 = magic @ [1 :: byte]" and "h2 = h1 @ [of_nat tag]" and "h3 = h2 @ le_bytes 4 n"
  have len: "length h1 = 9" "length h2 = 10" "length h3 = 14" using assms(1) by (simp_all add: h1_def h2_def h3_def)
  have "(overlay out off magic)[off + 8 := 1] = overlay out off h1"
    using overlay_update_after [of off magic out 1] assms by (simp add: h1_def)
  moreover have "(overlay out off h1)[off + 9 := of_nat tag] = overlay out off h2"
    using overlay_update_after [of off h1 out "of_nat tag"] assms len by (simp add: h2_def)
  moreover have "overlay (overlay out off h2) (off + 10) (le_bytes 4 n) = overlay out off h3"
    using overlay_overlay [of off h2 out "le_bytes 4 n"] assms len by (simp add: h3_def)
  moreover have "overlay (overlay out off h3) (off + 14) (le_bytes 4 c) = overlay out off (h3 @ le_bytes 4 c)"
    using overlay_overlay [of off h3 out "le_bytes 4 c"] assms len by simp
  ultimately show ?thesis by (simp add: header_stores_def h1_def h2_def h3_def)
qed

lemma writeEnvelope_eq:
  assumes "length magic = 8" and "off + 18 + length (payload_bytes out p) \<le> length out"
  shows "writeEnvelope out off magic tag n p = Inr (overlay out off (envelope magic tag n (payload_bytes out p)))"
proof -
  let ?h = "magic @ [1, of_nat tag] @ le_bytes 4 n @ le_bytes 4 (crc32 (payload_bytes out p))"
  have "length ?h = 18" using assms(1) by simp
  then have "overlay (overlay out (off + 18) (payload_bytes out p)) off ?h = overlay out off (?h @ payload_bytes out p)"
    using overlay_before [of off ?h "payload_bytes out p" out] assms(2) by simp
  moreover have "off + 18 \<le> length (overlay out (off + 18) (payload_bytes out p))" using assms(2) by simp
  ultimately show ?thesis
    using assms by (simp add: writeEnvelope_def header_stores_eq envelope_def Let_def)
qed

lemma buildEnvelope_eq: "length magic = 8 \<Longrightarrow> buildEnvelope magic tag n payload = Inr (envelope magic tag n payload)"
  by (simp add: buildEnvelope_def writeEnvelope_eq)

lemma writeEnvelopeHeader_eq:
  assumes "length magic = 8" and "18 \<le> length out"
  shows "writeEnvelopeHeader out magic tag n = envelope magic tag n (drop 18 out)"
  using assms by (simp add: writeEnvelopeHeader_def header_stores_eq overlay_def envelope_def)

lemma place_chunks_eq:
  "off + length (concat chunks) \<le> length out \<Longrightarrow> place_chunks out off chunks = overlay out off (concat chunks)"
proof (induction chunks arbitrary: out off)
  case Nil
  then show ?case by simp
next
  case (Cons c cs)
  then show ?case using overlay_overlay [of off c out "concat cs"] by simp
qed

lemma envelopeFromChunks_eq:
  assumes "length magic = 8" and "totalBytes = length (concat chunks)"
  shows "envelopeFromChunks magic tag n chunks totalBytes = envelope magic tag n (concat chunks)"
  using assms by (simp add: envelopeFromChunks_def place_chunks_eq writeEnvelopeHeader_eq overlay_def)

lemma crc32_less: "crc32 bs < 256 ^ 4"
  using unsigned_less [of "foldl crc_update 0xffffffff bs XOR 0xffffffff :: 32 word"]
  by (simp add: crc32_eq crc32_reference_def)

lemma readEnvelopeHeader_envelope:
  assumes "length magic = 8" and "n < 256 ^ 4" and "tag < 256"
  shows "readEnvelopeHeader magic (envelope magic tag n payload) strict =
    Inr (Some \<lparr> version = 1, kindTag = tag, rawLength = n, payloadChecksum = crc32 payload \<rparr>)"
proof -
  have "drop 10 (envelope magic tag n payload) = le_bytes 4 n @ le_bytes 4 (crc32 payload) @ payload"
    "drop 14 (envelope magic tag n payload) = le_bytes 4 (crc32 payload) @ payload"
    using assms(1) by (simp_all add: envelope_def)
  moreover have "take 8 (envelope magic tag n payload) = magic" "envelope magic tag n payload ! 8 = 1"
    "envelope magic tag n payload ! 9 = of_nat tag"
    using assms(1) by (simp_all add: envelope_def nth_append)
  ultimately show ?thesis
    using assms crc32_less [of payload] by (simp add: readEnvelopeHeader_def)
qed

section \<open>Streams\<close>

lemma concat_byteStream: "concat (byteStream bs offset) = drop offset bs"
proof (induction bs offset rule: byteStream.induct)
  case (1 bs offset)
  show ?case
  proof (cases "offset < length bs")
    case True
    let ?stop = "min (offset + 65536) (length bs)"
    have "drop offset bs = take (?stop - offset) (drop offset bs) @ drop ?stop bs"
      using True append_take_drop_id [of "?stop - offset" "drop offset bs"] by (simp add: min_def)
    then show ?thesis using 1 True by (simp add: byteStream.simps [of bs offset] Let_def)
  next
    case False
    then show ?thesis by (simp add: byteStream.simps [of bs offset])
  qed
qed

lemma copyBytes_id [simp]: "copyBytes bs = bs"
  by (simp add: copyBytes_def)

lemma collect_loop_ok:
  "collect_loop stopAt False parts chunks t =
     (if (\<exists>s. stopAt = Some s \<and> s \<le> t + length (concat parts)) then Inr None
      else Inr (Some (chunks @ parts, t + length (concat parts))))"
  by (induction parts arbitrary: chunks t) (auto simp: Let_def ac_simps split: option.splits)

lemma bounded_loop_ok:
  "bounded_loop (Some l) False parts chunks t =
     (if parts \<noteq> [] \<and> l < t + length (concat parts)
      then throw CorruptionError ''decompressed value exceeds byte limit''
      else Inr (chunks @ parts, t + length (concat parts)))"
  by (induction parts arbitrary: chunks t) (auto simp: Let_def ac_simps)

lemma readBoundedStream_ok:
  assumes "length (concat parts) \<le> l"
  shows "readBoundedStream (parts, False) (Some l) = Inr (concat parts)"
proof (cases "length parts = 1")
  case True
  then obtain p where "parts = [p]" by (auto simp: length_Suc_conv)
  then show ?thesis using assms by (simp add: readBoundedStream_def)
next
  case False
  then show ?thesis using assms by (auto simp: readBoundedStream_def bounded_loop_ok place_chunks_eq)
qed

lemma readBoundedStream_bounded:
  assumes "readBoundedStream stream (Some l) = Inr out"
  shows "length out \<le> l"
proof -
  have *: "bounded_loop (Some l) f parts chunks t = Inr (cs, n) \<Longrightarrow> length (concat chunks) = t \<Longrightarrow> t \<le> l \<Longrightarrow>
      length (concat cs) = n \<and> n \<le> l" for f parts chunks t cs n
    by (induction "Some l" f parts chunks t rule: bounded_loop.induct) (auto simp: Let_def split: if_splits)
  obtain cs n where l: "bounded_loop (Some l) (snd stream) (fst stream) [] 0 = Inr (cs, n)"
      and out: "out = (if length cs = 1 then hd cs else place_chunks (replicate n 0) 0 cs)"
    using assms by (auto simp: readBoundedStream_def bindr_eq_Inr split: if_splits)
  have n: "length (concat cs) = n" "n \<le> l" using * [OF l] by simp_all
  then have "place_chunks (replicate n 0) 0 cs = concat cs" by (simp add: place_chunks_eq)
  moreover have "length (hd cs) = length (concat cs)" if "length cs = 1"
    using that by (auto simp: length_Suc_conv)
  ultimately show ?thesis using n out by (simp split: if_splits)
qed

text \<open>
  What the platform documents: both transforms exist, a compression stream ends without an error, and
  decompressing its output, however that is cut into chunks, gives back the bytes.
\<close>

definition lawful_streams :: "stream_runtime \<Rightarrow> bool" where
  "lawful_streams rt \<longleftrightarrow> streams_available rt \<and>
     (\<forall>kind input. kind = Gzip \<or> kind = Deflate \<longrightarrow>
        (\<exists>parts. compression_stream rt kind input = Some (parts, False) \<and>
           (\<forall>data. concat data = concat parts \<longrightarrow>
              (\<exists>restored. decompression_stream rt kind data = Some (restored, False) \<and> concat restored = concat input))))"

lemma lawful_round_trip:
  assumes "lawful_streams rt" and "kind = Gzip \<or> kind = Deflate"
  obtains parts where "\<And>stop. collectCompressed rt value kind stop =
      (if (\<exists>s. stop = Some s \<and> s \<le> length (concat parts)) then Inr None
       else Inr (Some (parts, length (concat parts))))"
    and "decompressBytes rt (concat parts) kind (Some (length value)) = Inr value"
proof -
  obtain parts where parts: "compression_stream rt kind (byteStream value 0) = Some (parts, False)"
      and inverse: "\<And>data. concat data = concat parts \<Longrightarrow>
        \<exists>restored. decompression_stream rt kind data = Some (restored, False) \<and> concat restored = value"
    using assms concat_byteStream [of "value" 0] unfolding lawful_streams_def by (metis drop0)
  have avail: "ensureCompressionRuntime rt = Inr ()"
    using assms(1) by (simp add: lawful_streams_def ensureCompressionRuntime_def)
  obtain restored where "decompression_stream rt kind (byteStream (concat parts) 0) = Some (restored, False)" "concat restored = value"
    using inverse [of "byteStream (concat parts) 0"] by (auto simp: concat_byteStream)
  then have "decompressBytes rt (concat parts) kind (Some (length value)) = Inr value"
    using assms(2) avail readBoundedStream_ok [of restored "length value"] by (auto simp: decompressBytes_def)
  moreover have "collectCompressed rt value kind stop =
      (if (\<exists>s. stop = Some s \<and> s \<le> length (concat parts)) then Inr None
       else Inr (Some (parts, length (concat parts))))" for stop
    using collect_loop_ok [of stop parts "[]" 0] by (simp add: collectCompressed_def avail parts)
  ultimately show ?thesis using that by blast
qed

section \<open>Encoded records\<close>

lemma run_snappy_ok:
  assumes "length table = 16384" and "length input \<le> 8388608"
  obtains block table' where "run_snappy input table = (Inr block, table')" and "length table' = 16384"
    and "decodeSnappy block (f64_of_nat (length input)) (Some (f64_of_nat (length input))) = Inr input"
proof -
  have "length input < 2 ^ 53" using assms(2) by simp
  then obtain block table' where "encodeSnappy table input = Inr (block, table')" "length table' = 16384"
      "decodeSnappy block (f64_of_nat (length input)) (Some (f64_of_nat (length input))) = Inr input"
    using snappy_decodes [OF assms(1), of "f64_of_nat (length input)" input "Some (f64_of_nat (length input))"] assms(2)
    by auto
  then show ?thesis using that by (simp add: run_snappy_def)
qed

lemma preflight_windows_ok:
  assumes "length table = 16384"
  shows "\<exists>n table'. preflight_windows value indexes c table = (Inr n, table') \<and> length table' = 16384"
  using assms
proof (induction indexes arbitrary: c table)
  case Nil
  then show ?case by (simp add: eff_simps)
next
  case (Cons i indexes)
  have "length (take 1024 (drop ((length value - 1024) * i div 2) value)) \<le> 8388608" by simp
  then obtain block table' where "run_snappy (take 1024 (drop ((length value - 1024) * i div 2) value)) table = (Inr block, table')"
      "length table' = 16384"
    using run_snappy_ok [OF Cons.prems] by blast
  then show ?case using Cons.IH by (simp add: eff_simps Let_def)
qed

lemma preflight_ok:
  assumes "length table = 16384"
  obtains b table' where "snappyPreflightIsProfitable value table = (Inr b, table')" "length table' = 16384"
proof -
  obtain n table' where "preflight_windows value [0..<3] 0 table = (Inr n, table')" "length table' = 16384"
    using preflight_windows_ok [OF assms] by blast
  then show ?thesis using that assms by (cases "length value < 65536") (auto simp: snappyPreflightIsProfitable_def eff_simps)
qed

text \<open>The outcomes of preparing a record: the value as it is, or a Snappy block that is worth it.\<close>

lemma prepare_compressed:
  fixes out :: bytes and source :: payload
  defines "value \<equiv> payload_bytes out source"
  assumes "length table = 16384" and "length value \<le> 8388608"
  obtains r table' where "prepareFastStoreValueRecord out source True table = (Inr r, table')"
    and "length table' = 16384" and "rec_rawLength r = length value"
    and "rec_byteLength r = 18 + length (payload_bytes out (rec_payload r))"
    and "rec_kindTag r = Some 0 \<and> rec_payload r = source \<or>
      (\<exists>c. rec_kindTag r = Some 3 \<and> rec_payload r = Owned c \<and> compressionIsProfitable (length value) (length c) \<and>
         decodeSnappy c (f64_of_nat (length value)) (Some (f64_of_nat (length value))) = Inr value)"
proof -
  obtain b t0 where pre: "snappyPreflightIsProfitable value table = (Inr b, t0)" "length t0 = 16384"
    using preflight_ok [OF assms(2)] by blast
  define worth t1 where "worth = (1024 \<le> length value \<and> b)" and "t1 = (if 1024 \<le> length value then t0 else table)"
  have worth: "(if 1024 \<le> length value then snappyPreflightIsProfitable value else ret False) table = (Inr worth, t1)"
      and t1: "length t1 = 16384"
    using pre assms(2) by (simp_all add: worth_def t1_def eff_simps)
  obtain c t2 where c: "run_snappy value t1 = (Inr c, t2)" "length t2 = 16384"
      "decodeSnappy c (f64_of_nat (length value)) (Some (f64_of_nat (length value))) = Inr value"
    using run_snappy_ok [OF t1 assms(3)] by blast
  have v: "validateStoreValueLength value = Inr ()" using assms(3) by (simp add: validateStoreValueLength_def)
  note run = prepareFastStoreValueRecord_def eff_simps Let_def v worth c(1) value_def [symmetric]
  show ?thesis
  proof (cases "worth \<and> compressionIsProfitable (length value) (length c)")
    case True
    then have "prepareFastStoreValueRecord out source True table = (Inr \<lparr> rec_byteLength = 18 + length c,
        rec_payload = Owned c, rec_rawLength = length value, rec_kindTag = Some 3 \<rparr>, t2)"
      by (simp add: run)
    then show ?thesis using that c True by auto
  next
    case False
    define t where "t = (if worth then t2 else t1)"
    have "prepareFastStoreValueRecord out source True table = (Inr \<lparr> rec_byteLength = 18 + length value,
        rec_payload = source, rec_rawLength = length value, rec_kindTag = Some 0 \<rparr>, t)"
      using False by (cases worth) (simp_all add: run t_def)
    then show ?thesis using that t1 c(2) by (auto simp: t_def value_def)
  qed
qed

lemma writePrepared_eq:
  assumes "off < 2 ^ 53" and "off + rec_byteLength r \<le> length target" and "rec_kindTag r = Some tag"
    and "rec_byteLength r = 18 + length (payload_bytes target (rec_payload r))"
  shows "writePreparedStoreValueRecord r target (f64_of_nat off) =
    Inr (overlay target off (envelope STORE_RECORD_MAGIC tag (rec_rawLength r) (payload_bytes target (rec_payload r))),
         int (off + rec_byteLength r))"
proof -
  have "writeEnvelope target off STORE_RECORD_MAGIC tag (rec_rawLength r) (rec_payload r) =
      Inr (overlay target off (envelope STORE_RECORD_MAGIC tag (rec_rawLength r) (payload_bytes target (rec_payload r))))"
    using assms(2,4) by (intro writeEnvelope_eq) simp_all
  then show ?thesis using assms(1-3) f64_of_nat [OF assms(1)] by (simp add: writePreparedStoreValueRecord_def)
qed

text \<open>
  A stored form of a value: an envelope around the value itself, or around a payload that is at least
  ten percent smaller with its header and decompresses to the value.
\<close>

definition stored_form :: "stream_runtime \<Rightarrow> CompressionKind \<Rightarrow> bytes \<Rightarrow> bytes \<Rightarrow> bool" where
  "stored_form rt kind value stored \<longleftrightarrow>
     stored = envelope STORE_RECORD_MAGIC 0 (length value) value \<or>
     (\<exists>tag payload. compressionTag (Some kind) = Inr tag \<and> stored = envelope STORE_RECORD_MAGIC tag (length value) payload \<and>
        compressionIsProfitable (length value) (length payload) \<and>
        decompressBytes rt payload kind (Some (length value)) = Inr value)"

lemma compressionKind_round_trip: "compressionTag k = Inr tag \<Longrightarrow> tag < 256 \<and> compressionKindFromTag tag = Inr k"
  by (cases k rule: compressionTag.cases) (auto simp: compressionKindFromTag_def)

lemma stored_form_decodes:
  assumes "stored_form rt kind value stored" and "length value \<le> 8388608"
  shows "decodeStoreValueRecord rt stored strict = Inr value"
  using assms unfolding stored_form_def
proof (elim disjE exE conjE)
  assume "stored = envelope STORE_RECORD_MAGIC 0 (length value) value"
  moreover have "drop 18 (envelope STORE_RECORD_MAGIC 0 (length value) value) = value" by (simp add: envelope_def)
  ultimately show ?thesis using assms(2)
    by (simp add: decodeStoreValueRecord_def readEnvelopeHeader_envelope compressionKindFromTag_def Let_def)
next
  fix tag payload
  assume t: "compressionTag (Some kind) = Inr tag" "stored = envelope STORE_RECORD_MAGIC tag (length value) payload"
    "decompressBytes rt payload kind (Some (length value)) = Inr value"
  have "drop 18 (envelope STORE_RECORD_MAGIC tag (length value) payload) = payload" by (simp add: envelope_def)
  then show ?thesis using assms(2) t compressionKind_round_trip [OF t(1)]
    by (simp add: decodeStoreValueRecord_def readEnvelopeHeader_envelope Let_def)
qed

lemma prepared_stored_form:
  assumes "rec_kindTag r = Some 0 \<and> payload_bytes out (rec_payload r) = value \<or>
      (\<exists>c. rec_kindTag r = Some 3 \<and> rec_payload r = Owned c \<and> compressionIsProfitable (length value) (length c) \<and>
         decodeSnappy c (f64_of_nat (length value)) (Some (f64_of_nat (length value))) = Inr value)"
    and "rec_kindTag r = Some tag"
  shows "stored_form rt SnappyKind value
    (envelope STORE_RECORD_MAGIC tag (length value) (payload_bytes out (rec_payload r)))"
  using assms by (auto simp: stored_form_def decompressBytes_def)

lemma encode_snappy_stored:
  assumes "length table = 16384" and "length value \<le> 8388608"
  obtains stored table' where "encodeStoreValueRecord rt value (Some SnappyKind) table = (Inr stored, table')"
    and "length table' = 16384" and "stored_form rt SnappyKind value stored"
proof -
  obtain r table' where r: "prepareFastStoreValueRecord [] (Owned value) True table = (Inr r, table')"
      "length table' = 16384" "rec_rawLength r = length value"
      "rec_byteLength r = 18 + length (payload_bytes [] (rec_payload r))"
      and k: "rec_kindTag r = Some 0 \<and> rec_payload r = Owned value \<or>
      (\<exists>c. rec_kindTag r = Some 3 \<and> rec_payload r = Owned c \<and> compressionIsProfitable (length value) (length c) \<and>
         decodeSnappy c (f64_of_nat (length value)) (Some (f64_of_nat (length value))) = Inr value)"
    using prepare_compressed [of table "[]" "Owned value"] assms by auto
  define data where "data = payload_bytes [] (rec_payload r)"
  obtain tag where tag: "rec_kindTag r = Some tag" using k by blast
  have own: "payload_bytes b (rec_payload r) = data" for b
    using k by (auto simp: data_def)
  let ?target = "replicate (rec_byteLength r) (0 :: byte)" and ?stored = "envelope STORE_RECORD_MAGIC tag (length value) data"
  have "f64_of_nat 0 = 0" by (simp add: f64_of_nat_def)
  then have "writePreparedStoreValueRecord r ?target 0 = Inr (?stored, int (rec_byteLength r))"
    using writePrepared_eq [of 0 r ?target tag] tag r(3,4) by (simp add: own)
  then have "encodeStoreValueRecord rt value (Some SnappyKind) table = (Inr ?stored, table')"
    using assms(2) r(1) by (simp add: encodeStoreValueRecord_def validateStoreValueLength_def eff_simps)
  moreover have "stored_form rt SnappyKind value ?stored"
    using prepared_stored_form [of r "[]" "value" tag rt] k tag by (auto simp: data_def)
  ultimately show ?thesis using that r(2) by blast
qed

lemma encode_stream_stored:
  assumes "lawful_streams rt" and "kind = Gzip \<or> kind = Deflate" and "length value \<le> 8388608"
  obtains stored where "\<And>table. encodeStoreValueRecord rt value (Some kind) table = (Inr stored, table)"
    and "stored_form rt kind value stored"
proof -
  obtain parts where c: "\<And>stop. collectCompressed rt value kind stop =
      (if (\<exists>s. stop = Some s \<and> s \<le> length (concat parts)) then Inr None
       else Inr (Some (parts, length (concat parts))))"
    and d: "decompressBytes rt (concat parts) kind (Some (length value)) = Inr value"
    using lawful_round_trip [OF assms(1,2)] by blast
  obtain tag where tag: "compressionTag (Some kind) = Inr tag" using assms(2) by auto
  let ?stored = "overlay (replicate (18 + length value) (0 :: byte)) 18 value"
  have st: "drop 18 ?stored = value" "18 \<le> length ?stored" by (simp_all add: overlay_def)
  define small where "small \<longleftrightarrow> 1024 \<le> length value \<and> length (concat parts) < length value \<and>
    compressionIsProfitable (length value) (length (concat parts))"
  define stored where "stored = (if small then envelope STORE_RECORD_MAGIC tag (length value) (concat parts)
    else envelope STORE_RECORD_MAGIC 0 (length value) value)"
  have kind: "kind \<noteq> SnappyKind" using assms(2) by auto
  have seal: "writeEnvelopeHeader ?stored STORE_RECORD_MAGIC 0 (length value) = envelope STORE_RECORD_MAGIC 0 (length value) value"
    using writeEnvelopeHeader_eq [of STORE_RECORD_MAGIC ?stored 0 "length value"] st by simp
  have "encodeStoreValueRecord rt value (Some kind) table = (Inr stored, table)" for table
    using assms(3) kind
    by (auto simp: encodeStoreValueRecord_def validateStoreValueLength_def eff_simps buildEnvelope_eq Let_def st(1)
        c seal tag envelopeFromChunks_eq small_def stored_def)
  moreover have "stored_form rt kind value stored"
    using tag d by (auto simp: stored_form_def stored_def small_def)
  ultimately show ?thesis using that by blast
qed

lemma encode_stored:
  assumes "lawful_streams rt" and "kind \<in> {Gzip, Deflate, SnappyKind}"
    and "length table = 16384" and "length value \<le> 8388608"
  obtains stored table' where "encodeStoreValueRecord rt value (Some kind) table = (Inr stored, table')"
    and "length table' = 16384" and "stored_form rt kind value stored"
proof (cases "kind = SnappyKind")
  case True
  then show ?thesis using encode_snappy_stored [OF assms(3,4), of rt] that by metis
next
  case False
  then have "kind = Gzip \<or> kind = Deflate" using assms(2) by simp
  then show ?thesis using encode_stream_stored [OF assms(1) _ assms(4)] that assms(3) by metis
qed

lemma stored_form_envelope:
  assumes "stored_form rt kind value stored"
  obtains tag payload where "stored = envelope STORE_RECORD_MAGIC tag (length value) payload"
    and "compressionKindFromTag tag = Inr None \<or> compressionKindFromTag tag = Inr (Some kind)" and "tag < 256"
    and "tag = 0 \<and> payload = value \<or> compressionIsProfitable (length value) (length payload)"
proof -
  from assms consider "stored = envelope STORE_RECORD_MAGIC 0 (length value) value"
    | tag payload where "compressionTag (Some kind) = Inr tag" "stored = envelope STORE_RECORD_MAGIC tag (length value) payload"
        "compressionIsProfitable (length value) (length payload)"
    unfolding stored_form_def by blast
  then show ?thesis
  proof cases
    case 1
    then show ?thesis using that [of 0 "value"] by (simp add: compressionKindFromTag_def)
  next
    case (2 tag payload)
    then show ?thesis using that [of tag payload] compressionKind_round_trip [of "Some kind" tag] by simp
  qed
qed

lemma envelope_replace:
  assumes "length magic = 8" and "envelope magic tag n payload = pre @ as @ suf" and "18 \<le> length pre"
  obtains p where "payload = p @ as @ suf"
    and "\<And>bs. pre @ bs @ suf = magic @ [1, of_nat tag] @ le_bytes 4 n @ le_bytes 4 (crc32 payload) @ p @ bs @ suf"
proof -
  define h where "h = magic @ [1, of_nat tag] @ le_bytes 4 n @ le_bytes 4 (crc32 payload)"
  have "length h = 18" using assms(1) by (simp add: h_def)
  moreover have "h @ payload = pre @ as @ suf" using assms(2) by (simp add: h_def envelope_def)
  ultimately have "pre = h @ drop 18 pre" "payload = drop 18 pre @ as @ suf"
    using assms(3) by (auto simp: append_eq_append_conv_if)
  then obtain p where "pre = h @ p" "payload = p @ as @ suf" by blast
  then show ?thesis using that by (simp add: h_def)
qed

text \<open>Reading an envelope whose payload was replaced.\<close>

lemma decode_bad_payload:
  assumes "n < 256 ^ 4" and "tag < 256" and "compressionKindFromTag tag = Inr k" and "crc32 bad \<noteq> crc32 payload"
    and "stored = STORE_RECORD_MAGIC @ [1, of_nat tag] @ le_bytes 4 n @ le_bytes 4 (crc32 payload) @ bad"
  shows "decodeStoreValueRecord rt stored strict =
    (if strict then throw CorruptionError ''value record checksum mismatch'' else Inr stored)"
proof -
  have "drop 10 stored = le_bytes 4 n @ le_bytes 4 (crc32 payload) @ bad"
    "drop 14 stored = le_bytes 4 (crc32 payload) @ bad" "drop 18 stored = bad"
    "take 8 stored = STORE_RECORD_MAGIC" "stored ! 8 = 1" "stored ! 9 = of_nat tag" "18 \<le> length stored"
    by (simp_all add: assms(5) nth_append)
  then show ?thesis
    using assms(1-4) crc32_less [of payload]
    by (simp add: decodeStoreValueRecord_def readEnvelopeHeader_def Let_def)
qed

section \<open>Properties\<close>

text \<open>
  C18. Reading back a stored value gives the value: for every compression kind and every value within
  the 8 MiB limit, encoding succeeds whatever the match table holds and decoding the record, strictly
  or not, returns the value.
\<close>

theorem storeValueRecord_round_trip:
  assumes "lawful_streams rt" and "kind \<in> {Gzip, Deflate, SnappyKind}"
    and "length table = 16384" and "length value \<le> 8388608"
  shows "\<exists>stored table'. encodeStoreValueRecord rt value (Some kind) table = (Inr stored, table') \<and>
    length table' = 16384 \<and> decodeStoreValueRecord rt stored strict = Inr value"
  using encode_stored [OF assms] stored_form_decodes [OF _ assms(4)] by metis

definition stored_streams :: stream_runtime where
  "stored_streams = \<lparr> streams_available = True, compression_stream = (\<lambda>_ chunks. Some (chunks, False)),
     decompression_stream = (\<lambda>_ chunks. Some (chunks, False)) \<rparr>"

lemma lawful_stored_streams: "lawful_streams stored_streams"
  by (simp add: lawful_streams_def stored_streams_def)

theorem storeValueRecord_round_trip_witness:
  "\<exists>stored table'. encodeStoreValueRecord stored_streams [1, 2, 3] (Some Gzip) (replicate 16384 0) = (Inr stored, table') \<and>
     decodeStoreValueRecord stored_streams stored True = Inr [1, 2, 3]"
  using storeValueRecord_round_trip [OF lawful_stored_streams, of Gzip "replicate 16384 0" "[1, 2, 3]" True] by auto

text \<open>
  A stored record is at most the 18 byte header longer than the value, and a record that holds a
  compressed payload is at least ten percent smaller than the value.
\<close>

theorem storeValueRecord_size:
  assumes "lawful_streams rt" and "kind \<in> {Gzip, Deflate, SnappyKind}"
    and "length table = 16384" and "length value \<le> 8388608"
  shows "\<exists>stored table'. encodeStoreValueRecord rt value (Some kind) table = (Inr stored, table') \<and>
    length stored \<le> 18 + length value \<and> (stored ! 9 \<noteq> 0 \<longrightarrow> 100 * length stored \<le> 90 * length value)"
proof -
  obtain stored table' where e: "encodeStoreValueRecord rt value (Some kind) table = (Inr stored, table')"
      and "stored_form rt kind value stored"
    using encode_stored [OF assms] by metis
  then obtain tag payload where s: "stored = envelope STORE_RECORD_MAGIC tag (length value) payload"
      "tag = 0 \<and> payload = value \<or> compressionIsProfitable (length value) (length payload)"
    using stored_form_envelope by blast
  have "stored ! 9 = of_nat tag" by (simp add: s(1) envelope_def nth_append)
  then have "length stored \<le> 18 + length value \<and> (stored ! 9 \<noteq> 0 \<longrightarrow> 100 * length stored \<le> 90 * length value)"
    using s by (auto simp: compressionIsProfitable_def)
  with e show ?thesis by blast
qed

theorem storeValueRecord_size_witness:
  "\<exists>stored table'. encodeStoreValueRecord stored_streams [7] (Some SnappyKind) (replicate 16384 0) = (Inr stored, table') \<and>
     length stored \<le> 19"
  using storeValueRecord_size [OF lawful_stored_streams, of SnappyKind "replicate 16384 0" "[7]"] by auto

text \<open>
  C19. A stored record whose payload was changed within four consecutive bytes is never decoded: a
  strict read reports corruption, and a lenient one returns the damaged record as it is.
\<close>

theorem storeValueRecord_detects_damage:
  assumes "lawful_streams rt" and "kind \<in> {Gzip, Deflate, SnappyKind}"
    and "length table = 16384" and "length value \<le> 8388608"
    and "encodeStoreValueRecord rt value (Some kind) table = (Inr (pre @ as @ suf), table')"
    and "18 \<le> length pre" and "length bs = length as" and "length as \<le> 4" and "bs \<noteq> as"
  shows "decodeStoreValueRecord rt (pre @ bs @ suf) strict =
    (if strict then throw CorruptionError ''value record checksum mismatch'' else Inr (pre @ bs @ suf))"
proof -
  have "stored_form rt kind value (pre @ as @ suf)"
    using encode_stored [OF assms(1-4)] assms(5) by (metis Inr_inject prod.inject)
  then obtain tag payload where env: "envelope STORE_RECORD_MAGIC tag (length value) payload = pre @ as @ suf"
      and k: "compressionKindFromTag tag = Inr None \<or> compressionKindFromTag tag = Inr (Some kind)" "tag < 256"
    using stored_form_envelope by metis
  obtain p where p: "payload = p @ as @ suf"
      "pre @ bs @ suf = STORE_RECORD_MAGIC @ [1, of_nat tag] @ le_bytes 4 (length value) @ le_bytes 4 (crc32 payload) @ p @ bs @ suf"
    using envelope_replace [OF _ env assms(6)] by auto
  have "crc32 (p @ bs @ suf) \<noteq> crc32 payload"
    unfolding p(1) using assms(7-9) by (intro crc32_burst) simp_all
  moreover have "length value < 256 ^ 4" using assms(4) by simp
  ultimately show ?thesis using k p(2) by (elim disjE) (rule decode_bad_payload; assumption)+
qed

theorem storeValueRecord_detects_damage_witness:
  "decodeStoreValueRecord stored_streams ((envelope STORE_RECORD_MAGIC 0 3 [1, 2, 3])[18 := 9]) True =
     throw CorruptionError ''value record checksum mismatch''"
proof -
  let ?h = "STORE_RECORD_MAGIC @ [1, 0] @ le_bytes 4 3 @ le_bytes 4 (crc32 [1, 2, 3])"
  have len: "length ?h = 18" by simp
  have "encodeStoreValueRecord stored_streams [1, 2, 3] (Some Gzip) (replicate 16384 0) =
      (Inr (?h @ [1] @ [2, 3]), replicate 16384 0)"
    by (simp add: encodeStoreValueRecord_def validateStoreValueLength_def eff_simps buildEnvelope_eq envelope_def
        numeral_3_eq_3)
  moreover have "(envelope STORE_RECORD_MAGIC 0 3 [1, 2, 3])[18 := 9] = ?h @ [9] @ [2, 3]"
    using len by (simp add: envelope_def list_update_append)
  ultimately show ?thesis
    using storeValueRecord_detects_damage [OF lawful_stored_streams, of Gzip "replicate 16384 0" "[1, 2, 3]"
        ?h "[1]" "[2, 3]" "replicate 16384 0" "[9]" True] len by simp
qed

text \<open>
  C20. A prepared record is written in place without harm even when its payload is borrowed from the
  destination buffer: exactly the announced bytes at the offset change, and they are the value itself
  for a plain store and a record that reads back as the value for a Snappy store.
\<close>

theorem preparedRecord_written:
  assumes "length table = 16384" and "payload_bytes target source = value" and "off < 2 ^ 53"
    and "prepareFastStoreValueRecord target source compression table = (Inr r, table')"
    and "off + rec_byteLength r \<le> length target"
  shows "\<exists>stored. length stored = rec_byteLength r \<and>
    writePreparedStoreValueRecord r target (f64_of_nat off) = Inr (overlay target off stored, int (off + length stored)) \<and>
    (if compression then decodeStoreValueRecord rt stored strict = Inr value else stored = value)"
proof (cases compression)
  case False
  then have "rec_byteLength r = length value" "rec_payload r = source" "rec_kindTag r = None"
    using assms(2,4) by (auto simp: prepareFastStoreValueRecord_def eff_simps Let_def)
  then have "writePreparedStoreValueRecord r target (f64_of_nat off) = Inr (overlay target off value, int (off + length value))"
    using assms(2,3,5) f64_of_nat [OF assms(3)] by (simp add: writePreparedStoreValueRecord_def)
  then show ?thesis using False \<open>rec_byteLength r = length value\<close> by auto
next
  case True
  have small: "length value \<le> 8388608"
  proof (rule ccontr)
    assume "\<not> length value \<le> 8388608"
    then have "validateStoreValueLength value = throw ValueTooLargeError ''value exceeds the byte limit''"
      by (simp add: validateStoreValueLength_def)
    then show False using assms(2,4) True by (simp add: prepareFastStoreValueRecord_def eff_simps Let_def)
  qed
  have r: "rec_rawLength r = length value" "rec_byteLength r = 18 + length (payload_bytes target (rec_payload r))"
    and k: "rec_kindTag r = Some 0 \<and> rec_payload r = source \<or>
      (\<exists>c. rec_kindTag r = Some 3 \<and> rec_payload r = Owned c \<and> compressionIsProfitable (length value) (length c) \<and>
         decodeSnappy c (f64_of_nat (length value)) (Some (f64_of_nat (length value))) = Inr value)"
    using prepare_compressed [of table target source] assms(1,2,4) small True by auto
  then obtain tag where tag: "rec_kindTag r = Some tag" by blast
  define stored where "stored = envelope STORE_RECORD_MAGIC tag (length value) (payload_bytes target (rec_payload r))"
  have "writePreparedStoreValueRecord r target (f64_of_nat off) = Inr (overlay target off stored, int (off + rec_byteLength r))"
    using writePrepared_eq [OF assms(3,5) tag r(2)] r(1) by (simp add: stored_def)
  moreover have "stored_form rt SnappyKind value stored"
    using prepared_stored_form [of r target "value" tag rt] k tag assms(2) by (auto simp: stored_def)
  moreover have "length stored = rec_byteLength r" by (simp add: stored_def r(2))
  ultimately show ?thesis using True stored_form_decodes small by metis
qed

theorem preparedRecord_written_witness:
  "\<exists>stored r. prepareFastStoreValueRecord [1, 2, 3, 4] (Borrowed 0 3) False (replicate 16384 0) = (Inr r, replicate 16384 0) \<and>
     writePreparedStoreValueRecord r [1, 2, 3, 4] (f64_of_nat 1) = Inr (overlay [1, 2, 3, 4] 1 stored, 4) \<and> stored = [1, 2, 3]"
proof -
  let ?r = "\<lparr> rec_byteLength = 3, rec_payload = Borrowed 0 3, rec_rawLength = 3, rec_kindTag = None \<rparr>"
  have p: "prepareFastStoreValueRecord [1, 2, 3, 4] (Borrowed 0 3) False (replicate 16384 0) = (Inr ?r, replicate 16384 0)"
    by (simp add: prepareFastStoreValueRecord_def eff_simps)
  show ?thesis
    using preparedRecord_written [of "replicate 16384 0" "[1, 2, 3, 4]" "Borrowed 0 3" "[1, 2, 3]" 1 False ?r "replicate 16384 0"] p
    by auto
qed

text \<open>
  Importing an exported snapshot gives the snapshot: unwrapping what wrapping returned is the
  identity for both stream kinds and, for a snapshot that does not itself begin with the envelope's
  magic bytes, without compression.
\<close>

theorem snapshotCompression_round_trip:
  assumes "lawful_streams rt" and "length snapshot \<le> 268435456"
    and "compression = Some Gzip \<or> compression = Some Deflate \<or>
      compression = None \<and> take 8 snapshot \<noteq> SNAPSHOT_EXPORT_MAGIC"
  shows "\<exists>exported. wrapSnapshotWithCompression rt snapshot compression = Inr exported \<and>
    unwrapSnapshotCompression rt exported = Inr snapshot"
proof (cases compression)
  case None
  then show ?thesis using assms(3)
    by (auto simp: wrapSnapshotWithCompression_def unwrapSnapshotCompression_def readEnvelopeHeader_def)
next
  case (Some kind)
  then have kind: "kind = Gzip \<or> kind = Deflate" using assms(3) by auto
  obtain parts where c: "\<And>stop. collectCompressed rt snapshot kind stop =
      (if (\<exists>s. stop = Some s \<and> s \<le> length (concat parts)) then Inr None
       else Inr (Some (parts, length (concat parts))))"
    and d: "decompressBytes rt (concat parts) kind (Some (length snapshot)) = Inr snapshot"
    using lawful_round_trip [OF assms(1) kind] by blast
  obtain tag where tag: "compressionTag (Some kind) = Inr tag" using kind by auto
  let ?e = "envelope SNAPSHOT_EXPORT_MAGIC tag (length snapshot) (concat parts)"
  have "wrapSnapshotWithCompression rt snapshot compression = Inr ?e"
    using Some kind assms(2) tag by (auto simp: wrapSnapshotWithCompression_def c envelopeFromChunks_eq)
  moreover have "drop 18 ?e = concat parts" by (simp add: envelope_def)
  then have "unwrapSnapshotCompression rt ?e = Inr snapshot"
    using kind assms(2) d compressionKind_round_trip [OF tag]
    by (auto simp: unwrapSnapshotCompression_def readEnvelopeHeader_envelope)
  ultimately show ?thesis by blast
qed

theorem snapshotCompression_round_trip_witness:
  "\<exists>exported. wrapSnapshotWithCompression stored_streams [1, 2] (Some Deflate) = Inr exported \<and>
     unwrapSnapshotCompression stored_streams exported = Inr [1, 2]"
  using snapshotCompression_round_trip [OF lawful_stored_streams, of "[1, 2]" "Some Deflate"] by simp

end
