(* ===== verification/Packed.thy ===== *)
theory Packed
  imports Records
begin

text \<open>
  The packed binary payloads of \<^verbatim>\<open>packages/sdk/src/worker-protocol.ts\<close>: lists of byte strings, key and
  value pairs, nullable lists, scan rows and batch operations are sent between the client and the
  worker as one byte array, a 32 bit count, a table of fixed size entries, and the concatenated
  payloads. All integers are little-endian.

  The interface \<open>packed_table\<close> states what a reader of such a payload does with one table entry, and
  \<open>packed_writer\<close> what a writer does; both are interpreted on every format of the source.
\<close>

section \<open>Checked sizes\<close>

abbreviation (input) U32_MAX :: nat where "U32_MAX \<equiv> 0xffffffff"
abbreviation (input) MAX_PACKED_RESPONSE_BYTES :: nat where "MAX_PACKED_RESPONSE_BYTES \<equiv> 16777216"

abbreviation protocol_error :: "string \<Rightarrow> 'a result" where
  "protocol_error message \<equiv> throw WorkerProtocolError message"

definition checkedU32 :: "nat \<Rightarrow> string \<Rightarrow> nat result" where
  "checkedU32 v what = (if U32_MAX < v then protocol_error (what @ '' exceeds 32-bit payload limit'') else Inr v)"

definition checkedByteCount :: "nat \<Rightarrow> nat \<Rightarrow> string \<Rightarrow> nat result" where
  "checkedByteCount count itemBytes what =
     (if 2 ^ 53 \<le> count then protocol_error (what @ '' count is invalid'') else checkedU32 (count * itemBytes) what)"

definition checkedAdd :: "nat \<Rightarrow> nat \<Rightarrow> string \<Rightarrow> nat result" where
  "checkedAdd left right what = checkedU32 (left + right) what"

text \<open>\<^verbatim>\<open>view.getUint32(offset, true)\<close> within the view.\<close>

definition getUint32 :: "bytes \<Rightarrow> nat \<Rightarrow> nat" where
  "getUint32 bs offset = le_val (take 4 (drop offset bs))"

definition subarray :: "bytes \<Rightarrow> nat \<Rightarrow> nat \<Rightarrow> bytes" where
  "subarray bs start stop = take (stop - start) (drop start bs)"

section \<open>Binary lists\<close>

fun measure_list :: "jsval list \<Rightarrow> nat \<Rightarrow> nat result" where
  "measure_list [] payloadBytes = Inr payloadBytes"
| "measure_list (VBytes item # items) payloadBytes =
     bindr (checkedU32 (length item) ''binary-list item length'') (\<lambda>itemLength.
       if U32_MAX < payloadBytes + itemLength
       then protocol_error ''packed binary-list payload exceeds 32-bit payload limit''
       else measure_list items (payloadBytes + itemLength))"
| "measure_list (_ # items) payloadBytes = protocol_error ''binary-list payload item is not a Uint8Array''"

fun write_list :: "jsval list \<Rightarrow> bytes \<Rightarrow> nat \<Rightarrow> nat \<Rightarrow> bytes" where
  "write_list (VBytes item # items) out metadataOffset writeOffset =
     write_list items
       (overlay (overlay out metadataOffset (le_bytes 4 (length item))) writeOffset item)
       (metadataOffset + 4) (writeOffset + length item)"
| "write_list _ out metadataOffset writeOffset = out"

definition packBinaryList :: "jsval list \<Rightarrow> bytes result" where
  "packBinaryList items =
     (let count = length items in
      bindr (checkedByteCount count 4 ''packed binary-list metadata'') (\<lambda>metadataBytes.
      bindr (measure_list items 0) (\<lambda>payloadBytes.
      bindr (checkedAdd 4 metadataBytes ''packed binary-list header'') (\<lambda>payloadOffset.
      bindr (checkedAdd payloadOffset payloadBytes ''packed binary-list total'') (\<lambda>totalBytes.
        Inr (write_list items (overlay (replicate totalBytes 0) 0 (le_bytes 4 count)) 4 payloadOffset))))))"

fun scan_list :: "bytes \<Rightarrow> nat \<Rightarrow> nat \<Rightarrow> nat \<Rightarrow> (bytes list \<times> nat) result" where
  "scan_list bs 0 metadataOffset readOffset = Inr ([], readOffset)"
| "scan_list bs (Suc remaining) metadataOffset readOffset =
     (let stop = readOffset + getUint32 bs metadataOffset in
      if U32_MAX < stop \<or> length bs < stop then protocol_error ''packed binary-list item exceeds payload length''
      else bindr (scan_list bs remaining (metadataOffset + 4) stop) (\<lambda>(items, final).
        Inr (subarray bs readOffset stop # items, final)))"

definition unpackBinaryList :: "bytes \<Rightarrow> bytes list result" where
  "unpackBinaryList bs =
     (if length bs < 4 then protocol_error ''invalid packed binary-list payload''
      else let count = getUint32 bs 0 in
      bindr (checkedByteCount count 4 ''packed binary-list metadata'') (\<lambda>metadataBytes.
      bindr (checkedAdd 4 metadataBytes ''packed binary-list header'') (\<lambda>payloadOffset.
        if length bs < payloadOffset then protocol_error ''packed binary-list metadata exceeds payload length''
        else bindr (scan_list bs count 4 payloadOffset) (\<lambda>(items, readOffset).
          if readOffset \<noteq> length bs then protocol_error ''packed binary-list payload has trailing bytes''
          else Inr items))))"

section \<open>Key and value pairs\<close>

text \<open>\<^verbatim>\<open>entry[0]\<close> and \<^verbatim>\<open>entry[1]\<close>, when both are byte arrays.\<close>

definition pair_entry :: "jsval \<Rightarrow> (bytes \<times> bytes) option" where
  "pair_entry entry =
     (case (prop_get entry (js ''0''), prop_get entry (js ''1'')) of
        (VBytes key, VBytes v) \<Rightarrow> Some (key, v)
      | _ \<Rightarrow> None)"

fun measure_pairs :: "jsval list \<Rightarrow> nat \<Rightarrow> nat result" where
  "measure_pairs [] payloadBytes = Inr payloadBytes"
| "measure_pairs (entry # entries) payloadBytes =
     (if entry = VNull \<or> entry = VUndefined then throw TypeError ''Cannot read properties''
      else case pair_entry entry of
        None \<Rightarrow> protocol_error ''putMany entry key/value is not a Uint8Array''
      | Some (key, v) \<Rightarrow>
          bindr (checkedU32 (length key) ''putMany key length'') (\<lambda>keyLength.
          bindr (checkedU32 (length v) ''putMany value length'') (\<lambda>valueLength.
            if U32_MAX < payloadBytes + (keyLength + valueLength)
            then protocol_error ''packed putMany payload exceeds 32-bit payload limit''
            else measure_pairs entries (payloadBytes + (keyLength + valueLength)))))"

fun write_pairs :: "jsval list \<Rightarrow> bytes \<Rightarrow> nat \<Rightarrow> nat \<Rightarrow> bytes" where
  "write_pairs [] out metadataOffset writeOffset = out"
| "write_pairs (entry # entries) out metadataOffset writeOffset =
     (case pair_entry entry of
        None \<Rightarrow> out
      | Some (key, v) \<Rightarrow>
          let out1 = overlay out metadataOffset (le_bytes 4 (length key));
              out2 = overlay out1 (metadataOffset + 4) (le_bytes 4 (length v));
              out3 = overlay out2 writeOffset key;
              out4 = overlay out3 (writeOffset + length key) v
          in write_pairs entries out4 (metadataOffset + 8) (writeOffset + length key + length v))"

definition packBinaryPairs :: "jsval list \<Rightarrow> bytes result" where
  "packBinaryPairs entries =
     bindr (checkedU32 (length entries * 2) ''packed putMany item count'') (\<lambda>count.
     bindr (checkedByteCount count 4 ''packed putMany metadata'') (\<lambda>metadataBytes.
     bindr (measure_pairs entries 0) (\<lambda>payloadBytes.
     bindr (checkedAdd 4 metadataBytes ''packed putMany header'') (\<lambda>payloadOffset.
     bindr (checkedAdd payloadOffset payloadBytes ''packed putMany total'') (\<lambda>totalBytes.
       Inr (write_pairs entries (overlay (replicate totalBytes 0) 0 (le_bytes 4 count)) 4 payloadOffset))))))"

text \<open>
  The reader of put-many payloads. What it keeps of an entry, the key or the pair, is its argument
  \<^verbatim>\<open>keep\<close>; the two overloads of the source are its two instances.
\<close>

fun scan_pairs :: "(bytes \<times> bytes \<Rightarrow> 'b) \<Rightarrow> bytes \<Rightarrow> nat \<Rightarrow> nat \<Rightarrow> nat \<Rightarrow> ('b list \<times> nat) result" where
  "scan_pairs keep bs 0 metadataOffset readOffset = Inr ([], readOffset)"
| "scan_pairs keep bs (Suc remaining) metadataOffset readOffset =
     (let keyEnd = readOffset + getUint32 bs metadataOffset;
          valueEnd = keyEnd + getUint32 bs (metadataOffset + 4)
      in if U32_MAX < keyEnd \<or> length bs < keyEnd then protocol_error ''packed putMany key exceeds payload length''
         else if U32_MAX < valueEnd \<or> length bs < valueEnd
         then protocol_error ''packed putMany value exceeds payload length''
         else bindr (scan_pairs keep bs remaining (metadataOffset + 8) valueEnd) (\<lambda>(entries, final).
           Inr (keep (subarray bs readOffset keyEnd, subarray bs keyEnd valueEnd) # entries, final)))"

definition unpackPutManyPayload :: "(bytes \<times> bytes \<Rightarrow> 'b) \<Rightarrow> bytes \<Rightarrow> 'b list result" where
  "unpackPutManyPayload keep bs =
     (if length bs < 4 then protocol_error ''invalid packed putMany payload''
      else let itemCount = getUint32 bs 0 in
      if itemCount mod 2 \<noteq> 0 then protocol_error ''packed putMany payload has an odd item count''
      else
      bindr (checkedByteCount itemCount 4 ''packed putMany metadata'') (\<lambda>metadataBytes.
      bindr (checkedAdd 4 metadataBytes ''packed putMany header'') (\<lambda>payloadOffset.
        if length bs < payloadOffset then protocol_error ''packed putMany metadata exceeds payload length''
        else bindr (scan_pairs keep bs (itemCount div 2) 4 payloadOffset) (\<lambda>(entries, readOffset).
          if readOffset \<noteq> length bs then protocol_error ''packed putMany payload has trailing bytes''
          else Inr entries))))"

definition unpackPackedBinaryPairs :: "bytes \<Rightarrow> (bytes \<times> bytes) list result" where
  "unpackPackedBinaryPairs bs = unpackPutManyPayload id bs"

definition unpackPackedBinaryPairKeys :: "bytes \<Rightarrow> bytes list result" where
  "unpackPackedBinaryPairKeys bs = unpackPutManyPayload fst bs"

section \<open>Nullable lists\<close>

fun measure_nullable :: "jsval list \<Rightarrow> nat \<Rightarrow> nat result" where
  "measure_nullable [] payloadBytes = Inr payloadBytes"
| "measure_nullable (VNull # items) payloadBytes = measure_nullable items payloadBytes"
| "measure_nullable (VBytes item # items) payloadBytes =
     bindr (checkedU32 (length item) ''nullable binary-list item length'') (\<lambda>itemLength.
       if U32_MAX < payloadBytes + itemLength
       then protocol_error ''packed nullable binary-list payload exceeds 32-bit payload limit''
       else measure_nullable items (payloadBytes + itemLength))"
| "measure_nullable (_ # items) payloadBytes =
     protocol_error ''nullable binary-list payload item is not a Uint8Array or null''"

fun write_nullable :: "jsval list \<Rightarrow> bytes \<Rightarrow> nat \<Rightarrow> nat \<Rightarrow> bytes" where
  "write_nullable (VNull # items) out metadataOffset writeOffset =
     write_nullable items (overlay (out[metadataOffset := 0]) (metadataOffset + 1) (le_bytes 4 0))
       (metadataOffset + 5) writeOffset"
| "write_nullable (VBytes item # items) out metadataOffset writeOffset =
     write_nullable items
       (overlay (overlay (out[metadataOffset := 1]) (metadataOffset + 1) (le_bytes 4 (length item))) writeOffset item)
       (metadataOffset + 5) (writeOffset + length item)"
| "write_nullable _ out metadataOffset writeOffset = out"

definition packNullableBinaryList :: "jsval list \<Rightarrow> bytes option result" where
  "packNullableBinaryList items =
     (let count = length items in
      bindr (checkedByteCount count 5 ''packed nullable binary-list metadata'') (\<lambda>metadataBytes.
      bindr (measure_nullable items 0) (\<lambda>payloadBytes.
      bindr (checkedAdd 4 metadataBytes ''packed nullable binary-list header'') (\<lambda>payloadOffset.
      bindr (checkedAdd payloadOffset payloadBytes ''packed nullable binary-list total'') (\<lambda>totalBytes.
        if MAX_PACKED_RESPONSE_BYTES < totalBytes then Inr None
        else Inr (Some (write_nullable items
               (overlay (replicate totalBytes 0) 0 (le_bytes 4 count)) 4 payloadOffset)))))))"

fun scan_nullable :: "bytes \<Rightarrow> nat \<Rightarrow> nat \<Rightarrow> nat \<Rightarrow> (bytes option list \<times> nat) result" where
  "scan_nullable bs 0 metadataOffset readOffset = Inr ([], readOffset)"
| "scan_nullable bs (Suc remaining) metadataOffset readOffset =
     (let present = bs ! metadataOffset; byteLength = getUint32 bs (metadataOffset + 1) in
      if present = 0 then
        (if byteLength \<noteq> 0 then protocol_error ''packed nullable binary-list null item has a payload length''
         else bindr (scan_nullable bs remaining (metadataOffset + 5) readOffset) (\<lambda>(items, final).
           Inr (None # items, final)))
      else if present \<noteq> 1 then protocol_error ''packed nullable binary-list item has invalid presence byte''
      else
        let stop = readOffset + byteLength in
        if U32_MAX < stop \<or> length bs < stop
        then protocol_error ''packed nullable binary-list item exceeds payload length''
        else bindr (scan_nullable bs remaining (metadataOffset + 5) stop) (\<lambda>(items, final).
          Inr (Some (subarray bs readOffset stop) # items, final)))"

definition unpackNullableBinaryList :: "bytes \<Rightarrow> bytes option list result" where
  "unpackNullableBinaryList bs =
     (if length bs < 4 then protocol_error ''invalid packed nullable binary-list payload''
      else let count = getUint32 bs 0 in
      bindr (checkedByteCount count 5 ''packed nullable binary-list metadata'') (\<lambda>metadataBytes.
      bindr (checkedAdd 4 metadataBytes ''packed nullable binary-list header'') (\<lambda>payloadOffset.
        if length bs < payloadOffset
        then protocol_error ''packed nullable binary-list metadata exceeds payload length''
        else bindr (scan_nullable bs count 4 payloadOffset) (\<lambda>(items, readOffset).
          if readOffset \<noteq> length bs then protocol_error ''packed nullable binary-list payload has trailing bytes''
          else Inr items))))"

section \<open>Scan rows\<close>

definition row_entry :: "jsval \<Rightarrow> (bytes \<times> bytes) option" where
  "row_entry row =
     (if \<not> is_object row then None
      else case (prop_get row (js ''key''), prop_get row (js ''value'')) of
        (VBytes key, VBytes v) \<Rightarrow> Some (key, v)
      | _ \<Rightarrow> None)"

fun measure_rows :: "jsval list \<Rightarrow> nat \<Rightarrow> nat result" where
  "measure_rows [] payloadBytes = Inr payloadBytes"
| "measure_rows (row # rows) payloadBytes =
     (case row_entry row of
        None \<Rightarrow> protocol_error ''scan row payload key/value is not a Uint8Array''
      | Some (key, v) \<Rightarrow>
          bindr (checkedU32 (length key) ''scan row key length'') (\<lambda>keyLength.
          bindr (checkedU32 (length v) ''scan row value length'') (\<lambda>valueLength.
            if U32_MAX < payloadBytes + (keyLength + valueLength)
            then protocol_error ''packed scan row payload exceeds 32-bit payload limit''
            else measure_rows rows (payloadBytes + (keyLength + valueLength)))))"

fun write_rows :: "jsval list \<Rightarrow> bytes \<Rightarrow> nat \<Rightarrow> nat \<Rightarrow> bytes" where
  "write_rows [] out metadataOffset writeOffset = out"
| "write_rows (row # rows) out metadataOffset writeOffset =
     (case row_entry row of
        None \<Rightarrow> out
      | Some (key, v) \<Rightarrow>
          let out1 = overlay out metadataOffset (le_bytes 4 (length key));
              out2 = overlay out1 (metadataOffset + 4) (le_bytes 4 (length v));
              out3 = overlay out2 writeOffset key;
              out4 = overlay out3 (writeOffset + length key) v
          in write_rows rows out4 (metadataOffset + 8) (writeOffset + length key + length v))"

definition packScanRows :: "jsval list \<Rightarrow> bytes option result" where
  "packScanRows rows =
     (let count = length rows in
      bindr (checkedByteCount count 8 ''packed scan row metadata'') (\<lambda>metadataBytes.
      bindr (measure_rows rows 0) (\<lambda>payloadBytes.
      bindr (checkedAdd 4 metadataBytes ''packed scan row header'') (\<lambda>payloadOffset.
      bindr (checkedAdd payloadOffset payloadBytes ''packed scan row total'') (\<lambda>totalBytes.
        if MAX_PACKED_RESPONSE_BYTES < totalBytes then Inr None
        else Inr (Some (write_rows rows
               (overlay (replicate totalBytes 0) 0 (le_bytes 4 count)) 4 payloadOffset)))))))"

fun scan_rows :: "bytes \<Rightarrow> nat \<Rightarrow> nat \<Rightarrow> nat \<Rightarrow> ((bytes \<times> bytes) list \<times> nat) result" where
  "scan_rows bs 0 metadataOffset readOffset = Inr ([], readOffset)"
| "scan_rows bs (Suc remaining) metadataOffset readOffset =
     (let keyEnd = readOffset + getUint32 bs metadataOffset;
          valueEnd = keyEnd + getUint32 bs (metadataOffset + 4)
      in if U32_MAX < keyEnd \<or> length bs < keyEnd then protocol_error ''packed scan row key exceeds payload length''
         else if U32_MAX < valueEnd \<or> length bs < valueEnd
         then protocol_error ''packed scan row value exceeds payload length''
         else bindr (scan_rows bs remaining (metadataOffset + 8) valueEnd) (\<lambda>(rows, final).
           Inr ((subarray bs readOffset keyEnd, subarray bs keyEnd valueEnd) # rows, final)))"

definition unpackScanRows :: "bytes \<Rightarrow> (bytes \<times> bytes) list result" where
  "unpackScanRows bs =
     (if length bs < 4 then protocol_error ''invalid packed scan row payload''
      else let count = getUint32 bs 0 in
      bindr (checkedByteCount count 8 ''packed scan row metadata'') (\<lambda>metadataBytes.
      bindr (checkedAdd 4 metadataBytes ''packed scan row header'') (\<lambda>payloadOffset.
        if length bs < payloadOffset then protocol_error ''packed scan row metadata exceeds payload length''
        else bindr (scan_rows bs count 4 payloadOffset) (\<lambda>(rows, readOffset).
          if readOffset \<noteq> length bs then protocol_error ''packed scan row payload has trailing bytes''
          else Inr rows))))"

section \<open>Batch operations\<close>

fun measure_batch :: "jsval list \<Rightarrow> nat \<Rightarrow> nat result" where
  "measure_batch [] payloadBytes = Inr payloadBytes"
| "measure_batch (op # ops) payloadBytes =
     (let kind = prop_get op (js ''kind'') in
      if \<not> is_object op \<or> kind \<noteq> VString (js ''put'') \<and> kind \<noteq> VString (js ''delete'')
      then protocol_error ''batch operation kind is not put or delete''
      else case prop_get op (js ''key'') of
        VBytes key \<Rightarrow>
          bindr (checkedU32 (length key) ''batch operation key length'') (\<lambda>keyLength.
            if U32_MAX < payloadBytes + keyLength
            then protocol_error ''packed batch payload exceeds 32-bit payload limit''
            else if kind = VString (js ''put'') then
              (case prop_get op (js ''value'') of
                 VBytes v \<Rightarrow>
                   bindr (checkedU32 (length v) ''batch put value length'') (\<lambda>valueLength.
                     if U32_MAX < payloadBytes + keyLength + valueLength
                     then protocol_error ''packed batch payload exceeds 32-bit payload limit''
                     else measure_batch ops (payloadBytes + keyLength + valueLength))
               | _ \<Rightarrow> protocol_error ''batch put value is not a Uint8Array'')
            else measure_batch ops (payloadBytes + keyLength))
      | _ \<Rightarrow> protocol_error ''batch operation key is not a Uint8Array'')"

text \<open>The operation an element stands for once the first loop has accepted it.\<close>

definition batch_entry :: "jsval \<Rightarrow> BatchOp option" where
  "batch_entry op =
     (case prop_get op (js ''key'') of
        VBytes key \<Rightarrow>
          if \<not> is_object op then None
          else if prop_get op (js ''kind'') = VString (js ''put'') then
            (case prop_get op (js ''value'') of VBytes v \<Rightarrow> Some (PutOp key v) | _ \<Rightarrow> None)
          else if prop_get op (js ''kind'') = VString (js ''delete'') then Some (DeleteOp key)
          else None
      | _ \<Rightarrow> None)"

fun write_batch :: "jsval list \<Rightarrow> bytes \<Rightarrow> nat \<Rightarrow> nat \<Rightarrow> bytes" where
  "write_batch [] out metadataOffset writeOffset = out"
| "write_batch (op # ops) out metadataOffset writeOffset =
     (case batch_entry op of
        None \<Rightarrow> out
      | Some (PutOp key v) \<Rightarrow>
          let out1 = out[metadataOffset := 1];
              out2 = overlay out1 (metadataOffset + 1) (le_bytes 4 (length key));
              out3 = overlay out2 (metadataOffset + 5) (le_bytes 4 (length v));
              out4 = overlay out3 writeOffset key;
              out5 = overlay out4 (writeOffset + length key) v
          in write_batch ops out5 (metadataOffset + 9) (writeOffset + length key + length v)
      | Some (DeleteOp key) \<Rightarrow>
          let out1 = out[metadataOffset := 0];
              out2 = overlay out1 (metadataOffset + 1) (le_bytes 4 (length key));
              out3 = overlay out2 (metadataOffset + 5) (le_bytes 4 0);
              out4 = overlay out3 writeOffset key
          in write_batch ops out4 (metadataOffset + 9) (writeOffset + length key))"

definition packBatchOps :: "jsval list \<Rightarrow> bytes result" where
  "packBatchOps ops =
     (let count = length ops in
      bindr (checkedByteCount count 9 ''packed batch metadata'') (\<lambda>metadataBytes.
      bindr (measure_batch ops 0) (\<lambda>payloadBytes.
      bindr (checkedAdd 4 metadataBytes ''packed batch header'') (\<lambda>payloadOffset.
      bindr (checkedAdd payloadOffset payloadBytes ''packed batch total'') (\<lambda>totalBytes.
        Inr (write_batch ops (overlay (replicate totalBytes 0) 0 (le_bytes 4 count)) 4 payloadOffset))))))"

text \<open>As for put-many payloads, \<^verbatim>\<open>keep\<close> is what the reader keeps of an operation.\<close>

fun scan_batch :: "(BatchOp \<Rightarrow> 'b) \<Rightarrow> bytes \<Rightarrow> nat \<Rightarrow> nat \<Rightarrow> nat \<Rightarrow> ('b list \<times> nat) result" where
  "scan_batch keep bs 0 metadataOffset readOffset = Inr ([], readOffset)"
| "scan_batch keep bs (Suc remaining) metadataOffset readOffset =
     (let kind = bs ! metadataOffset;
          keyEnd = readOffset + getUint32 bs (metadataOffset + 1);
          valueLength = getUint32 bs (metadataOffset + 5)
      in if U32_MAX < keyEnd \<or> length bs < keyEnd then protocol_error ''packed batch key exceeds payload length''
         else if kind = 0 then
           (if valueLength \<noteq> 0 then protocol_error ''packed delete operation has a value payload''
            else bindr (scan_batch keep bs remaining (metadataOffset + 9) keyEnd) (\<lambda>(ops, final).
              Inr (keep (DeleteOp (subarray bs readOffset keyEnd)) # ops, final)))
         else if kind \<noteq> 1 then protocol_error ''packed batch operation has invalid kind byte''
         else
           let valueEnd = keyEnd + valueLength in
           if U32_MAX < valueEnd \<or> length bs < valueEnd
           then protocol_error ''packed batch value exceeds payload length''
           else bindr (scan_batch keep bs remaining (metadataOffset + 9) valueEnd) (\<lambda>(ops, final).
             Inr (keep (PutOp (subarray bs readOffset keyEnd) (subarray bs keyEnd valueEnd)) # ops, final)))"

definition unpackBatchPayload :: "(BatchOp \<Rightarrow> 'b) \<Rightarrow> bytes \<Rightarrow> 'b list result" where
  "unpackBatchPayload keep bs =
     (if length bs < 4 then protocol_error ''invalid packed batch payload''
      else let count = getUint32 bs 0 in
      bindr (checkedByteCount count 9 ''packed batch metadata'') (\<lambda>metadataBytes.
      bindr (checkedAdd 4 metadataBytes ''packed batch header'') (\<lambda>payloadOffset.
        if length bs < payloadOffset then protocol_error ''packed batch metadata exceeds payload length''
        else bindr (scan_batch keep bs count 4 payloadOffset) (\<lambda>(ops, readOffset).
          if readOffset \<noteq> length bs then protocol_error ''packed batch payload has trailing bytes''
          else Inr ops))))"

text \<open>A \<^verbatim>\<open>PackedBatchOpKey\<close>: whether the operation is a put, and its key.\<close>

fun op_key :: "BatchOp \<Rightarrow> bool \<times> bytes" where
  "op_key (PutOp key _) = (True, key)"
| "op_key (DeleteOp key) = (False, key)"

definition unpackPackedBatchOps :: "bytes \<Rightarrow> BatchOp list result" where
  "unpackPackedBatchOps bs = unpackBatchPayload id bs"

definition unpackPackedBatchOpKeys :: "bytes \<Rightarrow> (bool \<times> bytes) list result" where
  "unpackPackedBatchOpKeys bs = unpackBatchPayload op_key bs"

section \<open>Packets of the engine\<close>

fun scan_optional :: "bytes \<Rightarrow> nat \<Rightarrow> nat \<Rightarrow> nat \<Rightarrow> (bytes option list \<times> nat) result" where
  "scan_optional bs 0 metadataOffset readOffset = Inr ([], readOffset)"
| "scan_optional bs (Suc remaining) metadataOffset readOffset =
     (let byteLength = getUint32 bs metadataOffset in
      if byteLength = U32_MAX then
        bindr (scan_optional bs remaining (metadataOffset + 4) readOffset) (\<lambda>(items, final).
          Inr (None # items, final))
      else
        let stop = readOffset + byteLength in
        if length bs < stop then protocol_error ''packed optional-values item exceeds payload length''
        else bindr (scan_optional bs remaining (metadataOffset + 4) stop) (\<lambda>(items, final).
          Inr (Some (subarray bs readOffset stop) # items, final)))"

definition unpackPackedOptionalValues :: "bytes \<Rightarrow> bytes option list result" where
  "unpackPackedOptionalValues bs =
     (if length bs < 4 then protocol_error ''invalid packed optional-values payload''
      else let count = getUint32 bs 0 in
      bindr (checkedByteCount count 4 ''packed optional-values metadata'') (\<lambda>metadataBytes.
      bindr (checkedAdd 4 metadataBytes ''packed optional-values header'') (\<lambda>payloadOffset.
        if length bs < payloadOffset then protocol_error ''packed optional-values metadata exceeds payload length''
        else bindr (scan_optional bs count 4 payloadOffset) (\<lambda>(items, readOffset).
          if readOffset \<noteq> length bs then protocol_error ''packed optional-values payload has trailing bytes''
          else Inr items))))"

fun scan_engine_rows :: "bytes \<Rightarrow> nat \<Rightarrow> nat \<Rightarrow> ((bytes \<times> bytes) list \<times> nat) result" where
  "scan_engine_rows bs 0 offset = Inr ([], offset)"
| "scan_engine_rows bs (Suc remaining) offset =
     (if length bs < offset + 8 then protocol_error ''truncated engine scan row''
      else
        let keyLength = getUint32 bs offset;
            valueLength = getUint32 bs (offset + 4);
            keyStart = offset + 8;
            valueStart = keyStart + keyLength;
            stop = valueStart + valueLength
        in if length bs < stop then protocol_error ''engine scan row exceeds packet length''
           else bindr (scan_engine_rows bs remaining stop) (\<lambda>(rows, final).
             Inr ((subarray bs keyStart valueStart, subarray bs valueStart stop) # rows, final)))"

text \<open>The quotient of the count check is a real number: it compares \<open>8 * count\<close> with the rest of the packet.\<close>

definition unpackPackedScanRows :: "bytes \<Rightarrow> (bytes \<times> bytes) list result" where
  "unpackPackedScanRows bs =
     (if length bs < 4 then protocol_error ''invalid engine scan packet''
      else let count = getUint32 bs 0 in
        if length bs - 4 < 8 * count then protocol_error ''engine scan row count exceeds packet length''
        else bindr (scan_engine_rows bs count 4) (\<lambda>(rows, offset).
          if offset \<noteq> length bs then protocol_error ''engine scan packet has trailing bytes'' else Inr rows))"

section \<open>The interface of packed tables\<close>

definition packed_layout :: "nat \<Rightarrow> ('a \<Rightarrow> bytes) \<Rightarrow> ('a \<Rightarrow> bytes) \<Rightarrow> 'a list \<Rightarrow> bytes" where
  "packed_layout units head body xs =
     le_bytes 4 (units * length xs) @ concat (map head xs) @ concat (map body xs)"

lemma length_concat_fixed:
  "list_all (\<lambda>x. length (f x) = w) xs \<Longrightarrow> length (concat (map f xs)) = w * length xs"
  by (induction xs) simp_all

lemma ex_Cons_iff: "\<not> P [] \<Longrightarrow> (\<exists>xs. P xs) \<longleftrightarrow> (\<exists>x xs. P (x # xs))"
  by (metis neq_Nil_conv)

lemma map_Cons_Some: "map f (v # vs) = map Some xs \<longleftrightarrow> (\<exists>x ys. xs = x # ys \<and> f v = Some x \<and> map f vs = map Some ys)"
  by (cases xs) auto

lemma take_append_split:
  assumes "off + length a \<le> length bs"
  shows "take (length a + k) (drop off bs) = a @ b \<longleftrightarrow>
    take (length a) (drop off bs) = a \<and> take k (drop (off + length a) bs) = b"
proof -
  have "take (length a + k) (drop off bs) = take (length a) (drop off bs) @ take k (drop (off + length a) bs)"
    by (simp only: take_add drop_drop add.commute [of off])
  then show ?thesis using assms by simp
qed

lemma overlay_commute:
  assumes "off + length a \<le> off'" and "off' + length b \<le> length out"
  shows "overlay (overlay out off' b) off a = overlay (overlay out off a) off' b"
  using assms by (simp add: overlay_def min_absorb1 ac_simps drop_take)

text \<open>The table entry at \<^verbatim>\<open>mo\<close> and the payload at \<^verbatim>\<open>ro\<close> are those of the item \<^verbatim>\<open>x\<close>.\<close>

definition entry_at ::
  "nat \<Rightarrow> (nat \<Rightarrow> bool) \<Rightarrow> ('a \<Rightarrow> bytes) \<Rightarrow> ('a \<Rightarrow> bytes) \<Rightarrow> ('a \<Rightarrow> bool) \<Rightarrow> bytes \<Rightarrow> nat \<Rightarrow> nat \<Rightarrow> 'a \<Rightarrow> bool" where
  "entry_at width fit head body ok bs mo ro x \<longleftrightarrow>
     ok x \<and> take width (drop mo bs) = head x \<and> ro + length (body x) \<le> length bs \<and> fit (ro + length (body x)) \<and>
     take (length (body x)) (drop ro bs) = body x"

text \<open>
  What a reader relies on: one step of the loop accepts an entry exactly when the table holds the
  entry of some item and the payload follows, and the whole reader accepts exactly when the loop ends
  at the end of the bytes.
\<close>

locale packed_table =
  fixes units width :: nat and fits :: "nat \<Rightarrow> bool"
    and head :: "'a \<Rightarrow> bytes" and body :: "'a \<Rightarrow> bytes" and ok :: "'a \<Rightarrow> bool" and keep :: "'a \<Rightarrow> 'b"
    and scan :: "bytes \<Rightarrow> nat \<Rightarrow> nat \<Rightarrow> nat \<Rightarrow> ('b list \<times> nat) result"
    and unpack :: "bytes \<Rightarrow> 'b list result"
  assumes units: "0 < units" "units \<le> width"
    and fits: "n \<le> 0xffffffff \<Longrightarrow> fits n" "fits n \<Longrightarrow> m \<le> n \<Longrightarrow> fits m"
    and head_length: "ok x \<Longrightarrow> length (head x) = width"
    and scan_0: "scan bs 0 mo ro = Inr ([], ro)"
    and scan_Suc: "mo + width \<le> length bs \<Longrightarrow> ro \<le> length bs \<Longrightarrow> fits ro \<Longrightarrow>
      scan bs (Suc n) mo ro = Inr (ys, r) \<longleftrightarrow>
        (\<exists>x zs. entry_at width fits head body ok bs mo ro x \<and>
           scan bs n (mo + width) (ro + length (body x)) = Inr (zs, r) \<and> ys = keep x # zs)"
    and unpack_iff: "unpack bs = Inr ys \<longleftrightarrow> 4 \<le> length bs \<and>
      (\<exists>n. getUint32 bs 0 = units * n \<and> 4 + n * width \<le> length bs \<and> 4 + n * width \<le> 0xffffffff \<and>
           scan bs n 4 (4 + n * width) = Inr (ys, length bs))"
begin

lemma heads_length: "list_all ok xs \<Longrightarrow> length (concat (map head xs)) = width * length xs"
  by (rule length_concat_fixed) (auto simp: list_all_iff head_length)

lemma scan_iff:
  "mo + n * width \<le> length bs \<Longrightarrow> ro \<le> length bs \<Longrightarrow> fits ro \<Longrightarrow>
     scan bs n mo ro = Inr (ys, r) \<longleftrightarrow>
       (\<exists>xs. length xs = n \<and> list_all ok xs \<and> take (n * width) (drop mo bs) = concat (map head xs) \<and>
          r = ro + length (concat (map body xs)) \<and> r \<le> length bs \<and> fits r \<and>
          take (r - ro) (drop ro bs) = concat (map body xs) \<and> ys = map keep xs)"
proof (induction n arbitrary: mo ro ys)
  case 0
  then show ?case by (auto simp: scan_0)
next
  case (Suc n)
  let ?R = "\<lambda>n mo ro ys r xs. length xs = n \<and> list_all ok xs \<and> take (n * width) (drop mo bs) = concat (map head xs) \<and>
          r = ro + length (concat (map body xs)) \<and> r \<le> length bs \<and> fits r \<and>
          take (r - ro) (drop ro bs) = concat (map body xs) \<and> ys = map keep xs"
  have step: "ok x \<and> take width (drop mo bs) = head x \<and> ro + length (body x) \<le> length bs \<and> fits (ro + length (body x)) \<and>
      take (length (body x)) (drop ro bs) = body x \<and> ?R n (mo + width) (ro + length (body x)) zs r xs \<and> ys = keep x # zs
      \<longleftrightarrow> ?R (Suc n) mo ro ys r (x # xs) \<and> zs = map keep xs" for x xs zs
  proof -
    have split: "take (width + n * width) (drop mo bs) = head x @ concat (map head xs) \<longleftrightarrow>
        take width (drop mo bs) = head x \<and> take (n * width) (drop (mo + width) bs) = concat (map head xs)" if "ok x"
      using take_append_split [of mo "head x" bs "n * width"] head_length [OF that] Suc.prems(1) by simp
    have split': "take (length (body x) + k) (drop ro bs) = body x @ concat (map body xs) \<longleftrightarrow>
        take (length (body x)) (drop ro bs) = body x \<and> take k (drop (ro + length (body x)) bs) = concat (map body xs)"
      if "ro + length (body x) \<le> length bs" for k
      using that by (rule take_append_split)
    show ?thesis
      using split split' [of "length (concat (map body xs))"] fits(2) [of r "ro + length (body x)"]
      by (auto simp: ac_simps)
  qed
  have "scan bs (Suc n) mo ro = Inr (ys, r) \<longleftrightarrow> (\<exists>x zs xs. ok x \<and> take width (drop mo bs) = head x \<and>
      ro + length (body x) \<le> length bs \<and> fits (ro + length (body x)) \<and> take (length (body x)) (drop ro bs) = body x \<and>
      ?R n (mo + width) (ro + length (body x)) zs r xs \<and> ys = keep x # zs)"
    using Suc.prems Suc.IH by (subst scan_Suc) (auto 4 4 simp: entry_at_def)
  also have "\<dots> \<longleftrightarrow> (\<exists>x xs. ?R (Suc n) mo ro ys r (x # xs))" by (simp only: step) blast
  also have "\<dots> \<longleftrightarrow> (\<exists>xs. ?R (Suc n) mo ro ys r xs)" by (rule ex_Cons_iff [symmetric]) simp
  finally show ?case .
qed

text \<open>The reader accepts exactly the layouts, and returns what it keeps of their items.\<close>

lemma unpack_layout:
  "unpack bs = Inr ys \<longleftrightarrow>
     (\<exists>xs. bs = packed_layout units head body xs \<and> list_all ok xs \<and> ys = map keep xs \<and>
        4 + length xs * width \<le> 0xffffffff \<and> fits (length bs))"
proof
  assume "unpack bs = Inr ys"
  then obtain n where n: "4 \<le> length bs" "getUint32 bs 0 = units * n" "4 + n * width \<le> length bs"
      "4 + n * width \<le> 0xffffffff" "scan bs n 4 (4 + n * width) = Inr (ys, length bs)"
    unfolding unpack_iff by blast
  then obtain xs where xs: "length xs = n" "list_all ok xs" "take (n * width) (drop 4 bs) = concat (map head xs)"
      "length bs = 4 + n * width + length (concat (map body xs))" "fits (length bs)"
      "take (length bs - (4 + n * width)) (drop (4 + n * width) bs) = concat (map body xs)" "ys = map keep xs"
    using scan_iff [of 4 n bs "4 + n * width" ys "length bs"] fits(1) [OF n(4)] by auto
  have "take 4 bs = le_bytes 4 (units * n)"
    using n(1,2) le_bytes_le_val [of "take 4 bs"] by (simp add: getUint32_def)
  moreover have "bs = take 4 bs @ take (n * width) (drop 4 bs) @ drop (4 + n * width) bs"
    by (metis append_take_drop_id drop_drop add.commute)
  ultimately have "bs = packed_layout units head body xs"
    using xs by (simp add: packed_layout_def)
  then show "\<exists>xs. bs = packed_layout units head body xs \<and> list_all ok xs \<and> ys = map keep xs \<and>
      4 + length xs * width \<le> 0xffffffff \<and> fits (length bs)"
    using xs n(4) by blast
next
  assume "\<exists>xs. bs = packed_layout units head body xs \<and> list_all ok xs \<and> ys = map keep xs \<and>
      4 + length xs * width \<le> 0xffffffff \<and> fits (length bs)"
  then obtain xs where xs: "bs = packed_layout units head body xs" "list_all ok xs" "ys = map keep xs"
      "4 + length xs * width \<le> 0xffffffff" "fits (length bs)"
    by blast
  let ?n = "length xs"
  have len: "length (concat (map head xs)) = ?n * width" using heads_length [OF xs(2)] by (simp add: mult.commute)
  have "units * ?n \<le> width * ?n" using units(2) by (rule mult_le_mono1)
  then have "units * ?n \<le> 0xffffffff" using xs(4) unfolding mult.commute [of width] by linarith
  then have "units * ?n < 256 ^ 4" by simp
  then have count: "getUint32 bs 0 = units * ?n" by (simp add: getUint32_def xs(1) packed_layout_def)
  have "scan bs ?n 4 (4 + ?n * width) = Inr (ys, length bs)"
    using xs(2,3,5) len fits(1) [OF xs(4)]
    by (subst scan_iff) (auto simp: xs(1) packed_layout_def intro!: exI [of _ xs])
  then show "unpack bs = Inr ys"
    unfolding unpack_iff using count xs(1,4) len by (auto simp: packed_layout_def)
qed

end

text \<open>
  What a writer relies on: the measuring loop accepts exactly the elements that stand for an item and
  adds their sizes, and one step of the writing loop stores an entry and a payload.
\<close>

locale packed_writer = packed_table +
  fixes item :: "jsval \<Rightarrow> 'a option"
    and measure_items :: "jsval list \<Rightarrow> nat \<Rightarrow> nat result"
    and put_items :: "jsval list \<Rightarrow> bytes \<Rightarrow> nat \<Rightarrow> nat \<Rightarrow> bytes"
  assumes measure_Nil: "measure_items [] p = Inr p"
    and measure_Cons: "p \<le> 0xffffffff \<Longrightarrow> measure_items (v # vs) p = Inr q \<longleftrightarrow>
      (\<exists>x. item v = Some x \<and> ok x \<and> p + length (body x) \<le> 0xffffffff \<and> measure_items vs (p + length (body x)) = Inr q)"
    and write_Nil: "put_items [] out mo wo = out"
    and write_Cons: "item v = Some x \<Longrightarrow> ok x \<Longrightarrow> mo + width \<le> wo \<Longrightarrow> wo + length (body x) \<le> length out \<Longrightarrow>
      put_items (v # vs) out mo wo = put_items vs (overlay (overlay out mo (head x)) wo (body x)) (mo + width) (wo + length (body x))"
begin

lemma measure_iff:
  "p \<le> 0xffffffff \<Longrightarrow> measure_items vs p = Inr q \<longleftrightarrow>
     (\<exists>xs. map item vs = map Some xs \<and> list_all ok xs \<and> q = p + length (concat (map body xs)) \<and> q \<le> 0xffffffff)"
proof (induction vs arbitrary: p)
  case Nil
  then show ?case by (auto simp: measure_Nil)
next
  case (Cons v vs)
  let ?B = "\<lambda>p xs. list_all ok xs \<and> q = p + length (concat (map body xs)) \<and> q \<le> 0xffffffff"
  have B: "?B p (x # xs) \<longleftrightarrow> ok x \<and> p + length (body x) \<le> 0xffffffff \<and> ?B (p + length (body x)) xs" for x xs
    by auto
  have "measure_items (v # vs) p = Inr q \<longleftrightarrow> (\<exists>x. item v = Some x \<and> ok x \<and> p + length (body x) \<le> 0xffffffff \<and>
      (\<exists>xs. map item vs = map Some xs \<and> ?B (p + length (body x)) xs))"
    unfolding measure_Cons [OF Cons.prems] using Cons.IH by blast
  also have "\<dots> \<longleftrightarrow> (\<exists>x xs. item v = Some x \<and> map item vs = map Some xs \<and> ?B p (x # xs))"
    unfolding B by blast
  also have "\<dots> \<longleftrightarrow> (\<exists>xs. map item (v # vs) = map Some xs \<and> ?B p xs)"
    unfolding map_Cons_Some by blast
  finally show ?case .
qed

lemma write_eq:
  assumes "map item vs = map Some xs" and "list_all ok xs" and "mo + width * length xs \<le> wo"
    and "wo + length (concat (map body xs)) \<le> length out"
  shows "put_items vs out mo wo = overlay (overlay out mo (concat (map head xs))) wo (concat (map body xs))"
  using assms
proof (induction xs arbitrary: vs out mo wo)
  case Nil
  then show ?case by (simp add: write_Nil)
next
  case (Cons x xs)
  then obtain v vs' where vs: "vs = v # vs'" "item v = Some x" "map item vs' = map Some xs" by (cases vs) auto
  let ?h = "head x" and ?b = "body x" and ?hs = "concat (map head xs)" and ?bs = "concat (map body xs)"
  have hl: "length ?h = width" "length ?hs = width * length xs"
    using Cons.prems(2) by (simp_all add: head_length heads_length)
  have bounds: "mo + width + width * length xs \<le> wo" "wo + length ?b + length ?bs \<le> length out"
    using Cons.prems(3,4) by simp_all
  let ?out1 = "overlay (overlay out mo ?h) wo ?b"
  have len1: "length (overlay out mo ?h) = length out" using bounds hl by simp
  then have "length ?out1 = length out" using bounds by simp
  then have "put_items vs out mo wo = overlay (overlay ?out1 (mo + width) ?hs) (wo + length ?b) ?bs"
    using Cons.IH [OF vs(3), of "mo + width" "wo + length ?b" ?out1] Cons.prems(2) bounds vs(1,2)
    by (simp add: write_Cons)
  also have "overlay ?out1 (mo + width) ?hs = overlay (overlay out mo (?h @ ?hs)) wo ?b"
    using bounds hl len1 overlay_commute [of "mo + width" ?hs wo ?b "overlay out mo ?h"] overlay_overlay [of mo ?h out ?hs]
    by simp
  also have "overlay (overlay (overlay out mo (?h @ ?hs)) wo ?b) (wo + length ?b) ?bs =
      overlay (overlay out mo (?h @ ?hs)) wo (?b @ ?bs)"
    using bounds hl by (intro overlay_overlay) simp
  finally show ?case by simp
qed

lemma written_layout:
  assumes "map item vs = map Some xs" and "list_all ok xs"
  shows "put_items vs (overlay (replicate (4 + length vs * width + length (concat (map body xs))) 0) 0
      (le_bytes 4 (units * length vs))) 4 (4 + length vs * width) = packed_layout units head body xs"
proof -
  have "length vs = length xs" using assms(1) by (metis length_map)
  moreover have "length (concat (map head xs)) = length xs * width" using heads_length [OF assms(2)] by simp
  ultimately show ?thesis
    using write_eq [OF assms, of 4 "4 + length vs * width"] by (simp add: packed_layout_def overlay_def mult.commute)
qed

text \<open>A pack function that measures, checks the totals and writes returns exactly the layouts that fit.\<close>

lemma pack_layout_limited:
  "(\<exists>q. length vs * width \<le> 0xffffffff \<and> measure_items vs 0 = Inr q \<and> 4 + length vs * width \<le> 0xffffffff \<and>
      4 + length vs * width + q \<le> 0xffffffff \<and> 4 + length vs * width + q \<le> max_size \<and>
      bs = put_items vs (overlay (replicate (4 + length vs * width + q) 0) 0 (le_bytes 4 (units * length vs))) 4
             (4 + length vs * width)) \<longleftrightarrow>
   (\<exists>xs. map item vs = map Some xs \<and> list_all ok xs \<and> bs = packed_layout units head body xs \<and> length bs \<le> 0xffffffff) \<and>
   length bs \<le> max_size"
  (is "?L \<longleftrightarrow> ?R")
proof -
  have size: "length (packed_layout units head body xs) = 4 + length vs * width + length (concat (map body xs))"
    if "map item vs = map Some xs" "list_all ok xs" for xs
    using heads_length [OF that(2)] that(1) by (simp add: packed_layout_def map_eq_imp_length_eq [OF that(1)] mult.commute)
  have "?L \<longleftrightarrow> (\<exists>xs. map item vs = map Some xs \<and> list_all ok xs \<and>
      4 + length vs * width + length (concat (map body xs)) \<le> 0xffffffff \<and>
      4 + length vs * width + length (concat (map body xs)) \<le> max_size \<and>
      bs = put_items vs (overlay (replicate (4 + length vs * width + length (concat (map body xs))) 0) 0
             (le_bytes 4 (units * length vs))) 4 (4 + length vs * width))"
    by (subst measure_iff) auto
  also have "\<dots> \<longleftrightarrow> ?R" using written_layout size by (auto 4 3)
  finally show ?thesis .
qed

lemmas pack_layout = pack_layout_limited [where max_size = "0xffffffff"]

text \<open>The reader accepts what the writer wrote, and nothing else.\<close>

lemma unpack_packed:
  assumes "\<And>x. item (render x) = Some x" and "\<And>n. fits n \<longleftrightarrow> n \<le> 0xffffffff"
  shows "unpack bs = Inr zs \<longleftrightarrow> (\<exists>xs. zs = map keep xs \<and>
    (\<exists>ys. map item (map render xs) = map Some ys \<and> list_all ok ys \<and> bs = packed_layout units head body ys \<and>
       length bs \<le> 0xffffffff))"
proof -
  have rendered: "map item (map render xs) = map Some ys \<longleftrightarrow> xs = ys" for xs ys
    by (simp add: assms(1) comp_def inj_map_eq_map)
  have "4 + length xs * width \<le> 0xffffffff" if "list_all ok xs" "length (packed_layout units head body xs) \<le> 0xffffffff" for xs
    using that heads_length [OF that(1)] by (simp add: packed_layout_def mult.commute)
  then show ?thesis unfolding unpack_layout rendered assms(2) by blast
qed

end

section \<open>The formats as packed tables\<close>

lemmas checked_simps = checkedU32_def checkedByteCount_def checkedAdd_def bindr_eq_Inr

lemma le_val_less: "le_val bs < 256 ^ length bs"
  by (metis le_bytes_le_val le_val_le_bytes mod_less_divisor zero_less_numeral zero_less_power)

lemma getUint32_less: "getUint32 bs off < 4294967296"
proof -
  have "le_val (take 4 (drop off bs)) < 256 ^ length (take 4 (drop off bs))" by (rule le_val_less)
  also have "\<dots> \<le> (256 :: nat) ^ 4" by (rule power_increasing) simp_all
  finally show ?thesis by (simp add: getUint32_def)
qed

lemma getUint32_bounds [simp]: "getUint32 bs off \<le> 4294967295" "getUint32 bs off < 9007199254740992"
  using getUint32_less [of bs off] by simp_all

lemma getUint32_entry:
  assumes "off + 4 \<le> length bs" and "n \<le> 0xffffffff"
  shows "take 4 (drop off bs) = le_bytes 4 n \<longleftrightarrow> getUint32 bs off = n"
proof
  assume "take 4 (drop off bs) = le_bytes 4 n"
  then show "getUint32 bs off = n" using assms(2) by (simp add: getUint32_def)
next
  assume "getUint32 bs off = n"
  then show "take 4 (drop off bs) = le_bytes 4 n"
    using assms(1) le_bytes_le_val [of "take 4 (drop off bs)"] by (simp add: getUint32_def)
qed

lemma entry_append:
  assumes "off + length h \<le> length bs"
  shows "take (length h + k) (drop off bs) = h @ t \<longleftrightarrow> take (length h) (drop off bs) = h \<and> take k (drop (off + length h) bs) = t"
  using assms by (rule take_append_split)

lemma entry32_append:
  assumes "off + 4 \<le> length bs" and "n \<le> 0xffffffff"
  shows "take (4 + k) (drop off bs) = le_bytes 4 n @ t \<longleftrightarrow> getUint32 bs off = n \<and> take k (drop (off + 4) bs) = t"
  using take_append_split [of off "le_bytes 4 n" bs k t] getUint32_entry [OF assms] assms(1) by simp

lemma entry8_append:
  assumes "off < length bs"
  shows "take (Suc k) (drop off bs) = b # t \<longleftrightarrow> bs ! off = b \<and> take k (drop (off + 1) bs) = t"
  using assms by (simp add: Cons_nth_drop_Suc [symmetric])

lemma subarray_iff:
  "ro + n \<le> length bs \<Longrightarrow> length x = n \<and> take n (drop ro bs) = x \<longleftrightarrow> x = subarray bs ro (ro + n)"
  by (auto simp: subarray_def)

lemma length_subarray [simp]: "stop \<le> length bs \<Longrightarrow> length (subarray bs start stop) = stop - start"
  by (simp add: subarray_def)

fun list_item :: "jsval \<Rightarrow> bytes option" where
  "list_item (VBytes b) = Some b"
| "list_item _ = None"

abbreviation (input) small :: "nat \<Rightarrow> bool" where "small n \<equiv> n \<le> 0xffffffff"

lemma unpackBinaryList_iff:
  "unpackBinaryList bs = Inr ys \<longleftrightarrow> 4 \<le> length bs \<and>
     (\<exists>n. getUint32 bs 0 = 1 * n \<and> 4 + n * 4 \<le> length bs \<and> 4 + n * 4 \<le> 0xffffffff \<and>
        scan_list bs n 4 (4 + n * 4) = Inr (ys, length bs))"
  by (auto simp: unpackBinaryList_def checked_simps Let_def split: if_splits)

lemma list_entry:
  assumes "mo + 4 \<le> length bs"
  shows "entry_at 4 (\<lambda>n. small n) (\<lambda>b. le_bytes 4 (length b)) (\<lambda>b. b) (\<lambda>b. small (length b)) bs mo ro x \<longleftrightarrow>
    ro + getUint32 bs mo \<le> length bs \<and> small (ro + getUint32 bs mo) \<and> x = subarray bs ro (ro + getUint32 bs mo)"
  using getUint32_entry [OF assms, of "length x"] subarray_iff [of ro "getUint32 bs mo" bs x]
  unfolding entry_at_def by auto

interpretation list_fmt: packed_writer 1 4 "\<lambda>n. small n" "\<lambda>b. le_bytes 4 (length b)" "\<lambda>b. b" "\<lambda>b. small (length b)"
  id scan_list unpackBinaryList list_item measure_list write_list
proof (unfold_locales, goal_cases)
  case (7 mo bs ro n ys r)
  then show ?case by (auto simp: list_entry Let_def bindr_eq_Inr not_less)
next
  case (8 bs ys)
  then show ?case by (rule unpackBinaryList_iff)
next
  case (10 p v vs q)
  then show ?case by (cases v) (auto simp: checked_simps not_less)
next
  case (12 v x mo wo out vs)
  then show ?case by (cases v) simp_all
qed simp_all

text \<open>Pairs: two table words per item. The same layout, with a count per row, is that of scan rows.\<close>

abbreviation (input) pair_head :: "bytes \<times> bytes \<Rightarrow> bytes" where
  "pair_head \<equiv> \<lambda>(k, v). le_bytes 4 (length k) @ le_bytes 4 (length v)"

abbreviation (input) pair_body :: "bytes \<times> bytes \<Rightarrow> bytes" where
  "pair_body \<equiv> \<lambda>(k, v). k @ v"

abbreviation (input) pair_ok :: "bytes \<times> bytes \<Rightarrow> bool" where
  "pair_ok \<equiv> \<lambda>(k, v). small (length k) \<and> small (length v)"

lemma subarray_append:
  "a \<le> b \<Longrightarrow> b \<le> c \<Longrightarrow> subarray bs a c = subarray bs a b @ subarray bs b c"
  using take_add [of "b - a" "c - b" "drop a bs"] by (simp add: subarray_def)

lemma two_subarrays_iff:
  assumes "ro + n + m \<le> length bs"
  shows "length k = n \<and> length v = m \<and> take (n + m) (drop ro bs) = k @ v \<longleftrightarrow>
    k = subarray bs ro (ro + n) \<and> v = subarray bs (ro + n) (ro + n + m)"
  using assms subarray_append [of ro "ro + n" "ro + n + m" bs]
    take_append_split [of ro k bs m v] by (auto simp: subarray_def)

lemma pair_entry_at:
  assumes "mo + 8 \<le> length bs"
  shows "entry_at 8 (\<lambda>n. small n) pair_head pair_body pair_ok bs mo ro x \<longleftrightarrow>
    (let keyEnd = ro + getUint32 bs mo; valueEnd = keyEnd + getUint32 bs (mo + 4)
     in valueEnd \<le> length bs \<and> small valueEnd \<and> x = (subarray bs ro keyEnd, subarray bs keyEnd valueEnd))"
proof (cases x)
  case (Pair k v)
  let ?n = "getUint32 bs mo" and ?m = "getUint32 bs (mo + 4)"
  have "pair_ok x \<and> take 8 (drop mo bs) = pair_head x \<longleftrightarrow> length k = ?n \<and> length v = ?m"
    using entry32_append [of mo bs "length k" 4 "le_bytes 4 (length v)"] getUint32_entry [of "mo + 4" bs "length v"] assms Pair
    by (auto simp: ac_simps)
  then show ?thesis
    using two_subarrays_iff [of ro ?n ?m bs k v] Pair unfolding entry_at_def Let_def
    by (auto simp: add.assoc)
qed

lemma unpackPutMany_iff:
  "unpackPutManyPayload keep bs = Inr ys \<longleftrightarrow> 4 \<le> length bs \<and>
     (\<exists>n. getUint32 bs 0 = 2 * n \<and> 4 + n * 8 \<le> length bs \<and> 4 + n * 8 \<le> 0xffffffff \<and>
        scan_pairs keep bs n 4 (4 + n * 8) = Inr (ys, length bs))"
  by (auto simp: unpackPutManyPayload_def checked_simps Let_def mult.commute elim!: evenE split: if_splits)

lemma overlay_pair:
  assumes "mo + 8 \<le> wo" and "wo + length k + length v \<le> length out"
  shows "overlay (overlay (overlay (overlay out mo (le_bytes 4 n)) (mo + 4) (le_bytes 4 m)) wo k) (wo + length k) v =
    overlay (overlay out mo (le_bytes 4 n @ le_bytes 4 m)) wo (k @ v)"
  using assms overlay_overlay [of mo "le_bytes 4 n" out "le_bytes 4 m"]
    overlay_overlay [of wo k "overlay out mo (le_bytes 4 n @ le_bytes 4 m)" v] by simp

interpretation pairs_fmt: packed_writer 2 8 "\<lambda>n. small n" pair_head pair_body pair_ok
  keep "scan_pairs keep" "unpackPutManyPayload keep" pair_entry measure_pairs write_pairs for keep :: "bytes \<times> bytes \<Rightarrow> 'b"
proof (unfold_locales, goal_cases)
  case (7 mo bs ro n ys r)
  then show ?case by (auto simp: pair_entry_at Let_def bindr_eq_Inr not_less add.assoc)
next
  case (8 bs ys)
  then show ?case by (rule unpackPutMany_iff)
next
  case (10 p v vs q)
  have "prop_get VNull k = VUndefined" "prop_get VUndefined k = VUndefined" for k
    by (simp_all add: prop_get_def own_property_def)
  then show ?case by (auto simp: checked_simps not_less pair_entry_def split: option.splits)
next
  case (12 v x mo wo out vs)
  then show ?case using overlay_pair by (auto simp: Let_def ac_simps)
qed auto

lemma unpackScanRows_iff:
  "unpackScanRows bs = Inr ys \<longleftrightarrow> 4 \<le> length bs \<and>
     (\<exists>n. getUint32 bs 0 = 1 * n \<and> 4 + n * 8 \<le> length bs \<and> 4 + n * 8 \<le> 0xffffffff \<and>
        scan_rows bs n 4 (4 + n * 8) = Inr (ys, length bs))"
  by (auto simp: unpackScanRows_def checked_simps Let_def split: if_splits)

interpretation rows_fmt: packed_writer 1 8 "\<lambda>n. small n" pair_head pair_body pair_ok
  id scan_rows unpackScanRows row_entry measure_rows write_rows
proof (unfold_locales, goal_cases)
  case (7 mo bs ro n ys r)
  then show ?case by (auto simp: pair_entry_at Let_def bindr_eq_Inr not_less add.assoc)
next
  case (8 bs ys)
  then show ?case by (rule unpackScanRows_iff)
next
  case (10 p v vs q)
  then show ?case by (auto simp: checked_simps not_less split: option.splits)
next
  case (12 v x mo wo out vs)
  then show ?case using overlay_pair by (auto simp: Let_def ac_simps)
qed auto

text \<open>Nullable items: a presence byte and a length.\<close>

fun nullable_item :: "jsval \<Rightarrow> bytes option option" where
  "nullable_item VNull = Some None"
| "nullable_item (VBytes b) = Some (Some b)"
| "nullable_item _ = None"

fun nullable_head :: "bytes option \<Rightarrow> bytes" where
  "nullable_head None = 0 # le_bytes 4 0"
| "nullable_head (Some b) = 1 # le_bytes 4 (length b)"

abbreviation (input) nullable_body :: "bytes option \<Rightarrow> bytes" where
  "nullable_body \<equiv> \<lambda>x. case x of None \<Rightarrow> [] | Some b \<Rightarrow> b"

abbreviation (input) nullable_ok :: "bytes option \<Rightarrow> bool" where
  "nullable_ok \<equiv> \<lambda>x. small (length (nullable_body x))"

lemma nullable_entry_at:
  assumes "mo + 5 \<le> length bs" and "ro \<le> length bs" and "small ro"
  shows "entry_at 5 (\<lambda>n. small n) nullable_head nullable_body nullable_ok bs mo ro x \<longleftrightarrow>
    (let byteLength = getUint32 bs (mo + 1) in
     if bs ! mo = 0 then byteLength = 0 \<and> x = None
     else bs ! mo = 1 \<and> ro + byteLength \<le> length bs \<and> small (ro + byteLength) \<and>
       x = Some (subarray bs ro (ro + byteLength)))"
proof -
  have tag: "take 5 (drop mo bs) = b # le_bytes 4 n \<longleftrightarrow> bs ! mo = b \<and> getUint32 bs (mo + 1) = n" if "small n" for b n
    using entry8_append [of mo bs 4 b "le_bytes 4 n"] getUint32_entry [of "mo + 1" bs n] assms(1) that by simp
  show ?thesis
  proof (cases x)
    case None
    then show ?thesis using tag [of 0 0] assms(2,3) unfolding entry_at_def Let_def by auto
  next
    case (Some a)
    then show ?thesis
      using tag [of "length a" 1] subarray_iff [of ro "getUint32 bs (mo + 1)" bs a] unfolding entry_at_def Let_def by auto
  qed
qed

lemma unpackNullable_iff:
  "unpackNullableBinaryList bs = Inr ys \<longleftrightarrow> 4 \<le> length bs \<and>
     (\<exists>n. getUint32 bs 0 = 1 * n \<and> 4 + n * 5 \<le> length bs \<and> 4 + n * 5 \<le> 0xffffffff \<and>
        scan_nullable bs n 4 (4 + n * 5) = Inr (ys, length bs))"
  by (auto simp: unpackNullableBinaryList_def checked_simps Let_def split: if_splits)

lemma overlay_tagged:
  "mo + 5 \<le> length out \<Longrightarrow> overlay (out[mo := b]) (mo + 1) (le_bytes 4 n) = overlay out mo (b # le_bytes 4 n)"
  using overlay_overlay [of mo "[b]" out "le_bytes 4 n"] by (simp add: overlay_update)

interpretation nullable_fmt: packed_writer 1 5 "\<lambda>n. small n" nullable_head nullable_body nullable_ok
  id scan_nullable unpackNullableBinaryList nullable_item measure_nullable write_nullable
proof (unfold_locales, goal_cases)
  case (5 x)
  then show ?case by (cases x) simp_all
next
  case (7 mo bs ro n ys r)
  then show ?case by (auto simp: nullable_entry_at Let_def bindr_eq_Inr not_less)
next
  case (8 bs ys)
  then show ?case by (rule unpackNullable_iff)
next
  case (10 p v vs q)
  then show ?case by (cases v) (auto simp: checked_simps not_less)
next
  case (12 v x mo wo out vs)
  then show ?case using overlay_tagged [of mo out] by (cases v) auto
qed simp_all

text \<open>Batch operations: a kind byte and two lengths.\<close>

fun batch_head :: "BatchOp \<Rightarrow> bytes" where
  "batch_head (PutOp k v) = 1 # le_bytes 4 (length k) @ le_bytes 4 (length v)"
| "batch_head (DeleteOp k) = 0 # le_bytes 4 (length k) @ le_bytes 4 0"

fun batch_body :: "BatchOp \<Rightarrow> bytes" where
  "batch_body (PutOp k v) = k @ v"
| "batch_body (DeleteOp k) = k"

fun batch_ok :: "BatchOp \<Rightarrow> bool" where
  "batch_ok (PutOp k v) = (small (length k) \<and> small (length v))"
| "batch_ok (DeleteOp k) = small (length k)"

lemma batch_entry_at:
  assumes "mo + 9 \<le> length bs"
  shows "entry_at 9 (\<lambda>n. small n) batch_head batch_body batch_ok bs mo ro x \<longleftrightarrow>
    (let keyEnd = ro + getUint32 bs (mo + 1); valueLength = getUint32 bs (mo + 5) in
     if bs ! mo = 0 then valueLength = 0 \<and> keyEnd \<le> length bs \<and> small keyEnd \<and> x = DeleteOp (subarray bs ro keyEnd)
     else bs ! mo = 1 \<and> keyEnd + valueLength \<le> length bs \<and> small (keyEnd + valueLength) \<and>
       x = PutOp (subarray bs ro keyEnd) (subarray bs keyEnd (keyEnd + valueLength)))"
proof -
  let ?n = "getUint32 bs (mo + 1)" and ?m = "getUint32 bs (mo + 5)"
  have tag: "take 9 (drop mo bs) = b # le_bytes 4 i @ le_bytes 4 j \<longleftrightarrow> bs ! mo = b \<and> ?n = i \<and> ?m = j"
    if "small i" "small j" for b i j
    using entry8_append [of mo bs 8 b "le_bytes 4 i @ le_bytes 4 j"] entry32_append [of "mo + 1" bs i 4 "le_bytes 4 j"]
      getUint32_entry [of "mo + 5" bs j] assms that by (simp add: add.commute [of 5 mo])
  show ?thesis
  proof (cases x)
    case (PutOp k v)
    then show ?thesis
      using tag [of "length k" "length v" 1] two_subarrays_iff [of ro ?n ?m bs k v] unfolding entry_at_def Let_def
      by (auto simp: add.assoc)
  next
    case (DeleteOp k)
    then show ?thesis
      using tag [of "length k" 0 0] subarray_iff [of ro ?n bs k] unfolding entry_at_def Let_def by auto
  qed
qed

lemma unpackBatch_iff:
  "unpackBatchPayload keep bs = Inr ys \<longleftrightarrow> 4 \<le> length bs \<and>
     (\<exists>n. getUint32 bs 0 = 1 * n \<and> 4 + n * 9 \<le> length bs \<and> 4 + n * 9 \<le> 0xffffffff \<and>
        scan_batch keep bs n 4 (4 + n * 9) = Inr (ys, length bs))"
  by (auto simp: unpackBatchPayload_def checked_simps Let_def split: if_splits)

lemma measure_batch_Cons:
  assumes "small p"
  shows "measure_batch (op # ops) p = Inr q \<longleftrightarrow>
    (\<exists>x. batch_entry op = Some x \<and> batch_ok x \<and> small (p + length (batch_body x)) \<and>
       measure_batch ops (p + length (batch_body x)) = Inr q)"
proof (cases "\<exists>key. prop_get op (js ''key'') = VBytes key")
  case False
  then show ?thesis
    by (cases "prop_get op (js ''key'')") (simp_all add: batch_entry_def Let_def)
next
  case True
  then obtain key where key: "prop_get op (js ''key'') = VBytes key" by blast
  have ne: "js ''put'' \<noteq> js ''delete''" by (simp add: js_def)
  show ?thesis
  proof (cases "is_object op \<and> prop_get op (js ''kind'') = VString (js ''put'')")
    case True
    then show ?thesis
      using assms key by (cases "prop_get op (js ''value'')") (auto simp: batch_entry_def Let_def checked_simps not_less add.assoc)
  next
    case False
    then show ?thesis using assms key ne by (auto simp: batch_entry_def Let_def checked_simps not_less)
  qed
qed

lemma write_batch_Cons:
  assumes "batch_entry op = Some x" and "mo + 9 \<le> wo" and "wo + length (batch_body x) \<le> length out"
  shows "write_batch (op # ops) out mo wo =
    write_batch ops (overlay (overlay out mo (batch_head x)) wo (batch_body x)) (mo + 9) (wo + length (batch_body x))"
proof -
  have tag: "overlay (overlay (out[mo := b]) (mo + 1) (le_bytes 4 i)) (mo + 5) (le_bytes 4 j) =
      overlay out mo (b # le_bytes 4 i @ le_bytes 4 j)" for b i j
    using overlay_tagged [of mo out b i] overlay_overlay [of mo "b # le_bytes 4 i" out "le_bytes 4 j"] assms(2,3) by simp
  show ?thesis
  proof (cases x)
    case (PutOp k v)
    then show ?thesis
      using assms tag [of 1 "length k" "length v"]
        overlay_overlay [of wo k "overlay out mo (batch_head x)" v] by (simp add: Let_def ac_simps)
  next
    case (DeleteOp k)
    then show ?thesis using assms tag [of 0 "length k" 0] by (simp add: Let_def)
  qed
qed

interpretation batch_fmt: packed_writer 1 9 "\<lambda>n. small n" batch_head batch_body batch_ok
  keep "scan_batch keep" "unpackBatchPayload keep" batch_entry measure_batch write_batch for keep :: "BatchOp \<Rightarrow> 'b"
proof (unfold_locales, goal_cases)
  case (5 x)
  then show ?case by (cases x) simp_all
next
  case (7 mo bs ro n ys r)
  then show ?case by (auto simp: batch_entry_at Let_def bindr_eq_Inr not_less add.assoc)
next
  case (8 bs ys)
  then show ?case by (rule unpackBatch_iff)
next
  case (10 p v vs q)
  then show ?case by (rule measure_batch_Cons)
next
  case (12 v x mo wo out vs)
  then show ?case by (intro write_batch_Cons)
qed simp_all

text \<open>Optional values, as the engine packs them: a missing value is marked by the largest length.\<close>

fun optional_head :: "bytes option \<Rightarrow> bytes" where
  "optional_head None = le_bytes 4 0xffffffff"
| "optional_head (Some b) = le_bytes 4 (length b)"

abbreviation (input) optional_ok :: "bytes option \<Rightarrow> bool" where
  "optional_ok \<equiv> \<lambda>x. case x of None \<Rightarrow> True | Some b \<Rightarrow> length b < 0xffffffff"

lemma optional_entry_at:
  assumes "mo + 4 \<le> length bs" and "ro \<le> length bs"
  shows "entry_at 4 (\<lambda>_. True) optional_head nullable_body optional_ok bs mo ro x \<longleftrightarrow>
    (if getUint32 bs mo = 0xffffffff then x = None
     else ro + getUint32 bs mo \<le> length bs \<and> x = Some (subarray bs ro (ro + getUint32 bs mo)))"
proof (cases x)
  case None
  then show ?thesis
    using getUint32_entry [OF assms(1), of "0xffffffff"] assms(2) unfolding entry_at_def by auto
next
  case (Some a)
  then show ?thesis
    using getUint32_entry [OF assms(1), of "length a"] subarray_iff [of ro "getUint32 bs mo" bs a] getUint32_bounds [of bs mo]
    unfolding entry_at_def by (auto simp: less_le)
qed

interpretation optional_fmt: packed_table 1 4 "\<lambda>_. True" optional_head nullable_body optional_ok
  id scan_optional unpackPackedOptionalValues
proof (unfold_locales, goal_cases)
  case (5 x)
  then show ?case by (cases x) simp_all
next
  case (7 mo bs ro n ys r)
  then show ?case by (auto simp: optional_entry_at Let_def bindr_eq_Inr not_less)
next
  case (8 bs ys)
  then show ?case by (auto simp: unpackPackedOptionalValues_def checked_simps Let_def split: if_splits)
qed simp_all

text \<open>Rows as the engine packs them: lengths, key and value of each row in turn.\<close>

definition engine_row :: "bytes \<times> bytes \<Rightarrow> bytes" where
  "engine_row = (\<lambda>(k, v). le_bytes 4 (length k) @ le_bytes 4 (length v) @ k @ v)"

lemma drop_split: "a \<le> b \<Longrightarrow> drop a bs = subarray bs a b @ drop b bs"
  by (metis append_take_drop_id drop_drop le_add_diff_inverse2 subarray_def)

lemma engine_row_at:
  assumes "off + 8 \<le> length bs"
  shows "pair_ok (k, v) \<and> drop off bs = engine_row (k, v) @ rest \<longleftrightarrow>
    (let valueStart = off + 8 + getUint32 bs off; stop = valueStart + getUint32 bs (off + 4)
     in stop \<le> length bs \<and> k = subarray bs (off + 8) valueStart \<and> v = subarray bs valueStart stop \<and> drop stop bs = rest)"
    (is "?L \<longleftrightarrow> ?R")
proof
  let ?n = "getUint32 bs off" and ?m = "getUint32 bs (off + 4)"
  assume L: ?L
  then have d: "drop off bs = le_bytes 4 (length k) @ le_bytes 4 (length v) @ k @ v @ rest"
    by (simp add: engine_row_def)
  have "drop (off + 4) bs = drop 4 (drop off bs)" "drop (off + 8) bs = drop 8 (drop off bs)" by (simp_all add: add.commute)
  then have d': "drop (off + 4) bs = le_bytes 4 (length v) @ k @ v @ rest" "drop (off + 8) bs = k @ v @ rest"
    using d by simp_all
  have n: "?n = length k" "?m = length v" using L d d'(1) by (simp_all add: getUint32_def)
  have len: "off + 8 + length k + length v \<le> length bs" using arg_cong [OF d, of length] assms by simp
  have "drop (off + 8 + length k) bs = drop (length k) (drop (off + 8) bs)" by (simp add: add.commute)
  then have v: "drop (off + 8 + length k) bs = v @ rest" using d'(2) by simp
  have "drop (off + 8 + length k + length v) bs = drop (length v) (drop (off + 8 + length k) bs)" by (simp add: add.commute)
  then show ?R using n len d'(2) v by (simp add: subarray_def Let_def)
next
  let ?n = "getUint32 bs off" and ?m = "getUint32 bs (off + 4)"
  assume ?R
  then have R: "off + 8 + ?n + ?m \<le> length bs" "k = subarray bs (off + 8) (off + 8 + ?n)"
      "v = subarray bs (off + 8 + ?n) (off + 8 + ?n + ?m)" "drop (off + 8 + ?n + ?m) bs = rest"
    by (simp_all add: Let_def)
  have len: "length k = ?n" "length v = ?m" using R(1) by (simp_all add: R(2,3))
  have "subarray bs off (off + 4) = le_bytes 4 ?n" "subarray bs (off + 4) (off + 8) = le_bytes 4 ?m"
    using getUint32_entry [of off bs ?n] getUint32_entry [of "off + 4" bs ?m] assms
    by (simp_all add: subarray_def)
  then have "drop off bs = le_bytes 4 ?n @ le_bytes 4 ?m @ k @ v @ rest"
    using drop_split [of off "off + 4" bs] drop_split [of "off + 4" "off + 8" bs]
      drop_split [of "off + 8" "off + 8 + ?n" bs] drop_split [of "off + 8 + ?n" "off + 8 + ?n + ?m" bs] R(2-4)
    by simp
  then show ?L using len by (simp add: engine_row_def)
qed

lemma scan_engine_rows_iff:
  "off \<le> length bs \<Longrightarrow> scan_engine_rows bs n off = Inr (rows, length bs) \<longleftrightarrow>
     length rows = n \<and> list_all pair_ok rows \<and> drop off bs = concat (map engine_row rows)"
proof (induction n arbitrary: off rows)
  case 0
  then show ?case by auto
next
  case (Suc n)
  show ?case
  proof (cases "off + 8 \<le> length bs")
    case False
    have "drop off bs \<noteq> engine_row row @ rest" for row rest
    proof
      assume "drop off bs = engine_row row @ rest"
      then have "length bs - off = length (engine_row row) + length rest" by (metis length_append length_drop)
      moreover have "8 \<le> length (engine_row row)" by (cases row) (simp add: engine_row_def)
      ultimately show False using False by simp
    qed
    then show ?thesis using False by (cases rows) auto
  next
    case True
    let ?vs = "off + 8 + getUint32 bs off" let ?stop = "?vs + getUint32 bs (off + 4)"
    show ?thesis
    proof (cases rows)
      case Nil
      then show ?thesis by (auto simp: Let_def bindr_eq_Inr)
    next
      case (Cons row rest)
      obtain k v where kv: "row = (k, v)" by (cases row)
      have "scan_engine_rows bs (Suc n) off = Inr (rows, length bs) \<longleftrightarrow> ?stop \<le> length bs \<and> k = subarray bs (off + 8) ?vs \<and>
          v = subarray bs ?vs ?stop \<and> scan_engine_rows bs n ?stop = Inr (rest, length bs)"
        using True by (auto simp: Cons kv Let_def bindr_eq_Inr not_less)
      also have "\<dots> \<longleftrightarrow> ?stop \<le> length bs \<and> k = subarray bs (off + 8) ?vs \<and> v = subarray bs ?vs ?stop \<and>
          length rest = n \<and> list_all pair_ok rest \<and> drop ?stop bs = concat (map engine_row rest)"
        using Suc.IH [of ?stop rest] by blast
      also have "\<dots> \<longleftrightarrow> length rest = n \<and> list_all pair_ok rest \<and>
          (pair_ok (k, v) \<and> drop off bs = engine_row (k, v) @ concat (map engine_row rest))"
        unfolding engine_row_at [OF True] Let_def by blast
      finally show ?thesis by (auto simp: Cons kv)
    qed
  qed
qed

section \<open>Properties\<close>

text \<open>The JavaScript values of pairs, rows, nullable items and batch operations.\<close>

definition pair_value :: "bytes \<times> bytes \<Rightarrow> jsval" where
  "pair_value = (\<lambda>(k, v). VArray [VBytes k, VBytes v])"

definition row_value :: "bytes \<times> bytes \<Rightarrow> jsval" where
  "row_value = (\<lambda>(k, v). VObject [(js ''key'', VBytes k), (js ''value'', VBytes v)])"

fun nullable_value :: "bytes option \<Rightarrow> jsval" where
  "nullable_value None = VNull"
| "nullable_value (Some b) = VBytes b"

fun batch_value :: "BatchOp \<Rightarrow> jsval" where
  "batch_value (PutOp k v) =
     VObject [(js ''kind'', VString (js ''put'')), (js ''key'', VBytes k), (js ''value'', VBytes v)]"
| "batch_value (DeleteOp k) = VObject [(js ''kind'', VString (js ''delete'')), (js ''key'', VBytes k)]"

lemma decimal_small: "n < 10 \<Longrightarrow> decimal n = [of_nat (0x30 + n)]"
  by (simp add: decimal.simps)

lemma pair_entry_value: "pair_entry (pair_value x) = Some x"
  by (cases x) (simp add: pair_entry_def pair_value_def prop_get_def own_property_def indexed_def js_def decimal_small
      upt_rec)

lemma row_entry_value: "row_entry (row_value x) = Some x"
  by (cases x) (simp add: row_entry_def row_value_def prop_get_def own_property_def is_object_def js_def)

lemma nullable_item_value: "nullable_item (nullable_value x) = Some x"
  by (cases x) simp_all

lemma batch_entry_value: "batch_entry (batch_value x) = Some x"
  by (cases x) (simp_all add: batch_entry_def prop_get_def own_property_def is_object_def js_def)

lemma packBinaryList_iff: "packBinaryList vs = Inr bs \<longleftrightarrow>
    (\<exists>xs. map list_item vs = map Some xs \<and> list_all (\<lambda>b. small (length b)) xs \<and>
       bs = packed_layout 1 (\<lambda>b. le_bytes 4 (length b)) (\<lambda>b. b) xs \<and> small (length bs))"
  using list_fmt.pack_layout [of vs bs]
  by (auto simp: packBinaryList_def checked_simps Let_def not_less)

lemma packBinaryPairs_iff: "packBinaryPairs vs = Inr bs \<longleftrightarrow>
    (\<exists>xs. map pair_entry vs = map Some xs \<and> list_all pair_ok xs \<and>
       bs = packed_layout 2 pair_head pair_body xs \<and> small (length bs))"
  using pairs_fmt.pack_layout [of vs bs]
  by (auto simp: packBinaryPairs_def checked_simps Let_def not_less mult.commute)

lemma packBatchOps_iff: "packBatchOps vs = Inr bs \<longleftrightarrow>
    (\<exists>xs. map batch_entry vs = map Some xs \<and> list_all batch_ok xs \<and>
       bs = packed_layout 1 batch_head batch_body xs \<and> small (length bs))"
  using batch_fmt.pack_layout [of vs bs]
  by (auto simp: packBatchOps_def checked_simps Let_def not_less)

lemma packScanRows_iff: "packScanRows vs = Inr (Some bs) \<longleftrightarrow>
    (\<exists>xs. map row_entry vs = map Some xs \<and> list_all pair_ok xs \<and>
       bs = packed_layout 1 pair_head pair_body xs \<and> small (length bs)) \<and> length bs \<le> 16777216"
  unfolding rows_fmt.pack_layout_limited [symmetric]
  by (auto simp: packScanRows_def checked_simps Let_def not_less split: if_splits)

lemma packNullable_iff: "packNullableBinaryList vs = Inr (Some bs) \<longleftrightarrow>
    (\<exists>xs. map nullable_item vs = map Some xs \<and> list_all nullable_ok xs \<and>
       bs = packed_layout 1 nullable_head nullable_body xs \<and> small (length bs)) \<and> length bs \<le> 16777216"
  unfolding nullable_fmt.pack_layout_limited [symmetric]
  by (auto simp: packNullableBinaryList_def checked_simps Let_def not_less split: if_splits)

lemma unpackPutMany_packed:
  "unpackPutManyPayload keep bs = Inr zs \<longleftrightarrow> (\<exists>es. zs = map keep es \<and> packBinaryPairs (map pair_value es) = Inr bs)"
  using pairs_fmt.unpack_packed [of pair_value keep bs zs, OF pair_entry_value refl] by (simp add: packBinaryPairs_iff)

lemma unpackBatch_packed:
  "unpackBatchPayload keep bs = Inr zs \<longleftrightarrow> (\<exists>ops. zs = map keep ops \<and> packBatchOps (map batch_value ops) = Inr bs)"
  using batch_fmt.unpack_packed [of batch_value keep bs zs, OF batch_entry_value refl] by (simp add: packBatchOps_iff)

lemma unpackBinaryList_packed: "unpackBinaryList bs = Inr keys \<longleftrightarrow> packBinaryList (map VBytes keys) = Inr bs"
  using list_fmt.unpack_packed [of VBytes bs keys] by (simp add: packBinaryList_iff)

lemma unpackNullable_packed:
  "packNullableBinaryList (map nullable_value items) = Inr (Some bs) \<longleftrightarrow>
     unpackNullableBinaryList bs = Inr items \<and> length bs \<le> 16777216"
  using nullable_fmt.unpack_packed [of nullable_value bs items, OF nullable_item_value refl] by (simp add: packNullable_iff)

lemma unpackScanRows_packed:
  "packScanRows (map row_value rows) = Inr (Some bs) \<longleftrightarrow> unpackScanRows bs = Inr rows \<and> length bs \<le> 16777216"
  using rows_fmt.unpack_packed [of row_value bs rows, OF row_entry_value refl] by (simp add: packScanRows_iff)

text \<open>
  C21. The packed arguments of a request are read exactly as they were written: for key lists, put-many
  entries and batch operations, a byte string is accepted with some items if and only if it is what the
  packer produces for them, so every other byte string is rejected.
\<close>

theorem packed_requests_exact:
  "(unpackBinaryList bs = Inr keys \<longleftrightarrow> packBinaryList (map VBytes keys) = Inr bs) \<and>
   (unpackPackedBinaryPairs bs = Inr entries \<longleftrightarrow> packBinaryPairs (map pair_value entries) = Inr bs) \<and>
   (unpackPackedBatchOps bs = Inr ops \<longleftrightarrow> packBatchOps (map batch_value ops) = Inr bs)"
  by (simp add: unpackBinaryList_packed unpackPackedBinaryPairs_def unpackPutMany_packed unpackPackedBatchOps_def
      unpackBatch_packed)

text \<open>
  The readers that only return keys agree with the full readers: they accept the same byte
  strings and return the keys, with the kinds for a batch, of the same items in the same order.
\<close>

theorem packed_keys_agree:
  "(unpackPackedBinaryPairKeys bs = Inr keys \<longleftrightarrow> (\<exists>entries. unpackPackedBinaryPairs bs = Inr entries \<and> keys = map fst entries)) \<and>
   (unpackPackedBatchOpKeys bs = Inr opKeys \<longleftrightarrow> (\<exists>ops. unpackPackedBatchOps bs = Inr ops \<and> opKeys = map op_key ops))"
  unfolding unpackPackedBinaryPairKeys_def unpackPackedBinaryPairs_def unpackPackedBatchOpKeys_def unpackPackedBatchOps_def
    unpackPutMany_packed unpackBatch_packed by auto

text \<open>
  The packed results of \<^verbatim>\<open>getMany\<close> and of scans are read exactly as they were written: within the
  16 MiB limit of packed responses, a byte string is accepted with some items if and only if it is what
  the packer produces for them.
\<close>

theorem packed_responses_exact:
  "(packNullableBinaryList (map nullable_value items) = Inr (Some bs) \<longleftrightarrow>
      unpackNullableBinaryList bs = Inr items \<and> length bs \<le> 16777216) \<and>
   (packScanRows (map row_value rows) = Inr (Some bs) \<longleftrightarrow>
      unpackScanRows bs = Inr rows \<and> length bs \<le> 16777216)"
  by (simp add: unpackNullable_packed unpackScanRows_packed)

text \<open>
  C22. The packets of the engine are read exactly: a scan packet is accepted if and only if it is the
  count followed by the lengths, key and value of each row, and an optional-values packet if and only
  if it is the table of lengths, with the largest length for a missing value, and the values.
\<close>

theorem engine_packets_exact:
  "(unpackPackedScanRows bs = Inr rows \<longleftrightarrow>
      bs = le_bytes 4 (length rows) @ concat (map engine_row rows) \<and> length rows \<le> 0xffffffff \<and>
      list_all (\<lambda>(k, v). length k \<le> 0xffffffff \<and> length v \<le> 0xffffffff) rows) \<and>
   (unpackPackedOptionalValues bs = Inr items \<longleftrightarrow>
      bs = packed_layout 1 optional_head (\<lambda>x. case x of None \<Rightarrow> [] | Some b \<Rightarrow> b) items \<and> 4 + length items * 4 \<le> 0xffffffff \<and>
      list_all (\<lambda>x. case x of None \<Rightarrow> True | Some b \<Rightarrow> length b < 0xffffffff) items)"
proof (intro conjI)
  show "unpackPackedOptionalValues bs = Inr items \<longleftrightarrow>
      bs = packed_layout 1 optional_head (\<lambda>x. case x of None \<Rightarrow> [] | Some b \<Rightarrow> b) items \<and> 4 + length items * 4 \<le> 0xffffffff \<and>
      list_all (\<lambda>x. case x of None \<Rightarrow> True | Some b \<Rightarrow> length b < 0xffffffff) items"
    using optional_fmt.unpack_layout [of bs items] by auto
  have rows: "8 * length rs \<le> length (concat (map engine_row rs))" for rs
    by (induction rs) (auto simp: engine_row_def)
  have count: "take 4 bs = le_bytes 4 (length rows) \<longleftrightarrow> getUint32 bs 0 = length rows" if "4 \<le> length bs" "small (length rows)"
    using getUint32_entry [of 0 bs "length rows"] that by simp
  have "unpackPackedScanRows bs = Inr rows \<longleftrightarrow> 4 \<le> length bs \<and> 8 * getUint32 bs 0 \<le> length bs - 4 \<and>
      scan_engine_rows bs (getUint32 bs 0) 4 = Inr (rows, length bs)"
    by (auto simp: unpackPackedScanRows_def bindr_eq_Inr Let_def split: if_splits)
  also have "\<dots> \<longleftrightarrow> 4 \<le> length bs \<and> 8 * getUint32 bs 0 \<le> length bs - 4 \<and> getUint32 bs 0 = length rows \<and> list_all pair_ok rows \<and>
      drop 4 bs = concat (map engine_row rows)"
    using scan_engine_rows_iff [of 4 bs "getUint32 bs 0" rows] by auto
  also have "\<dots> \<longleftrightarrow> 4 \<le> length bs \<and> getUint32 bs 0 = length rows \<and> list_all pair_ok rows \<and>
      drop 4 bs = concat (map engine_row rows)"
    using rows [of rows] by (metis length_drop)
  also have "\<dots> \<longleftrightarrow> bs = le_bytes 4 (length rows) @ concat (map engine_row rows) \<and> small (length rows) \<and> list_all pair_ok rows"
  proof (cases "4 \<le> length bs \<and> small (length rows)")
    case True
    then show ?thesis
      using count append_eq_conv_conj [of "le_bytes 4 (length rows)" "concat (map engine_row rows)" bs] by auto
  next
    case False
    then have "\<not> (4 \<le> length bs \<and> getUint32 bs 0 = length rows)" by (metis getUint32_bounds(1))
    then show ?thesis using False by auto
  qed
  finally show "unpackPackedScanRows bs = Inr rows \<longleftrightarrow>
      bs = le_bytes 4 (length rows) @ concat (map engine_row rows) \<and> small (length rows) \<and> list_all pair_ok rows" .
qed

end
