(* ===== verification/Protocol.thy ===== *)
theory Protocol
  imports Packed
begin

text \<open>
  Messages between the client and the worker, \<^verbatim>\<open>packages/sdk/src/worker-protocol.ts\<close>, and the error
  classes of \<^verbatim>\<open>packages/sdk/src/errors.ts\<close>: the guards that classify a received value, the preparation
  of command arguments and results for sending with its inverse on the receiving side, and the
  serialization of errors. Messages are JavaScript values; the lists of transferred buffers, which only
  move ownership, are not part of the model.
\<close>

section \<open>Messages\<close>

abbreviation (input) str :: "string \<Rightarrow> jsval" where "str s \<equiv> VString (js s)"
abbreviation (input) num :: "nat \<Rightarrow> jsval" where "num n \<equiv> VNumber (f64_of_nat n)"

definition WORKER_COMMANDS :: "string list" where
  "WORKER_COMMANDS =
     [''open'', ''close'', ''destroy'', ''deleteDB'', ''begin'', ''commit'', ''rollback'', ''autocommit'',
      ''createStore'', ''dropStore'', ''clearStore'', ''get'', ''getMany'', ''has'', ''put'', ''putMany'',
      ''delete'', ''deleteMany'', ''applyBatch'', ''scan'', ''scanPage'', ''closeCursor'', ''getByIndex'',
      ''scanByIndex'', ''scanByIndexPage'', ''getIndexes'', ''reconcileIndexes'', ''listStores'',
      ''getVersion'', ''changesSince'', ''setSchemaVersion'', ''exportSnapshot'', ''importSnapshot'', ''reset'',
      ''compact'', ''rebuild'', ''stats'', ''storageInfo'', ''requestPersistence'', ''setFailpoint'']"

definition AUTOCOMMIT_COMMANDS :: "string list" where
  "AUTOCOMMIT_COMMANDS =
     [''get'', ''getMany'', ''has'', ''put'', ''putMany'', ''delete'', ''deleteMany'', ''applyBatch'', ''scan'',
      ''getByIndex'', ''scanByIndex'', ''createStore'', ''dropStore'', ''clearStore'']"

definition isWorkerCommand :: "jsval \<Rightarrow> bool" where
  "isWorkerCommand v = (v \<in> set (map str WORKER_COMMANDS))"

definition isAutocommitCommand :: "jsval \<Rightarrow> bool" where
  "isAutocommitCommand v = (v \<in> set (map str AUTOCOMMIT_COMMANDS))"

definition is_safe_number :: "jsval \<Rightarrow> bool" where
  "is_safe_number v = (case v of VNumber n \<Rightarrow> f64_is_safe_integer n | _ \<Rightarrow> False)"

definition isWorkerProtocolReadyEnvelope :: "jsval \<Rightarrow> bool" where
  "isWorkerProtocolReadyEnvelope v \<longleftrightarrow> is_object v \<and> prop_get v (js ''type'') = str ''moyodb:worker-protocol:ready''"

definition isWorkerProtocolReadyMessage :: "jsval \<Rightarrow> bool" where
  "isWorkerProtocolReadyMessage v \<longleftrightarrow>
     isWorkerProtocolReadyEnvelope v \<and> prop_get v (js ''version'') = num 1 \<and>
     (prop_get v (js ''batching'') = VUndefined \<or> prop_get v (js ''batching'') = num 1)"

definition isWorkerProtocolResponseMessage :: "jsval \<Rightarrow> bool" where
  "isWorkerProtocolResponseMessage v \<longleftrightarrow>
     is_object v \<and> prop_get v (js ''type'') = str ''moyodb:worker-protocol:response'' \<and>
     prop_get v (js ''version'') = num 1 \<and> is_safe_number (prop_get v (js ''id'')) \<and>
     (case prop_get v (js ''ok'') of VBool _ \<Rightarrow> True | _ \<Rightarrow> False)"

definition isWorkerProtocolRequestMessage :: "jsval \<Rightarrow> bool" where
  "isWorkerProtocolRequestMessage v \<longleftrightarrow>
     is_object v \<and> prop_get v (js ''type'') = str ''moyodb:worker-protocol:request'' \<and>
     prop_get v (js ''version'') = num 1 \<and> is_safe_number (prop_get v (js ''id'')) \<and>
     (case prop_get v (js ''command'') of VString _ \<Rightarrow> True | _ \<Rightarrow> False) \<and>
     (case prop_get v (js ''args'') of VArray _ \<Rightarrow> True | _ \<Rightarrow> False)"

definition isWorkerProtocolBatch :: "jsval \<Rightarrow> string \<Rightarrow> string \<Rightarrow> bool" where
  "isWorkerProtocolBatch v type items \<longleftrightarrow>
     is_object v \<and> prop_get v (js ''type'') = str type \<and> prop_get v (js ''version'') = num 1 \<and>
     (case prop_get v (js items) of VArray xs \<Rightarrow> 0 < length xs \<and> length xs \<le> 128 | _ \<Rightarrow> False)"

definition isWorkerProtocolRequestBatchMessage :: "jsval \<Rightarrow> bool" where
  "isWorkerProtocolRequestBatchMessage v =
     isWorkerProtocolBatch v ''moyodb:worker-protocol:request-batch'' ''requests''"

definition isWorkerProtocolResponseBatchMessage :: "jsval \<Rightarrow> bool" where
  "isWorkerProtocolResponseBatchMessage v =
     (isWorkerProtocolBatch v ''moyodb:worker-protocol:response-batch'' ''responses'' \<and>
      (case prop_get v (js ''responses'') of VArray xs \<Rightarrow> list_all isWorkerProtocolResponseMessage xs | _ \<Rightarrow> False))"

definition isWorkerProtocolEnvelope :: "jsval \<Rightarrow> bool" where
  "isWorkerProtocolEnvelope v \<longleftrightarrow>
     is_object v \<and>
     prop_get v (js ''type'') \<in> set (map str
       [''moyodb:worker-protocol:request'', ''moyodb:worker-protocol:response'',
        ''moyodb:worker-protocol:request-batch'', ''moyodb:worker-protocol:response-batch'',
        ''moyodb:worker-protocol:ready''])"

section \<open>Packed values\<close>

definition PACKED_BINARY_LIST_V1 :: jsstring where "PACKED_BINARY_LIST_V1 = js ''moyodb:packed-binary-list:v1''"
definition PACKED_NULLABLE_BINARY_LIST_V1 :: jsstring where
  "PACKED_NULLABLE_BINARY_LIST_V1 = js ''moyodb:packed-nullable-binary-list:v1''"
definition PACKED_SCAN_ROWS_V1 :: jsstring where "PACKED_SCAN_ROWS_V1 = js ''moyodb:packed-scan-rows:v1''"
definition PACKED_ENGINE_SCAN_ROWS_V1 :: jsstring where
  "PACKED_ENGINE_SCAN_ROWS_V1 = js ''moyodb:packed-engine-scan-rows:v1''"
definition PACKED_BATCH_OPS_V1 :: jsstring where "PACKED_BATCH_OPS_V1 = js ''moyodb:packed-batch-ops:v1''"
definition PACKED_OPTIONAL_VALUES_V1 :: jsstring where
  "PACKED_OPTIONAL_VALUES_V1 = js ''moyodb:packed-optional-values:v1''"

definition packed_value :: "jsstring \<Rightarrow> bytes \<Rightarrow> jsval" where
  "packed_value tag bs = VObject [(js ''__moyodbPacked'', VString tag), (js ''bytes'', VBytes bs)]"

text \<open>\<^verbatim>\<open>isPackedPayload(value, tag)\<close>, giving \<^verbatim>\<open>value.bytes\<close> when it holds.\<close>

definition packed_bytes :: "jsval \<Rightarrow> jsstring \<Rightarrow> bytes option" where
  "packed_bytes v tag =
     (if is_object v \<and> prop_get v (js ''__moyodbPacked'') = VString tag
      then (case prop_get v (js ''bytes'') of VBytes bs \<Rightarrow> Some bs | _ \<Rightarrow> None) else None)"

definition arg_at :: "jsval list \<Rightarrow> nat \<Rightarrow> jsval" where
  "arg_at args i = (if i < length args then args ! i else VUndefined)"

section \<open>Command arguments\<close>

text \<open>
  The branches of \<^verbatim>\<open>prepareWorkerCommandPayload\<close> after the one for \<^verbatim>\<open>autocommit\<close>. The copies of single
  keys, values and snapshots are equal to their originals, so they appear as the arguments themselves.
\<close>

definition prepare_direct :: "string \<Rightarrow> jsval list \<Rightarrow> jsval list result" where
  "prepare_direct command args =
     (if command = ''importSnapshot'' \<and> (case arg_at args 0 of VBytes _ \<Rightarrow> True | _ \<Rightarrow> False) then Inr [arg_at args 0]
      else if command = ''getMany'' \<or> command = ''deleteMany'' then
        (case arg_at args 2 of
           VArray (k # ks) \<Rightarrow>
             bindr (packBinaryList (k # ks)) (\<lambda>packed.
               Inr [arg_at args 0, arg_at args 1, packed_value PACKED_BINARY_LIST_V1 packed])
         | _ \<Rightarrow> Inr args)
      else if command = ''putMany'' then
        (case arg_at args 2 of
           VArray (e # es) \<Rightarrow>
             bindr (packBinaryPairs (e # es)) (\<lambda>packed.
               Inr [arg_at args 0, arg_at args 1, packed_value PACKED_BINARY_LIST_V1 packed, arg_at args 3])
         | _ \<Rightarrow> Inr args)
      else if command = ''applyBatch'' then
        (case arg_at args 2 of
           VArray (p # ps) \<Rightarrow>
             bindr (packBatchOps (p # ps)) (\<lambda>packed.
               Inr [arg_at args 0, arg_at args 1, packed_value PACKED_BATCH_OPS_V1 packed])
         | _ \<Rightarrow> Inr args)
      else Inr args)"

definition prepareWorkerCommandPayload :: "string \<Rightarrow> jsval list \<Rightarrow> jsval list result" where
  "prepareWorkerCommandPayload command args =
     (if command = ''autocommit'' then
        (case (List.find (\<lambda>c. str c = arg_at args 1) AUTOCOMMIT_COMMANDS, arg_at args 2) of
           (Some inner, VArray innerArgs) \<Rightarrow>
             bindr (prepare_direct inner (num 0 # innerArgs)) (\<lambda>prepared.
               Inr [arg_at args 0, arg_at args 1, VArray (tl prepared)])
         | _ \<Rightarrow> prepare_direct command args)
      else prepare_direct command args)"

definition decode_direct :: "string \<Rightarrow> jsval list \<Rightarrow> jsval list result" where
  "decode_direct command args =
     (if command = ''getMany'' \<or> command = ''deleteMany'' then
        (case arg_at args 2 of
           VArray _ \<Rightarrow> Inr args
         | keys \<Rightarrow>
             (case packed_bytes keys PACKED_BINARY_LIST_V1 of
                None \<Rightarrow> protocol_error ''invalid packed binary-list argument''
              | Some bs \<Rightarrow> bindr (unpackBinaryList bs) (\<lambda>items.
                  Inr [arg_at args 0, arg_at args 1, VArray (map VBytes items)])))
      else if command = ''putMany'' then
        (case arg_at args 2 of
           VArray _ \<Rightarrow> Inr args
         | entries \<Rightarrow>
             (case packed_bytes entries PACKED_BINARY_LIST_V1 of
                None \<Rightarrow> protocol_error ''invalid packed putMany argument''
              | Some bs \<Rightarrow> bindr (unpackPackedBinaryPairs bs) (\<lambda>items.
                  Inr [arg_at args 0, arg_at args 1, VArray (map pair_value items), arg_at args 3])))
      else if command = ''applyBatch'' then
        (case arg_at args 2 of
           VArray _ \<Rightarrow> Inr args
         | ops \<Rightarrow>
             (case packed_bytes ops PACKED_BATCH_OPS_V1 of
                None \<Rightarrow> protocol_error ''invalid packed batch argument''
              | Some bs \<Rightarrow> bindr (unpackPackedBatchOps bs) (\<lambda>items.
                  Inr [arg_at args 0, arg_at args 1, VArray (map batch_value items)])))
      else Inr args)"

definition decodeWorkerCommandPayload :: "string \<Rightarrow> jsval list \<Rightarrow> jsval list result" where
  "decodeWorkerCommandPayload command args =
     (if command = ''autocommit'' then
        (case (List.find (\<lambda>c. str c = arg_at args 1) AUTOCOMMIT_COMMANDS, arg_at args 2) of
           (Some inner, VArray innerArgs) \<Rightarrow>
             bindr (decode_direct inner (num 0 # innerArgs)) (\<lambda>decoded.
               Inr [arg_at args 0, arg_at args 1, VArray (tl decoded)])
         | _ \<Rightarrow> decode_direct command args)
      else decode_direct command args)"

section \<open>Results\<close>

text \<open>\<^verbatim>\<open>{ ...object, key: value }\<close> for a property the object has keeps its place.\<close>

definition with_property :: "jsval \<Rightarrow> jsstring \<Rightarrow> jsval \<Rightarrow> jsval" where
  "with_property v key x =
     (case v of
        VObject ps \<Rightarrow> VObject (if key \<in> fst ` set ps then map (\<lambda>(k, y). (k, if k = key then x else y)) ps
                               else ps @ [(key, x)])
      | _ \<Rightarrow> VObject [(key, x)])"

abbreviation (input) packed_rows_or :: "jsval \<Rightarrow> bytes option \<Rightarrow> jsval" where
  "packed_rows_or rows packed \<equiv> (case packed of None \<Rightarrow> rows | Some bs \<Rightarrow> packed_value PACKED_SCAN_ROWS_V1 bs)"

definition prepareWorkerResponsePayload :: "string \<Rightarrow> jsval \<Rightarrow> jsval result" where
  "prepareWorkerResponsePayload command result =
     (let is_scan = (command = ''scan'' \<or> command = ''scanByIndex'') in
      if is_scan \<and> (packed_bytes result PACKED_ENGINE_SCAN_ROWS_V1 \<noteq> None \<or> packed_bytes result PACKED_SCAN_ROWS_V1 \<noteq> None)
      then Inr result
      else if command = ''scanPage'' \<and> is_object result then
        (let rows = prop_get result (js ''rows'') in
         case rows of
           VArray xs \<Rightarrow> bindr (packScanRows xs) (\<lambda>packed. Inr (with_property result (js ''rows'') (packed_rows_or rows packed)))
         | _ \<Rightarrow> Inr result)
      else if command = ''getMany'' \<and> packed_bytes result PACKED_OPTIONAL_VALUES_V1 \<noteq> None then Inr result
      else if command = ''scanByIndexPage'' \<and> is_object result then
        (let rows = prop_get result (js ''rows'') in
         case rows of
           VArray xs \<Rightarrow>
             bindr (if xs = [] then Inr None else packScanRows xs) (\<lambda>packed.
               Inr (VObject [(js ''rows'', packed_rows_or rows packed), (js ''cursor'', prop_get result (js ''cursor''))]))
         | _ \<Rightarrow> Inr result)
      else if command = ''getMany'' then
        (case result of
           VArray (v # vs) \<Rightarrow>
             bindr (packNullableBinaryList (v # vs)) (\<lambda>packed.
               Inr (case packed of None \<Rightarrow> result | Some bs \<Rightarrow> packed_value PACKED_NULLABLE_BINARY_LIST_V1 bs))
         | _ \<Rightarrow> Inr result)
      else if is_scan then
        (case result of
           VArray (v # vs) \<Rightarrow> bindr (packScanRows (v # vs)) (\<lambda>packed. Inr (packed_rows_or result packed))
         | _ \<Rightarrow> Inr result)
      else Inr result)"

text \<open>The byte count of a decoded page.\<close>

fun page_row_bytes :: "jsval list \<Rightarrow> nat \<Rightarrow> nat result" where
  "page_row_bytes [] bytes_so_far = Inr bytes_so_far"
| "page_row_bytes (row # rows) bytes_so_far =
     (case row_entry row of
        None \<Rightarrow> protocol_error ''invalid scan page row''
      | Some (k, v) \<Rightarrow> page_row_bytes rows (bytes_so_far + (8 + length k + length v)))"

definition invalid_page :: "jsval \<Rightarrow> bool" where
  "invalid_page result \<longleftrightarrow>
     (let finished = prop_get result (js ''done''); bytes = prop_get result (js ''bytes'');
          cursor = prop_get result (js ''cursorId'')
      in \<not> is_object result \<or> (case finished of VBool _ \<Rightarrow> False | _ \<Rightarrow> True) \<or>
         \<not> is_safe_number bytes \<or> (case bytes of VNumber n \<Rightarrow> f64_int n < 4 | _ \<Rightarrow> False) \<or>
         (cursor \<noteq> VUndefined \<and>
            (\<not> is_safe_number cursor \<or> (case cursor of VNumber n \<Rightarrow> f64_int n \<le> 0 | _ \<Rightarrow> False))) \<or>
         (if finished = VBool True then cursor \<noteq> VUndefined else cursor = VUndefined))"

definition decode_page_rows :: "jsval \<Rightarrow> jsval result" where
  "decode_page_rows rows =
     (case packed_bytes rows PACKED_ENGINE_SCAN_ROWS_V1 of
        Some bs \<Rightarrow> bindr (unpackPackedScanRows bs) (\<lambda>xs. Inr (VArray (map row_value xs)))
      | None \<Rightarrow>
          (case packed_bytes rows PACKED_SCAN_ROWS_V1 of
             Some bs \<Rightarrow> bindr (unpackScanRows bs) (\<lambda>xs. Inr (VArray (map row_value xs)))
           | None \<Rightarrow> Inr rows))"

definition decode_scan_page :: "jsval \<Rightarrow> jsval result" where
  "decode_scan_page result =
     (if invalid_page result then protocol_error ''invalid scan page response''
      else bindr (decode_page_rows (prop_get result (js ''rows''))) (\<lambda>rows.
        case rows of
          VArray xs \<Rightarrow>
            bindr (page_row_bytes xs 4) (\<lambda>n.
              if num n \<noteq> prop_get result (js ''bytes'') then protocol_error ''scan page byte count mismatch''
              else Inr (VObject [(js ''rows'', rows), (js ''cursorId'', prop_get result (js ''cursorId'')),
                                 (js ''done'', prop_get result (js ''done'')), (js ''bytes'', prop_get result (js ''bytes''))]))
        | _ \<Rightarrow> protocol_error ''invalid scan page rows''))"

definition decodeWorkerResponsePayload :: "string \<Rightarrow> jsval \<Rightarrow> jsval result" where
  "decodeWorkerResponsePayload command result =
     (let is_scan = (command = ''scan'' \<or> command = ''scanByIndex'');
          unpacked = (\<lambda>m. bindr m (\<lambda>xs. Inr (VArray (map row_value xs))));
          is_array = (case result of VArray _ \<Rightarrow> True | _ \<Rightarrow> False)
      in
      if command = ''scanPage'' then decode_scan_page result
      else if is_scan \<and> packed_bytes result PACKED_ENGINE_SCAN_ROWS_V1 \<noteq> None
      then unpacked (unpackPackedScanRows (the (packed_bytes result PACKED_ENGINE_SCAN_ROWS_V1)))
      else if command = ''getMany'' \<and> packed_bytes result PACKED_NULLABLE_BINARY_LIST_V1 \<noteq> None
      then bindr (unpackNullableBinaryList (the (packed_bytes result PACKED_NULLABLE_BINARY_LIST_V1)))
             (\<lambda>xs. Inr (VArray (map nullable_value xs)))
      else if command = ''getMany'' \<and> packed_bytes result PACKED_OPTIONAL_VALUES_V1 \<noteq> None
      then bindr (unpackPackedOptionalValues (the (packed_bytes result PACKED_OPTIONAL_VALUES_V1)))
             (\<lambda>xs. Inr (VArray (map nullable_value xs)))
      else if command = ''getMany'' \<and> \<not> is_array then protocol_error ''invalid packed getMany response''
      else if command = ''scanByIndexPage'' then
        (let rows = prop_get result (js ''rows''); cursor = prop_get result (js ''cursor'') in
         if \<not> is_object result \<or>
            ((case rows of VArray _ \<Rightarrow> False | _ \<Rightarrow> True) \<and> packed_bytes rows PACKED_SCAN_ROWS_V1 = None) \<or>
            (cursor \<noteq> VNull \<and> (case cursor of VBytes _ \<Rightarrow> False | _ \<Rightarrow> True))
         then protocol_error ''invalid packed index scan page response''
         else bindr (case packed_bytes rows PACKED_SCAN_ROWS_V1 of
                       Some bs \<Rightarrow> unpacked (unpackScanRows bs) | None \<Rightarrow> Inr rows) (\<lambda>rows'.
           Inr (VObject [(js ''rows'', rows'), (js ''cursor'', cursor)])))
      else if is_scan \<and> packed_bytes result PACKED_SCAN_ROWS_V1 \<noteq> None
      then unpacked (unpackScanRows (the (packed_bytes result PACKED_SCAN_ROWS_V1)))
      else if is_scan \<and> \<not> is_array then protocol_error ''invalid packed scan response''
      else Inr result)"

section \<open>Errors\<close>

text \<open>
  An error object: the class of \<^verbatim>\<open>errors.ts\<close> it is an instance of, if any, its name and message, and
  the \<^verbatim>\<open>code\<close> and \<^verbatim>\<open>stack\<close> properties when they are set.
\<close>

record js_error =
  err_class :: "string option"
  err_name :: jsstring
  err_message :: jsstring
  err_code :: "jsstring option"
  err_stack :: "jsstring option"

datatype thrown = ThrownError js_error | ThrownValue jsval

definition ERROR_CONSTRUCTORS :: "string list" where
  "ERROR_CONSTRUCTORS =
     [''UnsupportedPlatformError'', ''DatabaseBusyError'', ''CorruptionError'', ''StoreExistsError'',
      ''StoreNotFoundError'', ''IndexNotFoundError'', ''ConstraintError'', ''UniqueIndexConstraintError'',
      ''WriteTransactionAlreadyOpenError'', ''TransactionConflictError'', ''ReadonlyTransactionError'',
      ''TransactionClosedError'', ''DatabaseClosedError'', ''ValueTooLargeError'', ''KeyTooLargeError'',
      ''StoreNameTooLongError'', ''ReservedStoreNameError'', ''InvalidRangeError'', ''StorageError'',
      ''SerializationError'', ''InjectedFailureError'', ''ChangeFeedCompactedError'', ''RecoveryRequiredError'',
      ''InternalError'', ''InvalidOpenOptionsError'', ''VersionError'']"

definition instantiateError :: "jsstring \<Rightarrow> jsstring \<Rightarrow> js_error" where
  "instantiateError code message =
     \<lparr> err_class = List.find (\<lambda>c. js c = code) ERROR_CONSTRUCTORS, err_name = code, err_message = message,
       err_code = None, err_stack = None \<rparr>"

text \<open>\<^verbatim>\<open>a ?? b\<close>.\<close>

definition nullish :: "jsval \<Rightarrow> jsval \<Rightarrow> jsval" where
  "nullish a b = (if a = VUndefined \<or> a = VNull then b else a)"

text \<open>
  \<^verbatim>\<open>normalizeError\<close>; the conversion \<^verbatim>\<open>String(value)\<close> of values that are not strings is its parameter.
\<close>

definition normalizeError :: "(jsval \<Rightarrow> jsstring) \<Rightarrow> thrown \<Rightarrow> js_error" where
  "normalizeError to_string error =
     (case error of
        ThrownError e \<Rightarrow>
          if err_class e \<noteq> None then e
          else if err_name e = js ''Error'' then e
          else instantiateError (err_name e) (err_message e)
      | ThrownValue v \<Rightarrow>
          let text = (\<lambda>x. case x of VString s \<Rightarrow> s | _ \<Rightarrow> to_string x);
              code = nullish (prop_get v (js ''code'')) (nullish (prop_get v (js ''name'')) (str ''Error''));
              message = nullish (prop_get v (js ''message'')) (VString (to_string v))
          in instantiateError (text code) (text message))"

definition stringOrUndefined :: "jsval \<Rightarrow> jsval" where
  "stringOrUndefined v = (case v of VString _ \<Rightarrow> v | _ \<Rightarrow> VUndefined)"

definition serializeWorkerError :: "(jsval \<Rightarrow> jsstring) \<Rightarrow> jsval \<Rightarrow> jsval" where
  "serializeWorkerError to_string error =
     (if is_object error then
        let code = stringOrUndefined (prop_get error (js ''code'')) in
        VObject [(js ''name'', nullish (stringOrUndefined (prop_get error (js ''name''))) (nullish code (str ''Error''))),
                 (js ''code'', code),
                 (js ''message'', nullish (stringOrUndefined (prop_get error (js ''message''))) (str ''Unknown error'')),
                 (js ''stack'', stringOrUndefined (prop_get error (js ''stack'')))]
      else VObject [(js ''name'', str ''Error''), (js ''message'', VString (to_string error))])"

definition non_empty :: "jsval \<Rightarrow> jsstring option" where
  "non_empty v = (case v of VString s \<Rightarrow> if s = [] then None else Some s | _ \<Rightarrow> None)"

definition deserializeWorkerError :: "jsval \<Rightarrow> js_error result" where
  "deserializeWorkerError error =
     (let name = prop_get error (js ''name''); message = prop_get error (js ''message'');
          code = prop_get error (js ''code''); stack = prop_get error (js ''stack'') in
      case (is_object error, name, message) of
        (True, VString n, VString m) \<Rightarrow>
          if (code \<noteq> VUndefined \<and> stringOrUndefined code = VUndefined) \<or>
             (stack \<noteq> VUndefined \<and> stringOrUndefined stack = VUndefined)
          then protocol_error ''invalid serialized worker error''
          else Inr \<lparr> err_class = None,
                     err_name = (case (non_empty name, non_empty code) of
                       (Some x, _) \<Rightarrow> x | (None, Some x) \<Rightarrow> x | (None, None) \<Rightarrow> js ''Error''),
                     err_message = m, err_code = non_empty code, err_stack = non_empty stack \<rparr>
      | _ \<Rightarrow> protocol_error ''invalid serialized worker error'')"

text \<open>The properties \<^verbatim>\<open>serializeWorkerError\<close> reads of an error object.\<close>

definition error_object :: "js_error \<Rightarrow> jsval" where
  "error_object e =
     VObject ([(js ''name'', VString (err_name e)), (js ''message'', VString (err_message e))] @
              (case err_code e of None \<Rightarrow> [] | Some c \<Rightarrow> [(js ''code'', VString c)]) @
              (case err_stack e of None \<Rightarrow> [] | Some t \<Rightarrow> [(js ''stack'', VString t)]))"

section \<open>Property names\<close>

declare js_Nil [simp] js_eq_iff [simp]

lemma find_js: "x \<in> set xs \<Longrightarrow> List.find (\<lambda>c. js c = js x) xs = Some x"
  by (induction xs) auto

lemma js_Nil_iff [simp]: "js s = [] \<longleftrightarrow> s = []"
  by (simp add: js_def)

lemma decimal_digits: "c \<in> set (decimal n) \<Longrightarrow> 0x30 \<le> unat c \<and> unat c \<le> 0x39"
proof (induction n rule: decimal.induct)
  case (1 n)
  have digit: "unat (of_nat (0x30 + d) :: code_unit) = 0x30 + d" if "d < 10" for d
    using that by (simp add: unat_of_nat del: of_nat_add)
  show ?case
  proof (cases "n < 10")
    case True
    then show ?thesis using 1(2) digit [of n] by (simp add: decimal.simps [of n] del: of_nat_add)
  next
    case False
    then show ?thesis using 1 digit [of "n mod 10"] by (auto simp: decimal.simps [of n] simp del: of_nat_add)
  qed
qed

text \<open>A property name with a character that is no digit is no array index.\<close>

lemma indexed_None:
  assumes "c \<in> set key" and "\<not> (0x30 \<le> unat c \<and> unat c \<le> 0x39)"
  shows "indexed f n key = None"
proof -
  have "\<forall>i. key \<noteq> decimal i" using decimal_digits [of c] assms by blast
  then have "key \<notin> fst ` set (map (\<lambda>i. (decimal i, f i)) [0..<n])" by auto
  then show ?thesis by (simp only: indexed_def map_of_eq_None_iff not_False_eq_True)
qed

lemma packed_bytes_array [simp]: "packed_bytes (VArray xs) tag = None"
proof -
  let ?key = "js ''__moyodbPacked''"
  have "(0x5f :: code_unit) \<in> set ?key" by (simp add: js_def)
  then have "indexed f n ?key = None" for f n by (rule indexed_None) simp
  moreover have "?key \<noteq> js ''length''" by simp
  ultimately show ?thesis by (simp add: packed_bytes_def prop_get_def own_property_def)
qed

lemma is_object_simps [simp]: "is_object (VObject ps)" "is_object (VArray xs)"
  by (simp_all add: is_object_def)

lemma prop_get_object: "prop_get (VObject ps) key = (case map_of ps key of Some x \<Rightarrow> x | None \<Rightarrow> VUndefined)"
  by (simp add: prop_get_def own_property_def)

lemma packed_bytes_value: "packed_bytes (packed_value tag bs) tag' = (if tag' = tag then Some bs else None)"
  by (auto simp: packed_bytes_def packed_value_def is_object_def prop_get_object)

lemma packed_value_not_array: "packed_value tag bs \<noteq> VArray xs"
  by (simp add: packed_value_def)

lemma packed_tags [simp]:
  "PACKED_SCAN_ROWS_V1 \<noteq> PACKED_ENGINE_SCAN_ROWS_V1" "PACKED_ENGINE_SCAN_ROWS_V1 \<noteq> PACKED_SCAN_ROWS_V1"
  "PACKED_OPTIONAL_VALUES_V1 \<noteq> PACKED_NULLABLE_BINARY_LIST_V1" "PACKED_NULLABLE_BINARY_LIST_V1 \<noteq> PACKED_OPTIONAL_VALUES_V1"
  by (simp_all add: PACKED_SCAN_ROWS_V1_def PACKED_ENGINE_SCAN_ROWS_V1_def PACKED_OPTIONAL_VALUES_V1_def
      PACKED_NULLABLE_BINARY_LIST_V1_def)

section \<open>Requests\<close>

text \<open>Arguments of the declared types.\<close>

definition typed_args :: "string \<Rightarrow> jsval list \<Rightarrow> bool" where
  "typed_args command args \<longleftrightarrow>
     (if command = ''getMany'' \<or> command = ''deleteMany''
      then (\<exists>tx store keys. args = [tx, store, VArray (map VBytes keys)])
      else if command = ''putMany'' then (\<exists>tx store entries options. args = [tx, store, VArray (map pair_value entries), options])
      else if command = ''applyBatch'' then (\<exists>tx store ops. args = [tx, store, VArray (map batch_value ops)])
      else if command = ''importSnapshot'' then (\<exists>bs. args = [VBytes bs])
      else True)"

definition typed_request :: "string \<Rightarrow> jsval list \<Rightarrow> bool" where
  "typed_request command args \<longleftrightarrow>
     (if command = ''autocommit''
      then (\<exists>mode inner innerArgs. inner \<in> set AUTOCOMMIT_COMMANDS \<and> args = [mode, str inner, VArray innerArgs] \<and>
              typed_args inner (num 0 # innerArgs))
      else typed_args command args)"

lemma arg_at_simps [simp]:
  "arg_at (x0 # xs) 0 = x0" "arg_at (x0 # x1 # xs) (Suc 0) = x1" "arg_at (x0 # x1 # x2 # xs) 2 = x2"
  "arg_at (x0 # x1 # x2 # x3 # xs) 3 = x3"
  by (simp_all add: arg_at_def)

lemmas packed_object = packed_bytes_value [unfolded packed_value_def] packed_value_def

lemma direct_round_trip:
  assumes "typed_args command args" and "prepare_direct command args = Inr sent"
  shows "decode_direct command sent = Inr args \<and> (args \<noteq> [] \<longrightarrow> sent \<noteq> [] \<and> hd sent = hd args)"
proof -
  consider (keys) tx store keys where "command = ''getMany'' \<or> command = ''deleteMany''" "args = [tx, store, VArray (map VBytes keys)]"
    | (entries) tx store entries options where "command = ''putMany''" "args = [tx, store, VArray (map pair_value entries), options]"
    | (ops) tx store ops where "command = ''applyBatch''" "args = [tx, store, VArray (map batch_value ops)]"
    | (other) "command \<notin> {''getMany'', ''deleteMany'', ''putMany'', ''applyBatch''}" "sent = args"
  proof (cases "command \<in> {''getMany'', ''deleteMany'', ''putMany'', ''applyBatch''}")
    case True
    then show ?thesis using assms(1) that(1-3) by (auto simp: typed_args_def)
  next
    case False
    then have "sent = args" using assms by (auto simp: typed_args_def prepare_direct_def split: if_splits)
    then show ?thesis using False that(4) by blast
  qed
  then show ?thesis
  proof cases
    case keys
    show ?thesis
    proof (cases keys)
      case Nil
      then show ?thesis using keys assms(2) by (auto simp: prepare_direct_def decode_direct_def)
    next
      case (Cons k ks)
      then obtain packed where p: "packBinaryList (map VBytes keys) = Inr packed"
          "sent = [tx, store, packed_value PACKED_BINARY_LIST_V1 packed]"
        using keys assms(2) by (auto simp: prepare_direct_def bindr_eq_Inr)
      then show ?thesis using keys unpackBinaryList_packed [of packed keys]
        by (auto simp: decode_direct_def packed_object)
    qed
  next
    case entries
    show ?thesis
    proof (cases entries)
      case Nil
      then show ?thesis using entries assms(2) by (auto simp: prepare_direct_def decode_direct_def)
    next
      case (Cons e es)
      then obtain packed where p: "packBinaryPairs (map pair_value entries) = Inr packed"
          "sent = [tx, store, packed_value PACKED_BINARY_LIST_V1 packed, options]"
        using entries assms(2) by (auto simp: prepare_direct_def bindr_eq_Inr)
      then show ?thesis using entries unpackPutMany_packed [of id packed entries]
        by (auto simp: decode_direct_def packed_object unpackPackedBinaryPairs_def)
    qed
  next
    case ops
    show ?thesis
    proof (cases ops)
      case Nil
      then show ?thesis using ops assms(2) by (auto simp: prepare_direct_def decode_direct_def)
    next
      case (Cons p ps)
      then obtain packed where p: "packBatchOps (map batch_value ops) = Inr packed"
          "sent = [tx, store, packed_value PACKED_BATCH_OPS_V1 packed]"
        using ops assms(2) by (auto simp: prepare_direct_def bindr_eq_Inr)
      then show ?thesis using ops unpackBatch_packed [of id packed ops]
        by (auto simp: decode_direct_def packed_object unpackPackedBatchOps_def)
    qed
  next
    case other
    then show ?thesis by (auto simp: decode_direct_def)
  qed
qed

lemma request_round_trip:
  assumes "typed_request command args" and "prepareWorkerCommandPayload command args = Inr sent"
  shows "decodeWorkerCommandPayload command sent = Inr args"
proof (cases "command = ''autocommit''")
  case False
  then show ?thesis using assms direct_round_trip [of command args sent]
    by (simp add: typed_request_def prepareWorkerCommandPayload_def decodeWorkerCommandPayload_def)
next
  case True
  then obtain mode inner innerArgs where a: "inner \<in> set AUTOCOMMIT_COMMANDS" "args = [mode, str inner, VArray innerArgs]"
      "typed_args inner (num 0 # innerArgs)"
    using assms(1) by (auto simp: typed_request_def)
  have found: "List.find (\<lambda>c. str c = str inner) AUTOCOMMIT_COMMANDS = Some inner"
    using find_js [OF a(1)] by simp
  obtain prepared where p: "prepare_direct inner (num 0 # innerArgs) = Inr prepared"
      "sent = [mode, str inner, VArray (tl prepared)]"
    using assms(2) True found by (auto simp: prepareWorkerCommandPayload_def a(2) bindr_eq_Inr)
  have "decode_direct inner prepared = Inr (num 0 # innerArgs)" "prepared = num 0 # tl prepared"
    using direct_round_trip [OF a(3) p(1)] by (cases prepared; simp)+
  then show ?thesis using True found by (simp add: decodeWorkerCommandPayload_def p(2) a(2))
qed

section \<open>Responses\<close>

definition page_value :: "(bytes \<times> bytes) list \<Rightarrow> jsval \<Rightarrow> bool \<Rightarrow> jsval \<Rightarrow> jsval" where
  "page_value rows cursor finished count =
     VObject [(js ''rows'', VArray (map row_value rows)), (js ''cursorId'', cursor), (js ''done'', VBool finished), (js ''bytes'', count)]"

definition rows_size :: "(bytes \<times> bytes) list \<Rightarrow> nat" where
  "rows_size rows = 4 + sum_list (map (\<lambda>(k, v). 8 + length k + length v) rows)"

text \<open>Results of the declared types; a page announces its size and has a cursor unless it is the last.\<close>

definition typed_result :: "string \<Rightarrow> jsval \<Rightarrow> bool" where
  "typed_result command result \<longleftrightarrow>
     (if command = ''getMany'' then (\<exists>items. result = VArray (map nullable_value items))
      else if command = ''scan'' \<or> command = ''scanByIndex'' then (\<exists>rows. result = VArray (map row_value rows))
      else if command = ''scanByIndexPage'' then
        (\<exists>rows cursor. (cursor = VNull \<or> (\<exists>bs. cursor = VBytes bs)) \<and>
           result = VObject [(js ''rows'', VArray (map row_value rows)), (js ''cursor'', cursor)])
      else if command = ''scanPage'' then
        (\<exists>rows cursor finished. rows_size rows < 2 ^ 53 \<and>
           (if finished then cursor = VUndefined else \<exists>n. 0 < n \<and> n < 2 ^ 53 \<and> cursor = num n) \<and>
           result = page_value rows cursor finished (num (rows_size rows)))
      else True)"

lemma page_row_bytes_rows: "page_row_bytes (map row_value rows) n = Inr (n + sum_list (map (\<lambda>(k, v). 8 + length k + length v) rows))"
  by (induction rows arbitrary: n) (auto simp: row_entry_value ac_simps)

lemma decode_page:
  assumes "rows_size rows < 2 ^ 53" and "if finished then cursor = VUndefined else \<exists>n. 0 < n \<and> n < 2 ^ 53 \<and> cursor = num n"
    and "decode_page_rows sentRows = Inr (VArray (map row_value rows))"
  shows "decode_scan_page (VObject [(js ''rows'', sentRows), (js ''cursorId'', cursor), (js ''done'', VBool finished),
      (js ''bytes'', num (rows_size rows))]) = Inr (page_value rows cursor finished (num (rows_size rows)))"
proof -
  let ?r = "VObject [(js ''rows'', sentRows), (js ''cursorId'', cursor), (js ''done'', VBool finished), (js ''bytes'', num (rows_size rows))]"
  have fields: "prop_get ?r (js ''rows'') = sentRows" "prop_get ?r (js ''cursorId'') = cursor"
      "prop_get ?r (js ''done'') = VBool finished" "prop_get ?r (js ''bytes'') = num (rows_size rows)" "is_object ?r"
    by (simp_all add: prop_get_object is_object_def)
  have "4 \<le> rows_size rows" by (simp add: rows_size_def)
  then have "\<not> invalid_page ?r"
    using assms(1,2) f64_of_nat [OF assms(1)] unfolding invalid_page_def Let_def fields
    by (auto simp: is_safe_number_def split: if_splits)
  moreover have "page_row_bytes (map row_value rows) 4 = Inr (rows_size rows)"
    by (simp add: page_row_bytes_rows rows_size_def)
  ultimately show ?thesis using assms(3) unfolding decode_scan_page_def fields by (simp add: page_value_def)
qed

lemma rows_packed:
  assumes "packScanRows (map row_value rows) = Inr packed"
  shows "decode_page_rows (packed_rows_or (VArray (map row_value rows)) packed) = Inr (VArray (map row_value rows))"
  using assms unpackScanRows_packed [of rows]
  by (cases packed) (auto simp: decode_page_rows_def packed_bytes_value)

lemma page_round_trip:
  assumes "typed_result ''scanPage'' result" and "prepareWorkerResponsePayload ''scanPage'' result = Inr sent"
  shows "decodeWorkerResponsePayload ''scanPage'' sent = Inr result"
proof -
  obtain rows cursor finished where r: "rows_size rows < 2 ^ 53"
      "if finished then cursor = VUndefined else \<exists>n. 0 < n \<and> n < 2 ^ 53 \<and> cursor = num n"
      "result = page_value rows cursor finished (num (rows_size rows))"
    using assms(1) unfolding typed_result_def by auto
  have "prop_get result (js ''rows'') = VArray (map row_value rows)" "is_object result"
    by (simp_all add: r(3) page_value_def prop_get_object)
  then obtain packed where p: "packScanRows (map row_value rows) = Inr packed"
      "sent = with_property result (js ''rows'') (packed_rows_or (VArray (map row_value rows)) packed)"
    using assms(2) by (auto simp: prepareWorkerResponsePayload_def bindr_eq_Inr)
  have "sent = VObject [(js ''rows'', packed_rows_or (VArray (map row_value rows)) packed), (js ''cursorId'', cursor),
      (js ''done'', VBool finished), (js ''bytes'', num (rows_size rows))]"
    by (simp add: p(2) r(3) page_value_def with_property_def)
  then show ?thesis using decode_page [OF r(1,2) rows_packed [OF p(1)]] r(3)
    by (simp add: decodeWorkerResponsePayload_def)
qed

lemma result_round_trip:
  assumes "typed_result command result" and "prepareWorkerResponsePayload command result = Inr sent"
  shows "decodeWorkerResponsePayload command sent = Inr result"
proof -
  consider (page) "command = ''scanPage''"
    | (many) items where "command = ''getMany''" "result = VArray (map nullable_value items)"
    | (scan) rows where "command = ''scan'' \<or> command = ''scanByIndex''" "result = VArray (map row_value rows)"
    | (index) rows cursor where "command = ''scanByIndexPage''" "cursor = VNull \<or> (\<exists>bs. cursor = VBytes bs)"
        "result = VObject [(js ''rows'', VArray (map row_value rows)), (js ''cursor'', cursor)]"
    | (other) "command \<notin> {''scanPage'', ''getMany'', ''scan'', ''scanByIndex'', ''scanByIndexPage''}"
    using assms(1) unfolding typed_result_def by (auto split: if_splits)
  then show ?thesis
  proof cases
    case page
    then show ?thesis using assms page_round_trip by simp
  next
    case many
    show ?thesis
    proof (cases items)
      case Nil
      then show ?thesis using many assms(2) by (auto simp: prepareWorkerResponsePayload_def decodeWorkerResponsePayload_def)
    next
      case (Cons x xs)
      then obtain packed where p: "packNullableBinaryList (map nullable_value items) = Inr packed"
          "sent = (case packed of None \<Rightarrow> result | Some bs \<Rightarrow> packed_value PACKED_NULLABLE_BINARY_LIST_V1 bs)"
        using many assms(2) by (auto simp: prepareWorkerResponsePayload_def bindr_eq_Inr)
      then show ?thesis using many unpackNullable_packed [of items]
        by (cases packed) (auto simp: decodeWorkerResponsePayload_def packed_bytes_value)
    qed
  next
    case scan
    show ?thesis
    proof (cases rows)
      case Nil
      then show ?thesis using scan assms(2) by (auto simp: prepareWorkerResponsePayload_def decodeWorkerResponsePayload_def)
    next
      case (Cons x xs)
      then obtain packed where p: "packScanRows (map row_value rows) = Inr packed" "sent = packed_rows_or result packed"
        using scan assms(2) by (auto simp: prepareWorkerResponsePayload_def bindr_eq_Inr)
      then show ?thesis using scan unpackScanRows_packed [of rows]
        by (cases packed) (auto simp: decodeWorkerResponsePayload_def packed_bytes_value)
    qed
  next
    case index
    then have f: "prop_get result (js ''rows'') = VArray (map row_value rows)" "prop_get result (js ''cursor'') = cursor" "is_object result"
      by (simp_all add: prop_get_object)
    then obtain packed where p: "rows \<noteq> [] \<longrightarrow> packScanRows (map row_value rows) = Inr packed" "rows = [] \<longrightarrow> packed = None"
        "sent = VObject [(js ''rows'', packed_rows_or (VArray (map row_value rows)) packed), (js ''cursor'', cursor)]"
      using index(1) assms(2) by (auto simp: prepareWorkerResponsePayload_def bindr_eq_Inr split: if_splits)
    show ?thesis
    proof (cases packed)
      case None
      then show ?thesis using p(3) index by (auto simp: decodeWorkerResponsePayload_def prop_get_object)
    next
      case (Some bs)
      then have "unpackScanRows bs = Inr rows" using p(1,2) unpackScanRows_packed [of rows bs] by auto
      then show ?thesis using Some p(3) index
        by (auto simp: decodeWorkerResponsePayload_def prop_get_object packed_bytes_value)
    qed
  next
    case other
    then show ?thesis using assms(2) by (auto simp: prepareWorkerResponsePayload_def decodeWorkerResponsePayload_def)
  qed
qed

section \<open>Properties\<close>

text \<open>
  What one side sends the other side receives: for arguments and results of the declared types,
  decoding a prepared command or a prepared result gives back the arguments or the result, including
  the arguments nested in an autocommit request and results too large to be packed.
\<close>

theorem payloads_round_trip:
  assumes "typed_request command args" and "prepareWorkerCommandPayload command args = Inr sentArgs"
    and "typed_result command' result" and "prepareWorkerResponsePayload command' result = Inr sentResult"
  shows "decodeWorkerCommandPayload command sentArgs = Inr args \<and> decodeWorkerResponsePayload command' sentResult = Inr result"
  using request_round_trip [OF assms(1,2)] result_round_trip [OF assms(3,4)] by blast

theorem payloads_round_trip_witness:
  "\<exists>sent. prepareWorkerCommandPayload ''autocommit'' [str ''readonly'', str ''getMany'', VArray [str ''s'', VArray [VBytes [7]]]] = Inr sent \<and>
     decodeWorkerCommandPayload ''autocommit'' sent = Inr [str ''readonly'', str ''getMany'', VArray [str ''s'', VArray [VBytes [7]]]]"
proof -
  let ?args = "[str ''readonly'', str ''getMany'', VArray [str ''s'', VArray [VBytes [7]]]]"
  have "''getMany'' \<in> set AUTOCOMMIT_COMMANDS" by (simp add: AUTOCOMMIT_COMMANDS_def)
  moreover have "typed_args ''getMany'' [num 0, str ''s'', VArray [VBytes [7]]]"
    by (auto simp: typed_args_def intro!: exI [of _ "[[7]]"])
  ultimately have t: "typed_request ''autocommit'' ?args"
    unfolding typed_request_def by auto
  obtain packed where "packBinaryList [VBytes [7]] = Inr packed"
    by (simp add: packBinaryList_def checkedU32_def checkedByteCount_def checkedAdd_def)
  moreover have "List.find (\<lambda>c. str c = str ''getMany'') AUTOCOMMIT_COMMANDS = Some ''getMany''"
    by (simp add: AUTOCOMMIT_COMMANDS_def)
  ultimately obtain sent where s: "prepareWorkerCommandPayload ''autocommit'' ?args = Inr sent"
    by (simp add: prepareWorkerCommandPayload_def prepare_direct_def)
  have r: "typed_result ''get'' VNull" "prepareWorkerResponsePayload ''get'' VNull = Inr VNull"
    by (simp_all add: typed_result_def prepareWorkerResponsePayload_def)
  show ?thesis using payloads_round_trip [OF t s r] s by blast
qed

text \<open>
  C23. Errors keep their class across the worker boundary: an error thrown in the worker under the name
  of one of the error classes arrives, after serialization, deserialization and normalization, as an
  instance of that class with the same name and message.
\<close>

theorem error_class_preserved:
  assumes "c \<in> set ERROR_CONSTRUCTORS" and "err_name e = js c"
  shows "\<exists>received. deserializeWorkerError (serializeWorkerError to_string (error_object e)) = Inr received \<and>
    (let n = normalizeError to_string (ThrownError received)
     in err_class n = Some c \<and> err_name n = js c \<and> err_message n = err_message e)"
proof -
  have c: "c \<noteq> []" "c \<noteq> ''Error''" using assms(1) by (auto simp: ERROR_CONSTRUCTORS_def)
  have fields: "prop_get (error_object e) (js ''name'') = VString (js c)"
      "prop_get (error_object e) (js ''message'') = VString (err_message e)"
      "stringOrUndefined (prop_get (error_object e) (js ''code'')) = (case err_code e of None \<Rightarrow> VUndefined | Some x \<Rightarrow> VString x)"
      "stringOrUndefined (prop_get (error_object e) (js ''stack'')) = (case err_stack e of None \<Rightarrow> VUndefined | Some x \<Rightarrow> VString x)"
      "is_object (error_object e)"
    by (simp_all add: error_object_def prop_get_object assms(2) stringOrUndefined_def split: option.splits)
  let ?s = "serializeWorkerError to_string (error_object e)"
  have s: "?s = VObject [(js ''name'', VString (js c)),
      (js ''code'', case err_code e of None \<Rightarrow> VUndefined | Some x \<Rightarrow> VString x), (js ''message'', VString (err_message e)),
      (js ''stack'', case err_stack e of None \<Rightarrow> VUndefined | Some x \<Rightarrow> VString x)]"
    unfolding serializeWorkerError_def Let_def fields by (simp add: fields stringOrUndefined_def nullish_def)
  obtain received where r: "deserializeWorkerError ?s = Inr received" "err_class received = None" "err_name received = js c"
      "err_message received = err_message e"
    unfolding s using c(1)
    by (cases "err_code e"; cases "err_stack e")
      (simp_all add: deserializeWorkerError_def prop_get_object stringOrUndefined_def non_empty_def)
  then show ?thesis
    using c(2) find_js [OF assms(1)] by (auto simp: normalizeError_def instantiateError_def)
qed

theorem error_class_preserved_witness:
  "\<exists>received. deserializeWorkerError (serializeWorkerError (\<lambda>_. []) (error_object
      \<lparr> err_class = None, err_name = js ''ConstraintError'', err_message = js ''duplicate'', err_code = Some (js ''ConstraintError''),
        err_stack = None \<rparr>)) = Inr received \<and>
     err_class (normalizeError (\<lambda>_. []) (ThrownError received)) = Some ''ConstraintError''"
proof -
  let ?e = "\<lparr> err_class = None, err_name = js ''ConstraintError'', err_message = js ''duplicate'',
    err_code = Some (js ''ConstraintError''), err_stack = None \<rparr>"
  have "''ConstraintError'' \<in> set ERROR_CONSTRUCTORS" by (simp add: ERROR_CONSTRUCTORS_def)
  then show ?thesis using error_class_preserved [of "''ConstraintError''" ?e "\<lambda>_. []"] by (auto simp: Let_def)
qed

end
