(* ===== verification/Subscriptions.thy ===== *)
theory Subscriptions
  imports IndexDefs
begin

text \<open>
  Change notifications, \<^verbatim>\<open>packages/sdk/src/subscriptions.ts\<close> with the event guards of
  \<^verbatim>\<open>change-events.ts\<close>. A hub keeps its listeners in a set, opens a broadcast channel while it has any,
  and hands each listener the changes of a commit that it asked for.

  The change objects of a message are kept in an explicit store, so that sharing is visible: listeners
  may change the objects they are given, and the last listener of a view gets the objects of the commit
  itself. Callbacks are a parameter; what they may do is the inductive relation \<open>user_effect\<close>.
\<close>

section \<open>Changes\<close>

datatype ChangeKind = PutChange | DeleteChange | ClearChange | DropChange

record DbChange =
  change_key :: bytes
  change_kind :: ChangeKind

fun key_prefix_from :: "bytes \<Rightarrow> bytes \<Rightarrow> nat \<Rightarrow> nat \<Rightarrow> bool" where
  "key_prefix_from key prefix index 0 = True"
| "key_prefix_from key prefix index (Suc remaining) =
     (if read_at key index \<noteq> read_at prefix index then False else key_prefix_from key prefix (index + 1) remaining)"

definition hasKeyPrefix :: "bytes \<Rightarrow> bytes \<Rightarrow> bool" where
  "hasKeyPrefix key prefix =
     (if length key < length prefix then False else key_prefix_from key prefix 0 (length prefix))"

definition matchesPrefix :: "DbChange \<Rightarrow> bytes \<Rightarrow> bool" where
  "matchesPrefix change prefix \<longleftrightarrow>
     change_kind change = ClearChange \<or> change_kind change = DropChange \<or> hasKeyPrefix (change_key change) prefix"

fun includesStoreLevelChange :: "DbChange list \<Rightarrow> bool" where
  "includesStoreLevelChange [] = False"
| "includesStoreLevelChange (change # changes) =
     (if change_kind change = ClearChange \<or> change_kind change = DropChange then True
      else includesStoreLevelChange changes)"

definition prefixBytesOverlap :: "bytes \<Rightarrow> bytes \<Rightarrow> bool" where
  "prefixBytesOverlap left right = key_prefix_from left right 0 (min (length left) (length right))"

definition viewsIntersect :: "bytes option \<Rightarrow> bytes option \<Rightarrow> bool \<Rightarrow> bool" where
  "viewsIntersect leftPrefix rightPrefix hasStoreLevel =
     (case (leftPrefix, rightPrefix) of
        (Some left, Some right) \<Rightarrow> if prefixBytesOverlap left right then True else hasStoreLevel
      | _ \<Rightarrow> True)"

text \<open>
  The changes of a view. The objects are given by their addresses; the flag of the result tells whether
  it is the array of the commit itself.
\<close>

fun shared_loop :: "(nat \<Rightarrow> DbChange) \<Rightarrow> bytes \<Rightarrow> nat list \<Rightarrow> nat list \<Rightarrow> nat list option \<Rightarrow> nat list option" where
  "shared_loop objs prefix seen [] selected = selected"
| "shared_loop objs prefix seen (change # changes) selected =
     shared_loop objs prefix (seen @ [change]) changes
       (if matchesPrefix (objs change) prefix
        then (case selected of None \<Rightarrow> None | Some s \<Rightarrow> Some (s @ [change]))
        else (case selected of None \<Rightarrow> Some seen | Some s \<Rightarrow> Some s))"

definition sharedChanges :: "(nat \<Rightarrow> DbChange) \<Rightarrow> nat list \<Rightarrow> bytes option \<Rightarrow> (bool \<times> nat list) option" where
  "sharedChanges objs changes prefix =
     (case prefix of
        None \<Rightarrow> Some (True, changes)
      | Some p \<Rightarrow>
          (case shared_loop objs p [] changes None of
             None \<Rightarrow> if changes = [] then None else Some (True, changes)
           | Some selected \<Rightarrow> if selected = [] then None else Some (False, selected)))"

section \<open>The hub\<close>

record 'c SubscriptionEntry =
  active :: bool
  entry_store :: "jsstring option"
  keyPrefix :: "bytes option"
  entry_callback :: 'c

text \<open>
  The hub with the entry objects it has made, the change objects that exist, and the calls made so far
  (the entry, the store, the changes as they were when the callback was called, and the transaction).
\<close>

type_synonym call = "nat \<times> jsstring \<times> DbChange list \<times> f64"

record 'c SubscriptionHub =
  hub_dbName :: jsstring
  channel_open :: bool
  hub_entries :: "nat list"
  entry_table :: "nat \<Rightarrow> 'c SubscriptionEntry"
  next_entry :: nat
  hub_closed :: bool
  change_objects :: "nat \<Rightarrow> DbChange"
  next_object :: nat
  calls :: "call list"
  rethrown :: nat

datatype 'c sub_arg = FunctionArg 'c | StringArg jsstring | BytesArg bytes | UndefinedArg | OtherArg

definition normalizeSubscriptionSpec ::
  "'c sub_arg \<Rightarrow> 'c sub_arg \<Rightarrow> 'c sub_arg \<Rightarrow> (jsstring option \<times> bytes option \<times> 'c) result" where
  "normalizeSubscriptionSpec arg1 arg2 arg3 =
     (case arg1 of
        FunctionArg callback \<Rightarrow>
          if arg2 \<noteq> UndefinedArg \<or> arg3 \<noteq> UndefinedArg
          then throw TypeError ''subscribe(callback) accepts exactly one callback argument''
          else Inr (None, None, callback)
      | StringArg store \<Rightarrow>
          bindr (assertPublicStoreName store) (\<lambda>_.
            case arg2 of
              FunctionArg callback \<Rightarrow>
                if arg3 \<noteq> UndefinedArg then throw TypeError ''subscribe(storeName, callback) accepts exactly two arguments''
                else Inr (Some store, None, callback)
            | BytesArg prefix \<Rightarrow>
                (case arg3 of
                   FunctionArg callback \<Rightarrow> Inr (Some store, Some prefix, callback)
                 | _ \<Rightarrow> throw TypeError ''subscribe() expects one of: (callback), (storeName, callback), (storeName, keyPrefix, callback)'')
            | _ \<Rightarrow> throw TypeError ''subscribe() expects one of: (callback), (storeName, callback), (storeName, keyPrefix, callback)'')
      | _ \<Rightarrow> throw TypeError ''subscribe() storeName must be a string'')"

definition ensureChannel :: "'c SubscriptionHub \<Rightarrow> 'c SubscriptionHub" where
  "ensureChannel hub = (if channel_open hub \<or> hub_closed hub then hub else hub\<lparr>channel_open := True\<rparr>)"

definition disposeChannel :: "'c SubscriptionHub \<Rightarrow> 'c SubscriptionHub" where
  "disposeChannel hub = hub\<lparr>channel_open := False\<rparr>"

definition subscribe :: "'c sub_arg \<Rightarrow> 'c sub_arg \<Rightarrow> 'c sub_arg \<Rightarrow> ('c SubscriptionHub, nat) eff" where
  "subscribe arg1 arg2 arg3 = (\<lambda>hub.
     if hub_closed hub then (throw DatabaseClosedError ''database handle is closed'', hub)
     else case normalizeSubscriptionSpec arg1 arg2 arg3 of
       Inl e \<Rightarrow> (Inl e, hub)
     | Inr (store, prefix, callback) \<Rightarrow>
         let entry = next_entry hub;
             hub1 = ensureChannel (hub\<lparr>next_entry := entry + 1,
               entry_table := (entry_table hub)(entry :=
                 \<lparr> active = True, entry_store = store, keyPrefix = prefix, entry_callback = callback \<rparr>)\<rparr>)
         in (Inr entry, hub1\<lparr>hub_entries := hub_entries hub1 @ [entry]\<rparr>))"

definition deactivate :: "nat \<Rightarrow> 'c SubscriptionHub \<Rightarrow> 'c SubscriptionHub" where
  "deactivate entry hub =
     hub\<lparr>entry_table := (entry_table hub)(entry := (entry_table hub entry)\<lparr>active := False\<rparr>)\<rparr>"

text \<open>The function that \<^verbatim>\<open>subscribe\<close> returns.\<close>

definition unsubscribe :: "nat \<Rightarrow> 'c SubscriptionHub \<Rightarrow> 'c SubscriptionHub" where
  "unsubscribe entry hub =
     (if \<not> active (entry_table hub entry) then hub
      else let hub1 = deactivate entry hub;
               hub2 = hub1\<lparr>hub_entries := filter (\<lambda>e. e \<noteq> entry) (hub_entries hub1)\<rparr>
           in if hub_entries hub2 = [] then disposeChannel hub2 else hub2)"

definition close_hub :: "'c SubscriptionHub \<Rightarrow> 'c SubscriptionHub" where
  "close_hub hub =
     (if hub_closed hub then hub
      else let hub1 = fold deactivate (hub_entries hub) (hub\<lparr>hub_closed := True\<rparr>)
           in disposeChannel (hub1\<lparr>hub_entries := []\<rparr>))"

section \<open>Events\<close>

fun parse_kind :: "jsval \<Rightarrow> ChangeKind option" where
  "parse_kind (VString s) =
     (if s = js ''put'' then Some PutChange else if s = js ''delete'' then Some DeleteChange
      else if s = js ''clear'' then Some ClearChange else if s = js ''drop'' then Some DropChange else None)"
| "parse_kind _ = None"

text \<open>The guards, with the typed value when they hold.\<close>

definition isDbChange :: "jsval \<Rightarrow> DbChange option" where
  "isDbChange v =
     (if \<not> is_object v then None
      else case (prop_get v (js ''key''), parse_kind (prop_get v (js ''kind''))) of
        (VBytes key, Some kind) \<Rightarrow>
          if kind = PutChange \<or> kind = DeleteChange \<or> length key = 0
          then Some \<lparr> change_key = key, change_kind = kind \<rparr> else None
      | _ \<Rightarrow> None)"

text \<open>\<^verbatim>\<open>values.every(guard)\<close>, with the typed values.\<close>

fun every :: "('a \<Rightarrow> 'b option) \<Rightarrow> 'a list \<Rightarrow> 'b list option" where
  "every f [] = Some []"
| "every f (v # vs) = (case f v of None \<Rightarrow> None | Some x \<Rightarrow> map_option ((#) x) (every f vs))"

definition isStoreChangeSet :: "jsval \<Rightarrow> (jsstring \<times> DbChange list) option" where
  "isStoreChangeSet v =
     (if \<not> is_object v then None
      else case (prop_get v (js ''store''), prop_get v (js ''changes'')) of
        (VString store, VArray changes) \<Rightarrow> map_option (Pair store) (every isDbChange changes)
      | _ \<Rightarrow> None)"

definition isCommitAppliedEvent :: "jsval \<Rightarrow> (jsstring \<times> f64 \<times> (jsstring \<times> DbChange list) list) option" where
  "isCommitAppliedEvent v =
     (if \<not> is_object v \<or> prop_get v (js ''type'') \<noteq> VString (js ''commit_applied'') then None
      else case (prop_get v (js ''dbName''), prop_get v (js ''txid''), prop_get v (js ''stores'')) of
        (VString db, VNumber txid, VArray store_sets) \<Rightarrow> map_option (\<lambda>s. (db, txid, s)) (every isStoreChangeSet store_sets)
      | _ \<Rightarrow> None)"

section \<open>Delivery\<close>

record PendingDelivery =
  d_entry :: nat
  d_shared :: bool
  d_changes :: "nat list"

fun laterViewIntersects :: "'c SubscriptionHub \<Rightarrow> bytes option \<Rightarrow> PendingDelivery list \<Rightarrow> bool \<Rightarrow> bool" where
  "laterViewIntersects hub prefix [] hasStoreLevel = False"
| "laterViewIntersects hub prefix (later # deliveries) hasStoreLevel =
     (if viewsIntersect prefix (keyPrefix (entry_table hub (d_entry later))) hasStoreLevel then True
      else laterViewIntersects hub prefix deliveries hasStoreLevel)"

text \<open>New objects with the contents of the given ones.\<close>

definition allocate :: "DbChange list \<Rightarrow> 'c SubscriptionHub \<Rightarrow> nat list \<times> 'c SubscriptionHub" where
  "allocate changes hub =
     (let start = next_object hub; n = length changes in
      ([start..<start + n],
       hub\<lparr>change_objects := (\<lambda>a. if start \<le> a \<and> a < start + n then changes ! (a - start) else change_objects hub a),
           next_object := start + n\<rparr>))"

definition cloneChanges :: "nat list \<Rightarrow> 'c SubscriptionHub \<Rightarrow> nat list \<times> 'c SubscriptionHub" where
  "cloneChanges changes hub = allocate (map (change_objects hub) changes) hub"

definition pending :: "'c SubscriptionHub \<Rightarrow> jsstring \<Rightarrow> nat list \<Rightarrow> nat \<Rightarrow> PendingDelivery list" where
  "pending hub store changes e =
     (let entry = entry_table hub e in
      if \<not> active entry then []
      else if entry_store entry \<noteq> None \<and> entry_store entry \<noteq> Some store then []
      else case sharedChanges (change_objects hub) changes (keyPrefix entry) of
        None \<Rightarrow> []
      | Some (shared, items) \<Rightarrow> [\<lparr> d_entry = e, d_shared = shared, d_changes = items \<rparr>])"

fun clone_pass :: "bool \<Rightarrow> PendingDelivery list \<Rightarrow> 'c SubscriptionHub \<Rightarrow> PendingDelivery list \<times> 'c SubscriptionHub" where
  "clone_pass hasStoreLevel [] hub = ([], hub)"
| "clone_pass hasStoreLevel (d # deliveries) hub =
     (let (d', hub1) =
        (if \<not> laterViewIntersects hub (keyPrefix (entry_table hub (d_entry d))) deliveries hasStoreLevel then (d, hub)
         else case cloneChanges (d_changes d) hub of (items, hub') \<Rightarrow> (d\<lparr>d_shared := False, d_changes := items\<rparr>, hub'));
          (ds', hub2) = clone_pass hasStoreLevel deliveries hub1
      in (d' # ds', hub2))"

type_synonym 'c callbacks = "'c \<Rightarrow> jsstring \<Rightarrow> nat list \<Rightarrow> f64 \<Rightarrow> 'c SubscriptionHub \<Rightarrow> bool \<times> 'c SubscriptionHub"

fun run_deliveries :: "'c callbacks \<Rightarrow> jsstring \<Rightarrow> f64 \<Rightarrow> PendingDelivery list \<Rightarrow> 'c SubscriptionHub \<Rightarrow> 'c SubscriptionHub" where
  "run_deliveries cb store txid [] hub = hub"
| "run_deliveries cb store txid (d # deliveries) hub =
     (let entry = entry_table hub (d_entry d) in
      if \<not> active entry then run_deliveries cb store txid deliveries hub
      else
        let (threw, hub1) = cb (entry_callback entry) store (d_changes d) txid
              (hub\<lparr>calls := calls hub @ [(d_entry d, store, map (change_objects hub) (d_changes d), txid)]\<rparr>);
            hub2 = (if threw then hub1\<lparr>rethrown := rethrown hub1 + 1\<rparr> else hub1)
        in run_deliveries cb store txid deliveries hub2)"

definition deliver_store :: "'c callbacks \<Rightarrow> nat list \<Rightarrow> f64 \<Rightarrow> jsstring \<times> nat list \<Rightarrow> 'c SubscriptionHub \<Rightarrow> 'c SubscriptionHub" where
  "deliver_store cb snapshot txid = (\<lambda>(store, changes) hub.
     let deliveries = concat (map (pending hub store changes) snapshot);
         (deliveries', hub1) =
           (if length deliveries > 1
            then clone_pass (includesStoreLevelChange (map (change_objects hub) changes)) deliveries hub
            else (deliveries, hub))
     in run_deliveries cb store txid deliveries' hub1)"

text \<open>
  A received message is a structured clone: its change objects are new. No two of them share a key
  buffer, since the sender copies the key of every change it records.
\<close>

fun receive_stores :: "(jsstring \<times> DbChange list) list \<Rightarrow> 'c SubscriptionHub \<Rightarrow> (jsstring \<times> nat list) list \<times> 'c SubscriptionHub" where
  "receive_stores [] hub = ([], hub)"
| "receive_stores ((store, changes) # store_sets) hub =
     (let (items, hub1) = allocate changes hub; (rest, hub2) = receive_stores store_sets hub1 in ((store, items) # rest, hub2))"

definition handleMessage :: "'c callbacks \<Rightarrow> jsval \<Rightarrow> 'c SubscriptionHub \<Rightarrow> 'c SubscriptionHub" where
  "handleMessage cb payload hub =
     (case isCommitAppliedEvent payload of
        None \<Rightarrow> hub
      | Some (db, txid, store_sets) \<Rightarrow>
          if db \<noteq> hub_dbName hub \<or> hub_entries hub = [] then hub
          else let (received, hub1) = receive_stores store_sets hub
               in fold (deliver_store cb (hub_entries hub) txid) received hub1)"

section \<open>Views\<close>

lemma key_prefix_from_iff:
  "index + n \<le> length key \<Longrightarrow> index + n \<le> length prefix \<Longrightarrow>
     key_prefix_from key prefix index n \<longleftrightarrow> take n (drop index key) = take n (drop index prefix)"
proof (induction n arbitrary: index)
  case 0
  then show ?case by simp
next
  case (Suc n)
  then have "drop index key = key ! index # drop (Suc index) key" "drop index prefix = prefix ! index # drop (Suc index) prefix"
    by (simp_all add: Cons_nth_drop_Suc)
  then show ?case using Suc by (simp add: read_at_def)
qed

lemma hasKeyPrefix_iff: "hasKeyPrefix key p \<longleftrightarrow> take (length p) key = p"
proof (cases "length key < length p")
  case True
  then show ?thesis by (auto simp: hasKeyPrefix_def)
next
  case False
  then show ?thesis using key_prefix_from_iff [of 0 "length p" key p] by (simp add: hasKeyPrefix_def)
qed

lemma prefixBytesOverlap_iff:
  "prefixBytesOverlap l r \<longleftrightarrow> take (min (length l) (length r)) l = take (min (length l) (length r)) r"
  unfolding prefixBytesOverlap_def by (subst key_prefix_from_iff) (simp_all only: add_0 min.cobounded1 min.cobounded2 drop0)

lemma common_key_overlap:
  assumes "hasKeyPrefix key l" and "hasKeyPrefix key r"
  shows "prefixBytesOverlap l r"
proof -
  let ?n = "min (length l) (length r)"
  have "take ?n (take (length l) key) = take ?n key" "take ?n (take (length r) key) = take ?n key"
    by simp_all
  then show ?thesis using assms unfolding hasKeyPrefix_iff prefixBytesOverlap_iff by (simp only:)
qed

lemma includesStoreLevelChange_iff:
  "includesStoreLevelChange cs \<longleftrightarrow> (\<exists>c\<in>set cs. change_kind c = ClearChange \<or> change_kind c = DropChange)"
  by (induction cs) auto

text \<open>The reference: what a listener with a prefix sees of the changes.\<close>

definition in_view :: "bytes option \<Rightarrow> DbChange \<Rightarrow> bool" where
  "in_view prefix change = (case prefix of None \<Rightarrow> True | Some p \<Rightarrow> matchesPrefix change p)"

lemma disjoint_views:
  assumes "\<not> viewsIntersect l r (includesStoreLevelChange cs)" and "c \<in> set cs"
  shows "\<not> (in_view l c \<and> in_view r c)"
proof -
  obtain p q where "l = Some p" "r = Some q" "\<not> prefixBytesOverlap p q" "\<not> includesStoreLevelChange cs"
    using assms(1) by (auto simp: viewsIntersect_def split: option.splits if_splits)
  then show ?thesis
    using assms(2) common_key_overlap by (auto simp: in_view_def matchesPrefix_def includesStoreLevelChange_iff)
qed

lemma shared_loop_eq:
  defines "f \<equiv> \<lambda>objs p. filter (\<lambda>a. matchesPrefix (objs a) p)"
  assumes "selected = (if f objs p seen = seen then None else Some (f objs p seen)) \<or> selected = Some (f objs p seen) \<and> f objs p seen \<noteq> seen"
  shows "shared_loop objs p seen changes selected =
    (if f objs p (seen @ changes) = seen @ changes then None else Some (f objs p (seen @ changes)))"
  using assms(2)
proof (induction changes arbitrary: seen selected)
  case Nil
  then show ?case by auto
next
  case (Cons c cs)
  let ?f = "f objs p"
  have short: "?f seen \<noteq> seen @ [c]"
    unfolding f_def by (metis length_append_singleton length_filter_le not_less_eq_eq order_refl)
  have step: "?f (seen @ [c]) = (if matchesPrefix (objs c) p then ?f seen @ [c] else ?f seen)" by (simp add: f_def)
  show ?case using Cons.IH [of _ "seen @ [c]"] Cons.prems short step by (auto split: if_splits)
qed

lemma sharedChanges_eq:
  "sharedChanges objs changes prefix =
     (let items = filter (\<lambda>a. in_view prefix (objs a)) changes in
      if prefix \<noteq> None \<and> items = [] then None else Some (items = changes, items))"
proof (cases prefix)
  case None
  then show ?thesis by (simp add: sharedChanges_def in_view_def)
next
  case (Some p)
  then show ?thesis using shared_loop_eq [of None objs p "[]" changes]
    by (auto simp: sharedChanges_def in_view_def Let_def)
qed

section \<open>What callbacks may do\<close>

text \<open>
  A callback may use the hub and change the objects it was given; it has no reference to other change
  objects.
\<close>

inductive user_effect :: "nat set \<Rightarrow> 'c SubscriptionHub \<Rightarrow> 'c SubscriptionHub \<Rightarrow> bool" for S h where
  nothing: "user_effect S h h"
| subscribes: "user_effect S h h1 \<Longrightarrow> subscribe a b c h1 = (r, h2) \<Longrightarrow> user_effect S h h2"
| unsubscribes: "user_effect S h h1 \<Longrightarrow> i < next_entry h1 \<Longrightarrow> user_effect S h (unsubscribe i h1)"
| closes: "user_effect S h h1 \<Longrightarrow> user_effect S h (close_hub h1)"
| writes: "user_effect S h h1 \<Longrightarrow> a \<in> S \<Longrightarrow> user_effect S h (h1\<lparr>change_objects := (change_objects h1)(a := v)\<rparr>)"

definition lawful_callbacks :: "'c callbacks \<Rightarrow> bool" where
  "lawful_callbacks cb \<longleftrightarrow> (\<forall>c store items txid h. user_effect (set items) h (snd (cb c store items txid h)))"

text \<open>The data of an entry that never changes.\<close>

abbreviation entry_data :: "'c SubscriptionHub \<Rightarrow> nat \<Rightarrow> jsstring option \<times> bytes option \<times> 'c" where
  "entry_data h i \<equiv> (entry_store (entry_table h i), keyPrefix (entry_table h i), entry_callback (entry_table h i))"

text \<open>
  What a hub keeps while callbacks run: change objects outside the given set, the data of its entries,
  and that an entry once inactive stays inactive.
\<close>

definition keeps :: "nat set \<Rightarrow> 'c SubscriptionHub \<Rightarrow> 'c SubscriptionHub \<Rightarrow> bool" where
  "keeps S h h' \<longleftrightarrow> next_object h \<le> next_object h' \<and>
     (\<forall>a. a < next_object h \<longrightarrow> a \<notin> S \<longrightarrow> change_objects h' a = change_objects h a) \<and>
     hub_dbName h' = hub_dbName h \<and> next_entry h \<le> next_entry h' \<and>
     (\<forall>i < next_entry h. entry_data h' i = entry_data h i \<and> (active (entry_table h' i) \<longrightarrow> active (entry_table h i)))"

lemma keeps_refl [simp]: "keeps S h h"
  by (simp add: keeps_def)

lemma keeps_trans: "keeps S h h1 \<Longrightarrow> keeps T h1 h2 \<Longrightarrow> keeps (S \<union> T) h h2"
  unfolding keeps_def by (smt (verit, best) Un_iff dual_order.trans order_less_le_trans)

lemma keeps_mono: "keeps S h h1 \<Longrightarrow> S \<subseteq> T \<Longrightarrow> keeps T h h1"
  by (auto simp: keeps_def)

lemma fold_deactivate:
  "fold deactivate es h = h\<lparr>entry_table := (\<lambda>i. if i \<in> set es then (entry_table h i)\<lparr>active := False\<rparr> else entry_table h i)\<rparr>"
  by (induction es arbitrary: h) (auto simp: deactivate_def fun_eq_iff)

lemma subscribe_keeps: "subscribe a b c h = (r, h') \<Longrightarrow> keeps S h h' \<and> calls h' = calls h"
  by (auto simp: subscribe_def keeps_def ensureChannel_def Let_def split: if_splits sum.splits prod.splits)

lemma unsubscribe_keeps: "keeps S h (unsubscribe i h) \<and> calls (unsubscribe i h) = calls h"
  by (auto simp: unsubscribe_def deactivate_def disposeChannel_def keeps_def Let_def)

lemma close_keeps: "keeps S h (close_hub h) \<and> calls (close_hub h) = calls h"
  by (auto simp: close_hub_def fold_deactivate disposeChannel_def keeps_def Let_def)

lemma user_effect_keeps: "user_effect S h h' \<Longrightarrow> keeps S h h' \<and> calls h' = calls h"
proof (induction rule: user_effect.induct)
  case nothing
  then show ?case by simp
next
  case (subscribes h1 a b c r h2)
  then show ?case using subscribe_keeps [of a b c h1 r h2 S] keeps_trans [of S h h1 S h2] by simp
next
  case (unsubscribes h1 i)
  then show ?case using unsubscribe_keeps [of S h1 i] keeps_trans [of S h h1 S] by simp
next
  case (closes h1)
  then show ?case using close_keeps [of S h1] keeps_trans [of S h h1 S] by simp
next
  case (writes h1 a v)
  then show ?case by (auto simp: keeps_def)
qed

section \<open>The invariant of the hub\<close>

text \<open>
  The entries are exactly the active ones, a channel is open exactly while there are entries, and a
  closed hub has none.
\<close>

definition hub_inv :: "'c SubscriptionHub \<Rightarrow> bool" where
  "hub_inv h \<longleftrightarrow> distinct (hub_entries h) \<and>
     set (hub_entries h) = {i. i < next_entry h \<and> active (entry_table h i)} \<and>
     (channel_open h \<longleftrightarrow> hub_entries h \<noteq> []) \<and> (hub_closed h \<longrightarrow> hub_entries h = [])"

definition new_hub :: "jsstring \<Rightarrow> 'c SubscriptionEntry \<Rightarrow> 'c SubscriptionHub" where
  "new_hub db unused = \<lparr> hub_dbName = db, channel_open = False, hub_entries = [], entry_table = (\<lambda>_. unused),
     next_entry = 0, hub_closed = False, change_objects = (\<lambda>_. \<lparr> change_key = [], change_kind = PutChange \<rparr>),
     next_object = 0, calls = [], rethrown = 0 \<rparr>"

lemma hub_inv_fields [simp]:
  "hub_inv (h\<lparr>change_objects := f\<rparr>) = hub_inv h" "hub_inv (h\<lparr>next_object := n\<rparr>) = hub_inv h"
  "hub_inv (h\<lparr>calls := c\<rparr>) = hub_inv h" "hub_inv (h\<lparr>rethrown := n\<rparr>) = hub_inv h"
  by (simp_all add: hub_inv_def)

lemma hub_invD:
  assumes "hub_inv h"
  shows "distinct (hub_entries h)" "i \<in> set (hub_entries h) \<longleftrightarrow> i < next_entry h \<and> active (entry_table h i)"
    "channel_open h \<longleftrightarrow> hub_entries h \<noteq> []" "hub_closed h \<Longrightarrow> hub_entries h = []"
  using assms unfolding hub_inv_def by blast+

lemma hub_invI:
  assumes "distinct (hub_entries h)" "\<And>i. i \<in> set (hub_entries h) \<longleftrightarrow> i < next_entry h \<and> active (entry_table h i)"
    "channel_open h \<longleftrightarrow> hub_entries h \<noteq> []" "hub_closed h \<Longrightarrow> hub_entries h = []"
  shows "hub_inv h"
  using assms unfolding hub_inv_def by blast

lemma close_inv:
  assumes "hub_inv h"
  shows "hub_inv (close_hub h)"
proof (cases "hub_closed h")
  case False
  then show ?thesis
    by (intro hub_invI) (simp_all add: close_hub_def fold_deactivate disposeChannel_def Let_def hub_invD(2) [OF assms])
qed (simp add: close_hub_def assms)

lemma subscribe_inv:
  assumes "hub_inv h" and "subscribe a b c h = (r, h')"
  shows "hub_inv h'"
proof (cases "hub_closed h \<or> (\<exists>e. normalizeSubscriptionSpec a b c = Inl e)")
  case True
  then have "h' = h" using assms(2) by (auto simp: subscribe_def split: if_splits)
  then show ?thesis using assms(1) by simp
next
  case False
  then obtain store prefix callback where "normalizeSubscriptionSpec a b c = Inr (store, prefix, callback)" "\<not> hub_closed h"
    by (metis old.sum.exhaust prod_cases3)
  then have h': "hub_entries h' = hub_entries h @ [next_entry h]" "next_entry h' = Suc (next_entry h)" "channel_open h'"
      "\<not> hub_closed h'" "entry_table h' = (entry_table h)(next_entry h := \<lparr> active = True, entry_store = store,
        keyPrefix = prefix, entry_callback = callback \<rparr>)"
    using assms(2) by (auto simp: subscribe_def ensureChannel_def Let_def split: if_splits)
  show ?thesis
    by (rule hub_invI) (simp_all add: h' hub_invD(1) [OF assms(1)] hub_invD(2) [OF assms(1)] less_Suc_eq)
qed

lemma unsubscribe_inv:
  assumes "hub_inv h" and "i < next_entry h"
  shows "hub_inv (unsubscribe i h)"
proof (cases "active (entry_table h i)")
  case True
  define es where "es = filter (\<lambda>e. e \<noteq> i) (hub_entries h)"
  have h': "hub_entries (unsubscribe i h) = es" "next_entry (unsubscribe i h) = next_entry h"
      "channel_open (unsubscribe i h) \<longleftrightarrow> es \<noteq> [] \<and> channel_open h" "hub_closed (unsubscribe i h) = hub_closed h"
      "entry_table (unsubscribe i h) = (entry_table h)(i := (entry_table h i)\<lparr>active := False\<rparr>)"
    using True by (auto simp: unsubscribe_def deactivate_def disposeChannel_def Let_def es_def)
  have "hub_entries h \<noteq> []" using hub_invD(2) [OF assms(1), of i] assms(2) True by auto
  then have "channel_open h" "\<not> hub_closed h" using hub_invD(3,4) [OF assms(1)] by blast+
  moreover have "distinct es" "j \<in> set es \<longleftrightarrow> j < next_entry h \<and> active (entry_table h j) \<and> j \<noteq> i" for j
    using hub_invD(1) [OF assms(1)] by (simp_all add: es_def hub_invD(2) [OF assms(1)])
  ultimately show ?thesis by (intro hub_invI) (simp_all add: h')
next
  case False
  then show ?thesis using assms by (simp add: unsubscribe_def)
qed
lemma user_effect_inv: "user_effect S h h' \<Longrightarrow> hub_inv h \<Longrightarrow> hub_inv h'"
  by (induction rule: user_effect.induct) (auto intro: subscribe_inv unsubscribe_inv close_inv)

lemma allocate_inv: "allocate cs h = (items, h') \<Longrightarrow> hub_inv h' = hub_inv h"
  by (auto simp: allocate_def Let_def)

lemma clone_pass_inv: "clone_pass b ds h = (ds', h') \<Longrightarrow> hub_inv h' = hub_inv h"
proof (induction ds arbitrary: h ds')
  case Nil
  then show ?case by simp
next
  case (Cons d ds)
  then show ?case by (auto simp: Let_def cloneChanges_def split: if_splits prod.splits dest: allocate_inv)
qed

lemma run_deliveries_inv:
  assumes "lawful_callbacks cb"
  shows "hub_inv h \<Longrightarrow> hub_inv (run_deliveries cb store txid ds h)"
proof (induction ds arbitrary: h)
  case Nil
  then show ?case by simp
next
  case (Cons d ds)
  have "hub_inv h2" if "cb c s items t (h\<lparr>calls := l\<rparr>) = (threw, h2)" for c s items t l threw h2
    using assms user_effect_inv [of "set items" "h\<lparr>calls := l\<rparr>" h2] Cons.prems that
    unfolding lawful_callbacks_def by (metis hub_inv_fields(3) snd_conv)
  then show ?case using Cons by (auto simp: Let_def split: prod.splits)
qed

lemma deliver_store_inv: "lawful_callbacks cb \<Longrightarrow> hub_inv h \<Longrightarrow> hub_inv (deliver_store cb snapshot txid sc h)"
  by (cases sc) (auto simp: deliver_store_def Let_def run_deliveries_inv clone_pass_inv split: prod.splits)

lemma receive_stores_inv: "receive_stores sets h = (received, h') \<Longrightarrow> hub_inv h' = hub_inv h"
  by (induction sets h arbitrary: received rule: receive_stores.induct)
    (auto simp: Let_def split: prod.splits dest: allocate_inv)

lemma handleMessage_inv: 
  assumes "lawful_callbacks cb" and "hub_inv h"
  shows "hub_inv (handleMessage cb payload h)"
proof -
  have *: "hub_inv h \<Longrightarrow> hub_inv (fold (deliver_store cb es txid) rs h)" for es txid rs h
    by (induction rs arbitrary: h) (simp_all add: deliver_store_inv [OF assms(1)])
  show ?thesis using assms(2)
    by (auto simp: handleMessage_def Let_def * receive_stores_inv split: option.splits prod.splits)
qed

text \<open>The states a hub reaches under any sequence of calls and messages.\<close>

inductive hub_reachable :: "'c callbacks \<Rightarrow> 'c SubscriptionHub \<Rightarrow> bool" for cb where
  initial: "hub_reachable cb (new_hub db unused)"
| subscribed: "hub_reachable cb h \<Longrightarrow> subscribe a b c h = (r, h') \<Longrightarrow> hub_reachable cb h'"
| unsubscribed: "hub_reachable cb h \<Longrightarrow> i < next_entry h \<Longrightarrow> hub_reachable cb (unsubscribe i h)"
| closed: "hub_reachable cb h \<Longrightarrow> hub_reachable cb (close_hub h)"
| message: "hub_reachable cb h \<Longrightarrow> hub_reachable cb (handleMessage cb payload h)"

lemma reachable_inv: "hub_reachable cb h \<Longrightarrow> lawful_callbacks cb \<Longrightarrow> hub_inv h"
proof (induction rule: hub_reachable.induct)
  case (initial db unused)
  then show ?case by (simp add: new_hub_def hub_inv_def)
qed (auto intro: subscribe_inv unsubscribe_inv close_inv handleMessage_inv)

section \<open>Delivery\<close>

abbreviation calls_of :: "nat \<Rightarrow> call list \<Rightarrow> call list" where
  "calls_of i cs \<equiv> filter (\<lambda>c. fst c = i) cs"

text \<open>
  The new calls of an entry are the expected ones, up to the point where the entry became inactive.
\<close>

definition calls_ok :: "'c SubscriptionHub \<Rightarrow> 'c SubscriptionHub \<Rightarrow> call list \<Rightarrow> nat \<Rightarrow> call list \<Rightarrow> bool" where
  "calls_ok h h' new i expected \<longleftrightarrow>
     (\<exists>rest. expected = calls_of i new @ rest \<and> (active (entry_table h' i) \<longrightarrow> rest = [])) \<and>
     (\<not> active (entry_table h i) \<longrightarrow> calls_of i new = [])"

lemma run_deliveries_calls:
  assumes "lawful_callbacks cb"
  shows "sorted_wrt (\<lambda>d e. set (d_changes d) \<inter> set (d_changes e) = {}) ds \<Longrightarrow> distinct (map d_entry ds) \<Longrightarrow>
    \<forall>d\<in>set ds. d_entry d < next_entry h \<and> (\<forall>a\<in>set (d_changes d). a < next_object h) \<Longrightarrow>
    \<exists>new. calls (run_deliveries cb store txid ds h) = calls h @ new \<and>
      keeps (\<Union>d\<in>set ds. set (d_changes d)) h (run_deliveries cb store txid ds h) \<and>
      (\<forall>d\<in>set ds. calls_ok h (run_deliveries cb store txid ds h) new (d_entry d)
         [(d_entry d, store, map (change_objects h) (d_changes d), txid)]) \<and>
      (\<forall>i. i \<notin> d_entry ` set ds \<longrightarrow> calls_of i new = [])"
proof (induction ds arbitrary: h)
  case Nil
  then show ?case by simp
next
  case (Cons d ds)
  let ?i = "d_entry d" and ?call = "(d_entry d, store, map (change_objects h) (d_changes d), txid)"
  define called where "called = active (entry_table h ?i)"
  define h0 where "h0 = h\<lparr>calls := calls h @ [?call]\<rparr>"
  obtain threw h1 where cb: "cb (entry_callback (entry_table h ?i)) store (d_changes d) txid h0 = (threw, h1)" by fastforce
  define h2 where "h2 = (if called then (if threw then h1\<lparr>rethrown := rethrown h1 + 1\<rparr> else h1) else h)"
  have run: "run_deliveries cb store txid (d # ds) h = run_deliveries cb store txid ds h2"
    using cb by (simp add: h2_def called_def h0_def Let_def)
  have "keeps (set (d_changes d)) h0 h1 \<and> calls h1 = calls h0"
    using assms cb user_effect_keeps unfolding lawful_callbacks_def by (metis snd_conv)
  then have k: "keeps (set (d_changes d)) h h2" "calls h2 = calls h @ (if called then [?call] else [])"
    by (auto simp: h2_def h0_def keeps_def)
  have "\<forall>e\<in>set ds. d_entry e < next_entry h2 \<and> (\<forall>a\<in>set (d_changes e). a < next_object h2)"
    using Cons.prems(3) k(1) by (fastforce simp: keeps_def)
  then obtain new where new: "calls (run_deliveries cb store txid ds h2) = calls h2 @ new"
      "keeps (\<Union>d\<in>set ds. set (d_changes d)) h2 (run_deliveries cb store txid ds h2)"
      "\<forall>e\<in>set ds. calls_ok h2 (run_deliveries cb store txid ds h2) new (d_entry e)
         [(d_entry e, store, map (change_objects h2) (d_changes e), txid)]"
      "\<forall>i. i \<notin> d_entry ` set ds \<longrightarrow> calls_of i new = []"
    using Cons.IH [of h2] Cons.prems(1,2) by auto
  let ?h' = "run_deliveries cb store txid ds h2" and ?new = "(if called then [?call] else []) @ new"
  have "keeps (set (d_changes d) \<union> (\<Union>d\<in>set ds. set (d_changes d))) h ?h'"
    using keeps_trans [OF k(1) new(2)] .
  moreover have "calls_ok h ?h' ?new ?i [?call]"
  proof -
    have "?i \<notin> d_entry ` set ds" using Cons.prems(2) by auto
    then have "calls_of ?i ?new = (if called then [?call] else [])" using new(4) by simp
    moreover have "active (entry_table ?h' ?i) \<longrightarrow> called"
      using keeps_trans [OF k(1) new(2)] Cons.prems(3) by (auto simp: keeps_def called_def)
    ultimately show ?thesis by (auto simp: calls_ok_def called_def)
  qed
  moreover have "calls_ok h ?h' ?new (d_entry e) [(d_entry e, store, map (change_objects h) (d_changes e), txid)]" if "e \<in> set ds" for e
  proof -
    have ne: "d_entry e \<noteq> ?i" using Cons.prems(2) that by (metis distinct.simps(2) image_eqI image_set list.simps(9))
    have "change_objects h2 a = change_objects h a" if "a \<in> set (d_changes e)" for a
      using k(1) that \<open>e \<in> set ds\<close> Cons.prems(1,3) by (fastforce simp: keeps_def)
    then have same: "map (change_objects h2) (d_changes e) = map (change_objects h) (d_changes e)" by simp
    have inactive: "active (entry_table h (d_entry e)) \<or> \<not> active (entry_table h2 (d_entry e))"
      using k(1) that Cons.prems(3) by (auto simp: keeps_def)
    have new_calls: "calls_of (d_entry e) ?new = calls_of (d_entry e) new" using ne by simp
    show ?thesis
      using bspec [OF new(3) that] inactive unfolding calls_ok_def new_calls same by blast
  qed
  moreover have "calls_of i ?new = []" if "i \<notin> d_entry ` set (d # ds)" for i
    using that new(4) by auto
  ultimately show ?case
    unfolding run using new(1) k(2) by (intro exI [of _ ?new]) auto
qed

lemma allocate_facts:
  assumes "allocate cs h = (items, h')"
  shows "items = [next_object h..<next_object h + length cs]" "map (change_objects h') items = cs"
    "next_object h' = next_object h + length cs" "keeps {} h h'" "calls h' = calls h" "entry_table h' = entry_table h"
    "next_entry h' = next_entry h" "hub_entries h' = hub_entries h"
  using assms by (auto simp: allocate_def Let_def keeps_def intro!: nth_equalityI)

lemma laterViewIntersects_iff:
  "laterViewIntersects h p ds b \<longleftrightarrow> (\<exists>e\<in>set ds. viewsIntersect p (keyPrefix (entry_table h (d_entry e))) b)"
  by (induction ds) auto

abbreviation prefix_of :: "'c SubscriptionHub \<Rightarrow> PendingDelivery \<Rightarrow> bytes option" where
  "prefix_of h d \<equiv> keyPrefix (entry_table h (d_entry d))"

definition same_view :: "'c SubscriptionHub \<Rightarrow> 'c SubscriptionHub \<Rightarrow> PendingDelivery \<Rightarrow> PendingDelivery \<Rightarrow> bool" where
  "same_view h h' d' d \<longleftrightarrow> d_entry d' = d_entry d \<and> map (change_objects h') (d_changes d') = map (change_objects h) (d_changes d) \<and>
     (d_changes d' = d_changes d \<or> (\<forall>a\<in>set (d_changes d'). next_object h \<le> a)) \<and> (\<forall>a\<in>set (d_changes d'). a < next_object h')"

abbreviation unshared :: "PendingDelivery list \<Rightarrow> bool" where
  "unshared \<equiv> sorted_wrt (\<lambda>d e. set (d_changes d) \<inter> set (d_changes e) = {})"

definition isolated :: "'c SubscriptionHub \<Rightarrow> 'c SubscriptionHub \<Rightarrow> PendingDelivery list \<Rightarrow> PendingDelivery list \<Rightarrow> bool" where
  "isolated h h' ds' ds \<longleftrightarrow> keeps {} h h' \<and> calls h' = calls h \<and> entry_table h' = entry_table h \<and> next_entry h' = next_entry h \<and>
     list_all2 (same_view h h') ds' ds \<and> unshared ds'"

lemma isolatedD:
  assumes "isolated h h' ds' ds"
  shows "keeps {} h h'" "calls h' = calls h" "entry_table h' = entry_table h" "next_entry h' = next_entry h" "unshared ds'"
    "map d_entry ds' = map d_entry ds" "d' \<in> set ds' \<Longrightarrow> \<exists>d\<in>set ds. same_view h h' d' d"
proof -
  have views: "list_all2 (same_view h h') ds' ds" using assms by (simp add: isolated_def)
  then show "map d_entry ds' = map d_entry ds" by (auto simp: same_view_def list_all2_conv_all_nth intro: nth_equalityI)
  show "\<exists>d\<in>set ds. same_view h h' d' d" if "d' \<in> set ds'"
    using views that by (auto simp: list_all2_conv_all_nth in_set_conv_nth) (metis nth_mem)
qed (use assms in \<open>simp_all add: isolated_def\<close>)

lemma same_view_later: "same_view h h1 d' d \<Longrightarrow> keeps {} h1 h2 \<Longrightarrow> same_view h h2 d' d"
  unfolding same_view_def keeps_def by (smt (verit, best) empty_iff map_eq_conv order_less_le_trans)

lemma same_view_earlier:
  assumes "keeps {} h h1" and "\<forall>a\<in>set (d_changes d). a < next_object h" and "same_view h1 h2 d' d"
  shows "same_view h h2 d' d"
proof -
  have "map (change_objects h1) (d_changes d) = map (change_objects h) (d_changes d)" "next_object h \<le> next_object h1"
    using assms(1,2) by (auto simp: keeps_def)
  then show ?thesis using assms(3) by (fastforce simp: same_view_def)
qed

text \<open>
  After the cloning pass no two deliveries share a change object, and every delivery still shows the
  contents it showed before.
\<close>

lemma clone_pass_isolates:
  "clone_pass b ds h = (ds', h') \<Longrightarrow> \<forall>d\<in>set ds. \<forall>a\<in>set (d_changes d). a < next_object h \<Longrightarrow>
   sorted_wrt (\<lambda>d e. viewsIntersect (prefix_of h d) (prefix_of h e) b \<or> set (d_changes d) \<inter> set (d_changes e) = {}) ds \<Longrightarrow>
   isolated h h' ds' ds"
proof (induction ds arbitrary: h ds' h')
  case Nil
  then show ?case by (simp add: isolated_def)
next
  case (Cons d ds)
  define copied where "copied = laterViewIntersects h (prefix_of h d) ds b"
  obtain items hc where clone: "cloneChanges (d_changes d) h = (items, hc)" by fastforce
  note alloc = allocate_facts [OF clone [unfolded cloneChanges_def]]
  define d1 h1 where "d1 = (if copied then d\<lparr>d_shared := False, d_changes := items\<rparr> else d)" and "h1 = (if copied then hc else h)"
  obtain ds1 h2 where rest: "clone_pass b ds h1 = (ds1, h2)" by fastforce
  have result: "ds' = d1 # ds1" "h' = h2"
    using Cons.prems(1) clone rest by (auto simp: copied_def d1_def h1_def Let_def split: if_splits)
  have h1: "keeps {} h h1" "calls h1 = calls h" "entry_table h1 = entry_table h" "next_entry h1 = next_entry h"
      "next_object h \<le> next_object h1"
    using alloc by (auto simp: h1_def)
  have "\<forall>e\<in>set ds. \<forall>a\<in>set (d_changes e). a < next_object h1" using Cons.prems(2) h1(5) by fastforce
  then have IH: "isolated h1 h2 ds1 ds" using Cons.IH [OF rest] Cons.prems(3) by (simp add: h1(3))
  have d1: "same_view h h1 d1 d" using alloc Cons.prems(2) by (auto simp: same_view_def d1_def h1_def)
  have head: "same_view h h2 d1 d" using same_view_later [OF d1 isolatedD(1) [OF IH]] .
  have tail: "list_all2 (same_view h h2) ds1 ds"
    using IH [unfolded isolated_def] Cons.prems(2) same_view_earlier [OF h1(1)]
    by (auto elim!: list.rel_mono_strong)
  have disjoint: "set (d_changes d1) \<inter> set (d_changes e1) = {}" if e1: "e1 \<in> set ds1" for e1
  proof -
    obtain e where e: "e \<in> set ds" "d_changes e1 = d_changes e \<or> (\<forall>a\<in>set (d_changes e1). next_object h1 \<le> a)"
      using isolatedD(7) [OF IH e1] by (auto simp: same_view_def)
    have "set (d_changes d1) \<inter> set (d_changes e) = {}"
    proof (cases copied)
      case True
      then have "\<forall>a\<in>set (d_changes d1). next_object h \<le> a" using alloc(1) by (auto simp: d1_def)
      then show ?thesis using Cons.prems(2) e(1) by fastforce
    next
      case False
      then show ?thesis using Cons.prems(3) e(1) by (auto simp: copied_def d1_def laterViewIntersects_iff)
    qed
    moreover have "\<forall>a\<in>set (d_changes d1). a < next_object h1" using d1 by (simp add: same_view_def)
    ultimately show ?thesis using e(2) by fastforce
  qed
  have "keeps {} h h2" using keeps_trans [OF h1(1) isolatedD(1) [OF IH]] by simp
  then show ?case using IH h1(2-4) head tail disjoint by (auto simp: result isolated_def)
qed

text \<open>The calls a listener is owed for one store of a commit.\<close>

definition store_calls :: "jsstring option \<times> bytes option \<times> 'c \<Rightarrow> jsstring \<Rightarrow> DbChange list \<Rightarrow> f64 \<Rightarrow> nat \<Rightarrow> call list" where
  "store_calls entry store changes txid i =
     (case entry of (wanted, prefix, _) \<Rightarrow>
        let seen = filter (in_view prefix) changes in
        if (wanted = None \<or> wanted = Some store) \<and> (prefix = None \<or> seen \<noteq> []) then [(i, store, seen, txid)] else [])"

lemma pending_cases:
  "pending h store cs i =
     (if active (entry_table h i) \<and> store_calls (entry_data h i) store (map (change_objects h) cs) txid i \<noteq> []
      then [\<lparr> d_entry = i, d_shared = (filter (\<lambda>a. in_view (keyPrefix (entry_table h i)) (change_objects h a)) cs = cs),
              d_changes = filter (\<lambda>a. in_view (keyPrefix (entry_table h i)) (change_objects h a)) cs \<rparr>]
      else [])"
  by (auto simp: pending_def sharedChanges_eq store_calls_def Let_def filter_map comp_def split: option.splits)

lemma in_pendings:
  assumes "d \<in> set (concat (map (pending h store cs) snapshot))"
  shows "d_entry d \<in> set snapshot" "active (entry_table h (d_entry d))"
    "d_changes d = filter (\<lambda>a. in_view (prefix_of h d) (change_objects h a)) cs"
    "store_calls (entry_data h (d_entry d)) store (map (change_objects h) cs) txid (d_entry d) =
       [(d_entry d, store, map (change_objects h) (d_changes d), txid)]"
  using assms by (auto simp: pending_cases [where txid = txid] store_calls_def Let_def filter_map comp_def split: if_splits)

lemma pending_entries: "map d_entry (concat (map (pending h store cs) snapshot)) = filter (\<lambda>i. pending h store cs i \<noteq> []) snapshot"
  by (induction snapshot) (auto simp: pending_cases [where txid = 0])

lemma sorted_wrt_pairs: "(\<And>x y. x \<in> set xs \<Longrightarrow> y \<in> set xs \<Longrightarrow> P x y) \<Longrightarrow> sorted_wrt P xs"
  by (induction xs) auto

lemma keeps_allocated:
  assumes "keeps {} h h1" and "keeps T h1 h2" and "\<And>a. a \<in> T \<Longrightarrow> a < next_object h \<Longrightarrow> a \<in> S"
  shows "keeps S h h2"
  using keeps_trans [OF assms(1,2)] assms(3) by (auto simp: keeps_def)

lemma deliver_store_calls:
  assumes "lawful_callbacks cb" and "distinct snapshot" and "\<forall>i\<in>set snapshot. i < next_entry h"
    and "\<forall>a\<in>set cs. a < next_object h"
    and h'_def: "h' = deliver_store cb snapshot txid (store, cs) h"
  shows "\<exists>new. calls h' = calls h @ new \<and> keeps (set cs) h h' \<and>
    (\<forall>i\<in>set snapshot. calls_ok h h' new i (store_calls (entry_data h i) store (map (change_objects h) cs) txid i)) \<and>
    (\<forall>i. i \<notin> set snapshot \<longrightarrow> calls_of i new = [])"
proof -
  let ?b = "includesStoreLevelChange (map (change_objects h) cs)"
  define ds where "ds = concat (map (pending h store cs) snapshot)"
  have ds: "d_entry d \<in> set snapshot" "active (entry_table h (d_entry d))"
      "d_changes d = filter (\<lambda>a. in_view (prefix_of h d) (change_objects h a)) cs"
      "store_calls (entry_data h (d_entry d)) store (map (change_objects h) cs) txid (d_entry d) =
         [(d_entry d, store, map (change_objects h) (d_changes d), txid)]" if "d \<in> set ds" for d
    using that unfolding ds_def by (rule in_pendings)+
  obtain ds' h1 where clone: "(if length ds > 1 then clone_pass ?b ds h else (ds, h)) = (ds', h1)" by fastforce
  have run: "h' = run_deliveries cb store txid ds' h1"
    using clone by (auto simp: h'_def deliver_store_def ds_def [symmetric] Let_def split: if_splits)
  have bounds: "\<forall>d\<in>set ds. \<forall>a\<in>set (d_changes d). a < next_object h" using ds(3) assms(4) by auto
  have apart: "sorted_wrt (\<lambda>d e. viewsIntersect (prefix_of h d) (prefix_of h e) ?b \<or> set (d_changes d) \<inter> set (d_changes e) = {}) ds"
  proof (rule sorted_wrt_pairs)
    fix d e assume "d \<in> set ds" "e \<in> set ds"
    then show "viewsIntersect (prefix_of h d) (prefix_of h e) ?b \<or> set (d_changes d) \<inter> set (d_changes e) = {}"
      using disjoint_views [of "prefix_of h d" "prefix_of h e" "map (change_objects h) cs"] ds(3) by auto
  qed
  have iso: "isolated h h1 ds' ds"
  proof (cases "length ds > 1")
    case True
    then show ?thesis using clone_pass_isolates [of ?b ds h ds' h1] clone bounds apart by simp
  next
    case False
    then have "ds = [] \<or> (\<exists>d. ds = [d])" by (cases ds) auto
    then show ?thesis using False clone bounds by (auto simp: isolated_def same_view_def)
  qed
  note pair = isolatedD(7) [OF iso, unfolded same_view_def] and entries = isolatedD(6) [OF iso]
  have "distinct (map d_entry ds')"
    unfolding entries ds_def pending_entries using assms(2) by simp
  moreover have "\<forall>d\<in>set ds'. d_entry d < next_entry h1 \<and> (\<forall>a\<in>set (d_changes d). a < next_object h1)"
    using pair ds(1) assms(3) by (fastforce simp: isolatedD(4) [OF iso])
  ultimately obtain new where new: "calls h' = calls h1 @ new" "keeps (\<Union>d\<in>set ds'. set (d_changes d)) h1 h'"
      "\<forall>d\<in>set ds'. calls_ok h1 h' new (d_entry d) [(d_entry d, store, map (change_objects h1) (d_changes d), txid)]"
      "\<forall>i. i \<notin> d_entry ` set ds' \<longrightarrow> calls_of i new = []"
    using run_deliveries_calls [OF assms(1) isolatedD(5) [OF iso], of h1 store txid] unfolding run by blast
  have keep: "keeps (set cs) h h'"
  proof (rule keeps_allocated [OF isolatedD(1) [OF iso] new(2)])
    fix a assume "a \<in> (\<Union>d\<in>set ds'. set (d_changes d))" "a < next_object h"
    then obtain d where "d \<in> set ds" "a \<in> set (d_changes d)" using pair by fastforce
    then show "a \<in> set cs" using ds(3) by auto
  qed
  have ok: "calls_ok h h' new i (store_calls (entry_data h i) store (map (change_objects h) cs) txid i)" if i: "i \<in> set snapshot" for i
  proof (cases "i \<in> d_entry ` set ds'")
    case True
    then obtain d' where d': "d' \<in> set ds'" "i = d_entry d'" by blast
    then obtain d where d: "d \<in> set ds" "d_entry d' = d_entry d"
        "map (change_objects h1) (d_changes d') = map (change_objects h) (d_changes d)"
      using pair by blast
    then have "store_calls (entry_data h i) store (map (change_objects h) cs) txid i =
        [(d_entry d', store, map (change_objects h1) (d_changes d'), txid)]"
      using ds(4) [OF d(1)] d' by simp
    then show ?thesis using new(3) d' by (simp add: calls_ok_def isolatedD(3) [OF iso])
  next
    case False
    then have none: "calls_of i new = []" using new(4) by blast
    have "i \<notin> set (map d_entry ds)" using False unfolding entries [symmetric] by simp
    then have "pending h store cs i = []" using i unfolding ds_def pending_entries by simp
    then have "\<not> active (entry_table h i) \<or> store_calls (entry_data h i) store (map (change_objects h) cs) txid i = []"
      by (auto simp: pending_cases [where txid = txid] split: if_splits)
    moreover have "active (entry_table h' i) \<longrightarrow> active (entry_table h i)" using keep assms(3) i by (simp add: keeps_def)
    ultimately show ?thesis using none by (auto simp: calls_ok_def)
  qed
  have "calls_of i new = []" if "i \<notin> set snapshot" for i
  proof -
    have "i \<notin> set (map d_entry ds)" using ds(1) that by auto
    then show ?thesis using new(4) unfolding entries [symmetric] by simp
  qed
  then show ?thesis using new(1) isolatedD(2) [OF iso] keep ok by auto
qed

text \<open>The objects of a received message are new and not shared between its stores.\<close>

lemma receive_facts:
  "receive_stores sets h = (received, h') \<Longrightarrow>
     keeps {} h h' \<and> calls h' = calls h \<and> entry_table h' = entry_table h \<and> next_entry h' = next_entry h \<and>
     map (\<lambda>(store, items). (store, map (change_objects h') items)) received = sets \<and>
     (\<forall>(store, items)\<in>set received. \<forall>a\<in>set items. next_object h \<le> a \<and> a < next_object h') \<and>
     sorted_wrt (\<lambda>r q. set (snd r) \<inter> set (snd q) = {}) received"
proof (induction sets h arbitrary: received h' rule: receive_stores.induct)
  case (1 h)
  then show ?case by simp
next
  case (2 store changes sets h)
  obtain items h1 where alloc: "allocate changes h = (items, h1)" by fastforce
  obtain rest h2 where rest: "receive_stores sets h1 = (rest, h2)" by fastforce
  have result: "received = (store, items) # rest" "h' = h2" using "2.prems" alloc rest by (simp_all add: Let_def)
  note facts = allocate_facts [OF alloc]
  have IH: "keeps {} h1 h2" "calls h2 = calls h1" "entry_table h2 = entry_table h1" "next_entry h2 = next_entry h1"
      "map (\<lambda>(store, items). (store, map (change_objects h2) items)) rest = sets"
      "\<forall>(store, items)\<in>set rest. \<forall>a\<in>set items. next_object h1 \<le> a \<and> a < next_object h2"
      "sorted_wrt (\<lambda>r q. set (snd r) \<inter> set (snd q) = {}) rest"
    using "2.IH" [OF alloc [symmetric] refl rest] by blast+
  have items: "\<forall>a\<in>set items. next_object h \<le> a \<and> a < next_object h1" using facts(1,3) by auto
  then have "map (change_objects h2) items = map (change_objects h1) items" using IH(1) by (auto simp: keeps_def)
  then have "map (change_objects h2) items = changes" using facts(2) by simp
  moreover have "next_object h \<le> next_object h1" "next_object h1 \<le> next_object h2" using facts(3) IH(1) by (auto simp: keeps_def)
  moreover have "keeps {} h h2" using keeps_trans [OF facts(4) IH(1)] by simp
  moreover have "set items \<inter> set (snd q) = {}" if "q \<in> set rest" for q
    using IH(6) items that by fastforce
  ultimately show ?case using IH facts(5-7) items by (fastforce simp: result)
qed

lemma calls_ok_append:
  assumes "calls_ok h h1 new1 i e1" and "calls_ok h1 h2 new2 i e2"
    and "active (entry_table h1 i) \<longrightarrow> active (entry_table h i)" and "active (entry_table h2 i) \<longrightarrow> active (entry_table h1 i)"
  shows "calls_ok h h2 (new1 @ new2) i (e1 @ e2)"
proof -
  obtain r1 r2 where "e1 = calls_of i new1 @ r1" "e2 = calls_of i new2 @ r2"
      "active (entry_table h1 i) \<longrightarrow> r1 = []" "active (entry_table h2 i) \<longrightarrow> r2 = []"
    using assms(1,2) by (auto simp: calls_ok_def)
  then show ?thesis using assms by (cases "active (entry_table h1 i)") (auto simp: calls_ok_def)
qed

lemma fold_deliver_calls:
  assumes "lawful_callbacks cb" and "distinct snapshot"
  shows "\<forall>i\<in>set snapshot. i < next_entry h \<Longrightarrow> \<forall>(store, cs)\<in>set received. \<forall>a\<in>set cs. a < next_object h \<Longrightarrow>
    sorted_wrt (\<lambda>r q. set (snd r) \<inter> set (snd q) = {}) received \<Longrightarrow> h' = fold (deliver_store cb snapshot txid) received h \<Longrightarrow>
    \<exists>new. calls h' = calls h @ new \<and> (\<forall>i\<in>set snapshot. active (entry_table h' i) \<longrightarrow> active (entry_table h i)) \<and>
      (\<forall>i\<in>set snapshot. calls_ok h h' new i
         (concat (map (\<lambda>(store, cs). store_calls (entry_data h i) store (map (change_objects h) cs) txid i) received))) \<and>
      (\<forall>i. i \<notin> set snapshot \<longrightarrow> calls_of i new = [])"
proof (induction received arbitrary: h)
  case Nil
  then show ?case by (simp add: calls_ok_def)
next
  case (Cons r received)
  obtain store cs where r: "r = (store, cs)" by fastforce
  define h1 where "h1 = deliver_store cb snapshot txid (store, cs) h"
  have "\<forall>a\<in>set cs. a < next_object h" using Cons.prems(2) by (simp add: r)
  from deliver_store_calls [OF assms Cons.prems(1) this h1_def] obtain new1 where
    new1: "calls h1 = calls h @ new1" "keeps (set cs) h h1"
      "\<forall>i\<in>set snapshot. calls_ok h h1 new1 i (store_calls (entry_data h i) store (map (change_objects h) cs) txid i)"
      "\<forall>i. i \<notin> set snapshot \<longrightarrow> calls_of i new1 = []" by blast
  have entries: "i < next_entry h1" "entry_data h1 i = entry_data h i" "active (entry_table h1 i) \<longrightarrow> active (entry_table h i)"
    if "i \<in> set snapshot" for i
    using new1(2) Cons.prems(1) that by (auto simp: keeps_def)
  have bound: "\<forall>(store, cs)\<in>set received. \<forall>a\<in>set cs. a < next_object h1"
    using Cons.prems(2) new1(2) by (fastforce simp: keeps_def)
  have h': "h' = fold (deliver_store cb snapshot txid) received h1" using Cons.prems(4) by (simp add: r h1_def)
  obtain new2 where new2: "calls h' = calls h1 @ new2" "\<forall>i\<in>set snapshot. active (entry_table h' i) \<longrightarrow> active (entry_table h1 i)"
      "\<forall>i\<in>set snapshot. calls_ok h1 h' new2 i
         (concat (map (\<lambda>(store, cs). store_calls (entry_data h1 i) store (map (change_objects h1) cs) txid i) received))"
      "\<forall>i. i \<notin> set snapshot \<longrightarrow> calls_of i new2 = []"
    using Cons.IH [OF _ bound _ h'] entries(1) Cons.prems(3) by auto
  have same: "map (change_objects h1) (snd q) = map (change_objects h) (snd q)" if "q \<in> set received" for q
    using that new1(2) Cons.prems(2,3) by (fastforce simp: keeps_def r)
  have "calls_ok h h' (new1 @ new2) i
      (concat (map (\<lambda>(store, cs). store_calls (entry_data h i) store (map (change_objects h) cs) txid i) (r # received)))"
    if i: "i \<in> set snapshot" for i
  proof -
    have tl: "map (\<lambda>(store, cs). store_calls (entry_data h1 i) store (map (change_objects h1) cs) txid i) received =
        map (\<lambda>(store, cs). store_calls (entry_data h i) store (map (change_objects h) cs) txid i) received"
      unfolding case_prod_unfold entries(2) [OF i] by (rule map_cong [OF refl]) (simp only: same)
    show ?thesis
      using calls_ok_append [OF bspec [OF new1(3) i] bspec [OF new2(3) i, unfolded tl] entries(3) [OF i] bspec [OF new2(2) i]]
      by (simp add: r)
  qed
  then show ?case using new1(1,4) new2(1,2,4) entries(3) by (intro exI [of _ "new1 @ new2"]) auto
qed

section \<open>Properties\<close>

text \<open>
  C25. In every state a hub reaches under calls, messages and callbacks, its entries are exactly the
  active subscriptions, each once; the broadcast channel is open exactly while there are entries; and a
  closed hub has neither.
\<close>

theorem hub_channel_tracks_entries:
  assumes "hub_reachable cb h" and "lawful_callbacks cb"
  shows "distinct (hub_entries h) \<and> set (hub_entries h) = {i. i < next_entry h \<and> active (entry_table h i)} \<and>
    (channel_open h \<longleftrightarrow> hub_entries h \<noteq> []) \<and> (hub_closed h \<longrightarrow> hub_entries h = [] \<and> \<not> channel_open h)"
  using reachable_inv [OF assms] unfolding hub_inv_def by blast

definition quiet :: "unit callbacks" where
  "quiet = (\<lambda>_ _ _ _ h. (False, h))"

lemma quiet_lawful: "lawful_callbacks quiet"
  by (simp add: lawful_callbacks_def quiet_def user_effect.nothing)

abbreviation sample_hub :: "unit SubscriptionHub" where
  "sample_hub \<equiv> snd (subscribe (FunctionArg ()) UndefinedArg UndefinedArg
     (new_hub (js ''db'') \<lparr> active = False, entry_store = None, keyPrefix = None, entry_callback = () \<rparr>))"

lemma sample_hub_reachable: "hub_reachable quiet sample_hub"
  by (rule hub_reachable.subscribed [OF hub_reachable.initial surjective_pairing])

theorem hub_channel_tracks_entries_witness:
  "hub_reachable quiet sample_hub \<and> lawful_callbacks quiet \<and> hub_entries sample_hub = [0] \<and> channel_open sample_hub"
proof -
  have "hub_entries sample_hub = [0]"
    by (simp add: subscribe_def normalizeSubscriptionSpec_def new_hub_def ensureChannel_def Let_def)
  then show ?thesis
    using hub_channel_tracks_entries [OF sample_hub_reachable quiet_lawful] quiet_lawful sample_hub_reachable by simp
qed

text \<open>
  C24. A commit of the hub's database is delivered to its subscribers: each one is called once per
  store that it follows, in the order of the commit, with exactly the changes that match its prefix
  (clear and drop match every prefix) as they were committed, whatever the other callbacks did to the
  objects they were given; it misses calls only from the moment it has been unsubscribed. Nobody else is
  called.
\<close>

theorem commit_delivered_to_subscribers:
  assumes "hub_reachable cb h" and "lawful_callbacks cb"
    and "isCommitAppliedEvent payload = Some (hub_dbName h, txid, store_sets)"
  shows "\<exists>new. calls (handleMessage cb payload h) = calls h @ new \<and>
    (\<forall>i. \<exists>missed.
       (if i \<in> set (hub_entries h)
        then concat (map (\<lambda>(store, changes). store_calls (entry_data h i) store changes txid i) store_sets) else []) =
         filter (\<lambda>c. fst c = i) new @ missed \<and>
       (active (entry_table (handleMessage cb payload h) i) \<longrightarrow> missed = []))"
proof (cases "hub_entries h = []")
  case True
  then show ?thesis using assms(3) by (auto simp: handleMessage_def)
next
  case False
  note inv = reachable_inv [OF assms(1,2)]
  obtain received h1 where received: "receive_stores store_sets h = (received, h1)" by fastforce
  note facts = receive_facts [OF received]
  have h': "handleMessage cb payload h = fold (deliver_store cb (hub_entries h) txid) received h1"
    using assms(3) received False by (simp add: handleMessage_def)
  have bound: "\<forall>i\<in>set (hub_entries h). i < next_entry h1" using hub_invD(2) [OF inv] facts by simp
  have addresses: "\<forall>(store, cs)\<in>set received. \<forall>a\<in>set cs. a < next_object h1" using facts by blast
  from fold_deliver_calls [OF assms(2) hub_invD(1) [OF inv] bound addresses _ h'] facts obtain new where
    new: "calls (handleMessage cb payload h) = calls h1 @ new"
      "\<forall>i\<in>set (hub_entries h). calls_ok h1 (handleMessage cb payload h) new i
         (concat (map (\<lambda>(store, cs). store_calls (entry_data h1 i) store (map (change_objects h1) cs) txid i) received))"
      "\<forall>i. i \<notin> set (hub_entries h) \<longrightarrow> filter (\<lambda>c. fst c = i) new = []" by blast
  have expected: "concat (map (\<lambda>(store, cs). store_calls (entry_data h1 i) store (map (change_objects h1) cs) txid i) received) =
      concat (map (\<lambda>(store, changes). store_calls (entry_data h i) store changes txid i) store_sets)" for i
  proof -
    have "store_sets = map (\<lambda>(store, items). (store, map (change_objects h1) items)) received" "entry_table h1 = entry_table h"
      using facts by blast+
    then show ?thesis by (simp only: map_map comp_def case_prod_unfold fst_conv snd_conv)
  qed
  show ?thesis
    using new facts unfolding expected calls_ok_def by (intro exI [of _ new]) auto
qed

text \<open>Two subscribers to everything, and a callback that overwrites the first change it is given.\<close>

definition vandal :: "unit callbacks" where
  "vandal = (\<lambda>_ _ items _ h. case items of [] \<Rightarrow> (True, h)
     | a # _ \<Rightarrow> (False, h\<lparr>change_objects := (change_objects h)(a := \<lparr> change_key = [], change_kind = ClearChange \<rparr>)\<rparr>))"

lemma vandal_lawful: "lawful_callbacks vandal"
  by (auto simp: lawful_callbacks_def vandal_def split: list.split intro: user_effect.intros)

abbreviation pair_hub :: "unit SubscriptionHub" where
  "pair_hub \<equiv> snd (subscribe (FunctionArg ()) UndefinedArg UndefinedArg sample_hub)"

lemma pair_hub_reachable: "hub_reachable vandal pair_hub"
  by (rule hub_reachable.subscribed [OF hub_reachable.subscribed [OF hub_reachable.initial surjective_pairing] surjective_pairing])

definition sample_event :: jsval where
  "sample_event = VObject [(js ''type'', VString (js ''commit_applied'')), (js ''dbName'', VString (js ''db'')), (js ''txid'', VNumber 0),
     (js ''stores'', VArray [VObject [(js ''store'', VString (js ''s'')),
        (js ''changes'', VArray [VObject [(js ''key'', VBytes [1]), (js ''kind'', VString (js ''put''))]])]])]"

theorem commit_delivered_to_subscribers_witness:
  "lawful_callbacks vandal \<and> hub_reachable vandal pair_hub \<and>
   (\<exists>new missed. calls (handleMessage vandal sample_event pair_hub) = calls pair_hub @ new \<and>
      [(1, js ''s'', [\<lparr> change_key = [1], change_kind = PutChange \<rparr>], 0)] = filter (\<lambda>c. fst c = 1) new @ missed \<and>
      (active (entry_table (handleMessage vandal sample_event pair_hub) 1) \<longrightarrow> missed = []))"
proof -
  have hub: "hub_dbName pair_hub = js ''db''" "hub_entries pair_hub = [0, 1]" "keyPrefix (entry_table pair_hub 1) = None"
      "entry_store (entry_table pair_hub 1) = None"
    by (simp_all add: subscribe_def normalizeSubscriptionSpec_def new_hub_def ensureChannel_def Let_def)
  have "isCommitAppliedEvent sample_event =
      Some (hub_dbName pair_hub, 0, [(js ''s'', [\<lparr> change_key = [1], change_kind = PutChange \<rparr>])])"
    unfolding hub by (simp add: sample_event_def isCommitAppliedEvent_def isStoreChangeSet_def isDbChange_def
      is_object_def prop_get_def own_property_def js_def)
  from commit_delivered_to_subscribers [OF pair_hub_reachable vandal_lawful this]
  obtain new where new: "calls (handleMessage vandal sample_event pair_hub) = calls pair_hub @ new"
      "\<forall>i. \<exists>missed.
       (if i \<in> set (hub_entries pair_hub)
        then concat (map (\<lambda>(store, changes). store_calls (entry_data pair_hub i) store changes 0 i)
          [(js ''s'', [\<lparr> change_key = [1], change_kind = PutChange \<rparr>])]) else []) =
         filter (\<lambda>c. fst c = i) new @ missed \<and>
       (active (entry_table (handleMessage vandal sample_event pair_hub) i) \<longrightarrow> missed = [])" by blast
  have "store_calls (entry_data pair_hub 1) (js ''s'') [\<lparr> change_key = [1], change_kind = PutChange \<rparr>] 0 1 =
      [(1, js ''s'', [\<lparr> change_key = [1], change_kind = PutChange \<rparr>], 0)]"
    unfolding hub by (simp add: store_calls_def in_view_def)
  with spec [OF new(2), of 1] show ?thesis
    using new(1) vandal_lawful pair_hub_reachable unfolding hub by auto
qed

end
