(* ===== verification/Scheduler.thy ===== *)
theory Scheduler
  imports Protocol
begin

text \<open>
  The request scheduler of \<^verbatim>\<open>packages/sdk/src/worker-server.ts\<close>. A scheduled task waits for promises of
  earlier tasks; the model is a transition system over the tasks with, for each, the tasks it waits for. The
  lemmas show that tasks of one transaction run one after the other in the order they arrived, that an
  exclusive task runs alone, and that no task waits forever when the tasks that run come to an end.
\<close>

section \<open>Lanes\<close>

definition TRANSACTION_COMMANDS :: "string list" where
  "TRANSACTION_COMMANDS =
     [''commit'', ''rollback'', ''createStore'', ''dropStore'', ''clearStore'', ''get'', ''getMany'', ''has'', ''put'', ''putMany'',
      ''delete'', ''deleteMany'', ''applyBatch'', ''scan'', ''getByIndex'', ''scanByIndex'', ''scanByIndexPage'', ''getIndexes'',
      ''reconcileIndexes'', ''setSchemaVersion'']"

definition EXCLUSIVE_COMMANDS :: "string list" where
  "EXCLUSIVE_COMMANDS = [''open'', ''close'', ''destroy'', ''importSnapshot'', ''reset'', ''compact'', ''rebuild'']"

definition UNSCHEDULED_COMMANDS :: "string list" where
  "UNSCHEDULED_COMMANDS = [''deleteDB'', ''storageInfo'', ''requestPersistence'']"

text \<open>
  The key of a lane is a number or a string. As keys of a \<^verbatim>\<open>Map\<close>, the two zeros are the same number,
  and so are all \<^verbatim>\<open>NaN\<close>s.
\<close>

definition f64_is_nan :: "f64 \<Rightarrow> bool" where
  "f64_is_nan n \<longleftrightarrow> 2047 * 2 ^ 52 < f64_mag n"

datatype lane = NumberLane f64 | TextLane jsstring

definition number_key :: "f64 \<Rightarrow> f64" where
  "number_key n = (if f64_is_negative_zero n then 0 else if f64_is_nan n then 0x7FF8000000000000 else n)"

definition AUTOCOMMIT_WRITER_LANE :: lane where
  "AUTOCOMMIT_WRITER_LANE = TextLane (js ''autocommit:readwrite'')"

definition laneFor :: "string \<Rightarrow> jsval list \<Rightarrow> lane option" where
  "laneFor command args =
     (case arg_at args 0 of
        VNumber n \<Rightarrow> if command \<in> set TRANSACTION_COMMANDS then Some (NumberLane (number_key n)) else None
      | v \<Rightarrow> if command = ''autocommit'' \<and> v = str ''readwrite'' then Some AUTOCOMMIT_WRITER_LANE else None)"

definition cursor_lane :: "f64 \<Rightarrow> lane" where
  "cursor_lane cursor = TextLane (js ''cursor:'' @ number_text cursor)"

section \<open>Tasks\<close>

text \<open>
  What a task does to the lanes of the cursors when it ends: nothing, forget them all, or follow the cursor of
  a \<^verbatim>\<open>scanPage\<close> (with \<open>wrap_page\<close>), of a \<^verbatim>\<open>closeCursor\<close>, or of a transaction that ends.
\<close>

datatype wrap = NoWrap | ClearCursors | CursorWrap (wrap_page: bool) (wrap_cursor: "f64 option")

datatype status = Waiting | Running | Settled

record job =
  job_command :: string
  job_args :: "jsval list"
  job_lane :: "lane option"
  job_exclusive :: bool
  job_wrap :: wrap
  job_deps :: "nat list"
  job_status :: status

text \<open>
  The scheduler's fields; a promise is the number of its task, and an absent barrier is the promise that is
  resolved from the start.
\<close>

record scheduler =
  jobs :: "job list"
  lanes :: "lane \<rightharpoonup> nat"
  inFlight :: "nat list"
  barrier :: "nat option"
  cursorLanes :: "(f64 \<times> lane) list"

definition new_scheduler :: scheduler where
  "new_scheduler = \<lparr>jobs = [], lanes = Map.empty, inFlight = [], barrier = None, cursorLanes = []\<rparr>"

definition option_list :: "'a option \<Rightarrow> 'a list" where
  "option_list v = (case v of None \<Rightarrow> [] | Some x \<Rightarrow> [x])"

definition runShared :: "scheduler \<Rightarrow> string \<Rightarrow> jsval list \<Rightarrow> lane option \<Rightarrow> wrap \<Rightarrow> scheduler" where
  "runShared s command args l w =
     (let previous = (case l of None \<Rightarrow> None | Some k \<Rightarrow> lanes s k);
          j = \<lparr>job_command = command, job_args = args, job_lane = l, job_exclusive = False, job_wrap = w,
               job_deps = option_list (barrier s) @ option_list previous, job_status = Waiting\<rparr>;
          i = length (jobs s)
      in s\<lparr>jobs := jobs s @ [j], inFlight := inFlight s @ [i],
           lanes := (case l of None \<Rightarrow> lanes s | Some k \<Rightarrow> (lanes s)(k \<mapsto> i))\<rparr>)"

definition runExclusive :: "scheduler \<Rightarrow> string \<Rightarrow> jsval list \<Rightarrow> wrap \<Rightarrow> scheduler" where
  "runExclusive s command args w =
     (let j = \<lparr>job_command = command, job_args = args, job_lane = None, job_exclusive = True, job_wrap = w,
               job_deps = option_list (barrier s) @ inFlight s, job_status = Waiting\<rparr>
      in s\<lparr>jobs := jobs s @ [j], barrier := Some (length (jobs s))\<rparr>)"

text \<open>\<^verbatim>\<open>request?.cursorId ?? (command === 'closeCursor' ? args[0] : undefined)\<close>, when it is a number.\<close>

definition page_request :: "string \<Rightarrow> jsval list \<Rightarrow> jsval option" where
  "page_request command args = (if command = ''scanPage'' \<and> is_object (arg_at args 0) then Some (arg_at args 0) else None)"

definition number_of :: "jsval \<Rightarrow> f64 option" where
  "number_of v = (case v of VNumber n \<Rightarrow> Some (number_key n) | _ \<Rightarrow> None)"

definition cursor_of :: "string \<Rightarrow> jsval list \<Rightarrow> f64 option" where
  "cursor_of command args =
     (let own = (case page_request command args of None \<Rightarrow> VUndefined | Some r \<Rightarrow> prop_get r (js ''cursorId''))
      in number_of (if own = VUndefined \<or> own = VNull then (if command = ''closeCursor'' then arg_at args 0 else VUndefined) else own))"

definition cursor_command_lane :: "scheduler \<Rightarrow> string \<Rightarrow> jsval list \<Rightarrow> lane option" where
  "cursor_command_lane s command args =
     (let cursor = cursor_of command args in
      case (case cursor of None \<Rightarrow> None | Some c \<Rightarrow> map_of (cursorLanes s) c) of
        Some l \<Rightarrow> Some l
      | None \<Rightarrow>
          (case (case page_request command args of None \<Rightarrow> None | Some r \<Rightarrow> number_of (prop_get r (js ''txId''))) of
             Some n \<Rightarrow> Some (NumberLane n)
           | None \<Rightarrow> (case cursor of Some c \<Rightarrow> Some (cursor_lane c) | None \<Rightarrow> laneFor command args)))"

definition ends_transaction :: "string \<Rightarrow> bool" where
  "ends_transaction command \<longleftrightarrow> command = ''commit'' \<or> command = ''rollback''"

definition schedule :: "scheduler \<Rightarrow> string \<Rightarrow> jsval list \<Rightarrow> scheduler" where
  "schedule s command args =
     (if command \<in> set UNSCHEDULED_COMMANDS then s
      else if command \<in> set EXCLUSIVE_COMMANDS then runExclusive s command args (if cursorLanes s = [] then NoWrap else ClearCursors)
      else if command \<noteq> ''scanPage'' \<and> command \<noteq> ''closeCursor'' \<and> \<not> (ends_transaction command \<and> cursorLanes s \<noteq> [])
        then runShared s command args (laneFor command args) NoWrap
      else runShared s command args (cursor_command_lane s command args)
             (CursorWrap (page_request command args \<noteq> None) (cursor_of command args)))"

section \<open>Running tasks\<close>

definition settled :: "scheduler \<Rightarrow> nat \<Rightarrow> bool" where
  "settled s i \<longleftrightarrow> i < length (jobs s) \<and> job_status (jobs s ! i) = Settled"

definition set_status :: "scheduler \<Rightarrow> nat \<Rightarrow> status \<Rightarrow> scheduler" where
  "set_status s i st = s\<lparr>jobs := (jobs s)[i := (jobs s ! i)\<lparr>job_status := st\<rparr>]\<rparr>"

definition ready :: "scheduler \<Rightarrow> nat \<Rightarrow> bool" where
  "ready s i \<longleftrightarrow> i < length (jobs s) \<and> job_status (jobs s ! i) = Waiting \<and> list_all (settled s) (job_deps (jobs s ! i))"

definition drop_cursor :: "f64 \<Rightarrow> (f64 \<times> lane) list \<Rightarrow> (f64 \<times> lane) list" where
  "drop_cursor c cs = filter (\<lambda>(k, _). k \<noteq> c) cs"

text \<open>The lanes of the cursors after a task ended with a result, or with an error.\<close>

definition page_cursors :: "job \<Rightarrow> jsval \<Rightarrow> (f64 \<times> lane) list \<Rightarrow> (f64 \<times> lane) list" where
  "page_cursors j result cs =
     (case number_of (prop_get result (js ''cursorId'')) of
        None \<Rightarrow> cs
      | Some c \<Rightarrow> (c, case job_lane j of Some l \<Rightarrow> l | None \<Rightarrow> cursor_lane c) # drop_cursor c cs)"

definition final_cursors :: "job \<Rightarrow> (f64 \<times> lane) list \<Rightarrow> (f64 \<times> lane) list" where
  "final_cursors j cs =
     (let closed = (case wrap_cursor (job_wrap j) of
            Some c \<Rightarrow> if job_command j = ''closeCursor'' then drop_cursor c cs else cs
          | None \<Rightarrow> cs)
      in if ends_transaction (job_command j)
         then (case arg_at (job_args j) 0 of
                 VNumber n \<Rightarrow> filter (\<lambda>(_, l). f64_is_nan n \<or> l \<noteq> NumberLane (number_key n)) closed
               | VString t \<Rightarrow> filter (\<lambda>(_, l). l \<noteq> TextLane t) closed
               | _ \<Rightarrow> closed)
         else closed)"

definition cursors_after :: "job \<Rightarrow> jsval option \<Rightarrow> (f64 \<times> lane) list \<Rightarrow> (f64 \<times> lane) list" where
  "cursors_after j result cs =
     (case job_wrap j of
        NoWrap \<Rightarrow> cs
      | ClearCursors \<Rightarrow> (case result of None \<Rightarrow> cs | Some _ \<Rightarrow> [])
      | CursorWrap page cursor \<Rightarrow>
          final_cursors j
            (case result of
               Some v \<Rightarrow>
                 if page \<and> is_object v
                 then page_cursors j v (case cursor of None \<Rightarrow> cs | Some c \<Rightarrow> drop_cursor c cs)
                 else cs
             | None \<Rightarrow> cs))"

definition settle :: "scheduler \<Rightarrow> nat \<Rightarrow> jsval option \<Rightarrow> scheduler" where
  "settle s i result = (set_status s i Settled)\<lparr>cursorLanes := cursors_after (jobs s ! i) result (cursorLanes s)\<rparr>"

text \<open>The reaction to a settled shared task, in a microtask of its own.\<close>

definition clean :: "scheduler \<Rightarrow> nat \<Rightarrow> scheduler" where
  "clean s i =
     s\<lparr>inFlight := filter (\<lambda>j. j \<noteq> i) (inFlight s),
       lanes := (case job_lane (jobs s ! i) of
                   Some l \<Rightarrow> if lanes s l = Some i then (lanes s)(l := None) else lanes s
                 | None \<Rightarrow> lanes s)\<rparr>"

inductive sched_step :: "scheduler \<Rightarrow> scheduler \<Rightarrow> bool" where
  submit: "sched_step s (schedule s command args)"
| start: "ready s i \<Longrightarrow> sched_step s (set_status s i Running)"
| finish: "i < length (jobs s) \<Longrightarrow> job_status (jobs s ! i) = Running \<Longrightarrow> sched_step s (settle s i result)"
| react: "settled s i \<Longrightarrow> \<not> job_exclusive (jobs s ! i) \<Longrightarrow> sched_step s (clean s i)"

inductive_cases sched_stepE: "sched_step s s'"

inductive sched_reach :: "scheduler \<Rightarrow> bool" where
  init: "sched_reach new_scheduler"
| step: "sched_reach s \<Longrightarrow> sched_step s s' \<Longrightarrow> sched_reach s'"

section \<open>The order of tasks\<close>

text \<open>Task \<open>i\<close> comes before task \<open>j\<close>: it arrived first, and one of them is exclusive or they share a lane.\<close>

definition precedes :: "scheduler \<Rightarrow> nat \<Rightarrow> nat \<Rightarrow> bool" where
  "precedes s i j \<longleftrightarrow> i < j \<and> j < length (jobs s) \<and>
     (job_exclusive (jobs s ! i) \<or> job_exclusive (jobs s ! j) \<or>
      job_lane (jobs s ! i) \<noteq> None \<and> job_lane (jobs s ! i) = job_lane (jobs s ! j))"

lemma precedes_trans_same: "precedes s i j \<Longrightarrow> i < k \<Longrightarrow> k < j \<Longrightarrow> job_exclusive (jobs s ! k) \<Longrightarrow> precedes s i k"
  by (auto simp: precedes_def)

text \<open>
  What holds in every reachable state: a task waits for earlier ones; one that is still open and comes before
  another is waited for, directly or through a task that comes after it; no task has started before those that
  come before it were settled; and the fields of the scheduler name the last open tasks.
\<close>

definition deps_earlier :: "scheduler \<Rightarrow> bool" where
  "deps_earlier s \<longleftrightarrow> (\<forall>j < length (jobs s). \<forall>d \<in> set (job_deps (jobs s ! j)). d < j)"

definition deps_cover :: "scheduler \<Rightarrow> bool" where
  "deps_cover s \<longleftrightarrow> (\<forall>i j. precedes s i j \<longrightarrow> \<not> settled s i \<longrightarrow> (\<exists>d \<in> set (job_deps (jobs s ! j)). d = i \<or> precedes s i d))"

definition started_after :: "scheduler \<Rightarrow> bool" where
  "started_after s \<longleftrightarrow> (\<forall>i j. precedes s i j \<longrightarrow> job_status (jobs s ! j) \<noteq> Waiting \<longrightarrow> settled s i)"

definition fields_name_last :: "scheduler \<Rightarrow> bool" where
  "fields_name_last s \<longleftrightarrow>
     (\<forall>b. barrier s = Some b \<longrightarrow> b < length (jobs s) \<and> job_exclusive (jobs s ! b)) \<and>
     (\<forall>i < length (jobs s). job_exclusive (jobs s ! i) \<longrightarrow> (\<exists>b. barrier s = Some b \<and> i \<le> b)) \<and>
     (\<forall>l k. lanes s l = Some k \<longrightarrow> k < length (jobs s) \<and> job_lane (jobs s ! k) = Some l) \<and>
     (\<forall>i < length (jobs s). \<forall>l. job_lane (jobs s ! i) = Some l \<longrightarrow> \<not> settled s i \<longrightarrow> (\<exists>k. lanes s l = Some k \<and> i \<le> k)) \<and>
     (\<forall>i \<in> set (inFlight s). i < length (jobs s)) \<and>
     (\<forall>i < length (jobs s). \<not> job_exclusive (jobs s ! i) \<longrightarrow> \<not> settled s i \<longrightarrow> i \<in> set (inFlight s))"

definition sched_ok :: "scheduler \<Rightarrow> bool" where
  "sched_ok s \<longleftrightarrow> deps_earlier s \<and> deps_cover s \<and> started_after s \<and> fields_name_last s"

lemmas sched_defs = sched_ok_def deps_earlier_def deps_cover_def started_after_def fields_name_last_def

text \<open>A new task at the end of the list.\<close>

lemma settled_append: "jobs s' = jobs s @ [j] \<Longrightarrow> job_status j = Waiting \<Longrightarrow> settled s' i = settled s i"
  by (auto simp: settled_def nth_append)

lemma precedes_append: "jobs s' = jobs s @ [j] \<Longrightarrow> k < length (jobs s) \<Longrightarrow> precedes s' i k = precedes s i k"
  by (auto simp: precedes_def nth_append)

lemma append_job_ok:
  assumes "sched_ok s" and "jobs s' = jobs s @ [j]" and "job_status j = Waiting"
    and "\<And>d. d \<in> set (job_deps j) \<Longrightarrow> d < length (jobs s)"
    and "\<And>i. precedes s' i (length (jobs s)) \<Longrightarrow> \<not> settled s i \<Longrightarrow> \<exists>d \<in> set (job_deps j). d = i \<or> precedes s i d"
  shows "deps_earlier s' \<and> deps_cover s' \<and> started_after s'"
proof -
  note ok = assms(1) [unfolded sched_ok_def]
  note settled = settled_append [OF assms(2,3)]
  have old: "(jobs s' ! k) = (jobs s ! k)" if "k < length (jobs s)" for k using that assms(2) by (simp add: nth_append)
  have new: "jobs s' ! length (jobs s) = j" using assms(2) by simp
  have len: "length (jobs s') = Suc (length (jobs s))" using assms(2) by simp
  have pre: "precedes s' i k = precedes s i k" if "k < length (jobs s)" for i k using precedes_append [OF assms(2) that] .
  have "deps_earlier s'"
    unfolding deps_earlier_def len
  proof (intro allI impI ballI)
    fix k d
    assume "k < Suc (length (jobs s))" "d \<in> set (job_deps (jobs s' ! k))"
    then show "d < k" using ok assms(4) old new by (cases "k = length (jobs s)") (auto simp: deps_earlier_def less_Suc_eq)
  qed
  moreover have "deps_cover s'"
    unfolding deps_cover_def
  proof (intro allI impI)
    fix i k
    assume p: "precedes s' i k" "\<not> settled s' i"
    then have k: "k < Suc (length (jobs s))" using len by (simp add: precedes_def)
    show "\<exists>d \<in> set (job_deps (jobs s' ! k)). d = i \<or> precedes s' i d"
    proof (cases "k = length (jobs s)")
      case True
      then obtain d where "d \<in> set (job_deps j)" "d = i \<or> precedes s i d" using assms(5) p settled by auto
      then show ?thesis using True new pre [of d i] assms(4) by auto
    next
      case False
      then have k': "k < length (jobs s)" using k by simp
      have "precedes s i k" "\<not> settled s i" using p settled pre [OF k'] by simp_all
      then obtain d where d: "d \<in> set (job_deps (jobs s ! k))" "d = i \<or> precedes s i d"
        using ok unfolding deps_cover_def by blast
      then have "d < k" using ok k' unfolding deps_earlier_def by blast
      then have "d < length (jobs s)" using k' by simp
      then show ?thesis using d old [OF k'] pre by auto
    qed
  qed
  moreover have "started_after s'"
    unfolding started_after_def
  proof (intro allI impI)
    fix i k
    assume p: "precedes s' i k" "job_status (jobs s' ! k) \<noteq> Waiting"
    then have "k < length (jobs s)" using len new assms(3) by (cases "k = length (jobs s)") (auto simp: precedes_def)
    then show "settled s' i" using ok p settled pre old by (auto simp: started_after_def)
  qed
  ultimately show ?thesis by blast
qed

lemma set_option_list [simp]: "x \<in> set (option_list v) \<longleftrightarrow> v = Some x"
  by (cases v) (auto simp: option_list_def)

lemma runShared_ok:
  assumes "sched_ok s"
  shows "sched_ok (runShared s command args l w)"
proof -
  let ?s = "runShared s command args l w"
  define j where "j = \<lparr>job_command = command, job_args = args, job_lane = l, job_exclusive = False, job_wrap = w,
    job_deps = option_list (barrier s) @ option_list (case l of None \<Rightarrow> None | Some k \<Rightarrow> lanes s k), job_status = Waiting\<rparr>"
  note f = assms [unfolded sched_ok_def fields_name_last_def]
  have jobs: "jobs ?s = jobs s @ [j]" by (simp add: runShared_def Let_def j_def)
  have rest: "deps_earlier ?s \<and> deps_cover ?s \<and> started_after ?s"
  proof (rule append_job_ok [OF assms jobs])
    show "d < length (jobs s)" if "d \<in> set (job_deps j)" for d
      using that f by (auto simp: j_def split: option.splits)
    show "\<exists>d \<in> set (job_deps j). d = i \<or> precedes s i d" if p: "precedes ?s i (length (jobs s))" "\<not> settled s i" for i
    proof -
      have i: "i < length (jobs s)" "job_exclusive (jobs s ! i) \<or> job_lane (jobs s ! i) \<noteq> None \<and> job_lane (jobs s ! i) = l"
        using p(1) jobs by (auto simp: precedes_def nth_append j_def)
      show ?thesis
      proof (cases "job_exclusive (jobs s ! i)")
        case True
        then obtain b where b: "barrier s = Some b" "i \<le> b" using f i(1) by blast
        then have "b < length (jobs s)" using f by blast
        then have "b \<in> set (job_deps j)" "b = i \<or> precedes s i b" using b True by (auto simp: j_def precedes_def)
        then show ?thesis by blast
      next
        case False
        then obtain k where k: "l = Some k" "job_lane (jobs s ! i) = Some k" using i(2) by auto
        then obtain b where b: "lanes s k = Some b" "i \<le> b" using f i(1) p(2) by blast
        then have "b < length (jobs s)" "job_lane (jobs s ! b) = Some k" using f by blast+
        then have "b \<in> set (job_deps j)" "b = i \<or> precedes s i b" using b k by (auto simp: j_def precedes_def)
        then show ?thesis by blast
      qed
    qed
  qed (simp add: j_def)
  have settled: "settled ?s i = settled s i" for i by (rule settled_append [OF jobs]) (simp add: j_def)
  have fields: "barrier ?s = barrier s" "inFlight ?s = inFlight s @ [length (jobs s)]"
    "lanes ?s = (case l of None \<Rightarrow> lanes s | Some k \<Rightarrow> (lanes s)(k \<mapsto> length (jobs s)))"
    by (simp_all add: runShared_def Let_def)
  have "fields_name_last ?s"
    unfolding fields_name_last_def fields jobs settled
    using f by (auto simp: nth_append less_Suc_eq j_def settled_def split: option.splits if_splits)
  then show ?thesis using rest by (simp add: sched_ok_def)
qed


lemma runExclusive_ok:
  assumes "sched_ok s"
  shows "sched_ok (runExclusive s command args w)"
proof -
  let ?s = "runExclusive s command args w"
  define j where "j = \<lparr>job_command = command, job_args = args, job_lane = None, job_exclusive = True, job_wrap = w,
    job_deps = option_list (barrier s) @ inFlight s, job_status = Waiting\<rparr>"
  note f = assms [unfolded sched_ok_def fields_name_last_def]
  have jobs: "jobs ?s = jobs s @ [j]" by (simp add: runExclusive_def Let_def j_def)
  have rest: "deps_earlier ?s \<and> deps_cover ?s \<and> started_after ?s"
  proof (rule append_job_ok [OF assms jobs])
    show "d < length (jobs s)" if "d \<in> set (job_deps j)" for d
      using that f by (auto simp: j_def)
    show "\<exists>d \<in> set (job_deps j). d = i \<or> precedes s i d" if p: "precedes ?s i (length (jobs s))" "\<not> settled s i" for i
    proof -
      have i: "i < length (jobs s)" using p(1) by (simp add: precedes_def)
      show ?thesis
      proof (cases "job_exclusive (jobs s ! i)")
        case True
        then obtain b where b: "barrier s = Some b" "i \<le> b" using f i(1) by blast
        then have "b < length (jobs s)" using f by blast
        then have "b \<in> set (job_deps j)" "b = i \<or> precedes s i b" using b True by (auto simp: j_def precedes_def)
        then show ?thesis by blast
      next
        case False
        then have "i \<in> set (inFlight s)" using f i p(2) by blast
        then show ?thesis by (auto simp: j_def)
      qed
    qed
  qed (simp add: j_def)
  have settled: "settled ?s i = settled s i" for i by (rule settled_append [OF jobs]) (simp add: j_def)
  have fields: "barrier ?s = Some (length (jobs s))" "inFlight ?s = inFlight s" "lanes ?s = lanes s"
    by (simp_all add: runExclusive_def Let_def)
  have "fields_name_last ?s"
    unfolding fields_name_last_def fields jobs settled
    using f by (auto simp: nth_append less_Suc_eq j_def settled_def split: option.splits if_splits)
  then show ?thesis using rest by (simp add: sched_ok_def)
qed

text \<open>A change of the status of one task.\<close>

lemma set_status_jobs:
  assumes "i < length (jobs s)"
  shows "length (jobs (set_status s i st)) = length (jobs s)"
    "job_deps (jobs (set_status s i st) ! k) = job_deps (jobs s ! k)"
    "job_lane (jobs (set_status s i st) ! k) = job_lane (jobs s ! k)"
    "job_exclusive (jobs (set_status s i st) ! k) = job_exclusive (jobs s ! k)"
    "job_status (jobs (set_status s i st) ! k) = (if k = i then st else job_status (jobs s ! k))"
    "precedes (set_status s i st) k l = precedes s k l"
  using assms by (auto simp: set_status_def precedes_def nth_list_update)

lemma settled_set_status:
  "i < length (jobs s) \<Longrightarrow> settled (set_status s i st) k = (if k = i then st = Settled else settled s k)"
  using set_status_jobs [of i s st] by (simp add: settled_def)

lemma start_ok:
  assumes "sched_ok s" and "ready s i"
  shows "sched_ok (set_status s i Running)"
proof -
  have i: "i < length (jobs s)" "job_status (jobs s ! i) = Waiting" and deps: "\<And>d. d \<in> set (job_deps (jobs s ! i)) \<Longrightarrow> settled s d"
    using assms(2) by (simp_all add: ready_def list_all_iff)
  note j = set_status_jobs [OF i(1), of Running]
  have settled: "settled (set_status s i Running) k = settled s k" for k
    using settled_set_status [OF i(1)] i(2) by (simp add: settled_def)
  have all: "settled s k" if "precedes s k i" for k
  proof (rule ccontr)
    assume open_k: "\<not> settled s k"
    have "\<exists>d \<in> set (job_deps (jobs s ! i)). d = k \<or> precedes s k d"
      using assms(1) \<open>precedes s k i\<close> open_k unfolding sched_ok_def deps_cover_def by blast
    then obtain d where d: "d \<in> set (job_deps (jobs s ! i))" "d = k \<or> precedes s k d" by blast
    then have "precedes s k d" "job_status (jobs s ! d) \<noteq> Waiting" using deps [OF d(1)] open_k by (auto simp: settled_def)
    then show False using assms(1) open_k unfolding sched_ok_def started_after_def by blast
  qed
  have "barrier (set_status s i Running) = barrier s" "lanes (set_status s i Running) = lanes s" "inFlight (set_status s i Running) = inFlight s"
    by (simp_all add: set_status_def)
  then show ?thesis using assms(1) all by (simp add: sched_defs j settled)
qed

lemma settle_ok:
  assumes "sched_ok s" and "i < length (jobs s)" and "job_status (jobs s ! i) = Running"
  shows "sched_ok (settle s i result)"
proof -
  note j = set_status_jobs [OF assms(2), of Settled]
  let ?s = "settle s i result"
  have jobs: "jobs ?s = jobs (set_status s i Settled)" by (simp add: settle_def)
  have same: "precedes ?s k l = precedes s k l" "settled ?s k = (k = i \<or> settled s k)" for k l
    using j settled_set_status [OF assms(2), of Settled k] by (simp_all add: precedes_def settled_def jobs)
  have "barrier ?s = barrier s" "lanes ?s = lanes s" "inFlight ?s = inFlight s"
    by (simp_all add: settle_def set_status_def)
  then show ?thesis using assms by (auto simp: sched_defs jobs j same)
qed

lemma clean_ok:
  assumes "sched_ok s" and "settled s i"
  shows "sched_ok (clean s i)"
proof -
  have same: "jobs (clean s i) = jobs s" "barrier (clean s i) = barrier s" "settled (clean s i) k = settled s k"
      "precedes (clean s i) k l = precedes s k l" for k l
    by (simp_all add: clean_def settled_def precedes_def)
  have keep: "\<exists>m. lanes (clean s i) l = Some m \<and> k \<le> m"
    if k: "k < length (jobs s)" "job_lane (jobs s ! k) = Some l" "\<not> settled s k" for k l
  proof -
    obtain m where m: "lanes s l = Some m" "k \<le> m" using assms(1) k unfolding sched_defs by blast
    have "m \<noteq> i"
    proof
      assume "m = i"
      moreover have "m < length (jobs s)" "job_lane (jobs s ! m) = Some l" using assms(1) m(1) unfolding sched_defs by blast+
      ultimately have "precedes s k i" using k m(2) assms(2) by (cases "k = i") (auto simp: precedes_def)
      moreover have "job_status (jobs s ! i) \<noteq> Waiting" using assms(2) by (simp add: settled_def)
      ultimately show False using assms(1) k(3) unfolding sched_defs by blast
    qed
    then show ?thesis using m by (auto simp: clean_def split: option.split)
  qed
  have lanes_sub: "lanes s l = Some m" if "lanes (clean s i) l = Some m" for l m
    using that by (auto simp: clean_def split: option.splits if_splits)
  have "\<forall>i \<in> set (inFlight (clean s i)). i < length (jobs s)" using assms(1) by (auto simp: clean_def sched_defs)
  moreover have "\<forall>k < length (jobs s). \<not> job_exclusive (jobs s ! k) \<longrightarrow> \<not> settled s k \<longrightarrow> k \<in> set (inFlight (clean s i))"
    using assms by (auto simp: clean_def sched_defs)
  moreover have "\<forall>l k. lanes (clean s i) l = Some k \<longrightarrow> k < length (jobs s) \<and> job_lane (jobs s ! k) = Some l"
    using assms(1) lanes_sub unfolding sched_defs by blast
  ultimately have "fields_name_last (clean s i)"
    using assms(1) keep unfolding fields_name_last_def same sched_ok_def by blast
  then show ?thesis using assms(1) by (simp add: sched_ok_def deps_earlier_def deps_cover_def started_after_def same)
qed

lemma schedule_ok: "sched_ok s \<Longrightarrow> sched_ok (schedule s command args)"
  by (simp add: schedule_def runShared_ok runExclusive_ok)

lemma sched_reach_ok: "sched_reach s \<Longrightarrow> sched_ok s"
proof (induction rule: sched_reach.induct)
  case init
  show ?case by (simp add: sched_defs new_scheduler_def precedes_def)
next
  case (step s s')
  from step.hyps(2) step.IH show ?case
    by (cases rule: sched_step.cases) (auto intro: schedule_ok start_ok settle_ok clean_ok)
qed

section \<open>Exclusion, order and progress\<close>

lemma running_apart:
  assumes "sched_ok s" and "i < j" "j < length (jobs s)" and "job_status (jobs s ! i) = Running" "job_status (jobs s ! j) = Running"
  shows "\<not> job_exclusive (jobs s ! i) \<and> \<not> job_exclusive (jobs s ! j) \<and>
    (job_lane (jobs s ! i) = None \<or> job_lane (jobs s ! i) \<noteq> job_lane (jobs s ! j))"
proof -
  have "\<not> precedes s i j"
  proof
    assume "precedes s i j"
    then have "settled s i" using assms(1,5) by (simp add: sched_ok_def started_after_def)
    then show False using assms(4) by (simp add: settled_def)
  qed
  then show ?thesis using assms(2,3) by (auto simp: precedes_def)
qed

text \<open>Steps that do not bring new tasks, and the work that is left: two steps for a task that waits, one for one that runs.\<close>

inductive drain_step :: "scheduler \<Rightarrow> scheduler \<Rightarrow> bool" where
  "ready s i \<Longrightarrow> drain_step s (set_status s i Running)"
| "i < length (jobs s) \<Longrightarrow> job_status (jobs s ! i) = Running \<Longrightarrow> drain_step s (settle s i result)"

fun steps_left :: "status \<Rightarrow> nat" where
  "steps_left Waiting = 2"
| "steps_left Running = 1"
| "steps_left Settled = 0"

definition open_work :: "scheduler \<Rightarrow> nat" where
  "open_work s = sum_list (map (steps_left \<circ> job_status) (jobs s))"

lemma sum_list_update_less: "i < length xs \<Longrightarrow> f y < f (xs ! i) \<Longrightarrow> sum_list (map f (xs[i := y])) < (sum_list (map f xs) :: nat)"
  by (induction xs arbitrary: i) (auto split: nat.split)

lemma drain_step_less: "drain_step s t \<Longrightarrow> open_work t < open_work s"
proof (induction rule: drain_step.induct)
  case (1 s i)
  then show ?case
    by (auto simp: open_work_def set_status_def ready_def intro!: sum_list_update_less)
next
  case (2 i s result)
  then show ?case by (auto simp: open_work_def settle_def set_status_def intro!: sum_list_update_less)
qed

lemma first_open_moves:
  assumes "sched_ok s" and "i < length (jobs s)" "\<not> settled s i" and "\<And>k. k < i \<Longrightarrow> settled s k"
  shows "\<exists>t. drain_step s t"
proof (cases "job_status (jobs s ! i)")
  case Waiting
  have "settled s d" if "d \<in> set (job_deps (jobs s ! i))" for d
    using assms(1,2,4) that unfolding sched_defs by blast
  then have "ready s i" using Waiting assms(2) by (simp add: ready_def list_all_iff)
  then show ?thesis by (blast intro: drain_step.intros)
next
  case Running
  then show ?thesis using assms(2) by (blast intro: drain_step.intros)
next
  case Settled
  then show ?thesis using assms(2,3) by (simp add: settled_def)
qed

lemma open_task_moves:
  assumes "sched_ok s" and open_i: "i < length (jobs s)" "\<not> settled s i"
  shows "\<exists>t. drain_step s t"
proof -
  define k where "k = (LEAST k. k < length (jobs s) \<and> \<not> settled s k)"
  have k: "k < length (jobs s)" "\<not> settled s k" using LeastI [of "\<lambda>k. k < length (jobs s) \<and> \<not> settled s k" i] open_i by (auto simp: k_def)
  moreover have "settled s m" if "m < k" for m
    using not_less_Least [of m "\<lambda>k. k < length (jobs s) \<and> \<not> settled s k"] that k(1) by (auto simp: k_def)
  ultimately show ?thesis by (rule first_open_moves [OF assms(1)])
qed

text \<open>
  C34. Requests are kept apart: a task starts only after every earlier task that it conflicts with, one of the
  same transaction lane or an exclusive one on either side, has ended; so an exclusive task runs alone and a
  transaction's commands run one at a time in the order they arrived, in every interleaving.
\<close>

theorem scheduler_excludes:
  assumes "sched_reach s"
  shows "(\<forall>i j. precedes s i j \<longrightarrow> job_status (jobs s ! j) \<noteq> Waiting \<longrightarrow> settled s i) \<and>
    (\<forall>i j. i < j \<longrightarrow> j < length (jobs s) \<longrightarrow> job_status (jobs s ! i) = Running \<longrightarrow> job_status (jobs s ! j) = Running \<longrightarrow>
       \<not> job_exclusive (jobs s ! i) \<and> \<not> job_exclusive (jobs s ! j) \<and>
       (job_lane (jobs s ! i) = None \<or> job_lane (jobs s ! i) \<noteq> job_lane (jobs s ! j)))"
  using sched_reach_ok [OF assms] running_apart by (auto simp: sched_ok_def started_after_def)

text \<open>
  C35. No request waits forever: as long as a task is open some task can start or end, and only finitely many
  such steps are possible; so when the tasks that run come to an end, all tasks end, whatever the order.
\<close>

theorem scheduler_progress:
  assumes "sched_reach s"
  shows "((\<nexists>t. drain_step s t) \<longrightarrow> (\<forall>i < length (jobs s). settled s i)) \<and> (\<forall>t. drain_step s t \<longrightarrow> open_work t < open_work s \<and> sched_reach t)"
proof -
  have "\<exists>t. drain_step s t" if "i < length (jobs s)" "\<not> settled s i" for i
    using open_task_moves [OF sched_reach_ok [OF assms]] that .
  moreover have "sched_reach t" if "drain_step s t" for t
    using that assms by (induction rule: drain_step.induct) (auto intro: sched_reach.step sched_step.intros)
  ultimately show ?thesis using drain_step_less by blast
qed

definition sample_requests :: scheduler where
  "sample_requests = schedule (schedule (schedule new_scheduler ''get'' [VNumber 5]) ''commit'' [VNumber 5]) ''compact'' []"

lemma sample_requests_reach: "sched_reach sample_requests"
  unfolding sample_requests_def 
  by (rule sched_reach.step [OF sched_reach.step [OF sched_reach.step [OF sched_reach.init sched_step.submit] sched_step.submit] sched_step.submit])

definition sample_job :: "string \<Rightarrow> nat list \<Rightarrow> job" where
  "sample_job command deps =
     \<lparr>job_command = command, job_args = [VNumber 5], job_lane = Some (NumberLane (number_key 5)), job_exclusive = False,
      job_wrap = NoWrap, job_deps = deps, job_status = Waiting\<rparr>"

lemma sample_requests_jobs:
  "jobs sample_requests =
     [sample_job ''get'' [], sample_job ''commit'' [0],
      \<lparr>job_command = ''compact'', job_args = [], job_lane = None, job_exclusive = True,
       job_wrap = NoWrap, job_deps = [0, 1], job_status = Waiting\<rparr>]"
proof -
  note defs = schedule_def UNSCHEDULED_COMMANDS_def EXCLUSIVE_COMMANDS_def laneFor_def arg_at_def TRANSACTION_COMMANDS_def ends_transaction_def
  have 1: "schedule new_scheduler ''get'' [VNumber 5] =
      runShared new_scheduler ''get'' [VNumber 5] (Some (NumberLane (number_key 5))) NoWrap"
    by (simp add: defs)
  also have "\<dots> = \<lparr>jobs = [sample_job ''get'' []], lanes = [NumberLane (number_key 5) \<mapsto> 0], inFlight = [0], barrier = None, cursorLanes = []\<rparr>"
    by (simp add: runShared_def new_scheduler_def sample_job_def option_list_def)
  finally have s1: "schedule new_scheduler ''get'' [VNumber 5] = \<dots>" .
  have "schedule \<lparr>jobs = [sample_job ''get'' []], lanes = [NumberLane (number_key 5) \<mapsto> 0], inFlight = [0], barrier = None, cursorLanes = []\<rparr>
      ''commit'' [VNumber 5] =
      runShared \<lparr>jobs = [sample_job ''get'' []], lanes = [NumberLane (number_key 5) \<mapsto> 0], inFlight = [0], barrier = None, cursorLanes = []\<rparr>
      ''commit'' [VNumber 5] (Some (NumberLane (number_key 5))) NoWrap"
    by (simp add: defs)
  also have "\<dots> = \<lparr>jobs = [sample_job ''get'' [], sample_job ''commit'' [0]], lanes = [NumberLane (number_key 5) \<mapsto> 1], inFlight = [0, 1],
      barrier = None, cursorLanes = []\<rparr>"
    by (simp add: runShared_def sample_job_def option_list_def)
  finally have s2: "schedule (schedule new_scheduler ''get'' [VNumber 5]) ''commit'' [VNumber 5] = \<dots>" using s1 by simp
  show ?thesis unfolding sample_requests_def s2 by (simp add: defs runExclusive_def option_list_def)
qed

theorem scheduler_excludes_witness:
  "sched_reach (set_status sample_requests 0 Running) \<and> precedes (set_status sample_requests 0 Running) 0 1 \<and>
    job_status (jobs (set_status sample_requests 0 Running) ! 1) = Waiting"
proof -
  have "ready sample_requests 0" by (simp add: ready_def sample_requests_jobs sample_job_def)
  then have r: "sched_reach (set_status sample_requests 0 Running)" by (rule sched_reach.step [OF sample_requests_reach sched_step.start])
  have open_0: "\<not> settled (set_status sample_requests 0 Running) 0" by (simp add: settled_def set_status_def sample_requests_jobs sample_job_def)
  have before: "precedes (set_status sample_requests 0 Running) 0 1"
    by (simp add: precedes_def set_status_def sample_requests_jobs sample_job_def)
  then show ?thesis using scheduler_excludes [OF r] r open_0 by blast
qed

theorem scheduler_progress_witness: "\<exists>t. drain_step sample_requests t \<and> open_work t < open_work sample_requests"
proof -
  have "\<not> settled sample_requests 0" "0 < length (jobs sample_requests)" by (simp_all add: settled_def sample_requests_jobs sample_job_def)
  then show ?thesis using scheduler_progress [OF sample_requests_reach] by blast
qed

end
