(* ===== verification/WorkerClient.thy ===== *)
theory WorkerClient
  imports Protocol "HOL-Library.Multiset"
begin

text \<open>
  The client of the worker protocol, \<^verbatim>\<open>packages/sdk/src/worker-client.ts\<close>: calls that wait until the worker is
  ready, requests that wait for their response, the queue of requests that are sent together, and the ways a
  client ends. The events the client reacts to are the steps of a transition system. The lemmas show that each
  call is settled once and never lost, that each request is sent at most once and in order, and that the
  batches keep the limits the worker checks.
\<close>

section \<open>Payloads\<close>

definition MAX_WORKER_BATCH_MESSAGES :: nat where "MAX_WORKER_BATCH_MESSAGES = 128"
definition MAX_WORKER_BATCH_BYTES :: nat where "MAX_WORKER_BATCH_BYTES = 1024 * 1024"

text \<open>\<^verbatim>\<open>byteLength += n\<close>, where \<open>None\<close> stands for the infinite size.\<close>

fun add_size :: "nat option \<Rightarrow> nat option \<Rightarrow> nat option" where
  "add_size (Some m) (Some n) = Some (m + n)"
| "add_size _ _ = None"

definition sum_sizes :: "nat option list \<Rightarrow> nat option" where
  "sum_sizes sizes = foldr add_size sizes (Some 0)"

text \<open>
  \<^verbatim>\<open>payloadBytes\<close>. Values are trees, so no object is met twice, and a byte array is the only view of its buffer.
\<close>

fun payloadBytes :: "jsval \<Rightarrow> nat option" where
  "payloadBytes (VString t) = Some (8 + length t * 2)"
| "payloadBytes (VBytes bs) = Some (8 + (8 + length bs))"
| "payloadBytes (VArray xs) = add_size (Some 8) (sum_sizes (map payloadBytes xs))"
| "payloadBytes (VObject ps) =
     add_size (Some 8)
       (sum_sizes (map (\<lambda>(key, v). if key = js ''__proto__'' then None else add_size (Some (8 + length key * 2)) (payloadBytes v)) ps))"
| "payloadBytes _ = Some 8"

text \<open>
  \<^verbatim>\<open>isPlainPayload\<close>. Values that are not plain contain a function or a symbol; \<^verbatim>\<open>structuredClone\<close> and
  \<^verbatim>\<open>postMessage\<close> throw a \<^verbatim>\<open>DataCloneError\<close> for these values and for no other.
\<close>

fun isPlainPayload :: "jsval \<Rightarrow> bool" where
  "isPlainPayload VOther = False"
| "isPlainPayload (VArray xs) = list_all isPlainPayload xs"
| "isPlainPayload (VObject ps) = list_all (\<lambda>(key, v). isPlainPayload v) ps"
| "isPlainPayload _ = True"

text \<open>The size added to \<open>n\<close> is above, or at least, the limit.\<close>

definition size_above :: "nat \<Rightarrow> nat option \<Rightarrow> bool" where
  "size_above n sz = (case sz of None \<Rightarrow> True | Some b \<Rightarrow> MAX_WORKER_BATCH_BYTES < n + b)"

definition size_reaches :: "nat \<Rightarrow> nat option \<Rightarrow> bool" where
  "size_reaches n sz = (case sz of None \<Rightarrow> True | Some b \<Rightarrow> MAX_WORKER_BATCH_BYTES \<le> n + b)"

section \<open>State\<close>

text \<open>
  Why a call fails: an error by name, the platform's \<^verbatim>\<open>DataCloneError\<close>, or an exception of the preparation of
  the arguments.
\<close>

datatype failure = Named js_error | CloneFailure | Raised error

datatype settlement = Resolved jsval | Rejected failure

text \<open>\<^verbatim>\<open>workerProtocolError\<close>.\<close>

definition workerProtocolError :: "string \<Rightarrow> string \<Rightarrow> failure" where
  "workerProtocolError name message =
     Named \<lparr>err_class = None, err_name = js name, err_message = js message, err_code = Some (js name), err_stack = None\<rparr>"

text \<open>A call of \<^verbatim>\<open>send\<close> that awaits \<^verbatim>\<open>this.ready\<close>. Calls are numbered in the order they are made.\<close>

record waiting =
  waiting_call :: nat
  waiting_command :: string
  waiting_args :: "jsval list"
  waiting_response :: string

record pending_request =
  pending_id :: nat
  pending_call :: nat
  pending_command :: string
  pending_timer :: bool

record queued_request =
  queued_id :: nat
  queued_message :: jsval

text \<open>
  The client's fields. The promise \<^verbatim>\<open>ready\<close> is resolved when \<open>ready_resolved\<close> is set and rejected when the client
  was closed before. The last four fields record what the client has done: the calls made, the groups of requests
  given to \<^verbatim>\<open>postMessage\<close>, the calls settled, and the calls of the fatal handler.
\<close>

record client =
  next_request_id :: nat
  pending :: "pending_request list"
  closed :: bool
  ready_resolved :: bool
  ready_timer :: bool
  close_reason :: "failure option"
  batching :: bool
  queued_requests :: "queued_request list"
  queued_bytes :: nat
  flush_scheduled :: bool
  awaiting :: "waiting list"
  request_timeout :: bool
  forward_scan_packets :: bool
  fatal_handler :: bool
  call_count :: nat
  posted :: "queued_request list list"
  settled_calls :: "(nat \<times> settlement) list"
  fatal_calls :: "failure list"

definition new_client :: "bool \<Rightarrow> bool \<Rightarrow> bool \<Rightarrow> client" where
  "new_client request_timeout_set ready_timeout_set forward =
     \<lparr>next_request_id = 1, pending = [], closed = False, ready_resolved = False, ready_timer = ready_timeout_set,
      close_reason = None, batching = False, queued_requests = [], queued_bytes = 0, flush_scheduled = False,
      awaiting = [], request_timeout = request_timeout_set, forward_scan_packets = forward, fatal_handler = False,
      call_count = 0, posted = [], settled_calls = [], fatal_calls = []\<rparr>"

definition settle_call :: "client \<Rightarrow> nat \<Rightarrow> settlement \<Rightarrow> client" where
  "settle_call c n r = c\<lparr>settled_calls := settled_calls c @ [(n, r)]\<rparr>"

definition find_pending :: "client \<Rightarrow> nat \<Rightarrow> pending_request option" where
  "find_pending c rid = List.find (\<lambda>p. pending_id p = rid) (pending c)"

definition drop_pending :: "client \<Rightarrow> nat \<Rightarrow> client" where
  "drop_pending c rid = c\<lparr>pending := filter (\<lambda>p. pending_id p \<noteq> rid) (pending c)\<rparr>"

text \<open>Takes the request out of the map and settles its call.\<close>

definition settle_pending :: "client \<Rightarrow> pending_request \<Rightarrow> settlement \<Rightarrow> client" where
  "settle_pending c p r = settle_call (drop_pending c (pending_id p)) (pending_call p) r"

definition rejectPending :: "client \<Rightarrow> nat \<Rightarrow> failure \<Rightarrow> client" where
  "rejectPending c rid e = (case find_pending c rid of None \<Rightarrow> c | Some p \<Rightarrow> settle_pending c p (Rejected e))"

section \<open>Sending\<close>

definition request_message :: "nat \<Rightarrow> string \<Rightarrow> jsval list \<Rightarrow> jsval" where
  "request_message rid command args =
     VObject [(js ''type'', str ''moyodb:worker-protocol:request''), (js ''version'', num 1), (js ''id'', num rid),
              (js ''command'', str command), (js ''args'', VArray args)]"

text \<open>The value posted for a group of requests.\<close>

definition wire :: "queued_request list \<Rightarrow> jsval" where
  "wire active =
     (case active of
        [entry] \<Rightarrow> queued_message entry
      | _ \<Rightarrow> VObject [(js ''type'', str ''moyodb:worker-protocol:request-batch''), (js ''version'', num 1),
                      (js ''requests'', VArray (map queued_message active))])"

definition closed_failure :: "client \<Rightarrow> failure" where
  "closed_failure c =
     (case close_reason c of
        Some e \<Rightarrow> e | None \<Rightarrow> workerProtocolError ''WorkerTerminatedError'' ''worker transport is closed'')"

text \<open>\<^verbatim>\<open>send\<close> up to its first \<^verbatim>\<open>await\<close>.\<close>

definition send_start :: "client \<Rightarrow> string \<Rightarrow> jsval list \<Rightarrow> string \<Rightarrow> client" where
  "send_start c command args response =
     (let n = call_count c; c1 = c\<lparr>call_count := n + 1\<rparr> in
      if closed c then settle_call c1 n (Rejected (closed_failure c))
      else c1\<lparr>awaiting := awaiting c @
             [\<lparr>waiting_call = n, waiting_command = command, waiting_args = args, waiting_response = response\<rparr>]\<rparr>)"

definition flushRequests :: "client \<Rightarrow> client" where
  "flushRequests c =
     (let queued = queued_requests c; c1 = c\<lparr>queued_requests := [], queued_bytes := 0\<rparr> in
      if closed c then c1
      else
        let active = filter (\<lambda>entry. find_pending c (queued_id entry) \<noteq> None) queued in
        if active = [] then c1
        else if isPlainPayload (wire active) then c1\<lparr>posted := posted c1 @ [active]\<rparr>
        else fold (\<lambda>entry c. rejectPending c (queued_id entry) CloneFailure) active c1)"

definition queueRequest :: "client \<Rightarrow> queued_request \<Rightarrow> client" where
  "queueRequest c entry =
     (if find_pending c (queued_id entry) = None then c
      else
        let byteLength = payloadBytes (queued_message entry);
            c1 = (if queued_requests c \<noteq> [] \<and> size_above (queued_bytes c) byteLength then flushRequests c else c)
        in if MAX_WORKER_BATCH_MESSAGES \<le> length (queued_requests c1) + 1 \<or> size_reaches (queued_bytes c1) byteLength
           then flushRequests (c1\<lparr>queued_requests := queued_requests c1 @ [entry]\<rparr>)
           else if isPlainPayload (queued_message entry)
           then c1\<lparr>queued_requests := queued_requests c1 @ [entry],
                   queued_bytes := queued_bytes c1 + the byteLength, flush_scheduled := True\<rparr>
           else rejectPending c1 (queued_id entry) CloneFailure)"

text \<open>
  The methods of the client and the number of their parameters; \<^verbatim>\<open>getIndexes\<close> leaves out a transaction that is
  not given. An autocommit is answered in the format of its inner command.
\<close>

definition METHODS :: "(string \<times> nat) list" where
  "METHODS =
     [(''open'', 1), (''close'', 0), (''destroy'', 0), (''deleteDB'', 1), (''begin'', 1), (''commit'', 1), (''rollback'', 1),
      (''createStore'', 3), (''dropStore'', 2), (''clearStore'', 2), (''get'', 3), (''getMany'', 3), (''has'', 3), (''put'', 5),
      (''putMany'', 4), (''delete'', 3), (''deleteMany'', 3), (''applyBatch'', 3), (''scan'', 3), (''scanPage'', 1),
      (''closeCursor'', 1), (''getByIndex'', 4), (''scanByIndex'', 4), (''scanByIndexPage'', 7), (''getIndexes'', 1),
      (''reconcileIndexes'', 2), (''listStores'', 0), (''getVersion'', 0), (''changesSince'', 2), (''setSchemaVersion'', 2),
      (''exportSnapshot'', 1), (''importSnapshot'', 1), (''reset'', 0), (''compact'', 0), (''rebuild'', 0), (''stats'', 0),
      (''storageInfo'', 0), (''requestPersistence'', 0), (''setFailpoint'', 1)]"

definition method_args :: "string \<Rightarrow> jsval list \<Rightarrow> jsval list option" where
  "method_args name params =
     (case map_of METHODS name of
        None \<Rightarrow> None
      | Some n \<Rightarrow>
          Some (if name = ''getIndexes'' \<and> arg_at params 0 = VUndefined then [] else map (arg_at params) [0..<n]))"

definition call_client :: "client \<Rightarrow> string \<Rightarrow> jsval list \<Rightarrow> client option" where
  "call_client c name params =
     (case method_args name params of None \<Rightarrow> None | Some args \<Rightarrow> Some (send_start c name args name))"

definition autocommit_client :: "client \<Rightarrow> string \<Rightarrow> string \<Rightarrow> jsval list \<Rightarrow> client" where
  "autocommit_client c mode command args = send_start c ''autocommit'' [str mode, str command, VArray args] command"

text \<open>\<^verbatim>\<open>send\<close> from the number of the request on.\<close>

definition post_request :: "client \<Rightarrow> waiting \<Rightarrow> bool \<Rightarrow> client" where
  "post_request c w shouldQueue =
     (let rid = next_request_id c; c1 = c\<lparr>next_request_id := rid + 1\<rparr> in
      case prepareWorkerCommandPayload (waiting_command w) (waiting_args w) of
        Inl e \<Rightarrow> settle_call c1 (waiting_call w) (Rejected (Raised e))
      | Inr prepared \<Rightarrow>
          let entry = \<lparr>queued_id = rid, queued_message = request_message rid (waiting_command w) prepared\<rparr>;
              c2 = c1\<lparr>pending := pending c1 @
                     [\<lparr>pending_id = rid, pending_call = waiting_call w, pending_command = waiting_response w,
                       pending_timer = request_timeout c1\<rparr>]\<rparr>
          in if shouldQueue then queueRequest c2 entry
             else if isPlainPayload (queued_message entry) then c2\<lparr>posted := posted c2 @ [[entry]]\<rparr>
             else rejectPending c2 rid CloneFailure)"

text \<open>The continuation of the first waiting call after \<^verbatim>\<open>this.ready\<close> is settled.\<close>

definition send_resume :: "client \<Rightarrow> client" where
  "send_resume c =
     (case awaiting c of
        [] \<Rightarrow> c
      | w # ws \<Rightarrow>
          let c1 = c\<lparr>awaiting := ws\<rparr> in
          if closed c then settle_call c1 (waiting_call w) (Rejected (closed_failure c))
          else if ready_resolved c then post_request c1 w (batching c \<and> (ws \<noteq> [] \<or> queued_requests c \<noteq> []))
          else c)"

section \<open>Receiving\<close>

definition message_id :: "jsval \<Rightarrow> nat option" where
  "message_id data =
     (case prop_get data (js ''id'') of VNumber n \<Rightarrow> if 0 \<le> f64_int n then Some (nat (f64_int n)) else None | _ \<Rightarrow> None)"

definition reject_message :: "client \<Rightarrow> jsval \<Rightarrow> failure \<Rightarrow> client" where
  "reject_message c data e = (case message_id data of None \<Rightarrow> c | Some rid \<Rightarrow> rejectPending c rid e)"

definition decode_failure :: "error \<Rightarrow> failure" where
  "decode_failure e =
     (case e of
        Throw WorkerProtocolError message \<Rightarrow> workerProtocolError ''WorkerProtocolError'' message
      | _ \<Rightarrow> workerProtocolError ''WorkerProtocolError'' ''worker response could not be decoded'')"

definition response_settlement :: "client \<Rightarrow> string \<Rightarrow> jsval \<Rightarrow> settlement" where
  "response_settlement c command data =
     (if prop_get data (js ''ok'') = VBool True then
        (if forward_scan_packets c \<and> command \<in> {''scanPage'', ''scan'', ''scanByIndex'', ''scanByIndexPage''}
         then Resolved (prop_get data (js ''result''))
         else (case decodeWorkerResponsePayload command (prop_get data (js ''result'')) of
                 Inr v \<Rightarrow> Resolved v | Inl e \<Rightarrow> Rejected (decode_failure e)))
      else (case deserializeWorkerError (prop_get data (js ''error'')) of
              Inr e \<Rightarrow> Rejected (Named e) | Inl e \<Rightarrow> Rejected (decode_failure e)))"

definition handleResponse :: "client \<Rightarrow> jsval \<Rightarrow> client" where
  "handleResponse c data =
     (if \<not> isWorkerProtocolResponseMessage data then
        (if is_object data \<and> prop_get data (js ''type'') = str ''moyodb:worker-protocol:response'' \<and>
            prop_get data (js ''version'') = num 1 \<and> is_safe_number (prop_get data (js ''id''))
         then reject_message c data (workerProtocolError ''WorkerProtocolError'' ''invalid worker response'')
         else c)
      else
        (case message_id data of
           None \<Rightarrow> c
         | Some rid \<Rightarrow>
             (case find_pending c rid of
                None \<Rightarrow> c
              | Some p \<Rightarrow> settle_pending c p (response_settlement c (pending_command p) data))))"

definition disposeInternal :: "client \<Rightarrow> failure \<Rightarrow> bool \<Rightarrow> client" where
  "disposeInternal c reason notifyFatal =
     (if closed c then c
      else c\<lparr>closed := True, close_reason := Some reason, ready_timer := False, queued_requests := [], queued_bytes := 0,
             settled_calls := settled_calls c @ map (\<lambda>p. (pending_call p, Rejected reason)) (pending c), pending := [],
             fatal_calls := fatal_calls c @ (if notifyFatal \<and> fatal_handler c then [reason] else [])\<rparr>)"

definition handleMessage :: "client \<Rightarrow> jsval \<Rightarrow> client" where
  "handleMessage c data =
     (if isWorkerProtocolReadyMessage data then
        (if ready_resolved c then c
         else c\<lparr>batching := (prop_get data (js ''batching'') = num 1), ready_resolved := True, ready_timer := False\<rparr>)
      else if isWorkerProtocolReadyEnvelope data then
        disposeInternal c (workerProtocolError ''WorkerProtocolError'' ''incompatible worker protocol ready message'') True
      else if is_object data \<and>
          prop_get data (js ''type'') \<in> {str ''moyodb:worker-protocol:response'', str ''moyodb:worker-protocol:response-batch''} \<and>
          prop_get data (js ''version'') \<noteq> num 1 then
        disposeInternal c (workerProtocolError ''WorkerProtocolError'' ''incompatible worker protocol response'') True
      else if isWorkerProtocolResponseBatchMessage data then
        (case prop_get data (js ''responses'') of VArray responses \<Rightarrow> fold (\<lambda>r c. handleResponse c r) responses c | _ \<Rightarrow> c)
      else if is_object data \<and> prop_get data (js ''type'') = str ''moyodb:worker-protocol:response-batch'' \<and>
          prop_get data (js ''version'') = num 1 then
        disposeInternal c (workerProtocolError ''WorkerProtocolError'' ''invalid worker response batch'') True
      else handleResponse c data)"

section \<open>Events\<close>

definition request_timed_out :: "client \<Rightarrow> pending_request \<Rightarrow> client" where
  "request_timed_out c p = settle_pending c p (Rejected (workerProtocolError ''WorkerRequestTimeoutError'' ''worker command timed out''))"

definition flush_microtask :: "client \<Rightarrow> client" where
  "flush_microtask c = flushRequests (c\<lparr>flush_scheduled := False\<rparr>)"

text \<open>
  A call, the continuation of a call, the flush microtask, a message, the two timeouts, the error events
  (for which \<^verbatim>\<open>handleError\<close> has picked the reason), \<^verbatim>\<open>dispose\<close>, and the setting of the fatal handler. The listeners
  are removed when the client closes.
\<close>

inductive client_step :: "client \<Rightarrow> client \<Rightarrow> bool" where
  call: "client_step c (send_start c command args response)"
| resume: "client_step c (send_resume c)"
| flush: "flush_scheduled c \<Longrightarrow> client_step c (flush_microtask c)"
| message: "\<not> closed c \<Longrightarrow> client_step c (handleMessage c data)"
| timeout: "p \<in> set (pending c) \<Longrightarrow> pending_timer p \<Longrightarrow> client_step c (request_timed_out c p)"
| unready: "ready_timer c \<Longrightarrow>
    client_step c (disposeInternal c (workerProtocolError ''WorkerReadyTimeoutError'' ''worker did not become ready'') True)"
| message_error: "\<not> closed c \<Longrightarrow>
    client_step c (disposeInternal c (workerProtocolError ''WorkerMessageError'' ''worker message could not be deserialized'') True)"
| runtime_error: "\<not> closed c \<Longrightarrow> client_step c (disposeInternal c reason True)"
| dispose: "client_step c (disposeInternal c reason False)"
| handler: "client_step c (c\<lparr>fatal_handler := handler_set\<rparr>)"

inductive client_reach :: "client \<Rightarrow> bool" where
  init: "client_reach (new_client request_timeout_set ready_timeout_set forward)"
| step: "client_reach c \<Longrightarrow> client_step c c' \<Longrightarrow> client_reach c'"

section \<open>The calls\<close>

lemma methods_are_commands: "map fst METHODS = remove1 ''autocommit'' WORKER_COMMANDS"
  by (simp add: METHODS_def WORKER_COMMANDS_def)

text \<open>The calls that wait, that are pending, and that were settled.\<close>

definition open_calls :: "client \<Rightarrow> nat multiset" where
  "open_calls c = mset (map waiting_call (awaiting c)) + mset (map pending_call (pending c)) + mset (map fst (settled_calls c))"

definition ids_ok :: "client \<Rightarrow> bool" where
  "ids_ok c \<longleftrightarrow> sorted_wrt (<) (map pending_id (pending c)) \<and> (\<forall>p \<in> set (pending c). pending_id p < next_request_id c)"

text \<open>The fields that taking requests out of the map leaves alone.\<close>

definition same_but_pending :: "client \<Rightarrow> client \<Rightarrow> bool" where
  "same_but_pending c c' \<longleftrightarrow> (\<exists>ps ss. c' = c\<lparr>pending := ps, settled_calls := ss\<rparr>)"

lemma same_but_pending_fields:
  assumes "same_but_pending c c'"
  shows "next_request_id c' = next_request_id c" "closed c' = closed c" "queued_requests c' = queued_requests c"
    "queued_bytes c' = queued_bytes c" "flush_scheduled c' = flush_scheduled c" "awaiting c' = awaiting c"
    "batching c' = batching c" "call_count c' = call_count c" "posted c' = posted c" "ready_resolved c' = ready_resolved c"
  using assms by (auto simp: same_but_pending_def)

lemma same_but_pending_refl [simp]: "same_but_pending c c"
  unfolding same_but_pending_def by (intro exI [of _ "pending c"] exI [of _ "settled_calls c"]) simp

lemma same_but_pending_trans: "same_but_pending a b \<Longrightarrow> same_but_pending b c \<Longrightarrow> same_but_pending a c"
  unfolding same_but_pending_def by clarsimp blast

lemma settle_pending_same: "same_but_pending c (settle_pending c p r)"
  unfolding same_but_pending_def settle_pending_def settle_call_def drop_pending_def
  by (intro exI [of _ "filter (\<lambda>q. pending_id q \<noteq> pending_id p) (pending c)"] exI [of _ "settled_calls c @ [(pending_call p, r)]"]) simp

lemma settle_pending_pending [simp]: "pending (settle_pending c p r) = filter (\<lambda>q. pending_id q \<noteq> pending_id p) (pending c)"
  by (simp add: settle_pending_def settle_call_def drop_pending_def)

lemma find_pending_Some: "find_pending c i = Some p \<Longrightarrow> p \<in> set (pending c) \<and> pending_id p = i"
  unfolding find_pending_def by (induction "pending c" arbitrary: c) (auto simp: find_Some_iff)

lemma find_pending_None: "find_pending c i = None \<longleftrightarrow> i \<notin> pending_id ` set (pending c)"
  unfolding find_pending_def by (auto simp: find_None_iff)

lemma mset_drop_key:
  "distinct (map k xs) \<Longrightarrow> x \<in> set xs \<Longrightarrow> mset (map f xs) = add_mset (f x) (mset (map f (filter (\<lambda>y. k y \<noteq> k x) xs)))"
proof (induction xs)
  case (Cons y xs)
  show ?case
  proof (cases "x = y")
    case True
    then have "filter (\<lambda>z. k z \<noteq> k x) xs = xs" using Cons.prems(1) by (auto simp: filter_id_conv image_def)
    then show ?thesis using True by simp
  next
    case False
    then have "x \<in> set xs" using Cons.prems(2) by simp
    moreover have "k y \<noteq> k x" using Cons.prems(1) \<open>x \<in> set xs\<close> by auto
    ultimately show ?thesis using Cons by simp
  qed
qed simp

lemma ids_distinct: "ids_ok c \<Longrightarrow> distinct (map pending_id (pending c))"
  by (simp add: ids_ok_def strict_sorted_iff)

lemma ids_ok_filter:
  assumes "ids_ok c" and "pending c' = filter P (pending c)" and "next_request_id c \<le> next_request_id c'"
  shows "ids_ok c'"
proof -
  have "sorted_wrt (<) (map pending_id (filter P (pending c)))"
    using assms(1) unfolding ids_ok_def sorted_wrt_map by (auto intro: sorted_wrt_filter)
  then show ?thesis using assms by (fastforce simp: ids_ok_def)
qed

lemma settle_pending_calls:
  assumes "ids_ok c" and "p \<in> set (pending c)"
  shows "open_calls (settle_pending c p r) = open_calls c \<and> ids_ok (settle_pending c p r)"
proof
  show "open_calls (settle_pending c p r) = open_calls c"
    using mset_drop_key [OF ids_distinct [OF assms(1)] assms(2), of pending_call]
    by (simp add: open_calls_def settle_pending_def settle_call_def drop_pending_def)
  show "ids_ok (settle_pending c p r)"
    by (rule ids_ok_filter [OF assms(1) settle_pending_pending])
      (simp add: same_but_pending_fields [OF settle_pending_same])
qed

lemma rejectPending_pending: "pending (rejectPending c i e) = filter (\<lambda>p. pending_id p \<noteq> i) (pending c)"
proof (cases "find_pending c i")
  case None
  then have "filter (\<lambda>p. pending_id p \<noteq> i) (pending c) = pending c" by (auto simp: find_pending_None intro: filter_True)
  then show ?thesis using None by (simp add: rejectPending_def)
next
  case (Some p)
  then show ?thesis using find_pending_Some [OF Some] by (simp add: rejectPending_def)
qed

lemma rejectPending_same: "same_but_pending c (rejectPending c i e)"
  by (simp add: rejectPending_def settle_pending_same split: option.split)

lemma rejectPending_calls: "ids_ok c \<Longrightarrow> open_calls (rejectPending c i e) = open_calls c \<and> ids_ok (rejectPending c i e)"
  using settle_pending_calls find_pending_Some by (auto simp: rejectPending_def split: option.split)

abbreviation reject_all :: "queued_request list \<Rightarrow> client \<Rightarrow> client" where
  "reject_all entries c \<equiv> fold (\<lambda>entry c. rejectPending c (queued_id entry) CloneFailure) entries c"

lemma reject_all:
  "same_but_pending c (reject_all entries c)"
  "pending (reject_all entries c) = filter (\<lambda>p. pending_id p \<notin> queued_id ` set entries) (pending c)"
  "ids_ok c \<Longrightarrow> open_calls (reject_all entries c) = open_calls c \<and> ids_ok (reject_all entries c)"
proof (induction entries arbitrary: c)
  case (Cons e es)
  { case 1 show ?case using Cons(1) rejectPending_same same_but_pending_trans by (simp; blast) }
  { case 2 show ?case by (simp add: Cons(2) rejectPending_pending conj_commute) }
  { case 3 then show ?case using Cons(3) rejectPending_calls by simp }
qed simp_all

section \<open>Requests sent and queued\<close>

text \<open>The requests given to \<^verbatim>\<open>postMessage\<close> so far, followed by those in the queue.\<close>

definition sent_ids :: "client \<Rightarrow> nat list" where
  "sent_ids c = map queued_id (concat (posted c) @ queued_requests c)"

definition entry_ok :: "queued_request \<Rightarrow> bool" where
  "entry_ok e \<longleftrightarrow> (\<exists>command args. queued_message e = request_message (queued_id e) command args)"

definition group_size :: "queued_request list \<Rightarrow> nat option" where
  "group_size es = sum_sizes (map (payloadBytes \<circ> queued_message) es)"

definition group_ok :: "queued_request list \<Rightarrow> bool" where
  "group_ok es \<longleftrightarrow> length es \<le> MAX_WORKER_BATCH_MESSAGES \<and> list_all entry_ok es \<and>
     (1 < length es \<longrightarrow> \<not> size_above 0 (group_size es))"

definition log_ok :: "client \<Rightarrow> bool" where
  "log_ok c \<longleftrightarrow> ids_ok c \<and> sorted_wrt (<) (sent_ids c) \<and> (\<forall>i \<in> set (sent_ids c). i < next_request_id c) \<and>
     (\<forall>g \<in> set (posted c). g \<noteq> [] \<and> group_ok g \<and> isPlainPayload (wire g)) \<and>
     (closed c \<longrightarrow> pending c = [] \<and> queued_requests c = [])"

definition queue_ok :: "client \<Rightarrow> bool" where
  "queue_ok c \<longleftrightarrow> length (queued_requests c) < MAX_WORKER_BATCH_MESSAGES \<and> list_all entry_ok (queued_requests c) \<and>
     group_size (queued_requests c) = Some (queued_bytes c) \<and> queued_bytes c < MAX_WORKER_BATCH_BYTES \<and>
     (queued_requests c \<noteq> [] \<longrightarrow> batching c)"

text \<open>Each pending request was sent or is in the queue, but for those in \<open>X\<close>.\<close>

definition sent_but :: "nat set \<Rightarrow> client \<Rightarrow> bool" where
  "sent_but X c \<longleftrightarrow> pending_id ` set (pending c) \<subseteq> set (sent_ids c) \<union> X"

lemma group_size_simps [simp]:
  "group_size [] = Some 0" "group_size (e # es) = add_size (payloadBytes (queued_message e)) (group_size es)"
  by (simp_all add: group_size_def sum_sizes_def)

lemma add_size_0 [simp]: "add_size sz (Some 0) = sz" "add_size (Some 0) sz = sz"
  by (cases sz; simp)+

lemma add_size_assoc: "add_size (add_size a b) c = add_size a (add_size b c)"
  by (cases a; cases b; cases c) simp_all

lemma group_size_append: "group_size (xs @ ys) = add_size (group_size xs) (group_size ys)"
  by (induction xs) (simp_all add: add_size_assoc)

lemma group_size_filter: "group_size es = Some n \<Longrightarrow> \<exists>m \<le> n. group_size (filter P es) = Some m"
proof (induction es arbitrary: n)
  case (Cons e es)
  then obtain a b where "payloadBytes (queued_message e) = Some a" "group_size es = Some b" "n = a + b"
    by (cases "payloadBytes (queued_message e)"; cases "group_size es") auto
  then show ?case using Cons.IH [of b] by (auto simp: trans_le_add2)
qed simp

lemma group_ok_filter: "group_ok es \<Longrightarrow> group_ok (filter P es)"
proof -
  assume g: "group_ok es"
  have "\<not> size_above 0 (group_size (filter P es))" if "1 < length (filter P es)"
  proof -
    have "1 < length es" using that length_filter_le [of P es] by linarith
    then obtain n where n: "group_size es = Some n" "n \<le> MAX_WORKER_BATCH_BYTES"
      using g by (auto simp: group_ok_def size_above_def split: option.splits)
    then show ?thesis using group_size_filter [OF n(1), of P] by (auto simp: size_above_def)
  qed
  moreover have "length (filter P es) \<le> MAX_WORKER_BATCH_MESSAGES"
    using g unfolding group_ok_def by (blast intro: order_trans [OF length_filter_le])
  ultimately show ?thesis using g by (auto simp: group_ok_def list_all_iff)
qed

section \<open>Sending keeps the invariants\<close>

lemma flushRequests_frame:
  "next_request_id (flushRequests c) = next_request_id c" "closed (flushRequests c) = closed c"
  "queued_requests (flushRequests c) = []" "queued_bytes (flushRequests c) = 0"
  "flush_scheduled (flushRequests c) = flush_scheduled c" "awaiting (flushRequests c) = awaiting c"
  "batching (flushRequests c) = batching c" "call_count (flushRequests c) = call_count c"
  "ready_resolved (flushRequests c) = ready_resolved c"
  by (simp_all add: flushRequests_def Let_def same_but_pending_fields [OF reject_all(1)])

lemma flushRequests_calls: "ids_ok c \<Longrightarrow> open_calls (flushRequests c) = open_calls c \<and> ids_ok (flushRequests c)"
proof -
  assume a: "ids_ok c"
  define c1 where "c1 = c\<lparr>queued_requests := [], queued_bytes := 0\<rparr>"
  have "open_calls c1 = open_calls c" "ids_ok c1" using a by (simp_all add: c1_def open_calls_def ids_ok_def)
  moreover have "open_calls (c1\<lparr>posted := ps\<rparr>) = open_calls c1" "ids_ok (c1\<lparr>posted := ps\<rparr>) = ids_ok c1" for ps
    by (simp_all add: open_calls_def ids_ok_def)
  ultimately show ?thesis using reject_all(3) [of c1] by (simp add: flushRequests_def Let_def c1_def [symmetric])
qed

lemma sorted_wrt_map_filter: "sorted_wrt R (map f xs) \<Longrightarrow> sorted_wrt R (map f (filter P xs))"
  by (auto simp: sorted_wrt_map intro: sorted_wrt_filter)

lemma flushRequests_log:
  assumes "log_ok c" and "group_ok (queued_requests c)" and "sent_but X c"
  shows "log_ok (flushRequests c) \<and> sent_but X (flushRequests c)"
proof (cases "closed c")
  case True
  then have "pending (flushRequests c) = []" "sent_ids (flushRequests c) = map queued_id (concat (posted c))" "posted (flushRequests c) = posted c"
    using assms(1) by (simp_all add: flushRequests_def Let_def sent_ids_def log_ok_def)
  then show ?thesis using assms(1) flushRequests_calls [of c]
    by (auto simp: log_ok_def sent_but_def flushRequests_frame sent_ids_def sorted_wrt_append)
next
  case False
  define es where "es = filter (\<lambda>entry. find_pending c (queued_id entry) \<noteq> None) (queued_requests c)"
  define c1 where "c1 = c\<lparr>queued_requests := [], queued_bytes := 0\<rparr>"
  have ids: "ids_ok (flushRequests c)" using assms(1) flushRequests_calls by (simp add: log_ok_def)
  have active: "group_ok es" using assms(2) unfolding es_def by (rule group_ok_filter)
  have es_sub: "\<And>e. e \<in> set es \<Longrightarrow> e \<in> set (queued_requests c)" by (simp add: es_def)
  have sorted: "sorted_wrt (<) (map queued_id (concat (posted c) @ queued_requests c))"
    using assms(1) by (simp add: log_ok_def sent_ids_def)
  consider (none) "es = []" "flushRequests c = c1" | (post) "es \<noteq> []" "isPlainPayload (wire es)" "flushRequests c = c1\<lparr>posted := posted c @ [es]\<rparr>"
    | (fail) "flushRequests c = reject_all es c1"
  proof -
    have "flushRequests c = (if es = [] then c1 else if isPlainPayload (wire es) then c1\<lparr>posted := posted c1 @ [es]\<rparr> else reject_all es c1)"
      using False unfolding flushRequests_def Let_def c1_def es_def by simp
    then show ?thesis using that by (cases "es = []"; cases "isPlainPayload (wire es)") (simp_all add: c1_def)
  qed
  then show ?thesis
  proof cases
    case none
    have "sent_but X c1"
      using assms(3) none(1) by (force simp: c1_def sent_but_def sent_ids_def es_def filter_empty_conv find_pending_None)
    moreover have "log_ok c1"
      using assms(1) sorted by (auto simp: c1_def log_ok_def ids_ok_def sent_ids_def sorted_wrt_append)
    ultimately show ?thesis using none(2) by simp
  next
    case post
    have "sorted_wrt (<) (map queued_id (concat (posted c) @ es))"
      using sorted sorted_wrt_map_filter [of "(<)" queued_id "queued_requests c"] by (auto simp: sorted_wrt_append es_def)
    moreover have "\<forall>e \<in> set (concat (posted c) @ es). queued_id e < next_request_id c"
      using assms(1) es_sub unfolding log_ok_def sent_ids_def set_map set_append by blast
    ultimately have "log_ok (c1\<lparr>posted := posted c @ [es]\<rparr>)"
      using assms(1) active post(1,2) False by (auto simp: c1_def log_ok_def ids_ok_def sent_ids_def)
    moreover have "sent_but X (c1\<lparr>posted := posted c @ [es]\<rparr>)"
      using assms(3) by (force simp: c1_def sent_but_def sent_ids_def es_def find_pending_None)
    ultimately show ?thesis using post(3) by simp
  next
    case fail
    note f = same_but_pending_fields [OF reject_all(1)]
    have "log_ok (reject_all es c1)"
      using assms(1) sorted ids fail False by (auto simp: log_ok_def f c1_def sent_ids_def sorted_wrt_append)
    moreover have "sent_but X (reject_all es c1)"
      using assms(3) by (force simp: sent_but_def sent_ids_def f reject_all(2) c1_def es_def find_pending_None)
    ultimately show ?thesis using fail by simp
  qed
qed

definition flush_ok :: "client \<Rightarrow> bool" where
  "flush_ok c \<longleftrightarrow> (queued_requests c \<noteq> [] \<longrightarrow> flush_scheduled c)"

lemma queue_ok_flush: "queue_ok (flushRequests c)"
  by (simp add: queue_ok_def flushRequests_frame MAX_WORKER_BATCH_MESSAGES_def MAX_WORKER_BATCH_BYTES_def)

lemma log_ok_calls: "log_ok c \<Longrightarrow> ids_ok c"
  by (simp add: log_ok_def)

lemma rejectPending_log:
  assumes "log_ok c" and "sent_but (insert i X) c"
  shows "log_ok (rejectPending c i e) \<and> sent_but X (rejectPending c i e)"
proof -
  note f = same_but_pending_fields [OF rejectPending_same [of c i e]]
  have "ids_ok (rejectPending c i e)" using assms(1) rejectPending_calls by (simp add: log_ok_def)
  then show ?thesis using assms by (auto simp: log_ok_def sent_but_def sent_ids_def f rejectPending_pending)
qed

lemma queue_ok_same: "same_but_pending c c' \<Longrightarrow> queue_ok c' = queue_ok c"
  by (simp add: queue_ok_def same_but_pending_fields)

lemma flush_ok_same: "same_but_pending c c' \<Longrightarrow> flush_ok c' = flush_ok c"
  by (simp add: flush_ok_def same_but_pending_fields)

lemma queueRequest_calls: "ids_ok c \<Longrightarrow> open_calls (queueRequest c entry) = open_calls c \<and> ids_ok (queueRequest c entry)"
proof -
  assume a: "ids_ok c"
  define c1 where "c1 = (if queued_requests c \<noteq> [] \<and> size_above (queued_bytes c) (payloadBytes (queued_message entry)) then flushRequests c else c)"
  have c1: "open_calls c1 = open_calls c" "ids_ok c1" using a flushRequests_calls by (simp_all add: c1_def)
  have upd: "open_calls (c1\<lparr>queued_requests := q\<rparr>) = open_calls c1" "ids_ok (c1\<lparr>queued_requests := q\<rparr>) = ids_ok c1"
    "open_calls (c1\<lparr>queued_requests := q, queued_bytes := n, flush_scheduled := True\<rparr>) = open_calls c1"
    "ids_ok (c1\<lparr>queued_requests := q, queued_bytes := n, flush_scheduled := True\<rparr>) = ids_ok c1" for q n
    by (simp_all add: open_calls_def ids_ok_def)
  show ?thesis
    using a c1 upd rejectPending_calls [of c1] flushRequests_calls [of "c1\<lparr>queued_requests := queued_requests c1 @ [entry]\<rparr>"]
    unfolding queueRequest_def Let_def c1_def [symmetric] by simp
qed

lemma queueRequest_frame:
  "next_request_id (queueRequest c entry) = next_request_id c" "closed (queueRequest c entry) = closed c"
  "awaiting (queueRequest c entry) = awaiting c" "batching (queueRequest c entry) = batching c"
  "call_count (queueRequest c entry) = call_count c" "ready_resolved (queueRequest c entry) = ready_resolved c"
  by (simp_all add: queueRequest_def Let_def flushRequests_frame same_but_pending_fields [OF rejectPending_same])

lemma queueRequest_log:
  assumes "log_ok c" "queue_ok c" "flush_ok c" "batching c" "\<not> closed c" and "sent_but {queued_id entry} c"
    and "entry_ok entry" "find_pending c (queued_id entry) \<noteq> None"
    and "\<And>i. i \<in> set (sent_ids c) \<Longrightarrow> i < queued_id entry" "queued_id entry < next_request_id c"
  shows "log_ok (queueRequest c entry) \<and> queue_ok (queueRequest c entry) \<and> flush_ok (queueRequest c entry) \<and>
    sent_but {} (queueRequest c entry)"
proof -
  define size where "size = payloadBytes (queued_message entry)"
  define c1 where "c1 = (if queued_requests c \<noteq> [] \<and> size_above (queued_bytes c) size then flushRequests c else c)"
  have gc: "group_ok (queued_requests c)"
    using assms(2) by (auto simp: queue_ok_def group_ok_def size_above_def)
  have c1: "log_ok c1" "queue_ok c1" "flush_ok c1" "sent_but {queued_id entry} c1" "batching c1" "\<not> closed c1"
      "next_request_id c1 = next_request_id c" "queued_requests c1 \<noteq> [] \<Longrightarrow> \<not> size_above (queued_bytes c1) size"
    using assms flushRequests_log [OF assms(1) gc assms(6)]
    by (auto simp: c1_def flushRequests_frame queue_ok_flush flush_ok_def)
  have sent_sub: "set (sent_ids c1) \<subseteq> set (sent_ids c)"
    by (auto simp: c1_def sent_ids_def flushRequests_def Let_def same_but_pending_fields [OF reject_all(1)])
  then have before: "\<And>i. i \<in> set (sent_ids c1) \<Longrightarrow> i < queued_id entry" using assms(9) by blast
  have c1q: "length (queued_requests c1) < MAX_WORKER_BATCH_MESSAGES" "list_all entry_ok (queued_requests c1)"
      "group_size (queued_requests c1) = Some (queued_bytes c1)" using c1(2) by (simp_all add: queue_ok_def)
  define c2 where "c2 = c1\<lparr>queued_requests := queued_requests c1 @ [entry]\<rparr>"
  have ids2: "sent_ids c2 = sent_ids c1 @ [queued_id entry]" by (simp add: c2_def sent_ids_def)
  have pend2: "pending c2 = pending c1" "closed c2 = closed c1" "posted c2 = posted c1" "ids_ok c2 = ids_ok c1" "next_request_id c2 = next_request_id c1"
    by (simp_all add: c2_def ids_ok_def)
  have log2: "log_ok c2" using c1(1,6,7) before assms(10) by (auto simp: log_ok_def ids2 pend2 sorted_wrt_append)
  have sent2: "sent_but {} c2" using c1(4) by (auto simp: sent_but_def ids2 pend2)
  have g2: "group_ok (queued_requests c2)"
    using c1q c1(8) assms(7)
    by (cases "size") (auto simp: group_ok_def c2_def group_size_append size_def size_above_def)
  consider (release) "queueRequest c entry = flushRequests c2"
    | (push) b where "queueRequest c entry = c2\<lparr>queued_bytes := queued_bytes c1 + b, flush_scheduled := True\<rparr>"
        "length (queued_requests c1) + 1 < MAX_WORKER_BATCH_MESSAGES" "size = Some b" "queued_bytes c1 + b < MAX_WORKER_BATCH_BYTES"
    | (reject) "queueRequest c entry = rejectPending c1 (queued_id entry) CloneFailure"
  proof -
    have e: "queueRequest c entry =
      (if MAX_WORKER_BATCH_MESSAGES \<le> length (queued_requests c1) + 1 \<or> size_reaches (queued_bytes c1) size then flushRequests c2
       else if isPlainPayload (queued_message entry) then c2\<lparr>queued_bytes := queued_bytes c1 + the size, flush_scheduled := True\<rparr>
       else rejectPending c1 (queued_id entry) CloneFailure)"
      using assms(8) by (auto simp: queueRequest_def Let_def size_def [symmetric] c1_def [symmetric] c2_def)
    show ?thesis
    proof (cases "MAX_WORKER_BATCH_MESSAGES \<le> length (queued_requests c1) + 1 \<or> size_reaches (queued_bytes c1) size")
      case True
      then show ?thesis using e release by simp
    next
      case False
      then obtain b where "size = Some b" "queued_bytes c1 + b < MAX_WORKER_BATCH_BYTES"
        by (auto simp: size_reaches_def split: option.splits)
      then show ?thesis using e False push [of b] reject by (cases "isPlainPayload (queued_message entry)") simp_all
    qed
  qed
  then show ?thesis
  proof cases
    case release
    then show ?thesis using flushRequests_log [OF log2 g2 sent2] by (simp add: queue_ok_flush flush_ok_def flushRequests_frame)
  next
    case push
    define c3 where "c3 = c2\<lparr>queued_bytes := queued_bytes c1 + b, flush_scheduled := True\<rparr>"
    have "log_ok c3 = log_ok c2" "sent_but {} c3 = sent_but {} c2" by (simp_all add: c3_def log_ok_def ids_ok_def sent_ids_def sent_but_def)
    moreover have "queue_ok c3"
      using c1q push c1(5) assms(7) by (simp add: queue_ok_def c3_def c2_def group_size_append size_def)
    ultimately show ?thesis using push(1) log2 sent2 by (simp add: c3_def [symmetric]) (simp add: c3_def flush_ok_def)
  next
    case reject
    then show ?thesis using rejectPending_log [OF c1(1), of "queued_id entry" "{}" CloneFailure] c1(2-4)
      by (simp add: queue_ok_same [OF rejectPending_same] flush_ok_same [OF rejectPending_same])
  qed
qed

section \<open>The invariant of the client\<close>

definition client_ok :: "client \<Rightarrow> bool" where
  "client_ok c \<longleftrightarrow> log_ok c \<and> queue_ok c \<and> flush_ok c \<and> sent_but {} c \<and> (batching c \<longrightarrow> ready_resolved c) \<and>
     open_calls c = mset [0..<call_count c]"

lemmas request_defs = log_ok_def ids_ok_def queue_ok_def flush_ok_def sent_but_def sent_ids_def

lemma settle_pending_ok:
  assumes "client_ok c" and "p \<in> set (pending c)"
  shows "client_ok (settle_pending c p r)"
proof -
  note same = settle_pending_same [of c p r]
  note f = same_but_pending_fields [OF same]
  have "log_ok c" "ids_ok c" using assms(1) by (simp_all add: client_ok_def log_ok_def)
  then show ?thesis
    using assms settle_pending_calls [OF \<open>ids_ok c\<close> assms(2), of r]
    by (simp add: client_ok_def queue_ok_same [OF same] flush_ok_same [OF same] f sent_but_def sent_ids_def log_ok_def) blast
qed

lemma rejectPending_ok: "client_ok c \<Longrightarrow> client_ok (rejectPending c i e)"
  using settle_pending_ok find_pending_Some by (auto simp: rejectPending_def split: option.split)

lemma client_ok_cong:
  assumes "client_ok c"
    and f: "pending c' = pending c" "next_request_id c' = next_request_id c" "closed c' = closed c" "posted c' = posted c"
      "queued_requests c' = queued_requests c" "queued_bytes c' = queued_bytes c" "flush_scheduled c' = flush_scheduled c"
      "batching c' = batching c" "ready_resolved c' = ready_resolved c"
    and "open_calls c' = mset [0..<call_count c']"
  shows "client_ok c'"
  using assms(1,11) unfolding client_ok_def request_defs f by simp

lemma send_start_ok:
  assumes "client_ok c"
  shows "client_ok (send_start c command args response)"
  by (rule client_ok_cong [OF assms])
    (use assms in \<open>simp_all add: send_start_def Let_def settle_call_def open_calls_def client_ok_def del: mset_upt\<close>)

lemma flush_microtask_ok:
  assumes "client_ok c"
  shows "client_ok (flush_microtask c)"
proof -
  let ?c = "c\<lparr>flush_scheduled := False\<rparr>"
  have q: "group_ok (queued_requests ?c)" using assms by (auto simp: client_ok_def queue_ok_def group_ok_def size_above_def)
  have log: "log_ok ?c" "sent_but {} ?c" and calls: "open_calls ?c = open_calls c" "ids_ok ?c"
    using assms by (simp_all add: client_ok_def log_ok_def ids_ok_def sent_ids_def sent_but_def open_calls_def)
  show ?thesis
    using assms flushRequests_log [OF log(1) q log(2)] flushRequests_calls [OF calls(2)] calls(1)
    by (simp add: client_ok_def flush_microtask_def queue_ok_flush flush_ok_def flushRequests_frame)
qed

lemma disposeInternal_ok:
  assumes "client_ok c"
  shows "client_ok (disposeInternal c reason notify)"
proof -
  have calls: "image_mset (fst \<circ> (\<lambda>p. (pending_call p, Rejected reason))) (mset (pending c)) = image_mset pending_call (mset (pending c))"
    by (rule image_mset_cong) simp
  have limits: "0 < MAX_WORKER_BATCH_MESSAGES" "0 < MAX_WORKER_BATCH_BYTES"
    by (simp_all add: MAX_WORKER_BATCH_MESSAGES_def MAX_WORKER_BATCH_BYTES_def)
  show ?thesis
  proof (cases "closed c")
    case True
    then show ?thesis using assms by (simp add: disposeInternal_def)
  next
    case False
    define c' where "c' = disposeInternal c reason notify"
    have f: "pending c' = []" "queued_requests c' = []" "queued_bytes c' = 0" "posted c' = posted c" "next_request_id c' = next_request_id c"
        "batching c' = batching c" "ready_resolved c' = ready_resolved c" "call_count c' = call_count c" "awaiting c' = awaiting c"
        "settled_calls c' = settled_calls c @ map (\<lambda>p. (pending_call p, Rejected reason)) (pending c)"
      using False by (simp_all add: c'_def disposeInternal_def)
    have "log_ok c'" using assms by (simp add: client_ok_def request_defs f sorted_wrt_append)
    moreover have "queue_ok c'" "flush_ok c'" "sent_but {} c'" using limits by (simp_all add: request_defs f)
    moreover have "open_calls c' = open_calls c" using calls by (simp add: open_calls_def f)
    ultimately show ?thesis using assms by (simp add: client_ok_def f c'_def [symmetric])
  qed
qed

lemma post_request_ok:
  assumes c: "log_ok c" "queue_ok c" "flush_ok c" "sent_but {} c" "\<not> closed c"
    and calls: "add_mset (waiting_call w) (open_calls c) = mset [0..<call_count c]"
    and ready: "batching c \<longrightarrow> ready_resolved c"
    and mode: "if should_queue then batching c else queued_requests c = []"
  shows "client_ok (post_request c w should_queue)"
proof -
  define i where "i = next_request_id c"
  define c1 where "c1 = c\<lparr>next_request_id := i + 1\<rparr>"
  have c1: "log_ok c1" "queue_ok c1" "flush_ok c1" "sent_but {} c1"
    using c by (simp_all add: c1_def i_def request_defs less_SucI)
  show ?thesis
  proof (cases "prepareWorkerCommandPayload (waiting_command w) (waiting_args w)")
    case (Inl e)
    have "client_ok (settle_call c1 (waiting_call w) (Rejected (Raised e)))"
      using c1 calls ready by (simp add: client_ok_def settle_call_def request_defs open_calls_def c1_def)
    then show ?thesis using Inl by (simp add: post_request_def Let_def c1_def i_def)
  next
    case (Inr prepared)
    define p where "p = \<lparr>pending_id = i, pending_call = waiting_call w, pending_command = waiting_response w, pending_timer = request_timeout c1\<rparr>"
    define e where "e = \<lparr>queued_id = i, queued_message = request_message i (waiting_command w) prepared\<rparr>"
    define c2 where "c2 = c1\<lparr>pending := pending c1 @ [p]\<rparr>"
    have f: "sent_ids c2 = sent_ids c" "posted c2 = posted c" "pending c2 = pending c @ [p]" "next_request_id c2 = i + 1"
        "closed c2 = closed c" "queued_requests c2 = queued_requests c" "pending_id p = i" "batching c2 = batching c" "queued_id e = i"
        "call_count c2 = call_count c" "ready_resolved c2 = ready_resolved c"
      by (simp_all add: c2_def c1_def p_def sent_ids_def e_def)
    have ids: "ids_ok c2"
      using c(1) by (auto simp: ids_ok_def f sorted_wrt_append log_ok_def i_def)
    have log: "log_ok c2" using c ids by (auto simp: log_ok_def f i_def)
    have sent: "sent_but {i} c2" using c(4) by (auto simp: sent_but_def f)
    have rest: "queue_ok c2" "flush_ok c2" using c1 by (simp_all add: c2_def queue_ok_def flush_ok_def)
    have calls2: "open_calls c2 = mset [0..<call_count c2]"
      using calls by (simp add: open_calls_def c2_def c1_def p_def)
    have before: "\<And>j. j \<in> set (sent_ids c2) \<Longrightarrow> j < i" using c(1) by (auto simp: f log_ok_def i_def)
    have e: "entry_ok e" by (auto simp: entry_ok_def e_def)
    have step: "post_request c w should_queue =
        (if should_queue then queueRequest c2 e
         else if isPlainPayload (queued_message e) then c2\<lparr>posted := posted c2 @ [[e]]\<rparr> else rejectPending c2 i CloneFailure)"
      unfolding c2_def c1_def p_def e_def i_def post_request_def Let_def Inr by simp
    show ?thesis
    proof (cases should_queue)
      case True
      have found: "find_pending c2 i \<noteq> None" by (simp add: find_pending_None f)
      have "batching c2" "\<not> closed c2" "i < next_request_id c2" using mode True c(5) by (simp_all add: f)
      then show ?thesis
        using step True calls2 ready queueRequest_calls [OF ids, of e]
          queueRequest_log [of c2 e, unfolded f(9), OF log rest _ _ sent e found before]
        by (simp add: client_ok_def queueRequest_frame f(8,11))
    next
      case False
      then have q: "queued_requests c = []" using mode by simp
      show ?thesis
      proof (cases "isPlainPayload (queued_message e)")
        case True
        define c3 where "c3 = c2\<lparr>posted := posted c2 @ [[e]]\<rparr>"
        have f3: "sent_ids c3 = sent_ids c2 @ [i]" "pending c3 = pending c2" "ids_ok c3 = ids_ok c2" "next_request_id c3 = i + 1"
            "posted c3 = posted c2 @ [[e]]" "closed c3 = closed c2" "queued_requests c3 = []" "open_calls c3 = open_calls c2" "call_count c3 = call_count c2"
            "batching c3 = batching c" "ready_resolved c3 = ready_resolved c"
          by (simp_all add: c3_def sent_ids_def f q e_def ids_ok_def f(4) open_calls_def f(8,11))
        have "group_ok [e]" using e by (simp add: group_ok_def MAX_WORKER_BATCH_MESSAGES_def)
        then have "log_ok c3" using log before True by (auto simp: log_ok_def f3 f(4) sorted_wrt_append wire_def c(5) f(5))
        moreover have "sent_but {} c3" using sent by (auto simp: sent_but_def f3)
        moreover have "queue_ok c3" "flush_ok c3" using rest by (simp_all add: c3_def queue_ok_def flush_ok_def)
        ultimately show ?thesis using step False True calls2 ready by (simp add: client_ok_def c3_def [symmetric] f3)
      next
        case not_plain: False
        note same = rejectPending_same [of c2 i CloneFailure]
        show ?thesis
          using step False not_plain calls2 ready rest rejectPending_log [OF log sent] rejectPending_calls [OF ids]
          by (simp add: client_ok_def queue_ok_same [OF same] flush_ok_same [OF same] same_but_pending_fields [OF same] f(8,11))
      qed
    qed
  qed
qed

lemma send_resume_ok:
  assumes "client_ok c"
  shows "client_ok (send_resume c)"
proof (cases "awaiting c")
  case Nil
  then show ?thesis using assms by (simp add: send_resume_def)
next
  case (Cons w ws)
  define c1 where "c1 = c\<lparr>awaiting := ws\<rparr>"
  have c1: "log_ok c1" "queue_ok c1" "flush_ok c1" "sent_but {} c1" "batching c1 \<longrightarrow> ready_resolved c1"
    "add_mset (waiting_call w) (open_calls c1) = mset [0..<call_count c1]"
    using assms Cons by (simp_all add: c1_def client_ok_def request_defs open_calls_def)
  consider (closed) "closed c" | (ready) "\<not> closed c" "ready_resolved c" | (waits) "\<not> closed c" "\<not> ready_resolved c" by blast
  then show ?thesis
  proof cases
    case closed
    have "client_ok (settle_call c1 (waiting_call w) r)" for r
      using c1 by (simp add: client_ok_def settle_call_def request_defs open_calls_def)
    then show ?thesis using closed Cons by (simp add: send_resume_def Let_def c1_def)
  next
    case ready
    let ?q = "batching c \<and> (ws \<noteq> [] \<or> queued_requests c \<noteq> [])"
    have "if ?q then batching c1 else queued_requests c1 = []" using c1(2) by (auto simp: c1_def queue_ok_def)
    then have "client_ok (post_request c1 w ?q)" using post_request_ok [OF c1(1-4) _ c1(6,5)] ready by (simp add: c1_def)
    then show ?thesis using ready Cons by (simp add: send_resume_def Let_def c1_def)
  next
    case waits
    then show ?thesis using Cons assms by (simp add: send_resume_def)
  qed
qed

lemma handleResponse_ok: "client_ok c \<Longrightarrow> client_ok (handleResponse c data)"
  using settle_pending_ok [of c] find_pending_Some [of c] rejectPending_ok [of c]
  by (auto simp: handleResponse_def reject_message_def split: option.split)

lemma handleResponses_ok: "client_ok c \<Longrightarrow> client_ok (fold (\<lambda>r c. handleResponse c r) rs c)"
  by (induction rs arbitrary: c) (simp_all add: handleResponse_ok)

lemma handleMessage_ok:
  assumes "client_ok c"
  shows "client_ok (handleMessage c data)"
proof -
  have "client_ok (c\<lparr>batching := b, ready_resolved := True, ready_timer := False\<rparr>)" if "\<not> ready_resolved c" for b
  proof -
    have "queued_requests c = []" using assms that by (auto simp: client_ok_def queue_ok_def)
    then show ?thesis using assms by (simp add: client_ok_def request_defs open_calls_def)
  qed
  then show ?thesis using assms disposeInternal_ok handleResponse_ok handleResponses_ok
    by (simp add: handleMessage_def split: jsval.split)
qed

lemma client_reach_ok: "client_reach c \<Longrightarrow> client_ok c"
proof (induction rule: client_reach.induct)
  case (init t r f)
  show ?case
    by (simp add: client_ok_def new_client_def request_defs open_calls_def MAX_WORKER_BATCH_MESSAGES_def MAX_WORKER_BATCH_BYTES_def)
next
  case (step c c')
  have handler: "client_ok (c\<lparr>fatal_handler := h\<rparr>)" if "client_ok c" for h
    using that by (simp add: client_ok_def request_defs open_calls_def)
  show ?case using step.hyps(2) step.IH
    by (cases rule: client_step.cases)
      (simp_all add: handler send_start_ok send_resume_ok flush_microtask_ok handleMessage_ok disposeInternal_ok request_timed_out_def settle_pending_ok)
qed

section \<open>Properties of the client\<close>

lemma resume_closed:
  "closed c \<Longrightarrow> length (awaiting c) = n \<Longrightarrow>
    awaiting ((send_resume ^^ n) c) = [] \<and> pending ((send_resume ^^ n) c) = pending c \<and> call_count ((send_resume ^^ n) c) = call_count c"
proof (induction n arbitrary: c)
  case (Suc n)
  then obtain w ws where w: "awaiting c = w # ws" "length ws = n" by (cases "awaiting c") auto
  then have "closed (send_resume c)" "awaiting (send_resume c) = ws" "pending (send_resume c) = pending c" "call_count (send_resume c) = call_count c"
    using Suc.prems(1) by (simp_all add: send_resume_def Let_def settle_call_def)
  then show ?case using Suc.IH [of "send_resume c"] w(2) by (simp add: funpow_Suc_right del: funpow.simps)
qed simp

lemma resumes_reach: "client_reach c \<Longrightarrow> client_reach ((send_resume ^^ n) c)"
  by (induction n) (auto intro: client_reach.step client_step.resume)

lemma reach_calls:
  assumes "client_reach c"
  shows "distinct (map waiting_call (awaiting c) @ map pending_call (pending c) @ map fst (settled_calls c))"
    and "set (map waiting_call (awaiting c) @ map pending_call (pending c) @ map fst (settled_calls c)) = {0..<call_count c}"
proof -
  have m: "mset (map waiting_call (awaiting c) @ map pending_call (pending c) @ map fst (settled_calls c)) = mset [0..<call_count c]"
    using client_reach_ok [OF assms] by (simp add: client_ok_def open_calls_def ac_simps del: mset_upt)
  show "distinct (map waiting_call (awaiting c) @ map pending_call (pending c) @ map fst (settled_calls c))"
    using mset_eq_imp_distinct_iff [OF m] by simp
  show "set (map waiting_call (awaiting c) @ map pending_call (pending c) @ map fst (settled_calls c)) = {0..<call_count c}"
    using mset_eq_setD [OF m] by simp
qed

text \<open>
  C36. A call of the client is never lost and never answered twice: in every state it either still waits for the
  worker to be ready, or is pending, or was settled, and only one of these and only once; and when the client is
  closed nothing is pending any more, and the waiting calls are all settled by the continuations that are due.
\<close>

theorem client_settles_once:
  assumes "client_reach c"
  shows "distinct (map waiting_call (awaiting c) @ map pending_call (pending c) @ map fst (settled_calls c)) \<and>
    set (map waiting_call (awaiting c) @ map pending_call (pending c) @ map fst (settled_calls c)) = {0..<call_count c} \<and>
    (closed c \<longrightarrow> pending c = [] \<and> fst ` set (settled_calls ((send_resume ^^ length (awaiting c)) c)) = {0..<call_count c})"
proof -
  have "pending c = [] \<and> fst ` set (settled_calls ((send_resume ^^ length (awaiting c)) c)) = {0..<call_count c}" if "closed c"
  proof -
    have "pending c = []" using client_reach_ok [OF assms] that by (simp add: client_ok_def log_ok_def)
    then show ?thesis using resume_closed [OF that refl] reach_calls(2) [OF resumes_reach [OF assms, of "length (awaiting c)"]] by simp
  qed
  then show ?thesis using reach_calls [OF assms] by blast
qed

text \<open>A message that the worker takes as a request or a batch of requests.\<close>

definition accepted_message :: "jsval \<Rightarrow> bool" where
  "accepted_message m \<longleftrightarrow> isWorkerProtocolRequestMessage m \<or>
     isWorkerProtocolRequestBatchMessage m \<and>
     (case prop_get m (js ''requests'') of VArray rs \<Rightarrow> list_all isWorkerProtocolRequestMessage rs | _ \<Rightarrow> False)"

lemma request_message_accepted: "n < 2 ^ 53 \<Longrightarrow> isWorkerProtocolRequestMessage (request_message n command args)"
  by (simp add: isWorkerProtocolRequestMessage_def request_message_def prop_get_object is_safe_number_def)

lemma group_accepted:
  assumes "g \<noteq> []" "group_ok g" and "\<And>e. e \<in> set g \<Longrightarrow> queued_id e < 2 ^ 53"
  shows "accepted_message (wire g)"
proof -
  have each: "isWorkerProtocolRequestMessage (queued_message e)" if e: "e \<in> set g" for e
    using assms(2) e request_message_accepted [OF assms(3) [OF e]] by (auto simp: group_ok_def list_all_iff entry_ok_def)
  show ?thesis
  proof (cases "\<exists>e. g = [e]")
    case True
    then show ?thesis using each by (auto simp: accepted_message_def wire_def)
  next
    case False
    then have w: "wire g = VObject [(js ''type'', str ''moyodb:worker-protocol:request-batch''), (js ''version'', num 1),
        (js ''requests'', VArray (map queued_message g))]"
      by (cases g rule: list.exhaust [case_product list.exhaust]) (auto simp: wire_def split: list.split)
    have "isWorkerProtocolRequestBatchMessage (wire g)"
      using assms(1,2) by (simp add: w isWorkerProtocolRequestBatchMessage_def isWorkerProtocolBatch_def prop_get_object group_ok_def
          MAX_WORKER_BATCH_MESSAGES_def)
    then show ?thesis using each by (simp add: accepted_message_def w prop_get_object list_all_iff)
  qed
qed

text \<open>
  C37. Requests reach the worker in the order they were numbered and at most once: the ids of the requests posted so
  far followed by those in the queue increase; each pending request is among them, and a queue that is not empty
  has its flush scheduled. Every message posted is one the worker takes, of at most 128 requests, and a message of
  several requests stays within 1 MiB.
\<close>

theorem client_sends_in_order:
  assumes "client_reach c"
  shows "sorted_wrt (<) (map queued_id (concat (posted c) @ queued_requests c)) \<and>
    (\<forall>p \<in> set (pending c). pending_id p \<in> set (map queued_id (concat (posted c) @ queued_requests c))) \<and>
    (queued_requests c \<noteq> [] \<longrightarrow> flush_scheduled c) \<and>
    (\<forall>g \<in> set (posted c). length g \<le> 128 \<and> (next_request_id c \<le> 2 ^ 53 \<longrightarrow> accepted_message (wire g)) \<and>
       (1 < length g \<longrightarrow> (\<exists>n \<le> 1024 * 1024. sum_sizes (map (payloadBytes \<circ> queued_message) g) = Some n)))"
proof -
  have ok: "log_ok c" "flush_ok c" "sent_but {} c" using client_reach_ok [OF assms] by (simp_all add: client_ok_def)
  have "length g \<le> 128 \<and> (next_request_id c \<le> 2 ^ 53 \<longrightarrow> accepted_message (wire g)) \<and>
       (1 < length g \<longrightarrow> (\<exists>n \<le> 1024 * 1024. sum_sizes (map (payloadBytes \<circ> queued_message) g) = Some n))"
    if g: "g \<in> set (posted c)" for g
  proof -
    have group: "g \<noteq> []" "group_ok g" using ok(1) g by (auto simp: log_ok_def)
    have "queued_id e < next_request_id c" if "e \<in> set g" for e
      using ok(1) g that by (auto simp: log_ok_def sent_ids_def)
    then have "accepted_message (wire g)" if "next_request_id c \<le> 2 ^ 53" using group_accepted [OF group] that less_le_trans by blast
    then show ?thesis using group(2)
      by (auto simp: group_ok_def group_size_def size_above_def MAX_WORKER_BATCH_MESSAGES_def MAX_WORKER_BATCH_BYTES_def split: option.splits)
  qed
  then show ?thesis using ok by (auto simp: log_ok_def flush_ok_def sent_but_def sent_ids_def)
qed

definition sample_ready :: jsval where
  "sample_ready = VObject [(js ''type'', str ''moyodb:worker-protocol:ready''), (js ''version'', num 1), (js ''batching'', num 1)]"

definition sample_client :: client where
  "sample_client = send_start (send_start (handleMessage (new_client False False False) sample_ready) ''begin'' [str ''readonly''] ''begin'')
     ''stats'' [] ''stats''"

lemma sample_client_reach: "client_reach sample_client"
  unfolding sample_client_def
  by (rule client_reach.step [OF client_reach.step [OF client_reach.step [OF client_reach.init client_step.message] client_step.call] client_step.call])
    (simp add: new_client_def)

theorem client_settles_once_witness:
  "client_reach (disposeInternal sample_client CloneFailure False) \<and>
    fst ` set (settled_calls ((send_resume ^^ 2) (disposeInternal sample_client CloneFailure False))) = {0, 1}"
proof -
  let ?c = "disposeInternal sample_client CloneFailure False"
  have r: "client_reach ?c" by (rule client_reach.step [OF sample_client_reach client_step.dispose])
  have ready: "isWorkerProtocolReadyMessage sample_ready"
    by (simp add: isWorkerProtocolReadyMessage_def isWorkerProtocolReadyEnvelope_def sample_ready_def prop_get_object)
  have c: "closed ?c" "length (awaiting ?c) = 2" "call_count ?c = 2"
    by (simp_all add: sample_client_def handleMessage_def ready new_client_def send_start_def disposeInternal_def Let_def)
  have "{0..<2} = {0, 1::nat}" by auto
  then show ?thesis using client_settles_once [OF r] c r by simp
qed

definition sample_entry :: "nat \<Rightarrow> string \<Rightarrow> jsval list \<Rightarrow> queued_request" where
  "sample_entry n command args = \<lparr>queued_id = n, queued_message = request_message n command args\<rparr>"

lemma sample_entry_payload:
  "payloadBytes (queued_message (sample_entry 1 ''begin'' [str ''readonly''])) = Some 230"
  "payloadBytes (queued_message (sample_entry 2 ''stats'' [])) = Some 206"
  "isPlainPayload (queued_message (sample_entry 1 ''begin'' [str ''readonly'']))" "isPlainPayload (queued_message (sample_entry 2 ''stats'' []))"
  by (simp_all add: sample_entry_def request_message_def sum_sizes_def js_def)

lemma sample_client_sent:
  "posted (flush_microtask (send_resume (send_resume sample_client))) =
     [[sample_entry 1 ''begin'' [str ''readonly''], sample_entry 2 ''stats'' []]] \<and>
   next_request_id (flush_microtask (send_resume (send_resume sample_client))) = 3 \<and> flush_scheduled (send_resume (send_resume sample_client))"
proof -
  have ready: "isWorkerProtocolReadyMessage sample_ready"
    by (simp add: isWorkerProtocolReadyMessage_def isWorkerProtocolReadyEnvelope_def sample_ready_def prop_get_object)
  have plain: "prepareWorkerCommandPayload ''begin'' args = Inr args" "prepareWorkerCommandPayload ''stats'' args = Inr args" for args
    by (simp_all add: prepareWorkerCommandPayload_def prepare_direct_def)
  define c where "c = handleMessage (new_client False False False) sample_ready"
  have c: "pending c = []" "awaiting c = []" "\<not> closed c" "batching c" "ready_resolved c" "queued_requests c = []" "queued_bytes c = 0"
      "next_request_id c = 1" "posted c = []" "call_count c = 0" "\<not> request_timeout c"
    by (simp_all add: c_def handleMessage_def ready new_client_def) (simp add: sample_ready_def prop_get_object)
  note limits = size_above_def size_reaches_def MAX_WORKER_BATCH_BYTES_def MAX_WORKER_BATCH_MESSAGES_def
  have 1: "send_resume sample_client =
    c\<lparr>call_count := 2, next_request_id := 2, flush_scheduled := True, queued_bytes := 230,
      awaiting := [\<lparr>waiting_call = 1, waiting_command = ''stats'', waiting_args = [], waiting_response = ''stats''\<rparr>],
      pending := [\<lparr>pending_id = 1, pending_call = 0, pending_command = ''begin'', pending_timer = False\<rparr>],
      queued_requests := [sample_entry 1 ''begin'' [str ''readonly'']]\<rparr>"
    using sample_entry_payload
    by (simp add: sample_client_def c_def [symmetric] send_start_def Let_def c send_resume_def post_request_def plain queueRequest_def
        find_pending_def sample_entry_def limits)
  have 2: "send_resume (send_resume sample_client) =
    c\<lparr>call_count := 2, next_request_id := 3, flush_scheduled := True, queued_bytes := 436, awaiting := [],
      pending := [\<lparr>pending_id = 1, pending_call = 0, pending_command = ''begin'', pending_timer = False\<rparr>,
                  \<lparr>pending_id = 2, pending_call = 1, pending_command = ''stats'', pending_timer = False\<rparr>],
      queued_requests := [sample_entry 1 ''begin'' [str ''readonly''], sample_entry 2 ''stats'' []]\<rparr>"
    using sample_entry_payload unfolding 1
    by (simp add: Let_def c send_resume_def post_request_def plain queueRequest_def find_pending_def sample_entry_def limits)
  have "isPlainPayload (wire [sample_entry 1 ''begin'' [str ''readonly''], sample_entry 2 ''stats'' []])"
    using sample_entry_payload by (simp add: wire_def)
  then show ?thesis unfolding 2 by (simp add: flush_microtask_def flushRequests_def Let_def c find_pending_def) (simp add: sample_entry_def)
qed

theorem client_sends_in_order_witness:
  "client_reach (flush_microtask (send_resume (send_resume sample_client))) \<and>
    accepted_message (wire [sample_entry 1 ''begin'' [str ''readonly''], sample_entry 2 ''stats'' []])"
proof -
  have "client_reach (send_resume (send_resume sample_client))"
    by (rule client_reach.step [OF client_reach.step [OF sample_client_reach client_step.resume] client_step.resume])
  then have r: "client_reach (flush_microtask (send_resume (send_resume sample_client)))"
    using sample_client_sent by (auto intro: client_reach.step client_step.flush)
  then show ?thesis using client_sends_in_order [OF r] sample_client_sent by simp
qed

end
