(* ===== verification/WorkerServer.thy ===== *)
theory WorkerServer
  imports Scheduler WorkerClient
begin

text \<open>
  The server of the worker protocol, \<^verbatim>\<open>packages/sdk/src/worker-server.ts\<close> without the scheduler: the checks of a
  request, the invocation of the API with packed and plain arguments, autocommit, the responses and the queue in
  which responses to a batch are collected. The API itself, its packed methods and the runtime's error objects are
  parameters.
\<close>

section \<open>The API and its invocation\<close>

text \<open>
  A method of the API changes a state \<open>'s\<close> and gives a result or throws a value. \<open>implemented\<close> and \<open>has_packed\<close>
  say which methods the object has.
\<close>

type_synonym 's task = "'s \<Rightarrow> (jsval + jsval) \<times> 's"

record 's worker_api =
  implemented :: "string \<Rightarrow> bool"
  has_packed :: "string \<Rightarrow> bool"
  call_method :: "string \<Rightarrow> jsval list \<Rightarrow> 's task"
  call_packed :: "string \<Rightarrow> jsval list \<Rightarrow> bytes \<Rightarrow> jsval list \<Rightarrow> 's task"

text \<open>
  What the runtime adds: an exception of the sources as an error object with its name, message, code and stack, the
  error object of a failed clone, and the conversion \<^verbatim>\<open>String(value)\<close>.
\<close>

record runtime =
  raised :: "error \<Rightarrow> jsval"
  clone_error :: jsval
  to_text :: "jsval \<Rightarrow> jsstring"

text \<open>\<^verbatim>\<open>dispatchPackedCommand\<close>; \<open>None\<close> is its result \<^verbatim>\<open>null\<close>.\<close>

definition is_number :: "jsval \<Rightarrow> bool" where
  "is_number v = (case v of VNumber _ \<Rightarrow> True | _ \<Rightarrow> False)"

definition is_string :: "jsval \<Rightarrow> bool" where
  "is_string v = (case v of VString _ \<Rightarrow> True | _ \<Rightarrow> False)"

definition dispatchPackedCommand :: "'s worker_api \<Rightarrow> string \<Rightarrow> jsval list \<Rightarrow> 's task option" where
  "dispatchPackedCommand api command args =
     (let packed = (if command = ''applyBatch'' then PACKED_BATCH_OPS_V1 else PACKED_BINARY_LIST_V1) in
      if command \<notin> {''getMany'', ''deleteMany'', ''putMany'', ''applyBatch''} then None
      else if \<not> is_number (arg_at args 0) \<or> \<not> is_string (arg_at args 1) then None
      else
        (case packed_bytes (arg_at args 2) packed of
           None \<Rightarrow> None
         | Some bs \<Rightarrow>
             if \<not> has_packed api command then None
             else Some (call_packed api command [arg_at args 0, arg_at args 1] bs
                          (if command = ''putMany'' then [arg_at args 3] else []))))"

definition invokeCommand :: "runtime \<Rightarrow> 's worker_api \<Rightarrow> string \<Rightarrow> jsval list \<Rightarrow> 's task" where
  "invokeCommand rt api command args s =
     (case dispatchPackedCommand api command args of
        Some t \<Rightarrow> t s
      | None \<Rightarrow>
          (case decodeWorkerCommandPayload command args of
             Inl e \<Rightarrow> (Inl (raised rt e), s)
           | Inr plain \<Rightarrow> call_method api command plain s))"

definition runAutocommit :: "runtime \<Rightarrow> 's worker_api \<Rightarrow> string \<Rightarrow> string \<Rightarrow> jsval list \<Rightarrow> 's task" where
  "runAutocommit rt api mode command args s =
     (case call_method api ''begin'' [str mode] s of
        (Inl e, s1) \<Rightarrow> (Inl e, s1)
      | (Inr txId, s1) \<Rightarrow>
          (case invokeCommand rt api command (txId # args) s1 of
             (Inl e, s2) \<Rightarrow> (case call_method api ''rollback'' [txId] s2 of (_, s3) \<Rightarrow> (Inl e, s3))
           | (Inr result, s2) \<Rightarrow>
               (case call_method api (if mode = ''readwrite'' then ''commit'' else ''rollback'') [txId] s2 of
                  (Inl e, s3) \<Rightarrow> (Inl e, s3)
                | (Inr _, s3) \<Rightarrow> (Inr result, s3))))"

section \<open>Responses\<close>

definition successResponse :: "jsval \<Rightarrow> jsval \<Rightarrow> jsval" where
  "successResponse n result =
     VObject [(js ''type'', str ''moyodb:worker-protocol:response''), (js ''version'', num 1), (js ''id'', n),
              (js ''ok'', VBool True), (js ''result'', result)]"

definition errorResponse :: "runtime \<Rightarrow> jsval \<Rightarrow> jsval \<Rightarrow> jsval" where
  "errorResponse rt n error =
     VObject [(js ''type'', str ''moyodb:worker-protocol:response''), (js ''version'', num 1), (js ''id'', n),
              (js ''ok'', VBool False), (js ''error'', serializeWorkerError (to_text rt) error)]"

definition protocol_response :: "runtime \<Rightarrow> jsval \<Rightarrow> string \<Rightarrow> jsval" where
  "protocol_response rt n message = errorResponse rt n (raised rt (Throw WorkerProtocolError message))"

text \<open>
  What \<^verbatim>\<open>dispatchWorkerRequest\<close> does before its first \<^verbatim>\<open>await\<close>: nothing, an answer at once, or a task given to the
  scheduler, with the id to answer to and the command that decides the format of the answer.
\<close>

datatype dispatched = Ignored | Answered jsval
  | Scheduled (sched_id: jsval) (sched_command: string) (sched_args: "jsval list") (sched_response: string)

definition dispatchWorkerRequest :: "runtime \<Rightarrow> 's worker_api \<Rightarrow> jsval \<Rightarrow> dispatched" where
  "dispatchWorkerRequest rt api data =
     (if \<not> isWorkerProtocolEnvelope data then Ignored
      else
        let n = prop_get data (js ''id'') in
        if \<not> isWorkerProtocolRequestMessage data
        then Answered (protocol_response rt (if is_safe_number n then n else num 0) ''invalid worker protocol request'')
        else
          (case (List.find (\<lambda>c. str c = prop_get data (js ''command'')) WORKER_COMMANDS, prop_get data (js ''args'')) of
             (Some command, VArray args) \<Rightarrow>
               if command = ''autocommit'' then
                 (case (List.find (\<lambda>c. str c = arg_at args 1) AUTOCOMMIT_COMMANDS, arg_at args 2) of
                    (Some inner, VArray innerArgs) \<Rightarrow>
                      if arg_at args 0 \<notin> {str ''readonly'', str ''readwrite''}
                      then Answered (protocol_response rt n ''invalid autocommit request'')
                      else if \<not> implemented api inner
                      then Answered (protocol_response rt n ''worker command is not implemented'')
                      else Scheduled n command args inner
                  | _ \<Rightarrow> Answered (protocol_response rt n ''invalid autocommit request''))
               else if \<not> implemented api command
               then Answered (protocol_response rt n ''worker command is not implemented'')
               else Scheduled n command args command
           | _ \<Rightarrow> Answered (protocol_response rt n ''unsupported worker command'')))"

text \<open>The task of a scheduled request.\<close>

definition request_task :: "runtime \<Rightarrow> 's worker_api \<Rightarrow> string \<Rightarrow> jsval list \<Rightarrow> 's task" where
  "request_task rt api command args =
     (if command = ''autocommit'' then
        (case (List.find (\<lambda>c. str c = arg_at args 1) AUTOCOMMIT_COMMANDS, arg_at args 2) of
           (Some inner, VArray innerArgs) \<Rightarrow>
             runAutocommit rt api (if arg_at args 0 = str ''readwrite'' then ''readwrite'' else ''readonly'') inner innerArgs
         | _ \<Rightarrow> invokeCommand rt api command args)
      else invokeCommand rt api command args)"

text \<open>The response to a task that ended.\<close>

definition task_response :: "runtime \<Rightarrow> jsval \<Rightarrow> string \<Rightarrow> jsval + jsval \<Rightarrow> jsval" where
  "task_response rt n responseCommand result =
     (case result of
        Inl e \<Rightarrow> errorResponse rt n e
      | Inr v \<Rightarrow>
          (case prepareWorkerResponsePayload responseCommand v of
             Inl e \<Rightarrow> errorResponse rt n (raised rt e)
           | Inr payload \<Rightarrow> successResponse n payload))"

section \<open>The server and its queue of responses\<close>

text \<open>
  A request the server has taken but not answered: its number in the order of arrival, the id to answer to, the
  format of the answer, the task of the scheduler unless the command is not scheduled, the batch it came with, and
  the outcome of the task once it ended.
\<close>

record server_task =
  task_request :: nat
  task_id :: jsval
  task_response_command :: string
  task_job :: "nat option"
  task_batch :: "nat option"
  task_outcome :: "(jsval + jsval) option"

record reply =
  reply_request :: nat
  reply_message :: jsval

text \<open>
  The server: the scheduler, the open tasks, how many requests of each batch are not answered yet, and the fields of
  \<^verbatim>\<open>ResponseQueue\<close>. The last three fields record the requests received, the groups of replies given to
  \<^verbatim>\<open>postMessage\<close>, and the requests whose reply was discarded.
\<close>

record server =
  tasks :: "server_task list"
  requests_of :: scheduler
  remaining :: "int list"
  queued_replies :: "reply list"
  queued_reply_bytes :: nat
  reply_flush_scheduled :: bool
  queue_closed :: bool
  request_count :: nat
  replies :: "reply list list"
  discarded :: "nat list"

definition new_server :: server where
  "new_server = \<lparr>tasks = [], requests_of = new_scheduler, remaining = [], queued_replies = [], queued_reply_bytes = 0,
     reply_flush_scheduled = False, queue_closed = False, request_count = 0, replies = [], discarded = []\<rparr>"

text \<open>The value posted for a group of replies.\<close>

definition reply_wire :: "reply list \<Rightarrow> jsval" where
  "reply_wire rs =
     (case rs of
        [r] \<Rightarrow> reply_message r
      | _ \<Rightarrow> VObject [(js ''type'', str ''moyodb:worker-protocol:response-batch''), (js ''version'', num 1),
                      (js ''responses'', VArray (map reply_message rs))])"

text \<open>\<^verbatim>\<open>postWorkerResponse\<close>; the first component says that it returned and did not throw.\<close>

definition post_replies :: "server \<Rightarrow> reply list \<Rightarrow> bool \<times> server" where
  "post_replies v rs =
     (if isPlainPayload (reply_wire rs) then (True, v\<lparr>replies := replies v @ [rs]\<rparr>) else (False, v))"

text \<open>
  \<^verbatim>\<open>ResponseQueue.flush\<close>. The queue is empty afterwards, also when posting throws: then the replies in it are gone,
  except for the last \<open>current\<close> ones, which are being answered.
\<close>

definition flush_replies :: "server \<Rightarrow> nat \<Rightarrow> bool \<times> server" where
  "flush_replies v current =
     (let queued = queued_replies v; v1 = v\<lparr>queued_replies := [], queued_reply_bytes := 0\<rparr> in
      if queue_closed v \<or> queued = [] then (True, v1)
      else
        (case post_replies v1 queued of
           (True, v2) \<Rightarrow> (True, v2)
         | (False, v2) \<Rightarrow>
             (False, v2\<lparr>discarded := discarded v2 @ map reply_request (take (length queued - current) queued)\<rparr>)))"

definition enqueue_reply :: "server \<Rightarrow> reply \<Rightarrow> bool \<Rightarrow> bool \<times> server" where
  "enqueue_reply v r flushNow =
     (if queue_closed v then (True, v\<lparr>discarded := discarded v @ [reply_request r]\<rparr>)
      else
        let byteLength = payloadBytes (reply_message r);
            first = (if queued_replies v \<noteq> [] \<and> size_above (queued_reply_bytes v) byteLength
                     then flush_replies v 0 else (True, v));
            v1 = snd first
        in if \<not> fst first then (False, v1)
           else if flushNow \<or> MAX_WORKER_BATCH_MESSAGES \<le> length (queued_replies v1) + 1 \<or>
                   size_reaches (queued_reply_bytes v1) byteLength
           then flush_replies (v1\<lparr>queued_replies := queued_replies v1 @ [r]\<rparr>) 1
           else if isPlainPayload (reply_message r)
           then (True, v1\<lparr>queued_replies := queued_replies v1 @ [r],
                          queued_reply_bytes := queued_reply_bytes v1 + the byteLength, reply_flush_scheduled := True\<rparr>)
           else (False, v1))"

text \<open>The \<^verbatim>\<open>respond\<close> of a request that came alone, or with a batch.\<close>

definition respond :: "server \<Rightarrow> nat option \<Rightarrow> reply \<Rightarrow> bool \<times> server" where
  "respond v batch r =
     (case batch of
        None \<Rightarrow> post_replies v [r]
      | Some b \<Rightarrow>
          let left = remaining v ! b - 1 in
          enqueue_reply (v\<lparr>remaining := (remaining v)[b := left]\<rparr>) r (left = 0))"

text \<open>A response that cannot be posted or queued is replaced by an error response, in the \<^verbatim>\<open>catch\<close> of the dispatch.\<close>

definition respond_or_error :: "runtime \<Rightarrow> server \<Rightarrow> nat option \<Rightarrow> reply \<Rightarrow> jsval \<Rightarrow> server" where
  "respond_or_error rt v batch r n =
     (case respond v batch r of
        (True, v1) \<Rightarrow> v1
      | (False, v1) \<Rightarrow> snd (respond v1 batch (r\<lparr>reply_message := errorResponse rt n (clone_error rt)\<rparr>)))"

definition take_request :: "runtime \<Rightarrow> 's worker_api \<Rightarrow> nat option \<Rightarrow> jsval \<Rightarrow> server \<Rightarrow> server" where
  "take_request rt api batch data v =
     (case dispatchWorkerRequest rt api data of
        Ignored \<Rightarrow> v
      | Answered m \<Rightarrow>
          snd (respond (v\<lparr>request_count := request_count v + 1\<rparr>) batch \<lparr>reply_request = request_count v, reply_message = m\<rparr>)
      | Scheduled n command args responseCommand \<Rightarrow>
          v\<lparr>request_count := request_count v + 1,
            requests_of := schedule (requests_of v) command args,
            tasks := tasks v @
              [\<lparr>task_request = request_count v, task_id = n, task_response_command = responseCommand,
                task_job = (if command \<in> set UNSCHEDULED_COMMANDS then None else Some (length (jobs (requests_of v)))),
                task_batch = batch, task_outcome = None\<rparr>]\<rparr>)"

definition handle_request_message :: "runtime \<Rightarrow> 's worker_api \<Rightarrow> jsval \<Rightarrow> server \<Rightarrow> server" where
  "handle_request_message rt api data v =
     (case prop_get data (js ''requests'') of
        VArray requests \<Rightarrow>
          if isWorkerProtocolRequestBatchMessage data
          then fold (take_request rt api (Some (length (remaining v)))) requests
                 (v\<lparr>remaining := remaining v @ [int (length requests)]\<rparr>)
          else take_request rt api None data v
      | _ \<Rightarrow> take_request rt api None data v)"

text \<open>The listener of \<^verbatim>\<open>exposeWorkerApi\<close>: messages of a foreign origin are ignored.\<close>

definition receive_event :: "runtime \<Rightarrow> 's worker_api \<Rightarrow> jsstring \<Rightarrow> jsstring \<Rightarrow> jsval \<Rightarrow> server \<Rightarrow> server" where
  "receive_event rt api own_origin origin data v =
     (if origin \<noteq> [] \<and> origin \<noteq> own_origin then v else handle_request_message rt api data v)"

text \<open>The end of a task, and the continuation that answers it.\<close>

definition finish_task :: "server \<Rightarrow> nat \<Rightarrow> jsval + jsval \<Rightarrow> server" where
  "finish_task v k outcome =
     v\<lparr>tasks := (tasks v)[k := (tasks v ! k)\<lparr>task_outcome := Some outcome\<rparr>],
       requests_of :=
         (case task_job (tasks v ! k) of
            None \<Rightarrow> requests_of v
          | Some i \<Rightarrow> settle (requests_of v) i (case outcome of Inl _ \<Rightarrow> None | Inr x \<Rightarrow> Some x))\<rparr>"

definition answer_task :: "runtime \<Rightarrow> server \<Rightarrow> nat \<Rightarrow> server" where
  "answer_task rt v k =
     (let t = tasks v ! k; v1 = v\<lparr>tasks := take k (tasks v) @ drop (Suc k) (tasks v)\<rparr> in
      case task_outcome t of
        None \<Rightarrow> v
      | Some outcome \<Rightarrow>
          respond_or_error rt v1 (task_batch t)
            \<lparr>reply_request = task_request t, reply_message = task_response rt (task_id t) (task_response_command t) outcome\<rparr>
            (task_id t))"

definition close_server :: "server \<Rightarrow> server" where
  "close_server v = v\<lparr>queue_closed := True, queued_replies := [], queued_reply_bytes := 0,
     discarded := discarded v @ map reply_request (queued_replies v)\<rparr>"

definition flush_turn :: "server \<Rightarrow> server" where
  "flush_turn v = snd (flush_replies (v\<lparr>reply_flush_scheduled := False\<rparr>) 0)"

text \<open>A task that may end: it runs, or it is not scheduled.\<close>

definition task_runs :: "server \<Rightarrow> server_task \<Rightarrow> bool" where
  "task_runs v t \<longleftrightarrow> task_outcome t = None \<and>
     (case task_job t of None \<Rightarrow> True
      | Some i \<Rightarrow> i < length (jobs (requests_of v)) \<and> job_status (jobs (requests_of v) ! i) = Running)"

text \<open>
  The steps of the server. When \<open>plain\<close> is set, the results of the API are values that can be cloned.
\<close>

inductive server_step :: "runtime \<Rightarrow> 's worker_api \<Rightarrow> bool \<Rightarrow> server \<Rightarrow> server \<Rightarrow> bool"
  for rt :: runtime and api :: "'s worker_api" and plain :: bool where
  receive: "\<not> queue_closed v \<Longrightarrow> server_step rt api plain v (receive_event rt api own_origin origin data v)"
| start: "ready (requests_of v) i \<Longrightarrow> server_step rt api plain v (v\<lparr>requests_of := set_status (requests_of v) i Running\<rparr>)"
| finish: "k < length (tasks v) \<Longrightarrow> task_runs v (tasks v ! k) \<Longrightarrow>
    (plain \<longrightarrow> (\<forall>x. outcome = Inr x \<longrightarrow> isPlainPayload x)) \<Longrightarrow> server_step rt api plain v (finish_task v k outcome)"
| answer: "k < length (tasks v) \<Longrightarrow> task_outcome (tasks v ! k) \<noteq> None \<Longrightarrow> server_step rt api plain v (answer_task rt v k)"
| react: "settled (requests_of v) i \<Longrightarrow> \<not> job_exclusive (jobs (requests_of v) ! i) \<Longrightarrow>
    server_step rt api plain v (v\<lparr>requests_of := clean (requests_of v) i\<rparr>)"
| flush: "reply_flush_scheduled v \<Longrightarrow> server_step rt api plain v (flush_turn v)"
| close: "server_step rt api plain v (close_server v)"

inductive server_reach :: "runtime \<Rightarrow> 's worker_api \<Rightarrow> bool \<Rightarrow> server \<Rightarrow> bool"
  for rt :: runtime and api :: "'s worker_api" and plain :: bool where
  init: "server_reach rt api plain new_server"
| step: "server_reach rt api plain v \<Longrightarrow> server_step rt api plain v v' \<Longrightarrow> server_reach rt api plain v'"

section \<open>Plain values\<close>

lemma list_all_map_plain [simp]: "list_all isPlainPayload (map f xs) = list_all (isPlainPayload \<circ> f) xs"
  by (simp add: list_all_iff)

lemma plain_property: "isPlainPayload v \<Longrightarrow> isPlainPayload (prop_get v key)"
proof -
  assume p: "isPlainPayload v"
  have indexed: "isPlainPayload x" if "indexed f n key = Some x" and "\<And>i. i < n \<Longrightarrow> isPlainPayload (f i)" for f n x
    using that by (auto simp: indexed_def dest!: map_of_SomeD)
  have "isPlainPayload x" if x: "own_property v key = Some x" for x
  proof (cases v)
    case (VObject ps)
    then have "(key, x) \<in> set ps" using x by (auto simp: own_property_def dest: map_of_SomeD)
    then show ?thesis using p VObject by (auto simp: list_all_iff)
  next
    case (VArray xs)
    then show ?thesis using x p indexed [of "\<lambda>i. xs ! i" "length xs"]
      by (auto simp: own_property_def list_all_length split: if_splits)
  next
    case (VBytes bs)
    then show ?thesis using x indexed [of "\<lambda>i. VNumber (f64_of_nat (unat (bs ! i)))" "length bs"] by (auto simp: own_property_def)
  qed (use x in \<open>simp_all add: own_property_def\<close>)
  then show ?thesis by (auto simp: prop_get_def split: option.split)
qed

lemma plain_response_payload:
  assumes "isPlainPayload v" and "prepareWorkerResponsePayload command v = Inr p"
  shows "isPlainPayload p"
proof -
  note props = plain_property [OF assms(1)]
  have packed: "isPlainPayload (packed_value tag bs)" for tag bs by (simp add: packed_value_def)
  have rows: "isPlainPayload (packed_rows_or rows packed)" if "isPlainPayload rows" for rows packed
    using that packed by (cases packed) auto
  have update: "isPlainPayload (with_property v key x)" if "isPlainPayload x" for key x
    using that assms(1) by (cases v) (auto simp: with_property_def list_all_iff)
  have branch: "isPlainPayload q"
    if "(case r of VArray xs \<Rightarrow> bindr (g xs) (\<lambda>pk. Inr (h pk)) | _ \<Rightarrow> Inr v) = Inr q" and "\<And>pk. isPlainPayload (h pk)"
    for q r and g :: "jsval list \<Rightarrow> 'b result" and h
    using that assms(1) by (cases r) (auto simp: bindr_eq_Inr)
  have list_branch: "isPlainPayload q"
    if "(case r of VArray (x # xs) \<Rightarrow> bindr (g x xs) (\<lambda>pk. Inr (h pk)) | _ \<Rightarrow> Inr v) = Inr q" and "\<And>pk. isPlainPayload (h pk)"
    for q r and g :: "jsval \<Rightarrow> jsval list \<Rightarrow> 'b result" and h
    using that assms(1) by (auto simp: bindr_eq_Inr split: jsval.splits list.splits)
  consider "command = ''scanPage''" | "command = ''scanByIndexPage''" | "command = ''getMany''" | "command = ''scan'' \<or> command = ''scanByIndex''"
    | "command \<notin> {''scanPage'', ''scanByIndexPage'', ''getMany'', ''scan'', ''scanByIndex''}" by blast
  then show ?thesis
  proof cases
    case 1
    have "isPlainPayload (with_property v (js ''rows'') (packed_rows_or (prop_get v (js ''rows'')) pk))" for pk
      by (rule update [OF rows [OF props]])
    then show ?thesis using assms 1 by (auto simp: prepareWorkerResponsePayload_def Let_def split: if_splits elim!: branch)
  next
    case 2
    have "isPlainPayload (VObject [(js ''rows'', packed_rows_or (prop_get v (js ''rows'')) pk), (js ''cursor'', prop_get v (js ''cursor''))])" for pk
      using rows [OF props] props by simp
    then show ?thesis using assms 2 by (auto simp: prepareWorkerResponsePayload_def Let_def split: if_splits elim!: branch)
  next
    case 3
    have "isPlainPayload (case pk of None \<Rightarrow> v | Some bs \<Rightarrow> packed_value PACKED_NULLABLE_BINARY_LIST_V1 bs)" for pk
      using assms(1) packed by (cases pk) auto
    then show ?thesis using assms 3 by (auto simp: prepareWorkerResponsePayload_def Let_def split: if_splits elim!: list_branch)
  next
    case 4
    have "isPlainPayload (packed_rows_or v pk)" for pk by (rule rows [OF assms(1)])
    then show ?thesis using assms 4 by (auto simp: prepareWorkerResponsePayload_def Let_def split: if_splits elim!: list_branch)
  next
    case 5
    then show ?thesis using assms by (simp add: prepareWorkerResponsePayload_def)
  qed
qed

lemma plain_string [simp]: "isPlainPayload (stringOrUndefined v)"
  by (cases v) (simp_all add: stringOrUndefined_def)

lemma plain_nullish: "isPlainPayload a \<Longrightarrow> isPlainPayload b \<Longrightarrow> isPlainPayload (nullish a b)"
  by (simp add: nullish_def)

lemma plain_error_response: "isPlainPayload n \<Longrightarrow> isPlainPayload (errorResponse rt n e)"
  by (simp add: errorResponse_def serializeWorkerError_def Let_def plain_nullish)

section \<open>Each request has one reply\<close>

text \<open>The requests that are answered, queued to be answered, or whose reply is gone.\<close>

definition replied :: "server \<Rightarrow> nat multiset" where
  "replied v = mset (map reply_request (queued_replies v)) + mset (map reply_request (concat (replies v))) + mset (discarded v)"

text \<open>The queue holds values that can be cloned, and its flush is scheduled.\<close>

definition replies_ok :: "server \<Rightarrow> bool" where
  "replies_ok v \<longleftrightarrow> list_all (isPlainPayload \<circ> reply_message) (queued_replies v) \<and>
     (queued_replies v \<noteq> [] \<longrightarrow> reply_flush_scheduled v \<and> \<not> queue_closed v)"

text \<open>The fields that answering leaves alone.\<close>

definition same_requests :: "server \<Rightarrow> server \<Rightarrow> bool" where
  "same_requests v v' \<longleftrightarrow> tasks v' = tasks v \<and> requests_of v' = requests_of v \<and> request_count v' = request_count v \<and>
     queue_closed v' = queue_closed v"

lemma plain_reply_wire: "isPlainPayload (reply_wire rs) = list_all (isPlainPayload \<circ> reply_message) rs"
  by (auto simp: reply_wire_def split: list.split)

lemma post_replies_cases:
  "post_replies v rs = (if list_all (isPlainPayload \<circ> reply_message) rs then (True, v\<lparr>replies := replies v @ [rs]\<rparr>) else (False, v))"
  by (simp add: post_replies_def plain_reply_wire)

text \<open>A flush of a queue whose last entry may be one that cannot be cloned.\<close>

lemma flush_replies_result:
  assumes "flush_replies v spare = (ok, v')"
    and "list_all (isPlainPayload \<circ> reply_message) (take (length (queued_replies v) - spare) (queued_replies v))"
  shows "queued_replies v' = []" "same_requests v v'" "remaining v' = remaining v"
    "\<not> queue_closed v \<Longrightarrow> ok \<longleftrightarrow> list_all (isPlainPayload \<circ> reply_message) (queued_replies v)"
    "\<not> queue_closed v \<Longrightarrow> ok \<Longrightarrow> replied v' = replied v \<and> discarded v' = discarded v"
    "\<not> queue_closed v \<Longrightarrow> \<not> ok \<Longrightarrow>
       replied v = replied v' + mset (map reply_request (drop (length (queued_replies v) - spare) (queued_replies v)))"
proof -
  have split_mset: "mset (map reply_request q) = mset (map reply_request (take k q)) + mset (map reply_request (drop k q))" for k q
    by (metis append_take_drop_id map_append mset_append)
  show "queued_replies v' = []" "same_requests v v'" "remaining v' = remaining v"
    using assms(1) by (auto simp: flush_replies_def Let_def post_replies_cases same_requests_def split: if_splits)
  assume "\<not> queue_closed v"
  then show "ok \<longleftrightarrow> list_all (isPlainPayload \<circ> reply_message) (queued_replies v)"
    using assms(1) by (auto simp: flush_replies_def Let_def post_replies_cases split: if_splits)
  show "replied v' = replied v \<and> discarded v' = discarded v" if ok
    using assms(1) that \<open>\<not> queue_closed v\<close>
    by (auto simp: flush_replies_def Let_def post_replies_cases replied_def ac_simps split: if_splits)
  show "replied v = replied v' + mset (map reply_request (drop (length (queued_replies v) - spare) (queued_replies v)))" if "\<not> ok"
    using assms(1) that \<open>\<not> queue_closed v\<close> split_mset [of "queued_replies v" "length (queued_replies v) - spare"]
    by (auto simp: flush_replies_def Let_def post_replies_cases replied_def ac_simps split: if_splits)
qed

lemma enqueue_reply_result:
  assumes "enqueue_reply v r now = (ok, v')" and "replies_ok v"
  shows "replies_ok v' \<and> same_requests v v' \<and> remaining v' = remaining v \<and>
    (if ok then replied v' = add_mset (reply_request r) (replied v) else replied v' = replied v) \<and>
    (isPlainPayload (reply_message r) \<longrightarrow> ok \<and> (\<not> queue_closed v \<longrightarrow> discarded v' = discarded v))"
proof (cases "queue_closed v")
  case True
  then show ?thesis using assms by (auto simp: enqueue_reply_def replies_ok_def same_requests_def replied_def)
next
  case False
  define size where "size = payloadBytes (reply_message r)"
  obtain ok1 v1 where f: "(if queued_replies v \<noteq> [] \<and> size_above (queued_reply_bytes v) size then flush_replies v 0 else (True, v)) = (ok1, v1)"
    by fastforce
  have plain: "list_all (isPlainPayload \<circ> reply_message) (queued_replies v)" using assms(2) by (simp add: replies_ok_def)
  then have p0: "list_all (isPlainPayload \<circ> reply_message) (take (length (queued_replies v) - 0) (queued_replies v))" by simp
  have v1: "ok1" "replies_ok v1" "same_requests v v1" "remaining v1 = remaining v" "replied v1 = replied v" "discarded v1 = discarded v"
    using f flush_replies_result [OF _ p0, of ok1 v1] plain False assms(2)
    by (auto simp: replies_ok_def same_requests_def split: if_splits)
  have open1: "\<not> queue_closed v1" using v1(3) False by (simp add: same_requests_def)
  define v2 where "v2 = v1\<lparr>queued_replies := queued_replies v1 @ [r]\<rparr>"
  have v2: "same_requests v1 v2" "remaining v2 = remaining v1" "replied v2 = add_mset (reply_request r) (replied v1)"
      "discarded v2 = discarded v1" "queued_replies v2 = queued_replies v1 @ [r]" "queue_closed v2 = queue_closed v1"
    by (simp_all add: v2_def same_requests_def replied_def)
  have e: "enqueue_reply v r now =
    (if now \<or> MAX_WORKER_BATCH_MESSAGES \<le> length (queued_replies v1) + 1 \<or> size_reaches (queued_reply_bytes v1) size
     then flush_replies v2 1
     else if isPlainPayload (reply_message r)
     then (True, v2\<lparr>queued_reply_bytes := queued_reply_bytes v1 + the size, reply_flush_scheduled := True\<rparr>)
     else (False, v1))"
    using False f v1(1) by (simp add: enqueue_reply_def Let_def size_def v2_def)
  consider (release) "flush_replies v2 1 = (ok, v')"
    | (push) "isPlainPayload (reply_message r)" "ok" "v' = v2\<lparr>queued_reply_bytes := queued_reply_bytes v1 + the size, reply_flush_scheduled := True\<rparr>"
    | (fail) "\<not> isPlainPayload (reply_message r)" "\<not> ok" "v' = v1"
    using e assms(1) by (auto split: if_splits)
  then show ?thesis
  proof cases
    case release
    have "list_all (isPlainPayload \<circ> reply_message) (take (length (queued_replies v2) - 1) (queued_replies v2))"
      using v1(2) by (simp add: v2 replies_ok_def)
    note r = flush_replies_result [OF release this]
    have ok: "ok \<longleftrightarrow> isPlainPayload (reply_message r)"
      using r(4) open1 v1(2) by (simp add: v2 replies_ok_def)
    show ?thesis
    proof (cases ok)
      case True
      then show ?thesis using r v1 v2 open1 ok by (simp add: replies_ok_def same_requests_def)
    next
      case False
      then have "replied v2 = add_mset (reply_request r) (replied v')" using r(6) open1 by (simp add: v2)
      then show ?thesis using r v1 v2 open1 ok False by (simp add: replies_ok_def same_requests_def)
    qed
  next
    case push
    then show ?thesis using v1 v2 open1 by (auto simp: replies_ok_def same_requests_def replied_def)
  next
    case fail
    then show ?thesis using v1 by simp
  qed
qed

lemma respond_result:
  assumes "respond v batch r = (ok, v')" and "replies_ok v"
  shows "replies_ok v' \<and> same_requests v v' \<and>
    (if ok then replied v' = add_mset (reply_request r) (replied v) else replied v' = replied v) \<and>
    (isPlainPayload (reply_message r) \<longrightarrow> ok \<and> (\<not> queue_closed v \<longrightarrow> discarded v' = discarded v))"
proof (cases batch)
  case None
  then show ?thesis using assms
    by (auto simp: respond_def post_replies_cases replies_ok_def same_requests_def replied_def split: if_splits)
next
  case (Some b)
  define v1 where "v1 = v\<lparr>remaining := (remaining v)[b := remaining v ! b - 1]\<rparr>"
  have v1: "replies_ok v1" "same_requests v v1" "replied v1 = replied v" "discarded v1 = discarded v" "queue_closed v1 = queue_closed v"
    using assms(2) by (simp_all add: v1_def replies_ok_def same_requests_def replied_def)
  have "enqueue_reply v1 r (remaining v ! b - 1 = 0) = (ok, v')" using assms(1) Some by (simp add: respond_def Let_def v1_def)
  then show ?thesis using enqueue_reply_result [OF _ v1(1)] v1 by (auto simp: same_requests_def)
qed

lemma respond_or_error_result:
  assumes "replies_ok v" and "isPlainPayload n"
  shows "replies_ok (respond_or_error rt v batch r n) \<and> same_requests v (respond_or_error rt v batch r n) \<and>
    replied (respond_or_error rt v batch r n) = add_mset (reply_request r) (replied v) \<and>
    (isPlainPayload (reply_message r) \<longrightarrow> \<not> queue_closed v \<longrightarrow> discarded (respond_or_error rt v batch r n) = discarded v)"
proof -
  obtain ok v1 where f: "respond v batch r = (ok, v1)" by fastforce
  note r1 = respond_result [OF f assms(1)]
  show ?thesis
  proof (cases ok)
    case True
    then show ?thesis using r1 f by (simp add: respond_or_error_def)
  next
    case False
    define e where "e = r\<lparr>reply_message := errorResponse rt n (clone_error rt)\<rparr>"
    obtain ok2 v2 where g: "respond v1 batch e = (ok2, v2)" by fastforce
    have "isPlainPayload (reply_message e)" "reply_request e = reply_request r" by (simp_all add: e_def plain_error_response assms(2))
    then show ?thesis using False r1 f g respond_result [OF g] by (auto simp: respond_or_error_def e_def [symmetric] same_requests_def)
  qed
qed

section \<open>The invariant of the server\<close>

definition task_jobs :: "server_task list \<Rightarrow> nat list" where
  "task_jobs ts = concat (map (\<lambda>t. option_list (task_job t)) ts)"

definition task_ok :: "bool \<Rightarrow> scheduler \<Rightarrow> server_task \<Rightarrow> bool" where
  "task_ok plain s t \<longleftrightarrow> isPlainPayload (task_id t) \<and>
     (\<forall>i. task_job t = Some i \<longrightarrow> i < length (jobs s) \<and> (task_outcome t = None \<longleftrightarrow> \<not> settled s i)) \<and>
     (plain \<longrightarrow> (\<forall>x. task_outcome t = Some (Inr x) \<longrightarrow> isPlainPayload x))"

definition tasks_ok :: "bool \<Rightarrow> server_task list \<Rightarrow> scheduler \<Rightarrow> bool" where
  "tasks_ok plain ts s \<longleftrightarrow> sched_ok s \<and> distinct (task_jobs ts) \<and> (\<forall>t \<in> set ts. task_ok plain s t) \<and>
     (\<forall>i < length (jobs s). \<not> settled s i \<longrightarrow> i \<in> set (task_jobs ts))"

definition server_ok :: "bool \<Rightarrow> server \<Rightarrow> bool" where
  "server_ok plain v \<longleftrightarrow> replies_ok v \<and> tasks_ok plain (tasks v) (requests_of v) \<and>
     mset (map task_request (tasks v)) + replied v = mset [0..<request_count v] \<and>
     (plain \<longrightarrow> \<not> queue_closed v \<longrightarrow> discarded v = [])"

lemma task_jobs_simps [simp]:
  "task_jobs [] = []" "task_jobs (t # ts) = option_list (task_job t) @ task_jobs ts" "task_jobs (ts @ us) = task_jobs ts @ task_jobs us"
  by (simp_all add: task_jobs_def)

lemma set_task_jobs: "i \<in> set (task_jobs ts) \<longleftrightarrow> (\<exists>t \<in> set ts. task_job t = Some i)"
  by (induction ts) (auto simp: elem_set)

lemma distinct_option_list [simp]: "distinct (option_list v)"
  by (cases v) (simp_all add: option_list_def)

lemma scheduled_jobs:
  "command \<in> set UNSCHEDULED_COMMANDS \<Longrightarrow> schedule s command args = s"
  "command \<notin> set UNSCHEDULED_COMMANDS \<Longrightarrow> \<exists>j. jobs (schedule s command args) = jobs s @ [j] \<and> job_status j = Waiting"
  by (simp_all add: schedule_def runShared_def runExclusive_def Let_def)

lemma dispatched_plain:
  "dispatchWorkerRequest rt api data = Answered m \<Longrightarrow> isPlainPayload m"
  "dispatchWorkerRequest rt api data = Scheduled n command args response \<Longrightarrow> isPlainPayload n"
proof -
  have safe: "isPlainPayload v" if "is_safe_number v" for v using that by (cases v) (simp_all add: is_safe_number_def)
  have n: "isPlainPayload (prop_get data (js ''id''))" if "isWorkerProtocolRequestMessage data"
    using that safe by (simp add: isWorkerProtocolRequestMessage_def)
  note p = plain_error_response [OF n] plain_error_response
  { assume d: "dispatchWorkerRequest rt api data = Answered m"
    show "isPlainPayload m"
    proof (cases "isWorkerProtocolRequestMessage data")
      case True
      then show ?thesis using d p(1) [OF True]
        by (auto simp: dispatchWorkerRequest_def protocol_response_def Let_def split: if_splits option.splits jsval.splits)
    next
      case False
      then show ?thesis using d safe
        by (auto simp: dispatchWorkerRequest_def protocol_response_def Let_def plain_error_response split: if_splits)
    qed }
  { assume d: "dispatchWorkerRequest rt api data = Scheduled n command args response"
    then have "isWorkerProtocolRequestMessage data \<and> n = prop_get data (js ''id'')"
      by (auto simp: dispatchWorkerRequest_def Let_def split: if_splits option.splits jsval.splits)
    then show "isPlainPayload n" using n by blast }
qed

lemma tasks_ok_new:
  assumes "tasks_ok plain ts s" and "isPlainPayload (task_id t)" "task_outcome t = None"
    and "task_job t = (if command \<in> set UNSCHEDULED_COMMANDS then None else Some (length (jobs s)))"
  shows "tasks_ok plain (ts @ [t]) (schedule s command args)"
proof (cases "command \<in> set UNSCHEDULED_COMMANDS")
  case True
  then show ?thesis using assms by (auto simp: scheduled_jobs(1) tasks_ok_def task_ok_def option_list_def)
next
  case False
  then obtain j where j: "jobs (schedule s command args) = jobs s @ [j]" "job_status j = Waiting"
    using scheduled_jobs(2) by blast
  note st = settled_append [OF j]
  have job: "task_job t = Some (length (jobs s))" using assms(4) False by simp
  have old: "i < length (jobs s)" if "i \<in> set (task_jobs ts)" for i
    using assms(1) that by (auto simp: set_task_jobs tasks_ok_def task_ok_def)
  have "\<not> settled s (length (jobs s))" by (simp add: settled_def)
  moreover have "distinct (task_jobs (ts @ [t]))"
    using assms(1) old job by (auto simp: tasks_ok_def option_list_def)
  moreover have "sched_ok (schedule s command args)" using assms(1) schedule_ok by (simp add: tasks_ok_def)
  ultimately show ?thesis using assms job
    by (auto simp: tasks_ok_def task_ok_def st j less_Suc_eq set_task_jobs)
qed

lemma server_ok_same:
  assumes "server_ok plain v" and "same_requests v v'" and "replies_ok v'" and "replied v' = replied v"
    and "plain \<Longrightarrow> \<not> queue_closed v \<Longrightarrow> discarded v' = discarded v"
  shows "server_ok plain v'"
  using assms by (simp add: server_ok_def same_requests_def)

lemma take_request_ok:
  assumes "server_ok plain v"
  shows "server_ok plain (take_request rt api batch data v) \<and> queue_closed (take_request rt api batch data v) = queue_closed v"
proof (cases "dispatchWorkerRequest rt api data")
  case Ignored
  then show ?thesis using assms by (simp add: take_request_def)
next
  case (Answered m)
  define v1 where "v1 = v\<lparr>request_count := request_count v + 1\<rparr>"
  define r where "r = \<lparr>reply_request = request_count v, reply_message = m\<rparr>"
  obtain ok v2 where f: "respond v1 batch r = (ok, v2)" by fastforce
  have v1: "replies_ok v1" "replied v1 = replied v" "tasks v1 = tasks v" "requests_of v1 = requests_of v" "queue_closed v1 = queue_closed v"
      "request_count v1 = Suc (request_count v)" "discarded v1 = discarded v"
    using assms by (simp_all add: v1_def server_ok_def replies_ok_def replied_def)
  have "isPlainPayload (reply_message r)" using dispatched_plain(1) [OF Answered] by (simp add: r_def)
  then have "replies_ok v2" "same_requests v1 v2" "replied v2 = add_mset (request_count v) (replied v)"
      "\<not> queue_closed v \<Longrightarrow> discarded v2 = discarded v"
    using respond_result [OF f v1(1)] v1 by (auto simp: r_def)
  moreover have "take_request rt api batch data v = v2" using Answered f by (simp add: take_request_def v1_def r_def)
  ultimately show ?thesis using assms v1 by (simp add: server_ok_def same_requests_def del: mset_upt)
next
  case (Scheduled n command args response)
  define t where "t = \<lparr>task_request = request_count v, task_id = n, task_response_command = response,
    task_job = (if command \<in> set UNSCHEDULED_COMMANDS then None else Some (length (jobs (requests_of v)))),
    task_batch = batch, task_outcome = None\<rparr>"
  have "tasks_ok plain (tasks v @ [t]) (schedule (requests_of v) command args)"
    by (rule tasks_ok_new) (use assms dispatched_plain(2) [OF Scheduled] in \<open>simp_all add: t_def server_ok_def\<close>)
  then show ?thesis using assms Scheduled
    by (simp add: take_request_def t_def [symmetric] server_ok_def replies_ok_def replied_def del: mset_upt) (simp add: t_def)
qed

lemma take_requests_ok:
  "server_ok plain v \<Longrightarrow> server_ok plain (fold (take_request rt api batch) rs v) \<and> queue_closed (fold (take_request rt api batch) rs v) = queue_closed v"
proof (induction rs arbitrary: v)
  case (Cons r rs)
  then show ?case using take_request_ok [OF Cons.prems, of rt api batch r] by simp
qed simp

lemma handle_request_message_ok:
  assumes "server_ok plain v"
  shows "server_ok plain (handle_request_message rt api data v) \<and> queue_closed (handle_request_message rt api data v) = queue_closed v"
proof -
  have left: "server_ok plain (v\<lparr>remaining := r\<rparr>)" for r
    using assms by (simp add: server_ok_def replies_ok_def replied_def)
  show ?thesis using take_request_ok [OF assms, of rt api None data] take_requests_ok [OF left, where rt = rt and api = api]
    by (simp add: handle_request_message_def split: jsval.split)
qed

lemma finish_task_ok:
  assumes "server_ok plain v" and "k < length (tasks v)" "task_runs v (tasks v ! k)"
    and "plain \<longrightarrow> (\<forall>x. outcome = Inr x \<longrightarrow> isPlainPayload x)"
  shows "server_ok plain (finish_task v k outcome)"
proof -
  define t where "t = tasks v ! k"
  define t' where "t' = t\<lparr>task_outcome := Some outcome\<rparr>"
  define s where "s = requests_of v"
  define s' where "s' = requests_of (finish_task v k outcome)"
  define before where "before = take k (tasks v)"
  define after where "after = drop (Suc k) (tasks v)"
  have old: "tasks v = before @ t # after" using assms(2) by (simp add: before_def after_def t_def id_take_nth_drop)
  have new: "tasks (finish_task v k outcome) = before @ t' # after"
    using assms(2) by (simp add: finish_task_def upd_conv_take_nth_drop before_def after_def t'_def t_def)
  have ok: "tasks_ok plain (before @ t # after) s" using assms(1) by (simp add: server_ok_def s_def old)
  have t': "task_job t' = task_job t" "task_id t' = task_id t" "task_request t' = task_request t" "task_outcome t' = Some outcome"
    by (simp_all add: t'_def)
  have "tasks_ok plain (before @ t' # after) s'"
  proof (cases "task_job t")
    case None
    then have "s' = s" by (simp add: s'_def s_def finish_task_def t_def)
    then show ?thesis using ok assms(4) None by (simp add: tasks_ok_def task_ok_def t' option_list_def)
  next
    case (Some i)
    have s': "s' = settle s i (case outcome of Inl _ \<Rightarrow> None | Inr x \<Rightarrow> Some x)"
      using Some by (simp add: s'_def s_def finish_task_def t_def)
    have i: "i < length (jobs s)" "job_status (jobs s ! i) = Running"
      using assms(3) Some by (simp_all add: task_runs_def t_def s_def)
    have "sched_ok s'" using settle_ok [OF _ i] ok by (simp add: s' tasks_ok_def)
    moreover have jobs: "length (jobs s') = length (jobs s)" "settled s' j = (j = i \<or> settled s j)" for j
      using settled_set_status [OF i(1), of Settled j] by (simp_all add: s' settle_def set_status_def settled_def)
    moreover have "task_job u \<noteq> Some i" if "u \<in> set (before @ after)" for u
      using ok Some that by (auto simp: tasks_ok_def option_list_def set_task_jobs)
    ultimately show ?thesis using ok assms(4) Some by (auto simp: tasks_ok_def task_ok_def t' option_list_def)
  qed
  moreover have "replies_ok (finish_task v k outcome) = replies_ok v" "replied (finish_task v k outcome) = replied v"
      "request_count (finish_task v k outcome) = request_count v" "queue_closed (finish_task v k outcome) = queue_closed v"
      "discarded (finish_task v k outcome) = discarded v"
    by (simp_all add: finish_task_def replies_ok_def replied_def)
  ultimately show ?thesis using assms(1) by (simp add: server_ok_def new old t' s'_def [symmetric] del: mset_upt)
qed

lemma answer_task_ok:
  assumes "server_ok plain v" and "k < length (tasks v)" "task_outcome (tasks v ! k) \<noteq> None"
  shows "server_ok plain (answer_task rt v k)"
proof -
  define t where "t = tasks v ! k"
  define before where "before = take k (tasks v)"
  define after where "after = drop (Suc k) (tasks v)"
  define v1 where "v1 = v\<lparr>tasks := before @ after\<rparr>"
  obtain outcome where o: "task_outcome t = Some outcome" using assms(3) by (auto simp: t_def)
  define r where "r = \<lparr>reply_request = task_request t, reply_message = task_response rt (task_id t) (task_response_command t) outcome\<rparr>"
  have old: "tasks v = before @ t # after" using assms(2) by (simp add: before_def after_def t_def id_take_nth_drop)
  have ok: "tasks_ok plain (before @ t # after) (requests_of v)" using assms(1) by (simp add: server_ok_def old)
  have t: "isPlainPayload (task_id t)" "\<And>i. task_job t = Some i \<Longrightarrow> settled (requests_of v) i"
      "plain \<Longrightarrow> outcome = Inr x \<Longrightarrow> isPlainPayload x" for x
    using ok o by (auto simp: tasks_ok_def task_ok_def)
  have rest: "tasks_ok plain (before @ after) (requests_of v)"
    using ok t(2) by (auto simp: tasks_ok_def option_list_def split: option.splits)
  have plain: "isPlainPayload (reply_message r)" if plain
    using t(3) [OF that] plain_response_payload plain_error_response [OF t(1)] t(1)
    by (auto simp: r_def task_response_def successResponse_def split: sum.split)
  have "replies_ok v1" using assms(1) by (simp add: v1_def server_ok_def replies_ok_def)
  note a = respond_or_error_result [OF this t(1), of rt "task_batch t" r]
  have v1: "replied v1 = replied v" "queue_closed v1 = queue_closed v" "discarded v1 = discarded v" "tasks v1 = before @ after"
      "requests_of v1 = requests_of v" "request_count v1 = request_count v"
    by (simp_all add: v1_def replied_def)
  have "answer_task rt v k = respond_or_error rt v1 (task_batch t) r (task_id t)"
    using o by (simp add: answer_task_def Let_def t_def v1_def before_def after_def r_def)
  then show ?thesis using a assms(1) rest plain v1
    by (simp add: server_ok_def same_requests_def old r_def del: mset_upt)
qed

lemma flush_turn_ok:
  assumes "server_ok plain v"
  shows "server_ok plain (flush_turn v)"
proof -
  define v1 where "v1 = v\<lparr>reply_flush_scheduled := False\<rparr>"
  have v1: "replied v1 = replied v" "queue_closed v1 = queue_closed v" "discarded v1 = discarded v" "queued_replies v1 = queued_replies v"
      "same_requests v v1"
    by (simp_all add: v1_def replied_def same_requests_def)
  have plain: "list_all (isPlainPayload \<circ> reply_message) (queued_replies v)" using assms by (simp add: server_ok_def replies_ok_def)
  obtain ok v2 where f: "flush_replies v1 0 = (ok, v2)" by fastforce
  show ?thesis
  proof (cases "queue_closed v")
    case True
    then have "queued_replies v = []" using assms by (auto simp: server_ok_def replies_ok_def)
    then have "flush_turn v = v1\<lparr>queued_replies := [], queued_reply_bytes := 0\<rparr>" by (simp add: flush_turn_def flush_replies_def v1_def)
    then show ?thesis using assms \<open>queued_replies v = []\<close> by (simp add: v1_def server_ok_def replies_ok_def replied_def)
  next
    case False
    have "list_all (isPlainPayload \<circ> reply_message) (take (length (queued_replies v1) - 0) (queued_replies v1))" using plain v1 by simp
    note r = flush_replies_result [OF f this]
    have "flush_turn v = v2" using f by (simp add: flush_turn_def v1_def)
    moreover have "same_requests v v2" "replies_ok v2" "replied v2 = replied v" "discarded v2 = discarded v"
      using r v1 False plain by (auto simp: same_requests_def replies_ok_def)
    ultimately show ?thesis using assms by (simp add: server_ok_def same_requests_def)
  qed
qed

lemma requests_of_ok:
  assumes "server_ok plain v" and "sched_ok s'" and "length (jobs s') = length (jobs (requests_of v))"
    and "\<And>i. settled s' i = settled (requests_of v) i"
  shows "server_ok plain (v\<lparr>requests_of := s'\<rparr>)"
  using assms by (simp add: server_ok_def tasks_ok_def task_ok_def replies_ok_def replied_def)

lemma close_server_ok: "server_ok plain v \<Longrightarrow> server_ok plain (close_server v)"
  by (simp add: server_ok_def close_server_def replies_ok_def replied_def ac_simps)

lemma server_step_ok:
  assumes "server_step rt api plain v v'" and "server_ok plain v"
  shows "server_ok plain v'"
  using assms
proof (cases rule: server_step.cases)
  case (start i)
  have i: "i < length (jobs (requests_of v))" "job_status (jobs (requests_of v) ! i) = Waiting" using start(2) by (simp_all add: ready_def)
  have "sched_ok (requests_of v)" using assms(2) by (simp add: server_ok_def tasks_ok_def)
  then have "server_ok plain (v\<lparr>requests_of := set_status (requests_of v) i Running\<rparr>)"
    by (intro requests_of_ok [OF assms(2)] start_ok start(2))
      (use i settled_set_status [OF i(1), of Running] in \<open>auto simp: set_status_def settled_def\<close>)
  then show ?thesis by (simp add: start(1))
next
  case (react i)
  have "sched_ok (requests_of v)" using assms(2) by (simp add: server_ok_def tasks_ok_def)
  then have "server_ok plain (v\<lparr>requests_of := clean (requests_of v) i\<rparr>)"
    by (intro requests_of_ok [OF assms(2)] clean_ok react(2)) (simp_all add: clean_def settled_def)
  then show ?thesis by (simp add: react(1))
qed (simp_all add: assms(2) receive_event_def handle_request_message_ok finish_task_ok answer_task_ok flush_turn_ok close_server_ok)

lemma server_reach_ok: "server_reach rt api plain v \<Longrightarrow> server_ok plain v"
proof (induction rule: server_reach.induct)
  case init
  have "sched_ok new_scheduler" by (rule sched_reach_ok [OF sched_reach.init])
  then show ?case by (simp add: server_ok_def new_server_def replies_ok_def replied_def tasks_ok_def) (simp add: new_scheduler_def)
next
  case (step v v')
  then show ?case using server_step_ok by blast
qed

section \<open>Properties of the server\<close>

text \<open>Nothing is left to do: no task can start or end, none waits to be answered, and no flush is due.\<close>

definition quiescent :: "server \<Rightarrow> bool" where
  "quiescent v \<longleftrightarrow> (\<forall>i < length (jobs (requests_of v)). \<not> ready (requests_of v) i) \<and>
     list_all (\<lambda>t. task_outcome t = None \<and> \<not> task_runs v t) (tasks v) \<and> \<not> reply_flush_scheduled v"

lemma quiescent_done:
  assumes "server_ok plain v" and "quiescent v"
  shows "tasks v = [] \<and> queued_replies v = []"
proof -
  let ?s = "requests_of v"
  have q: "task_outcome t = None" "\<not> task_runs v t" if "t \<in> set (tasks v)" for t
    using assms(2) that by (auto simp: quiescent_def list_all_iff)
  have ok: "tasks_ok plain (tasks v) ?s" using assms(1) by (simp add: server_ok_def)
  have "\<nexists>s'. drain_step ?s s'"
  proof
    assume "\<exists>s'. drain_step ?s s'"
    then obtain i where "ready ?s i \<or> i < length (jobs ?s) \<and> job_status (jobs ?s ! i) = Running"
      by (auto elim: drain_step.cases)
    moreover have "\<not> ready ?s i" using assms(2) by (auto simp: quiescent_def ready_def)
    ultimately have run: "i < length (jobs ?s)" "job_status (jobs ?s ! i) = Running" by blast+
    then have "\<not> settled ?s i" by (simp add: settled_def)
    then obtain t where "t \<in> set (tasks v)" "task_job t = Some i" using ok run(1) by (auto simp: tasks_ok_def set_task_jobs)
    then show False using q [of t] run by (simp add: task_runs_def)
  qed
  then have done_jobs: "settled ?s i" if "i < length (jobs ?s)" for i
    using open_task_moves [OF _ that] ok unfolding tasks_ok_def by blast
  have "t \<notin> set (tasks v)" for t
  proof
    assume t: "t \<in> set (tasks v)"
    show False
    proof (cases "task_job t")
      case None
      then show False using q [OF t] by (simp add: task_runs_def)
    next
      case (Some i)
      then show False using q(1) [OF t] ok t done_jobs by (auto simp: tasks_ok_def task_ok_def)
    qed
  qed
  then have "tasks v = []" by (cases "tasks v") auto
  then show ?thesis using assms by (auto simp: server_ok_def replies_ok_def quiescent_def)
qed


text \<open>
  With an API that gives values that cannot be cloned, one such reply at the end of a batch takes the replies queued
  before it away: posting them together throws, after the queue was emptied.
\<close>

lemma uncloneable_reply_discards_queue:
  assumes "\<not> queue_closed v" and "\<not> isPlainPayload (reply_message r)" and "\<not> size_above (queued_reply_bytes v) (payloadBytes (reply_message r))"
  shows "enqueue_reply v r True =
    (False, v\<lparr>queued_replies := [], queued_reply_bytes := 0, discarded := discarded v @ map reply_request (queued_replies v)\<rparr>)"
  using assms by (simp add: enqueue_reply_def flush_replies_def post_replies_cases)

section \<open>From a call to its result\<close>

lemma request_message_get:
  "prop_get (request_message n command args) (js ''id'') = num n"
  "prop_get (request_message n command args) (js ''command'') = str command"
  "prop_get (request_message n command args) (js ''args'') = VArray args"
  "isWorkerProtocolEnvelope (request_message n command args)"
  by (simp_all add: request_message_def prop_get_object isWorkerProtocolEnvelope_def)

text \<open>The command that decides the format of a request's answer.\<close>

definition response_command :: "string \<Rightarrow> jsval list \<Rightarrow> string" where
  "response_command command args =
     (if command = ''autocommit''
      then (case List.find (\<lambda>c. str c = arg_at args 1) AUTOCOMMIT_COMMANDS of Some inner \<Rightarrow> inner | None \<Rightarrow> command)
      else command)"

lemma request_dispatched:
  assumes "n < 2 ^ 53" and "command \<in> set WORKER_COMMANDS" "command \<noteq> ''autocommit''" and "implemented api command"
  shows "dispatchWorkerRequest rt api (request_message n command args) = Scheduled (num n) command args command"
  using assms request_message_accepted [OF assms(1)] find_js [OF assms(2)]
  by (simp add: dispatchWorkerRequest_def request_message_get)

lemma autocommit_dispatched:
  assumes "n < 2 ^ 53" and "inner \<in> set AUTOCOMMIT_COMMANDS" and "implemented api inner" and "mode \<in> {''readonly'', ''readwrite''}"
  shows "dispatchWorkerRequest rt api (request_message n ''autocommit'' [str mode, str inner, VArray args]) =
    Scheduled (num n) ''autocommit'' [str mode, str inner, VArray args] inner"
proof -
  have "''autocommit'' \<in> set WORKER_COMMANDS" by (simp add: WORKER_COMMANDS_def)
  then show ?thesis
    using assms request_message_accepted [OF assms(1)] find_js [of "''autocommit''" WORKER_COMMANDS] find_js [OF assms(2)]
    by (simp add: dispatchWorkerRequest_def request_message_get)
qed

lemma response_get:
  "prop_get (successResponse n x) (js ''id'') = n" "prop_get (successResponse n x) (js ''ok'') = VBool True"
  "prop_get (successResponse n x) (js ''result'') = x"
  "prop_get (errorResponse rt n e) (js ''id'') = n" "prop_get (errorResponse rt n e) (js ''ok'') = VBool False"
  "prop_get (errorResponse rt n e) (js ''error'') = serializeWorkerError (to_text rt) e"
  by (simp_all add: successResponse_def errorResponse_def prop_get_object)

lemma response_recognized:
  assumes "n < 2 ^ 53"
  shows "isWorkerProtocolResponseMessage (successResponse (num n) x)" "isWorkerProtocolResponseMessage (errorResponse rt (num n) e)"
    "message_id (successResponse (num n) x) = Some n" "message_id (errorResponse rt (num n) e) = Some n"
  using assms
  by (simp_all add: successResponse_def errorResponse_def isWorkerProtocolResponseMessage_def prop_get_object is_safe_number_def message_id_def)

text \<open>A response alone is handled as a response.\<close>

lemma response_handled:
  assumes "isWorkerProtocolResponseMessage m" and "prop_get m (js ''type'') = str ''moyodb:worker-protocol:response''"
  shows "handleMessage c m = handleResponse c m"
  using assms
  by (simp add: handleMessage_def isWorkerProtocolReadyMessage_def isWorkerProtocolReadyEnvelope_def isWorkerProtocolResponseMessage_def
      isWorkerProtocolResponseBatchMessage_def isWorkerProtocolBatch_def)

lemma handle_task_response:
  assumes "n < 2 ^ 53" and "find_pending c n = Some p" and "\<not> forward_scan_packets c"
  shows "handleMessage c (task_response rt (num n) rc outcome) =
    settle_pending c p
      (case outcome of
         Inl e \<Rightarrow> (case deserializeWorkerError (serializeWorkerError (to_text rt) e) of
                   Inr e' \<Rightarrow> Rejected (Named e') | Inl e' \<Rightarrow> Rejected (decode_failure e'))
       | Inr x \<Rightarrow>
           (case prepareWorkerResponsePayload rc x of
              Inl e \<Rightarrow> (case deserializeWorkerError (serializeWorkerError (to_text rt) (raised rt e)) of
                   Inr e' \<Rightarrow> Rejected (Named e') | Inl e' \<Rightarrow> Rejected (decode_failure e'))
            | Inr payload \<Rightarrow>
                (case decodeWorkerResponsePayload (pending_command p) payload of
                   Inr y \<Rightarrow> Resolved y | Inl e \<Rightarrow> Rejected (decode_failure e))))"
proof -
  have types: "prop_get (successResponse m x) (js ''type'') = str ''moyodb:worker-protocol:response''"
    "prop_get (errorResponse rt m e) (js ''type'') = str ''moyodb:worker-protocol:response''" for m x e
    by (simp_all add: successResponse_def errorResponse_def prop_get_object)
  note r = response_recognized [OF assms(1)] response_handled response_get types assms(2,3)
  show ?thesis
    by (cases outcome) (simp_all add: task_response_def handleResponse_def response_settlement_def r split: sum.split)
qed

text \<open>
  What a request means when the API is called directly, with the arguments the client was given: the specification
  of the way over the wire.
\<close>

definition direct_autocommit :: "'s worker_api \<Rightarrow> string \<Rightarrow> string \<Rightarrow> jsval list \<Rightarrow> 's task" where
  "direct_autocommit api mode command args s =
     (case call_method api ''begin'' [str mode] s of
        (Inl e, s1) \<Rightarrow> (Inl e, s1)
      | (Inr txId, s1) \<Rightarrow>
          (case call_method api command (txId # args) s1 of
             (Inl e, s2) \<Rightarrow> (Inl e, snd (call_method api ''rollback'' [txId] s2))
           | (Inr result, s2) \<Rightarrow>
               (case call_method api (if mode = ''readwrite'' then ''commit'' else ''rollback'') [txId] s2 of
                  (Inl e, s3) \<Rightarrow> (Inl e, s3)
                | (Inr _, s3) \<Rightarrow> (Inr result, s3))))"

datatype remote_call = MethodCall string "jsval list" | AutocommitCall string string "jsval list"

fun remote_command :: "remote_call \<Rightarrow> string" where
  "remote_command (MethodCall command args) = command"
| "remote_command (AutocommitCall mode command args) = ''autocommit''"

fun remote_args :: "remote_call \<Rightarrow> jsval list" where
  "remote_args (MethodCall command args) = args"
| "remote_args (AutocommitCall mode command args) = [str mode, str command, VArray args]"

fun remote_response :: "remote_call \<Rightarrow> string" where
  "remote_response (MethodCall command args) = command"
| "remote_response (AutocommitCall mode command args) = command"

fun remote_ok :: "'s worker_api \<Rightarrow> remote_call \<Rightarrow> bool" where
  "remote_ok api (MethodCall command args) \<longleftrightarrow>
     command \<in> set WORKER_COMMANDS \<and> command \<noteq> ''autocommit'' \<and> implemented api command \<and> typed_args command args"
| "remote_ok api (AutocommitCall mode command args) \<longleftrightarrow>
     command \<in> set AUTOCOMMIT_COMMANDS \<and> implemented api command \<and> mode \<in> {''readonly'', ''readwrite''} \<and>
     typed_args command (num 0 # args)"

fun direct_call :: "'s worker_api \<Rightarrow> remote_call \<Rightarrow> 's task" where
  "direct_call api (MethodCall command args) = call_method api command args"
| "direct_call api (AutocommitCall mode command args) = direct_autocommit api mode command args"

text \<open>The packed methods of the API do what its plain methods do on the arguments that are packed.\<close>

definition packed_agrees :: "'s worker_api \<Rightarrow> bool" where
  "packed_agrees api \<longleftrightarrow>
     (\<forall>command sent plain t. dispatchPackedCommand api command sent = Some t \<longrightarrow>
        decodeWorkerCommandPayload command sent = Inr plain \<longrightarrow> t = call_method api command plain)"

lemma invoke_decoded:
  assumes "packed_agrees api" and "decodeWorkerCommandPayload command sent = Inr args"
  shows "invokeCommand rt api command sent s = call_method api command args s"
  using assms by (auto simp: invokeCommand_def packed_agrees_def split: option.split)

lemma autocommit_command_cases:
  "command \<in> set AUTOCOMMIT_COMMANDS \<Longrightarrow> command \<noteq> ''autocommit'' \<and> command \<noteq> ''importSnapshot''"
  by (auto simp: AUTOCOMMIT_COMMANDS_def)

text \<open>The first argument, the transaction, takes no part in packing.\<close>

lemma arg_at_Cons: "arg_at (z # args) 2 = arg_at args 1" "arg_at (z # args) 3 = arg_at args 2" "arg_at (z # args) (Suc 0) = arg_at args 0"
  "arg_at (z # args) 0 = z"
  by (simp_all add: arg_at_def numeral_2_eq_2 numeral_3_eq_3)

lemma prepare_direct_rest:
  assumes "command \<noteq> ''importSnapshot''"
  shows "\<exists>m. \<forall>z. prepare_direct command (z # args) = bindr m (\<lambda>rest. Inr (z # rest))"
proof (cases "\<exists>x xs. arg_at args 1 = VArray (x # xs)")
  case False
  have "(case arg_at args 1 of VArray (x # xs) \<Rightarrow> F x xs | _ \<Rightarrow> d) = d" for F and d :: "jsval list result"
    using False by (auto split: jsval.split list.split)
  then have "prepare_direct command (z # args) = bindr (Inr args) (\<lambda>rest. Inr (z # rest))" for z
    using assms by (simp add: prepare_direct_def arg_at_Cons)
  then show ?thesis by blast
next
  case True
  then obtain x xs where v: "arg_at args 1 = VArray (x # xs)" by blast
  consider "command = ''getMany'' \<or> command = ''deleteMany''" | "command = ''putMany''" | "command = ''applyBatch''"
    | "command \<notin> {''getMany'', ''deleteMany'', ''putMany'', ''applyBatch''}" by blast
  then show ?thesis
  proof cases
    case 1
    then have "prepare_direct command (z # args) =
        bindr (bindr (packBinaryList (x # xs)) (\<lambda>p. Inr [arg_at args 0, packed_value PACKED_BINARY_LIST_V1 p])) (\<lambda>rest. Inr (z # rest))" for z
      using assms v by (simp add: prepare_direct_def arg_at_Cons)
    then show ?thesis by blast
  next
    case 2
    then have "prepare_direct command (z # args) =
        bindr (bindr (packBinaryPairs (x # xs)) (\<lambda>p. Inr [arg_at args 0, packed_value PACKED_BINARY_LIST_V1 p, arg_at args 2]))
          (\<lambda>rest. Inr (z # rest))" for z
      using v by (simp add: prepare_direct_def arg_at_Cons)
    then show ?thesis by blast
  next
    case 3
    then have "prepare_direct command (z # args) =
        bindr (bindr (packBatchOps (x # xs)) (\<lambda>p. Inr [arg_at args 0, packed_value PACKED_BATCH_OPS_V1 p])) (\<lambda>rest. Inr (z # rest))" for z
      using v by (simp add: prepare_direct_def arg_at_Cons)
    then show ?thesis by blast
  next
    case 4
    then have "prepare_direct command (z # args) = bindr (Inr args) (\<lambda>rest. Inr (z # rest))" for z
      using assms by (simp add: prepare_direct_def)
    then show ?thesis by blast
  qed
qed

lemma prepare_direct_tx:
  assumes "prepare_direct command (a # args) = Inr prepared" and "command \<noteq> ''importSnapshot''"
  shows "prepare_direct command (b # args) = Inr (b # tl prepared)"
proof -
  obtain m where m: "\<And>z. prepare_direct command (z # args) = bindr m (\<lambda>rest. Inr (z # rest))"
    using prepare_direct_rest [OF assms(2), of args] by blast
  then show ?thesis using assms(1) by (auto simp: bindr_eq_Inr)
qed

lemma typed_args_tx: "command \<noteq> ''importSnapshot'' \<Longrightarrow> typed_args command (a # args) \<Longrightarrow> typed_args command (b # args)"
  by (auto simp: typed_args_def split: if_splits)

lemma autocommit_decoded:
  assumes "command \<in> set AUTOCOMMIT_COMMANDS" "typed_args command (num 0 # args)" "prepare_direct command (num 0 # args) = Inr prepared"
  shows "decodeWorkerCommandPayload command (tx # tl prepared) = Inr (tx # args)"
proof -
  note c = autocommit_command_cases [OF assms(1)]
  have p: "prepare_direct command (tx # args) = Inr (tx # tl prepared)" using prepare_direct_tx [OF assms(3)] c by blast
  have t: "typed_args command (tx # args)" using typed_args_tx [OF _ assms(2)] c by blast
  show ?thesis using direct_round_trip [OF t p] c by (simp add: decodeWorkerCommandPayload_def)
qed

lemma request_task_direct:
  assumes "packed_agrees api" and "remote_ok api call"
    and "prepareWorkerCommandPayload (remote_command call) (remote_args call) = Inr sent"
  shows "request_task rt api (remote_command call) sent s = direct_call api call s"
proof (cases call)
  case (MethodCall command args)
  then have c: "command \<noteq> ''autocommit''" "typed_request command args" using assms(2) by (simp_all add: typed_request_def)
  then have "decodeWorkerCommandPayload command sent = Inr args" using request_round_trip assms(3) MethodCall by simp
  then show ?thesis using MethodCall c(1) invoke_decoded [OF assms(1)] by (simp add: request_task_def)
next
  case (AutocommitCall mode command args)
  then have a: "command \<in> set AUTOCOMMIT_COMMANDS" "mode = ''readonly'' \<or> mode = ''readwrite''" "typed_args command (num 0 # args)"
    using assms(2) by auto
  have found: "List.find (\<lambda>c. str c = str command) AUTOCOMMIT_COMMANDS = Some command" using find_js [OF a(1)] by simp
  obtain prepared where p: "prepare_direct command (num 0 # args) = Inr prepared" "sent = [str mode, str command, VArray (tl prepared)]"
    using assms(3) AutocommitCall found by (auto simp: prepareWorkerCommandPayload_def bindr_eq_Inr)
  have mode: "(if str mode = str ''readwrite'' then ''readwrite'' else ''readonly'') = mode" using a(2) by auto
  have "request_task rt api ''autocommit'' sent s = runAutocommit rt api mode command (tl prepared) s"
    using found mode by (simp add: request_task_def p(2))
  also have "\<dots> = direct_autocommit api mode command args s"
    using invoke_decoded [OF assms(1) autocommit_decoded [OF a(1,3) p(1)]]
    by (simp add: runAutocommit_def direct_autocommit_def split: prod.split sum.split)
  finally show ?thesis using AutocommitCall by simp
qed

lemma remote_dispatched:
  assumes "n < 2 ^ 53" and "remote_ok api call"
    and "prepareWorkerCommandPayload (remote_command call) (remote_args call) = Inr sent"
  shows "dispatchWorkerRequest rt api (request_message n (remote_command call) sent) =
    Scheduled (num n) (remote_command call) sent (remote_response call)"
proof (cases call)
  case (MethodCall command args)
  then show ?thesis using request_dispatched [OF assms(1), of command api rt sent] assms(2) by simp
next
  case (AutocommitCall mode command args)
  then have a: "command \<in> set AUTOCOMMIT_COMMANDS" using assms(2) by simp
  have found: "List.find (\<lambda>c. str c = str command) AUTOCOMMIT_COMMANDS = Some command" using find_js [OF a] by simp
  obtain prepared where "sent = [str mode, str command, VArray (tl prepared)]"
    using assms(3) AutocommitCall found by (auto simp: prepareWorkerCommandPayload_def bindr_eq_Inr)
  then show ?thesis using autocommit_dispatched [OF assms(1) a, of api mode rt] assms(2) AutocommitCall by simp
qed

lemma error_received:
  assumes "err_name e \<noteq> []"
  shows "\<exists>r. deserializeWorkerError (serializeWorkerError to_string (error_object e)) = Inr r \<and>
    err_name r = err_name e \<and> err_message r = err_message e"
proof -
  have fields: "prop_get (error_object e) (js ''name'') = VString (err_name e)"
      "prop_get (error_object e) (js ''message'') = VString (err_message e)"
      "stringOrUndefined (prop_get (error_object e) (js ''code'')) = (case err_code e of None \<Rightarrow> VUndefined | Some x \<Rightarrow> VString x)"
      "stringOrUndefined (prop_get (error_object e) (js ''stack'')) = (case err_stack e of None \<Rightarrow> VUndefined | Some x \<Rightarrow> VString x)"
      "is_object (error_object e)"
    by (simp_all add: error_object_def prop_get_object stringOrUndefined_def split: option.splits)
  have s: "serializeWorkerError to_string (error_object e) = VObject [(js ''name'', VString (err_name e)),
      (js ''code'', case err_code e of None \<Rightarrow> VUndefined | Some x \<Rightarrow> VString x), (js ''message'', VString (err_message e)),
      (js ''stack'', case err_stack e of None \<Rightarrow> VUndefined | Some x \<Rightarrow> VString x)]"
    unfolding serializeWorkerError_def Let_def fields by (simp add: fields stringOrUndefined_def nullish_def)
  show ?thesis unfolding s using assms
    by (cases "err_code e"; cases "err_stack e")
      (simp_all add: deserializeWorkerError_def prop_get_object stringOrUndefined_def non_empty_def)
qed


definition sample_runtime :: runtime where
  "sample_runtime = \<lparr>raised = (\<lambda>e. VObject []), clone_error = VObject [], to_text = (\<lambda>v. [])\<rparr>"

text \<open>An API over a number: \<^verbatim>\<open>begin\<close> counts transactions, and every other method gives its arguments back.\<close>

definition sample_api :: "nat worker_api" where
  "sample_api = \<lparr>implemented = (\<lambda>c. True), has_packed = (\<lambda>c. False),
     call_method = (\<lambda>c args s. if c = ''begin'' then (Inr (num (s + 1)), s + 1) else (Inr (VArray args), s)),
     call_packed = (\<lambda>c args bs opts s. (Inr VUndefined, s))\<rparr>"

lemma sample_packed_agrees: "packed_agrees sample_api"
  by (auto simp: packed_agrees_def dispatchPackedCommand_def sample_api_def Let_def split: if_splits option.splits)



end
