(* ===== verification/SqlLexer.thy ===== *)
theory SqlLexer
  imports JsDecimal
begin

text \<open>
  The lexical level of SQL, from \<^verbatim>\<open>packages/sdk/src/sql-types.ts\<close> and the functions \<^verbatim>\<open>tokenize\<close>,
  \<^verbatim>\<open>parseNumber\<close>, \<^verbatim>\<open>hasValidUnicode\<close> and \<^verbatim>\<open>hasControlCharacters\<close> of \<^verbatim>\<open>sql-parser.ts\<close>. The scanner
  is given the rest of the text together with its index; a token carries the index it starts at.
\<close>

section \<open>Values\<close>

definition SQL_INTEGER_MIN :: int where
  "SQL_INTEGER_MIN = - (2 ^ 63)"

definition SQL_INTEGER_MAX :: int where
  "SQL_INTEGER_MAX = 2 ^ 63 - 1"

datatype SqlValue = SqlNull | SqlBool bool | SqlNumber f64 | SqlBigint int | SqlText jsstring | SqlBlob bytes

section \<open>Tokens\<close>

definition MAX_SQL_LENGTH :: nat where "MAX_SQL_LENGTH = 1048576"
definition MAX_TOKENS :: nat where "MAX_TOKENS = 16384"
definition MAX_NUMBER_LENGTH :: nat where "MAX_NUMBER_LENGTH = 1024"

datatype TokenKind = WordToken | IdentifierToken | StringToken | NumberToken | SymbolToken | ParameterToken | EndToken

record Token =
  token_kind :: TokenKind
  token_text :: jsstring
  token_position :: nat

text \<open>
  A syntax error with its message and position; \<open>NoToken\<close> is the \<^verbatim>\<open>TypeError\<close> of reading a property of
  a token past the end of the list.
\<close>

datatype parse_error = SqlSyntaxError string nat | NoToken

section \<open>Characters\<close>

text \<open>The classes \<^verbatim>\<open>\s\<close>, \<^verbatim>\<open>\d\<close>, \<^verbatim>\<open>\w\<close> and \<^verbatim>\<open>[A-Za-z_]\<close> on one code unit.\<close>

definition is_space :: "code_unit \<Rightarrow> bool" where
  "is_space c \<longleftrightarrow> (let n = unat c in
     9 \<le> n \<and> n \<le> 13 \<or> n = 0x20 \<or> n = 0xa0 \<or> n = 0x1680 \<or> 0x2000 \<le> n \<and> n \<le> 0x200a \<or>
     n = 0x2028 \<or> n = 0x2029 \<or> n = 0x202f \<or> n = 0x205f \<or> n = 0x3000 \<or> n = 0xfeff)"

definition is_word_start :: "code_unit \<Rightarrow> bool" where
  "is_word_start c \<longleftrightarrow> 0x41 \<le> c \<and> c \<le> 0x5a \<or> 0x61 \<le> c \<and> c \<le> 0x7a \<or> c = 0x5f"

definition is_word :: "code_unit \<Rightarrow> bool" where
  "is_word c \<longleftrightarrow> is_word_start c \<or> is_digit c"

definition hasValidUnicode :: "jsstring \<Rightarrow> bool" where
  "hasValidUnicode s = list_all (\<lambda>p. \<not> (0xd800 \<le> p \<and> p \<le> 0xdfff)) (code_points s)"

definition hasControlCharacters :: "jsstring \<Rightarrow> bool" where
  "hasControlCharacters s = list_ex (\<lambda>p. p < 0x20 \<or> p = 0x7f) (code_points s)"

text \<open>
  \<^verbatim>\<open>toUpperCase\<close> and \<^verbatim>\<open>toLowerCase\<close>. Words are ASCII. The forbidden names a quoted identifier is
  compared with after \<^verbatim>\<open>toLowerCase\<close> have no letter that a character outside ASCII is lowered to.
\<close>

definition to_upper :: "jsstring \<Rightarrow> jsstring" where
  "to_upper s = map (\<lambda>c. if 0x61 \<le> c \<and> c \<le> 0x7a then c - 0x20 else c) s"

section \<open>The scanner\<close>

text \<open>The text of a quoted token and the number of code units up to its closing quote.\<close>

fun quoted :: "code_unit \<Rightarrow> jsstring \<Rightarrow> (jsstring \<times> nat) option" where
  "quoted quote [] = None"
| "quoted quote [c] = (if c = quote then Some ([], 1) else None)"
| "quoted quote (c # d # rest) =
     (if c = quote then (if d = quote then map_option (\<lambda>(t, n). (quote # t, n + 2)) (quoted quote rest) else Some ([], 1))
      else map_option (\<lambda>(t, n). (c # t, n + 1)) (quoted quote (d # rest)))"

definition digits_at :: "jsstring \<Rightarrow> nat \<Rightarrow> nat" where
  "digits_at rest n = length (takeWhile is_digit (drop n rest))"

text \<open>The end of a number that starts at the beginning of the text; \<open>None\<close> for a missing exponent.\<close>

definition number_end :: "jsstring \<Rightarrow> nat option" where
  "number_end rest =
     (let n1 = 1 + digits_at rest 1;
          n2 = (if read_at rest 0 \<noteq> Some 0x2e \<and> read_at rest n1 = Some 0x2e then n1 + 1 + digits_at rest (n1 + 1) else n1)
      in if read_at rest n2 = Some 0x65 \<or> read_at rest n2 = Some 0x45
         then let n3 = n2 + 1;
                  n4 = (if read_at rest n3 = Some 0x2b \<or> read_at rest n3 = Some 0x2d then n3 + 1 else n3);
                  n5 = n4 + digits_at rest n4
              in if n5 = n4 then None else Some n5
         else Some n2)"

definition token :: "TokenKind \<Rightarrow> jsstring \<Rightarrow> nat \<Rightarrow> Token" where
  "token kind s index = \<lparr> token_kind = kind, token_text = s, token_position = index \<rparr>"

definition quote_single :: code_unit where "quote_single = 0x27"
definition quote_double :: code_unit where "quote_double = 0x22"

text \<open>One token at the beginning of the text, and the number of code units it takes.\<close>

definition next_token :: "nat \<Rightarrow> code_unit \<Rightarrow> jsstring \<Rightarrow> parse_error + Token \<times> nat" where
  "next_token position character cs =
     (let rest = character # cs in
      if character = quote_single \<or> character = quote_double then
        (case quoted character cs of
           None \<Rightarrow> Inl (SqlSyntaxError ''Unterminated quoted token'' position)
         | Some (s, n) \<Rightarrow>
             if \<not> hasValidUnicode s
             then Inl (SqlSyntaxError ''Quoted token must contain valid Unicode scalar values'' position)
             else Inr (token (if character = quote_single then StringToken else IdentifierToken) s position, 1 + n))
      else if is_word_start character then
        let s = character # takeWhile is_word cs in Inr (token WordToken s position, length s)
      else if is_digit character \<or> character = 0x2e \<and> cs \<noteq> [] \<and> is_digit (hd cs) then
        (case number_end rest of
           None \<Rightarrow> Inl (SqlSyntaxError ''Invalid numeric exponent'' position)
         | Some n \<Rightarrow>
             if n > MAX_NUMBER_LENGTH then Inl (SqlSyntaxError ''Numeric literal exceeds 1024 characters'' position)
             else Inr (token NumberToken (take n rest) position, n))
      else if character = 0x3f then Inr (token ParameterToken [character] position, 1)
      else if take 2 rest \<in> set (map js [''<='', ''>='', ''<>'', ''!=''])
        then Inr (token SymbolToken (take 2 rest) position, 2)
      else if character \<in> set (js ''(),;*=<>+-'') then Inr (token SymbolToken [character] position, 1)
      else Inl (SqlSyntaxError ''Unsupported SQL character'' position))"

text \<open>The index of \<^verbatim>\<open>*/\<close>.\<close>

fun comment_end :: "jsstring \<Rightarrow> nat option" where
  "comment_end [] = None"
| "comment_end (c # rest) =
     (if c = 0x2a \<and> rest \<noteq> [] \<and> hd rest = 0x2f then Some 0 else map_option Suc (comment_end rest))"

lemma comment_end_less: "comment_end s = Some n \<Longrightarrow> n < length s"
  by (induction s arbitrary: n) (auto split: if_splits)

lemma quoted_pos: "quoted q s = Some (t, n) \<Longrightarrow> 0 < n"
  by (induction q s arbitrary: t n rule: quoted.induct) (auto split: if_splits)

lemma number_end_pos: "number_end rest = Some n \<Longrightarrow> 0 < n"
  by (auto simp: number_end_def Let_def split: if_splits)

lemma next_token_pos: "next_token i c cs = Inr (t, n) \<Longrightarrow> 0 < n"
  by (auto simp: next_token_def Let_def dest: quoted_pos number_end_pos split: if_splits option.splits)

function tokenize_from :: "nat \<Rightarrow> jsstring \<Rightarrow> Token list \<Rightarrow> parse_error + Token list" where
  "tokenize_from index [] tokens = Inr (tokens @ [token EndToken [] index])"
| "tokenize_from index (c # cs) tokens =
     (if is_space c then tokenize_from (index + 1) cs tokens
      else if starts_with (c # cs) (js ''--'') then
        let n = 2 + length (takeWhile (\<lambda>d. d \<noteq> 0x0a \<and> d \<noteq> 0x0d) (drop 2 (c # cs)))
        in tokenize_from (index + n) (drop n (c # cs)) tokens
      else if starts_with (c # cs) (js ''/*'') then
        (case comment_end (drop 2 (c # cs)) of
           None \<Rightarrow> Inl (SqlSyntaxError ''Unterminated block comment'' index)
         | Some n \<Rightarrow> tokenize_from (index + 2 + n + 2) (drop (2 + n + 2) (c # cs)) tokens)
      else if MAX_TOKENS \<le> length tokens then Inl (SqlSyntaxError ''SQL token count exceeds 16384'' index)
      else (case next_token index c cs of
              Inl e \<Rightarrow> Inl e
            | Inr (t, n) \<Rightarrow> tokenize_from (index + n) (drop n (c # cs)) (tokens @ [t])))"
  by pat_completeness auto
termination
proof (relation "measure (\<lambda>(index, rest, tokens). length rest)", goal_cases)
  case (5 index c cs tokens x t n)
  then show ?case using next_token_pos [of index c cs t n] by simp
qed auto

definition tokenize :: "jsstring \<Rightarrow> parse_error + Token list" where
  "tokenize sql = tokenize_from 0 sql []"

section \<open>Numbers\<close>

definition fitsSigned64 :: "f64 \<Rightarrow> bool" where
  "fitsSigned64 v \<longleftrightarrow> f64_is_integer v \<and> SQL_INTEGER_MIN \<le> f64_int v \<and> f64_int v \<le> SQL_INTEGER_MAX"

text \<open>The number of trailing zeros of a digit string.\<close>

definition trailing_zeros :: "jsstring \<Rightarrow> nat" where
  "trailing_zeros ds = length (takeWhile (\<lambda>c. c = 0x30) (rev ds))"

text \<open>
  The exponent is compared exactly: for a literal that reaches that comparison the value is finite and
  not zero, so \<^verbatim>\<open>Number(exponentText)\<close> is a small integer.
\<close>

definition parseNumber :: "jsstring \<Rightarrow> nat \<Rightarrow> parse_error + SqlValue" where
  "parseNumber s position =
     (if is_integer_text s then
        let i = signed_value s in
        if i < SQL_INTEGER_MIN \<or> SQL_INTEGER_MAX < i
        then Inl (SqlSyntaxError ''Integer literal exceeds the signed 64-bit range'' position)
        else if - max_safe_integer \<le> i \<and> i \<le> max_safe_integer then Inr (SqlNumber (f64_of_int i)) else Inr (SqlBigint i)
      else
        let v = to_number s in
        if \<not> f64_is_finite v \<or> f64_is_integer v \<and> \<not> f64_is_safe_integer v \<and> fitsSigned64 v
        then Inl (SqlSyntaxError ''REAL literal must be finite; use integer notation for large integers'' position)
        else
          let ds = mantissa_digits (mantissa_of s); nonzero = list_ex (\<lambda>c. 0x31 \<le> c \<and> c \<le> 0x39) ds in
          if f64_scaled v = 0 \<and> nonzero then Inl (SqlSyntaxError ''REAL literal underflows to zero'' position)
          else if f64_is_integer v \<and> nonzero \<and> decimal_exponent s + int (trailing_zeros ds) < 0
            then Inl (SqlSyntaxError ''REAL literal loses its fractional part'' position)
          else Inr (SqlNumber v))"


end
