(* ===== verification/SqlParser.thy ===== *)
theory SqlParser
  imports SqlLexer
begin

text \<open>
  The SQL parser, \<^verbatim>\<open>packages/sdk/src/sql-parser.ts\<close> with the statement types of \<^verbatim>\<open>sql-types.ts\<close>: a
  recursive descent parser over the tokens of \<^verbatim>\<open>tokenize\<close>, and the binding of parameters.

  A parser method reads the remaining tokens and the counters of the parser object. Loops and the mutual
  recursion of expressions carry fuel; a method that runs out of it gives \<open>None\<close>. \<open>parseSql\<close> starts with
  four units per token, and never runs out.
\<close>

section \<open>Statements\<close>

datatype SqlColumnType = IntegerType | RealType | TextType | BooleanType | BlobType

record SqlColumnDefinition =
  column_name :: jsstring
  column_type :: SqlColumnType
  column_primaryKey :: bool
  column_nullable :: bool

datatype SqlValueExpression = Literal SqlValue | Parameter nat

datatype SqlComparisonOperator = OpEq | OpNe | OpLt | OpLe | OpGt | OpGe

datatype SqlExpression =
    Comparison jsstring SqlComparisonOperator SqlValueExpression
  | IsNull jsstring bool
  | AndExpr SqlExpression SqlExpression
  | OrExpr SqlExpression SqlExpression

datatype SqlDirection = Asc | Desc

datatype SqlStatement =
    CreateTable jsstring "SqlColumnDefinition list" bool
  | DropTable jsstring bool
  | Insert jsstring "jsstring list option" "SqlValueExpression list list"
  | Select jsstring "jsstring list option" "SqlExpression option" "(jsstring \<times> SqlDirection) list"
      "SqlValueExpression option" "SqlValueExpression option"
  | Update jsstring "(jsstring \<times> SqlValueExpression) list" "SqlExpression option"
  | Delete jsstring "SqlExpression option"

record SqlParseResult =
  statement :: SqlStatement
  parameterCount :: nat

section \<open>The parser object\<close>

definition MAX_NESTING :: nat where "MAX_NESTING = 64"
definition MAX_PREDICATES :: nat where "MAX_PREDICATES = 128"
definition MAX_IDENTIFIER_LENGTH :: nat where "MAX_IDENTIFIER_LENGTH = 128"

definition FORBIDDEN_IDENTIFIERS :: "jsstring list" where
  "FORBIDDEN_IDENTIFIERS = map js [''__proto__'', ''prototype'', ''constructor'']"

definition COLUMN_TYPES :: "(jsstring \<times> SqlColumnType) list" where
  "COLUMN_TYPES = [(js ''INTEGER'', IntegerType), (js ''REAL'', RealType), (js ''TEXT'', TextType),
     (js ''BOOLEAN'', BooleanType), (js ''BLOB'', BlobType)]"

definition KEYWORDS :: "jsstring list" where
  "KEYWORDS = map js [''CREATE'', ''TABLE'', ''IF'', ''NOT'', ''EXISTS'', ''DROP'', ''INSERT'', ''INTO'', ''VALUES'', ''SELECT'',
     ''FROM'', ''WHERE'', ''ORDER'', ''BY'', ''ASC'', ''DESC'', ''LIMIT'', ''OFFSET'', ''UPDATE'', ''SET'', ''DELETE'', ''PRIMARY'',
     ''KEY'', ''NULL'', ''TRUE'', ''FALSE'', ''IS'', ''AND'', ''OR'', ''JOIN'', ''LEFT'', ''RIGHT'', ''INNER'', ''OUTER'', ''CROSS'',
     ''ON'', ''AS'', ''DISTINCT'', ''GROUP'', ''HAVING'', ''UNION'', ''ALL'', ''IN'', ''LIKE'', ''BETWEEN'', ''DEFAULT'', ''UNIQUE'',
     ''CHECK'', ''REFERENCES'', ''CONSTRAINT'', ''FOREIGN'', ''AUTOINCREMENT'', ''RETURNING'', ''CONFLICT''] @ map fst COLUMN_TYPES"

record Parser =
  rest :: "Token list"
  p_parameterCount :: nat
  nesting :: nat
  predicates :: nat

type_synonym 'a parse = "Parser \<Rightarrow> (parse_error + 'a \<times> Parser) option"

definition pure :: "'a \<Rightarrow> 'a parse" where
  "pure x = (\<lambda>p. Some (Inr (x, p)))"

definition fail :: "parse_error \<Rightarrow> 'a parse" where
  "fail e = (\<lambda>p. Some (Inl e))"

definition no_fuel :: "'a parse" where
  "no_fuel = (\<lambda>p. None)"

definition bindp :: "'a parse \<Rightarrow> ('a \<Rightarrow> 'b parse) \<Rightarrow> 'b parse" where
  "bindp m f = (\<lambda>p. case m p of None \<Rightarrow> None | Some (Inl e) \<Rightarrow> Some (Inl e) | Some (Inr (x, p')) \<Rightarrow> f x p')"

definition current :: "Token parse" where
  "current = (\<lambda>p. case rest p of [] \<Rightarrow> Some (Inl NoToken) | t # _ \<Rightarrow> Some (Inr (t, p)))"

definition advance :: "unit parse" where
  "advance = (\<lambda>p. Some (Inr ((), p\<lparr>rest := tl (rest p)\<rparr>)))"

definition syntax_error :: "string \<Rightarrow> 'a parse" where
  "syntax_error message = bindp current (\<lambda>t. fail (SqlSyntaxError message (token_position t)))"

definition acceptKeyword :: "string \<Rightarrow> bool parse" where
  "acceptKeyword keyword = bindp current (\<lambda>t.
     if token_kind t \<noteq> WordToken \<or> to_upper (token_text t) \<noteq> js keyword then pure False
     else bindp advance (\<lambda>_. pure True))"

definition expectKeyword :: "string \<Rightarrow> unit parse" where
  "expectKeyword keyword = bindp (acceptKeyword keyword) (\<lambda>ok.
     if ok then pure () else syntax_error (''Expected '' @ keyword))"

definition acceptSymbol :: "string \<Rightarrow> bool parse" where
  "acceptSymbol symbol = bindp current (\<lambda>t.
     if token_kind t \<noteq> SymbolToken \<or> token_text t \<noteq> js symbol then pure False
     else bindp advance (\<lambda>_. pure True))"

definition expectSymbol :: "string \<Rightarrow> unit parse" where
  "expectSymbol symbol = bindp (acceptSymbol symbol) (\<lambda>ok.
     if ok then pure () else syntax_error (''Expected '' @ symbol))"

definition assertUnique :: "jsstring list \<Rightarrow> jsstring \<Rightarrow> string \<Rightarrow> unit parse" where
  "assertUnique names name label = (if name \<in> set names then syntax_error (''Duplicate '' @ label) else pure ())"

definition invalid_identifier :: "jsstring \<Rightarrow> bool" where
  "invalid_identifier s \<longleftrightarrow> s = [] \<or> length s > MAX_IDENTIFIER_LENGTH \<or> hasControlCharacters s \<or>
     to_lower s \<in> set FORBIDDEN_IDENTIFIERS \<or> \<not> hasValidUnicode s"

definition identifier_name :: "jsstring parse" where
  "identifier_name = bindp current (\<lambda>t.
     if token_kind t \<noteq> IdentifierToken \<and> (token_kind t \<noteq> WordToken \<or> to_upper (token_text t) \<in> set KEYWORDS)
     then syntax_error ''Expected an identifier; use double quotes for keywords''
     else if invalid_identifier (token_text t) then syntax_error ''Invalid or reserved identifier''
     else bindp advance (\<lambda>_. pure (token_text t)))"

text \<open>\<^verbatim>\<open>do { body } while (this.#acceptSymbol(','))\<close>, with the variables the body changes.\<close>

fun do_while_comma :: "nat \<Rightarrow> ('v \<Rightarrow> 'v parse) \<Rightarrow> 'v \<Rightarrow> 'v parse" where
  "do_while_comma 0 body v = no_fuel"
| "do_while_comma (Suc fuel) body v =
     bindp (body v) (\<lambda>v'. bindp (acceptSymbol '','') (\<lambda>more. if more then do_while_comma fuel body v' else pure v'))"

definition identifierList :: "nat \<Rightarrow> jsstring list parse" where
  "identifierList fuel = do_while_comma fuel (\<lambda>columns.
     bindp identifier_name (\<lambda>name. bindp (assertUnique columns name ''column'') (\<lambda>_. pure (columns @ [name])))) []"

text \<open>The value of a literal or a parameter.\<close>

definition parameter_value :: "SqlValueExpression parse" where
  "parameter_value = (\<lambda>p. Some (Inr (Parameter (p_parameterCount p), p\<lparr>p_parameterCount := p_parameterCount p + 1\<rparr>)))"

definition sign_prefix :: "jsstring parse" where
  "sign_prefix = bindp (acceptSymbol ''-'') (\<lambda>minus.
     if minus then pure (js ''-'') else bindp (acceptSymbol ''+'') (\<lambda>plus. pure (if plus then js ''+'' else [])))"

definition number_value :: "nat \<Rightarrow> jsstring \<Rightarrow> SqlValueExpression parse" where
  "number_value position sign = bindp current (\<lambda>number.
     if token_kind number = NumberToken
     then bindp advance (\<lambda>_. case parseNumber (sign @ token_text number) position of
            Inl e \<Rightarrow> fail e | Inr v \<Rightarrow> pure (Literal v))
     else syntax_error ''Expected a scalar literal or positional ? parameter'')"

definition keyword_value :: "nat \<Rightarrow> SqlValueExpression parse" where
  "keyword_value position =
     bindp (acceptKeyword ''NULL'') (\<lambda>null. if null then pure (Literal SqlNull)
     else bindp (acceptKeyword ''TRUE'') (\<lambda>true. if true then pure (Literal (SqlBool True))
     else bindp (acceptKeyword ''FALSE'') (\<lambda>false. if false then pure (Literal (SqlBool False))
     else bindp sign_prefix (number_value position))))"

definition value_expr :: "SqlValueExpression parse" where
  "value_expr = bindp current (\<lambda>t.
     if token_kind t = ParameterToken then bindp advance (\<lambda>_. parameter_value)
     else if token_kind t = StringToken then bindp advance (\<lambda>_. pure (Literal (SqlText (token_text t))))
     else keyword_value (token_position t))"

definition rowCount :: "string \<Rightarrow> SqlValueExpression parse" where
  "rowCount clause = bindp value_expr (\<lambda>v.
     case v of
       Literal (SqlNumber n) \<Rightarrow>
         if \<not> f64_is_safe_integer n \<or> f64_scaled n < 0
         then syntax_error (clause @ '' must be a non-negative safe integer or parameter'') else pure v
     | Literal _ \<Rightarrow> syntax_error (clause @ '' must be a non-negative safe integer or parameter'')
     | Parameter _ \<Rightarrow> pure v)"

section \<open>Expressions\<close>

definition comparison_operators :: "(jsstring \<times> SqlComparisonOperator) list" where
  "comparison_operators = [(js ''='', OpEq), (js ''!='', OpNe), (js ''<>'', OpNe), (js ''<'', OpLt), (js ''<='', OpLe),
     (js ''>'', OpGt), (js ''>='', OpGe)]"

definition count_predicate :: "unit parse" where
  "count_predicate = (\<lambda>p. Some (Inr ((), p\<lparr>predicates := predicates p + 1\<rparr>)))"

definition too_many :: "(Parser \<Rightarrow> nat) \<Rightarrow> nat \<Rightarrow> bool parse" where
  "too_many counter bound = (\<lambda>p. Some (Inr (bound < counter p, p)))"

definition change_nesting :: "(nat \<Rightarrow> nat) \<Rightarrow> unit parse" where
  "change_nesting f = (\<lambda>p. Some (Inr ((), p\<lparr>nesting := f (nesting p)\<rparr>)))"

definition comparison_tail :: "jsstring \<Rightarrow> SqlExpression parse" where
  "comparison_tail column = bindp (acceptKeyword ''IS'') (\<lambda>is.
     if is then bindp (acceptKeyword ''NOT'') (\<lambda>negated. bindp (expectKeyword ''NULL'') (\<lambda>_. pure (IsNull column negated)))
     else bindp current (\<lambda>t.
       case (if token_kind t = SymbolToken then map_of comparison_operators (token_text t) else None) of
         None \<Rightarrow> syntax_error ''Expected a comparison operator or IS [NOT] NULL''
       | Some operator \<Rightarrow> bindp advance (\<lambda>_. bindp value_expr (\<lambda>v. pure (Comparison column operator v)))))"

fun or_expr :: "nat \<Rightarrow> SqlExpression parse"
and or_loop :: "nat \<Rightarrow> SqlExpression \<Rightarrow> SqlExpression parse"
and and_expr :: "nat \<Rightarrow> SqlExpression parse"
and and_loop :: "nat \<Rightarrow> SqlExpression \<Rightarrow> SqlExpression parse"
and predicate_expr :: "nat \<Rightarrow> SqlExpression parse" where
  "or_expr 0 = no_fuel"
| "or_expr (Suc fuel) = bindp (and_expr fuel) (or_loop fuel)"
| "or_loop 0 expression = no_fuel"
| "or_loop (Suc fuel) expression = bindp (acceptKeyword ''OR'') (\<lambda>more.
     if more then bindp (and_expr fuel) (\<lambda>right. or_loop fuel (OrExpr expression right)) else pure expression)"
| "and_expr 0 = no_fuel"
| "and_expr (Suc fuel) = bindp (predicate_expr fuel) (and_loop fuel)"
| "and_loop 0 expression = no_fuel"
| "and_loop (Suc fuel) expression = bindp (acceptKeyword ''AND'') (\<lambda>more.
     if more then bindp (predicate_expr fuel) (\<lambda>right. and_loop fuel (AndExpr expression right)) else pure expression)"
| "predicate_expr 0 = no_fuel"
| "predicate_expr (Suc fuel) = bindp (acceptSymbol ''('') (\<lambda>open.
     if open then
       bindp (change_nesting Suc) (\<lambda>_. bindp (too_many nesting MAX_NESTING) (\<lambda>deep.
         if deep then syntax_error ''WHERE nesting exceeds 64''
         else bindp (or_expr fuel) (\<lambda>expression. bindp (expectSymbol '')'') (\<lambda>_.
              bindp (change_nesting (\<lambda>n. n - 1)) (\<lambda>_. pure expression)))))
     else
       bindp count_predicate (\<lambda>_. bindp (too_many predicates MAX_PREDICATES) (\<lambda>many.
         if many then syntax_error ''WHERE predicates exceed 128''
         else bindp identifier_name comparison_tail)))"

definition where_clause :: "nat \<Rightarrow> SqlExpression option parse" where
  "where_clause fuel = bindp (acceptKeyword ''WHERE'') (\<lambda>given.
     if given then bindp (or_expr fuel) (\<lambda>e. pure (Some e)) else pure None)"

section \<open>Statements\<close>

text \<open>
  The constraints of a column: \<^verbatim>\<open>primaryKey\<close>, \<^verbatim>\<open>nullable\<close>, \<^verbatim>\<open>nullabilitySpecified\<close> and the number of
  primary keys of the table.
\<close>

fun constraint_loop :: "nat \<Rightarrow> bool \<Rightarrow> bool \<Rightarrow> bool \<Rightarrow> nat \<Rightarrow> (bool \<times> bool \<times> bool \<times> nat) parse" where
  "constraint_loop 0 primary nullable specified count = no_fuel"
| "constraint_loop (Suc fuel) primary nullable specified count =
     bindp (acceptKeyword ''PRIMARY'') (\<lambda>p.
       if p then
         if primary then syntax_error ''Duplicate PRIMARY KEY constraint''
         else bindp (expectKeyword ''KEY'') (\<lambda>_.
           if count + 1 > 1 then syntax_error ''Only one inline PRIMARY KEY is supported''
           else constraint_loop fuel True nullable specified (count + 1))
       else bindp (acceptKeyword ''NOT'') (\<lambda>n.
         if n then bindp (expectKeyword ''NULL'') (\<lambda>_.
           if specified then syntax_error ''Duplicate nullability constraint''
           else constraint_loop fuel primary False True count)
         else bindp (acceptKeyword ''NULL'') (\<lambda>n.
           if n then
             if specified then syntax_error ''Duplicate nullability constraint''
             else constraint_loop fuel primary True True count
           else pure (primary, nullable, specified, count))))"

definition column_definition ::
  "nat \<Rightarrow> SqlColumnDefinition list \<times> nat \<Rightarrow> (SqlColumnDefinition list \<times> nat) parse" where
  "column_definition fuel = (\<lambda>(columns, count).
     bindp identifier_name (\<lambda>name.
     bindp (assertUnique (map column_name columns) name ''column'') (\<lambda>_.
     bindp current (\<lambda>t.
       case (if token_kind t = WordToken then map_of COLUMN_TYPES (to_upper (token_text t)) else None) of
         None \<Rightarrow> syntax_error ''Expected INTEGER, REAL, TEXT, BOOLEAN, or BLOB column type''
       | Some type \<Rightarrow>
           bindp advance (\<lambda>_.
           bindp (constraint_loop fuel False True False count) (\<lambda>(primary, null, specified, count').
             if primary \<and> null \<and> specified then syntax_error ''PRIMARY KEY cannot be declared NULL''
             else pure (columns @ [\<lparr> column_name = name, column_type = type, column_primaryKey = primary,
                                      column_nullable = (if primary then False else null) \<rparr>], count')))))))"

definition createTable :: "nat \<Rightarrow> SqlStatement parse" where
  "createTable fuel =
     bindp (expectKeyword ''TABLE'') (\<lambda>_.
     bindp (acceptKeyword ''IF'') (\<lambda>ifNotExists.
     bindp (if ifNotExists then bindp (expectKeyword ''NOT'') (\<lambda>_. expectKeyword ''EXISTS'') else pure ()) (\<lambda>_.
     bindp identifier_name (\<lambda>table.
     bindp (expectSymbol ''('') (\<lambda>_.
     bindp (do_while_comma fuel (column_definition fuel) ([], 0)) (\<lambda>(columns, _).
     bindp (expectSymbol '')'') (\<lambda>_. pure (CreateTable table columns ifNotExists))))))))"

definition dropTable :: "SqlStatement parse" where
  "dropTable =
     bindp (expectKeyword ''TABLE'') (\<lambda>_.
     bindp (acceptKeyword ''IF'') (\<lambda>ifExists.
     bindp (if ifExists then expectKeyword ''EXISTS'' else pure ()) (\<lambda>_.
     bindp identifier_name (\<lambda>table. pure (DropTable table ifExists)))))"

definition value_list :: "nat \<Rightarrow> SqlValueExpression list parse" where
  "value_list fuel = do_while_comma fuel (\<lambda>row. bindp value_expr (\<lambda>v. pure (row @ [v]))) []"

definition insert_row ::
  "nat \<Rightarrow> SqlValueExpression list list \<times> nat option \<Rightarrow> (SqlValueExpression list list \<times> nat option) parse" where
  "insert_row fuel = (\<lambda>(rows, width).
     bindp (expectSymbol ''('') (\<lambda>_.
     bindp (value_list fuel) (\<lambda>row.
     bindp (expectSymbol '')'') (\<lambda>_.
       let width' = (case width of None \<Rightarrow> length row | Some w \<Rightarrow> w) in
       if length row \<noteq> width' then syntax_error ''INSERT rows must match the column count''
       else pure (rows @ [row], Some width')))))"

definition insert_stmt :: "nat \<Rightarrow> SqlStatement parse" where
  "insert_stmt fuel =
     bindp (expectKeyword ''INTO'') (\<lambda>_.
     bindp identifier_name (\<lambda>table.
     bindp (acceptSymbol ''('') (\<lambda>listed.
     bindp (if listed then bindp (identifierList fuel) (\<lambda>cs. bindp (expectSymbol '')'') (\<lambda>_. pure (Some cs))) else pure None) (\<lambda>columns.
     bindp (expectKeyword ''VALUES'') (\<lambda>_.
     bindp (do_while_comma fuel (insert_row fuel) ([], map_option length columns)) (\<lambda>(rows, _).
       pure (Insert table columns rows)))))))"

definition order_item :: "(jsstring \<times> SqlDirection) list \<Rightarrow> (jsstring \<times> SqlDirection) list parse" where
  "order_item orders =
     bindp identifier_name (\<lambda>column.
     bindp (assertUnique (map fst orders) column ''ORDER BY column'') (\<lambda>_.
     bindp (acceptKeyword ''DESC'') (\<lambda>desc.
       if desc then pure (orders @ [(column, Desc)])
       else bindp (acceptKeyword ''ASC'') (\<lambda>_. pure (orders @ [(column, Asc)])))))"

definition order_by :: "nat \<Rightarrow> (jsstring \<times> SqlDirection) list parse" where
  "order_by fuel = bindp (acceptKeyword ''ORDER'') (\<lambda>given.
     if given then bindp (expectKeyword ''BY'') (\<lambda>_. do_while_comma fuel order_item []) else pure [])"

definition limit_clause :: "(SqlValueExpression option \<times> SqlValueExpression option) parse" where
  "limit_clause = bindp (acceptKeyword ''LIMIT'') (\<lambda>given.
     if given then bindp (rowCount ''LIMIT'') (\<lambda>limit.
       bindp (acceptKeyword ''OFFSET'') (\<lambda>given.
         if given then bindp (rowCount ''OFFSET'') (\<lambda>offset. pure (Some limit, Some offset)) else pure (Some limit, None)))
     else pure (None, None))"

definition select_stmt :: "nat \<Rightarrow> SqlStatement parse" where
  "select_stmt fuel =
     bindp (acceptSymbol ''*'') (\<lambda>star.
     bindp (if star then pure None else bindp (identifierList fuel) (\<lambda>cs. pure (Some cs))) (\<lambda>columns.
     bindp (expectKeyword ''FROM'') (\<lambda>_.
     bindp identifier_name (\<lambda>table.
     bindp (where_clause fuel) (\<lambda>cond.
     bindp (order_by fuel) (\<lambda>orderBy.
     bindp limit_clause (\<lambda>(limit, offset). pure (Select table columns cond orderBy limit offset))))))))"

definition assignment :: "(jsstring \<times> SqlValueExpression) list \<Rightarrow> (jsstring \<times> SqlValueExpression) list parse" where
  "assignment assignments =
     bindp identifier_name (\<lambda>column.
     bindp (assertUnique (map fst assignments) column ''assignment'') (\<lambda>_.
     bindp (expectSymbol ''='') (\<lambda>_.
     bindp value_expr (\<lambda>v. pure (assignments @ [(column, v)])))))"

definition update_stmt :: "nat \<Rightarrow> SqlStatement parse" where
  "update_stmt fuel =
     bindp identifier_name (\<lambda>table.
     bindp (expectKeyword ''SET'') (\<lambda>_.
     bindp (do_while_comma fuel assignment []) (\<lambda>assignments.
     bindp (where_clause fuel) (\<lambda>cond. pure (Update table assignments cond)))))"

definition delete_stmt :: "nat \<Rightarrow> SqlStatement parse" where
  "delete_stmt fuel =
     bindp (expectKeyword ''FROM'') (\<lambda>_.
     bindp identifier_name (\<lambda>table.
     bindp (where_clause fuel) (\<lambda>cond. pure (Delete table cond))))"

definition parseStatement :: "nat \<Rightarrow> SqlStatement parse" where
  "parseStatement fuel =
     bindp (acceptKeyword ''CREATE'') (\<lambda>k. if k then createTable fuel else
     bindp (acceptKeyword ''DROP'') (\<lambda>k. if k then dropTable else
     bindp (acceptKeyword ''INSERT'') (\<lambda>k. if k then insert_stmt fuel else
     bindp (acceptKeyword ''SELECT'') (\<lambda>k. if k then select_stmt fuel else
     bindp (acceptKeyword ''UPDATE'') (\<lambda>k. if k then update_stmt fuel else
     bindp (acceptKeyword ''DELETE'') (\<lambda>k. if k then delete_stmt fuel else
     syntax_error ''Expected CREATE TABLE, DROP TABLE, INSERT, SELECT, UPDATE, or DELETE''))))))"

definition finish :: "SqlStatement \<Rightarrow> SqlParseResult parse" where
  "finish s = (\<lambda>p. Some (Inr (\<lparr> statement = s, parameterCount = p_parameterCount p \<rparr>, p)))"

definition parse_tokens :: "nat \<Rightarrow> SqlParseResult parse" where
  "parse_tokens fuel =
     bindp (parseStatement fuel) (\<lambda>s.
     bindp (acceptSymbol '';'') (\<lambda>_.
     bindp current (\<lambda>t.
       if token_kind t \<noteq> EndToken then syntax_error ''Unexpected or unsupported SQL syntax'' else finish s)))"

definition new_parser :: "Token list \<Rightarrow> Parser" where
  "new_parser tokens = \<lparr> rest = tokens, p_parameterCount = 0, nesting = 0, predicates = 0 \<rparr>"

definition parseSql :: "jsstring \<Rightarrow> (parse_error + SqlParseResult) option" where
  "parseSql sql =
     (if length sql > MAX_SQL_LENGTH then Some (Inl (SqlSyntaxError ''SQL exceeds 1048576 characters'' MAX_SQL_LENGTH))
      else case tokenize sql of
        Inl e \<Rightarrow> Some (Inl e)
      | Inr tokens \<Rightarrow> map_option (map_sum id fst) (parse_tokens (4 * length tokens + 4) (new_parser tokens)))"

section \<open>Parameters\<close>

text \<open>One parameter of a call, from \<^verbatim>\<open>bindSqlParameters\<close>.\<close>

definition bind_parameter :: "jsval \<Rightarrow> SqlValue result" where
  "bind_parameter v =
     (case v of
        VNull \<Rightarrow> Inr SqlNull
      | VBool b \<Rightarrow> Inr (SqlBool b)
      | VNumber n \<Rightarrow>
          if \<not> f64_is_finite n \<or> f64_is_integer n \<and> \<not> f64_is_safe_integer n \<and> fitsSigned64 n
          then throw RangeError ''SQL parameter must be finite; use bigint for integers outside the safe range''
          else Inr (SqlNumber n)
      | VBigint i \<Rightarrow>
          if i < SQL_INTEGER_MIN \<or> i > SQL_INTEGER_MAX
          then throw RangeError ''SQL parameter exceeds the signed 64-bit integer range'' else Inr (SqlBigint i)
      | VString s \<Rightarrow>
          if \<not> hasValidUnicode s then throw TypeError ''SQL parameter must contain valid Unicode scalar values''
          else Inr (SqlText s)
      | VBytes b \<Rightarrow> Inr (SqlBlob b)
      | _ \<Rightarrow> throw TypeError ''SQL parameter must be null, boolean, number, bigint, string, or Uint8Array'')"

definition bindSqlParameters :: "SqlParseResult \<Rightarrow> jsval \<Rightarrow> SqlValue list result" where
  "bindSqlParameters parsed parameters =
     (case (if parameters = VUndefined then VArray [] else parameters) of
        VArray vs \<Rightarrow>
          if length vs \<noteq> parameterCount parsed then throw RangeError ''SQL expects another number of parameters''
          else mapr bind_parameter vs
      | _ \<Rightarrow> throw TypeError ''SQL parameters must be an array'')"

definition resolveSqlValue :: "SqlValueExpression \<Rightarrow> SqlValue list \<Rightarrow> SqlValue result" where
  "resolveSqlValue expression parameters =
     (case expression of
        Literal v \<Rightarrow> Inr v
      | Parameter index \<Rightarrow>
          (case read_at parameters index of None \<Rightarrow> throw RangeError ''SQL parameter is missing'' | Some v \<Rightarrow> Inr v))"

section \<open>Every text is parsed\<close>

text \<open>
  A token list ends with its only end token. A parser method is safe on at most \<open>n\<close> tokens when it gives
  a result or a syntax error, keeps the end token, and takes at least \<open>k\<close> tokens for its result.
\<close>

definition ended :: "Token list \<Rightarrow> bool" where
  "ended ts \<longleftrightarrow> ts \<noteq> [] \<and> token_kind (last ts) = EndToken \<and> (\<forall>t\<in>set (butlast ts). token_kind t \<noteq> EndToken)"

definition safe_run :: "('a \<Rightarrow> nat) \<Rightarrow> 'a parse \<Rightarrow> Parser \<Rightarrow> bool" where
  "safe_run k p s =
     (case p s of
        None \<Rightarrow> False
      | Some (Inl e) \<Rightarrow> e \<noteq> NoToken
      | Some (Inr (x, s')) \<Rightarrow> ended (rest s') \<and> length (rest s') + k x \<le> length (rest s))"

definition safe :: "nat \<Rightarrow> ('a \<Rightarrow> nat) \<Rightarrow> 'a parse \<Rightarrow> bool" where
  "safe n k p \<longleftrightarrow> (\<forall>s. ended (rest s) \<longrightarrow> length (rest s) \<le> n \<longrightarrow> safe_run k p s)"

definition safe_at :: "nat \<Rightarrow> Token \<Rightarrow> ('a \<Rightarrow> nat) \<Rightarrow> 'a parse \<Rightarrow> bool" where
  "safe_at n t k p \<longleftrightarrow> (\<forall>s. ended (rest s) \<longrightarrow> length (rest s) \<le> n \<longrightarrow> hd (rest s) = t \<longrightarrow> safe_run k p s)"

named_theorems safe_rules \<open>safety of parser methods\<close>

lemma ended_nonempty: "ended ts \<Longrightarrow> ts \<noteq> []"
  by (simp add: ended_def)

lemma ended_tl: "ended (t # ts) \<Longrightarrow> token_kind t \<noteq> EndToken \<Longrightarrow> ended ts"
  by (cases ts) (auto simp: ended_def)

lemma safe_0 [safe_rules, simp]: "safe 0 k p"
  by (auto simp: safe_def ended_def)

lemma safe_pure [safe_rules, simp]: "k x = 0 \<Longrightarrow> safe n k (pure x)"
  by (simp add: safe_def safe_run_def pure_def)

lemma safe_fail [simp]: "e \<noteq> NoToken \<Longrightarrow> safe n k (fail e)"
  by (simp add: safe_def safe_run_def fail_def)

lemma safe_bind:
  assumes "safe n k p" and "\<And>x. safe (n - k x) (\<lambda>y. K y - k x) (f x)"
  shows "safe n K (bindp p f)"
  unfolding safe_def
proof (intro allI impI)
  fix s :: Parser assume s: "ended (rest s)" "length (rest s) \<le> n"
  then have p: "safe_run k p s" using assms(1) by (simp add: safe_def)
  show "safe_run K (bindp p f) s"
  proof (cases "p s")
    case None
    then show ?thesis using p by (simp add: safe_run_def)
  next
    case (Some r)
    show ?thesis
    proof (cases r)
      case (Inl e)
      then show ?thesis using p Some by (simp add: safe_run_def bindp_def)
    next
      case (Inr xs)
      obtain x s1 where xs: "xs = (x, s1)" by fastforce
      have s1: "ended (rest s1)" "length (rest s1) + k x \<le> length (rest s)"
        using p Some Inr xs by (simp_all add: safe_run_def)
      then have "safe_run (\<lambda>y. K y - k x) (f x) s1" using assms(2) [of x] s(2) by (simp add: safe_def)
      then show ?thesis
        using Some Inr xs s1(2) by (auto simp: safe_run_def bindp_def split: option.splits sum.splits prod.splits)
    qed
  qed
qed

lemma safe_run_weaken: "safe_run k p s \<Longrightarrow> (\<And>x. k' x \<le> k x) \<Longrightarrow> safe_run k' p s"
  unfolding safe_run_def by (auto split: option.splits sum.splits) (meson add_left_mono order_trans)

lemma safe_weaken: "safe n k p \<Longrightarrow> (\<And>x. k' x \<le> k x) \<Longrightarrow> m \<le> n \<Longrightarrow> safe m k' p"
  unfolding safe_def by (meson order_trans safe_run_weaken)

lemma safe_current:
  assumes "\<And>t. safe_at n t K (f t)"
  shows "safe n K (bindp current f)"
  unfolding safe_def
proof (intro allI impI)
  fix s :: Parser assume s: "ended (rest s)" "length (rest s) \<le> n"
  then obtain t ts where "rest s = t # ts" using ended_nonempty by (cases "rest s") auto
  then show "safe_run K (bindp current f) s"
    using s assms [of t] by (auto simp: safe_at_def safe_run_def bindp_def current_def)
qed

lemma safe_at_safe: "safe n K p \<Longrightarrow> safe_at n t K p"
  by (simp add: safe_def safe_at_def)

lemma safe_at_advance:
  assumes "token_kind t \<noteq> EndToken" and "safe (n - 1) (\<lambda>y. K y - 1) (f ())"
  shows "safe_at n t K (bindp advance f)"
  unfolding safe_at_def
proof (intro allI impI)
  fix s :: Parser assume s: "ended (rest s)" "length (rest s) \<le> n" "hd (rest s) = t"
  then obtain ts where ts: "rest s = t # ts" using ended_nonempty by (cases "rest s") auto
  then have "safe_run (\<lambda>y. K y - 1) (f ()) (s\<lparr>rest := ts\<rparr>)"
    using assms s ended_tl [of t ts] by (simp add: safe_def)
  then show "safe_run K (bindp advance f) s"
    using ts by (auto simp: safe_run_def bindp_def advance_def split: option.splits sum.splits prod.splits)
qed

lemma safe_advance_unit:
  "token_kind t \<noteq> EndToken \<Longrightarrow> safe (n - 1) (\<lambda>_. 0) (f ()) \<Longrightarrow> safe_at n t (\<lambda>_. 1) (bindp advance f)"
  by (rule safe_at_advance) simp_all

lemma safe_syntax_error [safe_rules, simp]: "safe n K (syntax_error m)"
  unfolding syntax_error_def by (rule safe_current, rule safe_at_safe) simp

lemma safe_acceptKeyword: "safe n (\<lambda>b. if b then 1 else 0) (acceptKeyword k)"
  unfolding acceptKeyword_def
  by (rule safe_current) (auto intro: safe_at_safe safe_at_advance)

lemma safe_acceptSymbol: "safe n (\<lambda>b. if b then 1 else 0) (acceptSymbol k)"
  unfolding acceptSymbol_def
  by (rule safe_current) (auto intro: safe_at_safe safe_at_advance)

lemma safe_expectKeyword: "safe n (\<lambda>_. 1) (expectKeyword k)"
  unfolding expectKeyword_def by (rule safe_bind [OF safe_acceptKeyword]) simp

lemma safe_expectSymbol: "safe n (\<lambda>_. 1) (expectSymbol k)"
  unfolding expectSymbol_def by (rule safe_bind [OF safe_acceptSymbol]) simp

lemma safe_assertUnique: "safe n (\<lambda>_. 0) (assertUnique ns x l)"
  by (simp add: assertUnique_def)

lemma safe_identifier_name: "safe n (\<lambda>_. 1) identifier_name"
  unfolding identifier_name_def
  by (rule safe_current) (auto intro: safe_at_safe safe_at_advance)

lemmas safe_binds =
  safe_bind [OF safe_acceptKeyword] safe_bind [OF safe_acceptSymbol] safe_bind [OF safe_expectKeyword]
  safe_bind [OF safe_expectSymbol] safe_bind [OF safe_assertUnique] safe_bind [OF safe_identifier_name]

lemma parseNumber_token: "parseNumber s i = Inl e \<Longrightarrow> e \<noteq> NoToken"
  by (auto simp: parseNumber_def Let_def split: if_splits)

lemma safe_parameter_value: "safe n (\<lambda>_. 0) parameter_value"
  by (simp add: safe_def safe_run_def parameter_value_def)

lemma safe_sign_prefix: "safe n (\<lambda>_. 0) sign_prefix"
  by (auto simp: sign_prefix_def intro!: safe_binds)

lemma safe_number_value: "safe n (\<lambda>_. 1) (number_value pos sign)"
  unfolding number_value_def
  by (rule safe_current) (auto intro: safe_at_safe safe_at_advance split: sum.split simp: parseNumber_token)

lemma safe_keyword_value: "safe n (\<lambda>_. 1) (keyword_value pos)"
  unfolding keyword_value_def
  by (intro safe_binds) (auto simp del: One_nat_def intro!: safe_binds safe_bind [OF safe_sign_prefix] safe_number_value)

lemma safe_value_expr: "safe n (\<lambda>_. 1) value_expr"
  unfolding value_expr_def
  by (rule safe_current)
    (auto simp del: One_nat_def intro: safe_at_safe safe_keyword_value safe_advance_unit safe_parameter_value)

lemma safe_rowCount: "safe n (\<lambda>_. 1) (rowCount c)"
  unfolding rowCount_def
  by (rule safe_bind [OF safe_value_expr]) (auto split: SqlValueExpression.split SqlValue.split)

lemma safe_comparison_tail: "safe n (\<lambda>_. 1) (comparison_tail c)"
proof -
  have operator: "safe n (\<lambda>_. 1) (bindp current (\<lambda>t.
       case (if token_kind t = SymbolToken then map_of comparison_operators (token_text t) else None) of
         None \<Rightarrow> syntax_error m
       | Some operator \<Rightarrow> bindp advance (\<lambda>_. bindp value_expr (\<lambda>v. pure (Comparison c operator v)))))" for n m
    by (rule safe_current)
      (auto simp del: One_nat_def intro!: safe_advance_unit safe_bind [OF safe_value_expr] intro: safe_at_safe split: option.split if_splits)
  show ?thesis unfolding comparison_tail_def
    by (intro safe_binds) (auto simp del: One_nat_def intro!: safe_binds operator)
qed

lemma safe_comparison_tail_0: "safe n (\<lambda>_. 0) (comparison_tail c)"
  by (rule safe_weaken [OF safe_comparison_tail, of _ n n]) simp_all

lemma safe_counters:
  "safe n (\<lambda>_. 0) (change_nesting f)" "safe n (\<lambda>_. 0) count_predicate" "safe n (\<lambda>_. 0) (too_many c b)"
  by (simp_all add: safe_def safe_run_def change_nesting_def count_predicate_def too_many_def)

lemmas safe_counter_binds = safe_bind [OF safe_counters(1)] safe_bind [OF safe_counters(2)] safe_bind [OF safe_counters(3)]

lemma safe_expressions:
  shows "4 * n + 3 \<le> fuel \<Longrightarrow> safe n (\<lambda>_. 1) (or_expr fuel)"
    and "4 * n + 1 \<le> fuel \<Longrightarrow> safe n (\<lambda>_. 0) (or_loop fuel e)"
    and "4 * n + 2 \<le> fuel \<Longrightarrow> safe n (\<lambda>_. 1) (and_expr fuel)"
    and "4 * n + 1 \<le> fuel \<Longrightarrow> safe n (\<lambda>_. 0) (and_loop fuel e)"
    and "4 * n + 1 \<le> fuel \<Longrightarrow> safe n (\<lambda>_. 1) (predicate_expr fuel)"
proof (induction fuel arbitrary: n e)
  case 0
  { case 1 then show ?case by simp next
    case 2 then show ?case by simp next
    case 3 then show ?case by simp next
    case 4 then show ?case by simp next
    case 5 then show ?case by simp }
next
  case (Suc fuel)
  { case 1
    then show ?case
      by (auto simp del: One_nat_def intro!: safe_bind [OF Suc.IH(3)] Suc.IH(2))
  next
    case 2
    then show ?case
      by (cases n) (auto simp del: One_nat_def intro!: safe_binds safe_bind [OF Suc.IH(3)] Suc.IH(2), linarith?)
  next
    case 3
    then show ?case
      by (auto simp del: One_nat_def intro!: safe_bind [OF Suc.IH(5)] Suc.IH(4))
  next
    case 4
    then show ?case
      by (cases n) (auto simp del: One_nat_def intro!: safe_binds safe_bind [OF Suc.IH(5)] Suc.IH(4), linarith?)
  next
    case 5
    then show ?case
      by (cases n) (auto simp del: One_nat_def intro!: safe_binds safe_counter_binds safe_bind [OF Suc.IH(1)]
        safe_comparison_tail_0)
  }
qed

lemma safe_where_clause: "4 * n + 3 \<le> fuel \<Longrightarrow> safe n (\<lambda>_. 0) (where_clause fuel)"
  unfolding where_clause_def
  by (intro safe_binds) (auto simp del: One_nat_def intro!: safe_bind [OF safe_expressions(1)])

lemma safe_do_while:
  assumes "\<And>v m. m \<le> n \<Longrightarrow> safe m (\<lambda>_. 1) (body v)" and "n < fuel"
  shows "safe n (\<lambda>_. 1) (do_while_comma fuel body v)"
  using assms
proof (induction fuel arbitrary: n v)
  case 0
  then show ?case by simp
next
  case (Suc fuel)
  have again: "safe (n - 2) (\<lambda>_. 0) (do_while_comma fuel body w)" for w
  proof (cases "n \<le> 2")
    case True
    then show ?thesis by (simp add: safe_0)
  next
    case False
    then have "safe (n - 2) (\<lambda>_. 1) (do_while_comma fuel body w)" using Suc.prems by (intro Suc.IH) auto
    then show ?thesis by (rule safe_weaken) auto
  qed
  show ?case
    by (simp del: One_nat_def, rule safe_bind [OF Suc.prems(1)], simp)
      (auto simp del: One_nat_def intro!: safe_binds again)
qed

lemma safe_do_while_0:
  "(\<And>v m. m \<le> n \<Longrightarrow> safe m (\<lambda>_. 1) (body v)) \<Longrightarrow> n < fuel \<Longrightarrow> safe n (\<lambda>_. 0) (do_while_comma fuel body v)"
  by (rule safe_weaken [OF safe_do_while, of n _ _ _ n]) auto

lemma safe_constraint_loop: "n < fuel \<Longrightarrow> safe n (\<lambda>_. 0) (constraint_loop fuel p nu sp c)"
proof (induction fuel arbitrary: n p nu sp c)
  case 0
  then show ?case by simp
next
  case (Suc fuel)
  then show ?case
    by (cases n) (auto simp del: One_nat_def intro!: safe_binds Suc.IH)
qed

lemma safe_identifierList: "n < fuel \<Longrightarrow> safe n (\<lambda>_. 1) (identifierList fuel)"
  unfolding identifierList_def
  by (rule safe_do_while) (auto simp del: One_nat_def intro!: safe_binds)

lemma safe_column_definition: "n < fuel \<Longrightarrow> safe n (\<lambda>_. 1) (column_definition fuel v)"
proof -
  assume n: "n < fuel"
  have loop: "safe m (\<lambda>_. 0) (bindp (constraint_loop fuel False True False c) f)"
    if "m \<le> n" "\<And>x. safe m (\<lambda>_. 0) (f x)" for m c and f :: "bool \<times> bool \<times> bool \<times> nat \<Rightarrow> 'z parse"
    using that n by (intro safe_bind [OF safe_constraint_loop]) auto
  have type: "safe m (\<lambda>_. 0) (bindp current (\<lambda>t.
       case (if token_kind t = WordToken then map_of COLUMN_TYPES (to_upper (token_text t)) else None) of
         None \<Rightarrow> syntax_error msg
       | Some type \<Rightarrow> bindp advance (\<lambda>_. bindp (constraint_loop fuel False True False c) (f type))))"
    if "m \<le> n" "\<And>type x k. safe k (\<lambda>_. 0) (f type x)" for m msg c and f :: "SqlColumnType \<Rightarrow> bool \<times> bool \<times> bool \<times> nat \<Rightarrow> 'z parse"
    using that by (intro safe_current)
      (auto simp del: One_nat_def intro!: safe_at_advance loop intro: safe_at_safe split: option.split if_splits)
  show ?thesis unfolding column_definition_def
    by (auto simp del: One_nat_def intro!: safe_binds type split: prod.split)
qed

lemma safe_optional: "safe n (\<lambda>_. 0) p \<Longrightarrow> safe n (\<lambda>_. 0) q \<Longrightarrow> safe n (\<lambda>_. 0) (if c then p else q)"
  by simp

lemma safe_createTable: "n < fuel \<Longrightarrow> safe n (\<lambda>_. 0) (createTable fuel)"
  unfolding createTable_def
  by (auto simp del: One_nat_def split: prod.split
    intro!: safe_binds safe_bind [OF safe_optional] safe_bind [OF safe_do_while] safe_column_definition
      safe_weaken [OF safe_expectKeyword])

lemma safe_dropTable: "safe n (\<lambda>_. 0) dropTable"
  unfolding dropTable_def
  by (auto simp del: One_nat_def intro!: safe_binds safe_bind [OF safe_optional] safe_weaken [OF safe_expectKeyword])

lemma safe_insert_row: "n < fuel \<Longrightarrow> safe n (\<lambda>_. 1) (insert_row fuel v)"
  unfolding insert_row_def value_list_def
  by (auto simp del: One_nat_def simp: Let_def split: prod.split
    intro!: safe_binds safe_bind [OF safe_do_while] safe_bind [OF safe_value_expr])

lemma safe_insert_stmt: "n < fuel \<Longrightarrow> safe n (\<lambda>_. 0) (insert_stmt fuel)"
  unfolding insert_stmt_def
  by (auto simp del: One_nat_def split: prod.split
    intro!: safe_binds safe_bind [OF safe_optional] safe_bind [OF safe_identifierList] safe_bind [OF safe_do_while] safe_insert_row)

lemma safe_order_by: "n < fuel \<Longrightarrow> safe n (\<lambda>_. 0) (order_by fuel)"
  unfolding order_by_def order_item_def
  by (auto simp del: One_nat_def intro!: safe_binds safe_do_while_0 less_imp_diff_less)

lemma safe_limit_clause: "safe n (\<lambda>_. 0) limit_clause"
  unfolding limit_clause_def by (auto simp del: One_nat_def intro!: safe_binds safe_bind [OF safe_rowCount])

lemma safe_select_stmt: "4 * n + 3 \<le> fuel \<Longrightarrow> safe n (\<lambda>_. 0) (select_stmt fuel)"
  unfolding select_stmt_def
  by (auto simp del: One_nat_def split: prod.split
    intro!: safe_binds safe_bind [OF safe_optional] safe_bind [OF safe_identifierList] safe_bind [OF safe_where_clause]
      safe_bind [OF safe_order_by] safe_bind [OF safe_limit_clause])

lemma safe_update_stmt: "4 * n + 3 \<le> fuel \<Longrightarrow> safe n (\<lambda>_. 0) (update_stmt fuel)"
  unfolding update_stmt_def assignment_def
  by (auto simp del: One_nat_def intro!: safe_binds safe_bind [OF safe_do_while] safe_bind [OF safe_value_expr] safe_bind [OF safe_where_clause])

lemma safe_delete_stmt: "4 * n + 3 \<le> fuel \<Longrightarrow> safe n (\<lambda>_. 0) (delete_stmt fuel)"
  unfolding delete_stmt_def
  by (auto simp del: One_nat_def intro!: safe_binds safe_bind [OF safe_where_clause])

lemma safe_parseStatement: "4 * n + 3 \<le> fuel \<Longrightarrow> safe n (\<lambda>_. 0) (parseStatement fuel)"
  unfolding parseStatement_def
  by (auto simp del: One_nat_def intro!: safe_binds safe_createTable safe_dropTable safe_insert_stmt safe_select_stmt safe_update_stmt safe_delete_stmt)
    (linarith+)

lemma safe_parse_tokens: "4 * n + 3 \<le> fuel \<Longrightarrow> safe n (\<lambda>_. 0) (parse_tokens fuel)"
proof -
  have "safe m (\<lambda>_. 0) (finish s)" for m s by (simp add: safe_def safe_run_def finish_def)
  then show "4 * n + 3 \<le> fuel \<Longrightarrow> safe n (\<lambda>_. 0) (parse_tokens fuel)"
    unfolding parse_tokens_def
    by (auto simp del: One_nat_def intro!: safe_binds safe_bind [OF safe_parseStatement] safe_current intro: safe_at_safe)
qed

lemma next_token_kind: "next_token i c cs = Inr (t, n) \<Longrightarrow> token_kind t \<noteq> EndToken"
  by (auto simp: next_token_def Let_def token_def split: if_splits option.splits)

lemma next_token_error: "next_token i c cs = Inl e \<Longrightarrow> e \<noteq> NoToken"
  by (auto simp: next_token_def Let_def split: if_splits option.splits)

lemma tokenize_from_ended:
  "\<forall>t\<in>set tokens. token_kind t \<noteq> EndToken \<Longrightarrow>
     (case tokenize_from i s tokens of Inl e \<Rightarrow> e \<noteq> NoToken | Inr ts \<Rightarrow> ended ts)"
proof (induction i s tokens rule: tokenize_from.induct)
  case (1 index tokens)
  then show ?case by (simp add: ended_def token_def)
next
  case (2 index c cs tokens)
  have step: "case tokenize_from (index + n) (drop n (c # cs)) (tokens @ [t]) of Inl e \<Rightarrow> e \<noteq> NoToken | Inr ts \<Rightarrow> ended ts"
    if "\<not> is_space c" "\<not> starts_with (c # cs) (js ''--'')" "\<not> starts_with (c # cs) (js ''/*'')" "\<not> MAX_TOKENS \<le> length tokens"
      "next_token index c cs = Inr (t, n)" for t n
    using "2.IH"(4) [OF that(1-5) refl] "2.prems" next_token_kind [OF that(5)] by auto
  show ?case
    using "2.IH"(1-3) "2.prems" step next_token_error [of index c cs]
    by (subst tokenize_from.simps) (auto simp: Let_def simp del: tokenize_from.simps split: option.split sum.split)
qed

lemma parseSql_safe: "\<exists>r. parseSql sql = Some r \<and> r \<noteq> Inl NoToken"
proof (cases "length sql > MAX_SQL_LENGTH")
  case True
  then show ?thesis by (simp add: parseSql_def)
next
  case False
  show ?thesis
  proof (cases "tokenize sql")
    case (Inl e)
    then show ?thesis
      using tokenize_from_ended [of "[]" 0 sql] False by (simp add: parseSql_def tokenize_def)
  next
    case (Inr tokens)
    then have "ended tokens" using tokenize_from_ended [of "[]" 0 sql] by (simp add: tokenize_def)
    then have "safe_run (\<lambda>_. 0) (parse_tokens (4 * length tokens + 4)) (new_parser tokens)"
      using safe_parse_tokens [of "length tokens" "4 * length tokens + 4"] by (simp add: safe_def new_parser_def)
    then show ?thesis using Inr False
      by (auto simp: parseSql_def safe_run_def map_sum_def split: option.splits sum.splits)
  qed
qed

section \<open>Statements are well formed\<close>

text \<open>The parameters of a statement in the order of the text, and the number of its predicates.\<close>

fun value_params :: "SqlValueExpression \<Rightarrow> nat list" where
  "value_params (Literal v) = []"
| "value_params (Parameter i) = [i]"

fun expression_params :: "SqlExpression \<Rightarrow> nat list" where
  "expression_params (Comparison c operator v) = value_params v"
| "expression_params (IsNull c b) = []"
| "expression_params (AndExpr l r) = expression_params l @ expression_params r"
| "expression_params (OrExpr l r) = expression_params l @ expression_params r"

fun leaves :: "SqlExpression \<Rightarrow> nat" where
  "leaves (AndExpr l r) = leaves l + leaves r"
| "leaves (OrExpr l r) = leaves l + leaves r"
| "leaves _ = 1"

definition option_params :: "('a \<Rightarrow> nat list) \<Rightarrow> 'a option \<Rightarrow> nat list" where
  "option_params f x = (case x of None \<Rightarrow> [] | Some y \<Rightarrow> f y)"

fun statement_params :: "SqlStatement \<Rightarrow> nat list" where
  "statement_params (CreateTable t cs b) = []"
| "statement_params (DropTable t b) = []"
| "statement_params (Insert t cs rows) = concat (map (\<lambda>row. concat (map value_params row)) rows)"
| "statement_params (Select t cs w orders l off) =
     option_params expression_params w @ option_params value_params l @ option_params value_params off"
| "statement_params (Update t as w) = concat (map (value_params \<circ> snd) as) @ option_params expression_params w"
| "statement_params (Delete t w) = option_params expression_params w"

text \<open>
  Well-formed values, expressions and statements. A number is finite and, unless it is an integer of the
  safe range, not an integer of the signed 64-bit range; a bigint is in the signed 64-bit range.
\<close>

definition number_ok :: "f64 \<Rightarrow> bool" where
  "number_ok n \<longleftrightarrow> f64_is_finite n \<and> (fitsSigned64 n \<longrightarrow> f64_is_safe_integer n)"

fun value_ok :: "SqlValue \<Rightarrow> bool" where
  "value_ok (SqlNumber n) = number_ok n"
| "value_ok (SqlBigint i) = (SQL_INTEGER_MIN \<le> i \<and> i \<le> SQL_INTEGER_MAX)"
| "value_ok (SqlText s) = hasValidUnicode s"
| "value_ok _ = True"

fun value_expr_ok :: "SqlValueExpression \<Rightarrow> bool" where
  "value_expr_ok (Literal v) = value_ok v"
| "value_expr_ok (Parameter i) = True"

abbreviation name_ok :: "jsstring \<Rightarrow> bool" where
  "name_ok s \<equiv> \<not> invalid_identifier s"

definition names_ok :: "jsstring list \<Rightarrow> bool" where
  "names_ok ns \<longleftrightarrow> list_all name_ok ns \<and> distinct ns"

fun expression_ok :: "SqlExpression \<Rightarrow> bool" where
  "expression_ok (Comparison c operator v) = (name_ok c \<and> value_expr_ok v)"
| "expression_ok (IsNull c b) = name_ok c"
| "expression_ok (AndExpr l r) = (expression_ok l \<and> expression_ok r)"
| "expression_ok (OrExpr l r) = (expression_ok l \<and> expression_ok r)"

definition where_ok :: "SqlExpression option \<Rightarrow> bool" where
  "where_ok w \<longleftrightarrow> (case w of None \<Rightarrow> True | Some e \<Rightarrow> expression_ok e \<and> leaves e \<le> MAX_PREDICATES)"

fun count_ok :: "SqlValueExpression \<Rightarrow> bool" where
  "count_ok (Literal (SqlNumber n)) = (f64_is_safe_integer n \<and> 0 \<le> f64_scaled n)"
| "count_ok (Literal _) = False"
| "count_ok (Parameter i) = True"

definition columns_ok :: "SqlColumnDefinition list \<Rightarrow> bool" where
  "columns_ok cs \<longleftrightarrow> names_ok (map column_name cs) \<and>
     list_all (\<lambda>c. column_primaryKey c \<longrightarrow> \<not> column_nullable c) cs \<and> length (filter column_primaryKey cs) \<le> 1"

definition rows_ok :: "SqlValueExpression list list \<Rightarrow> bool" where
  "rows_ok rows \<longleftrightarrow> rows \<noteq> [] \<and> list_all (\<lambda>row. row \<noteq> [] \<and> length row = length (hd rows) \<and> list_all value_expr_ok row) rows"

fun statement_ok :: "SqlStatement \<Rightarrow> bool" where
  "statement_ok (CreateTable t cs b) = (name_ok t \<and> cs \<noteq> [] \<and> columns_ok cs)"
| "statement_ok (DropTable t b) = name_ok t"
| "statement_ok (Insert t cs rows) =
     (name_ok t \<and> rows_ok rows \<and> (case cs of None \<Rightarrow> True | Some ns \<Rightarrow> names_ok ns \<and> length (hd rows) = length ns))"
| "statement_ok (Select t cs w orders l off) =
     (name_ok t \<and> (case cs of None \<Rightarrow> True | Some ns \<Rightarrow> ns \<noteq> [] \<and> names_ok ns) \<and> where_ok w \<and> names_ok (map fst orders) \<and>
      list_all count_ok (case l of None \<Rightarrow> [] | Some v \<Rightarrow> [v]) \<and> list_all count_ok (case off of None \<Rightarrow> [] | Some v \<Rightarrow> [v]) \<and>
      (off \<noteq> None \<longrightarrow> l \<noteq> None))"
| "statement_ok (Update t as w) =
     (name_ok t \<and> as \<noteq> [] \<and> names_ok (map fst as) \<and> list_all (value_expr_ok \<circ> snd) as \<and> where_ok w)"
| "statement_ok (Delete t w) = (name_ok t \<and> where_ok w)"

text \<open>
  A parser method numbers its parameters in the order of the text, counts its predicates, and gives a
  well-formed result. \<open>marks\<close> are the parameters and predicates of the result, \<open>pre\<close> those before it.
\<close>

definition token_ok :: "Token \<Rightarrow> bool" where
  "token_ok t \<longleftrightarrow> (token_kind t = StringToken \<longrightarrow> hasValidUnicode (token_text t))"

definition numbered :: "nat list \<times> nat \<Rightarrow> ('a \<Rightarrow> nat list \<times> nat) \<Rightarrow> ('a \<Rightarrow> bool) \<Rightarrow> 'a parse \<Rightarrow> bool" where
  "numbered pre marks good p \<longleftrightarrow>
     (\<forall>s x s'. p s = Some (Inr (x, s')) \<longrightarrow> list_all token_ok (rest s) \<longrightarrow> predicates s \<le> MAX_PREDICATES \<longrightarrow>
        list_all token_ok (rest s') \<and> predicates s' \<le> MAX_PREDICATES \<and> p_parameterCount s \<le> p_parameterCount s' \<and>
        fst (marks x) = fst pre @ [p_parameterCount s..<p_parameterCount s'] \<and>
        snd (marks x) + predicates s = snd pre + predicates s' \<and> good x)"

lemma bindp_Inr: "bindp p f s = Some (Inr (y, s'')) \<longleftrightarrow> (\<exists>x s'. p s = Some (Inr (x, s')) \<and> f x s' = Some (Inr (y, s'')))"
  by (auto simp: bindp_def split: option.splits sum.splits)

lemma numbered_bind:
  assumes "numbered pre marks good p" and "\<And>x. good x \<Longrightarrow> numbered (marks x) marks' good' (f x)"
  shows "numbered pre marks' good' (bindp p f)"
  unfolding numbered_def
proof (intro allI impI)
  fix s y s'' assume run: "bindp p f s = Some (Inr (y, s''))" and s: "list_all token_ok (rest s)" "predicates s \<le> MAX_PREDICATES"
  then obtain x s' where x: "p s = Some (Inr (x, s'))" "f x s' = Some (Inr (y, s''))" by (auto simp: bindp_Inr)
  have 1: "list_all token_ok (rest s') \<and> predicates s' \<le> MAX_PREDICATES \<and> p_parameterCount s \<le> p_parameterCount s' \<and>
      fst (marks x) = fst pre @ [p_parameterCount s..<p_parameterCount s'] \<and>
      snd (marks x) + predicates s = snd pre + predicates s' \<and> good x"
    using assms(1) x(1) s unfolding numbered_def by blast
  then have 2: "list_all token_ok (rest s'') \<and> predicates s'' \<le> MAX_PREDICATES \<and> p_parameterCount s' \<le> p_parameterCount s'' \<and>
      fst (marks' y) = fst (marks x) @ [p_parameterCount s'..<p_parameterCount s''] \<and>
      snd (marks' y) + predicates s' = snd (marks x) + predicates s'' \<and> good' y"
    using assms(2) x(2) unfolding numbered_def by blast
  have "[p_parameterCount s..<p_parameterCount s'] @ [p_parameterCount s'..<p_parameterCount s''] = [p_parameterCount s..<p_parameterCount s'']"
    using 1 2 by (metis le_add_diff_inverse upt_add_eq_append)
  then show "list_all token_ok (rest s'') \<and> predicates s'' \<le> MAX_PREDICATES \<and> p_parameterCount s \<le> p_parameterCount s'' \<and>
      fst (marks' y) = fst pre @ [p_parameterCount s..<p_parameterCount s''] \<and>
      snd (marks' y) + predicates s = snd pre + predicates s'' \<and> good' y"
    using 1 2 by auto
qed

lemma numbered_pure [simp]: "marks x = pre \<Longrightarrow> good x \<Longrightarrow> numbered pre marks good (pure x)"
  by (auto simp: numbered_def pure_def)

lemma numbered_no_result [simp]: "numbered pre marks good no_fuel" "numbered pre marks good (fail e)"
    "numbered pre marks good (syntax_error m)"
  by (auto simp: numbered_def no_fuel_def fail_def syntax_error_def bindp_Inr)

lemma numbered_current: "numbered pre (\<lambda>_. pre) token_ok current"
  by (auto simp: numbered_def current_def split: list.splits)

lemma numbered_advance: "numbered pre (\<lambda>_. pre) (\<lambda>_. True) advance"
proof -
  have "list_all token_ok ts \<Longrightarrow> list_all token_ok (tl ts)" for ts by (cases ts) auto
  then show ?thesis by (auto simp: numbered_def advance_def)
qed

lemmas numbered_moves = numbered_bind [OF numbered_current] numbered_bind [OF numbered_advance]

lemma numbered_acceptKeyword: "numbered pre (\<lambda>_. pre) (\<lambda>_. True) (acceptKeyword k)"
  by (auto simp: acceptKeyword_def intro!: numbered_moves)

lemma numbered_acceptSymbol: "numbered pre (\<lambda>_. pre) (\<lambda>_. True) (acceptSymbol k)"
  by (auto simp: acceptSymbol_def intro!: numbered_moves)

lemma numbered_expectKeyword: "numbered pre (\<lambda>_. pre) (\<lambda>_. True) (expectKeyword k)"
  by (auto simp: expectKeyword_def intro!: numbered_bind [OF numbered_acceptKeyword])

lemma numbered_expectSymbol: "numbered pre (\<lambda>_. pre) (\<lambda>_. True) (expectSymbol k)"
  by (auto simp: expectSymbol_def intro!: numbered_bind [OF numbered_acceptSymbol])

lemma numbered_assertUnique: "numbered pre (\<lambda>_. pre) (\<lambda>_. name \<notin> set names) (assertUnique names name l)"
  by (auto simp: assertUnique_def)

lemma numbered_identifier_name: "numbered pre (\<lambda>_. pre) name_ok identifier_name"
  by (auto simp: identifier_name_def intro!: numbered_moves)

lemmas numbered_steps = numbered_moves
  numbered_bind [OF numbered_acceptKeyword] numbered_bind [OF numbered_acceptSymbol] numbered_bind [OF numbered_expectKeyword]
  numbered_bind [OF numbered_expectSymbol] numbered_bind [OF numbered_assertUnique] numbered_bind [OF numbered_identifier_name]

lemma parseNumber_ok: "parseNumber s i = Inr v \<Longrightarrow> value_ok v"
  using f64_of_int_safe [of "signed_value s"] f64_of_int_scaled [of "signed_value s"]
  by (auto simp: parseNumber_def Let_def number_ok_def fitsSigned64_def split: if_splits)

abbreviation value_marks :: "nat list \<times> nat \<Rightarrow> SqlValueExpression \<Rightarrow> nat list \<times> nat" where
  "value_marks pre v \<equiv> (fst pre @ value_params v, snd pre)"

lemma numbered_sign_prefix: "numbered pre (\<lambda>_. pre) (\<lambda>_. True) sign_prefix"
  by (auto simp: sign_prefix_def intro!: numbered_steps)

lemma numbered_keyword_value: "numbered pre (value_marks pre) value_expr_ok (keyword_value pos)"
  by (auto simp: keyword_value_def number_value_def parseNumber_ok split: sum.split
    intro!: numbered_steps numbered_bind [OF numbered_sign_prefix])

lemma numbered_parameter_value: "numbered pre (value_marks pre) value_expr_ok parameter_value"
  by (auto simp: numbered_def parameter_value_def)

lemma numbered_value_expr: "numbered pre (value_marks pre) value_expr_ok value_expr"
  by (auto simp: value_expr_def token_ok_def intro!: numbered_steps numbered_parameter_value numbered_keyword_value)

lemma numbered_rowCount: "numbered pre (value_marks pre) count_ok (rowCount c)"
  by (auto simp: rowCount_def split: SqlValueExpression.split SqlValue.split intro!: numbered_bind [OF numbered_value_expr])

abbreviation expression_marks :: "nat list \<times> nat \<Rightarrow> SqlExpression \<Rightarrow> nat list \<times> nat" where
  "expression_marks pre e \<equiv> (fst pre @ expression_params e, snd pre + leaves e)"

lemma numbered_comparison_tail:
  "name_ok c \<Longrightarrow> numbered (fst pre, Suc (snd pre)) (expression_marks pre) expression_ok (comparison_tail c)"
  by (auto simp: comparison_tail_def split: option.split intro!: numbered_steps numbered_bind [OF numbered_value_expr])

lemma numbered_leaf:
  "numbered pre (expression_marks pre) expression_ok
     (bindp count_predicate (\<lambda>_. bindp (too_many predicates MAX_PREDICATES) (\<lambda>many.
        if many then syntax_error m else bindp identifier_name comparison_tail)))"
proof -
  let ?tail = "bindp identifier_name comparison_tail"
  have tail: "numbered (fst pre, Suc (snd pre)) (expression_marks pre) expression_ok ?tail"
    by (auto intro!: numbered_steps numbered_comparison_tail)
  have split: "?tail (s\<lparr>predicates := Suc (predicates s)\<rparr>) = Some (Inr (x, s')) \<and> Suc (predicates s) \<le> MAX_PREDICATES"
    if "bindp count_predicate (\<lambda>_. bindp (too_many predicates MAX_PREDICATES) (\<lambda>many.
        if many then syntax_error m else ?tail)) s = Some (Inr (x, s'))" for s x s'
    using that by (auto simp: bindp_def count_predicate_def too_many_def syntax_error_def current_def fail_def split: if_splits list.splits)
  show ?thesis
    unfolding numbered_def using split tail [unfolded numbered_def] by fastforce
qed

lemma numbered_change_nesting: "numbered pre (\<lambda>_. pre) (\<lambda>_. True) (change_nesting f)"
  "numbered pre (\<lambda>_. pre) (\<lambda>_. True) (too_many c b)"
  by (auto simp: numbered_def change_nesting_def too_many_def)

lemma numbered_expressions:
  shows "numbered pre (expression_marks pre) expression_ok (or_expr fuel)"
    and "expression_ok e \<Longrightarrow> numbered (expression_marks pre e) (expression_marks pre) expression_ok (or_loop fuel e)"
    and "numbered pre (expression_marks pre) expression_ok (and_expr fuel)"
    and "expression_ok e \<Longrightarrow> numbered (expression_marks pre e) (expression_marks pre) expression_ok (and_loop fuel e)"
    and "numbered pre (expression_marks pre) expression_ok (predicate_expr fuel)"
proof (induction fuel arbitrary: pre e)
  case 0
  { case 1 then show ?case by simp next
    case 2 then show ?case by simp next
    case 3 then show ?case by simp next
    case 4 then show ?case by simp next
    case 5 then show ?case by simp }
next
  case (Suc fuel)
  { case 1
    show ?case by (auto intro!: numbered_bind [OF Suc.IH(3)] Suc.IH(2))
  next
    case 2
    have "numbered (expression_marks pre (OrExpr e r)) (expression_marks pre) expression_ok (or_loop fuel (OrExpr e r))"
      if "expression_ok r" for r
      using Suc.IH(2) [of "OrExpr e r" pre] that 2 by simp
    then show ?case using 2
      by (auto simp: add.assoc intro!: numbered_steps numbered_bind [OF Suc.IH(3)])
  next
    case 3
    show ?case by (auto intro!: numbered_bind [OF Suc.IH(5)] Suc.IH(4))
  next
    case 4
    have "numbered (expression_marks pre (AndExpr e r)) (expression_marks pre) expression_ok (and_loop fuel (AndExpr e r))"
      if "expression_ok r" for r
      using Suc.IH(4) [of "AndExpr e r" pre] that 4 by simp
    then show ?case using 4
      by (auto simp: add.assoc intro!: numbered_steps numbered_bind [OF Suc.IH(5)])
  next
    case 5
    have "numbered pre (expression_marks pre) expression_ok
        (bindp (change_nesting Suc) (\<lambda>_. bindp (too_many nesting MAX_NESTING) (\<lambda>deep.
         if deep then syntax_error ''WHERE nesting exceeds 64''
         else bindp (or_expr fuel) (\<lambda>expression. bindp (expectSymbol '')'') (\<lambda>_.
              bindp (change_nesting (\<lambda>n. n - 1)) (\<lambda>_. pure expression))))))"
      by (auto intro!: numbered_steps numbered_bind [OF numbered_change_nesting(1)] numbered_bind [OF numbered_change_nesting(2)]
        numbered_bind [OF Suc.IH(1)])
    then show ?case by (auto intro!: numbered_bind [OF numbered_acceptSymbol] numbered_leaf)
  }
qed

lemma numbered_mono: "numbered pre marks good p \<Longrightarrow> (\<And>x. good x \<Longrightarrow> good' x) \<Longrightarrow> numbered pre marks good' p"
  unfolding numbered_def by blast

lemma numbered_bounded:
  "numbered pre (expression_marks pre) good p \<Longrightarrow> numbered pre (expression_marks pre) (\<lambda>e. good e \<and> leaves e \<le> MAX_PREDICATES) p"
  unfolding numbered_def by fastforce

abbreviation where_marks :: "nat list \<times> nat \<Rightarrow> SqlExpression option \<Rightarrow> nat list \<times> nat" where
  "where_marks pre w \<equiv> (fst pre @ option_params expression_params w, snd pre + (case w of None \<Rightarrow> 0 | Some e \<Rightarrow> leaves e))"

lemma numbered_where_clause: "numbered pre (where_marks pre) where_ok (where_clause fuel)"
  by (auto simp: where_clause_def option_params_def where_ok_def
    intro!: numbered_steps numbered_bind [OF numbered_bounded [OF numbered_expressions(1)]])

lemma numbered_do_while:
  assumes "\<And>v. good v \<Longrightarrow> numbered (marks v) marks result (body v)" and "\<And>v. result v \<Longrightarrow> good v"
  shows "good v \<Longrightarrow> numbered (marks v) marks result (do_while_comma fuel body v)"
proof (induction fuel arbitrary: v)
  case 0
  then show ?case by simp
next
  case (Suc fuel)
  then show ?case using assms(2) by (auto intro!: numbered_steps numbered_bind [OF assms(1)])
qed

lemma numbered_identifierList: "numbered pre (\<lambda>_. pre) (\<lambda>ns. ns \<noteq> [] \<and> names_ok ns) (identifierList fuel)"
  unfolding identifierList_def
  by (rule numbered_do_while [where good = names_ok]) (auto simp: names_ok_def intro!: numbered_steps)

definition primary_count :: "SqlColumnDefinition list \<Rightarrow> nat" where
  "primary_count cs = length (filter column_primaryKey cs)"

definition counted :: "nat \<Rightarrow> bool \<times> bool \<times> bool \<times> nat \<Rightarrow> bool" where
  "counted c0 = (\<lambda>(p, _, _, c). c = (if p then c0 + 1 else c0) \<and> (p \<longrightarrow> c \<le> 1))"

lemma numbered_constraint_loop:
  "counted c0 (p, nu, sp, c) \<Longrightarrow> numbered pre (\<lambda>_. pre) (counted c0) (constraint_loop fuel p nu sp c)"
proof (induction fuel arbitrary: p nu sp c)
  case 0
  then show ?case by simp
next
  case (Suc fuel)
  then show ?case by (auto intro!: numbered_steps Suc.IH) (auto simp: counted_def)
qed

lemma numbered_column_definition:
  "columns_ok (fst v) \<Longrightarrow> snd v = primary_count (fst v) \<Longrightarrow>
   numbered pre (\<lambda>_. pre) (\<lambda>v. fst v \<noteq> [] \<and> columns_ok (fst v) \<and> snd v = primary_count (fst v)) (column_definition fuel v)"
  by (cases v) (auto simp: column_definition_def columns_ok_def names_ok_def primary_count_def counted_def split: option.split
    intro!: numbered_steps numbered_bind [OF numbered_constraint_loop [where ?c0.0 = "primary_count (fst v)"]])

abbreviation statement_marks :: "SqlStatement \<Rightarrow> nat list \<times> nat" where
  "statement_marks s \<equiv> (statement_params s, case s of
     Select t cs (Some e) orders l off \<Rightarrow> leaves e | Update t as (Some e) \<Rightarrow> leaves e | Delete t (Some e) \<Rightarrow> leaves e | _ \<Rightarrow> 0)"

lemma numbered_optional: "numbered pre marks good p \<Longrightarrow> numbered pre marks good q \<Longrightarrow> numbered pre marks good (if c then p else q)"
  by simp

lemma numbered_createTable: "numbered ([], 0) statement_marks statement_ok (createTable fuel)"
proof -
  have start: "columns_ok (fst ([], 0 :: nat)) \<and> snd ([], 0 :: nat) = primary_count (fst ([], 0 :: nat))"
    by (simp add: columns_ok_def names_ok_def primary_count_def)
  have columns: "numbered pre (\<lambda>_. pre) (\<lambda>v. fst v \<noteq> [] \<and> columns_ok (fst v) \<and> snd v = primary_count (fst v))
      (do_while_comma fuel (column_definition fuel) ([], 0))" for pre
    by (rule numbered_do_while [where good = "\<lambda>v. columns_ok (fst v) \<and> snd v = primary_count (fst v)"])
      (use start in \<open>auto intro: numbered_column_definition\<close>)
  have maybe: "numbered pre (\<lambda>_. pre) (\<lambda>_. True)
      (if b then bindp (expectKeyword ''NOT'') (\<lambda>_. expectKeyword ''EXISTS'') else pure ())" for pre b
    by (auto intro!: numbered_steps numbered_expectKeyword)
  show ?thesis unfolding createTable_def
    by (auto intro!: numbered_steps numbered_bind [OF maybe] numbered_bind [OF columns] split: prod.split)
qed

lemma numbered_dropTable: "numbered ([], 0) statement_marks statement_ok dropTable"
proof -
  have maybe: "numbered pre (\<lambda>_. pre) (\<lambda>_. True) (if b then expectKeyword ''EXISTS'' else pure ())" for pre b
    by (auto intro!: numbered_expectKeyword)
  show ?thesis unfolding dropTable_def by (auto intro!: numbered_steps numbered_bind [OF maybe])
qed

abbreviation row_params :: "SqlValueExpression list \<Rightarrow> nat list" where
  "row_params row \<equiv> concat (map value_params row)"

lemma numbered_value_list:
  "numbered pre (\<lambda>row. (fst pre @ row_params row, snd pre)) (\<lambda>row. row \<noteq> [] \<and> list_all value_expr_ok row) (value_list fuel)"
proof -
  have "numbered (fst pre @ row_params [], snd pre) (\<lambda>row. (fst pre @ row_params row, snd pre))
      (\<lambda>row. row \<noteq> [] \<and> list_all value_expr_ok row) (value_list fuel)"
    unfolding value_list_def
    by (rule numbered_do_while [where good = "list_all value_expr_ok"])
      (auto intro!: numbered_bind [OF numbered_value_expr])
  then show ?thesis by simp
qed

definition insert_ok :: "SqlValueExpression list list \<times> nat option \<Rightarrow> bool" where
  "insert_ok v \<longleftrightarrow> (case snd v of None \<Rightarrow> fst v = []
     | Some w \<Rightarrow> list_all (\<lambda>row. row \<noteq> [] \<and> length row = w \<and> list_all value_expr_ok row) (fst v))"

lemma numbered_insert_row:
  assumes "insert_ok v" and "w = snd v \<or> w = None"
  shows "numbered (concat (map row_params (fst v)), 0) (\<lambda>v. (concat (map row_params (fst v)), 0))
     (\<lambda>v'. fst v' \<noteq> [] \<and> insert_ok v' \<and> (snd v' = w \<or> w = None)) (insert_row fuel v)"
  using assms
  by (cases v) (auto simp: insert_row_def insert_ok_def Let_def split: option.splits
    intro!: numbered_steps numbered_bind [OF numbered_value_list])

lemma insert_rows_ok: "insert_ok v \<Longrightarrow> fst v \<noteq> [] \<Longrightarrow> rows_ok (fst v) \<and> (\<forall>w. snd v = Some w \<longrightarrow> length (hd (fst v)) = w)"
  by (cases "fst v") (auto simp: insert_ok_def rows_ok_def list_all_iff split: option.splits)

lemma numbered_insert_stmt: "numbered ([], 0) statement_marks statement_ok (insert_stmt fuel)"
proof -
  have rows: "numbered ([], 0) (\<lambda>v. (concat (map row_params (fst v)), 0))
      (\<lambda>v'. fst v' \<noteq> [] \<and> insert_ok v' \<and> (snd v' = w \<or> w = None)) (do_while_comma fuel (insert_row fuel) ([], w))" for w
  proof -
    have "insert_ok ([], w)" by (simp add: insert_ok_def split: option.split)
    then have "numbered (concat (map row_params (fst ([], w))), 0) (\<lambda>v. (concat (map row_params (fst v)), 0))
      (\<lambda>v'. fst v' \<noteq> [] \<and> insert_ok v' \<and> (snd v' = w \<or> w = None)) (do_while_comma fuel (insert_row fuel) ([], w))"
      by (intro numbered_do_while [where good = "\<lambda>v. insert_ok v \<and> (w = snd v \<or> w = None)"])
        (auto intro: numbered_insert_row)
    then show ?thesis by simp
  qed
  have columns: "numbered pre (\<lambda>_. pre) (\<lambda>c. case c of None \<Rightarrow> True | Some ns \<Rightarrow> names_ok ns)
      (if b then bindp (identifierList fuel) (\<lambda>cs. bindp (expectSymbol '')'') (\<lambda>_. pure (Some cs))) else pure None)" for pre b
    by (auto intro!: numbered_steps numbered_bind [OF numbered_identifierList])
  show ?thesis unfolding insert_stmt_def
    by (auto intro!: numbered_steps numbered_bind [OF columns] numbered_bind [OF rows] dest!: insert_rows_ok split: prod.split option.splits)
qed

lemma numbered_order_by: "numbered pre (\<lambda>_. pre) (\<lambda>orders. names_ok (map fst orders)) (order_by fuel)"
proof -
  have items: "numbered pre (\<lambda>_. pre) (\<lambda>orders. names_ok (map fst orders)) (do_while_comma fuel order_item [])" for pre
    by (rule numbered_do_while [where good = "\<lambda>orders. names_ok (map fst orders)"])
      (auto simp: order_item_def names_ok_def intro!: numbered_steps)
  have "names_ok (map fst [])" by (simp add: names_ok_def)
  then show ?thesis unfolding order_by_def by (auto intro!: numbered_steps items)
qed

abbreviation limit_marks :: "nat list \<times> nat \<Rightarrow> SqlValueExpression option \<times> SqlValueExpression option \<Rightarrow> nat list \<times> nat" where
  "limit_marks pre v \<equiv> (fst pre @ option_params value_params (fst v) @ option_params value_params (snd v), snd pre)"

lemma numbered_limit_clause: "numbered pre (limit_marks pre) (\<lambda>(l, off). list_all count_ok (case l of None \<Rightarrow> [] | Some v \<Rightarrow> [v]) \<and>
    list_all count_ok (case off of None \<Rightarrow> [] | Some v \<Rightarrow> [v]) \<and> (off \<noteq> None \<longrightarrow> l \<noteq> None)) limit_clause"
  unfolding limit_clause_def by (auto simp: option_params_def intro!: numbered_steps numbered_bind [OF numbered_rowCount])

lemma numbered_select_stmt: "numbered ([], 0) statement_marks statement_ok (select_stmt fuel)"
proof -
  have columns: "numbered pre (\<lambda>_. pre) (\<lambda>c. case c of None \<Rightarrow> True | Some ns \<Rightarrow> ns \<noteq> [] \<and> names_ok ns)
      (if b then pure None else bindp (identifierList fuel) (\<lambda>cs. pure (Some cs)))" for pre b
    by (auto intro!: numbered_bind [OF numbered_identifierList])
  have final: "numbered (limit_marks (where_marks ([], 0) w) v) statement_marks statement_ok
      (case v of (l, off) \<Rightarrow> pure (Select t cs w orders l off))"
    if "case cs of None \<Rightarrow> True | Some ns \<Rightarrow> ns \<noteq> [] \<and> names_ok ns" "name_ok t" "where_ok w" "names_ok (map fst orders)"
      "case v of (l, off) \<Rightarrow> list_all count_ok (case l of None \<Rightarrow> [] | Some v \<Rightarrow> [v]) \<and>
        list_all count_ok (case off of None \<Rightarrow> [] | Some v \<Rightarrow> [v]) \<and> (off \<noteq> None \<longrightarrow> l \<noteq> None)" for t cs w orders v
    using that by (cases v; cases w) (auto simp: option_params_def intro!: numbered_pure)
  show ?thesis unfolding select_stmt_def
    by (intro numbered_steps numbered_bind [OF columns] numbered_bind [OF numbered_where_clause] numbered_bind [OF numbered_order_by]
      numbered_bind [OF numbered_limit_clause] final)
qed

lemma numbered_update_stmt: "numbered ([], 0) statement_marks statement_ok (update_stmt fuel)"
proof -
  have as: "numbered ([], 0) (\<lambda>as. (concat (map (value_params \<circ> snd) as), 0))
      (\<lambda>as. as \<noteq> [] \<and> names_ok (map fst as) \<and> list_all (value_expr_ok \<circ> snd) as) (do_while_comma fuel assignment [])"
  proof -
    have "numbered (concat (map (value_params \<circ> snd) ([] :: (jsstring \<times> SqlValueExpression) list)), 0) (\<lambda>as. (concat (map (value_params \<circ> snd) as), 0))
      (\<lambda>as. as \<noteq> [] \<and> names_ok (map fst as) \<and> list_all (value_expr_ok \<circ> snd) as) (do_while_comma fuel assignment [])"
      by (rule numbered_do_while [where good = "\<lambda>as. names_ok (map fst as) \<and> list_all (value_expr_ok \<circ> snd) as"])
        (auto simp: assignment_def names_ok_def intro!: numbered_steps numbered_bind [OF numbered_value_expr])
    then show ?thesis by simp
  qed
  show ?thesis unfolding update_stmt_def
    by (auto simp: option_params_def split: option.split
      intro!: numbered_steps numbered_bind [OF as] numbered_bind [OF numbered_where_clause])
qed

lemma numbered_delete_stmt: "numbered ([], 0) statement_marks statement_ok (delete_stmt fuel)"
  unfolding delete_stmt_def
  by (auto simp: option_params_def split: option.split intro!: numbered_steps numbered_bind [OF numbered_where_clause])

lemma numbered_parseStatement: "numbered ([], 0) statement_marks statement_ok (parseStatement fuel)"
  unfolding parseStatement_def
  by (auto intro!: numbered_steps numbered_createTable numbered_dropTable numbered_insert_stmt numbered_select_stmt
    numbered_update_stmt numbered_delete_stmt)

lemma next_token_ok: "next_token i c cs = Inr (t, n) \<Longrightarrow> token_ok t"
  by (auto simp: next_token_def Let_def token_def token_ok_def split: if_splits option.splits)

lemma tokenize_from_ok: "tokenize_from i s tokens = Inr ts \<Longrightarrow> list_all token_ok tokens \<Longrightarrow> list_all token_ok ts"
proof (induction i s tokens rule: tokenize_from.induct)
  case (1 index tokens)
  then show ?case by (auto simp: token_ok_def token_def)
next
  case (2 index c cs tokens)
  show ?case
  proof (cases "is_space c \<or> starts_with (c # cs) (js ''--'') \<or> starts_with (c # cs) (js ''/*'')")
    case True
    then show ?thesis using 2 by (auto simp: Let_def split: if_splits option.splits)
  next
    case False
    then obtain t n where t: "\<not> MAX_TOKENS \<le> length tokens" "next_token index c cs = Inr (t, n)"
        "tokenize_from (index + n) (drop n (c # cs)) (tokens @ [t]) = Inr ts"
      using "2.prems"(1) by (subst (asm) tokenize_from.simps) (auto split: if_splits sum.splits simp del: tokenize_from.simps)
    then show ?thesis using "2.IH"(4) [OF _ _ _ t(1,2) refl] False "2.prems"(2) next_token_ok [OF t(2)] by simp
  qed
qed

lemma parse_tokens_ok:
  assumes "parse_tokens fuel (new_parser tokens) = Some (Inr (r, s))" and "list_all token_ok tokens"
  shows "statement_ok (statement r) \<and> statement_params (statement r) = [0..<parameterCount r]"
proof -
  obtain st s1 b s2 where run: "parseStatement fuel (new_parser tokens) = Some (Inr (st, s1))"
      "acceptSymbol '';'' s1 = Some (Inr (b, s2))" "r = \<lparr> statement = st, parameterCount = p_parameterCount s2 \<rparr>"
    using assms(1)
    by (auto simp: parse_tokens_def bindp_Inr finish_def current_def syntax_error_def fail_def split: if_splits list.splits)
  have st: "list_all token_ok (rest s1)" "predicates s1 \<le> MAX_PREDICATES" "statement_ok st"
      "statement_params st = [0..<p_parameterCount s1]"
    using numbered_parseStatement [of fuel] run(1) assms(2) unfolding numbered_def by (fastforce simp: new_parser_def)+
  then have "p_parameterCount s2 = p_parameterCount s1"
    using numbered_acceptSymbol [of "([], 0)" "'';''"] run(2) unfolding numbered_def by fastforce
  then show ?thesis using st run(3) by simp
qed

lemma parseSql_result:
  assumes "parseSql sql = Some (Inr r)"
  shows "statement_ok (statement r) \<and> statement_params (statement r) = [0..<parameterCount r]"
proof -
  obtain tokens s where "tokenize sql = Inr tokens"
      "parse_tokens (4 * length tokens + 4) (new_parser tokens) = Some (Inr (r, s))"
    using assms by (auto simp: parseSql_def map_sum_def split: if_splits sum.splits) (metis Inl_Inr_False old.sum.exhaust surj_pair)
  then show ?thesis
    using parse_tokens_ok tokenize_from_ok [of 0 sql "[]" tokens] by (simp add: tokenize_def)
qed

lemma bind_parameter_ok: "bind_parameter v = Inr x \<Longrightarrow> value_ok x"
  by (auto simp: bind_parameter_def number_ok_def fitsSigned64_def split: jsval.splits if_splits)

lemma bindSqlParameters_ok:
  assumes "bindSqlParameters r ps = Inr vals"
  shows "length vals = parameterCount r" "list_all value_ok vals"
proof -
  obtain vs where "length vs = parameterCount r" "mapr bind_parameter vs = Inr vals"
    using assms by (auto simp: bindSqlParameters_def split: jsval.splits if_splits)
  then show "length vals = parameterCount r" "list_all value_ok vals"
    by (auto simp: mapr_Inr_iff list_all2_conv_all_nth list_all_length bind_parameter_ok)
qed

section \<open>Properties of parsing\<close>

text \<open>
  C28. Parsing ends on every text, with a statement or with a syntax error: no loop of the parser runs
  forever and no method reads past the end token.
\<close>

theorem parseSql_total: "\<exists>r. parseSql sql = Some r \<and> r \<noteq> Inl NoToken"
  by (rule parseSql_safe)

text \<open>
  C27. An accepted statement is well formed: its names are valid identifiers, column lists have no
  duplicates, a table has at most one primary key and that one is not nullable, all rows of an INSERT have
  the width of its column list, literals are in range, a condition has at most 128 predicates, and its
  parameters are numbered from zero in the order of the text. Once parameters are bound, each of them
  resolves to a valid value.
\<close>

theorem parseSql_well_formed:
  assumes "parseSql sql = Some (Inr r)"
  shows "statement_ok (statement r) \<and> statement_params (statement r) = [0..<parameterCount r] \<and>
    (\<forall>ps vals i. bindSqlParameters r ps = Inr vals \<longrightarrow> i \<in> set (statement_params (statement r)) \<longrightarrow>
       (\<exists>v. resolveSqlValue (Parameter i) vals = Inr v \<and> value_ok v))"
proof -
  have "\<exists>v. resolveSqlValue (Parameter i) vals = Inr v \<and> value_ok v"
    if "bindSqlParameters r ps = Inr vals" "i \<in> set (statement_params (statement r))" for ps vals i
    using bindSqlParameters_ok [OF that(1)] parseSql_result [OF assms] that(2)
    by (simp add: resolveSqlValue_def read_at_def list_all_length)
  then show ?thesis using parseSql_result [OF assms] by blast
qed

end
