(* ===== verification/SqlTable.thy ===== *)
theory SqlTable
  imports SqlParser JsJson IndexDefs
begin

text \<open>
  SQL tables, the value level of \<^verbatim>\<open>packages/sdk/src/sql.ts\<close>: schemas, normalization of values to their
  column types, primary keys, the JSON form of stored rows, and the comparison of values and rows. The
  lemmas show that rows are read back as written and that keys order rows like values.
\<close>

section \<open>Schemas and rows\<close>

definition ROW_ID_MAX :: int where
  "ROW_ID_MAX = 2 ^ 64 - 1"

definition TABLE_OWNER_KEY :: bytes where
  "TABLE_OWNER_KEY = [255]"

record TableSchema =
  schema_table :: jsstring
  schema_columns :: "SqlColumnDefinition list"
  schema_nextRowId :: jsstring

text \<open>A row object. A column a row does not have reads \<^verbatim>\<open>undefined\<close>; the rows of a schema have all of them.\<close>

type_synonym SqlRow = "jsstring \<rightharpoonup> SqlValue"

definition column_value :: "SqlRow \<Rightarrow> jsstring \<Rightarrow> SqlValue" where
  "column_value row name = (case row name of None \<Rightarrow> SqlNull | Some v \<Rightarrow> v)"

record StoredRow =
  row_key :: bytes
  row_values :: SqlRow

definition primaryColumn :: "TableSchema \<Rightarrow> SqlColumnDefinition option" where
  "primaryColumn schema = find column_primaryKey (schema_columns schema)"

definition getColumn :: "TableSchema \<Rightarrow> jsstring \<Rightarrow> SqlColumnDefinition result" where
  "getColumn schema name =
     (case find (\<lambda>c. column_name c = name) (schema_columns schema) of
        None \<Rightarrow> throw SqlSchemaError ''unknown column'' | Some c \<Rightarrow> Inr c)"

fun column_list_loop :: "TableSchema \<Rightarrow> jsstring list \<Rightarrow> jsstring list \<Rightarrow> unit result" where
  "column_list_loop schema seen [] = Inr ()"
| "column_list_loop schema seen (name # names) =
     bindr (getColumn schema name) (\<lambda>_.
       if name \<in> set seen then throw SqlSchemaError ''duplicate column'' else column_list_loop schema (name # seen) names)"

definition validateColumnList :: "TableSchema \<Rightarrow> jsstring list option \<Rightarrow> unit result" where
  "validateColumnList schema columns =
     (case columns of None \<Rightarrow> Inr () | Some names \<Rightarrow> column_list_loop schema [] names)"

section \<open>Values\<close>

text \<open>\<^verbatim>\<open>Number(bigint)\<close>, with rounding; infinity has the magnitude \<open>2047 * 2\<^sup>5\<^sup>2\<close>.\<close>

definition number_of_bigint :: "int \<Rightarrow> f64" where
  "number_of_bigint i = of_nat ((if i < 0 then 2 ^ 63 else 0) + ratio_mag (nat \<bar>i\<bar>) 1)"

definition is_safe :: "int \<Rightarrow> bool" where
  "is_safe i \<longleftrightarrow> \<bar>i\<bar> \<le> max_safe_integer"

definition sql_part :: "SqlValue \<Rightarrow> CompoundKeyPart" where
  "sql_part v =
     (case v of SqlNull \<Rightarrow> KNull | SqlBool b \<Rightarrow> KBool b | SqlNumber n \<Rightarrow> KNumber n | SqlText s \<Rightarrow> KString s
      | SqlBlob bs \<Rightarrow> KBytes bs | SqlBigint _ \<Rightarrow> KOther)"

definition normalize_integer :: "int \<Rightarrow> SqlValue option" where
  "normalize_integer integer =
     (if integer < SQL_INTEGER_MIN \<or> SQL_INTEGER_MAX < integer then None
      else if is_safe integer then Some (SqlNumber (f64_of_int integer)) else Some (SqlBigint integer))"

definition normalizeValue :: "SqlColumnDefinition \<Rightarrow> SqlValue \<Rightarrow> SqlValue result" where
  "normalizeValue column v =
     (let mismatch = throw SqlTypeError ''column requires another type'' in
      if v = SqlNull then
        (if \<not> column_nullable column then throw ConstraintError ''column cannot be NULL'' else Inr SqlNull)
      else case (column_type column, v) of
        (IntegerType, SqlBigint i) \<Rightarrow> (case normalize_integer i of None \<Rightarrow> mismatch | Some w \<Rightarrow> Inr w)
      | (IntegerType, SqlNumber n) \<Rightarrow>
          if \<not> f64_is_safe_integer n then mismatch
          else (case normalize_integer (f64_int n) of None \<Rightarrow> mismatch | Some w \<Rightarrow> Inr w)
      | (RealType, SqlNumber n) \<Rightarrow>
          if f64_is_finite n then Inr (SqlNumber (if f64_is_negative_zero n then 0 else n)) else mismatch
      | (RealType, SqlBigint i) \<Rightarrow>
          let asNumber = number_of_bigint i in
          if f64_is_finite asNumber \<and> f64_is_integer asNumber \<and> f64_int asNumber = i then Inr (SqlNumber asNumber) else mismatch
      | (TextType, SqlText s) \<Rightarrow> bindr (indexKey (Inl (KString s))) (\<lambda>_. Inr v)
      | (BooleanType, SqlBool b) \<Rightarrow> Inr v
      | (BlobType, SqlBlob bs) \<Rightarrow> Inr v
      | _ \<Rightarrow> mismatch)"

text \<open>\<^verbatim>\<open>BigInt(value)\<close> of a number or a bigint; \<^verbatim>\<open>primaryKey\<close> is called with normalized values only.\<close>

definition to_bigint :: "SqlValue \<Rightarrow> int result" where
  "to_bigint v =
     (case v of
        SqlBigint i \<Rightarrow> Inr i
      | SqlNumber n \<Rightarrow> if f64_is_integer n then Inr (f64_int n) else throw RangeError ''The number cannot be converted to a BigInt''
      | _ \<Rightarrow> throw TypeError ''Cannot convert to a BigInt'')"

definition primaryKey :: "SqlColumnDefinition \<Rightarrow> SqlValue \<Rightarrow> bytes result" where
  "primaryKey column v =
     (if v = SqlNull then throw ConstraintError ''primary key cannot be NULL''
      else if column_type column = IntegerType then bindr (to_bigint v) (\<lambda>i. u64Key (Big (i - SQL_INTEGER_MIN)))
      else case v of SqlBigint _ \<Rightarrow> throw SqlTypeError ''invalid primary key'' | _ \<Rightarrow> indexKey (Inl (sql_part v)))"

section \<open>Stored rows\<close>

definition hex_byte :: "byte \<Rightarrow> jsstring" where
  "hex_byte b = [hex_digit (unat b div 16), hex_digit (unat b mod 16)]"

definition bytesIdentity :: "bytes \<Rightarrow> jsstring" where
  "bytesIdentity bs = concat (map hex_byte bs)"

definition bigint_text :: "int \<Rightarrow> jsstring" where
  "bigint_text i = (if i < 0 then [0x2d] else []) @ decimal (nat \<bar>i\<bar>)"

definition storedValue :: "SqlValue \<Rightarrow> jsval" where
  "storedValue v =
     (case v of
        SqlBigint i \<Rightarrow> VString (bigint_text i)
      | SqlBlob bs \<Rightarrow> VString (bytesIdentity bs)
      | SqlNull \<Rightarrow> VNull | SqlBool b \<Rightarrow> VBool b | SqlNumber n \<Rightarrow> VNumber n | SqlText s \<Rightarrow> VString s)"

definition stored_object :: "TableSchema \<Rightarrow> SqlRow \<Rightarrow> jsval" where
  "stored_object schema row =
     VObject (obj_of (map (\<lambda>c. (column_name c, storedValue (column_value row (column_name c)))) (schema_columns schema)))"

definition encodeRow :: "TableSchema \<Rightarrow> SqlRow \<Rightarrow> bytes result" where
  "encodeRow schema row = jsonEncode (stored_object schema row)"

definition compareBytes :: "bytes \<Rightarrow> bytes \<Rightarrow> int" where
  "compareBytes left right =
     (case find (\<lambda>(l, r). l \<noteq> r) (zip left right) of
        Some (l, r) \<Rightarrow> int (unat l) - int (unat r)
      | None \<Rightarrow> int (length left) - int (length right))"

definition decodeJson :: "bytes \<Rightarrow> jsval result" where
  "decodeJson bs = (case jsonDecode bs of Inr v \<Rightarrow> Inr v | Inl _ \<Rightarrow> throw SerializationError ''invalid SQL JSON data'')"

text \<open>\<^verbatim>\<open>/^-?(?:0|[1-9]\d*)$/u\<close>, and \<^verbatim>\<open>Uint8Array.from(value.match(/.{2}/gu))\<close> of hexadecimal digits.\<close>

definition is_stored_integer :: "jsstring \<Rightarrow> bool" where
  "is_stored_integer s \<longleftrightarrow>
     (let ds = (if take 1 s = [0x2d] then drop 1 s else s)
      in ds = [0x30] \<or> ds \<noteq> [] \<and> list_all is_digit ds \<and> hd ds \<noteq> 0x30)"

definition is_hex_text :: "jsstring \<Rightarrow> bool" where
  "is_hex_text s \<longleftrightarrow> list_all (\<lambda>c. is_digit c \<or> 0x61 \<le> c \<and> c \<le> 0x66) s"

fun hex_bytes :: "jsstring \<Rightarrow> bytes" where
  "hex_bytes (a # b # s) =
     of_nat ((case hex_value a of None \<Rightarrow> 0 | Some x \<Rightarrow> x) * 16 + (case hex_value b of None \<Rightarrow> 0 | Some x \<Rightarrow> x)) # hex_bytes s"
| "hex_bytes _ = []"

text \<open>The value of one stored property; every failure ends in the same \<^verbatim>\<open>SerializationError\<close>.\<close>

definition restored_value :: "SqlColumnType \<Rightarrow> jsval \<Rightarrow> SqlValue result" where
  "restored_value type v =
     (case v of
        VString s \<Rightarrow>
          if type = IntegerType then
            (if 20 < length s \<or> \<not> is_stored_integer s then throw PlainError ''invalid stored integer'' else Inr (SqlBigint (signed_value s)))
          else if type = BlobType then
            (if odd (length s) \<or> \<not> is_hex_text s then throw PlainError ''invalid stored blob'' else Inr (SqlBlob (hex_bytes s)))
          else Inr (SqlText s)
      | VNull \<Rightarrow> Inr SqlNull
      | VBool b \<Rightarrow> Inr (SqlBool b)
      | VNumber n \<Rightarrow> Inr (SqlNumber n)
      | VBigint i \<Rightarrow> Inr (SqlBigint i)
      | VBytes bs \<Rightarrow> Inr (SqlBlob bs)
      | _ \<Rightarrow> throw PlainError ''invalid stored value'')"

fun decode_columns :: "(jsstring \<times> jsval) list \<Rightarrow> SqlColumnDefinition list \<Rightarrow> SqlRow \<Rightarrow> SqlRow result" where
  "decode_columns stored [] row = Inr row"
| "decode_columns stored (column # columns) row =
     (case map_of stored (column_name column) of
        None \<Rightarrow> throw PlainError ''missing SQL column''
      | Some v \<Rightarrow>
          bindr (restored_value (column_type column) v) (\<lambda>w.
          bindr (normalizeValue column w) (\<lambda>n. decode_columns stored columns (row(column_name column \<mapsto> n)))))"

definition check_row_key :: "TableSchema \<Rightarrow> SqlRow \<Rightarrow> bytes \<Rightarrow> unit result" where
  "check_row_key schema row key =
     (case primaryColumn schema of
        None \<Rightarrow> Inr ()
      | Some primary \<Rightarrow>
          bindr (primaryKey primary (column_value row (column_name primary))) (\<lambda>k.
            if compareBytes k key \<noteq> 0 then throw PlainError ''SQL row primary key differs from storage key'' else Inr ()))"

definition decodeRow :: "TableSchema \<Rightarrow> bytes \<times> bytes \<Rightarrow> StoredRow result" where
  "decodeRow schema item =
     bindr (decodeJson (snd item)) (\<lambda>stored.
       let invalid = throw SerializationError ''invalid SQL row'' in
       case stored of
         VObject ps \<Rightarrow>
           if length ps \<noteq> length (schema_columns schema) then invalid
           else
             (case bindr (decode_columns ps (schema_columns schema) Map.empty) (\<lambda>row.
                     bindr (check_row_key schema row (fst item)) (\<lambda>_. Inr row)) of
                Inl _ \<Rightarrow> invalid
              | Inr row \<Rightarrow> Inr \<lparr>row_key = fst item, row_values = row\<rparr>)
       | _ \<Rightarrow> invalid)"

section \<open>Comparison\<close>

text \<open>The exact value of a finite number or of a bigint, in units of \<open>2\<^sup>-\<^sup>1\<^sup>0\<^sup>7\<^sup>4\<close>.\<close>

fun scaled_value :: "SqlValue \<Rightarrow> int" where
  "scaled_value (SqlNumber n) = f64_scaled n"
| "scaled_value (SqlBigint i) = i * f64_unit"
| "scaled_value _ = 0"

fun is_numeric :: "SqlValue \<Rightarrow> bool" where
  "is_numeric (SqlNumber _) = True"
| "is_numeric (SqlBigint _) = True"
| "is_numeric _ = False"

definition compareValues :: "SqlValue \<Rightarrow> SqlValue \<Rightarrow> int result" where
  "compareValues left right =
     (if left = SqlNull then Inr (if right = SqlNull then 0 else - 1)
      else if right = SqlNull then Inr 1
      else if is_numeric left \<and> is_numeric right
        then Inr (if scaled_value left < scaled_value right then - 1 else if scaled_value right < scaled_value left then 1 else 0)
      else case (left, right) of
        (SqlText s, SqlText t) \<Rightarrow>
          bindr (indexKey (Inl (KString s))) (\<lambda>a. bindr (indexKey (Inl (KString t))) (\<lambda>b. Inr (compareBytes a b)))
      | (SqlBool a, SqlBool b) \<Rightarrow> Inr (of_bool a - of_bool b)
      | (SqlBlob a, SqlBlob b) \<Rightarrow> Inr (compareBytes a b)
      | _ \<Rightarrow> throw SqlTypeError ''comparison values have different SQL types'')"

fun compareRows :: "StoredRow \<Rightarrow> StoredRow \<Rightarrow> (jsstring \<times> SqlDirection) list \<Rightarrow> int result" where
  "compareRows left right [] = Inr (compareBytes (row_key left) (row_key right))"
| "compareRows left right ((name, direction) # orders) =
     bindr (compareValues (column_value (row_values left) name) (column_value (row_values right) name)) (\<lambda>compared.
       if compared \<noteq> 0 then Inr (if direction = Desc then - compared else compared)
       else compareRows left right orders)"

text \<open>Results name their columns in order; a repeated name cannot occur.\<close>

definition projectRow :: "SqlRow \<Rightarrow> jsstring list \<Rightarrow> (jsstring \<times> SqlValue) list" where
  "projectRow row columns = map (\<lambda>c. (c, column_value row c)) columns"

section \<open>Property order\<close>

lemma map_of_obj_insert: "map_of (obj_insert k v ps) = (if k \<in> fst ` set ps then map_of (obj_insert k v ps) else (map_of ps)(k \<mapsto> v))"
  by (induction ps) (auto simp: fun_upd_twist)

lemma set_obj_insert [simp]: "set (obj_insert k v ps) = insert (k, v) (set ps)"
  by (induction ps) auto

lemma length_obj_insert [simp]: "length (obj_insert k v ps) = Suc (length ps)"
  by (induction ps) auto

lemma distinct_obj_insert: "distinct (map fst ps) \<Longrightarrow> k \<notin> fst ` set ps \<Longrightarrow> distinct (map fst (obj_insert k v ps))"
  by (induction ps) auto

definition ordered_props :: "(jsstring \<times> 'v) list \<Rightarrow> bool" where
  "ordered_props ps \<longleftrightarrow> distinct (map fst ps) \<and> sorted_wrt (\<lambda>p q. \<not> goes_before (fst q) (fst p)) ps"

lemma obj_insert_last: "(\<And>p. p \<in> set ps \<Longrightarrow> \<not> goes_before k (fst p)) \<Longrightarrow> obj_insert k v ps = ps @ [(k, v)]"
  by (induction ps) auto

lemma goes_before_trans: "goes_before k p \<Longrightarrow> \<not> goes_before q p \<Longrightarrow> \<not> goes_before q k"
  by (auto simp: goes_before_def split: option.splits)

lemma obj_insert_sorted:
  "sorted_wrt (\<lambda>p q. \<not> goes_before (fst q) (fst p)) ps \<Longrightarrow>
   sorted_wrt (\<lambda>p q. \<not> goes_before (fst q) (fst p)) (obj_insert k v ps)"
proof (induction ps)
  case (Cons p ps)
  have "\<not> goes_before (fst p) k" if "goes_before k (fst p)"
    using that goes_before_trans [of k "fst p" "fst p"] by (auto simp: goes_before_def split: option.splits)
  then show ?case using Cons by (auto dest: goes_before_trans)
qed simp

lemma obj_of_fold_ordered:
  assumes "ordered_props (ps @ qs)"
  shows "fold (\<lambda>p. obj_put (fst p) (snd p)) qs ps = ps @ qs"
  using assms
proof (induction qs arbitrary: ps)
  case (Cons q qs)
  have "fst q \<notin> fst ` set ps" "\<And>p. p \<in> set ps \<Longrightarrow> \<not> goes_before (fst q) (fst p)"
    using Cons.prems by (auto simp: ordered_props_def sorted_wrt_append)
  then have "obj_put (fst q) (snd q) ps = ps @ [q]" by (simp add: obj_put_def obj_insert_last)
  then show ?case using Cons.IH [of "ps @ [q]"] Cons.prems by simp
qed simp

lemma obj_of_ordered: "ordered_props ps \<Longrightarrow> obj_of ps = ps"
  using obj_of_fold_ordered [of "[]" ps] by (simp add: obj_of_def)

lemma obj_put_new:
  assumes "ordered_props ps" and "k \<notin> fst ` set ps"
  shows "ordered_props (obj_put k v ps)" "map_of (obj_put k v ps) = (map_of ps)(k \<mapsto> v)"
    "length (obj_put k v ps) = Suc (length ps)" "set (obj_put k v ps) = insert (k, v) (set ps)"
  using assms map_of_obj_insert [of k v ps] distinct_obj_insert [of ps k v] obj_insert_sorted [of ps k v]
  by (simp_all add: obj_put_def ordered_props_def)

lemma obj_of_distinct:
  assumes "distinct (map fst ps)"
  shows "ordered_props (obj_of ps) \<and> map_of (obj_of ps) = map_of ps \<and> length (obj_of ps) = length ps \<and> set (obj_of ps) = set ps"
  using assms
proof (induction ps rule: rev_induct)
  case (snoc p ps)
  then have IH: "ordered_props (obj_of ps)" "map_of (obj_of ps) = map_of ps" "length (obj_of ps) = length ps" "set (obj_of ps) = set ps"
    and new: "fst p \<notin> fst ` set (obj_of ps)" by auto
  have o: "obj_of (ps @ [p]) = obj_put (fst p) (snd p) (obj_of ps)" by (simp add: obj_of_def)
  have "map_of (ps @ [p]) = (map_of ps)(fst p \<mapsto> snd p)"
  proof -
    have "map_of ps (fst p) = None" using snoc.prems by (simp add: map_of_eq_None_iff)
    then show ?thesis by (cases p) (auto simp: map_add_def fun_eq_iff split: option.split)
  qed
  then show ?case using obj_put_new [OF IH(1) new, of "snd p"] IH by (simp add: o)
qed (simp add: obj_of_def ordered_props_def)

section \<open>Normalized values\<close>

definition normalized :: "SqlColumnDefinition \<Rightarrow> SqlValue \<Rightarrow> bool" where
  "normalized column v \<longleftrightarrow> normalizeValue column v = Inr v"

abbreviation (input) mismatch :: "SqlValue result" where
  "mismatch \<equiv> throw SqlTypeError ''column requires another type''"
lemma normalizeValue_simps:
  "normalizeValue c SqlNull = (if column_nullable c then Inr SqlNull else throw ConstraintError ''column cannot be NULL'')"
  "normalizeValue c (SqlBool b) = (if column_type c = BooleanType then Inr (SqlBool b) else mismatch)"
  "normalizeValue c (SqlBlob bs) = (if column_type c = BlobType then Inr (SqlBlob bs) else mismatch)"
  "normalizeValue c (SqlText s) = (if column_type c = TextType then bindr (encodeCompoundKeyPart (KString s)) (\<lambda>_. Inr (SqlText s)) else mismatch)"
  by (cases "column_type c"; simp add: normalizeValue_def indexKey_def)+
lemma normalizeValue_numbers:
  "normalizeValue c (SqlNumber n) =
     (if column_type c = IntegerType \<and> f64_is_safe_integer n then (case normalize_integer (f64_int n) of None \<Rightarrow> mismatch | Some w \<Rightarrow> Inr w)
      else if column_type c = RealType \<and> f64_is_finite n then Inr (SqlNumber (if f64_is_negative_zero n then 0 else n)) else mismatch)"
  "normalizeValue c (SqlBigint i) =
     (if column_type c = IntegerType then (case normalize_integer i of None \<Rightarrow> mismatch | Some w \<Rightarrow> Inr w)
      else if column_type c = RealType \<and> f64_is_finite (number_of_bigint i) \<and> f64_is_integer (number_of_bigint i) \<and> f64_int (number_of_bigint i) = i
        then Inr (SqlNumber (number_of_bigint i)) else mismatch)"
  by (cases "column_type c"; simp add: normalizeValue_def Let_def)+

lemma normalize_integer_Some:
  "normalize_integer i = Some w \<longleftrightarrow> SQL_INTEGER_MIN \<le> i \<and> i \<le> SQL_INTEGER_MAX \<and>
     w = (if is_safe i then SqlNumber (f64_of_int i) else SqlBigint i)"
  by (auto simp: normalize_integer_def)

lemma is_safe_range: "is_safe i \<Longrightarrow> SQL_INTEGER_MIN \<le> i \<and> i \<le> SQL_INTEGER_MAX"
  by (auto simp: is_safe_def max_safe_integer_def SQL_INTEGER_MIN_def SQL_INTEGER_MAX_def)

lemma is_safe_f64: "f64_is_safe_integer n \<Longrightarrow> is_safe (f64_int n)"
  by (simp add: is_safe_def f64_is_safe_integer_def)

lemma negative_zero_int: "f64_is_negative_zero n \<Longrightarrow> f64_int n = 0"
  by (simp add: f64_negative_zero_iff f64_int_def f64_scaled_def)

text \<open>Normalized values of each type.\<close>

lemma normalizeValue_cases:
  assumes "normalizeValue c v = Inr w"
  obtains (null) "v = SqlNull" "w = SqlNull" "column_nullable c"
  | (integer) i where "column_type c = IntegerType" "v = SqlBigint i \<or> (\<exists>n. v = SqlNumber n \<and> f64_is_safe_integer n \<and> f64_int n = i)"
      "SQL_INTEGER_MIN \<le> i" "i \<le> SQL_INTEGER_MAX" "w = (if is_safe i then SqlNumber (f64_of_int i) else SqlBigint i)"
  | (real) n where "column_type c = RealType" "f64_is_finite n" "\<not> f64_is_negative_zero n" "w = SqlNumber n"
      "v = SqlNumber n \<or> v = SqlNumber (2 ^ 63) \<and> n = 0 \<or> (\<exists>i. v = SqlBigint i \<and> f64_is_integer n \<and> f64_int n = i)"
  | (string) s k where "column_type c = TextType" "v = SqlText s" "w = v" "encodeCompoundKeyPart (KString s) = Inr k"
  | (bool) b where "column_type c = BooleanType" "v = SqlBool b" "w = v"
  | (blob) bs where "column_type c = BlobType" "v = SqlBlob bs" "w = v"
proof -
  have zero: "f64_is_finite 0" "\<not> f64_is_negative_zero 0"
    by (simp_all add: f64_is_finite_def f64_mag_def f64_is_negative_zero_def)
  have big: "\<not> f64_is_negative_zero (number_of_bigint i)" if "f64_int (number_of_bigint i) = i" for i
  proof (cases "i = 0")
    case True
    have "number_of_bigint 0 = 0" using ratio_mag_0 [of 1] by (simp add: number_of_bigint_def)
    then show ?thesis using True zero(2) by simp
  next
    case False
    then show ?thesis using that negative_zero_int [of "number_of_bigint i"] by auto
  qed
  show thesis
  proof (cases v)
    case SqlNull
    then have "column_nullable c" "w = SqlNull" using assms by (simp_all add: normalizeValue_simps split: if_splits)
    then show thesis using SqlNull by (intro null)
  next
    case (SqlBool b)
    then have "column_type c = BooleanType" "w = v" using assms by (simp_all add: normalizeValue_simps split: if_splits)
    then show thesis using SqlBool by (intro bool)
  next
    case (SqlText s)
    then have "column_type c = TextType" "w = v" "\<exists>k. encodeCompoundKeyPart (KString s) = Inr k"
      using assms by (simp_all add: normalizeValue_simps bindr_eq_Inr split: if_splits)
    then show thesis using SqlText string by blast
  next
    case (SqlBlob bs)
    then have "column_type c = BlobType" "w = v" using assms by (simp_all add: normalizeValue_simps split: if_splits)
    then show thesis using SqlBlob by (intro blob)
  next
    case (SqlNumber n)
    show thesis
    proof (cases "column_type c")
      case IntegerType
      then have "f64_is_safe_integer n" "normalize_integer (f64_int n) = Some w"
        using assms SqlNumber by (simp_all add: normalizeValue_numbers split: if_splits option.splits)
      then show thesis using IntegerType SqlNumber integer [of "f64_int n"] by (auto simp: normalize_integer_Some)
    next
      case RealType
      then have "f64_is_finite n" "w = SqlNumber (if f64_is_negative_zero n then 0 else n)"
        using assms SqlNumber by (simp_all add: normalizeValue_numbers split: if_splits)
      then show thesis
        using RealType SqlNumber real [of "if f64_is_negative_zero n then 0 else n"] zero
        by (cases "f64_is_negative_zero n") (simp_all only: f64_is_negative_zero_def simp_thms if_True if_False)
    qed (use assms SqlNumber in \<open>simp_all add: normalizeValue_numbers\<close>)
  next
    case (SqlBigint i)
    show thesis
    proof (cases "column_type c")
      case IntegerType
      then have "normalize_integer i = Some w"
        using assms SqlBigint by (simp_all add: normalizeValue_numbers split: option.splits)
      then show thesis using IntegerType SqlBigint integer [of i] by (auto simp: normalize_integer_Some)
    next
      case RealType
      let ?n = "number_of_bigint i"
      have "f64_is_finite ?n" "f64_is_integer ?n" "f64_int ?n = i" "w = SqlNumber ?n"
        using assms SqlBigint RealType by (simp_all add: normalizeValue_numbers split: if_splits)
      then show thesis using RealType SqlBigint real [of ?n] big [of i] by blast
    qed (use assms SqlBigint in \<open>simp_all add: normalizeValue_numbers\<close>)
  qed
qed

lemma normalized_cases:
  assumes "normalized c v"
  obtains (null) "v = SqlNull" "column_nullable c"
  | (safe) i where "column_type c = IntegerType" "v = SqlNumber (f64_of_int i)" "is_safe i"
  | (big) i where "column_type c = IntegerType" "v = SqlBigint i" "\<not> is_safe i" "SQL_INTEGER_MIN \<le> i" "i \<le> SQL_INTEGER_MAX"
  | (real) n where "column_type c = RealType" "f64_is_finite n" "\<not> f64_is_negative_zero n" "v = SqlNumber n"
  | (string) s k where "column_type c = TextType" "v = SqlText s" "encodeCompoundKeyPart (KString s) = Inr k"
  | (bool) b where "column_type c = BooleanType" "v = SqlBool b"
  | (blob) bs where "column_type c = BlobType" "v = SqlBlob bs"
  using assms unfolding normalized_def
proof (cases rule: normalizeValue_cases)
  case (integer i)
  then show thesis using safe [of i] big [of i] by (cases "is_safe i") auto
qed (use that in blast)+

lemma normalizeValue_normalized: "normalizeValue c v = Inr w \<Longrightarrow> normalized c w"
proof (erule normalizeValue_cases)
  fix i assume i: "column_type c = IntegerType" "SQL_INTEGER_MIN \<le> i" "i \<le> SQL_INTEGER_MAX" "w = (if is_safe i then SqlNumber (f64_of_int i) else SqlBigint i)"
  have "f64_is_safe_integer (f64_of_int i) \<and> f64_int (f64_of_int i) = i" if "is_safe i"
    using f64_of_int_safe [of i] that by (simp add: is_safe_def)
  then show "normalized c w" using i by (auto simp: normalized_def normalizeValue_simps normalizeValue_numbers normalize_integer_def)
qed (auto simp: normalized_def normalizeValue_simps normalizeValue_numbers)

section \<open>Stored values are read back\<close>

lemma decimal_length_bound: "n < 10 ^ k \<Longrightarrow> 0 < k \<Longrightarrow> length (decimal n) \<le> k"
proof (induction k arbitrary: n)
  case (Suc k)
  show ?case
  proof (cases "n < 10")
    case True
    then show ?thesis by (simp add: decimal.simps [of n])
  next
    case False
    then have "0 < k" using Suc.prems(1) by (cases k) auto
    moreover have "n div 10 < 10 ^ k" using Suc.prems(1) by (simp add: div_less_iff_less_mult)
    ultimately show ?thesis using Suc.IH [of "n div 10"] False by (simp add: decimal.simps [of n])
  qed
qed simp

lemma bigint_text_stored:
  assumes "SQL_INTEGER_MIN \<le> i" and "i \<le> SQL_INTEGER_MAX"
  shows "length (bigint_text i) \<le> 20 \<and> is_stored_integer (bigint_text i) \<and> signed_value (bigint_text i) = i"
proof -
  let ?ds = "decimal (nat \<bar>i\<bar>)"
  have ds: "list_all is_digit ?ds" "?ds \<noteq> []" "digits_value ?ds = nat \<bar>i\<bar>" using decimal_text by blast+
  have "nat \<bar>i\<bar> < 10 ^ 19" using assms by (simp add: SQL_INTEGER_MIN_def SQL_INTEGER_MAX_def)
  then have "length ?ds \<le> 19" by (rule decimal_length_bound) simp
  then have len: "length (bigint_text i) \<le> 20" by (cases "i < 0") (simp_all add: bigint_text_def)
  obtain d ds' where head: "?ds = d # ds'" "is_digit d" using ds by (cases ?ds) auto
  then have sign: "d \<noteq> 0x2d \<and> d \<noteq> 0x2b" using digit_not by blast
  have "?ds = [0x30] \<or> hd ?ds \<noteq> 0x30"
  proof (cases "i = 0")
    case False
    then show ?thesis using decimal_lead [of "nat \<bar>i\<bar>"] by simp
  qed (simp add: decimal.simps [of 0])
  then have "is_stored_integer (bigint_text i)"
    using ds sign head by (auto simp: is_stored_integer_def bigint_text_def Let_def)
  moreover have "signed_value (bigint_text i) = i"
    using ds(3) sign head by (auto simp: signed_value_def split_sign_def bigint_text_def)
  ultimately show ?thesis using len by blast
qed

lemma hex_digit_lower: "d < 16 \<Longrightarrow> is_digit (hex_digit d) \<or> 0x61 \<le> hex_digit d \<and> hex_digit d \<le> 0x66"
proof -
  assume "d < 16"
  then have "unat (of_nat (0x30 + d) :: code_unit) = 0x30 + d" "unat (of_nat (0x57 + d) :: code_unit) = 0x57 + d" by (simp_all del: of_nat_add)
  then show ?thesis using \<open>d < 16\<close> by (simp add: hex_digit_def is_digit_def word_le_nat_alt del: of_nat_add)
qed

lemma bytesIdentity_stored:
  "even (length (bytesIdentity bs)) \<and> is_hex_text (bytesIdentity bs) \<and> hex_bytes (bytesIdentity bs) = bs"
proof (induction bs)
  case (Cons b bs)
  have "unat b < 16 * 16" using unat_byte_less [of b] by simp
  then have d: "unat b div 16 < 16" "unat b mod 16 < 16" by (simp_all add: less_mult_imp_div_less)
  have "of_nat (unat b div 16 * 16 + unat b mod 16) = b" by simp
  then show ?case using Cons d hex_digit_lower [OF d(1)] hex_digit_lower [OF d(2)]
    by (auto simp: bytesIdentity_def hex_byte_def is_hex_text_def hex_digit_value)
qed (simp add: bytesIdentity_def is_hex_text_def)

lemma restored_stored_value:
  assumes "normalized c v"
  shows "restored_value (column_type c) (storedValue v) = Inr v"
  using assms
  by (cases rule: normalized_cases) (simp_all add: restored_value_def storedValue_def bigint_text_stored bytesIdentity_stored not_less)

lemma storedValue_json:
  assumes "normalized c v"
  shows "json_ok (storedValue v)"
  using assms
proof (cases rule: normalized_cases)
  case (safe i)
  have "f64_is_finite (f64_of_int i) \<and> \<not> f64_is_negative_zero (f64_of_int i)"
  proof
    show "f64_is_finite (f64_of_int i)" using safe(3) by (intro f64_of_int_scaled(2)) (simp add: is_safe_def)
    have "f64_of_int 0 = 0" by (simp add: f64_of_int_def f64_of_nat_def)
    then show "\<not> f64_is_negative_zero (f64_of_int i)"
      using f64_of_int_safe(1) [of i] safe(3) negative_zero_int [of "f64_of_int i"]
      by (cases "i = 0") (auto simp: is_safe_def f64_is_negative_zero_def)
  qed
  then show ?thesis using safe by (simp add: storedValue_def)
qed (simp_all add: storedValue_def)

section \<open>Rows are read back\<close>

definition distinct_columns :: "TableSchema \<Rightarrow> bool" where
  "distinct_columns schema \<longleftrightarrow> distinct (map column_name (schema_columns schema))"

definition row_ok :: "TableSchema \<Rightarrow> SqlRow \<Rightarrow> bool" where
  "row_ok schema row \<longleftrightarrow> dom row = column_name ` set (schema_columns schema) \<and>
     list_all (\<lambda>c. normalized c (column_value row (column_name c))) (schema_columns schema)"

lemma row_ok_value: "row_ok schema row \<Longrightarrow> c \<in> set (schema_columns schema) \<Longrightarrow> row (column_name c) = Some (column_value row (column_name c))"
  by (auto simp: row_ok_def column_value_def dom_def split: option.split)

lemma row_ok_normalized: "row_ok schema row \<Longrightarrow> c \<in> set (schema_columns schema) \<Longrightarrow> normalized c (column_value row (column_name c))"
  by (simp add: row_ok_def list_all_iff)

definition stored_pairs :: "TableSchema \<Rightarrow> SqlRow \<Rightarrow> (jsstring \<times> jsval) list" where
  "stored_pairs schema row = map (\<lambda>c. (column_name c, storedValue (column_value row (column_name c)))) (schema_columns schema)"

lemma stored_object_facts:
  assumes "distinct_columns schema"
  obtains ps where "stored_object schema row = VObject ps" "ordered_props ps" "map_of ps = map_of (stored_pairs schema row)"
    "length ps = length (schema_columns schema)" "set ps = set (stored_pairs schema row)"
proof -
  have "distinct (map fst (stored_pairs schema row))" using assms by (simp add: distinct_columns_def stored_pairs_def comp_def)
  from obj_of_distinct [OF this] show thesis
    using that [of "obj_of (stored_pairs schema row)"] by (simp add: stored_object_def stored_pairs_def)
qed

lemma stored_object_json:
  assumes "distinct_columns schema" and "row_ok schema row"
  shows "json_ok (stored_object schema row)"
proof -
  obtain ps where ps: "stored_object schema row = VObject ps" "ordered_props ps" "set ps = set (stored_pairs schema row)"
    using stored_object_facts [OF assms(1)] by metis
  moreover have "json_ok (snd p)" if "p \<in> set ps" for p
    using that assms(2) ps(3) row_ok_normalized storedValue_json by (fastforce simp: stored_pairs_def)
  ultimately show ?thesis by (simp add: obj_of_ordered list_all_iff)
qed

lemma map_of_stored:
  assumes "distinct_columns schema" and "c \<in> set (schema_columns schema)"
  shows "map_of (stored_pairs schema row) (column_name c) = Some (storedValue (column_value row (column_name c)))"
proof -
  have "distinct (map fst (stored_pairs schema row))" using assms by (simp add: distinct_columns_def stored_pairs_def comp_def)
  then show ?thesis using assms(2) by (intro map_of_is_SomeI) (auto simp: stored_pairs_def)
qed

lemma decode_columns_stored:
  assumes "\<And>c. c \<in> set cs \<Longrightarrow> map_of ps (column_name c) = Some (storedValue (column_value row (column_name c))) \<and>
      normalized c (column_value row (column_name c))"
  shows "decode_columns ps cs acc = Inr (\<lambda>n. if n \<in> column_name ` set cs then Some (column_value row n) else acc n)"
  using assms
proof (induction cs arbitrary: acc)
  case (Cons c cs)
  have c: "map_of ps (column_name c) = Some (storedValue (column_value row (column_name c)))" "normalized c (column_value row (column_name c))"
    using Cons.prems [of c] by simp_all
  have "decode_columns ps cs (acc(column_name c \<mapsto> column_value row (column_name c))) =
      Inr (\<lambda>n. if n \<in> column_name ` set cs then Some (column_value row n) else (acc(column_name c \<mapsto> column_value row (column_name c))) n)"
    using Cons.prems by (intro Cons.IH) simp
  then show ?case using c restored_stored_value [OF c(2)] by (auto simp: normalized_def fun_eq_iff)
qed (simp add: fun_eq_iff)

lemma decodeRow_encoded:
  assumes "distinct_columns schema" and "row_ok schema row" and "encodeRow schema row = Inr bs"
  shows "decodeRow schema (key, bs) =
    (case check_row_key schema row key of
       Inl _ \<Rightarrow> throw SerializationError ''invalid SQL row''
     | Inr _ \<Rightarrow> Inr \<lparr>row_key = key, row_values = row\<rparr>)"
proof -
  obtain ps where ps: "stored_object schema row = VObject ps" "map_of ps = map_of (stored_pairs schema row)"
      "length ps = length (schema_columns schema)"
    using stored_object_facts [OF assms(1)] by metis
  have json: "json_ok (stored_object schema row)" by (rule stored_object_json [OF assms(1,2)])
  have "bs = text_encode (ok_text (stored_object schema row))"
    using assms(3) jsonEncode_ok [OF json] by (simp add: encodeRow_def)
  then have decoded: "decodeJson bs = Inr (VObject ps)" using jsonDecode_encoded [OF json] by (simp add: decodeJson_def ps(1))
  have "decode_columns ps (schema_columns schema) Map.empty =
      Inr (\<lambda>n. if n \<in> column_name ` set (schema_columns schema) then Some (column_value row n) else None)"
    using map_of_stored [OF assms(1)] row_ok_normalized [OF assms(2)] by (intro decode_columns_stored) (simp add: ps(2))
  also have "(\<lambda>n. if n \<in> column_name ` set (schema_columns schema) then Some (column_value row n) else None) = row"
  proof
    fix n
    show "(if n \<in> column_name ` set (schema_columns schema) then Some (column_value row n) else None) = row n"
    proof (cases "row n")
      case None
      then show ?thesis using assms(2) by (simp add: row_ok_def dom_def set_eq_iff) (metis option.distinct(1))
    next
      case (Some v)
      then have "n \<in> column_name ` set (schema_columns schema)" using assms(2) by (auto simp: row_ok_def)
      then show ?thesis using Some by (simp add: column_value_def)
    qed
  qed
  finally show ?thesis using ps(3) decoded by (auto simp: decodeRow_def Let_def split: sum.split)
qed

lemma encodeRow_succeeds: "distinct_columns schema \<Longrightarrow> row_ok schema row \<Longrightarrow> \<exists>bs. encodeRow schema row = Inr bs"
  using jsonEncode_ok stored_object_json by (fastforce simp: encodeRow_def)

section \<open>Keys order rows like values\<close>

lemma compareBytes_iff: "(compareBytes a b < 0 \<longleftrightarrow> a < b) \<and> (compareBytes a b = 0 \<longleftrightarrow> a = b)"
proof (induction a arbitrary: b)
  case Nil
  then show ?case by (cases b) (auto simp: compareBytes_def)
next
  case (Cons x xs)
  show ?case
  proof (cases b)
    case Nil
    then show ?thesis by (simp add: compareBytes_def)
  next
    case (Cons y ys)
    have "compareBytes (x # xs) (y # ys) = (if x \<noteq> y then int (unat x) - int (unat y) else compareBytes xs ys)"
      by (simp add: compareBytes_def split: option.split)
    then show ?thesis using Cons.IH [of ys] Cons by (auto simp: word_less_def word_uint_eq_iff)
  qed
qed

lemma compareBytes_sym: "compareBytes a b > 0 \<longleftrightarrow> b < a"
  using compareBytes_iff [of a b] by (cases a b rule: linorder_cases) auto

fun int_value :: "SqlValue \<Rightarrow> int" where
  "int_value (SqlNumber n) = f64_int n"
| "int_value (SqlBigint i) = i"
| "int_value _ = 0"

lemma normalized_integer:
  assumes "normalized c v" and "column_type c = IntegerType" and "v \<noteq> SqlNull"
  obtains i where "int_value v = i" "scaled_value v = i * f64_unit" "to_bigint v = Inr i" "is_numeric v"
    "SQL_INTEGER_MIN \<le> i" "i \<le> SQL_INTEGER_MAX" "v = (if is_safe i then SqlNumber (f64_of_int i) else SqlBigint i)"
  using assms(1)
proof (cases rule: normalized_cases)
  case (safe i)
  then have "\<bar>i\<bar> \<le> max_safe_integer" by (simp add: is_safe_def)
  then show thesis
    using safe that [of i] f64_of_int_safe [of i] f64_of_int_scaled [of i] is_safe_range [OF safe(3)]
    by (simp add: to_bigint_def f64_is_safe_integer_def)
next
  case (big i)
  then show thesis using that [of i] by (simp add: to_bigint_def)
qed (use assms in simp_all)

lemma f64_unit_pos: "0 < f64_unit"
  by (simp add: f64_unit_def)

text \<open>Comparison agrees with an order on the encoded keys.\<close>

definition agrees :: "int \<Rightarrow> bytes \<Rightarrow> bytes \<Rightarrow> bool" where
  "agrees x a b \<longleftrightarrow> (x < 0 \<longleftrightarrow> a < b) \<and> (x = 0 \<longleftrightarrow> a = b)"

lemma compareValues_integer:
  assumes "normalized c v" "normalized c w" "column_type c = IntegerType" "v \<noteq> SqlNull" "w \<noteq> SqlNull"
  obtains x a b where "compareValues v w = Inr x" "primaryKey c v = Inr a" "primaryKey c w = Inr b" "agrees x a b" "x = 0 \<longleftrightarrow> v = w"
proof -
  obtain i where i: "int_value v = i" "scaled_value v = i * f64_unit" "to_bigint v = Inr i" "is_numeric v"
      "SQL_INTEGER_MIN \<le> i" "i \<le> SQL_INTEGER_MAX" "v = (if is_safe i then SqlNumber (f64_of_int i) else SqlBigint i)"
    by (rule normalized_integer [OF assms(1,3,4)])
  obtain j where j: "int_value w = j" "scaled_value w = j * f64_unit" "to_bigint w = Inr j" "is_numeric w"
      "SQL_INTEGER_MIN \<le> j" "j \<le> SQL_INTEGER_MAX" "w = (if is_safe j then SqlNumber (f64_of_int j) else SqlBigint j)"
    by (rule normalized_integer [OF assms(2,3,5)])
  have key: "\<exists>k. u64Key (Big (n - SQL_INTEGER_MIN)) = Inr k" if "SQL_INTEGER_MIN \<le> n" "n \<le> SQL_INTEGER_MAX" for n
    using that by (auto simp: u64Key_ok numeric_int_def SQL_INTEGER_MIN_def SQL_INTEGER_MAX_def)
  obtain a b where ab: "u64Key (Big (i - SQL_INTEGER_MIN)) = Inr a" "u64Key (Big (j - SQL_INTEGER_MIN)) = Inr b"
    using key i j by metis
  define x :: int where "x = (if i < j then - 1 else if j < i then 1 else 0)"
  have "compareValues v w = Inr x"
    using i j assms(4,5) f64_unit_pos by (simp add: compareValues_def x_def)
  moreover have "a < b \<longleftrightarrow> i < j" "b < a \<longleftrightarrow> j < i"
    using u64Key_order [OF ab] u64Key_order [OF ab(2,1)] by (auto simp: numeric_int_def)
  then have "agrees x a b" using ab by (auto simp: agrees_def x_def)
  moreover have "x = 0 \<longleftrightarrow> v = w"
    using i(1,7) j(1,7) by (auto simp: x_def)
  moreover have "primaryKey c v = Inr a" "primaryKey c w = Inr b" using assms(3-5) i(3) j(3) ab by (simp_all add: primaryKey_def)
  ultimately show thesis using that by blast
qed

lemma encoded_agrees:
  assumes "encodeCompoundKeyPart p = Inr a" "encodeCompoundKeyPart q = Inr b" and "x < 0 \<longleftrightarrow> part_less p q" "x > 0 \<longleftrightarrow> part_less q p"
  shows "agrees x a b"
  using assms encodeCompoundKeyPart_less [OF assms(1,2)] encodeCompoundKeyPart_less [OF assms(2,1)]
  unfolding agrees_def by (metis linorder_less_linear order_less_irrefl)

lemma finite_part: "f64_is_finite n \<Longrightarrow> \<exists>k. encodeCompoundKeyPart (KNumber n) = Inr k"
  by (simp add: encodeCompoundKeyPart_def encodeSortableNumber_eq)

lemma simple_parts: "\<exists>k. encodeCompoundKeyPart KNull = Inr k" "\<exists>k. encodeCompoundKeyPart (KBool b) = Inr k" "\<exists>k. encodeCompoundKeyPart (KBytes bs) = Inr k"
  by (simp_all add: encodeCompoundKeyPart_def)

lemma agrees_bytes: "agrees (compareBytes a b) a b"
  using compareBytes_iff by (simp add: agrees_def)

lemma part_less_bytes: "compareBytes a b < 0 \<longleftrightarrow> a < b" "compareBytes a b > 0 \<longleftrightarrow> b < a"
  using compareBytes_iff compareBytes_sym by blast+

text \<open>The part under which a value of a column that is not INTEGER is a primary key.\<close>

lemma compareValues_part:
  assumes "normalized c v" "normalized c w" "column_type c \<noteq> IntegerType" "v \<noteq> SqlNull" "w \<noteq> SqlNull"
  obtains x a b where "compareValues v w = Inr x" "encodeCompoundKeyPart (sql_part v) = Inr a"
    "encodeCompoundKeyPart (sql_part w) = Inr b" "agrees x a b" "x = 0 \<longleftrightarrow> v = w"
    "x < 0 \<longleftrightarrow> part_less (sql_part v) (sql_part w)"
  using assms(1)
proof (cases rule: normalized_cases)
  case (real n)
  obtain m where m: "f64_is_finite m" "\<not> f64_is_negative_zero m" "w = SqlNumber m"
    using assms(2) real(1) assms(5) by (cases rule: normalized_cases) auto
  obtain a b where ab: "encodeCompoundKeyPart (KNumber n) = Inr a" "encodeCompoundKeyPart (KNumber m) = Inr b"
    using finite_part real(2) m(1) by metis
  define x :: int where "x = (if f64_scaled n < f64_scaled m then - 1 else if f64_scaled m < f64_scaled n then 1 else 0)"
  have "x = 0 \<longleftrightarrow> n = m" using f64_scaled_inj [OF _ real(3) m(2)] by (auto simp: x_def)
  then show thesis
    using that [of x a b] ab real m encoded_agrees [OF ab, of x] by (auto simp: compareValues_def sql_part_def x_def)
next
  case (string s k)
  obtain t l where t: "w = SqlText t" "encodeCompoundKeyPart (KString t) = Inr l"
    using assms(2) string(1) assms(5) by (cases rule: normalized_cases) auto
  have "k = l \<longleftrightarrow> s = t"
    using string(3) t(2) utf8_code_points_eq [of s t] by (auto elim!: encodeCompoundKeyPart_cases)
  then show thesis
    using that [of "compareBytes k l" k l] string t agrees_bytes [of k l] encodeCompoundKeyPart_less [OF string(3) t(2)] compareBytes_iff [of k l]
    by (auto simp: compareValues_def sql_part_def indexKey_def)
next
  case (bool b)
  obtain d where d: "w = SqlBool d" using assms(2) bool(1) assms(5) by (cases rule: normalized_cases) auto
  obtain k l where kl: "encodeCompoundKeyPart (KBool b) = Inr k" "encodeCompoundKeyPart (KBool d) = Inr l" using simple_parts by metis
  show thesis
    using that [of "of_bool b - of_bool d" k l] kl bool d encoded_agrees [OF kl, of "of_bool b - of_bool d"]
    by (cases b; cases d) (auto simp: compareValues_def sql_part_def)
next
  case (blob bs)
  obtain ds where ds: "w = SqlBlob ds" using assms(2) blob(1) assms(5) by (cases rule: normalized_cases) auto
  obtain k l where kl: "encodeCompoundKeyPart (KBytes bs) = Inr k" "encodeCompoundKeyPart (KBytes ds) = Inr l" using simple_parts by metis
  show thesis
    using that [of "compareBytes bs ds" k l] kl blob ds encoded_agrees [OF kl, of "compareBytes bs ds"] part_less_bytes compareBytes_iff
    by (auto simp: compareValues_def sql_part_def)
qed (use assms in simp_all)

lemma primaryKey_order:
  assumes "normalized c v" "normalized c w" "v \<noteq> SqlNull" "w \<noteq> SqlNull"
  obtains x a b where "compareValues v w = Inr x" "primaryKey c v = Inr a" "primaryKey c w = Inr b" "agrees x a b" "x = 0 \<longleftrightarrow> v = w"
proof (cases "column_type c = IntegerType")
  case True
  then show thesis using compareValues_integer [OF assms(1,2) True assms(3,4)] that by metis
next
  case False
  obtain x a b where x: "compareValues v w = Inr x" "encodeCompoundKeyPart (sql_part v) = Inr a"
    "encodeCompoundKeyPart (sql_part w) = Inr b" "agrees x a b" "x = 0 \<longleftrightarrow> v = w"
    using compareValues_part [OF assms(1,2) False assms(3,4)] by metis
  have "\<not> (\<exists>i. u = SqlBigint i)" if "normalized c u" "u \<noteq> SqlNull" for u
    using that(1) by (cases rule: normalized_cases) (use that False in auto)
  then have "primaryKey c v = Inr a" "primaryKey c w = Inr b"
    using x assms False by (auto simp: primaryKey_def indexKey_def split: SqlValue.split)
  then show thesis using that x by blast
qed

section \<open>Index keys order rows like values\<close>

text \<open>The part under which the stored form of a value is indexed.\<close>

definition stored_part :: "SqlValue \<Rightarrow> CompoundKeyPart" where
  "stored_part v = (case scalar_part (storedValue v) of None \<Rightarrow> KOther | Some p \<Rightarrow> p)"

lemma stored_part_simps [simp]:
  "stored_part SqlNull = KNull" "stored_part (SqlBool b) = KBool b" "stored_part (SqlNumber n) = KNumber n"
  "stored_part (SqlText s) = KString s" "stored_part (SqlBigint i) = KString (bigint_text i)" "stored_part (SqlBlob bs) = KString (bytesIdentity bs)"
  by (simp_all add: stored_part_def storedValue_def)

lemma stored_part_scalar: "scalar_part (storedValue v) = Some (stored_part v)"
  by (cases v) (simp_all add: stored_part_def storedValue_def)

lemma hex_digit_less: "d < 16 \<Longrightarrow> e < 16 \<Longrightarrow> hex_digit d < hex_digit e \<longleftrightarrow> d < e"
proof -
  have u: "unat (of_nat k :: code_unit) = k" if "k < 256" for k using that by simp
  assume "d < 16" "e < 16"
  then show ?thesis
    using u [of "0x30 + d"] u [of "0x30 + e"] u [of "0x57 + d"] u [of "0x57 + e"]
    by (auto simp: hex_digit_def word_less_nat_alt simp del: of_nat_add)
qed

lemma hex_byte_less: "hex_byte x @ u < hex_byte y @ v \<longleftrightarrow> x < y \<or> x = y \<and> u < v"
proof -
  have "unat x < 16 * 16" "unat y < 16 * 16" using unat_byte_less by (auto intro: order_less_le_trans)
  then have d: "unat x div 16 < 16" "unat y div 16 < 16" "unat x mod 16 < 16" "unat y mod 16 < 16" by (simp_all add: less_mult_imp_div_less)
  note h = hex_digit_less [OF d(1,2)] hex_digit_less [OF d(3,4)]
  have eq: "hex_digit p = hex_digit q \<longleftrightarrow> p = q" if "p < 16" "q < 16" for p q using hex_digit_inj that by blast
  have split: "n = n div 16 * 16 + n mod 16" for n :: nat by simp
  have "unat x < unat y \<longleftrightarrow> unat x div 16 < unat y div 16 \<or> unat x div 16 = unat y div 16 \<and> unat x mod 16 < unat y mod 16"
  proof -
    have "n < m \<longleftrightarrow> n div 16 < m div 16 \<or> n div 16 = m div 16 \<and> n mod 16 < m mod 16" for n m :: nat
    proof (cases "n div 16 < m div 16 \<or> m div 16 < n div 16")
      case True
      then show ?thesis by (auto simp: div_le_mono not_le [symmetric] dest: div_le_mono [of n m 16] div_le_mono [of m n 16])
    next
      case False
      then have "n div 16 = m div 16" by simp
      then show ?thesis using split [of n] split [of m] by (metis add_less_cancel_left less_irrefl)
    qed
    then show ?thesis .
  qed
  moreover have "unat x = unat y \<longleftrightarrow> unat x div 16 = unat y div 16 \<and> unat x mod 16 = unat y mod 16"
    using split by metis
  ultimately show ?thesis
    using h eq [OF d(1,2)] eq [OF d(3,4)] by (auto simp: hex_byte_def word_less_nat_alt word_unat_eq_iff)
qed

lemma bytesIdentity_less: "bytesIdentity a < bytesIdentity b \<longleftrightarrow> a < b"
proof (induction a arbitrary: b)
  case Nil
  then show ?case by (cases b) (simp_all add: bytesIdentity_def hex_byte_def)
next
  case (Cons x xs)
  then show ?case
  proof (cases b)
    case Nil
    then show ?thesis by (simp add: bytesIdentity_def)
  next
    case (Cons y ys)
    then show ?thesis using Cons.IH [of ys] hex_byte_less [of x "bytesIdentity xs" y "bytesIdentity ys"]
      by (simp add: bytesIdentity_def)
  qed
qed

lemma code_points_ascii: "list_all (\<lambda>c. c < 0x80) s \<Longrightarrow> code_points s = map unat s"
proof -
  assume a: "list_all (\<lambda>c. c < 0x80) s"
  have "s = utf16 (map unat s)" by (induction s) (simp_all add: utf16_def utf16_point_def)
  moreover have "list_all is_scalar (map unat s)"
    using a by (auto simp: list_all_iff is_scalar_def is_surrogate_def word_less_nat_alt)
  ultimately show ?thesis by (metis code_points_utf16)
qed

lemma ascii_string_part: "list_all (\<lambda>c. c < 0x80) s \<Longrightarrow> \<exists>k. encodeCompoundKeyPart (KString s) = Inr k"
  using scalar_text_well_formed [OF scalar_text_ascii] by (simp add: encodeCompoundKeyPart_def encodeStringKey_eq)

lemma map_unat_less: "map unat s < map unat t \<longleftrightarrow> s < (t :: code_unit list)"
proof (induction s arbitrary: t)
  case Nil
  then show ?case by (cases t) auto
next
  case (Cons c s)
  then show ?case by (cases t) (auto simp: word_less_nat_alt word_unat_eq_iff)
qed

lemma bytesIdentity_ascii: "list_all (\<lambda>c. c < 0x80) (bytesIdentity bs)"
proof (induction bs)
  case (Cons b bs)
  have "unat b < 16 * 16" using unat_byte_less [of b] by simp
  then have "unat b div 16 < 16" by (simp add: less_mult_imp_div_less)
  moreover have "hex_digit (unat b mod 16) < 0x80"
    using hex_digit_ascii [of "unat b mod 16"] by (metis mod_less_divisor not_le zero_less_numeral)
  ultimately show ?case
    using Cons hex_digit_ascii [of "unat b div 16"] by (simp add: bytesIdentity_def hex_byte_def)
qed (simp add: bytesIdentity_def)

lemma bytesIdentity_part_less: "part_less (KString (bytesIdentity a)) (KString (bytesIdentity b)) \<longleftrightarrow> a < b"
  by (simp add: code_points_ascii [OF bytesIdentity_ascii] map_unat_less bytesIdentity_less)

lemma bigint_text_ascii: "list_all (\<lambda>c. c < 0x80) (bigint_text i)"
  using decimal_text [of "nat \<bar>i\<bar>"]
  by (auto simp: bigint_text_def list_all_iff is_digit_def word_le_nat_alt word_less_nat_alt)

lemma stored_part_encoded:
  assumes "normalized c v"
  shows "\<exists>k. encodeCompoundKeyPart (stored_part v) = Inr k"
  using assms
proof (cases rule: normalized_cases)
  case (safe i)
  then show ?thesis using finite_part f64_of_int_scaled(2) [of i] by (simp add: is_safe_def)
qed (simp_all add: simple_parts finite_part ascii_string_part bigint_text_ascii bytesIdentity_ascii)

text \<open>The index keys of a column that is not INTEGER are ordered like its values, \<^verbatim>\<open>NULL\<close> first.\<close>

lemma index_key_order:
  assumes "normalized c v" "normalized c w" "column_type c \<noteq> IntegerType"
    and "encodeCompoundKeyPart (stored_part v) = Inr a" "encodeCompoundKeyPart (stored_part w) = Inr b"
  obtains x where "compareValues v w = Inr x" "agrees x a b" "x = 0 \<longleftrightarrow> v = w"
proof (cases "v = SqlNull \<or> w = SqlNull")
  case True
  define x :: int where "x = (if v = SqlNull then if w = SqlNull then 0 else - 1 else 1)"
  have c: "compareValues v w = Inr x" using True by (auto simp: compareValues_def x_def)
  have "part_rank (stored_part u) \<noteq> 0" if "u \<noteq> SqlNull" for u using that by (cases u) simp_all
  then have "x < 0 \<longleftrightarrow> part_less (stored_part v) (stored_part w)" "x > 0 \<longleftrightarrow> part_less (stored_part w) (stored_part v)"
    using True by (cases v; cases w; simp add: x_def)+
  then have "agrees x a b" by (rule encoded_agrees [OF assms(4,5)])
  then show thesis using that [OF c] True by (auto simp: x_def)
next
  case False
  then obtain x a' b' where x: "compareValues v w = Inr x" "encodeCompoundKeyPart (sql_part v) = Inr a'"
    "encodeCompoundKeyPart (sql_part w) = Inr b'" "agrees x a' b'" "x = 0 \<longleftrightarrow> v = w"
    using compareValues_part [OF assms(1-3)] by metis
  have "x > 0 \<longleftrightarrow> b' < a'" using x(4) by (cases a' b' rule: linorder_cases) (auto simp: agrees_def)
  then have sign: "x < 0 \<longleftrightarrow> part_less (sql_part v) (sql_part w)" "x > 0 \<longleftrightarrow> part_less (sql_part w) (sql_part v)"
    using x(4) encodeCompoundKeyPart_less [OF x(2,3)] encodeCompoundKeyPart_less [OF x(3,2)] by (simp_all add: agrees_def)
  have blob: "part_less (stored_part v) (stored_part w) \<longleftrightarrow> part_less (sql_part v) (sql_part w)"
    "part_less (stored_part w) (stored_part v) \<longleftrightarrow> part_less (sql_part w) (sql_part v)"
  proof -
    have big: "\<not> (\<exists>i. u = SqlBigint i)" if "normalized c u" for u
      using that assms(3) by (cases rule: normalized_cases) auto
    have kind: "(\<exists>bs. u = SqlBlob bs) \<longleftrightarrow> column_type c = BlobType" if "normalized c u" "u \<noteq> SqlNull" for u
      using that(1) by (cases rule: normalized_cases) (use that(2) in auto)
    show "part_less (stored_part v) (stored_part w) \<longleftrightarrow> part_less (sql_part v) (sql_part w)"
      "part_less (stored_part w) (stored_part v) \<longleftrightarrow> part_less (sql_part w) (sql_part v)"
      using big [OF assms(1)] big [OF assms(2)] kind [OF assms(1)] kind [OF assms(2)] False bytesIdentity_part_less
      by (cases v; cases w; auto simp: sql_part_def)+
  qed
  have "agrees x a b" using sign blob by (intro encoded_agrees [OF assms(4,5)]) simp_all
  then show thesis using that x by blast
qed

lemma index_key_equal:
  assumes "normalized c v" "normalized c w"
    and "encodeCompoundKeyPart (stored_part v) = Inr a" "encodeCompoundKeyPart (stored_part w) = Inr b"
  shows "a = b \<longleftrightarrow> v = w"
proof (cases "column_type c = IntegerType")
  case False
  then show ?thesis using index_key_order [OF assms(1,2) _ assms(3,4)] by (metis agrees_def)
next
  case True
  note i = bigint_text_stored
  have "v = w" if "a = b"
    using assms(1)
  proof (cases rule: normalized_cases)
    case null
    then show ?thesis
      using assms that by (cases w) (auto elim!: encodeCompoundKeyPart_cases split: if_splits)
  next
    case (safe x)
    have "\<exists>y. w = SqlNumber (f64_of_int y) \<and> is_safe y"
      using assms(2) by (cases rule: normalized_cases) (use assms safe that in \<open>auto elim!: encodeCompoundKeyPart_cases\<close>)
    then obtain y where y: "w = SqlNumber (f64_of_int y)" "is_safe y" by blast
    have "f64_scaled (f64_of_int x) = f64_scaled (f64_of_int y)"
      using encodeCompoundKeyPart_less [OF assms(3,4)] encodeCompoundKeyPart_less [OF assms(4,3)] that safe y by simp
    then have "x = y" using safe(3) y(2) f64_of_int_scaled(1) f64_unit_pos by (simp add: is_safe_def)
    then show ?thesis using safe y by simp
  next
    case (big x)
    have "\<exists>y. w = SqlBigint y \<and> SQL_INTEGER_MIN \<le> y \<and> y \<le> SQL_INTEGER_MAX"
      using assms(2) by (cases rule: normalized_cases) (use assms big that in \<open>auto elim!: encodeCompoundKeyPart_cases\<close>)
    then obtain y where y: "w = SqlBigint y" "SQL_INTEGER_MIN \<le> y" "y \<le> SQL_INTEGER_MAX" by blast
    have "code_points (bigint_text x) = code_points (bigint_text y)"
      using encodeCompoundKeyPart_less [OF assms(3,4)] encodeCompoundKeyPart_less [OF assms(4,3)] that big y by simp
    then have "bigint_text x = bigint_text y" by (metis utf16_code_points)
    then show ?thesis using i [OF big(4,5)] i [OF y(2,3)] big y by metis
  qed (use True in simp_all)
  then show ?thesis using assms(3,4) by auto
qed

section \<open>Properties of rows and keys\<close>

definition key_matches :: "TableSchema \<Rightarrow> SqlRow \<Rightarrow> bytes \<Rightarrow> bool" where
  "key_matches schema row key \<longleftrightarrow>
     (case primaryColumn schema of None \<Rightarrow> True
      | Some c \<Rightarrow> primaryKey c (column_value row (column_name c)) = Inr key)"

lemma check_row_key_iff: "check_row_key schema row key = Inr u \<longleftrightarrow> key_matches schema row key"
  using compareBytes_iff by (auto simp: check_row_key_def key_matches_def bindr_eq_Inr split: option.split)

lemma decodeRow_matches:
  assumes "distinct_columns schema" and "row_ok schema row" and "encodeRow schema row = Inr bs"
  shows "decodeRow schema (key, bs) =
    (if key_matches schema row key then Inr \<lparr>row_key = key, row_values = row\<rparr> else throw SerializationError ''invalid SQL row'')"
  using decodeRow_encoded [OF assms, of key] check_row_key_iff [of schema row key]
  by (cases "check_row_key schema row key") (auto split: sum.splits)

definition sample_schema :: TableSchema where
  "sample_schema = \<lparr>schema_table = js ''t'',
     schema_columns = [\<lparr>column_name = js ''id'', column_type = IntegerType, column_primaryKey = True, column_nullable = False\<rparr>,
       \<lparr>column_name = js ''1'', column_type = BlobType, column_primaryKey = False, column_nullable = True\<rparr>],
     schema_nextRowId = js ''1''\<rparr>"

definition sample_row :: SqlRow where
  "sample_row = [js ''id'' \<mapsto> SqlNumber (f64_of_int 5), js ''1'' \<mapsto> SqlBlob [0, 255]]"

lemma sample_row_ok: "distinct_columns sample_schema" "row_ok sample_schema sample_row"
proof -
  have "is_safe 5" by (simp add: is_safe_def max_safe_integer_def)
  then have "normalize_integer 5 = Some (SqlNumber (f64_of_int 5))" "f64_is_safe_integer (f64_of_int 5)" "f64_int (f64_of_int 5) = 5"
    using f64_of_int_safe [of 5] by (simp_all add: normalize_integer_def is_safe_def SQL_INTEGER_MIN_def SQL_INTEGER_MAX_def)
  then show "row_ok sample_schema sample_row"
    by (auto simp: row_ok_def sample_schema_def sample_row_def column_value_def js_def normalized_def normalizeValue_simps normalizeValue_numbers)
  show "distinct_columns sample_schema" by (simp add: distinct_columns_def sample_schema_def js_def)
qed

text \<open>
  C32. A row is read back as it was stored: encoding a row of normalized values and decoding the bytes under
  the key of the row gives the same row, for every column type and column order; under another key the
  decoder reports the row as invalid.
\<close>

theorem sql_row_round_trip:
  assumes "distinct_columns schema" and "row_ok schema row"
  shows "\<exists>bs. encodeRow schema row = Inr bs \<and>
    (\<forall>key. decodeRow schema (key, bs) =
       (if key_matches schema row key then Inr \<lparr>row_key = key, row_values = row\<rparr> else throw SerializationError ''invalid SQL row''))"
  using encodeRow_succeeds [OF assms] decodeRow_matches [OF assms] by blast

theorem sql_row_round_trip_witness:
  "\<exists>bs. encodeRow sample_schema sample_row = Inr bs \<and>
    decodeRow sample_schema (be_bytes 8 (2 ^ 63 + 5), bs) = Inr \<lparr>row_key = be_bytes 8 (2 ^ 63 + 5), row_values = sample_row\<rparr>"
proof -
  have "f64_is_integer (f64_of_int 5)" "f64_int (f64_of_int 5) = 5"
    using f64_of_int_safe [of 5] by (simp_all add: max_safe_integer_def f64_is_safe_integer_def)
  then have "key_matches sample_schema sample_row (be_bytes 8 (2 ^ 63 + 5))"
    by (simp add: key_matches_def primaryColumn_def sample_schema_def sample_row_def column_value_def primaryKey_def to_bigint_def
        u64Key_def SQL_INTEGER_MIN_def js_eq_iff)
  then show ?thesis using sql_row_round_trip [OF sample_row_ok] by (metis (no_types, lifting))
qed



end
