(* ===== verification/SqlPlan.thy ===== *)
theory SqlPlan
  imports SqlTable
begin

text \<open>
  Predicates and access plans of \<^verbatim>\<open>packages/sdk/src/sql.ts\<close>: validation and three-valued evaluation of
  \<^verbatim>\<open>WHERE\<close>, the choice of a primary key or index access with its bounds, and the traversal order. The lemmas
  show that a validated predicate evaluates without an error, that the access plan of a statement covers
  every row its predicate accepts, and that a plan without a sort visits the rows in the requested order.
\<close>

section \<open>Predicates\<close>

definition as_nullable :: "SqlColumnDefinition \<Rightarrow> SqlColumnDefinition" where
  "as_nullable column = column\<lparr>column_nullable := True\<rparr>"

fun validateWhere :: "TableSchema \<Rightarrow> SqlExpression \<Rightarrow> SqlValue list \<Rightarrow> unit result" where
  "validateWhere schema (AndExpr left right) parameters =
     bindr (validateWhere schema left parameters) (\<lambda>_. validateWhere schema right parameters)"
| "validateWhere schema (OrExpr left right) parameters =
     bindr (validateWhere schema left parameters) (\<lambda>_. validateWhere schema right parameters)"
| "validateWhere schema (IsNull name negated) parameters = bindr (getColumn schema name) (\<lambda>_. Inr ())"
| "validateWhere schema (Comparison name operator expression) parameters =
     bindr (getColumn schema name) (\<lambda>column.
     bindr (resolveSqlValue expression parameters) (\<lambda>v.
       if v = SqlNull then Inr ()
       else if column_type column = IntegerType \<or> column_type column = RealType then
         (case v of
            SqlBigint _ \<Rightarrow> Inr ()
          | SqlNumber n \<Rightarrow>
              if f64_is_finite n then Inr () else throw SqlTypeError ''comparison requires a numeric value''
          | _ \<Rightarrow> throw SqlTypeError ''comparison requires a numeric value'')
       else bindr (normalizeValue (as_nullable column) v) (\<lambda>_. Inr ())))"

definition validate_where :: "TableSchema \<Rightarrow> SqlExpression option \<Rightarrow> SqlValue list \<Rightarrow> unit result" where
  "validate_where schema expression parameters =
     (case expression of None \<Rightarrow> Inr () | Some e \<Rightarrow> validateWhere schema e parameters)"

text \<open>Truth values are \<^term>\<open>Some True\<close>, \<^term>\<open>Some False\<close> and \<^term>\<open>None\<close> for \<^verbatim>\<open>null\<close>.\<close>

fun operator_holds :: "SqlComparisonOperator \<Rightarrow> int \<Rightarrow> bool" where
  "operator_holds OpEq compared = (compared = 0)"
| "operator_holds OpNe compared = (compared \<noteq> 0)"
| "operator_holds OpLt compared = (compared < 0)"
| "operator_holds OpLe compared = (compared \<le> 0)"
| "operator_holds OpGt compared = (compared > 0)"
| "operator_holds OpGe compared = (compared \<ge> 0)"

fun evaluateWhere :: "SqlRow \<Rightarrow> SqlExpression \<Rightarrow> SqlValue list \<Rightarrow> bool option result" where
  "evaluateWhere row (AndExpr l r) parameters =
     bindr (evaluateWhere row l parameters) (\<lambda>left.
     bindr (evaluateWhere row r parameters) (\<lambda>right.
       Inr (if left = Some False \<or> right = Some False then Some False
            else if left = None \<or> right = None then None else Some True)))"
| "evaluateWhere row (OrExpr l r) parameters =
     bindr (evaluateWhere row l parameters) (\<lambda>left.
     bindr (evaluateWhere row r parameters) (\<lambda>right.
       Inr (if left = Some True \<or> right = Some True then Some True
            else if left = None \<or> right = None then None else Some False)))"
| "evaluateWhere row (IsNull name negated) parameters =
     Inr (Some (if negated then column_value row name \<noteq> SqlNull else column_value row name = SqlNull))"
| "evaluateWhere row (Comparison name operator expression) parameters =
     (let left = column_value row name in
      bindr (resolveSqlValue expression parameters) (\<lambda>right.
        if left = SqlNull \<or> right = SqlNull then Inr None
        else bindr (compareValues left right) (\<lambda>compared. Inr (Some (operator_holds operator compared)))))"

section \<open>Bounds\<close>

type_synonym comparison = "jsstring \<times> SqlComparisonOperator \<times> SqlValueExpression"

fun conjuncts :: "SqlExpression \<Rightarrow> comparison list" where
  "conjuncts (Comparison name operator expression) = [(name, operator, expression)]"
| "conjuncts (AndExpr l r) = conjuncts l @ conjuncts r"
| "conjuncts _ = []"

definition conjunctiveComparisons :: "SqlExpression option \<Rightarrow> comparison list" where
  "conjunctiveComparisons expression = (case expression of None \<Rightarrow> [] | Some e \<Rightarrow> conjuncts e)"

definition planKey :: "SqlColumnDefinition \<Rightarrow> SqlValue \<Rightarrow> bool \<Rightarrow> bool \<Rightarrow> bytes option result" where
  "planKey column v secondary equality =
     (let encoded = bindr (normalizeValue (as_nullable column) v) (\<lambda>n.
            bindr (if secondary then indexKey (Inl (stored_part n)) else primaryKey column n) (\<lambda>k. Inr (Some k)))
      in if v = SqlNull then Inr None
      else if column_type column = IntegerType then
        (if \<not> (case v of SqlBigint _ \<Rightarrow> True | SqlNumber n \<Rightarrow> f64_is_safe_integer n | _ \<Rightarrow> False) then Inr None
         else if secondary \<and> \<not> equality then Inr None else encoded)
      else if column_type column = RealType \<and> (case v of SqlBigint i \<Rightarrow> \<not> is_safe i | _ \<Rightarrow> False) then Inr None
      else encoded)"

definition first_bound :: "bytes option \<Rightarrow> bytes option \<Rightarrow> bytes option" where
  "first_bound a b = (case a of Some k \<Rightarrow> Some k | None \<Rightarrow> b)"

definition setRangeBound :: "range \<Rightarrow> SqlComparisonOperator \<Rightarrow> bytes \<Rightarrow> range" where
  "setRangeBound r operator key =
     (if operator = OpGt \<or> operator = OpGe then
        let compared = (case first_bound (gt r) (gte r) of Some c \<Rightarrow> compareBytes key c | None \<Rightarrow> 1) in
        if compared > 0 \<or> compared = 0 \<and> operator = OpGt
        then (if operator = OpGt then r\<lparr>gt := Some key, gte := None\<rparr> else r\<lparr>gt := None, gte := Some key\<rparr>)
        else r
      else if operator = OpLt \<or> operator = OpLe then
        let compared = (case first_bound (lt r) (lte r) of Some c \<Rightarrow> compareBytes key c | None \<Rightarrow> - 1) in
        if compared < 0 \<or> compared = 0 \<and> operator = OpLt
        then (if operator = OpLt then r\<lparr>lt := Some key, lte := None\<rparr> else r\<lparr>lt := None, lte := Some key\<rparr>)
        else r
      else r)"

definition emptyRange :: "range \<Rightarrow> bool" where
  "emptyRange r =
     (case (first_bound (gt r) (gte r), first_bound (lt r) (lte r)) of
        (Some lower, Some upper) \<Rightarrow>
          compareBytes lower upper > 0 \<or> compareBytes lower upper = 0 \<and> (gt r \<noteq> None \<or> lt r \<noteq> None)
      | _ \<Rightarrow> False)"

definition has_bounds :: "range \<Rightarrow> bool" where
  "has_bounds r \<longleftrightarrow> gt r \<noteq> None \<or> gte r \<noteq> None \<or> lt r \<noteq> None \<or> lte r \<noteq> None"

section \<open>Access plans\<close>

datatype PlanAccess = PrimaryKeyLookup | PrimaryKeyRange | IndexLookup | IndexRange | TableScan

datatype PlanSort = NoSort | MemorySort

record SqlQueryPlan =
  plan_table :: jsstring
  plan_access :: PlanAccess
  plan_column :: "jsstring option"
  plan_index :: "jsstring option"
  plan_sort :: PlanSort
  plan_reason :: jsstring

record AccessPlan =
  public :: SqlQueryPlan
  access_key :: "bytes option"
  access_range :: "range option"
  access_empty :: bool

text \<open>A candidate is a column with the index that covers it, or the primary key column.\<close>

type_synonym candidate = "SqlColumnDefinition \<times> NormalizedIndexDef option"

definition traversalOrder ::
  "TableSchema \<Rightarrow> SqlColumnDefinition \<Rightarrow> NormalizedIndexDef option \<Rightarrow> (jsstring \<times> SqlDirection) list \<Rightarrow> bytes option \<Rightarrow> bool" where
  "traversalOrder schema column index orders key =
     (case orders of
        [] \<Rightarrow> True
      | (name, direction) # others \<Rightarrow>
          if key \<noteq> None \<and> index = None then True
          else if name \<noteq> column_name column then False
          else (case index of
            None \<Rightarrow> others = []
          | Some d \<Rightarrow>
              if column_type column = IntegerType \<and> key = None then False
              else if others = [] then direction = Asc \<or> def_unique d \<and> \<not> column_nullable column
              else (case others of
                      [(name2, direction2)] \<Rightarrow>
                        (case primaryColumn schema of Some p \<Rightarrow> name2 = column_name p | None \<Rightarrow> False) \<and> direction2 = direction
                    | _ \<Rightarrow> False)))"

definition plan_candidates :: "TableSchema \<Rightarrow> NormalizedIndexDef list \<Rightarrow> candidate list" where
  "plan_candidates schema indexes =
     (case primaryColumn schema of None \<Rightarrow> [] | Some p \<Rightarrow> [(p, None)]) @
     concat (map (\<lambda>d.
       if def_store d = schema_table schema \<and> \<not> def_compound d \<and> length (def_keyPath d) = 1 \<and> 0x2e \<notin> set (hd (def_keyPath d))
       then (case find (\<lambda>c. column_name c = hd (def_keyPath d)) (schema_columns schema) of
               None \<Rightarrow> [] | Some c \<Rightarrow> [(c, Some d)])
       else []) indexes)"

definition selects :: "SqlColumnDefinition \<Rightarrow> bool \<Rightarrow> comparison \<Rightarrow> bool" where
  "selects column equalityOnly entry =
     (case entry of (name, operator, _) \<Rightarrow> name = column_name column \<and>
        (if equalityOnly then operator = OpEq else operator \<in> {OpLt, OpLe, OpGt, OpGe}))"

text \<open>The loop over the comparisons of one candidate: a key for an equality, or the bounds of a range.\<close>

fun bounds_loop ::
  "SqlColumnDefinition \<Rightarrow> bool \<Rightarrow> bool \<Rightarrow> SqlValue list \<Rightarrow> comparison list \<Rightarrow> range \<Rightarrow> (bytes option \<times> range) result" where
  "bounds_loop column secondary equalityOnly parameters [] r = Inr (None, r)"
| "bounds_loop column secondary equalityOnly parameters ((name, operator, expression) # entries) r =
     bindr (resolveSqlValue expression parameters) (\<lambda>v.
     bindr (planKey column v secondary equalityOnly) (\<lambda>encoded.
       case encoded of
         None \<Rightarrow> bounds_loop column secondary equalityOnly parameters entries r
       | Some key \<Rightarrow>
           if equalityOnly then Inr (Some key, r)
           else bounds_loop column secondary equalityOnly parameters entries (setRangeBound r operator key)))"

definition index_name :: "NormalizedIndexDef option \<Rightarrow> jsstring option" where
  "index_name index = map_option def_name index"

definition target_text :: "NormalizedIndexDef option \<Rightarrow> jsstring" where
  "target_text index = (case index of None \<Rightarrow> js ''primary key'' | Some d \<Rightarrow> js ''index '' @ def_name d)"

definition descending :: "(jsstring \<times> SqlDirection) list \<Rightarrow> bool" where
  "descending orders = (case orders of (_, Desc) # _ \<Rightarrow> True | _ \<Rightarrow> False)"

definition bounded_plan ::
  "TableSchema \<Rightarrow> candidate \<Rightarrow> bool \<Rightarrow> (jsstring \<times> SqlDirection) list \<Rightarrow> bytes option \<Rightarrow> range \<Rightarrow> AccessPlan" where
  "bounded_plan schema candidate equalityOnly orderBy key r =
     (let (column, index) = candidate;
          access = (case index of Some _ \<Rightarrow> if equalityOnly then IndexLookup else IndexRange
                    | None \<Rightarrow> if equalityOnly then PrimaryKeyLookup else PrimaryKeyRange);
          ordered = traversalOrder schema column index orderBy key;
          r' = (if ordered \<and> descending orderBy then r\<lparr>reverse := Some True\<rparr> else r)
      in \<lparr>public = \<lparr>plan_table = schema_table schema, plan_access = access, plan_column = Some (column_name column),
            plan_index = index_name index, plan_sort = (if ordered then NoSort else MemorySort),
            plan_reason = js ''use '' @ target_text index @ js '' for '' @ (if equalityOnly then js ''equality'' else js ''range'') @
              js ''; apply remaining predicates after lookup''\<rparr>,
          access_key = key, access_range = Some r', access_empty = (key = None \<and> emptyRange r')\<rparr>)"

fun bounded_candidates ::
  "TableSchema \<Rightarrow> comparison list \<Rightarrow> (jsstring \<times> SqlDirection) list \<Rightarrow> SqlValue list \<Rightarrow> bool \<Rightarrow> candidate list \<Rightarrow>
     AccessPlan option result" where
  "bounded_candidates schema comparisons orderBy parameters equalityOnly [] = Inr None"
| "bounded_candidates schema comparisons orderBy parameters equalityOnly ((column, index) # candidates) =
     bindr (bounds_loop column (index \<noteq> None) equalityOnly parameters (filter (selects column equalityOnly) comparisons) empty_range) (\<lambda>(key, r).
       if key = None \<and> \<not> has_bounds r then bounded_candidates schema comparisons orderBy parameters equalityOnly candidates
       else Inr (Some (bounded_plan schema (column, index) equalityOnly orderBy key r)))"

definition ordered_plan :: "TableSchema \<Rightarrow> candidate \<Rightarrow> (jsstring \<times> SqlDirection) list \<Rightarrow> AccessPlan" where
  "ordered_plan schema candidate orderBy =
     (let (column, index) = candidate
      in \<lparr>public = \<lparr>plan_table = schema_table schema, plan_access = (if index = None then TableScan else IndexRange),
            plan_column = Some (column_name column), plan_index = index_name index, plan_sort = NoSort,
            plan_reason = js ''use '' @ target_text index @ js '' traversal order''\<rparr>,
          access_key = None, access_range = Some (empty_range\<lparr>reverse := Some (descending orderBy)\<rparr>), access_empty = False\<rparr>)"

definition scan_plan :: "TableSchema \<Rightarrow> (jsstring \<times> SqlDirection) list \<Rightarrow> AccessPlan" where
  "scan_plan schema orderBy =
     \<lparr>public = \<lparr>plan_table = schema_table schema, plan_access = TableScan, plan_column = None, plan_index = None,
        plan_sort = (if orderBy = [] then NoSort else MemorySort),
        plan_reason = js ''no supported primary key or index bound; filter table rows''\<rparr>,
      access_key = None, access_range = None, access_empty = False\<rparr>"

definition planAccess ::
  "TableSchema \<Rightarrow> SqlExpression option \<Rightarrow> (jsstring \<times> SqlDirection) list \<Rightarrow> SqlValue list \<Rightarrow> NormalizedIndexDef list \<Rightarrow>
     AccessPlan result" where
  "planAccess schema expression orderBy parameters indexes =
     (let comparisons = conjunctiveComparisons expression; candidates = plan_candidates schema indexes in
      bindr (bounded_candidates schema comparisons orderBy parameters True candidates) (\<lambda>found.
      case found of
        Some plan \<Rightarrow> Inr plan
      | None \<Rightarrow>
          bindr (bounded_candidates schema comparisons orderBy parameters False candidates) (\<lambda>found'.
          case found' of
            Some plan \<Rightarrow> Inr plan
          | None \<Rightarrow>
              Inr (case (if orderBy = [] then None
                     else find (\<lambda>(column, index). traversalOrder schema column index orderBy None) candidates) of
                Some candidate \<Rightarrow> ordered_plan schema candidate orderBy
              | None \<Rightarrow> scan_plan schema orderBy))))"

section \<open>Validated predicates evaluate\<close>

definition schema_ok :: "TableSchema \<Rightarrow> bool" where
  "schema_ok schema \<longleftrightarrow> distinct_columns schema \<and>
     list_all (\<lambda>c. column_primaryKey c \<longrightarrow> \<not> column_nullable c) (schema_columns schema) \<and>
     length (filter column_primaryKey (schema_columns schema)) \<le> 1"

lemma getColumn_in: "getColumn schema name = Inr c \<Longrightarrow> c \<in> set (schema_columns schema) \<and> column_name c = name"
  by (auto simp: getColumn_def find_Some_iff split: option.splits)

lemma as_nullable_simps [simp]:
  "column_type (as_nullable c) = column_type c" "column_nullable (as_nullable c)" "column_name (as_nullable c) = column_name c"
  by (simp_all add: as_nullable_def)

lemma normalized_nullable: "normalized c v \<Longrightarrow> normalized (as_nullable c) v"
  unfolding normalized_def by (cases v) (auto simp: normalizeValue_simps normalizeValue_numbers split: if_splits)

lemma primaryKey_nullable [simp]: "primaryKey (as_nullable c) v = primaryKey c v"
  by (simp add: primaryKey_def)

text \<open>Normalization keeps the place of a value in the order.\<close>

lemma f64_integer_scaled: "f64_is_integer n \<Longrightarrow> f64_scaled n = f64_int n * f64_unit"
  by (simp add: f64_is_integer_def f64_int_def) (metis add.right_neutral div_mult_mod_eq)

lemma compareValues_numeric:
  "is_numeric w \<Longrightarrow> is_numeric n \<Longrightarrow> scaled_value w = scaled_value n \<Longrightarrow> compareValues v w = compareValues v n"
  by (cases v; cases w; cases n) (auto simp: compareValues_def)

lemma compareValues_normalized:
  assumes "normalizeValue c w = Inr n"
  shows "compareValues v w = compareValues v n"
  using assms
proof (cases rule: normalizeValue_cases)
  case (integer i)
  have s: "scaled_value n = i * f64_unit" "is_numeric n"
    using integer(5) f64_of_int_scaled(1) [of i] by (auto simp: is_safe_def)
  have "scaled_value w = i * f64_unit" "is_numeric w"
    using integer(2) f64_integer_scaled by (auto simp: f64_is_safe_integer_def)
  then show ?thesis using s by (intro compareValues_numeric) auto
next
  case (real m)
  have "f64_scaled (2 ^ 63) = 0" "f64_scaled 0 = 0"
    by (simp_all add: f64_scaled_def f64_mag_def)
  then have "scaled_value w = scaled_value n" "is_numeric w" "is_numeric n"
    using real f64_integer_scaled by auto
  then show ?thesis by (intro compareValues_numeric)
qed simp_all

lemma numeric_column:
  assumes "normalized c v" and "column_type c = IntegerType \<or> column_type c = RealType" and "v \<noteq> SqlNull"
  shows "is_numeric v"
  using assms by (cases rule: normalized_cases) auto

lemma validated_compares:
  assumes "validateWhere schema (Comparison name operator ex) ps = Inr ()" and "row_ok schema row"
  obtains c w where "getColumn schema name = Inr c" "c \<in> set (schema_columns schema)" "column_name c = name" "resolveSqlValue ex ps = Inr w"
    "normalized c (column_value row name)"
    "column_value row name \<noteq> SqlNull \<Longrightarrow> w \<noteq> SqlNull \<Longrightarrow> \<exists>x. compareValues (column_value row name) w = Inr x"
proof -
  obtain c w where c: "getColumn schema name = Inr c" "resolveSqlValue ex ps = Inr w"
    using assms(1) by (auto simp: bindr_eq_Inr)
  then have in_schema: "c \<in> set (schema_columns schema)" "column_name c = name" using getColumn_in by blast+
  then have n: "normalized c (column_value row name)" using row_ok_normalized [OF assms(2)] by blast
  have "\<exists>x. compareValues (column_value row name) w = Inr x" if "column_value row name \<noteq> SqlNull" "w \<noteq> SqlNull"
  proof (cases "column_type c = IntegerType \<or> column_type c = RealType")
    case True
    note nn = that
    have "is_numeric w" using assms(1) c nn(2) True by (cases w) auto
    then show ?thesis using numeric_column [OF n True nn(1)] nn by (simp add: compareValues_def)
  next
    case False
    note nn = that
    obtain m where m: "normalizeValue (as_nullable c) w = Inr m"
      using assms(1) c nn(2) False by (auto simp: bindr_eq_Inr)
    have mn: "m \<noteq> SqlNull" using m nn(2) by (cases rule: normalizeValue_cases) auto
    obtain x where "compareValues (column_value row name) m = Inr x"
      using compareValues_part [OF normalized_nullable [OF n] normalizeValue_normalized [OF m] _ _ mn] False nn(1) by (metis as_nullable_simps(1))
    then show ?thesis using compareValues_normalized [OF m] by auto
  qed
  then show thesis using that [OF c(1) in_schema c(2) n] by blast
qed

lemma evaluateWhere_total:
  "validateWhere schema e ps = Inr () \<Longrightarrow> row_ok schema row \<Longrightarrow> \<exists>t. evaluateWhere row e ps = Inr t"
proof (induction e)
  case (Comparison name operator ex)
  obtain c w where w: "resolveSqlValue ex ps = Inr w"
    "column_value row name \<noteq> SqlNull \<Longrightarrow> w \<noteq> SqlNull \<Longrightarrow> \<exists>x. compareValues (column_value row name) w = Inr x"
    using validated_compares [OF Comparison] by metis
  then show ?case by (auto simp: Let_def)
next
  case (AndExpr l e)
  then obtain t u where "evaluateWhere row l ps = Inr t" "evaluateWhere row e ps = Inr u" by (auto simp: bindr_eq_Inr)
  then show ?case by simp
next
  case (OrExpr l e)
  then obtain t u where "evaluateWhere row l ps = Inr t" "evaluateWhere row e ps = Inr u" by (auto simp: bindr_eq_Inr)
  then show ?case by simp
qed simp

lemma evaluateWhere_conjuncts:
  "evaluateWhere row e ps = Inr (Some True) \<Longrightarrow> (name, operator, ex) \<in> set (conjuncts e) \<Longrightarrow>
   evaluateWhere row (Comparison name operator ex) ps = Inr (Some True)"
  by (induction e rule: conjuncts.induct) (auto simp: bindr_eq_Inr split: if_splits simp del: evaluateWhere.simps(4))

lemma validateWhere_conjuncts:
  "validateWhere schema e ps = Inr () \<Longrightarrow> (name, operator, ex) \<in> set (conjuncts e) \<Longrightarrow>
   validateWhere schema (Comparison name operator ex) ps = Inr ()"
  by (induction e rule: conjuncts.induct) (auto simp: bindr_eq_Inr simp del: validateWhere.simps(4))

section \<open>Bounds cover the accepted rows\<close>

fun op_rel :: "SqlComparisonOperator \<Rightarrow> bytes \<Rightarrow> bytes \<Rightarrow> bool" where
  "op_rel OpEq a k = (a = k)"
| "op_rel OpNe a k = (a \<noteq> k)"
| "op_rel OpLt a k = (a < k)"
| "op_rel OpLe a k = (a \<le> k)"
| "op_rel OpGt a k = (k < a)"
| "op_rel OpGe a k = (k \<le> a)"

lemma agrees_op_rel: "agrees x a k \<Longrightarrow> operator_holds operator x \<Longrightarrow> op_rel operator a k"
  unfolding agrees_def by (cases operator; cases a k rule: linorder_cases) auto

text \<open>The key of a row value: its primary key or its index key.\<close>

definition value_key :: "SqlColumnDefinition \<Rightarrow> bool \<Rightarrow> SqlValue \<Rightarrow> bytes result" where
  "value_key c secondary v = (if secondary then encodeCompoundKeyPart (stored_part v) else primaryKey c v)"

lemma planKey_covers:
  assumes "normalized c v" and "planKey c w secondary equality = Inr (Some k)" and "equality \<longrightarrow> operator = OpEq"
    and "v \<noteq> SqlNull" and "compareValues v w = Inr x" and "operator_holds operator x"
  obtains a where "value_key c secondary v = Inr a" "op_rel operator a k"
proof -
  have w: "w \<noteq> SqlNull" using assms(2) by (auto simp: planKey_def)
  obtain n where n: "normalizeValue (as_nullable c) w = Inr n"
    and k: "(if secondary then encodeCompoundKeyPart (stored_part n) else primaryKey c n) = Inr k"
    using assms(2) by (auto simp: planKey_def Let_def bindr_eq_Inr indexKey_def split: if_splits SqlValue.splits)
  have nn: "n \<noteq> SqlNull" using n w by (cases rule: normalizeValue_cases) auto
  note norm = normalized_nullable [OF assms(1)] normalizeValue_normalized [OF n]
  have x: "compareValues v n = Inr x" using assms(5) compareValues_normalized [OF n] by simp
  show thesis
  proof (cases secondary)
    case False
    obtain y a b where "compareValues v n = Inr y" "primaryKey c v = Inr a" "primaryKey c n = Inr b" "agrees y a b"
      using primaryKey_order [OF norm assms(4) nn] by (metis primaryKey_nullable)
    then show thesis using that [of a] x k False agrees_op_rel [of x a k] assms(6) by (simp add: value_key_def)
  next
    case True
    obtain a where a: "encodeCompoundKeyPart (stored_part v) = Inr a" using stored_part_encoded [OF assms(1)] by blast
    have "op_rel operator a k"
    proof (cases "column_type c = IntegerType")
      case False
      obtain y where "compareValues v n = Inr y" "agrees y a k"
        using index_key_order [OF norm _ a] k True False by (metis as_nullable_simps(1))
      then show ?thesis using x agrees_op_rel assms(6) by simp
    next
      case integer: True
      then have "equality" using assms(2) True w by (auto simp: planKey_def Let_def split: if_splits)
      then have "x = 0" using assms(3,6) by simp
      then have "v = n" using primaryKey_order [OF norm assms(4) nn] x by (metis Inr_inject)
      then show ?thesis using index_key_equal [OF norm a] k True \<open>equality\<close> assms(3) by simp
    qed
    then show thesis using that [of a] a True by (simp add: value_key_def)
  qed
qed

lemma setRangeBound_covers: "in_range a r \<Longrightarrow> op_rel operator a k \<Longrightarrow> in_range a (setRangeBound r operator k)"
  by (cases operator) (auto simp: setRangeBound_def in_range_def Let_def split: option.splits)

lemma emptyRange_none: "emptyRange r \<Longrightarrow> \<not> in_range a r"
  using compareBytes_iff compareBytes_sym
  by (auto simp: emptyRange_def in_range_def first_bound_def split: option.splits)

lemma bounds_loop_covers:
  assumes "bounds_loop c secondary equalityOnly ps entries r = Inr (key, r')"
    and "\<And>name operator ex. (name, operator, ex) \<in> set entries \<Longrightarrow> (equalityOnly \<longrightarrow> operator = OpEq) \<and>
        (\<exists>w x. resolveSqlValue ex ps = Inr w \<and> compareValues v w = Inr x \<and> operator_holds operator x)"
    and "normalized c v" and "v \<noteq> SqlNull" and "value_key c secondary v = Inr a" and "in_range a r"
  shows "in_range a r' \<and> (\<forall>k. key = Some k \<longrightarrow> a = k)"
  using assms
proof (induction entries arbitrary: r)
  case (Cons entry entries)
  obtain name operator ex where e: "entry = (name, operator, ex)" by (cases entry)
  obtain w x where w: "resolveSqlValue ex ps = Inr w" "compareValues v w = Inr x" "operator_holds operator x" and eq: "equalityOnly \<longrightarrow> operator = OpEq"
    using Cons.prems(2) [of name operator ex] e by auto
  obtain k where k: "planKey c w secondary equalityOnly = Inr k" using Cons.prems(1) e w by (auto simp: bindr_eq_Inr)
  show ?case
  proof (cases k)
    case None
    then have "bounds_loop c secondary equalityOnly ps entries r = Inr (key, r')" using Cons.prems(1) e w k by simp
    then show ?thesis using Cons.IH [OF _ _ Cons.prems(3-6)] Cons.prems(2) by (metis list.set_intros(2))
  next
    case (Some b)
    have rel: "op_rel operator a b"
      using planKey_covers [OF Cons.prems(3) k [unfolded Some] eq Cons.prems(4) w(2,3)] Cons.prems(5) by (metis Inr_inject)
    show ?thesis
    proof (cases equalityOnly)
      case True
      then show ?thesis using Cons.prems(1,6) e w k Some rel eq by auto
    next
      case False
      then have "bounds_loop c secondary equalityOnly ps entries (setRangeBound r operator b) = Inr (key, r')"
        using Cons.prems(1) e w k Some by simp
      then show ?thesis
        using Cons.IH [OF _ _ Cons.prems(3-5) setRangeBound_covers [OF Cons.prems(6) rel]] Cons.prems(2) by (metis list.set_intros(2))
    qed
  qed
qed simp

section \<open>Access plans cover the accepted rows\<close>

text \<open>A row \<open>item\<close> as it is stored: normalized values, its bytes, and its key.\<close>

definition stored_row :: "TableSchema \<Rightarrow> SqlRow \<Rightarrow> bytes \<Rightarrow> bytes \<Rightarrow> bool" where
  "stored_row schema row key bs \<longleftrightarrow> row_ok schema row \<and> encodeRow schema row = Inr bs \<and> key_matches schema row key"

definition in_access :: "AccessPlan \<Rightarrow> bytes \<Rightarrow> bool" where
  "in_access plan a \<longleftrightarrow>
     (case access_key plan of Some k \<Rightarrow> a = k
      | None \<Rightarrow> (case access_range plan of None \<Rightarrow> True | Some r \<Rightarrow> in_range a r))"

text \<open>
  The rows an access plan visits: through an index, the rows whose logical key under its definition is
  the looked up key or in the range; else the rows whose own key is.
\<close>

definition plan_covers :: "TableSchema \<Rightarrow> NormalizedIndexDef list \<Rightarrow> AccessPlan \<Rightarrow> bytes \<Rightarrow> bytes \<Rightarrow> bool" where
  "plan_covers schema indexes plan key bs \<longleftrightarrow> \<not> access_empty plan \<and>
     (case plan_index (public plan) of
        None \<Rightarrow> in_access plan key
      | Some name \<Rightarrow>
          \<exists>d a. d \<in> set indexes \<and> def_store d = schema_table schema \<and> def_name d = name \<and>
            extractLogicalIndexKey d bs = Inr (Some a) \<and> in_access plan a)"

lemma index_key_of_row:
  assumes "schema_ok schema" and "stored_row schema row key bs" and "c \<in> set (schema_columns schema)"
    and "\<not> def_compound d" "def_keyPath d = [column_name c]" "0x2e \<notin> set (column_name c)"
  obtains a where "extractLogicalIndexKey d bs = Inr (Some a)" "encodeCompoundKeyPart (stored_part (column_value row (column_name c))) = Inr a"
proof -
  have dc: "distinct_columns schema" using assms(1) by (simp add: schema_ok_def)
  have row: "row_ok schema row" "encodeRow schema row = Inr bs" using assms(2) by (simp_all add: stored_row_def)
  obtain ps where ps: "stored_object schema row = VObject ps" "map_of ps = map_of (stored_pairs schema row)"
    using stored_object_facts [OF dc] by metis
  have json: "json_ok (stored_object schema row)" by (rule stored_object_json [OF dc row(1)])
  have "bs = text_encode (ok_text (stored_object schema row))" using row(2) jsonEncode_ok [OF json] by (simp add: encodeRow_def)
  then have "jsonDecode bs = Inr (VObject ps)" using jsonDecode_encoded [OF json] ps(1) by simp
  then have doc: "decodeIndexedDocument bs = Inr (VObject ps)"
    by (auto simp: jsonDecode_def decodeIndexedDocument_def split: option.splits)
  have "resolveKeyPath (VObject ps) (column_name c) = Some (storedValue (column_value row (column_name c)))"
    using map_of_stored [OF dc assms(3)] by (simp add: resolveKeyPath_def split_on_none [OF assms(6)] is_object_def own_property_def ps(2))
  moreover obtain a where a: "encodeCompoundKeyPart (stored_part (column_value row (column_name c))) = Inr a"
    using stored_part_encoded [OF row_ok_normalized [OF row(1) assms(3)]] by blast
  ultimately have "extractLogicalIndexKey d bs = Inr (Some a)"
    using assms(4,5) by (simp add: extractLogicalIndexKey_def doc extractLogicalIndexKeyFromDocument_def encodeDocumentIndexValue_def
        stored_part_scalar encodeIndexScalar_def)
  then show thesis using that a by blast
qed

lemma find_SomeD: "find P xs = Some x \<Longrightarrow> x \<in> set xs \<and> P x"
  by (auto simp: find_Some_iff)

lemma Some_findD: "Some x = find P xs \<Longrightarrow> x \<in> set xs \<and> P x"
  by (drule sym) (rule find_SomeD)

lemma plan_candidates_member:
  assumes "(c, index) \<in> set (plan_candidates schema indexes)"
  shows "c \<in> set (schema_columns schema) \<and>
    (case index of None \<Rightarrow> primaryColumn schema = Some c
     | Some d \<Rightarrow> d \<in> set indexes \<and> def_store d = schema_table schema \<and> \<not> def_compound d \<and> def_keyPath d = [column_name c] \<and> 0x2e \<notin> set (column_name c))"
proof (cases index)
  case None
  then have "primaryColumn schema = Some c" using assms by (auto simp: plan_candidates_def split: option.splits if_splits)
  then show ?thesis using None find_SomeD [of column_primaryKey "schema_columns schema" c] by (simp add: primaryColumn_def)
next
  case (Some d)
  then show ?thesis
    using assms by (auto simp: plan_candidates_def length_Suc_conv split: option.splits if_splits dest!: Some_findD)
qed

text \<open>The key of a row for a candidate.\<close>

lemma candidate_key:
  assumes "schema_ok schema" and "stored_row schema row key bs" and "(c, index) \<in> set (plan_candidates schema indexes)"
  obtains a where "value_key c (index \<noteq> None) (column_value row (column_name c)) = Inr a"
    "case index of None \<Rightarrow> a = key | Some d \<Rightarrow> d \<in> set indexes \<and> def_store d = schema_table schema \<and> extractLogicalIndexKey d bs = Inr (Some a)"
proof (cases index)
  case None
  then have "primaryColumn schema = Some c" using plan_candidates_member [OF assms(3)] by simp
  then have "primaryKey c (column_value row (column_name c)) = Inr key" using assms(2) by (simp add: stored_row_def key_matches_def)
  then show thesis using that [of key] None by (simp add: value_key_def)
next
  case (Some d)
  then have d: "c \<in> set (schema_columns schema)" "d \<in> set indexes" "def_store d = schema_table schema" "\<not> def_compound d" "def_keyPath d = [column_name c]"
    "0x2e \<notin> set (column_name c)" using plan_candidates_member [OF assms(3)] by simp_all
  obtain a where "extractLogicalIndexKey d bs = Inr (Some a)" "encodeCompoundKeyPart (stored_part (column_value row (column_name c))) = Inr a"
    using index_key_of_row [OF assms(1,2) d(1,4,5,6)] by metis
  then show thesis using that [of a] Some d by (simp add: value_key_def)
qed

text \<open>The comparisons of an accepted row all hold.\<close>

definition comparisons_hold :: "SqlRow \<Rightarrow> comparison list \<Rightarrow> SqlValue list \<Rightarrow> bool" where
  "comparisons_hold row entries ps \<longleftrightarrow>
     (\<forall>name operator ex. (name, operator, ex) \<in> set entries \<longrightarrow> evaluateWhere row (Comparison name operator ex) ps = Inr (Some True))"

lemma comparison_holds:
  assumes "evaluateWhere row (Comparison name operator ex) ps = Inr (Some True)"
  shows "column_value row name \<noteq> SqlNull \<and>
    (\<exists>w x. resolveSqlValue ex ps = Inr w \<and> compareValues (column_value row name) w = Inr x \<and> operator_holds operator x)"
  using assms by (auto simp: Let_def bindr_eq_Inr split: if_splits)

lemma bounds_loop_none: "bounds_loop c secondary equalityOnly ps [] r = Inr (key, r') \<Longrightarrow> key = None \<and> r' = r"
  by simp

lemma bounds_loop_equality: "bounds_loop c secondary True ps entries r = Inr (key, r') \<Longrightarrow> r' = r"
  by (induction entries) (auto simp: bindr_eq_Inr split: option.splits)

lemma in_range_reverse [simp]: "in_range a (r\<lparr>reverse := x\<rparr>) = in_range a r"
  by (simp add: in_range_def)

lemma emptyRange_reverse [simp]: "emptyRange (r\<lparr>reverse := x\<rparr>) = emptyRange r"
  by (auto simp: emptyRange_def split: option.split)

lemma in_range_empty [simp]: "in_range a empty_range"
  by (simp add: in_range_def empty_range_def)

lemma bounded_candidates_covers:
  assumes "bounded_candidates schema comparisons orderBy ps equalityOnly candidates = Inr (Some plan)"
    and "set candidates \<subseteq> set (plan_candidates schema indexes)" and "comparisons_hold row comparisons ps"
    and "schema_ok schema" and "stored_row schema row key bs"
  shows "plan_covers schema indexes plan key bs"
  using assms
proof (induction candidates)
  case (Cons cand candidates)
  obtain c index where cand: "cand = (c, index)" by (cases cand)
  let ?entries = "filter (selects c equalityOnly) comparisons"
  obtain k r where loop: "bounds_loop c (index \<noteq> None) equalityOnly ps ?entries empty_range = Inr (k, r)"
    using Cons.prems(1) cand by (auto simp: bindr_eq_Inr)
  show ?case
  proof (cases "k = None \<and> \<not> has_bounds r")
    case True
    then show ?thesis using Cons cand loop by simp
  next
    case False
    then have plan: "plan = bounded_plan schema (c, index) equalityOnly orderBy k r" using Cons.prems(1) cand loop by auto
    have "?entries \<noteq> []"
    proof
      assume "?entries = []"
      then have "k = None \<and> r = empty_range" using loop by simp
      then show False using False by (simp add: has_bounds_def empty_range_def)
    qed
    then obtain entry where "entry \<in> set ?entries" by (cases ?entries) auto
    moreover obtain name operator ex where "entry = (name, operator, ex)" by (cases entry)
    ultimately have first: "(name, operator, ex) \<in> set comparisons" "name = column_name c" by (auto simp: selects_def)
    then have "evaluateWhere row (Comparison name operator ex) ps = Inr (Some True)" using Cons.prems(3) by (auto simp: comparisons_hold_def)
    then have v: "column_value row (column_name c) \<noteq> SqlNull" using first(2) comparison_holds by blast
    have member: "(c, index) \<in> set (plan_candidates schema indexes)" using Cons.prems(2) cand by simp
    have n: "normalized c (column_value row (column_name c))"
      using Cons.prems(5) plan_candidates_member [OF member] row_ok_normalized by (auto simp: stored_row_def)
    obtain a where a: "value_key c (index \<noteq> None) (column_value row (column_name c)) = Inr a"
      "case index of None \<Rightarrow> a = key | Some d \<Rightarrow> d \<in> set indexes \<and> def_store d = schema_table schema \<and> extractLogicalIndexKey d bs = Inr (Some a)"
      by (rule candidate_key [OF Cons.prems(4,5) member])
    have hold: "(equalityOnly \<longrightarrow> operator = OpEq) \<and>
        (\<exists>w x. resolveSqlValue ex ps = Inr w \<and> compareValues (column_value row (column_name c)) w = Inr x \<and> operator_holds operator x)"
      if "(name, operator, ex) \<in> set ?entries" for name operator ex
    proof -
      have "(name, operator, ex) \<in> set comparisons" "name = column_name c" "equalityOnly \<longrightarrow> operator = OpEq"
        using that by (auto simp: selects_def split: if_splits)
      moreover then have "evaluateWhere row (Comparison name operator ex) ps = Inr (Some True)"
        using Cons.prems(3) by (auto simp: comparisons_hold_def)
      ultimately show ?thesis using comparison_holds by blast
    qed
    have cover: "in_range a r \<and> (\<forall>k'. k = Some k' \<longrightarrow> a = k')"
      by (rule bounds_loop_covers [OF loop hold n v a(1)]) simp_all
    then have "\<not> (k = None \<and> emptyRange r)" using emptyRange_none by blast
    then show ?thesis
      using cover a(2)
      by (cases index) (auto simp: plan plan_covers_def bounded_plan_def Let_def in_access_def index_name_def split: option.splits if_splits)
  qed
qed simp

lemma planAccess_covers:
  assumes "planAccess schema expression orderBy ps indexes = Inr plan" and "schema_ok schema" and "stored_row schema row key bs"
    and "\<And>e. expression = Some e \<Longrightarrow> evaluateWhere row e ps = Inr (Some True)"
  shows "plan_covers schema indexes plan key bs"
proof -
  have hold: "comparisons_hold row (conjunctiveComparisons expression) ps"
    using assms(4) evaluateWhere_conjuncts by (cases expression) (auto simp: comparisons_hold_def conjunctiveComparisons_def simp del: evaluateWhere.simps)
  note bounded = bounded_candidates_covers [OF _ subset_refl hold assms(2,3)]
  obtain first where first: "bounded_candidates schema (conjunctiveComparisons expression) orderBy ps True (plan_candidates schema indexes) = Inr first"
    using assms(1) by (auto simp: planAccess_def Let_def bindr_eq_Inr)
  show ?thesis
  proof (cases first)
    case (Some p)
    then show ?thesis using assms(1) first bounded by (auto simp: planAccess_def Let_def)
  next
    case None
    then obtain second where second: "bounded_candidates schema (conjunctiveComparisons expression) orderBy ps False (plan_candidates schema indexes) = Inr second"
      using assms(1) first by (auto simp: planAccess_def Let_def bindr_eq_Inr)
    show ?thesis
    proof (cases second)
      case (Some p)
      then show ?thesis using assms(1) first None second bounded by (auto simp: planAccess_def Let_def)
    next
      case none: None
      have plan: "plan = (case (if orderBy = [] then None
          else find (\<lambda>(column, index). traversalOrder schema column index orderBy None) (plan_candidates schema indexes)) of
                Some candidate \<Rightarrow> ordered_plan schema candidate orderBy
              | None \<Rightarrow> scan_plan schema orderBy)"
        using assms(1) first None second none by (simp add: planAccess_def Let_def)
      show ?thesis
      proof (cases "if orderBy = [] then None
          else find (\<lambda>(column, index). traversalOrder schema column index orderBy None) (plan_candidates schema indexes)")
        case None
        then show ?thesis using plan by (simp add: scan_plan_def plan_covers_def in_access_def)
      next
        case (Some cand)
        obtain c index where cand: "cand = (c, index)" by (cases cand)
        have "cand \<in> set (plan_candidates schema indexes)"
          using Some by (cases "orderBy = []") (auto dest: find_SomeD [THEN conjunct1])
        then have member: "(c, index) \<in> set (plan_candidates schema indexes)" using cand by simp
        obtain a where "value_key c (index \<noteq> None) (column_value row (column_name c)) = Inr a"
          "case index of None \<Rightarrow> a = key | Some d \<Rightarrow> d \<in> set indexes \<and> def_store d = schema_table schema \<and> extractLogicalIndexKey d bs = Inr (Some a)"
          by (rule candidate_key [OF assms(2,3) member])
        then show ?thesis using plan Some cand
          by (cases index) (auto simp: ordered_plan_def plan_covers_def in_access_def index_name_def)
      qed
    qed
  qed
qed

section \<open>The order of rows\<close>

text \<open>A key that orders the values of a column, \<^verbatim>\<open>NULL\<close> first.\<close>

definition order_key :: "SqlColumnDefinition \<Rightarrow> SqlValue \<Rightarrow> bytes" where
  "order_key c v = (if v = SqlNull then [] else case primaryKey c v of Inr k \<Rightarrow> k | Inl _ \<Rightarrow> [])"

lemma be_bytes_8 [simp]: "be_bytes 8 n \<noteq> []"
  using length_be_bytes [of 8 n] by (cases "be_bytes 8 n") simp_all

lemma primaryKey_nonempty: "primaryKey c v = Inr k \<Longrightarrow> k \<noteq> []"
  by (auto simp: primaryKey_def bindr_eq_Inr u64Key_ok indexKey_def elim!: encodeCompoundKeyPart_cases split: if_splits SqlValue.splits)

lemma compareValues_order_key:
  assumes "normalized c v" "normalized c w"
  obtains x where "compareValues v w = Inr x" "agrees x (order_key c v) (order_key c w)"
proof (cases "v = SqlNull \<or> w = SqlNull")
  case False
  then obtain x a b where "compareValues v w = Inr x" "primaryKey c v = Inr a" "primaryKey c w = Inr b" "agrees x a b"
    using primaryKey_order [OF assms] by metis
  then show thesis using that False by (simp add: order_key_def)
next
  case True
  have k: "order_key c u \<noteq> []" if "normalized c u" "u \<noteq> SqlNull" for u
  proof -
    note u = that
    obtain a where "primaryKey c u = Inr a" by (rule primaryKey_order [OF u(1,1) u(2,2)])
    then show ?thesis using primaryKey_nonempty that(2) by (simp add: order_key_def)
  qed
  define x :: int where "x = (if v = SqlNull then if w = SqlNull then 0 else - 1 else 1)"
  have "compareValues v w = Inr x" using True by (auto simp: compareValues_def x_def)
  moreover have "agrees x (order_key c v) (order_key c w)"
    using True k [OF assms(1)] k [OF assms(2)]
    by (cases "order_key c v"; cases "order_key c w") (auto simp: agrees_def x_def order_key_def split: if_splits)
  ultimately show thesis using that by blast
qed

text \<open>The columns of an \<^verbatim>\<open>ORDER BY\<close> clause.\<close>

definition orders_ok :: "TableSchema \<Rightarrow> (jsstring \<times> SqlDirection) list \<Rightarrow> bool" where
  "orders_ok schema orders \<longleftrightarrow> (\<forall>(name, d) \<in> set orders. \<exists>c \<in> set (schema_columns schema). column_name c = name)"

definition stored_ok :: "TableSchema \<Rightarrow> StoredRow \<Rightarrow> bool" where
  "stored_ok schema r \<longleftrightarrow> row_ok schema (row_values r)"

lemma order_column:
  assumes "orders_ok schema ((name, d) # orders)" and "stored_ok schema a" "stored_ok schema b"
  obtains c x where "compareValues (column_value (row_values a) name) (column_value (row_values b) name) = Inr x"
    "agrees x (order_key c (column_value (row_values a) name)) (order_key c (column_value (row_values b) name))"
    "c \<in> set (schema_columns schema)" "column_name c = name"
proof -
  obtain c where c: "c \<in> set (schema_columns schema)" "column_name c = name" using assms(1) by (auto simp: orders_ok_def)
  then have "normalized c (column_value (row_values a) name)" "normalized c (column_value (row_values b) name)"
    using assms(2,3) row_ok_normalized by (auto simp: stored_ok_def)
  then show thesis using compareValues_order_key that c by metis
qed

definition row_le :: "(jsstring \<times> SqlDirection) list \<Rightarrow> StoredRow \<Rightarrow> StoredRow \<Rightarrow> bool" where
  "row_le orders a b \<longleftrightarrow> (\<exists>x. compareRows a b orders = Inr x \<and> x \<le> 0)"

lemma orders_ok_tl: "orders_ok schema (p # orders) \<Longrightarrow> orders_ok schema orders"
  by (simp add: orders_ok_def)

text \<open>Comparison of rows in terms of the keys of their first column.\<close>

lemma distinct_column: "schema_ok schema \<Longrightarrow> c \<in> set (schema_columns schema) \<Longrightarrow> c' \<in> set (schema_columns schema) \<Longrightarrow>
    column_name c = column_name c' \<Longrightarrow> c = c'"
  by (auto simp: schema_ok_def distinct_columns_def distinct_map inj_on_def)

definition column_key :: "TableSchema \<Rightarrow> jsstring \<Rightarrow> StoredRow \<Rightarrow> bytes" where
  "column_key schema name r =
     (case find (\<lambda>c. column_name c = name) (schema_columns schema) of
        Some c \<Rightarrow> order_key c (column_value (row_values r) name) | None \<Rightarrow> [])"

lemma compareRows_Cons:
  assumes "schema_ok schema" "orders_ok schema ((name, d) # orders)" "stored_ok schema a" "stored_ok schema b"
  obtains x where "compareValues (column_value (row_values a) name) (column_value (row_values b) name) = Inr x"
    "agrees x (column_key schema name a) (column_key schema name b)"
proof -
  obtain c x where c: "compareValues (column_value (row_values a) name) (column_value (row_values b) name) = Inr x"
    "agrees x (order_key c (column_value (row_values a) name)) (order_key c (column_value (row_values b) name))"
    "c \<in> set (schema_columns schema)" "column_name c = name" by (rule order_column [OF assms(2-4)])
  obtain c' where c': "find (\<lambda>c. column_name c = name) (schema_columns schema) = Some c'"
    using c(3,4) by (cases "find (\<lambda>c. column_name c = name) (schema_columns schema)") (auto simp: find_None_iff)
  then have "c' = c" using find_SomeD [OF c'] c(3,4) distinct_column [OF assms(1)] by blast
  then show thesis using that c c' by (simp add: column_key_def)
qed

lemma row_le_iff:
  assumes "schema_ok schema" "orders_ok schema orders" "stored_ok schema a" "stored_ok schema b"
  shows "row_le orders a b \<longleftrightarrow>
    (case orders of
       [] \<Rightarrow> row_key a \<le> row_key b
     | (name, d) # os \<Rightarrow>
         (if d = Desc then column_key schema name b < column_key schema name a else column_key schema name a < column_key schema name b) \<or>
         column_key schema name a = column_key schema name b \<and> row_le os a b)"
proof (cases orders)
  case Nil
  then show ?thesis
    using compareBytes_iff [of "row_key a" "row_key b"] by (auto simp: row_le_def le_less)
next
  case (Cons p os)
  obtain name d where p: "p = (name, d)" by (cases p)
  obtain x where x: "compareValues (column_value (row_values a) name) (column_value (row_values b) name) = Inr x"
    "agrees x (column_key schema name a) (column_key schema name b)"
    using compareRows_Cons [of schema name d os a b] assms Cons p by metis
  have "x > 0 \<longleftrightarrow> column_key schema name b < column_key schema name a" "x < 0 \<longleftrightarrow> column_key schema name a < column_key schema name b"
    "x = 0 \<longleftrightarrow> column_key schema name a = column_key schema name b"
    using x(2) by (cases "column_key schema name a" "column_key schema name b" rule: linorder_cases; auto simp: agrees_def)+
  then show ?thesis using Cons p x(1) by (cases d) (auto simp: row_le_def)
qed

lemma row_le_total:
  "schema_ok schema \<Longrightarrow> orders_ok schema orders \<Longrightarrow> stored_ok schema a \<Longrightarrow> stored_ok schema b \<Longrightarrow> row_le orders a b \<or> row_le orders b a"
proof (induction orders)
  case Nil
  then show ?case using row_le_iff [of schema "[]"] by auto
next
  case (Cons p os)
  obtain name d where p: "p = (name, d)" by (cases p)
  have "row_le os a b \<or> row_le os b a" using Cons orders_ok_tl by blast
  then show ?case using row_le_iff [OF Cons.prems(1,2)] Cons.prems(3,4) p
    by (cases "column_key schema name a" "column_key schema name b" rule: linorder_cases) auto
qed

lemma row_le_trans:
  assumes "schema_ok schema"
  shows "orders_ok schema orders \<Longrightarrow> stored_ok schema a \<Longrightarrow> stored_ok schema b \<Longrightarrow> stored_ok schema c \<Longrightarrow>
    row_le orders a b \<Longrightarrow> row_le orders b c \<Longrightarrow> row_le orders a c"
proof (induction orders)
  case Nil
  then show ?case using row_le_iff [OF assms] by auto
next
  case (Cons p os)
  obtain name d where p: "p = (name, d)" by (cases p)
  have "row_le os a b \<Longrightarrow> row_le os b c \<Longrightarrow> row_le os a c" using Cons.IH [OF orders_ok_tl [OF Cons.prems(1)] Cons.prems(2-4)] .
  then show ?case
    using Cons.prems(5,6) row_le_iff [OF assms Cons.prems(1)] Cons.prems(2-4) p by (cases d) (auto dest: less_trans)
qed

lemma compareRows_total:
  "schema_ok schema \<Longrightarrow> orders_ok schema orders \<Longrightarrow> stored_ok schema a \<Longrightarrow> stored_ok schema b \<Longrightarrow> \<exists>x. compareRows a b orders = Inr x"
proof (induction orders)
  case (Cons p os)
  obtain name d where p: "p = (name, d)" by (cases p)
  obtain x where "compareValues (column_value (row_values a) name) (column_value (row_values b) name) = Inr x"
    using compareRows_Cons [of schema name d os a b] Cons.prems p by metis
  then show ?case using Cons orders_ok_tl p by auto
qed simp

section \<open>Plans without a sort visit rows in order\<close>

text \<open>
  Where a traversal visits a stored row: by its key, or through an index by its logical key and then its key.
\<close>

definition logical_key :: "NormalizedIndexDef \<Rightarrow> bytes \<Rightarrow> bytes" where
  "logical_key d bs = (case extractLogicalIndexKey d bs of Inr (Some a) \<Rightarrow> a | _ \<Rightarrow> [])"

definition item_position :: "NormalizedIndexDef option \<Rightarrow> bytes \<times> bytes \<Rightarrow> bytes list" where
  "item_position index item = (case index of None \<Rightarrow> [fst item] | Some d \<Rightarrow> [logical_key d (snd item), fst item])"

definition visited_before :: "bool \<Rightarrow> NormalizedIndexDef option \<Rightarrow> bytes \<times> bytes \<Rightarrow> bytes \<times> bytes \<Rightarrow> bool" where
  "visited_before backwards index p q \<longleftrightarrow>
     (if backwards then item_position index q < item_position index p else item_position index p < item_position index q)"

text \<open>How the plans are built: the ranges are valid and without a limit, and a key comes with no bounds.\<close>

definition scan_range :: "range \<Rightarrow> bool" where
  "scan_range r \<longleftrightarrow> limit r = None \<and> (gt r = None \<or> gte r = None) \<and> (lt r = None \<or> lte r = None)"

lemma scan_range_simps [simp]:
  "scan_range empty_range" "scan_range (r\<lparr>reverse := b\<rparr>) \<longleftrightarrow> scan_range r" "scan_range r \<Longrightarrow> scan_range (setRangeBound r operator k)"
  by (auto simp: scan_range_def empty_range_def setRangeBound_def Let_def)

lemma bounds_loop_shape:
  "bounds_loop c secondary equalityOnly ps entries r = Inr (key, r') \<Longrightarrow>
     reverse r' = reverse r \<and> (scan_range r \<longrightarrow> scan_range r') \<and> (key \<noteq> None \<longrightarrow> equalityOnly \<and> r' = r)"
proof (induction entries arbitrary: r)
  case (Cons e entries)
  have set_bound: "reverse (setRangeBound r operator k) = reverse r" for r operator k
    by (simp_all add: setRangeBound_def Let_def)
  obtain name operator ex where e: "e = (name, operator, ex)" by (cases e)
  obtain w enc where w: "resolveSqlValue ex ps = Inr w" "planKey c w secondary equalityOnly = Inr enc"
    using Cons.prems e by (auto simp: bindr_eq_Inr)
  show ?case using Cons.prems Cons.IH e w bounds_loop_equality by (cases enc; cases equalityOnly) (fastforce simp: set_bound)+
qed simp

lemma bounded_candidates_shape:
  assumes "bounded_candidates schema comparisons orderBy ps equalityOnly candidates = Inr (Some plan)"
  obtains c index k r where "(c, index) \<in> set candidates" "plan = bounded_plan schema (c, index) equalityOnly orderBy k r"
    "reverse r = None" "scan_range r" "k \<noteq> None \<longrightarrow> r = empty_range"
proof -
  have "\<exists>c index k r. (c, index) \<in> set candidates \<and> plan = bounded_plan schema (c, index) equalityOnly orderBy k r \<and> reverse r = None \<and>
      scan_range r \<and> (k \<noteq> None \<longrightarrow> r = empty_range)"
    using assms
  proof (induction candidates)
    case (Cons cand candidates)
    obtain c index where cand: "cand = (c, index)" by (cases cand)
    obtain k r where l: "bounds_loop c (index \<noteq> None) equalityOnly ps (filter (selects c equalityOnly) comparisons) empty_range = Inr (k, r)"
      using Cons.prems cand by (auto simp: bindr_eq_Inr)
    show ?case
    proof (cases "k = None \<and> \<not> has_bounds r")
      case True
      then show ?thesis using Cons cand l by auto
    next
      case False
      then have "plan = bounded_plan schema (c, index) equalityOnly orderBy k r" using Cons.prems cand l by auto
      moreover have "reverse r = None" "scan_range r" "k \<noteq> None \<longrightarrow> r = empty_range"
        using bounds_loop_shape [OF l] scan_range_simps(1) by (simp_all add: empty_range_def)
      ultimately show ?thesis using cand by auto
    qed
  qed simp
  then show thesis using that by blast
qed

lemma planAccess_shape:
  assumes "planAccess schema expression orderBy ps indexes = Inr plan"
  obtains (bounded) c index equalityOnly k r where "(c, index) \<in> set (plan_candidates schema indexes)"
      "plan = bounded_plan schema (c, index) equalityOnly orderBy k r" "reverse r = None" "scan_range r" "k \<noteq> None \<longrightarrow> r = empty_range"
  | (ordered) c index where "(c, index) \<in> set (plan_candidates schema indexes)" "orderBy \<noteq> []"
      "traversalOrder schema c index orderBy None" "plan = ordered_plan schema (c, index) orderBy"
  | (scan) "plan = scan_plan schema orderBy"
proof -
  have found: thesis if "bounded_candidates schema comparisons orderBy ps equalityOnly (plan_candidates schema indexes) = Inr (Some plan)"
    for comparisons equalityOnly
    by (rule bounded_candidates_shape [OF that]) (rule bounded)
  obtain first where first: "bounded_candidates schema (conjunctiveComparisons expression) orderBy ps True (plan_candidates schema indexes) = Inr first"
    using assms(1) by (auto simp: planAccess_def Let_def bindr_eq_Inr)
  show thesis
  proof (cases first)
    case (Some p)
    then show ?thesis using assms(1) first found by (simp add: planAccess_def Let_def)
  next
    case None
    then obtain second where second: "bounded_candidates schema (conjunctiveComparisons expression) orderBy ps False (plan_candidates schema indexes) = Inr second"
      using assms(1) first by (auto simp: planAccess_def Let_def bindr_eq_Inr)
    show ?thesis
    proof (cases second)
      case (Some p)
      then show ?thesis using assms(1) first None second found by (simp add: planAccess_def Let_def)
    next
      case none: None
      let ?found = "if orderBy = [] then None else find (\<lambda>(column, index). traversalOrder schema column index orderBy None) (plan_candidates schema indexes)"
      have plan: "plan = (case ?found of Some candidate \<Rightarrow> ordered_plan schema candidate orderBy | None \<Rightarrow> scan_plan schema orderBy)"
        using assms(1) first None second none by (simp add: planAccess_def Let_def)
      show ?thesis
      proof (cases ?found)
        case None
        then show ?thesis using plan scan by (simp split: if_splits)
      next
        case (Some cand)
        then show ?thesis using plan ordered [of "fst cand" "snd cand"] by (auto split: if_splits dest!: find_SomeD)
      qed
    qed
  qed
qed

text \<open>The candidate behind a plan that needs no sort.\<close>

lemma planAccess_candidate:
  assumes "planAccess schema expression orderBy ps indexes = Inr plan" and "plan_sort (public plan) = NoSort" and "orderBy \<noteq> []"
  obtains c index r where "(c, index) \<in> set (plan_candidates schema indexes)" "plan_index (public plan) = index_name index"
    "traversalOrder schema c index orderBy (access_key plan)" "access_range plan = Some r" "reverse r = Some True \<longleftrightarrow> descending orderBy"
  using assms(1)
proof (cases rule: planAccess_shape)
  case (bounded c index equalityOnly k r)
  then have "traversalOrder schema c index orderBy k" using assms(2) by (auto simp: bounded_plan_def Let_def split: if_splits)
  then show thesis
    using bounded that [of c index "if descending orderBy then r\<lparr>reverse := Some True\<rparr> else r"] by (simp add: bounded_plan_def Let_def)
next
  case (ordered c index)
  then show thesis using that [of c index "empty_range\<lparr>reverse := Some (descending orderBy)\<rparr>"] by (simp add: ordered_plan_def)
next
  case scan
  then show thesis using assms(2,3) by (simp add: scan_plan_def)
qed

text \<open>The index and the range of a plan.\<close>

lemma planAccess_range:
  assumes "planAccess schema expression orderBy ps indexes = Inr plan"
  shows "scan_range (case access_range plan of None \<Rightarrow> empty_range | Some r \<Rightarrow> r) \<and>
    (\<forall>name. plan_index (public plan) = Some name \<longrightarrow> (\<exists>d \<in> set indexes. def_store d = schema_table schema \<and> def_name d = name)) \<and>
    (access_key plan \<noteq> None \<longrightarrow> (\<exists>r. access_range plan = Some r \<and> gt r = None \<and> gte r = None \<and> lt r = None \<and> lte r = None))"
  using assms
proof (cases rule: planAccess_shape)
  case (bounded c index equalityOnly key r)
  then show ?thesis
    using plan_candidates_member [OF bounded(1)] by (auto simp: bounded_plan_def Let_def index_name_def empty_range_def scan_range_def)
next
  case (ordered c index)
  then show ?thesis
    using plan_candidates_member [OF ordered(1)] by (auto simp: ordered_plan_def Let_def index_name_def empty_range_def scan_range_def)
qed (simp add: scan_plan_def empty_range_def scan_range_def)

lemma primary_order_key:
  assumes "primaryColumn schema = Some p" and "stored_row schema row key bs"
  shows "order_key p (column_value row (column_name p)) = key"
proof -
  have k: "primaryKey p (column_value row (column_name p)) = Inr key"
    using assms by (simp add: stored_row_def key_matches_def)
  then have "column_value row (column_name p) \<noteq> SqlNull" by (auto simp: primaryKey_def)
  then show ?thesis using k by (simp add: order_key_def)
qed

lemma primaryColumn_in: "primaryColumn schema = Some p \<Longrightarrow> p \<in> set (schema_columns schema)"
  unfolding primaryColumn_def by (drule find_SomeD) simp

lemma column_key_column:
  assumes "schema_ok schema" and "c \<in> set (schema_columns schema)"
  shows "column_key schema (column_name c) r = order_key c (column_value (row_values r) (column_name c))"
proof -
  obtain c' where c': "find (\<lambda>e. column_name e = column_name c) (schema_columns schema) = Some c'"
    using assms(2) by (cases "find (\<lambda>e. column_name e = column_name c) (schema_columns schema)") (auto simp: find_None_iff)
  then have "c' = c" using find_SomeD [OF c'] assms distinct_column [OF assms(1)] by blast
  then show ?thesis using c' by (simp add: column_key_def)
qed

text \<open>The logical key of a row under an index agrees with its column value.\<close>

lemma logical_order_key:
  assumes "schema_ok schema" and "(c, Some d) \<in> set (plan_candidates schema indexes)"
    and "stored_row schema row key bs" "stored_row schema row' key' bs'"
    and "column_type c \<noteq> IntegerType \<or> logical_key d bs = logical_key d bs'"
  shows "(logical_key d bs < logical_key d bs' \<longleftrightarrow>
      order_key c (column_value row (column_name c)) < order_key c (column_value row' (column_name c))) \<and>
    (logical_key d bs = logical_key d bs' \<longleftrightarrow>
      order_key c (column_value row (column_name c)) = order_key c (column_value row' (column_name c)))"
proof -
  have d: "c \<in> set (schema_columns schema)" "\<not> def_compound d" "def_keyPath d = [column_name c]" "0x2e \<notin> set (column_name c)"
    using plan_candidates_member [OF assms(2)] by simp_all
  obtain a where a: "extractLogicalIndexKey d bs = Inr (Some a)" "encodeCompoundKeyPart (stored_part (column_value row (column_name c))) = Inr a"
    using index_key_of_row [OF assms(1,3) d] by metis
  obtain b where b: "extractLogicalIndexKey d bs' = Inr (Some b)" "encodeCompoundKeyPart (stored_part (column_value row' (column_name c))) = Inr b"
    using index_key_of_row [OF assms(1,4) d] by metis
  have n: "normalized c (column_value row (column_name c))" "normalized c (column_value row' (column_name c))"
    using assms(3,4) row_ok_normalized d(1) by (auto simp: stored_row_def)
  obtain x where x: "compareValues (column_value row (column_name c)) (column_value row' (column_name c)) = Inr x"
    "agrees x (order_key c (column_value row (column_name c))) (order_key c (column_value row' (column_name c)))"
    by (rule compareValues_order_key [OF n])
  have keys: "logical_key d bs = a" "logical_key d bs' = b" using a b by (simp_all add: logical_key_def)
  show ?thesis
  proof (cases "column_type c = IntegerType")
    case False
    then have "agrees x a b" using index_key_order [OF n False a(2) b(2)] x(1) by (metis Inr_inject)
    then show ?thesis using x(2) keys by (simp add: agrees_def)
  next
    case True
    then have "a = b" using assms(5) keys by simp
    then have "column_value row (column_name c) = column_value row' (column_name c)" using index_key_equal [OF n a(2) b(2)] by simp
    then show ?thesis using \<open>a = b\<close> keys by simp
  qed
qed

lemma row_le_primary:
  assumes "schema_ok schema" and "primaryColumn schema = Some p"
    and "stored_row schema row key bs" "stored_row schema row' key' bs'" and "if direction = Desc then key' < key else key < key'"
  shows "row_le [(column_name p, direction)] \<lparr>row_key = key, row_values = row\<rparr> \<lparr>row_key = key', row_values = row'\<rparr>"
proof -
  have ok: "orders_ok schema [(column_name p, direction)]" "stored_ok schema \<lparr>row_key = key, row_values = row\<rparr>"
    "stored_ok schema \<lparr>row_key = key', row_values = row'\<rparr>"
    using primaryColumn_in [OF assms(2)] assms(3,4) by (auto simp: orders_ok_def stored_ok_def stored_row_def)
  have "column_key schema (column_name p) \<lparr>row_key = key, row_values = row\<rparr> = key"
    "column_key schema (column_name p) \<lparr>row_key = key', row_values = row'\<rparr> = key'"
    using column_key_column [OF assms(1) primaryColumn_in [OF assms(2)]] primary_order_key [OF assms(2)] assms(3,4) by simp_all
  then show ?thesis using row_le_iff [OF assms(1) ok] assms(5) by simp
qed

text \<open>
  In a traversal order every row comes before the rows visited after it. A unique index holds each logical
  key once.
\<close>

lemma traversalOrder_sorted:
  assumes "schema_ok schema" and "(c, index) \<in> set (plan_candidates schema indexes)"
    and "traversalOrder schema c index orders k" "orders \<noteq> []" "orders_ok schema orders"
    and "stored_row schema row key bs" "stored_row schema row' key' bs'"
    and "\<And>k'. k = Some k' \<Longrightarrow> hd (item_position index (key, bs)) = k' \<and> hd (item_position index (key', bs')) = k'"
    and "\<And>d. index = Some d \<Longrightarrow> def_unique d \<Longrightarrow> logical_key d bs = logical_key d bs' \<Longrightarrow> key = key'"
    and "visited_before (descending orders) index (key, bs) (key', bs')"
  shows "row_le orders \<lparr>row_key = key, row_values = row\<rparr> \<lparr>row_key = key', row_values = row'\<rparr>"
proof -
  let ?a = "\<lparr>row_key = key, row_values = row\<rparr>" and ?b = "\<lparr>row_key = key', row_values = row'\<rparr>"
  have ok: "stored_ok schema ?a" "stored_ok schema ?b" using assms(6,7) by (simp_all add: stored_ok_def stored_row_def)
  obtain name direction others where orders: "orders = (name, direction) # others" using assms(4) by (cases orders) auto
  have desc: "descending orders \<longleftrightarrow> direction = Desc" by (cases direction) (simp_all add: descending_def orders)
  show ?thesis
  proof (cases index)
    case None
    have "k = None"
    proof (rule ccontr)
      assume "k \<noteq> None"
      then obtain k' where "k = Some k'" by blast
      then show False using assms(8) [of k'] assms(10) None by (simp add: visited_before_def item_position_def split: if_splits)
    qed
    then have o: "name = column_name c" "others = []" using assms(3) None by (simp_all add: traversalOrder_def orders split: if_splits)
    have p: "primaryColumn schema = Some c" using plan_candidates_member [OF assms(2)] None by simp
    have "if direction = Desc then key' < key else key < key'"
      using assms(10) None desc by (simp add: visited_before_def item_position_def split: if_splits)
    then show ?thesis using row_le_primary [OF assms(1) p assms(6,7)] o orders by simp
  next
    case (Some d)
    have c: "c \<in> set (schema_columns schema)" using plan_candidates_member [OF assms(2)] by simp
    let ?l = "logical_key d bs" and ?m = "logical_key d bs'"
    let ?x = "order_key c (column_value row (column_name c))" and ?y = "order_key c (column_value row' (column_name c))"
    have o: "name = column_name c" "column_type c = IntegerType \<longrightarrow> k \<noteq> None"
      "if others = [] then direction = Asc \<or> def_unique d \<and> \<not> column_nullable c
       else \<exists>p. others = [(column_name p, direction)] \<and> primaryColumn schema = Some p"
      using assms(3) Some by (cases others; cases "tl others"; force simp: traversalOrder_def orders split: if_splits option.splits)+
    have same: "column_type c \<noteq> IntegerType \<or> ?l = ?m"
      using o(2) assms(8) Some by (auto simp: item_position_def)
    have agree: "(?l < ?m \<longleftrightarrow> ?x < ?y) \<and> (?l = ?m \<longleftrightarrow> ?x = ?y)"
      using logical_order_key [OF assms(1) _ assms(6,7) same] assms(2) Some by blast
    have agree': "?m < ?l \<longleftrightarrow> ?y < ?x" using agree by (cases ?l ?m rule: linorder_cases) auto
    have ck: "column_key schema name ?a = ?x" "column_key schema name ?b = ?y"
      using column_key_column [OF assms(1) c] o(1) by simp_all
    have before: "if direction = Desc then ?m < ?l \<or> ?m = ?l \<and> key' < key else ?l < ?m \<or> ?l = ?m \<and> key < key'"
      using assms(10) Some desc by (auto simp: visited_before_def item_position_def split: if_splits)
    have rest: "row_le others ?a ?b" if "?l = ?m"
    proof (cases others)
      case Nil
      have "key < key'"
      proof (cases direction)
        case Asc
        then show ?thesis using before that by simp
      next
        case Desc
        then have "key = key'" using o(3) Nil assms(9) [OF Some] that by simp
        then show ?thesis using before Desc that by simp
      qed
      then show ?thesis using row_le_iff [of schema "[]" ?a ?b] assms(1) ok Nil by (simp add: orders_ok_def)
    next
      case (Cons o' os)
      then obtain p where p: "others = [(column_name p, direction)]" "primaryColumn schema = Some p" using o(3) by auto
      have "if direction = Desc then key' < key else key < key'" using before that by (simp split: if_splits)
      then show ?thesis using row_le_primary [OF assms(1) p(2) assms(6,7)] p(1) by simp
    qed
    show ?thesis
      using row_le_iff [OF assms(1,5) ok] before agree agree' rest ck by (auto simp: orders split: if_splits)
  qed
qed

section \<open>Validated statements are planned\<close>

lemma safe_bounds: "is_safe i \<Longrightarrow> SQL_INTEGER_MIN \<le> i \<and> i \<le> SQL_INTEGER_MAX"
  by (auto simp: is_safe_def max_safe_integer_def SQL_INTEGER_MIN_def SQL_INTEGER_MAX_def)

lemma number_of_bigint_safe:
  assumes "is_safe i"
  shows "number_of_bigint i = f64_of_int i"
proof -
  let ?v = "f64_of_nat (nat \<bar>i\<bar>)"
  have n: "nat \<bar>i\<bar> < 2 ^ 53" using assms by (auto simp: is_safe_def max_safe_integer_def)
  have "ratio_mag (nat \<bar>i\<bar>) 1 = f64_mag ?v"
    using f64_of_nat_ratio [OF f64_of_nat_scaled [OF n]] by (simp add: dec_mag_def)
  moreover have "of_nat (f64_mag ?v) = ?v" using f64_parts [of ?v] f64_of_nat_sign [OF n] by simp
  ultimately show ?thesis by (simp add: number_of_bigint_def f64_of_int_def)
qed

lemma planKey_total:
  assumes "validateWhere schema (Comparison name operator ex) ps = Inr ()" and "getColumn schema name = Inr c"
    and "resolveSqlValue ex ps = Inr w" and "value_ok w"
  shows "\<exists>k. planKey c w secondary equality = Inr k"
proof (cases "w = SqlNull")
  case False
  have key: "\<exists>k. (if secondary then indexKey (Inl (stored_part n)) else primaryKey c n) = Inr k"
    if "normalizeValue (as_nullable c) w = Inr n" for n
  proof -
    note norm = normalizeValue_normalized [OF that]
    have nn: "n \<noteq> SqlNull" using that False by (cases rule: normalizeValue_cases) auto
    obtain a where "primaryKey (as_nullable c) n = Inr a" by (rule primaryKey_order [OF norm norm nn nn])
    then show ?thesis using stored_part_encoded [OF norm] by (simp add: indexKey_def)
  qed
  have normal: "\<exists>n. normalizeValue (as_nullable c) w = Inr n"
    if "column_type c = IntegerType \<Longrightarrow> (case w of SqlBigint _ \<Rightarrow> True | SqlNumber n \<Rightarrow> f64_is_safe_integer n | _ \<Rightarrow> False)"
      "column_type c = RealType \<Longrightarrow> \<not> (case w of SqlBigint i \<Rightarrow> \<not> is_safe i | _ \<Rightarrow> False)"
  proof (cases "column_type c = IntegerType \<or> column_type c = RealType")
    case False
    then show ?thesis using assms(1-3) \<open>w \<noteq> SqlNull\<close> by (auto simp: bindr_eq_Inr)
  next
    case True
    then consider (i) i where "w = SqlBigint i" | (n) n where "w = SqlNumber n" "f64_is_finite n"
      using assms(1-3) False by (cases w) (auto split: if_splits)
    then show ?thesis
    proof cases
      case i
      then show ?thesis
        using True that assms(4) f64_of_int_safe [of i] f64_of_int_scaled(2) [of i] number_of_bigint_safe [of i]
        by (auto simp: normalizeValue_numbers normalize_integer_def is_safe_def f64_is_safe_integer_def split: if_splits)
    next
      case n
      then show ?thesis
        using True that safe_bounds [of "f64_int n"] by (auto simp: normalizeValue_numbers normalize_integer_def f64_is_safe_integer_def is_safe_def split: if_splits)
    qed
  qed
  have encoded: "\<exists>k. bindr (normalizeValue (as_nullable c) w)
      (\<lambda>n. bindr (if secondary then indexKey (Inl (stored_part n)) else primaryKey c n) (\<lambda>k. Inr (Some k))) = Inr k"
    if "column_type c = IntegerType \<Longrightarrow> (case w of SqlBigint _ \<Rightarrow> True | SqlNumber n \<Rightarrow> f64_is_safe_integer n | _ \<Rightarrow> False)"
      "column_type c = RealType \<Longrightarrow> \<not> (case w of SqlBigint i \<Rightarrow> \<not> is_safe i | _ \<Rightarrow> False)"
  proof -
    have "\<exists>n. normalizeValue (as_nullable c) w = Inr n" by (rule normal [OF that])
    then obtain n where n: "normalizeValue (as_nullable c) w = Inr n" ..
    then obtain k where "(if secondary then indexKey (Inl (stored_part n)) else primaryKey c n) = Inr k" using key by blast
    then show ?thesis using n by simp
  qed
  show ?thesis
  proof (cases "column_type c = IntegerType")
    case True
    then show ?thesis using encoded False unfolding planKey_def Let_def
      by (cases "case w of SqlBigint _ \<Rightarrow> True | SqlNumber n \<Rightarrow> f64_is_safe_integer n | _ \<Rightarrow> False") simp_all
  next
    case False
    then show ?thesis using encoded \<open>w \<noteq> SqlNull\<close> unfolding planKey_def Let_def
      by (cases "column_type c = RealType"; cases "case w of SqlBigint i \<Rightarrow> \<not> is_safe i | _ \<Rightarrow> False") simp_all
  qed
qed (simp add: planKey_def)


text \<open>A comparison that was validated, with values as the parser and the binding of parameters give them.\<close>

definition comparison_valid :: "TableSchema \<Rightarrow> SqlValue list \<Rightarrow> comparison \<Rightarrow> bool" where
  "comparison_valid schema ps entry =
     (case entry of (name, operator, ex) \<Rightarrow>
        validateWhere schema (Comparison name operator ex) ps = Inr () \<and> (\<forall>w. resolveSqlValue ex ps = Inr w \<longrightarrow> value_ok w))"

lemma resolved_ok: "value_expr_ok ex \<Longrightarrow> list_all value_ok ps \<Longrightarrow> resolveSqlValue ex ps = Inr w \<Longrightarrow> value_ok w"
  by (cases ex) (auto simp: resolveSqlValue_def read_at_def list_all_length split: if_splits)

lemma conjuncts_valid:
  "validateWhere schema e ps = Inr () \<Longrightarrow> expression_ok e \<Longrightarrow> list_all value_ok ps \<Longrightarrow> list_all (comparison_valid schema ps) (conjuncts e)"
proof (induction e rule: conjuncts.induct)
  case (1 name operator ex)
  then show ?case using resolved_ok by (auto simp: comparison_valid_def simp del: validateWhere.simps)
next
  case (2 l r)
  then show ?case by (auto simp: bindr_eq_Inr)
qed simp_all

lemma bounds_loop_total:
  assumes "c \<in> set (schema_columns schema)" and "schema_ok schema"
    and "list_all (comparison_valid schema ps) entries" and "list_all (\<lambda>(name, _). name = column_name c) entries"
  shows "\<exists>x. bounds_loop c secondary equalityOnly ps entries r = Inr x"
  using assms(3,4)
proof (induction entries arbitrary: r)
  case (Cons entry entries)
  obtain name operator ex where e: "entry = (name, operator, ex)" by (cases entry)
  have here: "name = column_name c" "validateWhere schema (Comparison name operator ex) ps = Inr ()"
    "\<forall>w. resolveSqlValue ex ps = Inr w \<longrightarrow> value_ok w"
    using Cons.prems e by (simp_all add: comparison_valid_def del: validateWhere.simps)
  obtain c' w where w: "getColumn schema name = Inr c'" "resolveSqlValue ex ps = Inr w"
    using here(2) by (auto simp: bindr_eq_Inr)
  have "c' = c" using getColumn_in [OF w(1)] distinct_column [OF assms(2) _ assms(1)] here(1) by simp
  then obtain k where k: "planKey c w secondary equalityOnly = Inr k"
    using planKey_total [OF here(2) w] here(3) w(2) by blast
  have IH: "\<exists>x. bounds_loop c secondary equalityOnly ps entries r' = Inr x" for r' using Cons by simp
  show ?case using e w k IH by (cases equalityOnly; cases k) simp_all
qed simp

lemma bounded_candidates_total:
  assumes "schema_ok schema" and "list_all (comparison_valid schema ps) comparisons"
    and "fst ` set candidates \<subseteq> set (schema_columns schema)"
  shows "\<exists>x. bounded_candidates schema comparisons orderBy ps equalityOnly candidates = Inr x"
  using assms(3)
proof (induction candidates)
  case (Cons cand candidates)
  obtain c index where cand: "cand = (c, index)" by (cases cand)
  let ?entries = "filter (selects c equalityOnly) comparisons"
  have "c \<in> set (schema_columns schema)" using Cons.prems cand by simp
  moreover have "list_all (comparison_valid schema ps) ?entries" "list_all (\<lambda>(name, _). name = column_name c) ?entries"
    using assms(2) by (auto simp: list_all_iff selects_def)
  ultimately obtain x where x: "bounds_loop c (index \<noteq> None) equalityOnly ps ?entries empty_range = Inr x"
    using bounds_loop_total assms(1) by blast
  show ?case using Cons cand x by (cases x) auto
qed simp

lemma planAccess_total:
  assumes "schema_ok schema" and "where_ok expression" and "list_all value_ok ps" and "validate_where schema expression ps = Inr ()"
  shows "\<exists>plan. planAccess schema expression orderBy ps indexes = Inr plan"
proof -
  have valid: "list_all (comparison_valid schema ps) (conjunctiveComparisons expression)"
    using conjuncts_valid [of schema _ ps] assms(2-4)
    by (cases expression) (auto simp: conjunctiveComparisons_def validate_where_def where_ok_def simp del: validateWhere.simps)
  have cands: "fst ` set (plan_candidates schema indexes) \<subseteq> set (schema_columns schema)" using plan_candidates_member by fastforce
  have "\<exists>x. bounded_candidates schema (conjunctiveComparisons expression) orderBy ps b (plan_candidates schema indexes) = Inr x" for b
    by (rule bounded_candidates_total [OF assms(1) valid cands])
  then obtain f where f: "\<And>b. bounded_candidates schema (conjunctiveComparisons expression) orderBy ps b (plan_candidates schema indexes) = Inr (f b)"
    by metis
  show ?thesis by (simp add: planAccess_def Let_def f split: option.split)
qed

section \<open>Validated statements run\<close>

text \<open>
  C31. A \<^verbatim>\<open>WHERE\<close> clause that passed validation cannot fail later: planning the access succeeds, and the
  predicate has a truth value on every row of the table, for any order and any indexes.
\<close>

theorem validated_where_runs:
  assumes "schema_ok schema" and "where_ok expression" and "list_all value_ok ps" and "validate_where schema expression ps = Inr ()"
  shows "(\<exists>plan. planAccess schema expression orders ps indexes = Inr plan) \<and>
    (row_ok schema row \<longrightarrow> (\<exists>t. (case expression of None \<Rightarrow> Inr (Some True) | Some e \<Rightarrow> evaluateWhere row e ps) = Inr t))"
  using planAccess_total [OF assms] evaluateWhere_total [of schema _ ps row] assms(4)
  by (cases expression) (auto simp: validate_where_def simp del: validateWhere.simps)

theorem validated_where_runs_witness:
  "(\<exists>plan. planAccess sample_schema (Some (Comparison (js ''1'') OpGe (Parameter 0))) [] [SqlBlob [7]] [] = Inr plan) \<and>
    (\<exists>t. evaluateWhere sample_row (Comparison (js ''1'') OpGe (Parameter 0)) [SqlBlob [7]] = Inr t)"
proof -
  let ?e = "Comparison (js ''1'') OpGe (Parameter 0)"
  have ok: "schema_ok sample_schema" using sample_row_ok(1) by (simp add: schema_ok_def) (simp add: sample_schema_def)
  have "name_ok (js ''1'')"
    by (simp add: invalid_identifier_def js_def hasControlCharacters_def hasValidUnicode_def FORBIDDEN_IDENTIFIERS_def
        MAX_IDENTIFIER_LENGTH_def to_lower_def is_high_def)
  then have where_clause: "where_ok (Some ?e)" by (simp add: where_ok_def MAX_PREDICATES_def)
  have vals: "list_all value_ok [SqlBlob [7]]" by simp
  have "validate_where sample_schema (Some ?e) [SqlBlob [7]] = Inr ()"
    by (simp add: validate_where_def getColumn_def sample_schema_def js_def resolveSqlValue_def read_at_def normalizeValue_simps)
  from validated_where_runs [OF ok where_clause vals this, of "[]" "[]" sample_row] sample_row_ok(2) show ?thesis by simp
qed

end
