(* ===== verification/SqlExec.thy ===== *)
theory SqlExec
  imports SqlPlan Records
begin

text \<open>
  Execution of SQL statements, the rest of \<^verbatim>\<open>packages/sdk/src/sql.ts\<close>: the catalog of table schemas, the
  statements over a transaction, and the client, which runs each statement in a transaction of its own.
  The operations of the transaction are parameters, a record of effectful functions.
\<close>

section \<open>The transaction interface\<close>

record ScanPage =
  page_rows :: "(bytes \<times> bytes) list"
  page_cursor :: "nat option"
  page_done :: bool

text \<open>
  The further calls of \<^verbatim>\<open>sql.ts\<close>. \<open>op_listIndexes\<close> and the cursor methods are optional members of the
  interface. An absent range argument is passed as the empty range.
\<close>

record ('s, 't) sql_ops = "('s, 't) db_ops" +
  op_mode :: "'t \<Rightarrow> TxMode"
  op_listIndexes :: "('t \<Rightarrow> ('s, jsval) eff) option"
  op_dropStore :: "'t \<Rightarrow> jsstring \<Rightarrow> ('s, unit) eff"
  op_has_cursors :: "'t \<Rightarrow> bool"
  op_scanPage :: "'t \<Rightarrow> jsstring \<Rightarrow> range \<Rightarrow> nat option \<Rightarrow> nat \<Rightarrow> ('s, ScanPage) eff"
  op_closeScanCursor :: "'t \<Rightarrow> nat \<Rightarrow> ('s, unit) eff"

section \<open>Schemas in the catalog\<close>

definition CATALOG :: jsstring where
  "CATALOG = js ''_moyodb_sql_catalog''"

definition OWNER_KEY :: bytes where
  "OWNER_KEY = [0]"

definition OWNER :: jsval where
  "OWNER = VObject [(js ''format'', VString (js ''moyodb.sql'')), (js ''version'', VNumber (f64_of_nat 1))]"

definition TABLE_OWNER_FIELD :: jsstring where
  "TABLE_OWNER_FIELD = 0 # js ''moyodb.sql.table''"

definition schemaKey :: "jsstring \<Rightarrow> bytes" where
  "schemaKey table = text_encode (js ''table:'' @ table)"

definition assertTableName :: "jsstring \<Rightarrow> unit result" where
  "assertTableName table =
     (if table = CATALOG \<or> starts_with table (js ''__browserdb:'') then throw SqlSchemaError ''reserved SQL table name'' else Inr ())"

definition type_name :: "SqlColumnType \<Rightarrow> jsstring" where
  "type_name type = (case find (\<lambda>(n, t). t = type) COLUMN_TYPES of Some (n, _) \<Rightarrow> n | None \<Rightarrow> [])"

definition column_json :: "SqlColumnDefinition \<Rightarrow> jsval" where
  "column_json c = VObject
     [(js ''name'', VString (column_name c)), (js ''type'', VString (type_name (column_type c))),
      (js ''primaryKey'', VBool (column_primaryKey c)), (js ''nullable'', VBool (column_nullable c))]"

definition schema_json :: "TableSchema \<Rightarrow> jsval" where
  "schema_json schema = VObject
     [(js ''version'', VNumber (f64_of_nat 1)), (js ''table'', VString (schema_table schema)),
      (js ''columns'', VArray (map column_json (schema_columns schema))), (js ''nextRowId'', VString (schema_nextRowId schema))]"

definition tableOwnerValue :: "TableSchema \<Rightarrow> bytes result" where
  "tableOwnerValue schema =
     bindr (json_text (VObject
       [(js ''format'', VString (js ''moyodb.sql.table'')), (js ''version'', VNumber (f64_of_nat 1)),
        (js ''table'', VString (schema_table schema)), (js ''columns'', VArray (map column_json (schema_columns schema)))])) (\<lambda>text.
     jsonEncode (VObject [(TABLE_OWNER_FIELD, case text of None \<Rightarrow> VUndefined | Some t \<Rightarrow> VString t)]))"

text \<open>One entry of the column array, with the names before it; the columns in the type of a statement.\<close>

definition validate_column :: "jsstring list \<Rightarrow> jsval \<Rightarrow> SqlColumnDefinition result" where
  "validate_column names candidate =
     (let invalid = throw SqlSchemaError ''invalid column metadata'' in
      case (candidate, prop_get candidate (js ''name''), prop_get candidate (js ''type''), prop_get candidate (js ''primaryKey''),
          prop_get candidate (js ''nullable'')) of
        (VObject _, VString name, VString type, VBool primary, VBool nullable) \<Rightarrow>
          (case map_of COLUMN_TYPES type of
             None \<Rightarrow> invalid
           | Some t \<Rightarrow>
               if name = [] \<or> name \<in> set names \<or> primary \<and> nullable then invalid
               else Inr \<lparr>column_name = name, column_type = t, column_primaryKey = primary, column_nullable = nullable\<rparr>)
      | _ \<Rightarrow> invalid)"

fun validate_columns :: "jsstring list \<Rightarrow> jsval list \<Rightarrow> SqlColumnDefinition list result" where
  "validate_columns names [] = Inr []"
| "validate_columns names (candidate # candidates) =
     bindr (validate_column names candidate) (\<lambda>c.
     bindr (validate_columns (names @ [column_name c]) candidates) (\<lambda>cs. Inr (c # cs)))"

text \<open>\<^verbatim>\<open>/^[1-9]\d*$/u\<close> with the bounds on the row identifier.\<close>

definition valid_row_id :: "jsstring \<Rightarrow> bool" where
  "valid_row_id s \<longleftrightarrow> length s \<le> 20 \<and> s \<noteq> [] \<and> list_all is_digit s \<and> hd s \<noteq> 0x30 \<and> int (digits_value s) \<le> ROW_ID_MAX + 1"

definition validateSchema :: "jsval \<Rightarrow> jsstring \<Rightarrow> TableSchema result" where
  "validateSchema v table =
     (case (v, prop_get v (js ''version''), prop_get v (js ''table''), prop_get v (js ''columns''), prop_get v (js ''nextRowId'')) of
        (VObject _, VNumber version, VString name, VArray columns, VString nextRowId) \<Rightarrow>
          if version \<noteq> f64_of_nat 1 \<or> name \<noteq> table \<or> columns = [] \<or> \<not> valid_row_id nextRowId
          then throw SqlSchemaError ''invalid schema metadata''
          else
            bindr (validate_columns [] columns) (\<lambda>cs.
              if 1 < length (filter column_primaryKey cs) then throw SqlSchemaError ''multiple primary keys''
              else Inr \<lparr>schema_table = table, schema_columns = cs, schema_nextRowId = nextRowId\<rparr>)
      | _ \<Rightarrow> throw SqlSchemaError ''invalid schema metadata'')"

definition check_owner :: "bytes option \<Rightarrow> bool result" where
  "check_owner v =
     (case v of
        None \<Rightarrow> throw SqlSchemaError ''SQL catalog store is not owned by SQL''
      | Some bs \<Rightarrow>
          bindr (decodeJson bs) (\<lambda>owner.
            case owner of
              VObject _ \<Rightarrow>
                if prop_get owner (js ''format'') \<noteq> VString (js ''moyodb.sql'') \<or> prop_get owner (js ''version'') \<noteq> VNumber (f64_of_nat 1)
                then throw SqlSchemaError ''invalid SQL catalog metadata'' else Inr True
            | _ \<Rightarrow> throw SqlSchemaError ''invalid SQL catalog metadata''))"

definition readCatalog :: "('s, 't, 'z) sql_ops_scheme \<Rightarrow> 't \<Rightarrow> ('s, bool) eff" where
  "readCatalog db tx = (\<lambda>s.
     case op_get db (InTx tx) CATALOG OWNER_KEY s of
       (Inl (Throw StoreNotFoundError _), s') \<Rightarrow> (Inr False, s')
     | (Inl e, s') \<Rightarrow> (Inl e, s')
     | (Inr v, s') \<Rightarrow> (check_owner v, s'))"

definition readSchema :: "('s, 't, 'z) sql_ops_scheme \<Rightarrow> 't \<Rightarrow> jsstring \<Rightarrow> ('s, TableSchema option) eff" where
  "readSchema db tx table =
     bindm (op_get db (InTx tx) CATALOG (schemaKey table)) (\<lambda>v.
       case v of
         None \<Rightarrow> ret None
       | Some bs \<Rightarrow> lift_result (bindr (decodeJson bs) (\<lambda>schema. bindr (validateSchema schema table) (\<lambda>s. Inr (Some s)))))"

definition assertTableOwnership :: "('s, 't, 'z) sql_ops_scheme \<Rightarrow> 't \<Rightarrow> TableSchema \<Rightarrow> ('s, unit) eff" where
  "assertTableOwnership db tx schema = (\<lambda>s.
     case op_get db (InTx tx) (schema_table schema) TABLE_OWNER_KEY s of
       (Inl (Throw StoreNotFoundError _), s') \<Rightarrow> (throw SqlSchemaError ''SQL table store is missing'', s')
     | (Inl e, s') \<Rightarrow> (Inl e, s')
     | (Inr owner, s') \<Rightarrow>
         (bindr (tableOwnerValue schema) (\<lambda>expected.
            case owner of
              None \<Rightarrow> throw SqlSchemaError ''SQL table ownership does not match its catalog''
            | Some bs \<Rightarrow>
                if compareBytes bs expected \<noteq> 0 then throw SqlSchemaError ''SQL table ownership does not match its catalog''
                else Inr ()), s'))"

section \<open>Reading rows\<close>

text \<open>
  The callback on one scanned item: whether to stop, and the rows collected so far.
\<close>

definition accept ::
  "TableSchema \<Rightarrow> SqlExpression option \<Rightarrow> SqlValue list \<Rightarrow> nat option \<Rightarrow> StoredRow list \<Rightarrow> bytes \<times> bytes \<Rightarrow>
     (bool \<times> StoredRow list) result" where
  "accept schema expression parameters maxMatches rows item =
     (if length (fst item) = 1 \<and> read_at (fst item) 0 = read_at TABLE_OWNER_KEY 0 then Inr (False, rows)
      else
        bindr (decodeRow schema item) (\<lambda>row.
        bindr (case expression of None \<Rightarrow> Inr (Some True) | Some e \<Rightarrow> evaluateWhere (row_values row) e parameters) (\<lambda>truth.
          let rows' = (if truth = Some True then rows @ [row] else rows)
          in Inr (case maxMatches of None \<Rightarrow> False | Some m \<Rightarrow> m \<le> length rows', rows'))))"

fun accept_items ::
  "TableSchema \<Rightarrow> SqlExpression option \<Rightarrow> SqlValue list \<Rightarrow> nat option \<Rightarrow> StoredRow list \<Rightarrow> (bytes \<times> bytes) list \<Rightarrow>
     (bool \<times> StoredRow list) result" where
  "accept_items schema expression parameters maxMatches rows [] = Inr (False, rows)"
| "accept_items schema expression parameters maxMatches rows (item # items) =
     bindr (accept schema expression parameters maxMatches rows item) (\<lambda>(stop, rows').
       if stop then Inr (True, rows') else accept_items schema expression parameters maxMatches rows' items)"

text \<open>
  The page loop, with the last cursor it saw: the \<^verbatim>\<open>finally\<close> block closes it. The loop ends when the
  transaction reports the last page; it carries fuel for one that never does.
\<close>

fun page_loop ::
  "('s, 't, 'z) sql_ops_scheme \<Rightarrow> 't \<Rightarrow> TableSchema \<Rightarrow> range \<Rightarrow> SqlExpression option \<Rightarrow> SqlValue list \<Rightarrow> nat option \<Rightarrow>
     nat \<Rightarrow> nat option \<Rightarrow> StoredRow list \<Rightarrow> 's \<Rightarrow> (StoredRow list result \<times> nat option) \<times> 's" where
  "page_loop db tx schema r expression parameters maxMatches 0 cursor rows s =
     ((throw InternalError ''the scan does not end'', cursor), s)"
| "page_loop db tx schema r expression parameters maxMatches (Suc fuel) cursor rows s =
     (case op_scanPage db tx (schema_table schema) r cursor
             (min 256 (case maxMatches of None \<Rightarrow> 256 | Some m \<Rightarrow> m - length rows)) s of
        (Inl e, s') \<Rightarrow> ((Inl e, cursor), s')
      | (Inr page, s') \<Rightarrow>
          (case accept_items schema expression parameters maxMatches rows (page_rows page) of
             Inl e \<Rightarrow> ((Inl e, page_cursor page), s')
           | Inr (stop, rows') \<Rightarrow>
               if stop \<or> page_done page then ((Inr rows', page_cursor page), s')
               else page_loop db tx schema r expression parameters maxMatches fuel (page_cursor page) rows' s'))"

definition read_pages ::
  "('s, 't, 'z) sql_ops_scheme \<Rightarrow> nat \<Rightarrow> 't \<Rightarrow> TableSchema \<Rightarrow> range \<Rightarrow> SqlExpression option \<Rightarrow> SqlValue list \<Rightarrow> nat option \<Rightarrow>
     ('s, StoredRow list) eff" where
  "read_pages db fuel tx schema r expression parameters maxMatches = (\<lambda>s.
     case page_loop db tx schema r expression parameters maxMatches fuel None [] s of
       ((rows, None), s') \<Rightarrow> (rows, s')
     | ((rows, Some cursor), s') \<Rightarrow>
         (case op_closeScanCursor db tx cursor s' of (Inl e, s'') \<Rightarrow> (Inl e, s'') | (Inr _, s'') \<Rightarrow> (rows, s'')))"

definition plan_range :: "AccessPlan \<Rightarrow> range" where
  "plan_range plan = (case access_range plan of None \<Rightarrow> empty_range | Some r \<Rightarrow> r)"

definition readRows ::
  "('s, 't, 'z) sql_ops_scheme \<Rightarrow> nat \<Rightarrow> 't \<Rightarrow> TableSchema \<Rightarrow> AccessPlan \<Rightarrow> SqlExpression option \<Rightarrow> SqlValue list \<Rightarrow> nat option \<Rightarrow>
     ('s, StoredRow list) eff" where
  "readRows db fuel tx schema plan expression parameters maxMatches =
     (let collect = (\<lambda>items. lift_result (bindr (accept_items schema expression parameters maxMatches [] items) (\<lambda>(_, rows). Inr rows))) in
      if access_empty plan then ret []
      else case plan_index (public plan) of
        Some index \<Rightarrow>
          bindm (op_scanByIndex db tx (schema_table schema) index
            (case access_key plan of None \<Rightarrow> plan_range plan | Some k \<Rightarrow> (plan_range plan)\<lparr>gte := Some k, lte := Some k\<rparr>)) collect
      | None \<Rightarrow>
          (case access_key plan of
             Some k \<Rightarrow>
               bindm (op_get db (InTx tx) (schema_table schema) k) (\<lambda>v.
                 case v of None \<Rightarrow> ret [] | Some bs \<Rightarrow> collect [(k, bs)])
           | None \<Rightarrow>
               if op_has_cursors db tx then read_pages db fuel tx schema (plan_range plan) expression parameters maxMatches
               else bindm (op_scan db (InTx tx) (schema_table schema) (plan_range plan)) collect))"

section \<open>Statements\<close>

record SqlResult =
  result_rows :: "(jsstring \<times> SqlValue) list list"
  rowsAffected :: nat
  result_plan :: "SqlQueryPlan option"

definition affected :: "nat \<Rightarrow> SqlResult" where
  "affected n = \<lparr>result_rows = [], rowsAffected = n, result_plan = None\<rparr>"

text \<open>The sort with a comparator that may throw.\<close>

fun insert_row_sorted :: "('a \<Rightarrow> 'a \<Rightarrow> int result) \<Rightarrow> 'a \<Rightarrow> 'a list \<Rightarrow> 'a list result" where
  "insert_row_sorted cmp x [] = Inr [x]"
| "insert_row_sorted cmp x (y # ys) =
     bindr (cmp x y) (\<lambda>c. if c \<le> 0 then Inr (x # y # ys) else bindr (insert_row_sorted cmp x ys) (\<lambda>zs. Inr (y # zs)))"

fun sort_rows :: "('a \<Rightarrow> 'a \<Rightarrow> int result) \<Rightarrow> 'a list \<Rightarrow> 'a list result" where
  "sort_rows cmp [] = Inr []"
| "sort_rows cmp (x # xs) = bindr (sort_rows cmp xs) (insert_row_sorted cmp x)"

definition resolveCount :: "SqlValueExpression option \<Rightarrow> SqlValue list \<Rightarrow> nat option result" where
  "resolveCount expression parameters =
     (case expression of
        None \<Rightarrow> Inr None
      | Some e \<Rightarrow>
          bindr (resolveSqlValue e parameters) (\<lambda>v.
            case v of
              SqlNumber n \<Rightarrow>
                if f64_is_safe_integer n \<and> 0 \<le> f64_int n then Inr (Some (nat (f64_int n)))
                else throw SqlTypeError ''LIMIT or OFFSET requires a non-negative safe integer''
            | _ \<Rightarrow> throw SqlTypeError ''LIMIT or OFFSET requires a non-negative safe integer''))"

definition all_columns :: "TableSchema \<Rightarrow> jsstring list option \<Rightarrow> jsstring list" where
  "all_columns schema columns = (case columns of None \<Rightarrow> map column_name (schema_columns schema) | Some cs \<Rightarrow> cs)"

definition create_table ::
  "('s, 't, 'z) sql_ops_scheme \<Rightarrow> 't \<Rightarrow> bool \<Rightarrow> TableSchema option \<Rightarrow> jsstring \<Rightarrow> SqlColumnDefinition list \<Rightarrow> bool \<Rightarrow> ('s, SqlResult) eff" where
  "create_table db tx catalogExists schema table columns ifNotExists =
     (case schema of
        Some _ \<Rightarrow> if ifNotExists then ret (affected 0) else raise (Throw SqlSchemaError ''table already exists'')
      | None \<Rightarrow>
          bindm (lift_result (validateSchema (schema_json \<lparr>schema_table = table, schema_columns = columns, schema_nextRowId = js ''1''\<rparr>) table)) (\<lambda>created.
          bindm (if catalogExists then ret ()
                 else bindm (op_createStore db (InTx tx) CATALOG) (\<lambda>_.
                      bindm (lift_result (jsonEncode OWNER)) (\<lambda>owner. op_put db (InTx tx) CATALOG OWNER_KEY owner None))) (\<lambda>_.
          bindm (op_createStore db (InTx tx) table) (\<lambda>_.
          bindm (lift_result (tableOwnerValue created)) (\<lambda>owner.
          bindm (op_put db (InTx tx) table TABLE_OWNER_KEY owner None) (\<lambda>_.
          bindm (lift_result (jsonEncode (schema_json created))) (\<lambda>bs.
          bindm (op_put db (InTx tx) CATALOG (schemaKey table) bs None) (\<lambda>_. ret (affected 0)))))))))"

text \<open>The row of one \<^verbatim>\<open>VALUES\<close> list: \<^verbatim>\<open>NULL\<close> in the columns that are not named, then normalization.\<close>

fun assign_values :: "(jsstring \<times> SqlValueExpression) list \<Rightarrow> SqlValue list \<Rightarrow> SqlRow \<Rightarrow> SqlRow result" where
  "assign_values [] parameters row = Inr row"
| "assign_values ((name, e) # assignments) parameters row =
     bindr (resolveSqlValue e parameters) (\<lambda>v. assign_values assignments parameters (row(name \<mapsto> v)))"

fun normalize_row :: "SqlColumnDefinition list \<Rightarrow> SqlRow \<Rightarrow> SqlRow result" where
  "normalize_row [] row = Inr row"
| "normalize_row (c # cs) row =
     bindr (normalizeValue c (column_value row (column_name c))) (\<lambda>v. normalize_row cs (row(column_name c \<mapsto> v)))"

definition insert_values ::
  "TableSchema \<Rightarrow> jsstring list \<Rightarrow> SqlValue list \<Rightarrow> SqlValueExpression list \<Rightarrow> SqlRow result" where
  "insert_values schema columns parameters vs =
     (if length vs \<noteq> length columns then throw SqlSchemaError ''INSERT column count does not match VALUES''
      else bindr (assign_values (zip columns vs) parameters
                    (fold (\<lambda>c row. row(column_name c \<mapsto> SqlNull)) (schema_columns schema) Map.empty)) (\<lambda>row.
           normalize_row (schema_columns schema) row))"

text \<open>The loop over the \<^verbatim>\<open>VALUES\<close> lists, with the next row identifier, the entries and the keys so far.\<close>

fun insert_loop ::
  "('s, 't, 'z) sql_ops_scheme \<Rightarrow> 't \<Rightarrow> TableSchema \<Rightarrow> jsstring list \<Rightarrow> SqlValue list \<Rightarrow> SqlValueExpression list list \<Rightarrow>
     int \<Rightarrow> (bytes \<times> bytes) list \<Rightarrow> jsstring list \<Rightarrow> ('s, int \<times> (bytes \<times> bytes) list) eff" where
  "insert_loop db tx schema columns parameters [] nextRowId entries keys = ret (nextRowId, entries)"
| "insert_loop db tx schema columns parameters (vs # rows) nextRowId entries keys =
     bindm (lift_result (insert_values schema columns parameters vs)) (\<lambda>row.
     let primary = primaryColumn schema in
     if primary = None \<and> ROW_ID_MAX < nextRowId then raise (Throw ConstraintError ''row identifier space exhausted'')
     else
       bindm (lift_result (case primary of Some p \<Rightarrow> primaryKey p (column_value row (column_name p)) | None \<Rightarrow> u64Key (Big nextRowId))) (\<lambda>key.
       bindm (if bytesIdentity key \<in> set keys then ret True else op_has db (InTx tx) (schema_table schema) key) (\<lambda>duplicate.
         if duplicate then raise (Throw ConstraintError ''duplicate primary key'')
         else
           bindm (lift_result (encodeRow schema row)) (\<lambda>bs.
             insert_loop db tx schema columns parameters rows (if primary = None then nextRowId + 1 else nextRowId)
               (entries @ [(key, bs)]) (bytesIdentity key # keys)))))"

definition insertRows ::
  "('s, 't, 'z) sql_ops_scheme \<Rightarrow> 't \<Rightarrow> TableSchema \<Rightarrow> jsstring list option \<Rightarrow> SqlValueExpression list list \<Rightarrow> SqlValue list \<Rightarrow>
     ('s, SqlResult) eff" where
  "insertRows db tx schema names rows parameters =
     (let columns = all_columns schema names in
      bindm (lift_result (validateColumnList schema (Some columns))) (\<lambda>_.
      bindm (insert_loop db tx schema columns parameters rows (int (digits_value (schema_nextRowId schema))) [] []) (\<lambda>(nextRowId, entries).
      bindm (op_putMany db tx (schema_table schema) entries None) (\<lambda>_.
      bindm (if primaryColumn schema \<noteq> None then ret ()
             else bindm (lift_result (jsonEncode (schema_json (schema\<lparr>schema_nextRowId := bigint_text nextRowId\<rparr>)))) (\<lambda>bs.
                  op_put db (InTx tx) CATALOG (schemaKey (schema_table schema)) bs None)) (\<lambda>_.
        ret (affected (length entries)))))))"

record RowUpdate =
  update_oldKey :: bytes
  update_key :: bytes
  update_row :: SqlRow

fun assign_columns :: "TableSchema \<Rightarrow> (jsstring \<times> SqlValueExpression) list \<Rightarrow> SqlValue list \<Rightarrow> SqlRow \<Rightarrow> SqlRow result" where
  "assign_columns schema [] parameters row = Inr row"
| "assign_columns schema ((name, e) # assignments) parameters row =
     bindr (getColumn schema name) (\<lambda>c.
     bindr (resolveSqlValue e parameters) (\<lambda>v.
     bindr (normalizeValue c v) (\<lambda>n. assign_columns schema assignments parameters (row(name \<mapsto> n)))))"

definition row_update :: "TableSchema \<Rightarrow> (jsstring \<times> SqlValueExpression) list \<Rightarrow> SqlValue list \<Rightarrow> StoredRow \<Rightarrow> RowUpdate result" where
  "row_update schema assignments parameters stored =
     bindr (assign_columns schema assignments parameters (row_values stored)) (\<lambda>updated.
     bindr (case primaryColumn schema of
              Some p \<Rightarrow> primaryKey p (column_value updated (column_name p)) | None \<Rightarrow> Inr (row_key stored)) (\<lambda>key.
       Inr \<lparr>update_oldKey = row_key stored, update_key = key, update_row = updated\<rparr>))"

fun check_destinations ::
  "('s, 't, 'z) sql_ops_scheme \<Rightarrow> 't \<Rightarrow> jsstring \<Rightarrow> jsstring list \<Rightarrow> jsstring list \<Rightarrow> RowUpdate list \<Rightarrow> ('s, unit) eff" where
  "check_destinations db tx table oldKeys destinations [] = ret ()"
| "check_destinations db tx table oldKeys destinations (u # us) =
     (let identity = bytesIdentity (update_key u) in
      if identity \<in> set destinations then raise (Throw ConstraintError ''duplicate primary key'')
      else
        bindm (if identity \<notin> set oldKeys then op_has db (InTx tx) table (update_key u) else ret False) (\<lambda>taken.
          if taken then raise (Throw ConstraintError ''duplicate primary key'')
          else check_destinations db tx table oldKeys (identity # destinations) us))"

fun put_updates :: "('s, 't, 'z) sql_ops_scheme \<Rightarrow> 't \<Rightarrow> TableSchema \<Rightarrow> RowUpdate list \<Rightarrow> ('s, unit) eff" where
  "put_updates db tx schema [] = ret ()"
| "put_updates db tx schema (u # us) =
     bindm (lift_result (encodeRow schema (update_row u))) (\<lambda>bs.
     bindm (op_put db (InTx tx) (schema_table schema) (update_key u) bs None) (\<lambda>_. put_updates db tx schema us))"

definition update_rows ::
  "('s, 't, 'z) sql_ops_scheme \<Rightarrow> 't \<Rightarrow> TableSchema \<Rightarrow> (jsstring \<times> SqlValueExpression) list \<Rightarrow> SqlValue list \<Rightarrow> StoredRow list \<Rightarrow>
     ('s, nat) eff" where
  "update_rows db tx schema assignments parameters rows =
     bindm (lift_result (mapr (row_update schema assignments parameters) rows)) (\<lambda>updates.
     bindm (check_destinations db tx (schema_table schema) (map (\<lambda>r. bytesIdentity (row_key r)) rows) [] updates) (\<lambda>_.
     bindm (op_deleteMany db tx (schema_table schema) (map update_oldKey updates)) (\<lambda>_.
     bindm (put_updates db tx schema updates) (\<lambda>_. ret (length updates)))))"

definition statement_table :: "SqlStatement \<Rightarrow> jsstring" where
  "statement_table stmt =
     (case stmt of
        CreateTable table _ _ \<Rightarrow> table | DropTable table _ \<Rightarrow> table | Insert table _ _ \<Rightarrow> table
      | Select table _ _ _ _ _ \<Rightarrow> table | Update table _ _ \<Rightarrow> table | Delete table _ \<Rightarrow> table)"

definition statement_where :: "SqlStatement \<Rightarrow> SqlExpression option" where
  "statement_where stmt =
     (case stmt of Select _ _ e _ _ _ \<Rightarrow> e | Update _ _ e \<Rightarrow> e | Delete _ e \<Rightarrow> e | _ \<Rightarrow> None)"

definition isRowStatement :: "SqlStatement \<Rightarrow> bool" where
  "isRowStatement stmt =
     (case stmt of Select _ _ _ _ _ _ \<Rightarrow> True | Update _ _ _ \<Rightarrow> True | Delete _ _ \<Rightarrow> True | _ \<Rightarrow> False)"

text \<open>The checks of a row statement before it is planned.\<close>

fun check_orders :: "TableSchema \<Rightarrow> (jsstring \<times> SqlDirection) list \<Rightarrow> unit result" where
  "check_orders schema [] = Inr ()"
| "check_orders schema (order # orders) = bindr (getColumn schema (fst order)) (\<lambda>_. check_orders schema orders)"

fun check_assignments :: "TableSchema \<Rightarrow> (jsstring \<times> SqlValueExpression) list \<Rightarrow> SqlValue list \<Rightarrow> unit result" where
  "check_assignments schema [] parameters = Inr ()"
| "check_assignments schema ((name, e) # assignments) parameters =
     bindr (getColumn schema name) (\<lambda>c.
     bindr (resolveSqlValue e parameters) (\<lambda>v.
     bindr (normalizeValue c v) (\<lambda>_. check_assignments schema assignments parameters)))"

definition check_row_statement :: "TableSchema \<Rightarrow> SqlStatement \<Rightarrow> SqlValue list \<Rightarrow> unit result" where
  "check_row_statement schema stmt parameters =
     bindr (validate_where schema (statement_where stmt) parameters) (\<lambda>_.
       case stmt of
         Select _ columns _ orders _ _ \<Rightarrow> bindr (validateColumnList schema columns) (\<lambda>_. check_orders schema orders)
       | Update _ assignments _ \<Rightarrow>
           bindr (validateColumnList schema (Some (map fst assignments))) (\<lambda>_. check_assignments schema assignments parameters)
       | _ \<Rightarrow> Inr ())"

definition statement_counts :: "SqlStatement \<Rightarrow> SqlValue list \<Rightarrow> (nat option \<times> nat) result" where
  "statement_counts stmt parameters =
     (case stmt of
        Select _ _ _ _ lim offset \<Rightarrow>
          bindr (resolveCount lim parameters) (\<lambda>l.
          bindr (resolveCount offset parameters) (\<lambda>o'. Inr (l, case o' of None \<Rightarrow> 0 | Some n \<Rightarrow> n)))
      | _ \<Rightarrow> Inr (None, 0))"

definition statement_orders :: "SqlStatement \<Rightarrow> (jsstring \<times> SqlDirection) list" where
  "statement_orders stmt = (case stmt of Select _ _ _ orders _ _ \<Rightarrow> orders | _ \<Rightarrow> [])"

definition select_result ::
  "TableSchema \<Rightarrow> AccessPlan \<Rightarrow> jsstring list option \<Rightarrow> (jsstring \<times> SqlDirection) list \<Rightarrow> nat option \<Rightarrow> nat \<Rightarrow> StoredRow list \<Rightarrow>
     SqlResult result" where
  "select_result schema plan columns orders lim offset rows =
     bindr (if plan_sort (public plan) = MemorySort then sort_rows (\<lambda>l r. compareRows l r orders) rows else Inr rows) (\<lambda>ordered.
       let selected = (case lim of None \<Rightarrow> drop offset ordered | Some n \<Rightarrow> take n (drop offset ordered))
       in Inr \<lparr>result_rows = map (\<lambda>r. projectRow (row_values r) (all_columns schema columns)) selected, rowsAffected = 0,
            result_plan = Some (public plan)\<rparr>)"

definition max_matches :: "SqlStatement \<Rightarrow> AccessPlan \<Rightarrow> nat option \<Rightarrow> nat \<Rightarrow> nat option" where
  "max_matches stmt plan lim offset =
     (case (stmt, lim) of
        (Select _ _ _ _ _ _, Some n) \<Rightarrow>
          if plan_sort (public plan) = NoSort then Some (min (nat max_safe_integer) (offset + n)) else None
      | _ \<Rightarrow> None)"

definition row_statement ::
  "('s, 't, 'z) sql_ops_scheme \<Rightarrow> nat \<Rightarrow> 't \<Rightarrow> TableSchema \<Rightarrow> SqlStatement \<Rightarrow> SqlValue list \<Rightarrow> NormalizedIndexDef list \<Rightarrow> bool \<Rightarrow>
     ('s, SqlResult) eff" where
  "row_statement db fuel tx schema stmt parameters indexes explain =
     bindm (lift_result (check_row_statement schema stmt parameters)) (\<lambda>_.
     bindm (lift_result (planAccess schema (statement_where stmt) (statement_orders stmt) parameters indexes)) (\<lambda>plan.
     bindm (lift_result (statement_counts stmt parameters)) (\<lambda>(lim, offset).
     let planned = (\<lambda>n. \<lparr>result_rows = [], rowsAffected = n, result_plan = Some (public plan)\<rparr>) in
     if explain then ret (planned 0)
     else
       bindm (if lim = Some 0 then ret []
              else readRows db fuel tx schema plan (statement_where stmt) parameters (max_matches stmt plan lim offset)) (\<lambda>rows.
         case stmt of
           Select _ columns _ orders _ _ \<Rightarrow> lift_result (select_result schema plan columns orders lim offset rows)
         | Delete _ _ \<Rightarrow>
             bindm (op_deleteMany db tx (schema_table schema) (map row_key rows)) (\<lambda>_. ret (planned (length rows)))
         | Update _ assignments _ \<Rightarrow>
             bindm (update_rows db tx schema assignments parameters rows) (\<lambda>n. ret (planned n))
         | _ \<Rightarrow> ret (planned 0)))))"

definition executeStatement ::
  "('s, 't, 'z) sql_ops_scheme \<Rightarrow> nat \<Rightarrow> 't \<Rightarrow> SqlStatement \<Rightarrow> SqlValue list \<Rightarrow> NormalizedIndexDef list \<Rightarrow> bool \<Rightarrow>
     ('s, SqlResult) eff" where
  "executeStatement db fuel tx stmt parameters indexes explain =
     bindm (lift_result (assertTableName (statement_table stmt))) (\<lambda>_.
     bindm (readCatalog db tx) (\<lambda>catalogExists.
     bindm (if catalogExists then readSchema db tx (statement_table stmt) else ret None) (\<lambda>schema.
     bindm (case schema of None \<Rightarrow> ret () | Some s \<Rightarrow> assertTableOwnership db tx s) (\<lambda>_.
       case stmt of
         CreateTable table columns ifNotExists \<Rightarrow> create_table db tx catalogExists schema table columns ifNotExists
       | _ \<Rightarrow>
           (case schema of
              None \<Rightarrow>
                (case stmt of
                   DropTable _ True \<Rightarrow> ret (affected 0)
                 | _ \<Rightarrow> raise (Throw SqlSchemaError ''table does not exist''))
            | Some s \<Rightarrow>
                (case stmt of
                   DropTable table _ \<Rightarrow>
                     bindm (op_dropStore db tx table) (\<lambda>_.
                     bindm (op_delete db (InTx tx) CATALOG (schemaKey table)) (\<lambda>_. ret (affected 0)))
                 | Insert _ columns rows \<Rightarrow> insertRows db tx s columns rows parameters
                 | _ \<Rightarrow> row_statement db fuel tx s stmt parameters indexes explain))))))"

section \<open>The client\<close>

definition parse_failure :: "parse_error \<Rightarrow> error" where
  "parse_failure e = (case e of SqlSyntaxError message _ \<Rightarrow> Throw SqlSyntax message | NoToken \<Rightarrow> Throw TypeError [])"

definition parsed_sql :: "jsstring \<Rightarrow> SqlParseResult result" where
  "parsed_sql sql =
     (case parseSql sql of
        None \<Rightarrow> throw InternalError ''the parser does not end''
      | Some (Inl e) \<Rightarrow> Inl (parse_failure e)
      | Some (Inr r) \<Rightarrow> Inr r)"

definition is_select :: "SqlStatement \<Rightarrow> bool" where
  "is_select stmt = (case stmt of Select _ _ _ _ _ _ \<Rightarrow> True | _ \<Rightarrow> False)"

text \<open>The body of the \<^verbatim>\<open>try\<close> block up to the statement; the index definitions the client expects, if any.\<close>

definition run_statement ::
  "('s, 't, 'z) sql_ops_scheme \<Rightarrow> nat \<Rightarrow> NormalizedIndexDef list option \<Rightarrow> 't \<Rightarrow> SqlStatement \<Rightarrow> SqlValue list \<Rightarrow> bool \<Rightarrow> ('s, SqlResult) eff" where
  "run_statement db fuel expectedIndexes tx stmt parameters explain =
     bindm (case op_listIndexes db of None \<Rightarrow> ret (VArray []) | Some list \<Rightarrow> list tx) (\<lambda>listed.
     bindm (lift_result (normalizeIndexDefinitions (if listed \<in> {VUndefined, VNull} then VArray [] else listed))) (\<lambda>indexes.
       case expectedIndexes of
         Some expected \<Rightarrow>
           if serializeNormalizedIndexDefinitions expected \<noteq> serializeNormalizedIndexDefinitions indexes
           then raise (Throw SqlSchemaError ''SQL index definitions do not match the transaction catalog'')
           else executeStatement db fuel tx stmt parameters indexes explain
       | None \<Rightarrow> executeStatement db fuel tx stmt parameters indexes explain))"

definition run ::
  "('s, 't, 'z) sql_ops_scheme \<Rightarrow> nat \<Rightarrow> NormalizedIndexDef list option \<Rightarrow> jsstring \<Rightarrow> jsval \<Rightarrow> bool \<Rightarrow> ('s, SqlResult) eff" where
  "run db fuel expectedIndexes sql parameters explain =
     bindm (lift_result (parsed_sql sql)) (\<lambda>parsed.
     bindm (lift_result (bindSqlParameters parsed parameters)) (\<lambda>bound.
     if explain \<and> \<not> isRowStatement (statement parsed) then raise (Throw SqlSchemaError ''EXPLAIN requires SELECT, UPDATE, or DELETE'')
     else
       bindm (tx_begin db (if is_select (statement parsed) \<or> explain then Readonly else Readwrite)) (\<lambda>tx s.
         case run_statement db fuel expectedIndexes tx (statement parsed) bound explain s of
           (Inr result, s1) \<Rightarrow>
             bindm (if op_mode db tx = Readwrite then tx_commit db tx else tx_rollback db tx) (\<lambda>_. ret result) s1
         | (Inl error, s1) \<Rightarrow>
             (case tx_rollback db tx s1 of
                (Inl _, s2) \<Rightarrow> (throw AggregateError ''SQL statement and rollback failed'', s2)
              | (Inr _, s2) \<Rightarrow> (Inl error, s2)))))"

text \<open>The members of the client object.\<close>

definition createSqlClient :: "jsval option \<Rightarrow> NormalizedIndexDef list option result" where
  "createSqlClient indexes =
     (case indexes of None \<Rightarrow> Inr None | Some v \<Rightarrow> bindr (normalizeIndexDefinitions v) (\<lambda>defs. Inr (Some defs)))"

definition client_execute ::
  "('s, 't, 'z) sql_ops_scheme \<Rightarrow> nat \<Rightarrow> NormalizedIndexDef list option \<Rightarrow> jsstring \<Rightarrow> jsval \<Rightarrow> ('s, SqlResult) eff" where
  "client_execute db fuel expected sql parameters = run db fuel expected sql parameters False"

definition client_query ::
  "('s, 't, 'z) sql_ops_scheme \<Rightarrow> nat \<Rightarrow> NormalizedIndexDef list option \<Rightarrow> jsstring \<Rightarrow> jsval \<Rightarrow>
     ('s, (jsstring \<times> SqlValue) list list) eff" where
  "client_query db fuel expected sql parameters =
     bindm (lift_result (parsed_sql sql)) (\<lambda>parsed.
       if \<not> is_select (statement parsed) then raise (Throw SqlSchemaError ''query() requires SELECT'')
       else bindm (run db fuel expected sql parameters False) (\<lambda>r. ret (result_rows r)))"

definition client_explain ::
  "('s, 't, 'z) sql_ops_scheme \<Rightarrow> nat \<Rightarrow> NormalizedIndexDef list option \<Rightarrow> jsstring \<Rightarrow> jsval \<Rightarrow> ('s, SqlQueryPlan) eff" where
  "client_explain db fuel expected sql parameters =
     bindm (run db fuel expected sql parameters True) (\<lambda>r.
       case result_plan r of None \<Rightarrow> raise (Throw SqlSchemaError ''statement has no query plan'') | Some plan \<Rightarrow> ret plan)"

end
