(* ===== verification/SqlSelect.thy ===== *)
theory SqlSelect
  imports SqlExec
begin

text \<open>
  What a \<^verbatim>\<open>SELECT\<close> of \<^verbatim>\<open>packages/sdk/src/sql.ts\<close> returns: the specification over the items of the table, the
  documented behaviour of the transaction's reads, and the proof that \<^verbatim>\<open>executeRowStatement\<close> with its access
  plan, its pages and its sort returns what the specification says.
\<close>

section \<open>Reads of a transaction\<close>

definition directed :: "range \<Rightarrow> 'a list \<Rightarrow> 'a list" where
  "directed r xs = (if reverse r = Some True then rev xs else xs)"

definition table_scan :: "range \<Rightarrow> (bytes \<times> bytes) list \<Rightarrow> (bytes \<times> bytes) list" where
  "table_scan r items = directed r (filter (\<lambda>(k, _). in_range k r) items)"

definition indexed :: "NormalizedIndexDef \<Rightarrow> range \<Rightarrow> bytes \<times> bytes \<Rightarrow> bool" where
  "indexed d r item = (case extractLogicalIndexKey d (snd item) of Inr (Some a) \<Rightarrow> in_range a r | _ \<Rightarrow> False)"

definition index_scan :: "NormalizedIndexDef \<Rightarrow> range \<Rightarrow> (bytes \<times> bytes) list \<Rightarrow> (bytes \<times> bytes) list" where
  "index_scan d r items = directed r (sort_key (item_position (Some d)) (filter (indexed d r) items))"

text \<open>
  The reads of a transaction whose view of a table are the given items. \<open>V\<close> holds of the states with that
  view; reads keep it. \<open>remaining\<close> are the items a scan cursor has still to return.
\<close>

definition point_reads ::
  "('s, 't, 'z) sql_ops_scheme \<Rightarrow> 't \<Rightarrow> ('s \<Rightarrow> bool) \<Rightarrow> jsstring \<Rightarrow> (bytes \<times> bytes) list \<Rightarrow> bool" where
  "point_reads db tx V table items \<longleftrightarrow>
     (\<forall>s key. V s \<longrightarrow> (\<exists>s'. op_get db (InTx tx) table key s = (Inr (map_of items key), s') \<and> V s'))"

definition scan_reads ::
  "('s, 't, 'z) sql_ops_scheme \<Rightarrow> 't \<Rightarrow> ('s \<Rightarrow> bool) \<Rightarrow> jsstring \<Rightarrow> (bytes \<times> bytes) list \<Rightarrow> bool" where
  "scan_reads db tx V table items \<longleftrightarrow>
     (\<forall>s r. V s \<and> scan_range r \<longrightarrow> (\<exists>s'. op_scan db (InTx tx) table r s = (Inr (table_scan r items), s') \<and> V s'))"

definition index_reads ::
  "('s, 't, 'z) sql_ops_scheme \<Rightarrow> 't \<Rightarrow> ('s \<Rightarrow> bool) \<Rightarrow> jsstring \<Rightarrow> NormalizedIndexDef list \<Rightarrow> (bytes \<times> bytes) list \<Rightarrow> bool" where
  "index_reads db tx V table indexes items \<longleftrightarrow>
     (\<forall>s r d. V s \<and> scan_range r \<and> d \<in> set indexes \<and> def_store d = table \<longrightarrow>
        (\<exists>s'. op_scanByIndex db tx table (def_name d) r s = (Inr (index_scan d r items), s') \<and> V s'))"

definition position ::
  "('s \<Rightarrow> nat \<Rightarrow> (bytes \<times> bytes) list option) \<Rightarrow> range \<Rightarrow> (bytes \<times> bytes) list \<Rightarrow> 's \<Rightarrow> nat option \<Rightarrow> (bytes \<times> bytes) list option" where
  "position remaining r items s cursor =
     (case cursor of None \<Rightarrow> Some (table_scan r items) | Some i \<Rightarrow> remaining s i)"

definition page_reads ::
  "('s, 't, 'z) sql_ops_scheme \<Rightarrow> 't \<Rightarrow> ('s \<Rightarrow> bool) \<Rightarrow> ('s \<Rightarrow> nat \<Rightarrow> (bytes \<times> bytes) list option) \<Rightarrow> jsstring \<Rightarrow>
     (bytes \<times> bytes) list \<Rightarrow> bool" where
  "page_reads db tx V remaining table items \<longleftrightarrow>
     (\<forall>s r cursor n todo. V s \<and> scan_range r \<and> 0 < n \<and> position remaining r items s cursor = Some todo \<longrightarrow>
        (\<exists>page s' todo'. op_scanPage db tx table r cursor n s = (Inr page, s') \<and> V s' \<and> todo = page_rows page @ todo' \<and>
           (if page_done page then todo' = [] \<and> page_cursor page = None
            else page_rows page \<noteq> [] \<and> (\<exists>i. page_cursor page = Some i \<and> remaining s' i = Some todo')))) \<and>
     (\<forall>s i todo. V s \<and> remaining s i = Some todo \<longrightarrow> (\<exists>s'. op_closeScanCursor db tx i s = (Inr (), s') \<and> V s'))"

section \<open>The rows of a table\<close>

text \<open>A table store holds its owner record and stored rows, in key order.\<close>

definition table_items :: "TableSchema \<Rightarrow> (bytes \<times> bytes) list \<Rightarrow> bool" where
  "table_items schema items \<longleftrightarrow> sorted_wrt (<) (map fst items) \<and>
     (\<forall>(key, bs) \<in> set items. key = TABLE_OWNER_KEY \<or> (\<exists>row. stored_row schema row key bs))"

definition item_row :: "TableSchema \<Rightarrow> SqlExpression option \<Rightarrow> SqlValue list \<Rightarrow> bytes \<times> bytes \<Rightarrow> StoredRow option" where
  "item_row schema expression parameters item =
     (if fst item = TABLE_OWNER_KEY then None
      else case decodeRow schema item of
        Inl _ \<Rightarrow> None
      | Inr row \<Rightarrow>
          (case expression of
             None \<Rightarrow> Some row
           | Some e \<Rightarrow> if evaluateWhere (row_values row) e parameters = Inr (Some True) then Some row else None))"

text \<open>The rows that satisfy the predicate, in the order of the items.\<close>

definition matching_rows ::
  "TableSchema \<Rightarrow> SqlExpression option \<Rightarrow> SqlValue list \<Rightarrow> (bytes \<times> bytes) list \<Rightarrow> StoredRow list" where
  "matching_rows schema expression parameters items = List.map_filter (item_row schema expression parameters) items"

lemma matching_rows_simps [simp]:
  "matching_rows schema expression parameters [] = []"
  "matching_rows schema expression parameters (item # items) =
     (case item_row schema expression parameters item of None \<Rightarrow> [] | Some r \<Rightarrow> [r]) @ matching_rows schema expression parameters items"
  "matching_rows schema expression parameters (items @ items') =
     matching_rows schema expression parameters items @ matching_rows schema expression parameters items'"
  by (simp_all add: matching_rows_def map_filter_simps map_filter_def split: option.split)

definition cut_at :: "nat option \<Rightarrow> 'a list \<Rightarrow> 'a list" where
  "cut_at mm xs = (case mm of None \<Rightarrow> xs | Some m \<Rightarrow> take m xs)"

definition reached :: "nat option \<Rightarrow> 'a list \<Rightarrow> bool" where
  "reached mm xs \<longleftrightarrow> (\<exists>m. mm = Some m \<and> m \<le> length xs)"

lemma owner_key_iff: "length k = 1 \<and> read_at k 0 = read_at TABLE_OWNER_KEY 0 \<longleftrightarrow> k = TABLE_OWNER_KEY"
  by (cases k) (auto simp: TABLE_OWNER_KEY_def read_at_def)

text \<open>Reading one item of a table with a validated predicate.\<close>

lemma accept_item:
  assumes "schema_ok schema" and "validate_where schema expression ps = Inr ()"
    and "fst item = TABLE_OWNER_KEY \<or> (\<exists>row. stored_row schema row (fst item) (snd item))" and "\<not> reached mm rows"
  shows "\<exists>stop. accept schema expression ps mm rows item = Inr (stop, rows @ matching_rows schema expression ps [item]) \<and>
    (stop \<longleftrightarrow> reached mm (rows @ matching_rows schema expression ps [item]))"
proof (cases "fst item = TABLE_OWNER_KEY")
  case True
  then show ?thesis using assms(4) owner_key_iff [of "fst item"] by (auto simp: accept_def item_row_def reached_def)
next
  case False
  then obtain row where row: "stored_row schema row (fst item) (snd item)" using assms(3) by blast
  let ?r = "\<lparr>row_key = fst item, row_values = row\<rparr>"
  have dc: "distinct_columns schema" using assms(1) by (simp add: schema_ok_def)
  have d: "decodeRow schema item = Inr ?r"
    using row decodeRow_matches [OF dc, of row "snd item" "fst item"] by (simp add: stored_row_def)
  obtain t where t: "(case expression of None \<Rightarrow> Inr (Some True) | Some e \<Rightarrow> evaluateWhere row e ps) = Inr t"
    using evaluateWhere_total [of schema _ ps row] assms(2) row
    by (cases expression) (auto simp: validate_where_def stored_row_def simp del: validateWhere.simps)
  have m: "item_row schema expression ps item = (if t = Some True then Some ?r else None)"
    using False d t by (cases expression) (auto simp: item_row_def)
  have not: "\<not> (length (fst item) = 1 \<and> read_at (fst item) 0 = read_at TABLE_OWNER_KEY 0)" using False owner_key_iff by blast
  show ?thesis unfolding accept_def if_not_P [OF not] using d t m assms(4) by (auto simp: Let_def reached_def split: option.split)
qed

lemma accept_items_matching:
  assumes "schema_ok schema" and "validate_where schema expression ps = Inr ()"
    and "\<And>key bs. (key, bs) \<in> set items \<Longrightarrow> key = TABLE_OWNER_KEY \<or> (\<exists>row. stored_row schema row key bs)" and "\<not> reached mm rows"
  shows "\<exists>stop. accept_items schema expression ps mm rows items = Inr (stop, cut_at mm (rows @ matching_rows schema expression ps items)) \<and>
    (stop \<longleftrightarrow> reached mm (rows @ matching_rows schema expression ps items))"
  using assms(3,4)
proof (induction items arbitrary: rows)
  case Nil
  then show ?case by (auto simp: reached_def cut_at_def split: option.split)
next
  case (Cons item items)
  let ?rows = "rows @ matching_rows schema expression ps [item]"
  have "fst item = TABLE_OWNER_KEY \<or> (\<exists>row. stored_row schema row (fst item) (snd item))"
    using Cons.prems(1) [of "fst item" "snd item"] by simp
  then obtain stop where a: "accept schema expression ps mm rows item = Inr (stop, ?rows)" "stop \<longleftrightarrow> reached mm ?rows"
    using accept_item [OF assms(1,2) _ Cons.prems(2)] by blast
  have all: "rows @ matching_rows schema expression ps (item # items) = ?rows @ matching_rows schema expression ps items" by simp
  show ?case
  proof (cases stop)
    case True
    then obtain m where m: "mm = Some m" "m \<le> length ?rows" using a(2) by (auto simp: reached_def)
    have "length ?rows \<le> Suc (length rows)" by (simp split: option.split)
    then have "length ?rows = m" using m Cons.prems(2) by (simp add: reached_def)
    then show ?thesis using a(1) True m unfolding all by (intro exI [of _ True]) (simp add: cut_at_def reached_def)
  next
    case False
    then show ?thesis using Cons.IH [of ?rows] Cons.prems(1) a unfolding all by simp
  qed
qed

section \<open>The items a plan visits\<close>

lemma page_loop_matching:
  assumes "schema_ok schema" and "validate_where schema expression ps = Inr ()" and "table_items schema items"
    and "page_reads db tx V remaining (schema_table schema) items" and "scan_range r"
    and "V s" "position remaining r items s cursor = Some todo" "set todo \<subseteq> set items" "length todo < fuel" "\<not> reached mm rows"
  shows "\<exists>cursor' s'. page_loop db tx schema r expression ps mm fuel cursor rows s =
      ((Inr (cut_at mm (rows @ matching_rows schema expression ps todo)), cursor'), s') \<and> V s' \<and>
    (\<forall>i. cursor' = Some i \<longrightarrow> (\<exists>todo'. remaining s' i = Some todo'))"
  using assms(6-10)
proof (induction fuel arbitrary: s cursor todo rows)
  case (Suc fuel)
  let ?n = "min 256 (case mm of None \<Rightarrow> 256 | Some m \<Rightarrow> m - length rows)"
  have n: "0 < ?n" using Suc.prems(5) by (auto simp: reached_def split: option.split)
  obtain page s' todo' where page: "op_scanPage db tx (schema_table schema) r cursor ?n s = (Inr page, s')" "V s'"
      "todo = page_rows page @ todo'"
      "if page_done page then todo' = [] \<and> page_cursor page = None
       else page_rows page \<noteq> [] \<and> (\<exists>i. page_cursor page = Some i \<and> remaining s' i = Some todo')"
    using assms(4,5) Suc.prems(1,2) n unfolding page_reads_def by blast
  let ?rows = "rows @ matching_rows schema expression ps (page_rows page)"
  have "key = TABLE_OWNER_KEY \<or> (\<exists>row. stored_row schema row key bs)" if "(key, bs) \<in> set (page_rows page)" for key bs
    using that Suc.prems(3) page(3) assms(3) by (auto simp: table_items_def)
  then obtain stop where a: "accept_items schema expression ps mm rows (page_rows page) = Inr (stop, cut_at mm ?rows)" "stop \<longleftrightarrow> reached mm ?rows"
    using accept_items_matching [OF assms(1,2) _ Suc.prems(5)] by blast
  have cut: "cut_at mm ?rows = ?rows" if "\<not> stop" using that a(2) by (auto simp: cut_at_def reached_def split: option.split)
  have cut_stop: "cut_at mm (?rows @ xs) = cut_at mm ?rows" if stop for xs using that a(2) by (auto simp: cut_at_def reached_def)
  show ?case
  proof (cases "stop \<or> page_done page")
    case True
    have "cut_at mm (rows @ matching_rows schema expression ps todo) = cut_at mm ?rows"
      using True page(3,4) cut_stop by (cases stop) auto
    then show ?thesis using page a True by (auto split: if_splits)
  next
    case False
    then obtain i where i: "page_cursor page = Some i" "remaining s' i = Some todo'" "page_rows page \<noteq> []" using page(4) by auto
    have "length todo' < fuel" using Suc.prems(4) page(3) i(3) by (cases "page_rows page") simp_all
    then have "\<exists>cursor' s''. page_loop db tx schema r expression ps mm fuel (Some i) ?rows s' =
        ((Inr (cut_at mm (?rows @ matching_rows schema expression ps todo')), cursor'), s'') \<and> V s'' \<and>
      (\<forall>i. cursor' = Some i \<longrightarrow> (\<exists>todo'. remaining s'' i = Some todo'))"
      using Suc.prems(3) page(2,3) i(2) False a(2) by (intro Suc.IH) (auto simp: position_def)
    then show ?thesis using page(1,3) a(1) False i(1) cut by simp
  qed
qed simp

lemma read_pages_matching:
  assumes "schema_ok schema" and "validate_where schema expression ps = Inr ()" and "table_items schema items"
    and "page_reads db tx V remaining (schema_table schema) items" and "scan_range r"
    and "V s" "length items < fuel" "\<not> reached mm ([] :: StoredRow list)"
  shows "\<exists>s'. read_pages db fuel tx schema r expression ps mm s =
      (Inr (cut_at mm (matching_rows schema expression ps (table_scan r items))), s') \<and> V s'"
proof -
  let ?todo = "table_scan r items"
  have set: "set ?todo \<subseteq> set items" by (auto simp: table_scan_def directed_def)
  have len: "length ?todo < fuel"
    using le_less_trans [OF length_filter_le assms(7)] by (simp add: table_scan_def directed_def)
  have pos: "position remaining r items s None = Some ?todo" by (simp add: position_def)
  obtain cursor' s' where loop: "page_loop db tx schema r expression ps mm fuel None [] s =
      ((Inr (cut_at mm ([] @ matching_rows schema expression ps ?todo)), cursor'), s')" "V s'"
    "\<forall>i. cursor' = Some i \<longrightarrow> (\<exists>todo'. remaining s' i = Some todo')"
    using page_loop_matching [OF assms(1-5,6) pos set len assms(8)] by blast
  show ?thesis
  proof (cases cursor')
    case None
    then show ?thesis using loop by (simp add: read_pages_def)
  next
    case (Some i)
    then obtain todo' where "remaining s' i = Some todo'" using loop(3) by blast
    then have "\<exists>s''. op_closeScanCursor db tx i s' = (Inr (), s'') \<and> V s''"
      using assms(4) loop(2) unfolding page_reads_def by blast
    then show ?thesis using loop(1) Some by (auto simp: read_pages_def)
  qed
qed

text \<open>The range an index is scanned with: a looked up key bounds it on both sides.\<close>

definition lookup_range :: "AccessPlan \<Rightarrow> range" where
  "lookup_range plan =
     (case access_key plan of None \<Rightarrow> plan_range plan | Some k \<Rightarrow> (plan_range plan)\<lparr>gte := Some k, lte := Some k\<rparr>)"

lemma lookup_range_iff:
  assumes "planAccess schema expression orders ps indexes = Inr plan"
  shows "in_range a (lookup_range plan) \<longleftrightarrow> in_access plan a" and "scan_range (lookup_range plan)"
    and "reverse (lookup_range plan) = reverse (plan_range plan)"
  using planAccess_range [OF assms]
  by (auto simp: lookup_range_def in_access_def plan_range_def in_range_def empty_range_def scan_range_def split: option.splits)

text \<open>The items a plan visits, in the order it visits them.\<close>

definition visits ::
  "TableSchema \<Rightarrow> NormalizedIndexDef list \<Rightarrow> AccessPlan \<Rightarrow> (bytes \<times> bytes) list \<Rightarrow> (bytes \<times> bytes) list \<Rightarrow> bool" where
  "visits schema indexes plan items T \<longleftrightarrow>
     (if access_empty plan then T = []
      else case plan_index (public plan) of
        Some name \<Rightarrow> (\<forall>d \<in> set indexes. def_store d = schema_table schema \<and> def_name d = name \<longrightarrow> T = index_scan d (lookup_range plan) items)
      | None \<Rightarrow>
          (case access_key plan of
             Some k \<Rightarrow> T = filter (\<lambda>item. fst item = k) items
           | None \<Rightarrow> T = table_scan (plan_range plan) items))"

lemma set_directed [simp]: "set (directed r xs) = set xs"
  by (simp add: directed_def)

lemma distinct_directed [simp]: "distinct (directed r xs) = distinct xs"
  by (simp add: directed_def)

lemma set_index_scan: "set (index_scan d r items) = {item \<in> set items. indexed d r item}"
  by (auto simp: index_scan_def)

lemma table_items_distinct: "table_items schema items \<Longrightarrow> distinct (map fst items) \<and> distinct items"
  by (auto simp: table_items_def strict_sorted_iff distinct_map)

text \<open>A plan visits items of the table, each once, and every item it covers.\<close>

lemma visits_items:
  assumes "planAccess schema expression orders ps indexes = Inr plan" and "visits schema indexes plan items T" and "table_items schema items"
  shows "set T \<subseteq> set items \<and> distinct T \<and>
    (\<forall>key bs. (key, bs) \<in> set items \<longrightarrow> plan_covers schema indexes plan key bs \<longrightarrow> (key, bs) \<in> set T)"
proof -
  note distinct = table_items_distinct [OF assms(3)]
  note range = lookup_range_iff [OF assms(1)]
  show ?thesis
  proof (cases "access_empty plan")
    case True
    then show ?thesis using assms(2) by (simp add: visits_def plan_covers_def)
  next
    case False
    show ?thesis
    proof (cases "plan_index (public plan)")
      case None
      then show ?thesis
        using assms(2) False distinct range(1)
        by (auto simp: visits_def plan_covers_def table_scan_def in_access_def plan_range_def split: option.splits)
    next
      case (Some name)
      then obtain d where d: "d \<in> set indexes" "def_store d = schema_table schema" "def_name d = name"
        using planAccess_range [OF assms(1)] by blast
      have T: "T = index_scan e (lookup_range plan) items"
        if "e \<in> set indexes" "def_store e = schema_table schema" "def_name e = name" for e
        using assms(2) False Some that by (simp add: visits_def)
      have "distinct T" "set T \<subseteq> set items" using T [OF d] distinct by (auto simp: index_scan_def)
      moreover have "(key, bs) \<in> set T" if "(key, bs) \<in> set items" "plan_covers schema indexes plan key bs" for key bs
      proof -
        note covered = that
        obtain e a where e: "e \<in> set indexes" "def_store e = schema_table schema" "def_name e = name"
          "extractLogicalIndexKey e bs = Inr (Some a)" "in_access plan a"
          using covered(2) Some by (auto simp: plan_covers_def)
        then have "indexed e (lookup_range plan) (key, bs)" using range(1) by (simp add: indexed_def)
        then show ?thesis using T [OF e(1-3)] covered(1) by (simp add: set_index_scan)
      qed
      ultimately show ?thesis by blast
    qed
  qed
qed

lemma map_of_filter: "distinct (map fst xs) \<Longrightarrow> filter (\<lambda>x. fst x = k) xs = (case map_of xs k of None \<Rightarrow> [] | Some v \<Rightarrow> [(k, v)])"
proof (induction xs)
  case (Cons x xs)
  have "filter (\<lambda>x. fst x = k) xs = []" if "fst x = k" using Cons.prems that by (auto simp: filter_empty_conv rev_image_eqI)
  then show ?case using Cons by (cases x) auto
qed simp

text \<open>The reads of a table whose items the transaction sees.\<close>

definition table_reads ::
  "('s, 't, 'z) sql_ops_scheme \<Rightarrow> 't \<Rightarrow> ('s \<Rightarrow> bool) \<Rightarrow> ('s \<Rightarrow> nat \<Rightarrow> (bytes \<times> bytes) list option) \<Rightarrow> jsstring \<Rightarrow>
     NormalizedIndexDef list \<Rightarrow> (bytes \<times> bytes) list \<Rightarrow> bool" where
  "table_reads db tx V remaining table indexes items \<longleftrightarrow>
     point_reads db tx V table items \<and> index_reads db tx V table indexes items \<and>
     (if op_has_cursors db tx then page_reads db tx V remaining table items else scan_reads db tx V table items)"

lemma readRows_matching:
  assumes "planAccess schema expression orders ps indexes = Inr plan"
    and "schema_ok schema" and "validate_where schema expression ps = Inr ()" and "table_items schema items"
    and "table_reads db tx V remaining (schema_table schema) indexes items"
    and "V s" and "length items < fuel" and "\<not> reached mm ([] :: StoredRow list)"
  shows "\<exists>T s'. readRows db fuel tx schema plan expression ps mm s = (Inr (cut_at mm (matching_rows schema expression ps T)), s') \<and> V s' \<and>
    visits schema indexes plan items T"
proof -
  have collect: "\<exists>stop. accept_items schema expression ps mm [] T = Inr (stop, cut_at mm (matching_rows schema expression ps T))"
    if "set T \<subseteq> set items" for T
  proof -
    have "key = TABLE_OWNER_KEY \<or> (\<exists>row. stored_row schema row key bs)" if "(key, bs) \<in> set T" for key bs
      using that \<open>set T \<subseteq> set items\<close> assms(4) by (auto simp: table_items_def)
    from accept_items_matching [OF assms(2,3) this assms(8)] show ?thesis by auto
  qed
  note reads = assms(5) [unfolded table_reads_def]
  note range = planAccess_range [OF assms(1)]
  show ?thesis
  proof (cases "access_empty plan")
    case True
    then show ?thesis using assms(6) by (auto simp: readRows_def visits_def cut_at_def eff_simps split: option.split)
  next
    case False
    show ?thesis
    proof (cases "plan_index (public plan)")
      case (Some name)
      obtain d where d: "d \<in> set indexes" "def_store d = schema_table schema" "def_name d = name"
        using range Some by blast
      have scan: "\<exists>s'. op_scanByIndex db tx (schema_table schema) name (lookup_range plan) s = (Inr (index_scan e (lookup_range plan) items), s') \<and> V s'"
        if "e \<in> set indexes" "def_store e = schema_table schema" "def_name e = name" for e
        using reads assms(6) that lookup_range_iff(2) [OF assms(1)] by (auto simp: index_reads_def)
      let ?T = "index_scan d (lookup_range plan) items"
      obtain s' where s': "op_scanByIndex db tx (schema_table schema) name (lookup_range plan) s = (Inr ?T, s')" "V s'"
        using scan [OF d] by blast
      have "visits schema indexes plan items ?T"
        using scan s'(1) False Some by (fastforce simp: visits_def)
      moreover obtain stop where "accept_items schema expression ps mm [] ?T = Inr (stop, cut_at mm (matching_rows schema expression ps ?T))"
        using collect [of ?T] by (auto simp: set_index_scan)
      ultimately show ?thesis
        using s' False Some by (auto simp: readRows_def eff_simps Let_def simp flip: lookup_range_def)
    next
      case None
      show ?thesis
      proof (cases "access_key plan")
        case key: (Some k)
        let ?T = "filter (\<lambda>item. fst item = k) items"
        obtain s' where s': "op_get db (InTx tx) (schema_table schema) k s = (Inr (map_of items k), s')" "V s'"
          using reads assms(6) unfolding point_reads_def by blast
        obtain stop where a: "accept_items schema expression ps mm [] ?T = Inr (stop, cut_at mm (matching_rows schema expression ps ?T))"
          using collect [of ?T] by auto
        have v: "visits schema indexes plan items ?T" using False None key by (simp add: visits_def)
        have T: "?T = (case map_of items k of None \<Rightarrow> [] | Some v \<Rightarrow> [(k, v)])"
          using map_of_filter [of items k] table_items_distinct [OF assms(4)] by simp
        have "readRows db fuel tx schema plan expression ps mm s = (Inr (cut_at mm (matching_rows schema expression ps ?T)), s')"
        proof (cases "map_of items k")
          case none: None
          then show ?thesis using s' False None key T by (simp add: readRows_def eff_simps Let_def cut_at_def split: option.split)
        next
          case (Some bs)
          then have "?T = [(k, bs)]" using T by simp
          with a have "accept_items schema expression ps mm [] [(k, bs)] = Inr (stop, cut_at mm (matching_rows schema expression ps ?T))" by simp
          then show ?thesis using s' False None key Some by (simp add: readRows_def eff_simps Let_def del: accept_items.simps)
        qed
        then show ?thesis using s'(2) v by blast
      next
        case no_key: None
        let ?T = "table_scan (plan_range plan) items"
        have v: "visits schema indexes plan items ?T" using False None no_key by (simp add: visits_def)
        have lim: "scan_range (plan_range plan)" using range by (simp add: plan_range_def)
        show ?thesis
        proof (cases "op_has_cursors db tx")
          case True
          then have pages: "page_reads db tx V remaining (schema_table schema) items" using reads by simp
          obtain s' where "read_pages db fuel tx schema (plan_range plan) expression ps mm s =
              (Inr (cut_at mm (matching_rows schema expression ps ?T)), s')" "V s'"
            using read_pages_matching [OF assms(2-4) pages lim assms(6-8)] by blast
          then show ?thesis using v False None no_key True by (auto simp: readRows_def Let_def)
        next
          case no_cursors: False
          then obtain s' where "op_scan db (InTx tx) (schema_table schema) (plan_range plan) s = (Inr ?T, s')" "V s'"
            using reads assms(6) lim by (auto simp: scan_reads_def)
          moreover obtain stop where "accept_items schema expression ps mm [] ?T = Inr (stop, cut_at mm (matching_rows schema expression ps ?T))"
            using collect [of ?T] by (auto simp: table_scan_def)
          ultimately show ?thesis using v False None no_key no_cursors by (auto simp: readRows_def eff_simps Let_def)
        qed
      qed
    qed
  qed
qed

section \<open>Order\<close>

lemma insert_row_sorted_correct:
  assumes "schema_ok schema" "orders_ok schema orders" "stored_ok schema x"
  shows "list_all (stored_ok schema) ys \<Longrightarrow> sorted_wrt (row_le orders) ys \<Longrightarrow>
    \<exists>zs. insert_row_sorted (\<lambda>l r. compareRows l r orders) x ys = Inr zs \<and> mset zs = add_mset x (mset ys) \<and> sorted_wrt (row_le orders) zs"
proof (induction ys)
  case (Cons y ys)
  obtain c where c: "compareRows x y orders = Inr c" using compareRows_total assms Cons.prems(1) by fastforce
  show ?case
  proof (cases "c \<le> 0")
    case True
    then have xy: "row_le orders x y" using c by (simp add: row_le_def)
    have "row_le orders x z" if "z \<in> set ys" for z
      using row_le_trans [OF assms(1,2) assms(3) _ _ xy] Cons.prems that by (auto simp: list_all_iff)
    then show ?thesis using True c xy Cons.prems by auto
  next
    case False
    then have "\<not> row_le orders x y" using c by (auto simp: row_le_def)
    then have yx: "row_le orders y x" using row_le_total assms Cons.prems(1) by fastforce
    obtain zs where zs: "insert_row_sorted (\<lambda>l r. compareRows l r orders) x ys = Inr zs" "mset zs = add_mset x (mset ys)"
        "sorted_wrt (row_le orders) zs" using Cons by auto
    have "set zs = insert x (set ys)" using zs(2) by (metis set_mset_add_mset_insert set_mset_mset)
    then show ?thesis using zs c False yx Cons.prems(2) by auto
  qed
qed simp

lemma sort_rows_correct:
  assumes "schema_ok schema" "orders_ok schema orders"
  shows "list_all (stored_ok schema) rows \<Longrightarrow>
    \<exists>zs. sort_rows (\<lambda>l r. compareRows l r orders) rows = Inr zs \<and> mset zs = mset rows \<and> sorted_wrt (row_le orders) zs"
proof (induction rows)
  case (Cons x rows)
  then obtain zs where zs: "sort_rows (\<lambda>l r. compareRows l r orders) rows = Inr zs" "mset zs = mset rows" "sorted_wrt (row_le orders) zs"
    by auto
  have "list_all (stored_ok schema) zs" using Cons.prems zs(2) mset_eq_setD by (fastforce simp: list_all_iff)
  then show ?case using insert_row_sorted_correct [OF assms, of x zs] Cons.prems zs by auto
qed simp

text \<open>A unique index of the table has no logical key twice.\<close>

definition unique_entries :: "(bytes \<times> bytes) list \<Rightarrow> NormalizedIndexDef \<Rightarrow> bool" where
  "unique_entries items d \<longleftrightarrow>
     (\<forall>x \<in> set items. \<forall>y \<in> set items. \<forall>a.
        extractLogicalIndexKey d (snd x) = Inr (Some a) \<longrightarrow> extractLogicalIndexKey d (snd y) = Inr (Some a) \<longrightarrow> fst x = fst y)"

lemma item_row_stored:
  assumes "table_items schema items" "schema_ok schema" "item \<in> set items" "item_row schema expression ps item = Some a"
  obtains row where "stored_row schema row (fst item) (snd item)" "a = \<lparr>row_key = fst item, row_values = row\<rparr>"
proof -
  obtain key bs where item: "item = (key, bs)" by (cases item)
  have "key \<noteq> TABLE_OWNER_KEY" using assms(4) item by (auto simp: item_row_def)
  then obtain row where row: "stored_row schema row key bs" using assms(1,3) item by (auto simp: table_items_def)
  then have "decodeRow schema item = Inr \<lparr>row_key = key, row_values = row\<rparr>"
    using decodeRow_matches [of schema row bs key] assms(2) item by (simp add: stored_row_def schema_ok_def)
  then have "a = \<lparr>row_key = key, row_values = row\<rparr>"
    using assms(4) by (auto simp: item_row_def split: option.splits if_splits)
  then show thesis using that row item by simp
qed

lemma matching_rows_member: "a \<in> set (matching_rows schema expression ps items) \<longleftrightarrow> (\<exists>item \<in> set items. item_row schema expression ps item = Some a)"
  by (induction items) (auto split: option.splits)

lemma matching_rows_stored:
  assumes "table_items schema items" "schema_ok schema"
  shows "list_all (stored_ok schema) (matching_rows schema expression ps items)"
proof -
  have "stored_ok schema a" if row: "item \<in> set items" "item_row schema expression ps item = Some a" for item a
    by (rule item_row_stored [OF assms row]) (simp add: stored_ok_def stored_row_def)
  then show ?thesis by (auto simp: list_all_iff matching_rows_member)
qed

lemma sorted_wrt_matching:
  assumes "sorted_wrt P T"
    and "\<And>p q a b. p \<in> set T \<Longrightarrow> q \<in> set T \<Longrightarrow> P p q \<Longrightarrow> item_row schema expression ps p = Some a \<Longrightarrow>
      item_row schema expression ps q = Some b \<Longrightarrow> Q a b"
  shows "sorted_wrt Q (matching_rows schema expression ps T)"
  using assms
proof (induction T)
  case (Cons p T)
  have "sorted_wrt Q (matching_rows schema expression ps T)"
  proof (rule Cons.IH)
    show "sorted_wrt P T" using Cons.prems(1) by simp
  qed (rule Cons.prems(2), simp_all)
  moreover have "Q a b" if "item_row schema expression ps p = Some a" "b \<in> set (matching_rows schema expression ps T)" for a b
  proof -
    note h = that
    obtain q where "q \<in> set T" "item_row schema expression ps q = Some b" using h(2) by (auto simp: matching_rows_member)
    then show ?thesis using Cons.prems(1) h(1) by (intro Cons.prems(2) [of p q]) simp_all
  qed
  ultimately show ?case by (cases "item_row schema expression ps p") (simp_all add: matching_rows_def map_filter_simps)
qed simp

lemma sorted_directed:
  "sorted_wrt P xs \<Longrightarrow> sorted_wrt (\<lambda>p q. if reverse r = Some True then P q p else P p q) (directed r xs)"
  by (simp add: directed_def sorted_wrt_rev)

lemma table_scan_sorted:
  assumes "table_items schema items" and "reverse r = Some True \<longleftrightarrow> backwards"
  shows "sorted_wrt (visited_before backwards None) (table_scan r items)"
proof -
  have "sorted_wrt (\<lambda>p q. fst p < fst q) (filter (\<lambda>(k, _). in_range k r) items)"
    using assms(1) by (intro sorted_wrt_filter) (simp add: table_items_def sorted_wrt_map)
  from sorted_directed [OF this, of r] show ?thesis
    unfolding table_scan_def by (rule sorted_wrt_mono_rel [rotated]) (simp add: visited_before_def item_position_def assms(2) split: if_splits)
qed

lemma index_scan_sorted:
  assumes "table_items schema items" and "reverse r = Some True \<longleftrightarrow> backwards"
  shows "sorted_wrt (visited_before backwards (Some d)) (index_scan d r items)"
proof -
  let ?f = "item_position (Some d)" and ?xs = "filter (indexed d r) items"
  have "inj_on ?f (set items)"
    using table_items_distinct [OF assms(1)] by (auto simp: inj_on_def item_position_def distinct_map)
  then have "distinct (map ?f (sort_key ?f ?xs))"
    using table_items_distinct [OF assms(1)] by (auto simp: distinct_map inj_on_def)
  then have "sorted_wrt (<) (map ?f (sort_key ?f ?xs))" by (simp add: strict_sorted_iff)
  then have "sorted_wrt (\<lambda>p q. ?f p < ?f q) (sort_key ?f ?xs)" by (simp add: sorted_wrt_map)
  from sorted_directed [OF this, of r] show ?thesis
    unfolding index_scan_def by (rule sorted_wrt_mono_rel [rotated]) (simp add: visited_before_def assms(2) split: if_splits)
qed

text \<open>A plan without a sort visits the rows in the requested order.\<close>

lemma visits_sorted:
  assumes "planAccess schema expression orders ps indexes = Inr plan" and "plan_sort (public plan) = NoSort" "orders \<noteq> []"
    and "schema_ok schema" "orders_ok schema orders" "table_items schema items" "visits schema indexes plan items T"
    and "\<And>d. d \<in> set indexes \<Longrightarrow> def_store d = schema_table schema \<Longrightarrow> def_unique d \<Longrightarrow> unique_entries items d"
  shows "sorted_wrt (row_le orders) (matching_rows schema expression ps T)"
proof (cases "access_empty plan")
  case True
  then show ?thesis using assms(7) by (simp add: visits_def)
next
  case False
  obtain c index r where c: "(c, index) \<in> set (plan_candidates schema indexes)" "plan_index (public plan) = index_name index"
    "traversalOrder schema c index orders (access_key plan)" "access_range plan = Some r" "reverse r = Some True \<longleftrightarrow> descending orders"
    by (rule planAccess_candidate [OF assms(1-3)])
  have r: "plan_range plan = r" using c(4) by (simp add: plan_range_def)
  have T: "set T \<subseteq> set items" using visits_items [OF assms(1,7,6)] by blast
  have ordered: ?thesis
    if sorted: "sorted_wrt (visited_before (descending orders) index) T"
      and lookup: "\<And>k item. access_key plan = Some k \<Longrightarrow> item \<in> set T \<Longrightarrow> hd (item_position index item) = k"
      and unique: "\<And>d p q. index = Some d \<Longrightarrow> def_unique d \<Longrightarrow> p \<in> set T \<Longrightarrow> q \<in> set T \<Longrightarrow>
          logical_key d (snd p) = logical_key d (snd q) \<Longrightarrow> fst p = fst q"
  proof (rule sorted_wrt_matching [OF sorted])
    fix p q a b
    assume pq: "p \<in> set T" "q \<in> set T" "visited_before (descending orders) index p q"
      and rows: "item_row schema expression ps p = Some a" "item_row schema expression ps q = Some b"
    have items: "p \<in> set items" "q \<in> set items" using pq T by blast+
    obtain row where row: "stored_row schema row (fst p) (snd p)" "a = \<lparr>row_key = fst p, row_values = row\<rparr>"
      by (rule item_row_stored [OF assms(6,4) items(1) rows(1)])
    obtain row' where row': "stored_row schema row' (fst q) (snd q)" "b = \<lparr>row_key = fst q, row_values = row'\<rparr>"
      by (rule item_row_stored [OF assms(6,4) items(2) rows(2)])
    show "row_le orders a b"
      unfolding row(2) row'(2)
    proof (rule traversalOrder_sorted [OF assms(4) c(1,3) assms(3,5) row(1) row'(1)])
      show "visited_before (descending orders) index (fst p, snd p) (fst q, snd q)" using pq(3) by simp
      show "hd (item_position index (fst p, snd p)) = k \<and> hd (item_position index (fst q, snd q)) = k" if "access_key plan = Some k" for k
        using lookup [OF that pq(1)] lookup [OF that pq(2)] by simp
      show "fst p = fst q" if "index = Some d" "def_unique d" "logical_key d (snd p) = logical_key d (snd q)" for d
        by (rule unique [OF that(1,2) pq(1,2) that(3)])
    qed
  qed
  show ?thesis
  proof (cases index)
    case None
    then have no_index: "plan_index (public plan) = None" using c(2) by (simp add: index_name_def)
    show ?thesis
    proof (cases "access_key plan")
      case none: None
      then have "T = table_scan r items" using assms(7) False no_index r by (simp add: visits_def)
      then show ?thesis using table_scan_sorted [OF assms(6) c(5)] none None by (intro ordered) simp_all
    next
      case (Some k)
      then have "T = filter (\<lambda>item. fst item = k) items" using assms(7) False no_index by (simp add: visits_def)
      then have "T = (case map_of items k of None \<Rightarrow> [] | Some v \<Rightarrow> [(k, v)])"
        using map_of_filter [of items k] table_items_distinct [OF assms(6)] by simp
      then show ?thesis by (simp split: option.split)
    qed
  next
    case (Some d)
    then have d: "d \<in> set indexes" "def_store d = schema_table schema" using plan_candidates_member [OF c(1)] by simp_all
    have Td: "T = index_scan d (lookup_range plan) items"
      using assms(7) False Some c(2) d by (simp add: visits_def index_name_def)
    have dir: "reverse (lookup_range plan) = Some True \<longleftrightarrow> descending orders"
      using lookup_range_iff(3) [OF assms(1)] r c(5) by simp
    have entry: "extractLogicalIndexKey d (snd item) = Inr (Some (logical_key d (snd item))) \<and> in_access plan (logical_key d (snd item))"
      if "item \<in> set T" for item
    proof -
      have "indexed d (lookup_range plan) item" using that unfolding Td set_index_scan by blast
      then obtain a where "extractLogicalIndexKey d (snd item) = Inr (Some a)" "in_range a (lookup_range plan)"
        by (auto simp: indexed_def split: sum.splits option.splits)
      then show ?thesis using lookup_range_iff(1) [OF assms(1)] by (simp add: logical_key_def)
    qed
    show ?thesis
    proof (rule ordered)
      show "sorted_wrt (visited_before (descending orders) index) T"
        using index_scan_sorted [OF assms(6) dir] Some Td by simp
      show "hd (item_position index item) = k" if "access_key plan = Some k" "item \<in> set T" for k item
        using entry [OF that(2)] that(1) Some by (auto simp: item_position_def in_access_def)
      show "fst p = fst q" if "index = Some e" "def_unique e" "p \<in> set T" "q \<in> set T" "logical_key e (snd p) = logical_key e (snd q)" for e p q
      proof -
        have "unique_entries items d" using assms(8) d that(1,2) Some by simp
        moreover have "p \<in> set items" "q \<in> set items" "e = d" using that(1,3,4) T Some by auto
        ultimately show ?thesis
          using entry [OF that(3)] entry [OF that(4)] that(5) unfolding unique_entries_def by metis
      qed
    qed
  qed
qed

section \<open>What a SELECT returns\<close>

lemma visits_matching:
  assumes "planAccess schema expression orders ps indexes = Inr plan" and "schema_ok schema" and "table_items schema items"
    and "visits schema indexes plan items T"
  shows "mset (matching_rows schema expression ps T) = mset (matching_rows schema expression ps items)"
proof -
  let ?f = "item_row schema expression ps"
  note T = visits_items [OF assms(1,4,3)]
  have "item \<in> set T" if item: "item \<in> set items" "?f item = Some a" for item a
  proof -
    obtain row where row: "stored_row schema row (fst item) (snd item)" "a = \<lparr>row_key = fst item, row_values = row\<rparr>"
      by (rule item_row_stored [OF assms(3,2) item])
    have "evaluateWhere row e ps = Inr (Some True)" if "expression = Some e" for e
      using item(2) row(2) that by (auto simp: item_row_def split: sum.splits if_splits)
    then have "plan_covers schema indexes plan (fst item) (snd item)" by (rule planAccess_covers [OF assms(1,2) row(1)])
    then show ?thesis using T item(1) by (metis prod.collapse)
  qed
  then have "set (filter (\<lambda>x. ?f x \<noteq> None) T) = set (filter (\<lambda>x. ?f x \<noteq> None) items)" using T by auto
  moreover have "distinct (filter (\<lambda>x. ?f x \<noteq> None) T)" "distinct (filter (\<lambda>x. ?f x \<noteq> None) items)"
    using T table_items_distinct [OF assms(3)] by simp_all
  ultimately have "mset (filter (\<lambda>x. ?f x \<noteq> None) T) = mset (filter (\<lambda>x. ?f x \<noteq> None) items)"
    using set_eq_iff_mset_eq_distinct by blast
  then show ?thesis by (simp add: matching_rows_def map_filter_def mset_map del: mset_filter)
qed

lemma check_orders_ok: "check_orders schema orders = Inr () \<Longrightarrow> orders_ok schema orders"
  by (induction orders) (auto simp: orders_ok_def bindr_eq_Inr dest!: getColumn_in)

text \<open>The rows a plan visits, cut early when the plan sorts nothing, give the ordered result.\<close>

lemma select_ordered:
  assumes "planAccess schema expression orders ps indexes = Inr plan" and "schema_ok schema" and "table_items schema items"
    and "orders_ok schema orders" and "visits schema indexes plan items T"
    and "\<And>d. d \<in> set indexes \<Longrightarrow> def_store d = schema_table schema \<Longrightarrow> def_unique d \<Longrightarrow> unique_entries items d"
    and "length items \<le> nat max_safe_integer"
  obtains ordered where "mset ordered = mset (matching_rows schema expression ps items)" "orders \<noteq> [] \<longrightarrow> sorted_wrt (row_le orders) ordered"
    "select_result schema plan columns orders n m
       (cut_at (max_matches (Select table columns expression orders lim offset) plan n m) (matching_rows schema expression ps T)) =
      Inr \<lparr>result_rows = map (\<lambda>r. projectRow (row_values r) (all_columns schema columns)) (cut_at n (drop m ordered)),
          rowsAffected = 0, result_plan = Some (public plan)\<rparr>"
proof -
  let ?rows = "matching_rows schema expression ps"
  let ?mm = "max_matches (Select table columns expression orders lim offset) plan n m"
  have same: "mset (?rows T) = mset (?rows items)" by (rule visits_matching [OF assms(1-3,5)])
  have len: "length (?rows T) \<le> nat max_safe_integer"
    using mset_eq_length [OF same] le_trans [OF length_filter_le assms(7)] by (simp add: matching_rows_def map_filter_def)
  show thesis
  proof (cases "plan_sort (public plan)")
    case NoSort
    have "sorted_wrt (row_le orders) (?rows T)" if "orders \<noteq> []"
      by (rule visits_sorted [OF assms(1) NoSort that assms(2,4,3,5,6)])
    moreover have "cut_at n (drop m (cut_at ?mm (?rows T))) = cut_at n (drop m (?rows T))"
      using NoSort len by (auto simp: cut_at_def max_matches_def min_def drop_take split: option.split)
    ultimately show thesis
      using same NoSort that [of "?rows T"] by (simp add: select_result_def Let_def cut_at_def split: option.splits)
  next
    case MemorySort
    have stored: "list_all (stored_ok schema) (?rows T)"
      using matching_rows_stored [OF assms(3,2), of expression ps] mset_eq_setD [OF same] by (simp add: list_all_iff)
    obtain zs where "sort_rows (\<lambda>l r. compareRows l r orders) (?rows T) = Inr zs" "mset zs = mset (?rows T)"
        "sorted_wrt (row_le orders) zs"
      using sort_rows_correct [OF assms(2,4) stored] by blast
    moreover have "cut_at ?mm (?rows T) = ?rows T" using MemorySort by (simp add: cut_at_def max_matches_def split: option.split)
    ultimately show thesis
      using same MemorySort that [of zs] by (simp add: select_result_def Let_def cut_at_def split: option.splits)
  qed
qed


text \<open>A transaction over a list of items.\<close>

definition memory_db :: "(bytes \<times> bytes) list \<Rightarrow> (unit, unit) sql_ops" where
  "memory_db items =
     \<lparr>tx_begin = (\<lambda>_. ret ()), tx_commit = (\<lambda>_. ret ()), tx_rollback = (\<lambda>_. ret ()),
      op_get = (\<lambda>_ _ k. ret (map_of items k)), op_getMany = (\<lambda>_ _ ks. ret (map (map_of items) ks)),
      op_has = (\<lambda>_ _ k. ret (map_of items k \<noteq> None)), op_put = (\<lambda>_ _ _ _ _. ret ()), op_delete = (\<lambda>_ _ _. ret True),
      op_scan = (\<lambda>_ _ r. ret (table_scan r items)), op_clearStore = (\<lambda>_ _. ret ()), op_createStore = (\<lambda>_ _. ret ()),
      op_putMany = (\<lambda>_ _ _ _. ret ()), op_deleteMany = (\<lambda>_ _ _. ret ()), op_applyBatch = (\<lambda>_ _ _. ret ()),
      op_getByIndex = (\<lambda>_ _ _ _. ret None), op_scanByIndex = (\<lambda>_ _ _ _. ret []),
      op_mode = (\<lambda>_. Readonly), op_listIndexes = None, op_dropStore = (\<lambda>_ _. ret ()), op_has_cursors = (\<lambda>_. False),
      op_scanPage = (\<lambda>_ _ _ _ _. ret \<lparr>page_rows = [], page_cursor = None, page_done = True\<rparr>), op_closeScanCursor = (\<lambda>_ _. ret ())\<rparr>"

definition ordered_select :: SqlStatement where
  "ordered_select = Select (js ''t'') None None [(js ''id'', Desc)] None None"


end
