(* ===== verification/WorkerIndex.thy ===== *)
theory WorkerIndex
  imports SqlSelect Compression Packed IndexKeys
begin

text \<open>
  Reads through an index in \<^verbatim>\<open>packages/sdk/src/worker.ts\<close>: the pages of an index scan, the check of each index entry
  against its document, the batched reads with the engine's value states, and the removal of stale entries. The
  storage engine is a parameter, given by the operations of one transaction. The lemmas show that a scan returns
  exactly the documents whose logical key is in the range, in key order, whatever stale entries the index holds.
\<close>

section \<open>The engine's transaction\<close>

record value_state =
  state_live :: bool
  state_expired :: bool
  revision_known :: bool
  revision_epoch :: nat
  revision_ordinal :: nat
  expires_at :: nat
  max_value_bytes :: nat

text \<open>
  The operations of \<^verbatim>\<open>WasmEngine\<close> the index reads use, for one transaction. The optional ones are \<open>None\<close> in older
  bindings; \<open>engine_cursors\<close> says that the three cursor functions are there.
\<close>

record 's engine =
  engine_get :: "jsstring \<Rightarrow> bytes \<Rightarrow> ('s, bytes option) eff"
  engine_get_many :: "jsstring \<Rightarrow> bytes list \<Rightarrow> ('s, bytes option list) eff"
  engine_has :: "jsstring \<Rightarrow> bytes \<Rightarrow> ('s, bool) eff"
  engine_delete :: "jsstring \<Rightarrow> bytes \<Rightarrow> ('s, bool) eff"
  engine_scan :: "jsstring \<Rightarrow> range \<Rightarrow> ('s, (bytes \<times> bytes) list) eff"
  engine_cursors :: bool
  open_scan_cursor :: "jsstring \<Rightarrow> range \<Rightarrow> ('s, nat) eff"
  scan_cursor_next :: "nat \<Rightarrow> nat \<Rightarrow> nat \<Rightarrow> ('s, bytes \<times> nat) eff"
  close_scan_cursor :: "nat \<Rightarrow> ('s, unit) eff"
  get_many_value_states :: "(jsstring \<Rightarrow> bytes \<Rightarrow> ('s, bytes) eff) option"
  get_many_value_sizes :: "(jsstring \<Rightarrow> bytes \<Rightarrow> ('s, nat list) eff) option"

text \<open>The transaction's mode, the compression of the documents' store, and the platform's streams.\<close>

record 's index_tx = "'s engine" +
  tx_readwrite :: bool
  tx_compression :: CompressionOption
  tx_streams :: stream_runtime

definition MAX_ENGINE_KEY_BYTES :: nat where "MAX_ENGINE_KEY_BYTES = 1024"
definition MAX_PACKED_BYTES :: nat where "MAX_PACKED_BYTES = 0xffffffff"
definition INDEX_SCAN_PAGE_ROWS :: nat where "INDEX_SCAN_PAGE_ROWS = 256"
definition INDEX_SCAN_PAGE_BYTES :: nat where "INDEX_SCAN_PAGE_BYTES = 8 * 1024 * 1024 + 18 + MAX_ENGINE_KEY_BYTES + 12"
definition INDEX_SCAN_RAW_CHUNK_ROWS :: nat where "INDEX_SCAN_RAW_CHUNK_ROWS = 512"

text \<open>\<^verbatim>\<open>try { m } finally { f }\<close>, and a \<^verbatim>\<open>try\<close> whose \<^verbatim>\<open>catch\<close> gives a value.\<close>

definition finally_eff :: "('s, 'a) eff \<Rightarrow> ('s, unit) eff \<Rightarrow> ('s, 'a) eff" where
  "finally_eff m f = (\<lambda>s. case m s of (r, s1) \<Rightarrow> (case f s1 of (Inl e, s2) \<Rightarrow> (Inl e, s2) | (Inr _, s2) \<Rightarrow> (r, s2)))"

definition or_else :: "('s, 'a) eff \<Rightarrow> 'a \<Rightarrow> ('s, 'a) eff" where
  "or_else m d = (\<lambda>s. case m s of (Inl _, s1) \<Rightarrow> (Inr d, s1) | (Inr x, s1) \<Rightarrow> (Inr x, s1))"

section \<open>Keys of an index\<close>

definition readIndexKeyScan :: "('s, 'z) engine_scheme \<Rightarrow> jsstring \<Rightarrow> range \<Rightarrow> ('s, bytes list) eff" where
  "readIndexKeyScan tx store r =
     bindm (lift_result (assertValidScanRange r)) (\<lambda>_.
       if \<not> engine_cursors tx then bindm (engine_scan tx store r) (\<lambda>rows. ret (map fst rows))
       else
         let maxRows = (case limit r of None \<Rightarrow> INDEX_SCAN_RAW_CHUNK_ROWS | Some n \<Rightarrow> nat (f64_int n));
             maxBytes = 4 + maxRows * (8 + MAX_ENGINE_KEY_BYTES)
         in bindm (open_scan_cursor tx store r) (\<lambda>cursor.
              finally_eff
                (bindm (scan_cursor_next tx cursor maxRows maxBytes) (\<lambda>(packet, rowCount).
                   bindm (lift_result (unpackPackedScanRows packet)) (\<lambda>rows.
                     if length rows \<noteq> rowCount \<or> maxRows < length rows \<or> maxBytes < length packet \<or>
                        list_ex (\<lambda>row. snd row \<noteq> []) rows
                     then raise (Throw CorruptionError ''index key cursor returned an invalid page'')
                     else ret (map fst rows))))
                (close_scan_cursor tx cursor)))"

section \<open>Value states\<close>

definition packNativeKeys :: "bytes list \<Rightarrow> bytes" where
  "packNativeKeys keys = le_bytes 4 (length keys) @ concat (map (\<lambda>k. le_bytes 4 (length k)) keys) @ concat keys"

definition getBigUint64 :: "bytes \<Rightarrow> nat \<Rightarrow> nat" where
  "getBigUint64 bs offset = le_val (take 8 (drop offset bs))"

text \<open>The flags' bits 0, 1 and 2 say live, expired and revision known; no other bit may be set.\<close>

definition decode_value_state :: "bytes \<Rightarrow> nat \<Rightarrow> value_state option" where
  "decode_value_state packet offset =
     (let flags = getUint32 packet offset;
          revisionEpoch = getBigUint64 packet (offset + 12); revisionOrdinal = getBigUint64 packet (offset + 20)
      in if 7 < flags \<or> flags mod 4 = 3 \<or>
            flags div 4 \<noteq> 0 \<and> (flags mod 4 = 0 \<or> revisionEpoch = 0 \<or> revisionOrdinal = 0)
         then None
         else Some \<lparr>state_live = odd flags, state_expired = odd (flags div 2), revision_known = odd (flags div 4),
                    revision_epoch = revisionEpoch, revision_ordinal = revisionOrdinal,
                    expires_at = getBigUint64 packet (offset + 4), max_value_bytes = getUint32 packet (offset + 28)\<rparr>)"

definition decodeNativeValueStates :: "bytes \<Rightarrow> nat \<Rightarrow> value_state list option" where
  "decodeNativeValueStates packet n =
     (if length packet \<noteq> 4 + n * 32 \<or> getUint32 packet 0 \<noteq> n then None
      else those (map (\<lambda>index. decode_value_state packet (4 + index * 32)) [0..<n]))"

definition readNativeValueState :: "('s, 'z) engine_scheme \<Rightarrow> jsstring \<Rightarrow> bytes \<Rightarrow> ('s, value_state option) eff" where
  "readNativeValueState tx store key =
     (case get_many_value_states tx of
        None \<Rightarrow> ret None
      | Some states \<Rightarrow>
          or_else
            (bindm (states store (packNativeKeys [key])) (\<lambda>packet.
               ret (case decodeNativeValueStates packet 1 of Some (state # _) \<Rightarrow> Some state | _ \<Rightarrow> None)))
            None)"

datatype inspection = Missing | Trusted | Unknown

definition same_revision :: "value_state \<Rightarrow> value_state \<Rightarrow> bool" where
  "same_revision x y \<longleftrightarrow> state_live y \<and> revision_known y \<and>
     revision_epoch y = revision_epoch x \<and> revision_ordinal y = revision_ordinal x"

definition inspectIndexedValue ::
  "('s, 'z) index_tx_scheme \<Rightarrow> NormalizedIndexDef \<Rightarrow> bytes \<Rightarrow> bytes \<Rightarrow> ('s, inspection) eff" where
  "inspectIndexedValue tx d physicalKey pkey =
     bindm (readNativeValueState tx (def_store d) pkey) (\<lambda>primary.
       case primary of
         None \<Rightarrow> ret Unknown
       | Some x \<Rightarrow>
           if \<not> state_live x then
             (if state_expired x \<and> tx_readwrite tx
              then bindm (engine_has tx (def_store d) pkey) (\<lambda>live. ret (if live then Unknown else Missing))
              else ret Missing)
           else if \<not> revision_known x then ret Unknown
           else bindm (readNativeValueState tx (def_internalStore d) physicalKey) (\<lambda>index.
             ret (case index of Some y \<Rightarrow> if same_revision x y then Trusted else Unknown | None \<Rightarrow> Unknown)))"

section \<open>One entry of an index\<close>

definition cleanupStaleIndexRow :: "('s, 'z) index_tx_scheme \<Rightarrow> NormalizedIndexDef \<Rightarrow> bytes \<Rightarrow> ('s, unit) eff" where
  "cleanupStaleIndexRow tx d physicalKey =
     (if tx_readwrite tx then (\<lambda>s. (Inr (), snd (engine_delete tx (def_internalStore d) physicalKey s))) else ret ())"

definition finishVisibleIndexedValue ::
  "('s, 'z) index_tx_scheme \<Rightarrow> NormalizedIndexDef \<Rightarrow> bytes \<Rightarrow> bytes \<times> bytes \<Rightarrow> bytes \<Rightarrow> bool \<Rightarrow> ('s, (bytes \<times> bytes) option) eff" where
  "finishVisibleIndexedValue tx d physicalKey decoded v trusted =
     bindm (if trusted then ret True
            else bindm (lift_result (extractLogicalIndexKey d v)) (\<lambda>current. ret (current = Some (fst decoded))))
       (\<lambda>matches.
         if matches then ret (Some (snd decoded, v))
         else bindm (cleanupStaleIndexRow tx d physicalKey) (\<lambda>_. ret None))"

definition resolveVisibleIndexedValue ::
  "('s, 'z) index_tx_scheme \<Rightarrow> NormalizedIndexDef \<Rightarrow> bytes \<Rightarrow> bytes \<times> bytes \<Rightarrow> bytes option \<Rightarrow> bool \<Rightarrow>
     ('s, (bytes \<times> bytes) option) eff" where
  "resolveVisibleIndexedValue tx d physicalKey decoded rawValue trusted =
     (case rawValue of
        None \<Rightarrow> bindm (cleanupStaleIndexRow tx d physicalKey) (\<lambda>_. ret None)
      | Some bs \<Rightarrow>
          if tx_compression tx = None then finishVisibleIndexedValue tx d physicalKey decoded bs trusted
          else bindm (lift_result (decodeStoreValueRecord (tx_streams tx) bs True)) (\<lambda>v.
                 finishVisibleIndexedValue tx d physicalKey decoded v trusted))"

definition visibleIndexedRow ::
  "('s, 'z) index_tx_scheme \<Rightarrow> NormalizedIndexDef \<Rightarrow> bytes \<Rightarrow> ('s, (bytes \<times> bytes) option) eff" where
  "visibleIndexedRow tx d physicalKey =
     bindm (lift_result (decodeIndexEntryKey physicalKey)) (\<lambda>decoded.
       bindm (inspectIndexedValue tx d physicalKey (snd decoded)) (\<lambda>state.
         if state = Missing then bindm (cleanupStaleIndexRow tx d physicalKey) (\<lambda>_. ret None)
         else bindm (engine_get tx (def_store d) (snd decoded)) (\<lambda>v.
           resolveVisibleIndexedValue tx d physicalKey decoded v (state = Trusted))))"

section \<open>Batched reads of documents\<close>

text \<open>How many documents fit, by the engine's upper bounds of their sizes; \<open>None\<close> when a size is no 32 bit number.\<close>

fun select_entries :: "(bytes \<times> bytes) list \<Rightarrow> nat list \<Rightarrow> nat \<Rightarrow> nat \<Rightarrow> nat option" where
  "select_entries (entry # entries) (sz # sizes) remainingBytes selected =
     (let required = (if sz = MAX_PACKED_BYTES then 0 else 8 + length (snd entry) + sz) in
      if MAX_PACKED_BYTES < sz then None
      else if remainingBytes < required then Some selected
      else select_entries entries sizes (remainingBytes - required) (selected + 1))"
| "select_entries _ _ remainingBytes selected = Some selected"

text \<open>The documents that were read, in the places of the entries they were read for.\<close>

fun place_values :: "bool list \<Rightarrow> bytes option list \<Rightarrow> bytes option list" where
  "place_values (True # picks) (v # vs) = v # place_values picks vs"
| "place_values (False # picks) vs = None # place_values picks vs"
| "place_values _ vs = []"

type_synonym primary_plan = "nat list \<times> value_state list option \<times> value_state list option"

definition value_plan ::
  "('s, 'z) index_tx_scheme \<Rightarrow> NormalizedIndexDef \<Rightarrow> bytes list \<Rightarrow> (bytes \<times> bytes) list \<Rightarrow> ('s, primary_plan option) eff" where
  "value_plan tx d physicalKeys entries =
     (let packedKeys = packNativeKeys (map snd entries); n = length entries in
      case get_many_value_states tx of
        Some states \<Rightarrow>
          bindm (states (def_store d) packedKeys) (\<lambda>packet.
            case decodeNativeValueStates packet n of
              None \<Rightarrow> ret None
            | Some primary \<Rightarrow>
                let sizes = map (\<lambda>x. if state_live x then max_value_bytes x else MAX_PACKED_BYTES) primary in
                if list_ex (\<lambda>x. state_live x \<and> revision_known x) primary then
                  bindm (states (def_internalStore d) (packNativeKeys physicalKeys)) (\<lambda>packet2.
                    ret (case decodeNativeValueStates packet2 n of
                           None \<Rightarrow> None | Some index \<Rightarrow> Some (sizes, Some primary, Some index)))
                else ret (Some (sizes, Some primary, None)))
      | None \<Rightarrow>
          (case get_many_value_sizes tx of
             Some value_sizes \<Rightarrow> bindm (value_sizes (def_store d) packedKeys) (\<lambda>sizes. ret (Some (sizes, None, None)))
           | None \<Rightarrow> ret None))"

text \<open>Whether the states prove that entry \<open>i\<close> was written with its document.\<close>

definition trusted_entry :: "value_state list option \<Rightarrow> value_state list option \<Rightarrow> nat \<Rightarrow> bool" where
  "trusted_entry primary index i =
     (case (primary, index) of
        (Some xs, Some ys) \<Rightarrow> state_live (xs ! i) \<and> revision_known (xs ! i) \<and> same_revision (xs ! i) (ys ! i)
      | _ \<Rightarrow> False)"

text \<open>What the \<^verbatim>\<open>try\<close> block of \<^verbatim>\<open>readIndexPrimaryValues\<close> hands on: entries, the documents to read, and what was read.\<close>

type_synonym read_batch = "(bytes \<times> bytes) list \<times> bool list \<times> bool list \<times> bytes option list"

definition read_batch ::
  "('s, 'z) index_tx_scheme \<Rightarrow> NormalizedIndexDef \<Rightarrow> bytes list \<Rightarrow> nat \<Rightarrow> ('s, read_batch option) eff" where
  "read_batch tx d physicalKeys remainingBytes =
     bindm (lift_result (mapr decodeIndexEntryKey physicalKeys)) (\<lambda>entries.
       bindm (value_plan tx d physicalKeys entries) (\<lambda>plan.
         case plan of
           None \<Rightarrow> ret None
         | Some (sizes, primary, index) \<Rightarrow>
             if length sizes \<noteq> length entries then ret None
             else
               (case select_entries entries sizes remainingBytes 0 of
                  None \<Rightarrow> ret None
                | Some selected \<Rightarrow>
                    if selected \<le> 1 then ret None
                    else
                      let chosen = take selected entries;
                          picks = map (\<lambda>i. case primary of None \<Rightarrow> True | Some xs \<Rightarrow> state_live (xs ! i)) [0..<selected];
                          trusted = map (trusted_entry primary index) [0..<selected];
                          keys = map (snd \<circ> fst) (filter snd (zip chosen picks))
                      in bindm (if keys = [] then ret [] else engine_get_many tx (def_store d) keys) (\<lambda>loaded.
                           ret (Some (chosen, picks, trusted, loaded))))))"

definition readIndexPrimaryValues ::
  "('s, 'z) index_tx_scheme \<Rightarrow> NormalizedIndexDef \<Rightarrow> bytes list \<Rightarrow> nat \<Rightarrow>
     ('s, ((bytes \<times> bytes) \<times> bytes option \<times> bool) list option) eff" where
  "readIndexPrimaryValues tx d physicalKeys remainingBytes =
     (if tx_readwrite tx \<or> length physicalKeys \<le> 1 \<or> get_many_value_sizes tx = None \<and> get_many_value_states tx = None
      then ret None
      else bindm (or_else (read_batch tx d physicalKeys remainingBytes) None) (\<lambda>batch.
        case batch of
          None \<Rightarrow> ret None
        | Some (entries, picks, trusted, loaded) \<Rightarrow>
            if length loaded \<noteq> length (filter id picks) then raise (Throw InternalError ''get_many outcome count mismatch'')
            else ret (Some (zip entries (zip (place_values picks loaded) trusted)))))"

section \<open>Pages\<close>

text \<open>A page is done, or the rows of a chunk are used up with the page still open.\<close>

datatype page_rest = PageDone "(bytes \<times> bytes) list" "bytes option" | RowsUsed "(bytes \<times> bytes) list" nat "bytes option"

text \<open>
  The loop over the raw rows of a chunk: \<open>batch\<close> holds what was read for the first of the rows, and a new batch is
  read when it is empty.
\<close>

primrec page_rows_loop ::
  "('s, 'z) index_tx_scheme \<Rightarrow> NormalizedIndexDef \<Rightarrow> nat \<Rightarrow> nat \<Rightarrow> bytes list \<Rightarrow> ((bytes \<times> bytes) \<times> bytes option \<times> bool) list \<Rightarrow>
     (bytes \<times> bytes) list \<Rightarrow> nat \<Rightarrow> bytes option \<Rightarrow> ('s, page_rest) eff" where
  "page_rows_loop tx d lim maxBytes [] batch visible outputBytes resumeAfter = ret (RowsUsed visible outputBytes resumeAfter)"
| "page_rows_loop tx d lim maxBytes (row # rows) batch visible outputBytes resumeAfter =
     bindm (if batch = []
            then readIndexPrimaryValues tx d (take (lim - length visible) (row # rows)) (maxBytes - outputBytes)
            else ret (Some batch)) (\<lambda>current.
       bindm (case current of
                Some ((decoded, v, trusted) # _) \<Rightarrow> resolveVisibleIndexedValue tx d row decoded v trusted
              | _ \<Rightarrow> visibleIndexedRow tx d row) (\<lambda>resolved.
         let batch' = (case current of Some (_ # others) \<Rightarrow> others | _ \<Rightarrow> []) in
         case resolved of
           None \<Rightarrow> page_rows_loop tx d lim maxBytes rows batch' visible outputBytes (Some row)
         | Some item \<Rightarrow>
             let nextBytes = outputBytes + 8 + length (fst item) + length (snd item) in
             if maxBytes < nextBytes then
               (if visible = [] then raise (Throw ValueTooLargeError ''indexed scan row exceeds maxBytes'')
                else if resumeAfter = None then raise (Throw InternalError ''indexed scan lost its continuation key'')
                else ret (PageDone visible resumeAfter))
             else if lim \<le> length visible + 1 then ret (PageDone (visible @ [item]) (Some row))
             else page_rows_loop tx d lim maxBytes rows batch' (visible @ [item]) nextBytes (Some row)))"

definition chunk_range :: "range \<Rightarrow> nat \<Rightarrow> bytes option \<Rightarrow> range" where
  "chunk_range physical chunkLimit resumeAfter =
     (let r = physical\<lparr>limit := Some (f64_of_nat chunkLimit)\<rparr> in
      case resumeAfter of
        None \<Rightarrow> r
      | Some k \<Rightarrow> if reverse physical = Some True then r\<lparr>lte := None, lt := Some k\<rparr> else r\<lparr>gte := None, gt := Some k\<rparr>)"

definition is_store_missing :: "error \<Rightarrow> bool" where
  "is_store_missing e = (case e of Throw StoreNotFoundError _ \<Rightarrow> True | _ \<Rightarrow> False)"

text \<open>The loop over the chunks; it ends when a chunk is short, and carries fuel for a scan that never is.\<close>

primrec page_chunks ::
  "('s, 'z) index_tx_scheme \<Rightarrow> NormalizedIndexDef \<Rightarrow> range \<Rightarrow> nat \<Rightarrow> nat \<Rightarrow> nat \<Rightarrow> nat \<Rightarrow> (bytes \<times> bytes) list \<Rightarrow> nat \<Rightarrow>
     bytes option \<Rightarrow> ('s, (bytes \<times> bytes) list \<times> bytes option) eff" where
  "page_chunks tx d physical lim maxBytes 0 staleChunkFloor visible outputBytes resumeAfter =
     raise (Throw InternalError ''the scan does not end'')"
| "page_chunks tx d physical lim maxBytes (Suc fuel) staleChunkFloor visible outputBytes resumeAfter = (\<lambda>s.
     let chunkLimit = min INDEX_SCAN_RAW_CHUNK_ROWS (max (lim - length visible) staleChunkFloor) in
     case readIndexKeyScan tx (def_internalStore d) (chunk_range physical chunkLimit resumeAfter) s of
       (Inl e, s1) \<Rightarrow> if is_store_missing e then (Inr ([], None), s1) else (Inl e, s1)
     | (Inr rawRows, s1) \<Rightarrow>
         (case page_rows_loop tx d lim maxBytes rawRows [] visible outputBytes resumeAfter s1 of
            (Inl e, s2) \<Rightarrow> (Inl e, s2)
          | (Inr (PageDone rows cursor), s2) \<Rightarrow> (Inr (rows, cursor), s2)
          | (Inr (RowsUsed visible' outputBytes' resumeAfter'), s2) \<Rightarrow>
              if length rawRows < chunkLimit then (Inr (visible', None), s2)
              else page_chunks tx d physical lim maxBytes fuel
                     (if length visible' = length visible then min INDEX_SCAN_RAW_CHUNK_ROWS (chunkLimit * 2) else 1)
                     visible' outputBytes' resumeAfter' s2))"

definition loadVisibleIndexPage ::
  "('s, 'z) index_tx_scheme \<Rightarrow> nat \<Rightarrow> NormalizedIndexDef \<Rightarrow> range \<Rightarrow> bytes option \<Rightarrow> nat \<Rightarrow> nat \<Rightarrow>
     ('s, (bytes \<times> bytes) list \<times> bytes option) eff" where
  "loadVisibleIndexPage tx fuel d physical cursor lim maxBytes = page_chunks tx d physical lim maxBytes fuel 1 [] 4 cursor"

section \<open>Scans\<close>

definition getByIndex :: "('s, 'z) index_tx_scheme \<Rightarrow> nat \<Rightarrow> NormalizedIndexDef \<Rightarrow> bytes \<Rightarrow> ('s, bytes option) eff" where
  "getByIndex tx fuel d key =
     bindm (lift_result (indexRangeToPhysicalRange (empty_range\<lparr>gte := Some key, lte := Some key\<rparr>))) (\<lambda>physical.
       bindm (loadVisibleIndexPage tx fuel d physical None 1 INDEX_SCAN_PAGE_BYTES) (\<lambda>(rows, cursor).
         ret (case rows of [] \<Rightarrow> None | item # _ \<Rightarrow> Some (snd item))))"

text \<open>The rows still wanted; \<open>None\<close> is the infinity of a scan without a limit.\<close>

primrec index_pages ::
  "('s, 'z) index_tx_scheme \<Rightarrow> nat \<Rightarrow> NormalizedIndexDef \<Rightarrow> range \<Rightarrow> nat \<Rightarrow> bytes option \<Rightarrow> nat option \<Rightarrow> (bytes \<times> bytes) list \<Rightarrow>
     ('s, (bytes \<times> bytes) list) eff" where
  "index_pages tx fuel d physical 0 cursor remaining rows = raise (Throw InternalError ''the scan does not end'')"
| "index_pages tx fuel d physical (Suc pages) cursor remaining rows =
     (if remaining = Some 0 then ret rows
      else bindm (loadVisibleIndexPage tx fuel d physical cursor
                    (case remaining of None \<Rightarrow> INDEX_SCAN_PAGE_ROWS | Some n \<Rightarrow> min n INDEX_SCAN_PAGE_ROWS) INDEX_SCAN_PAGE_BYTES)
             (\<lambda>(page, next).
               let rows' = rows @ page; remaining' = map_option (\<lambda>n. n - length page) remaining in
               case next of
                 None \<Rightarrow> ret rows'
               | Some k \<Rightarrow> index_pages tx fuel d physical pages (Some k) remaining' rows'))"

definition scanByIndex :: "('s, 'z) index_tx_scheme \<Rightarrow> nat \<Rightarrow> NormalizedIndexDef \<Rightarrow> range \<Rightarrow> ('s, (bytes \<times> bytes) list) eff" where
  "scanByIndex tx fuel d r =
     bindm (lift_result (assertValidScanRange r)) (\<lambda>_.
       let remaining = map_option (\<lambda>n. nat (f64_int n)) (limit r) in
       if remaining = Some 0 then ret []
       else bindm (lift_result (indexRangeToPhysicalRange (r\<lparr>limit := None\<rparr>))) (\<lambda>physical.
              index_pages tx fuel d physical fuel None remaining []))"

definition scanByIndexPage ::
  "('s, 'z) index_tx_scheme \<Rightarrow> nat \<Rightarrow> NormalizedIndexDef \<Rightarrow> range \<Rightarrow> bytes option \<Rightarrow> f64 \<Rightarrow> f64 \<Rightarrow>
     ('s, (bytes \<times> bytes) list \<times> bytes option) eff" where
  "scanByIndexPage tx fuel d r cursor lim maxBytes =
     (if \<not> f64_is_safe_integer lim \<or> f64_int lim \<le> 0
      then raise (Throw InvalidRangeError ''index scan page limit must be a positive integer'')
      else if \<not> f64_is_safe_integer maxBytes \<or> f64_int maxBytes < 4 \<or> int MAX_PACKED_BYTES < f64_int maxBytes
      then raise (Throw InvalidRangeError ''index scan page maxBytes must be a u32 integer of at least 4'')
      else bindm (lift_result (indexRangeToPhysicalRange (r\<lparr>limit := None\<rparr>))) (\<lambda>physical.
             loadVisibleIndexPage tx fuel d physical cursor (nat (f64_int lim)) (nat (f64_int maxBytes))))"

section \<open>What the reads rely on\<close>

text \<open>
  The view a transaction has of a store and of one of its indexes: the keys of the index, which reads of the index may
  shorten, the stored documents, and the revisions of documents and of index entries that the engine knows.
\<close>

record 's index_view =
  view_ok :: "'s \<Rightarrow> bool"
  view_keys :: "'s \<Rightarrow> bytes list"
  view_docs :: "bytes \<Rightarrow> bytes option"
  doc_revision :: "bytes \<Rightarrow> (nat \<times> nat) option"
  entry_revision :: "bytes \<Rightarrow> (nat \<times> nat) option"

definition kept :: "'s index_view \<Rightarrow> 's \<Rightarrow> 's \<Rightarrow> bool" where
  "kept V s s' \<longleftrightarrow> view_ok V s' \<and> view_keys V s' = view_keys V s"

definition stored_value :: "('s, 'z) index_tx_scheme \<Rightarrow> bytes \<Rightarrow> bytes result" where
  "stored_value tx bs = (if tx_compression tx = None then Inr bs else decodeStoreValueRecord (tx_streams tx) bs True)"

text \<open>The document of a primary key and its logical key, as \<^verbatim>\<open>readStoreValue\<close> and the index definition see them.\<close>

definition current_value :: "('s, 'z) index_tx_scheme \<Rightarrow> 's index_view \<Rightarrow> bytes \<Rightarrow> bytes option" where
  "current_value tx V p = (case view_docs V p of None \<Rightarrow> None | Some bs \<Rightarrow> (case stored_value tx bs of Inr v \<Rightarrow> Some v | Inl _ \<Rightarrow> None))"

definition current_key :: "('s, 'z) index_tx_scheme \<Rightarrow> NormalizedIndexDef \<Rightarrow> 's index_view \<Rightarrow> bytes \<Rightarrow> bytes option" where
  "current_key tx d V p =
     (case current_value tx V p of
        None \<Rightarrow> None
      | Some v \<Rightarrow> (case extractLogicalIndexKey d v of Inr k \<Rightarrow> k | Inl _ \<Rightarrow> None))"

text \<open>Documents are stored as records that decode, and are documents the index can read.\<close>

definition documents_readable :: "('s, 'z) index_tx_scheme \<Rightarrow> NormalizedIndexDef \<Rightarrow> 's index_view \<Rightarrow> bool" where
  "documents_readable tx d V \<longleftrightarrow>
     (\<forall>p bs. view_docs V p = Some bs \<longrightarrow> (\<exists>v k. stored_value tx bs = Inr v \<and> extractLogicalIndexKey d v = Inr k))"

text \<open>The keys of a store that a scan gives: those in the range, in its direction, up to its limit.\<close>

definition range_keys :: "range \<Rightarrow> bytes list \<Rightarrow> bytes list" where
  "range_keys r keys =
     (let hits = directed r (filter (\<lambda>k. in_range k r) keys) in
      case limit r of None \<Rightarrow> hits | Some n \<Rightarrow> take (nat (f64_int n)) hits)"

definition reads_index :: "('s, 'z) index_tx_scheme \<Rightarrow> NormalizedIndexDef \<Rightarrow> 's index_view \<Rightarrow> bool" where
  "reads_index tx d V \<longleftrightarrow>
     (\<forall>s r. view_ok V s \<and> assertValidScanRange r = Inr () \<and> limit r \<noteq> None \<longrightarrow>
        (\<exists>s'. readIndexKeyScan tx (def_internalStore d) r s = (Inr (range_keys r (view_keys V s)), s') \<and> kept V s s')) \<and>
     (\<forall>s. view_ok V s \<longrightarrow> sorted_wrt (<) (view_keys V s) \<and> (\<forall>k \<in> set (view_keys V s). \<exists>l p. k = encodeIndexEntryKey l p))"

definition reads_documents :: "('s, 'z) index_tx_scheme \<Rightarrow> NormalizedIndexDef \<Rightarrow> 's index_view \<Rightarrow> bool" where
  "reads_documents tx d V \<longleftrightarrow>
     (\<forall>s p. view_ok V s \<longrightarrow> (\<exists>s'. engine_get tx (def_store d) p s = (Inr (view_docs V p), s') \<and> kept V s s')) \<and>
     (\<forall>s p. view_ok V s \<longrightarrow> (\<exists>s'. engine_has tx (def_store d) p s = (Inr (view_docs V p \<noteq> None), s') \<and> kept V s s')) \<and>
     (\<forall>s ps. view_ok V s \<longrightarrow> (\<exists>s'. engine_get_many tx (def_store d) ps s = (Inr (map (view_docs V) ps), s') \<and> kept V s s'))"

text \<open>
  Value states tell whether a document is live; and an index entry with the revision of its document was written with
  it. The calls may fail.
\<close>

definition state_of_document :: "'s index_view \<Rightarrow> bytes \<Rightarrow> value_state \<Rightarrow> bool" where
  "state_of_document V p x \<longleftrightarrow> (state_live x \<longleftrightarrow> view_docs V p \<noteq> None) \<and>
     (revision_known x \<longrightarrow> doc_revision V p = Some (revision_epoch x, revision_ordinal x))"

definition state_of_entry :: "'s index_view \<Rightarrow> bytes \<Rightarrow> value_state \<Rightarrow> bool" where
  "state_of_entry V k y \<longleftrightarrow>
     (state_live y \<and> revision_known y \<longrightarrow> entry_revision V k = Some (revision_epoch y, revision_ordinal y))"

definition reads_states :: "('s, 'z) index_tx_scheme \<Rightarrow> NormalizedIndexDef \<Rightarrow> 's index_view \<Rightarrow> bool" where
  "reads_states tx d V \<longleftrightarrow>
     (\<forall>states. get_many_value_states tx = Some states \<longrightarrow>
        (\<forall>s store keys. view_ok V s \<longrightarrow> (\<exists>r s'. states store (packNativeKeys keys) s = (r, s') \<and> kept V s s' \<and>
           (\<forall>packet xs. r = Inr packet \<longrightarrow> decodeNativeValueStates packet (length keys) = Some xs \<longrightarrow>
              (store = def_store d \<longrightarrow> list_all2 (state_of_document V) keys xs) \<and>
              (store = def_internalStore d \<longrightarrow> list_all2 (state_of_entry V) keys xs))))) \<and>
     (\<forall>sizes. get_many_value_sizes tx = Some sizes \<longrightarrow>
        (\<forall>s store packed. view_ok V s \<longrightarrow> (\<exists>r s'. sizes store packed s = (r, s') \<and> kept V s s'))) \<and>
     (\<forall>l p rev. doc_revision V p = Some rev \<and> entry_revision V (encodeIndexEntryKey l p) = Some rev \<and> view_docs V p \<noteq> None \<longrightarrow>
        current_key tx d V p = Some l)"

text \<open>Deleting an entry takes it out of the index, or fails and leaves the index as it is.\<close>

definition deletes_entries :: "('s, 'z) index_tx_scheme \<Rightarrow> NormalizedIndexDef \<Rightarrow> 's index_view \<Rightarrow> bool" where
  "deletes_entries tx d V \<longleftrightarrow>
     (\<forall>s k. view_ok V s \<longrightarrow> (\<exists>r s'. engine_delete tx (def_internalStore d) k s = (r, s') \<and> view_ok V s' \<and>
        (view_keys V s' = view_keys V s \<or> view_keys V s' = filter (\<lambda>j. j \<noteq> k) (view_keys V s))))"

definition index_contract :: "('s, 'z) index_tx_scheme \<Rightarrow> NormalizedIndexDef \<Rightarrow> 's index_view \<Rightarrow> bool" where
  "index_contract tx d V \<longleftrightarrow> documents_readable tx d V \<and> reads_index tx d V \<and> reads_documents tx d V \<and> reads_states tx d V \<and>
     deletes_entries tx d V"

section \<open>The visible rows\<close>

text \<open>The row of an index entry: its document, when the document is there and has the entry's logical key.\<close>

definition entry_row :: "('s, 'z) index_tx_scheme \<Rightarrow> NormalizedIndexDef \<Rightarrow> 's index_view \<Rightarrow> bytes \<Rightarrow> (bytes \<times> bytes) option" where
  "entry_row tx d V k =
     (case decodeIndexEntryKey k of
        Inl _ \<Rightarrow> None
      | Inr (l, p) \<Rightarrow>
          (case current_value tx V p of
             None \<Rightarrow> None
           | Some v \<Rightarrow> if current_key tx d V p = Some l then Some (p, v) else None))"

text \<open>The step of a read: entries without a row may go.\<close>

definition moved :: "('s, 'z) index_tx_scheme \<Rightarrow> NormalizedIndexDef \<Rightarrow> 's index_view \<Rightarrow> 's \<Rightarrow> 's \<Rightarrow> bool" where
  "moved tx d V s s' \<longleftrightarrow> view_ok V s' \<and>
     (\<exists>P. view_keys V s' = filter P (view_keys V s) \<and> (\<forall>k. entry_row tx d V k \<noteq> None \<longrightarrow> P k))"

lemma moved_kept: "kept V s s' \<Longrightarrow> moved tx d V s s'"
  by (auto simp: kept_def moved_def intro!: exI [of _ "\<lambda>_. True"])

lemma moved_trans:
  assumes "moved tx d V s s'" and "moved tx d V s' s''"
  shows "moved tx d V s s''"
proof -
  obtain P where P: "view_keys V s' = filter P (view_keys V s)" "\<And>k. entry_row tx d V k \<noteq> None \<Longrightarrow> P k"
    using assms(1) by (auto simp: moved_def)
  obtain Q where Q: "view_keys V s'' = filter Q (view_keys V s')" "\<And>k. entry_row tx d V k \<noteq> None \<Longrightarrow> Q k"
    using assms(2) by (auto simp: moved_def)
  have "view_keys V s'' = filter (\<lambda>k. Q k \<and> P k) (view_keys V s)" by (simp add: P(1) Q(1) conj_commute)
  then show ?thesis using assms(2) P(2) Q(2) unfolding moved_def by blast
qed

lemma moved_ok: "moved tx d V s s' \<Longrightarrow> view_ok V s'"
  by (simp add: moved_def)

text \<open>The rows of a list of entries do not change when stale ones are taken out.\<close>

definition rows_of :: "('s, 'z) index_tx_scheme \<Rightarrow> NormalizedIndexDef \<Rightarrow> 's index_view \<Rightarrow> bytes list \<Rightarrow> (bytes \<times> bytes) list" where
  "rows_of tx d V ks = List.map_filter (entry_row tx d V) ks"

lemma rows_of_simps [simp]:
  "rows_of tx d V [] = []" "rows_of tx d V (k # ks) = (case entry_row tx d V k of None \<Rightarrow> [] | Some x \<Rightarrow> [x]) @ rows_of tx d V ks"
  "rows_of tx d V (ks @ ls) = rows_of tx d V ks @ rows_of tx d V ls"
  by (simp_all add: rows_of_def map_filter_simps(1,2) List.map_filter_def split: option.split)

lemma rows_of_filter: "(\<And>k. entry_row tx d V k \<noteq> None \<Longrightarrow> P k) \<Longrightarrow> rows_of tx d V (filter P ks) = rows_of tx d V ks"
  by (induction ks) (auto split: option.split)

lemma entry_row_encoded:
  "entry_row tx d V (encodeIndexEntryKey l p) =
     (case current_value tx V p of None \<Rightarrow> None | Some v \<Rightarrow> if current_key tx d V p = Some l then Some (p, v) else None)"
proof -
  have "decodeIndexEntryKey (encodeIndexEntryKey l p) = Inr (l, p)"
    by (simp add: decodeIndexEntryKey_def decodeTwoPartIndexKey_encoded)
  then show ?thesis by (simp add: entry_row_def)
qed

section \<open>Reading one entry\<close>

lemma kept_refl: "view_ok V s \<Longrightarrow> kept V s s"
  by (simp add: kept_def)

lemma kept_trans: "kept V s s' \<Longrightarrow> kept V s' s'' \<Longrightarrow> kept V s s''"
  by (simp add: kept_def)

lemma moved_refl: "view_ok V s \<Longrightarrow> moved tx d V s s"
  by (rule moved_kept [OF kept_refl])

lemma cleanup_moves:
  assumes "index_contract tx d V" and "view_ok V s" and "entry_row tx d V k = None"
  shows "\<exists>s'. cleanupStaleIndexRow tx d k s = (Inr (), s') \<and> moved tx d V s s'"
proof (cases "tx_readwrite tx")
  case True
  obtain r s' where s': "engine_delete tx (def_internalStore d) k s = (r, s')" "view_ok V s'"
      "view_keys V s' = view_keys V s \<or> view_keys V s' = filter (\<lambda>j. j \<noteq> k) (view_keys V s)"
    using assms(1,2) unfolding index_contract_def deletes_entries_def by blast
  have "moved tx d V s s'"
    using s'(3)
  proof
    assume "view_keys V s' = view_keys V s"
    then show ?thesis using moved_kept [of V s s'] s'(2) by (simp add: kept_def)
  next
    assume "view_keys V s' = filter (\<lambda>j. j \<noteq> k) (view_keys V s)"
    moreover have "j \<noteq> k" if "entry_row tx d V j \<noteq> None" for j using that assms(3) by auto
    ultimately show ?thesis using s'(2) unfolding moved_def by blast
  qed
  then show ?thesis using True s'(1) by (simp add: cleanupStaleIndexRow_def)
next
  case False
  then show ?thesis using moved_refl [OF assms(2)] by (simp add: cleanupStaleIndexRow_def eff_simps)
qed

lemma document_read:
  assumes "index_contract tx d V" and "view_docs V p = Some bs"
  obtains v k where "stored_value tx bs = Inr v" "extractLogicalIndexKey d v = Inr k" "current_value tx V p = Some v" "current_key tx d V p = k"
proof -
  obtain v k where "stored_value tx bs = Inr v" "extractLogicalIndexKey d v = Inr k"
    using assms unfolding index_contract_def documents_readable_def by blast
  then show ?thesis using that assms(2) by (simp add: current_value_def current_key_def)
qed

lemma finish_row:
  assumes "index_contract tx d V" and "view_ok V s" and "view_docs V p = Some bs" "stored_value tx bs = Inr v"
    and "trusted \<Longrightarrow> current_key tx d V p = Some l"
  shows "\<exists>s'. finishVisibleIndexedValue tx d (encodeIndexEntryKey l p) (l, p) v trusted s =
      (Inr (entry_row tx d V (encodeIndexEntryKey l p)), s') \<and> moved tx d V s s'"
proof -
  obtain k where k: "extractLogicalIndexKey d v = Inr k" "current_value tx V p = Some v" "current_key tx d V p = k"
    using document_read [OF assms(1,3)] assms(4) by (metis sum.inject(2))
  show ?thesis
  proof (cases "k = Some l")
    case True
    then show ?thesis using k moved_refl [OF assms(2)] by (simp add: finishVisibleIndexedValue_def eff_simps entry_row_encoded)
  next
    case False
    then have "\<not> trusted" using assms(5) k(3) by auto
    moreover have "entry_row tx d V (encodeIndexEntryKey l p) = None" using False k by (simp add: entry_row_encoded)
    moreover obtain s' where "cleanupStaleIndexRow tx d (encodeIndexEntryKey l p) s = (Inr (), s')" "moved tx d V s s'"
      using cleanup_moves [OF assms(1,2) calculation(2)] by blast
    ultimately show ?thesis using k False by (simp add: finishVisibleIndexedValue_def eff_simps)
  qed
qed

lemma resolve_row:
  assumes "index_contract tx d V" and "view_ok V s"
    and "trusted \<Longrightarrow> view_docs V p \<noteq> None \<Longrightarrow> current_key tx d V p = Some l"
  shows "\<exists>s'. resolveVisibleIndexedValue tx d (encodeIndexEntryKey l p) (l, p) (view_docs V p) trusted s =
      (Inr (entry_row tx d V (encodeIndexEntryKey l p)), s') \<and> moved tx d V s s'"
proof (cases "view_docs V p")
  case None
  then have "entry_row tx d V (encodeIndexEntryKey l p) = None" by (simp add: entry_row_encoded current_value_def)
  moreover obtain s' where "cleanupStaleIndexRow tx d (encodeIndexEntryKey l p) s = (Inr (), s')" "moved tx d V s s'"
    using cleanup_moves [OF assms(1,2) calculation] by blast
  ultimately show ?thesis using None by (simp add: resolveVisibleIndexedValue_def eff_simps)
next
  case (Some bs)
  obtain v where v: "stored_value tx bs = Inr v" using document_read [OF assms(1) Some] by blast
  have "trusted \<Longrightarrow> current_key tx d V p = Some l" using assms(3) Some by simp
  note f = finish_row [OF assms(1,2) Some v this]
  show ?thesis
  proof (cases "tx_compression tx")
    case None
    then show ?thesis using f v Some by (simp add: resolveVisibleIndexedValue_def stored_value_def)
  next
    case (Some kind)
    then show ?thesis using f v \<open>view_docs V p = Some bs\<close> by (simp add: resolveVisibleIndexedValue_def stored_value_def eff_simps)
  qed
qed

text \<open>A value state of one key.\<close>

lemma state_read:
  assumes "index_contract tx d V" and "view_ok V s"
  shows "\<exists>x s'. readNativeValueState tx store k s = (Inr x, s') \<and> kept V s s' \<and>
    (\<forall>y. x = Some y \<longrightarrow> (store = def_store d \<longrightarrow> state_of_document V k y) \<and> (store = def_internalStore d \<longrightarrow> state_of_entry V k y))"
proof (cases "get_many_value_states tx")
  case None
  then show ?thesis using kept_refl [OF assms(2)] by (simp add: readNativeValueState_def eff_simps)
next
  case (Some states)
  obtain r s' where s': "states store (packNativeKeys [k]) s = (r, s')" "kept V s s'"
      "\<And>packet xs. r = Inr packet \<Longrightarrow> decodeNativeValueStates packet (length [k]) = Some xs \<Longrightarrow>
         (store = def_store d \<longrightarrow> list_all2 (state_of_document V) [k] xs) \<and>
         (store = def_internalStore d \<longrightarrow> list_all2 (state_of_entry V) [k] xs)"
    using assms Some unfolding index_contract_def reads_states_def by blast
  show ?thesis
  proof (cases r)
    case (Inl e)
    then show ?thesis using Some s'(1,2) by (simp add: readNativeValueState_def or_else_def eff_simps)
  next
    case (Inr packet)
    define x where "x = (case decodeNativeValueStates packet 1 of Some (state # _) \<Rightarrow> Some state | _ \<Rightarrow> None)"
    have "readNativeValueState tx store k s = (Inr x, s')"
      using Some s'(1) Inr by (simp add: readNativeValueState_def or_else_def eff_simps x_def)
    moreover have "(store = def_store d \<longrightarrow> state_of_document V k y) \<and> (store = def_internalStore d \<longrightarrow> state_of_entry V k y)" if "x = Some y" for y
    proof -
      note x_eq = that
      obtain ys where "decodeNativeValueStates packet (length [k]) = Some (y # ys)"
        using x_eq unfolding x_def by (cases "decodeNativeValueStates packet 1") (auto split: list.splits)
      then show ?thesis using s'(3) [OF Inr] by fastforce
    qed
    ultimately show ?thesis using s'(2) by blast
  qed
qed

lemma trusted_sound:
  assumes "index_contract tx d V" and "state_of_document V p x" "state_of_entry V (encodeIndexEntryKey l p) y"
    and "revision_known x" "same_revision x y" and "view_docs V p \<noteq> None"
  shows "current_key tx d V p = Some l"
proof -
  have "doc_revision V p = Some (revision_epoch x, revision_ordinal x)" using assms(2,4) by (simp add: state_of_document_def)
  moreover have "entry_revision V (encodeIndexEntryKey l p) = Some (revision_epoch x, revision_ordinal x)"
    using assms(3,5) by (simp add: state_of_entry_def same_revision_def)
  ultimately show ?thesis using assms(1,6) unfolding index_contract_def reads_states_def by blast
qed

lemma inspect_row:
  assumes "index_contract tx d V" and "view_ok V s"
  shows "\<exists>x s'. inspectIndexedValue tx d (encodeIndexEntryKey l p) p s = (Inr x, s') \<and> kept V s s' \<and>
    (x = Missing \<longrightarrow> view_docs V p = None) \<and> (x = Trusted \<longrightarrow> view_docs V p \<noteq> None \<longrightarrow> current_key tx d V p = Some l)"
proof -
  obtain x s1 where x: "readNativeValueState tx (def_store d) p s = (Inr x, s1)" "kept V s s1"
      "\<And>y. x = Some y \<Longrightarrow> state_of_document V p y"
    using state_read [OF assms, of "def_store d" p] by blast
  have ok1: "view_ok V s1" using x(2) by (simp add: kept_def)
  show ?thesis
  proof (cases x)
    case None
    then show ?thesis using x by (simp add: inspectIndexedValue_def eff_simps)
  next
    case (Some a)
    have a: "state_of_document V p a" using x(3) Some by simp
    consider (dead) "\<not> state_live a" | (plain) "state_live a" "\<not> revision_known a" | (known) "state_live a" "revision_known a" by blast
    then show ?thesis
    proof cases
      case dead
      then have none: "view_docs V p = None" using a by (simp add: state_of_document_def)
      obtain s2 where "engine_has tx (def_store d) p s1 = (Inr (view_docs V p \<noteq> None), s2)" "kept V s1 s2"
        using assms(1) ok1 unfolding index_contract_def reads_documents_def by blast
      then show ?thesis using dead none x(1,2) Some kept_trans [of V s s1 s2]
        by (auto simp: inspectIndexedValue_def eff_simps)
    next
      case plain
      then show ?thesis using x Some by (simp add: inspectIndexedValue_def eff_simps)
    next
      case known
      obtain y s2 where y: "readNativeValueState tx (def_internalStore d) (encodeIndexEntryKey l p) s1 = (Inr y, s2)" "kept V s1 s2"
          "\<And>z. y = Some z \<Longrightarrow> state_of_entry V (encodeIndexEntryKey l p) z"
        using state_read [OF assms(1) ok1, of "def_internalStore d" "encodeIndexEntryKey l p"] by blast
      have "\<exists>i. inspectIndexedValue tx d (encodeIndexEntryKey l p) p s = (Inr i, s2) \<and> i \<noteq> Missing \<and>
          (i = Trusted \<longrightarrow> (\<exists>z. y = Some z \<and> same_revision a z))"
        using known x(1) Some y(1) by (auto simp: inspectIndexedValue_def eff_simps split: option.split)
      then show ?thesis using y kept_trans [OF x(2) y(2)] trusted_sound [OF assms(1) a _ known(2)] by blast
    qed
  qed
qed

lemma single_row:
  assumes "index_contract tx d V" and "view_ok V s"
  shows "\<exists>s'. visibleIndexedRow tx d (encodeIndexEntryKey l p) s = (Inr (entry_row tx d V (encodeIndexEntryKey l p)), s') \<and> moved tx d V s s'"
proof -
  have dec: "decodeIndexEntryKey (encodeIndexEntryKey l p) = Inr (l, p)"
    by (simp add: decodeIndexEntryKey_def decodeTwoPartIndexKey_encoded)
  obtain x s1 where x: "inspectIndexedValue tx d (encodeIndexEntryKey l p) p s = (Inr x, s1)" "kept V s s1"
      "x = Missing \<longrightarrow> view_docs V p = None" "x = Trusted \<longrightarrow> view_docs V p \<noteq> None \<longrightarrow> current_key tx d V p = Some l"
    using inspect_row [OF assms] by blast
  have ok1: "view_ok V s1" using x(2) by (simp add: kept_def)
  show ?thesis
  proof (cases "x = Missing")
    case True
    then have "entry_row tx d V (encodeIndexEntryKey l p) = None" using x(3) by (simp add: entry_row_encoded current_value_def)
    then obtain s2 where "cleanupStaleIndexRow tx d (encodeIndexEntryKey l p) s1 = (Inr (), s2)" "moved tx d V s1 s2"
      using cleanup_moves [OF assms(1) ok1] by blast
    then show ?thesis using True x(1) \<open>entry_row tx d V _ = None\<close> moved_trans [OF moved_kept [OF x(2)]]
      by (auto simp: visibleIndexedRow_def eff_simps dec)
  next
    case False
    obtain s2 where s2: "engine_get tx (def_store d) p s1 = (Inr (view_docs V p), s2)" "kept V s1 s2"
      using assms(1) ok1 unfolding index_contract_def reads_documents_def by blast
    have ok2: "view_ok V s2" using s2(2) by (simp add: kept_def)
    obtain s3 where s3: "resolveVisibleIndexedValue tx d (encodeIndexEntryKey l p) (l, p) (view_docs V p) (x = Trusted) s2 =
        (Inr (entry_row tx d V (encodeIndexEntryKey l p)), s3)" "moved tx d V s2 s3"
      using resolve_row [OF assms(1) ok2] x(4) by blast
    have "moved tx d V s s3" using moved_trans [OF moved_kept [OF kept_trans [OF x(2) s2(2)]] s3(2)] .
    then show ?thesis using False x(1) s2(1) s3(1) by (auto simp: visibleIndexedRow_def eff_simps dec)
  qed
qed

section \<open>Reading entries together\<close>

definition item_ok :: "('s, 'z) index_tx_scheme \<Rightarrow> NormalizedIndexDef \<Rightarrow> 's index_view \<Rightarrow> bytes \<Rightarrow> (bytes \<times> bytes) \<times> bytes option \<times> bool \<Rightarrow> bool" where
  "item_ok tx d V k item \<longleftrightarrow> (\<exists>l p t. k = encodeIndexEntryKey l p \<and> item = ((l, p), view_docs V p, t) \<and>
     (t \<longrightarrow> view_docs V p \<noteq> None \<longrightarrow> current_key tx d V p = Some l))"

text \<open>What was read for the first of the rows.\<close>

definition batch_ok :: "('s, 'z) index_tx_scheme \<Rightarrow> NormalizedIndexDef \<Rightarrow> 's index_view \<Rightarrow> bytes list \<Rightarrow>
    ((bytes \<times> bytes) \<times> bytes option \<times> bool) list \<Rightarrow> bool" where
  "batch_ok tx d V rows batch \<longleftrightarrow> length batch \<le> length rows \<and> list_all2 (item_ok tx d V) (take (length batch) rows) batch"

abbreviation entry_of :: "bytes \<times> bytes \<Rightarrow> bytes" where
  "entry_of e \<equiv> encodeIndexEntryKey (fst e) (snd e)"

lemma entries_decoded: "mapr decodeIndexEntryKey (map entry_of es) = Inr es"
  by (induction es) (simp_all add: decodeIndexEntryKey_def decodeTwoPartIndexKey_encoded)

lemma select_entries_le: "select_entries es sizes room n = Some m \<Longrightarrow> m \<le> n + length es"
  by (induction es sizes room n rule: select_entries.induct) (auto simp: Let_def split: if_splits)

lemma place_values_read:
  assumes "list_all2 (\<lambda>c pick. \<not> pick \<longrightarrow> g (snd c) = None) chosen picks"
  shows "place_values picks (map g (map (snd \<circ> fst) (filter snd (zip chosen picks)))) = map (g \<circ> snd) chosen"
    and "length (filter snd (zip chosen picks)) = length (filter id picks)"
  using assms
proof (induction chosen picks rule: list_all2_induct)
  case (Cons c cs pick picks)
  { case 1 then show ?case using Cons by (cases pick) auto }
  { case 2 then show ?case using Cons by (cases pick) auto }
qed simp_all

definition plan_sound :: "'s index_view \<Rightarrow> (bytes \<times> bytes) list \<Rightarrow> primary_plan \<Rightarrow> bool" where
  "plan_sound V es plan \<longleftrightarrow> (case plan of (_, primary, index) \<Rightarrow>
     (\<forall>xs. primary = Some xs \<longrightarrow> list_all2 (\<lambda>e. state_of_document V (snd e)) es xs) \<and>
     (\<forall>ys. index = Some ys \<longrightarrow> list_all2 (\<lambda>e. state_of_entry V (entry_of e)) es ys))"

lemma states_read:
  assumes "index_contract tx d V" and "view_ok V s" and "get_many_value_states tx = Some states"
  shows "\<exists>r s'. states store (packNativeKeys keys) s = (r, s') \<and> kept V s s' \<and>
    (\<forall>packet xs. r = Inr packet \<longrightarrow> decodeNativeValueStates packet (length keys) = Some xs \<longrightarrow>
       (store = def_store d \<longrightarrow> list_all2 (state_of_document V) keys xs) \<and>
       (store = def_internalStore d \<longrightarrow> list_all2 (state_of_entry V) keys xs))"
  using assms unfolding index_contract_def reads_states_def by blast

lemma value_plan_reads:
  assumes "index_contract tx d V" and "view_ok V s"
  shows "\<exists>r s'. value_plan tx d (map entry_of es) es s = (r, s') \<and> kept V s s' \<and> (\<forall>plan. r = Inr (Some plan) \<longrightarrow> plan_sound V es plan)"
proof (cases "get_many_value_states tx")
  case None
  show ?thesis
  proof (cases "get_many_value_sizes tx")
    case (Some sizes)
    obtain r s' where "sizes (def_store d) (packNativeKeys (map snd es)) s = (r, s')" "kept V s s'"
      using assms Some unfolding index_contract_def reads_states_def by blast
    then show ?thesis using None Some by (cases r) (auto simp: value_plan_def Let_def eff_simps plan_sound_def)
  qed (use None kept_refl [OF assms(2)] in \<open>simp add: value_plan_def Let_def eff_simps\<close>)
next
  case (Some states)
  obtain r s1 where r: "states (def_store d) (packNativeKeys (map snd es)) s = (r, s1)" "kept V s s1"
      "\<And>packet xs. r = Inr packet \<Longrightarrow> decodeNativeValueStates packet (length (map snd es)) = Some xs \<Longrightarrow>
         list_all2 (state_of_document V) (map snd es) xs"
    using states_read [OF assms Some, of "def_store d" "map snd es"] by blast
  have ok1: "view_ok V s1" using r(2) by (simp add: kept_def)
  obtain q s2 where q: "states (def_internalStore d) (packNativeKeys (map entry_of es)) s1 = (q, s2)" "kept V s1 s2"
      "\<And>packet xs. q = Inr packet \<Longrightarrow> decodeNativeValueStates packet (length (map entry_of es)) = Some xs \<Longrightarrow>
         list_all2 (state_of_entry V) (map entry_of es) xs"
    using states_read [OF assms(1) ok1 Some, of "def_internalStore d" "map entry_of es"] by blast
  have kept2: "kept V s s2" by (rule kept_trans [OF r(2) q(2)])
  show ?thesis
  proof (cases r)
    case (Inl e)
    then show ?thesis using Some r(1,2) by (simp add: value_plan_def Let_def eff_simps)
  next
    case (Inr packet)
    show ?thesis
    proof (cases "decodeNativeValueStates packet (length es)")
      case None
      then show ?thesis using Some Inr r(1,2) by (simp add: value_plan_def Let_def eff_simps)
    next
      case dec: (Some xs)
      have xs: "list_all2 (\<lambda>e. state_of_document V (snd e)) es xs"
        using r(3) [OF Inr] dec by (simp add: list_all2_map1)
      show ?thesis
      proof (cases "list_ex (\<lambda>x. state_live x \<and> revision_known x) xs")
        case False
        then show ?thesis using Some Inr r(1,2) dec xs by (simp add: value_plan_def Let_def eff_simps plan_sound_def)
      next
        case True
        show ?thesis
        proof (cases q)
          case (Inl e)
          then show ?thesis using Some Inr r(1) q(1) dec True kept2 by (simp add: value_plan_def Let_def eff_simps)
        next
          case q2: (Inr packet2)
          show ?thesis
          proof (cases "decodeNativeValueStates packet2 (length es)")
            case None
            then show ?thesis using Some Inr r(1) q(1) dec True kept2 q2 by (simp add: value_plan_def Let_def eff_simps)
          next
            case dec2: (Some ys)
            have "list_all2 (\<lambda>e. state_of_entry V (entry_of e)) es ys"
              using q(3) [OF q2] dec2 by (simp add: list_all2_map1)
            then show ?thesis using Some Inr r(1) q(1) dec True kept2 q2 dec2 xs by (simp add: value_plan_def Let_def eff_simps plan_sound_def)
          qed
        qed
      qed
    qed
  qed
qed

lemma read_batch_reads:
  assumes "index_contract tx d V" and "view_ok V s"
  shows "\<exists>r s'. read_batch tx d (map entry_of es) room s = (r, s') \<and> kept V s s' \<and>
    (\<forall>chosen picks trusted loaded. r = Inr (Some (chosen, picks, trusted, loaded)) \<longrightarrow>
       length loaded = length (filter id picks) \<and>
       batch_ok tx d V (map entry_of es) (zip chosen (zip (place_values picks loaded) trusted)) \<and> chosen \<noteq> [] \<and>
       length trusted = length chosen \<and> length (place_values picks loaded) = length chosen)"
proof -
  obtain p s1 where p: "value_plan tx d (map entry_of es) es s = (p, s1)" "kept V s s1"
      "\<And>plan. p = Inr (Some plan) \<Longrightarrow> plan_sound V es plan"
    using value_plan_reads [OF assms] by blast
  have ok1: "view_ok V s1" using p(2) by (simp add: kept_def)
  have start: "read_batch tx d (map entry_of es) room s = bindm (\<lambda>_. (p, s1)) (\<lambda>plan.
         case plan of
           None \<Rightarrow> ret None
         | Some (sizes, primary, index) \<Rightarrow>
             if length sizes \<noteq> length es then ret None
             else
               (case select_entries es sizes room 0 of
                  None \<Rightarrow> ret None
                | Some selected \<Rightarrow>
                    if selected \<le> 1 then ret None
                    else
                      let chosen = take selected es;
                          picks = map (\<lambda>i. case primary of None \<Rightarrow> True | Some xs \<Rightarrow> state_live (xs ! i)) [0..<selected];
                          trusted = map (trusted_entry primary index) [0..<selected];
                          keys = map (snd \<circ> fst) (filter snd (zip chosen picks))
                      in bindm (if keys = [] then ret [] else engine_get_many tx (def_store d) keys) (\<lambda>loaded.
                           ret (Some (chosen, picks, trusted, loaded))))) s"
    using p(1) by (simp add: read_batch_def entries_decoded eff_simps)
  consider (stop) "\<And>x. p \<noteq> Inr (Some x)" | (plan) sizes primary index where "p = Inr (Some (sizes, primary, index))"
    by (metis prod_cases3)
  then show ?thesis
  proof cases
    case stop
    then show ?thesis unfolding start using p(2) by (cases p; cases "projr p") (auto simp: eff_simps)
  next
    case plan
    have sound: "plan_sound V es (sizes, primary, index)" using p(3) plan by blast
    consider (none) "length sizes \<noteq> length es \<or> select_entries es sizes room 0 = None \<or> (\<exists>m \<le> 1. select_entries es sizes room 0 = Some m)"
      | (some) n where "length sizes = length es" "select_entries es sizes room 0 = Some n" "1 < n"
      by (meson not_le_imp_less option.exhaust)
    then show ?thesis
    proof cases
      case none
      then show ?thesis unfolding start plan using p(2) by (auto simp: eff_simps)
    next
      case some
      have n: "n \<le> length es" using select_entries_le [OF some(2)] by simp
      define chosen where "chosen = take n es"
      define picks where "picks = map (\<lambda>i. case primary of None \<Rightarrow> True | Some xs \<Rightarrow> state_live (xs ! i)) [0..<n]"
      define trusted where "trusted = map (trusted_entry primary index) [0..<n]"
      define keys where "keys = map (snd \<circ> fst) (filter snd (zip chosen picks))"
      have run: "read_batch tx d (map entry_of es) room s =
          bindm (if keys = [] then ret [] else engine_get_many tx (def_store d) keys) (\<lambda>loaded. ret (Some (chosen, picks, trusted, loaded))) s1"
        unfolding start plan using some by (simp add: eff_simps Let_def chosen_def picks_def trusted_def keys_def)
      obtain s2 where s2: "(if keys = [] then ret [] else engine_get_many tx (def_store d) keys) s1 = (Inr (map (view_docs V) keys), s2)" "kept V s1 s2"
      proof (cases "keys = []")
        case True
        then show ?thesis using that kept_refl [OF ok1] by (simp add: eff_simps)
      next
        case False
        obtain s2 where "engine_get_many tx (def_store d) keys s1 = (Inr (map (view_docs V) keys), s2)" "kept V s1 s2"
          using assms(1) ok1 unfolding index_contract_def reads_documents_def by blast
        then show ?thesis using that False by simp
      qed
      have lens: "length chosen = n" "length picks = n" "length trusted = n" using n by (simp_all add: chosen_def picks_def trusted_def)
      have state: "state_of_document V (snd (es ! i)) (xs ! i)" if "primary = Some xs" "i < n" for xs i
        using sound that n by (auto simp: plan_sound_def list_all2_conv_all_nth)
      have entry: "state_of_entry V (entry_of (es ! i)) (ys ! i)" if "index = Some ys" "i < n" for ys i
        using sound that n by (auto simp: plan_sound_def list_all2_conv_all_nth)
      have dead: "list_all2 (\<lambda>c pick. \<not> pick \<longrightarrow> view_docs V (snd c) = None) chosen picks"
        unfolding list_all2_conv_all_nth
        using lens n state by (auto simp: chosen_def picks_def state_of_document_def split: option.splits)
      note placed = place_values_read [OF dead]
      have vals: "place_values picks (map (view_docs V) keys) = map (view_docs V \<circ> snd) chosen"
        using placed(1) by (simp add: keys_def)
      have item: "item_ok tx d V (entry_of (es ! i)) (es ! i, view_docs V (snd (es ! i)), trusted ! i)" if "i < n" for i
      proof -
        have "current_key tx d V (snd (es ! i)) = Some (fst (es ! i))" if "trusted ! i" "view_docs V (snd (es ! i)) \<noteq> None"
        proof -
          note h = that
          obtain xs ys where xy: "primary = Some xs" "index = Some ys" "revision_known (xs ! i)" "same_revision (xs ! i) (ys ! i)"
            using h(1) \<open>i < n\<close> by (auto simp: trusted_def trusted_entry_def split: option.splits)
          show ?thesis
            using trusted_sound [OF assms(1) state [OF xy(1) \<open>i < n\<close>] _ xy(3,4) h(2)] entry [OF xy(2) \<open>i < n\<close>] by blast
        qed
        then show ?thesis unfolding item_ok_def
          by (intro exI [of _ "fst (es ! i)"] exI [of _ "snd (es ! i)"] exI [of _ "trusted ! i"]) simp
      qed
      have "batch_ok tx d V (map entry_of es) (zip chosen (zip (place_values picks (map (view_docs V) keys)) trusted))"
        using lens n item by (simp add: batch_ok_def vals list_all2_conv_all_nth) (simp add: chosen_def)
      moreover have "length (map (view_docs V) keys) = length (filter id picks)" using placed(2) by (simp add: keys_def)
      moreover have "chosen \<noteq> []" using lens(1) some(3) by auto
      moreover have "length (place_values picks (map (view_docs V) keys)) = length chosen" by (simp add: vals)
      ultimately show ?thesis using run s2 lens kept_trans [OF p(2) s2(2)] by (auto simp: eff_simps)
    qed
  qed
qed

lemma batch_reads:
  assumes "index_contract tx d V" and "view_ok V s"
  shows "\<exists>r s'. readIndexPrimaryValues tx d (map entry_of es) room s = (Inr r, s') \<and> kept V s s' \<and>
    (\<forall>batch. r = Some batch \<longrightarrow> batch \<noteq> [] \<and> batch_ok tx d V (map entry_of es) batch)"
proof (cases "tx_readwrite tx \<or> length (map entry_of es) \<le> 1 \<or> get_many_value_sizes tx = None \<and> get_many_value_states tx = None")
  case True
  then show ?thesis using kept_refl [OF assms(2)] by (simp add: readIndexPrimaryValues_def eff_simps)
next
  case False
  obtain r s1 where r: "read_batch tx d (map entry_of es) room s = (r, s1)" "kept V s s1"
    "\<And>chosen picks trusted loaded. r = Inr (Some (chosen, picks, trusted, loaded)) \<Longrightarrow>
       length loaded = length (filter id picks) \<and>
       batch_ok tx d V (map entry_of es) (zip chosen (zip (place_values picks loaded) trusted)) \<and> chosen \<noteq> [] \<and>
       length trusted = length chosen \<and> length (place_values picks loaded) = length chosen"
    using read_batch_reads [OF assms, of es room] by blast
  have start: "readIndexPrimaryValues tx d (map entry_of es) room s =
      bindm (or_else (\<lambda>_. (r, s1)) None) (\<lambda>batch.
        case batch of
          None \<Rightarrow> ret None
        | Some (entries, picks, trusted, loaded) \<Rightarrow>
            if length loaded \<noteq> length (filter id picks) then raise (Throw InternalError ''get_many outcome count mismatch'')
            else ret (Some (zip entries (zip (place_values picks loaded) trusted)))) s"
    using False r(1) by (auto simp: readIndexPrimaryValues_def eff_simps or_else_def)
  consider "\<And>x. r \<noteq> Inr (Some x)" | c p t l where "r = Inr (Some (c, p, t, l))"
    by (metis prod_cases4)
  then show ?thesis
  proof cases
    case 1
    then show ?thesis unfolding start using r(2) by (cases r; cases "projr r") (auto simp: eff_simps or_else_def)
  next
    case 2
    have z: "zip c (zip (place_values p l) t) \<noteq> []" using r(3) [OF 2] by (cases c; cases t; cases "place_values p l") auto
    show ?thesis unfolding start using r(2) r(3) [OF 2] z by (simp add: 2 eff_simps or_else_def)
  qed
qed

section \<open>The rows of a chunk\<close>

definition encoded_keys :: "bytes list \<Rightarrow> bool" where
  "encoded_keys ks \<longleftrightarrow> (\<forall>k \<in> set ks. \<exists>l p. k = encodeIndexEntryKey l p)"

lemma encoded_keys_simps [simp]:
  "encoded_keys []" "encoded_keys (k # ks) \<longleftrightarrow> (\<exists>l p. k = encodeIndexEntryKey l p) \<and> encoded_keys ks"
  by (simp_all add: encoded_keys_def)

lemma encoded_keys_subset: "encoded_keys ks \<Longrightarrow> set ls \<subseteq> set ks \<Longrightarrow> encoded_keys ls"
  by (auto simp: encoded_keys_def)

lemma encoded_entries: "encoded_keys ks \<Longrightarrow> \<exists>es. ks = map entry_of es"
proof (induction ks)
  case (Cons k ks)
  then obtain es l p where "ks = map entry_of es" "k = encodeIndexEntryKey l p" by auto
  then have "k # ks = map entry_of ((l, p) # es)" by simp
  then show ?case by (rule exI)
qed simp

lemma batch_ok_Nil [simp]: "batch_ok tx d V rows []"
  by (simp add: batch_ok_def)

lemma batch_ok_Cons [simp]: "batch_ok tx d V (k # ks) (b # bs) \<longleftrightarrow> item_ok tx d V k b \<and> batch_ok tx d V ks bs"
  by (auto simp: batch_ok_def)

lemma batch_ok_take: "batch_ok tx d V (take n rows) batch \<Longrightarrow> batch_ok tx d V rows batch"
  by (auto simp: batch_ok_def min_def split: if_splits)

text \<open>Every document with its key fits a page of its own.\<close>

definition rows_fit :: "('s, 'z) index_tx_scheme \<Rightarrow> NormalizedIndexDef \<Rightarrow> 's index_view \<Rightarrow> nat \<Rightarrow> bool" where
  "rows_fit tx d V maxBytes \<longleftrightarrow> (\<forall>k p v. entry_row tx d V k = Some (p, v) \<longrightarrow> 12 + length p + length v \<le> maxBytes)"

definition rest_ok :: "('s, 'z) index_tx_scheme \<Rightarrow> NormalizedIndexDef \<Rightarrow> 's index_view \<Rightarrow> nat \<Rightarrow> bytes list \<Rightarrow>
    (bytes \<times> bytes) list \<Rightarrow> bytes option \<Rightarrow> page_rest \<Rightarrow> bool" where
  "rest_ok tx d V lim rows visible resume res \<longleftrightarrow>
     (case res of
        RowsUsed visible' used resume' \<Rightarrow> visible' = visible @ rows_of tx d V rows \<and> length visible' < lim \<and>
          (visible' = [] \<longrightarrow> used = 4) \<and> resume' = (if rows = [] then resume else Some (last rows))
      | PageDone visible' cursor \<Rightarrow> \<exists>r1 r2. rows = r1 @ r2 \<and> visible' = visible @ rows_of tx d V r1 \<and> visible' \<noteq> [] \<and>
          length visible' \<le> lim \<and> cursor = (if r1 = [] then resume else Some (last r1)) \<and> cursor \<noteq> None)"

text \<open>The rest after the first row, seen from before it.\<close>

lemma rest_ok_Cons:
  assumes "rest_ok tx d V lim rows (visible @ rows_of tx d V [row]) (Some row) res"
  shows "rest_ok tx d V lim (row # rows) visible resume res"
proof (cases res)
  case (PageDone visible' cursor)
  then obtain r1 r2 where r: "rows = r1 @ r2" "visible' = (visible @ rows_of tx d V [row]) @ rows_of tx d V r1" "visible' \<noteq> []"
      "length visible' \<le> lim" "cursor = (if r1 = [] then Some row else Some (last r1))"
    using assms unfolding rest_ok_def PageDone page_rest.case by blast
  have "row # rows = (row # r1) @ r2" "visible' = visible @ rows_of tx d V (row # r1)"
      "cursor = (if row # r1 = [] then resume else Some (last (row # r1)))" "cursor \<noteq> None"
    using r by simp_all
  then show ?thesis unfolding rest_ok_def PageDone page_rest.case using r(3,4) by blast
next
  case (RowsUsed visible' used resume')
  then show ?thesis using assms by (auto simp: rest_ok_def)
qed

lemma next_row:
  assumes "index_contract tx d V" and "view_ok V s" and "encoded_keys (row # rows)" and "batch_ok tx d V (row # rows) batch"
  obtains current s1 s2 where
    "(if batch = [] then readIndexPrimaryValues tx d (take n (row # rows)) room else ret (Some batch)) s = (Inr current, s1)"
    "(case current of
        Some ((decoded, v, trusted) # _) \<Rightarrow> resolveVisibleIndexedValue tx d row decoded v trusted
      | _ \<Rightarrow> visibleIndexedRow tx d row) s1 = (Inr (entry_row tx d V row), s2)"
    "moved tx d V s s2" "batch_ok tx d V rows (case current of Some (_ # others) \<Rightarrow> others | _ \<Rightarrow> [])"
proof -
  obtain l p where k: "row = encodeIndexEntryKey l p" using assms(3) by auto
  obtain current s1 where c: "(if batch = [] then readIndexPrimaryValues tx d (take n (row # rows)) room else ret (Some batch)) s = (Inr current, s1)"
      "kept V s s1" "\<And>b. current = Some b \<Longrightarrow> b \<noteq> [] \<and> batch_ok tx d V (row # rows) b"
  proof (cases "batch = []")
    case True
    have "encoded_keys (take n (row # rows))" by (rule encoded_keys_subset [OF assms(3) set_take_subset])
    then obtain es where es: "take n (row # rows) = map entry_of es" using encoded_entries by blast
    obtain r s1 where "readIndexPrimaryValues tx d (take n (row # rows)) room s = (Inr r, s1)" "kept V s s1"
        "\<And>b. r = Some b \<Longrightarrow> b \<noteq> [] \<and> batch_ok tx d V (take n (row # rows)) b"
      using batch_reads [OF assms(1,2), of es room] unfolding es by blast
    note r = this
    show ?thesis by (rule that [of r s1]) (use r True batch_ok_take in auto)
  next
    case False
    show ?thesis by (rule that [of "Some batch" s]) (use False assms(2,4) in \<open>auto simp: eff_simps kept_refl\<close>)
  qed
  have ok1: "view_ok V s1" using c(2) by (simp add: kept_def)
  show ?thesis
  proof (cases current)
    case None
    obtain s2 where s2: "visibleIndexedRow tx d row s1 = (Inr (entry_row tx d V row), s2)" "moved tx d V s1 s2"
      using single_row [OF assms(1) ok1, of l p] k by blast
    show ?thesis by (rule that [OF c(1) _ moved_trans [OF moved_kept [OF c(2)] s2(2)]]) (use None s2(1) in simp_all)
  next
    case (Some b)
    then obtain i others where b: "b = i # others" "item_ok tx d V row i" "batch_ok tx d V rows others" using c(3) by (cases b) auto
    obtain l' p' t where i: "row = encodeIndexEntryKey l' p'" "i = ((l', p'), view_docs V p', t)"
        "t \<Longrightarrow> view_docs V p' \<noteq> None \<Longrightarrow> current_key tx d V p' = Some l'" using b(2) unfolding item_ok_def by blast
    obtain s2 where s2: "resolveVisibleIndexedValue tx d row (l', p') (view_docs V p') t s1 = (Inr (entry_row tx d V row), s2)" "moved tx d V s1 s2"
      using resolve_row [OF assms(1) ok1 i(3)] i(1) by blast
    show ?thesis
      by (rule that [OF c(1) _ moved_trans [OF moved_kept [OF c(2)] s2(2)]]) (use Some b i(2) s2(1) in simp_all)
  qed
qed

lemma page_rows:
  assumes "index_contract tx d V" and "rows_fit tx d V maxBytes"
    and "view_ok V s" and "encoded_keys rows" and "batch_ok tx d V rows batch"
    and "visible = [] \<Longrightarrow> used = 4" and "visible \<noteq> [] \<Longrightarrow> resume \<noteq> None" and "length visible < lim"
  shows "\<exists>res s'. page_rows_loop tx d lim maxBytes rows batch visible used resume s = (Inr res, s') \<and> moved tx d V s s' \<and>
    rest_ok tx d V lim rows visible resume res"
  using assms(3-)
proof (induction rows arbitrary: s batch visible used resume)
  case Nil
  then show ?case using moved_refl by (auto simp: eff_simps rest_ok_def)
next
  case (Cons row rows)
  obtain current s1 s2 where c:
    "(if batch = [] then readIndexPrimaryValues tx d (take (lim - length visible) (row # rows)) (maxBytes - used) else ret (Some batch)) s = (Inr current, s1)"
    "(case current of
        Some ((decoded, v, trusted) # _) \<Rightarrow> resolveVisibleIndexedValue tx d row decoded v trusted
      | _ \<Rightarrow> visibleIndexedRow tx d row) s1 = (Inr (entry_row tx d V row), s2)"
    "moved tx d V s s2" "batch_ok tx d V rows (case current of Some (_ # others) \<Rightarrow> others | _ \<Rightarrow> [])"
    using next_row [OF assms(1) Cons.prems(1-3)] by blast
  define batch' where "batch' = (case current of Some (_ # others) \<Rightarrow> others | _ \<Rightarrow> [])"
  note run = page_rows_loop.simps(2) [of tx d lim maxBytes row rows batch visible used resume]
  note ih = Cons.IH [OF moved_ok [OF c(3)] _ c(4) [folded batch'_def]]
  show ?case
  proof (cases "entry_row tx d V row")
    case None
    obtain res s' where r: "page_rows_loop tx d lim maxBytes rows batch' visible used (Some row) s2 = (Inr res, s')" "moved tx d V s2 s'"
        "rest_ok tx d V lim rows visible (Some row) res"
      using ih [of visible used "Some row"] Cons.prems by auto
    have "page_rows_loop tx d lim maxBytes (row # rows) batch visible used resume s = (Inr res, s')"
      unfolding run using c(1,2) r(1) None by (simp add: bindm_def batch'_def Let_def)
    moreover have "rest_ok tx d V lim (row # rows) visible resume res" by (rule rest_ok_Cons) (use r(3) None in simp)
    ultimately show ?thesis using moved_trans [OF c(3) r(2)] by blast
  next
    case (Some item)
    define next_used where "next_used = used + 8 + length (fst item) + length (snd item)"
    consider (full) "maxBytes < next_used" | (last) "\<not> maxBytes < next_used" "lim \<le> length visible + 1"
      | (more) "\<not> maxBytes < next_used" "\<not> lim \<le> length visible + 1" by blast
    then show ?thesis
    proof cases
      case full
      have "visible \<noteq> []"
      proof
        assume "visible = []"
        then have "next_used = 12 + length (fst item) + length (snd item)" using Cons.prems(4) by (simp add: next_used_def)
        moreover have "12 + length (fst item) + length (snd item) \<le> maxBytes"
          using assms(2) Some unfolding rows_fit_def by (metis prod.collapse)
        ultimately show False using full by simp
      qed
      moreover have "page_rows_loop tx d lim maxBytes (row # rows) batch visible used resume s = (Inr (PageDone visible resume), s2)"
        unfolding run using c(1,2) Some full calculation Cons.prems(5) by (simp add: bindm_def Let_def next_used_def eff_simps)
      moreover have "rest_ok tx d V lim (row # rows) visible resume (PageDone visible resume)"
        unfolding rest_ok_def page_rest.case using calculation(1) Cons.prems(5,6) by (intro exI [of _ "[]"] exI [of _ "row # rows"]) simp
      ultimately show ?thesis using c(3) by blast
    next
      case last
      have "page_rows_loop tx d lim maxBytes (row # rows) batch visible used resume s = (Inr (PageDone (visible @ [item]) (Some row)), s2)"
        unfolding run using c(1,2) Some last by (simp add: bindm_def Let_def next_used_def eff_simps)
      moreover have "rest_ok tx d V lim (row # rows) visible resume (PageDone (visible @ [item]) (Some row))"
        unfolding rest_ok_def page_rest.case using Some Cons.prems(6) by (intro exI [of _ "[row]"] exI [of _ rows]) simp
      ultimately show ?thesis using c(3) by blast
    next
      case more
      obtain res s' where r: "page_rows_loop tx d lim maxBytes rows batch' (visible @ [item]) next_used (Some row) s2 = (Inr res, s')"
          "moved tx d V s2 s'" "rest_ok tx d V lim rows (visible @ [item]) (Some row) res"
        using ih [of "visible @ [item]" next_used "Some row"] Cons.prems more by auto
      have "page_rows_loop tx d lim maxBytes (row # rows) batch visible used resume s = (Inr res, s')"
        unfolding run using c(1,2) r(1) Some more by (simp add: bindm_def batch'_def Let_def next_used_def)
      moreover have "rest_ok tx d V lim (row # rows) visible resume res" by (rule rest_ok_Cons) (use r(3) Some in simp)
      ultimately show ?thesis using moved_trans [OF c(3) r(2)] by blast
    qed
  qed
qed

section \<open>Pages\<close>

definition beyond :: "range \<Rightarrow> bytes option \<Rightarrow> bytes \<Rightarrow> bool" where
  "beyond r resume k = (case resume of None \<Rightarrow> True | Some c \<Rightarrow> if reverse r = Some True then k < c else c < k)"

text \<open>The entries a scan of the range has still to visit.\<close>

definition ahead :: "range \<Rightarrow> bytes option \<Rightarrow> bytes list \<Rightarrow> bytes list" where
  "ahead r resume ks = filter (beyond r resume) (directed r (filter (\<lambda>k. in_range k r) ks))"

definition physical_shape :: "range \<Rightarrow> bool" where
  "physical_shape r \<longleftrightarrow> gt r = None \<and> lte r = None \<and> limit r = None"

lemma directed_filter: "directed r (filter P xs) = filter P (directed r xs)"
  by (simp add: directed_def rev_filter)

lemma ahead_filter: "ahead r resume (filter P ks) = filter P (ahead r resume ks)"
  by (simp add: ahead_def directed_filter conj_commute conj_left_commute)

lemma set_ahead: "set (ahead r resume ks) = {k \<in> set ks. in_range k r \<and> beyond r resume k}"
  by (auto simp: ahead_def)

lemma chunk_range_valid: "physical_shape r \<Longrightarrow> n \<le> 512 \<Longrightarrow> assertValidScanRange (chunk_range r n resume) = Inr () \<and> limit (chunk_range r n resume) \<noteq> None"
  by (auto simp: physical_shape_def chunk_range_def assertValidScanRange_def Let_def MAX_ENGINE_SCAN_LIMIT_def split: option.split)

lemma chunk_keys:
  assumes "physical_shape r" and "n \<le> 512" and "\<And>c. resume = Some c \<Longrightarrow> in_range c r"
  shows "range_keys (chunk_range r n resume) ks = take n (ahead r resume ks)"
proof -
  have "in_range k (chunk_range r n resume) \<longleftrightarrow> in_range k r \<and> beyond r resume k" for k
    using assms(1,3) by (auto simp: physical_shape_def chunk_range_def beyond_def in_range_def Let_def split: option.splits)
  moreover have "directed (chunk_range r n resume) xs = directed r xs" for xs :: "bytes list"
    by (simp add: directed_def chunk_range_def Let_def split: option.split)
  moreover have "limit (chunk_range r n resume) = Some (f64_of_nat n)"
    by (simp add: chunk_range_def Let_def split: option.split)
  ultimately show ?thesis
    using assms(2) by (simp add: range_keys_def ahead_def directed_filter Let_def conj_commute)
qed

lemma keys_directed: "sorted_wrt (<) ks \<Longrightarrow> sorted_wrt (\<lambda>x. beyond r (Some x)) (directed r (ks :: bytes list))"
  by (drule sorted_directed [of _ _ r]) (erule sorted_wrt_mono_rel [rotated], simp add: beyond_def split: if_splits)

lemma beyond_trans: "beyond r (Some c) k \<Longrightarrow> beyond r resume c \<Longrightarrow> beyond r resume k"
  by (auto simp: beyond_def split: option.splits if_splits)

lemma beyond_asym: "beyond r (Some x) y \<Longrightarrow> \<not> beyond r (Some y) x" "\<not> beyond r (Some x) x"
  by (auto simp: beyond_def split: if_splits)

text \<open>After the last of the entries visited, the others are ahead.\<close>

lemma ahead_split:
  assumes "sorted_wrt (<) ks" and "ahead r resume ks = xs @ ys" and "xs \<noteq> []"
  shows "ahead r (Some (last xs)) ks = ys" and "in_range (last xs) r"
proof -
  obtain zs c where xs: "xs = zs @ [c]" using assms(3) by (cases xs rule: rev_exhaust) auto
  have c: "c \<in> set (ahead r resume ks)" using assms(2) xs by simp
  then have c2: "in_range c r" "beyond r resume c" by (simp_all add: set_ahead)
  define L where "L = directed r (filter (\<lambda>k. in_range k r) ks)"
  have "sorted_wrt (\<lambda>x. beyond r (Some x)) L" unfolding L_def by (rule keys_directed [OF sorted_wrt_filter [OF assms(1)]])
  then have "sorted_wrt (\<lambda>x. beyond r (Some x)) (zs @ c # ys)"
    using sorted_wrt_filter [of _ L "beyond r resume"] assms(2) xs by (simp add: ahead_def L_def)
  then have s: "\<forall>x \<in> set zs. \<not> beyond r (Some c) x" "\<forall>y \<in> set ys. beyond r (Some c) y"
    using beyond_asym(1) by (auto simp: sorted_wrt_append)
  have "ahead r (Some c) ks = filter (beyond r (Some c)) (ahead r resume ks)"
    unfolding ahead_def filter_filter by (rule filter_cong [OF refl]) (use beyond_trans c2(2) in blast)
  also have "\<dots> = ys" using s beyond_asym(2) by (simp add: assms(2) xs filter_empty_conv)
  finally show "ahead r (Some (last xs)) ks = ys" by (simp add: xs)
  show "in_range (last xs) r" using c2(1) by (simp add: xs)
qed

lemma moved_ahead:
  assumes "moved tx d V s s'"
  shows "rows_of tx d V (ahead r resume (view_keys V s')) = rows_of tx d V (ahead r resume (view_keys V s))"
    and "length (ahead r resume (view_keys V s')) \<le> length (ahead r resume (view_keys V s))"
    and "length (view_keys V s') \<le> length (view_keys V s)"
proof -
  obtain P where P: "view_keys V s' = filter P (view_keys V s)" "\<And>k. entry_row tx d V k \<noteq> None \<Longrightarrow> P k"
    using assms by (auto simp: moved_def)
  show "rows_of tx d V (ahead r resume (view_keys V s')) = rows_of tx d V (ahead r resume (view_keys V s))"
    unfolding P(1) ahead_filter by (rule rows_of_filter [OF P(2)])
  show "length (ahead r resume (view_keys V s')) \<le> length (ahead r resume (view_keys V s))"
    unfolding P(1) ahead_filter by (rule length_filter_le)
  show "length (view_keys V s') \<le> length (view_keys V s)" unfolding P(1) by (rule length_filter_le)
qed

definition page_ok :: "('s, 'z) index_tx_scheme \<Rightarrow> NormalizedIndexDef \<Rightarrow> 's index_view \<Rightarrow> range \<Rightarrow> nat \<Rightarrow> bytes list \<Rightarrow>
    bytes option \<Rightarrow> (bytes \<times> bytes) list \<Rightarrow> (bytes \<times> bytes) list \<Rightarrow> bytes option \<Rightarrow> bool" where
  "page_ok tx d V r lim ks resume visible rows cursor \<longleftrightarrow> length (visible @ rows) \<le> lim \<and>
     (case cursor of
        None \<Rightarrow> rows_of tx d V (ahead r resume ks) = rows
      | Some c \<Rightarrow> visible @ rows \<noteq> [] \<and> in_range c r \<and>
          rows_of tx d V (ahead r resume ks) = rows @ rows_of tx d V (ahead r (Some c) ks))"

lemma page_chunks_rows:
  assumes "index_contract tx d V" and "rows_fit tx d V maxBytes" and "physical_shape r"
    and "view_ok V s" and "visible = [] \<Longrightarrow> used = 4" and "visible \<noteq> [] \<Longrightarrow> resume \<noteq> None" and "length visible < lim"
    and "\<And>c. resume = Some c \<Longrightarrow> in_range c r" and "length (ahead r resume (view_keys V s)) < fuel" and "1 \<le> low"
  shows "\<exists>rows cursor s'. page_chunks tx d r lim maxBytes fuel low visible used resume s = (Inr (visible @ rows, cursor), s') \<and>
    moved tx d V s s' \<and> page_ok tx d V r lim (view_keys V s) resume visible rows cursor"
  using assms(4-)
proof (induction fuel arbitrary: s low visible used resume)
  case (Suc fuel)
  let ?K = "view_keys V s"
  define n where "n = min INDEX_SCAN_RAW_CHUNK_ROWS (max (lim - length visible) low)"
  have n: "1 \<le> n" "n \<le> 512" using Suc.prems(4,7) by (simp_all add: n_def INDEX_SCAN_RAW_CHUNK_ROWS_def)
  define raw where "raw = take n (ahead r resume ?K)"
  have keys: "sorted_wrt (<) ?K" "encoded_keys ?K"
    using assms(1) Suc.prems(1) by (auto simp: index_contract_def reads_index_def encoded_keys_def)
  have raw_keys: "encoded_keys raw"
    using encoded_keys_subset [OF keys(2)] set_take_subset [of n "ahead r resume ?K"] set_ahead [of r resume ?K] by (auto simp: raw_def)
  have range: "assertValidScanRange (chunk_range r n resume) = Inr ()" "limit (chunk_range r n resume) \<noteq> None"
    using chunk_range_valid [OF assms(3) n(2)] by blast+
  have raw_eq: "range_keys (chunk_range r n resume) ?K = raw"
    unfolding raw_def by (rule chunk_keys [OF assms(3) n(2) Suc.prems(5)])
  obtain s1 where s1: "readIndexKeyScan tx (def_internalStore d) (chunk_range r n resume) s = (Inr raw, s1)" "kept V s s1"
    using assms(1) Suc.prems(1) range unfolding index_contract_def reads_index_def raw_eq [symmetric] by blast
  have ok1: "view_ok V s1" using s1(2) by (simp add: kept_def)
  obtain res s2 where s2: "page_rows_loop tx d lim maxBytes raw [] visible used resume s1 = (Inr res, s2)" "moved tx d V s1 s2"
      "rest_ok tx d V lim raw visible resume res"
    using page_rows [OF assms(1,2) ok1 raw_keys batch_ok_Nil Suc.prems(2,3,4)] by blast
  have moved2: "moved tx d V s s2" by (rule moved_trans [OF moved_kept [OF s1(2)] s2(2)])
  define drest where "drest = drop n (ahead r resume ?K)"
  have split: "ahead r resume ?K = raw @ drest" by (simp add: raw_def drest_def)
  show ?case
  proof (cases res)
    case (PageDone visible' cursor)
    obtain r1 r2 where p: "raw = r1 @ r2" "visible' = visible @ rows_of tx d V r1" "visible' \<noteq> []" "length visible' \<le> lim"
        "cursor = (if r1 = [] then resume else Some (last r1))" "cursor \<noteq> None"
      using s2(3) unfolding rest_ok_def PageDone page_rest.case by blast
    obtain c where c: "cursor = Some c" using p(6) by blast
    have "in_range c r \<and> rows_of tx d V (ahead r resume ?K) = rows_of tx d V r1 @ rows_of tx d V (ahead r (Some c) ?K)"
    proof (cases "r1 = []")
      case True
      then show ?thesis using p(5) c Suc.prems(5) by simp
    next
      case False
      then show ?thesis using ahead_split [OF keys(1), of r resume r1 "r2 @ drest"] split p(1,5) c by simp
    qed
    then have "page_ok tx d V r lim ?K resume visible (rows_of tx d V r1) (Some c)" using p(2,3,4) by (simp add: page_ok_def)
    moreover have "page_chunks tx d r lim maxBytes (Suc fuel) low visible used resume s = (Inr (visible @ rows_of tx d V r1, Some c), s2)"
      using s1(1) s2(1) PageDone p(2) c by (simp add: n_def Let_def)
    ultimately show ?thesis using moved2 by blast
  next
    case (RowsUsed visible' used' resume')
    have u: "visible' = visible @ rows_of tx d V raw" "length visible' < lim" "visible' = [] \<Longrightarrow> used' = 4"
        "resume' = (if raw = [] then resume else Some (last raw))"
      using s2(3) unfolding rest_ok_def RowsUsed page_rest.case by blast+
    show ?thesis
    proof (cases "length raw < n")
      case True
      then have "drest = []" by (auto simp: raw_def drest_def)
      then have "page_ok tx d V r lim ?K resume visible (rows_of tx d V raw) None" using u(1,2) split by (simp add: page_ok_def)
      moreover have "page_chunks tx d r lim maxBytes (Suc fuel) low visible used resume s = (Inr (visible @ rows_of tx d V raw, None), s2)"
        using s1(1) s2(1) RowsUsed u(1) True by (simp add: n_def Let_def)
      ultimately show ?thesis using moved2 by blast
    next
      case False
      then have raw: "raw \<noteq> []" using n(1) by auto
      define c where "c = last raw"
      have resume': "resume' = Some c" using u(4) raw by (simp add: c_def)
      have c: "ahead r (Some c) ?K = drest" "in_range c r"
        using ahead_split [OF keys(1) split raw] by (simp_all add: c_def)
      define low' where "low' = (if length visible' = length visible then min INDEX_SCAN_RAW_CHUNK_ROWS (n * 2) else 1)"
      have "1 \<le> low'" using n(1) by (simp add: low'_def INDEX_SCAN_RAW_CHUNK_ROWS_def)
      moreover have "length (ahead r resume' (view_keys V s2)) < fuel"
        using moved_ahead(2) [OF moved2, of r "Some c"] c(1) split raw Suc.prems(6) resume' by (cases raw) auto
      ultimately obtain rows cursor s3 where s3:
          "page_chunks tx d r lim maxBytes fuel low' visible' used' resume' s2 = (Inr (visible' @ rows, cursor), s3)"
          "moved tx d V s2 s3" "page_ok tx d V r lim (view_keys V s2) resume' visible' rows cursor"
        using Suc.IH [OF moved_ok [OF moved2] u(3) _ u(2), of resume' low'] c(2) resume' by auto
      have "page_ok tx d V r lim ?K resume visible (rows_of tx d V raw @ rows) cursor"
        using s3(3) u(1) moved_ahead(1) [OF moved2, of r] c(1) split resume'
        by (auto simp: page_ok_def split: option.splits)
      moreover have "page_chunks tx d r lim maxBytes (Suc fuel) low visible used resume s =
          (Inr (visible @ rows_of tx d V raw @ rows, cursor), s3)"
        unfolding page_chunks.simps(2) Let_def n_def [symmetric]
        by (simp only: s1(1) s2(1) RowsUsed prod.case sum.case page_rest.case False if_False s3(1) [unfolded low'_def]) (simp add: u(1))
      ultimately show ?thesis using moved_trans [OF moved2 s3(2)] by blast
    qed
  qed
qed simp

section \<open>Scans\<close>

definition first_rows :: "nat option \<Rightarrow> 'a list \<Rightarrow> 'a list" where
  "first_rows n xs = (case n of None \<Rightarrow> xs | Some m \<Rightarrow> take m xs)"

lemma ahead_length: "length (ahead r resume ks) \<le> length ks"
proof -
  have "length (ahead r resume ks) \<le> length (filter (\<lambda>k. in_range k r) ks)"
    unfolding ahead_def by (rule order_trans [OF length_filter_le]) (simp add: directed_def)
  then show ?thesis by (rule order_trans [OF _ length_filter_le])
qed

lemma index_pages_rows:
  assumes "index_contract tx d V" and "rows_fit tx d V INDEX_SCAN_PAGE_BYTES" and "physical_shape r"
    and "view_ok V s" and "length (view_keys V s) < fuel" and "length (rows_of tx d V (ahead r resume (view_keys V s))) < pages"
    and "\<And>c. resume = Some c \<Longrightarrow> in_range c r"
  shows "\<exists>s'. index_pages tx fuel d r pages resume remaining rows s =
      (Inr (rows @ first_rows remaining (rows_of tx d V (ahead r resume (view_keys V s)))), s') \<and> moved tx d V s s'"
  using assms(4-)
proof (induction pages arbitrary: s resume remaining rows)
  case (Suc pages)
  let ?rows = "rows_of tx d V (ahead r resume (view_keys V s))"
  show ?case
  proof (cases "remaining = Some 0")
    case True
    then show ?thesis using moved_refl [OF Suc.prems(1)] by (simp add: first_rows_def eff_simps)
  next
    case False
    define lim where "lim = (case remaining of None \<Rightarrow> INDEX_SCAN_PAGE_ROWS | Some n \<Rightarrow> min n INDEX_SCAN_PAGE_ROWS)"
    have lim: "0 < lim" "\<And>n. remaining = Some n \<Longrightarrow> lim \<le> n"
      using False by (auto simp: lim_def INDEX_SCAN_PAGE_ROWS_def split: option.split)
    have fuel: "length (ahead r resume (view_keys V s)) < fuel" using ahead_length [of r resume "view_keys V s"] Suc.prems(2) by linarith
    obtain page cursor s1 where p: "page_chunks tx d r lim INDEX_SCAN_PAGE_BYTES fuel 1 [] 4 resume s = (Inr (page, cursor), s1)"
        "moved tx d V s s1" "page_ok tx d V r lim (view_keys V s) resume [] page cursor"
      using page_chunks_rows [OF assms(1-3) Suc.prems(1) _ _ _ Suc.prems(4) fuel, of "[]" 4 lim 1] lim(1) by auto
    have len: "length page \<le> lim" using p(3) by (simp add: page_ok_def)
    have run: "index_pages tx fuel d r (Suc pages) resume remaining rows s =
        (case cursor of None \<Rightarrow> ret (rows @ page)
         | Some k \<Rightarrow> index_pages tx fuel d r pages (Some k) (map_option (\<lambda>n. n - length page) remaining) (rows @ page)) s1"
      using False p(1) by (simp add: loadVisibleIndexPage_def bindm_def lim_def Let_def)
    show ?thesis
    proof (cases cursor)
      case None
      then have "?rows = page" using p(3) by (simp add: page_ok_def)
      moreover have "first_rows remaining page = page"
        using len lim(2) by (force simp: first_rows_def split: option.split)
      ultimately show ?thesis using run p(2) None by (simp add: eff_simps)
    next
      case (Some c)
      have c: "page \<noteq> []" "in_range c r" "?rows = page @ rows_of tx d V (ahead r (Some c) (view_keys V s))"
        using p(3) Some by (simp_all add: page_ok_def)
      note same = moved_ahead(1,2) [OF p(2), of r "Some c"] moved_ahead(3) [OF p(2)]
      obtain s2 where s2: "index_pages tx fuel d r pages (Some c) (map_option (\<lambda>n. n - length page) remaining) (rows @ page) s1 =
          (Inr ((rows @ page) @ first_rows (map_option (\<lambda>n. n - length page) remaining) (rows_of tx d V (ahead r (Some c) (view_keys V s1)))), s2)"
          "moved tx d V s1 s2"
        using Suc.IH [OF moved_ok [OF p(2)], of "Some c"] same(1,3) Suc.prems(2,3) c
        by (cases page) fastforce+
      have "first_rows remaining ?rows = page @ first_rows (map_option (\<lambda>n. n - length page) remaining) (rows_of tx d V (ahead r (Some c) (view_keys V s1)))"
        using len lim(2) c(3) same(1) by (force simp: first_rows_def split: option.split)
      then show ?thesis using run s2 Some moved_trans [OF p(2) s2(2)] by simp
    qed
  qed
qed simp

text \<open>The documents of the store, and an index that has an entry for each of them that has a logical key.\<close>

definition store_items :: "('s, 'z) index_tx_scheme \<Rightarrow> 's index_view \<Rightarrow> (bytes \<times> bytes) list \<Rightarrow> bool" where
  "store_items tx V items \<longleftrightarrow> distinct (map fst items) \<and> map_of items = current_value tx V"

definition index_complete :: "NormalizedIndexDef \<Rightarrow> 's index_view \<Rightarrow> (bytes \<times> bytes) list \<Rightarrow> 's \<Rightarrow> bool" where
  "index_complete d V items s \<longleftrightarrow> (\<forall>p v l. (p, v) \<in> set items \<and> extractLogicalIndexKey d v = Inr (Some l) \<longrightarrow>
     encodeIndexEntryKey l p \<in> set (view_keys V s))"

lemma entry_row_item:
  assumes "store_items tx V items"
  shows "entry_row tx d V (encodeIndexEntryKey l p) = Some x \<longleftrightarrow>
    (\<exists>v. x = (p, v) \<and> (p, v) \<in> set items \<and> extractLogicalIndexKey d v = Inr (Some l))"
proof -
  have item: "(p, v) \<in> set items \<longleftrightarrow> current_value tx V p = Some v" for v
    using assms map_of_eq_Some_iff [of items p v] by (simp add: store_items_def)
  show ?thesis unfolding item
    by (cases "current_value tx V p") (auto simp: entry_row_encoded current_key_def split: sum.splits)
qed

lemma rows_of_rev: "rows_of tx d V (rev ks) = rev (rows_of tx d V ks)"
  by (induction ks) (simp_all split: option.split)

lemma set_rows_of: "x \<in> set (rows_of tx d V ks) \<longleftrightarrow> (\<exists>k \<in> set ks. entry_row tx d V k = Some x)"
  by (cases x, induction ks) (auto split: option.split)

lemma rows_of_directed: "rows_of tx d V (directed r ks) = directed r (rows_of tx d V ks)"
  by (simp add: directed_def rows_of_rev)

lemma sorted_rows:
  assumes "sorted_wrt R ks" and "\<And>j k a b. j \<in> set ks \<Longrightarrow> k \<in> set ks \<Longrightarrow> R j k \<Longrightarrow> f j = Some a \<Longrightarrow> f k = Some b \<Longrightarrow> S a b"
  shows "sorted_wrt S (List.map_filter f ks)"
  using assms
proof (induction ks)
  case (Cons k ks)
  have "sorted_wrt S (List.map_filter f ks)" by (rule Cons.IH) (use Cons.prems in auto)
  moreover have "\<forall>b \<in> set (List.map_filter f ks). S a b" if "f k = Some a" for a
  proof
    fix b
    assume "b \<in> set (List.map_filter f ks)"
    then obtain j where "j \<in> set ks" "f j = Some b" by (auto simp: List.map_filter_def)
    then show "S a b" using Cons.prems(1) Cons.prems(2) [of k j a b] that by simp
  qed
  ultimately show ?case by (auto simp: map_filter_simps split: option.split)
qed (simp add: map_filter_simps)

lemma rows_sorted:
  assumes "store_items tx V items" and "sorted_wrt (<) ks" and "encoded_keys ks"
  shows "sorted_wrt (\<lambda>a b. item_position (Some d) a < item_position (Some d) b) (rows_of tx d V ks)"
  unfolding rows_of_def
proof (rule sorted_rows [OF assms(2)])
  fix j k a b
  assume h: "j \<in> set ks" "k \<in> set ks" "j < k" "entry_row tx d V j = Some a" "entry_row tx d V k = Some b"
  obtain l p l' p' where k: "j = encodeIndexEntryKey l p" "k = encodeIndexEntryKey l' p'"
    using assms(3) h(1,2) unfolding encoded_keys_def by blast
  have "item_position (Some d) a = [l, p]" "item_position (Some d) b = [l', p']"
    using h(4,5) entry_row_item [OF assms(1)] k by (auto simp: item_position_def logical_key_def)
  then show "item_position (Some d) a < item_position (Some d) b"
    using h(3) index_entries_ordered [of l p _ l' p'] k by auto
qed

lemma rows_are_index_scan:
  assumes "store_items tx V items" and "index_complete d V items s" and "sorted_wrt (<) (view_keys V s)" and "encoded_keys (view_keys V s)"
    and "indexRangeToPhysicalRange (r\<lparr>limit := None\<rparr>) = Inr physical"
  shows "rows_of tx d V (ahead physical None (view_keys V s)) = index_scan d r items"
proof -
  let ?ks = "filter (\<lambda>k. in_range k physical) (view_keys V s)"
  have rev: "reverse physical = reverse r" and range: "in_range (encodeIndexEntryKey l p) physical \<longleftrightarrow> in_range l r" for l p
    using physical_range [OF assms(5)] by (auto simp: in_range_def)
  note sorted = rows_sorted [OF assms(1) sorted_wrt_filter [OF assms(3)] encoded_keys_subset [OF assms(4) filter_is_subset], of d "\<lambda>k. in_range k physical"]
  have "sorted_wrt (<) (map (item_position (Some d)) (rows_of tx d V ?ks))" using sorted by (simp add: sorted_wrt_map)
  then have d1: "distinct (rows_of tx d V ?ks)" by (simp add: strict_sorted_iff distinct_map)
  have d2: "distinct (filter (indexed d r) items)" using assms(1) by (auto simp: store_items_def distinct_map)
  have member: "x \<in> set (rows_of tx d V ?ks) \<longleftrightarrow> x \<in> set (filter (indexed d r) items)" for x
  proof -
    have "x \<in> set (rows_of tx d V ?ks) \<longleftrightarrow> (\<exists>k \<in> set (view_keys V s). in_range k physical \<and> entry_row tx d V k = Some x)"
      by (simp add: set_rows_of) blast
    also have "\<dots> \<longleftrightarrow> (\<exists>l p. encodeIndexEntryKey l p \<in> set (view_keys V s) \<and> in_range l r \<and> entry_row tx d V (encodeIndexEntryKey l p) = Some x)"
      using assms(4) range unfolding encoded_keys_def by metis
    also have "\<dots> \<longleftrightarrow> x \<in> set items \<and> (\<exists>l. extractLogicalIndexKey d (snd x) = Inr (Some l) \<and> in_range l r)"
      using assms(2) unfolding entry_row_item [OF assms(1)] index_complete_def by (cases x) fastforce
    also have "\<dots> \<longleftrightarrow> x \<in> set (filter (indexed d r) items)"
      by (auto simp: indexed_def split: sum.splits option.splits)
    finally show ?thesis .
  qed
  have "sort_key (item_position (Some d)) (filter (indexed d r) items) = rows_of tx d V ?ks"
  proof (rule sort_key_inj_key_eq)
    show "mset (filter (indexed d r) items) = mset (rows_of tx d V ?ks)"
      using d1 d2 member set_eq_iff_mset_eq_distinct by blast
    show "inj_on (item_position (Some d)) (set (filter (indexed d r) items))"
    proof (rule inj_onI)
      fix x y
      assume xy: "x \<in> set (filter (indexed d r) items)" "y \<in> set (filter (indexed d r) items)" "item_position (Some d) x = item_position (Some d) y"
      then have "fst x = fst y" by (simp add: item_position_def)
      then show "x = y" using assms(1) xy(1,2) by (auto simp: store_items_def distinct_map inj_on_def)
    qed
    show "sorted (map (item_position (Some d)) (rows_of tx d V ?ks))"
      unfolding sorted_map by (rule sorted_wrt_mono_rel [OF _ sorted]) auto
  qed
  then show ?thesis
    by (simp add: ahead_def beyond_def index_scan_def rows_of_directed) (simp add: directed_def rev)
qed

lemma moved_complete:
  assumes "moved tx d V s s'" and "store_items tx V items" and "index_complete d V items s"
  shows "index_complete d V items s'"
proof -
  obtain P where P: "view_keys V s' = filter P (view_keys V s)" "\<And>k. entry_row tx d V k \<noteq> None \<Longrightarrow> P k"
    using assms(1) by (auto simp: moved_def)
  have "P (encodeIndexEntryKey l p)" if "(p, v) \<in> set items" "extractLogicalIndexKey d v = Inr (Some l)" for p v l
    using P(2) entry_row_item [OF assms(2), of d l p] that by (metis option.distinct(1))
  then show ?thesis using assms(3) by (auto simp: index_complete_def P(1))
qed

lemma physical_exists:
  assumes "assertValidScanRange r = Inr ()"
  obtains physical where "indexRangeToPhysicalRange (r\<lparr>limit := None\<rparr>) = Inr physical" "physical_shape physical"
proof -
  have "assertValidScanRange (r\<lparr>limit := None\<rparr>) = Inr ()"
    using assms by (auto simp: assertValidScanRange_def split: if_splits)
  then have "\<exists>physical. indexRangeToPhysicalRange (r\<lparr>limit := None\<rparr>) = Inr physical"
    by (simp add: indexRangeToPhysicalRange_def Let_def)
  then obtain physical where p: "indexRangeToPhysicalRange (r\<lparr>limit := None\<rparr>) = Inr physical" by blast
  then have "physical_shape physical"
    by (auto simp: physical_shape_def indexRangeToPhysicalRange_def bindr_eq_Inr empty_range_def Let_def split: option.splits)
  then show thesis using that p by blast
qed

text \<open>The states in which a scan of the index gives all documents, with the fuel it needs.\<close>

definition scan_ready :: "NormalizedIndexDef \<Rightarrow> 's index_view \<Rightarrow> (bytes \<times> bytes) list \<Rightarrow> nat \<Rightarrow> 's \<Rightarrow> bool" where
  "scan_ready d V items fuel s \<longleftrightarrow> view_ok V s \<and> index_complete d V items s \<and> length (view_keys V s) < fuel"

lemma moved_ready: "moved tx d V s s' \<Longrightarrow> store_items tx V items \<Longrightarrow> scan_ready d V items fuel s \<Longrightarrow> scan_ready d V items fuel s'"
  using moved_complete moved_ok moved_ahead(3) by (fastforce simp: scan_ready_def)

lemma ready_rows:
  assumes "index_contract tx d V" and "store_items tx V items" and "scan_ready d V items fuel s"
    and "indexRangeToPhysicalRange (r\<lparr>limit := None\<rparr>) = Inr physical"
  shows "rows_of tx d V (ahead physical None (view_keys V s)) = index_scan d r items"
    and "length (rows_of tx d V (ahead physical None (view_keys V s))) < fuel"
proof -
  have "view_ok V s" using assms(3) by (simp add: scan_ready_def)
  then have keys: "sorted_wrt (<) (view_keys V s)" "encoded_keys (view_keys V s)"
    using assms(1) by (auto simp: index_contract_def reads_index_def encoded_keys_def)
  show "rows_of tx d V (ahead physical None (view_keys V s)) = index_scan d r items"
    using rows_are_index_scan [OF assms(2) _ keys assms(4)] assms(3) by (simp add: scan_ready_def)
  have "length (rows_of tx d V ks) \<le> length ks" for ks by (simp add: rows_of_def List.map_filter_def)
  then show "length (rows_of tx d V (ahead physical None (view_keys V s))) < fuel"
    using ahead_length [of physical None "view_keys V s"] assms(3) order.trans unfolding scan_ready_def by (meson order.strict_trans1)
qed

lemma index_scan_rows:
  assumes "index_contract tx d V" and "rows_fit tx d V INDEX_SCAN_PAGE_BYTES" and "store_items tx V items"
    and "scan_ready d V items fuel s" and "assertValidScanRange r = Inr ()"
  shows "\<exists>s'. scanByIndex tx fuel d r s =
      (Inr (first_rows (map_option (\<lambda>n. nat (f64_int n)) (limit r)) (index_scan d r items)), s') \<and> scan_ready d V items fuel s'"
proof (cases "map_option (\<lambda>n. nat (f64_int n)) (limit r) = Some 0")
  case True
  then show ?thesis using assms(4,5) by (auto simp: scanByIndex_def eff_simps first_rows_def Let_def)
next
  case False
  obtain physical where p: "indexRangeToPhysicalRange (r\<lparr>limit := None\<rparr>) = Inr physical" "physical_shape physical"
    using physical_exists [OF assms(5)] by blast
  note ready = ready_rows [OF assms(1,3,4) p(1)]
  have s: "view_ok V s" "length (view_keys V s) < fuel" using assms(4) by (simp_all add: scan_ready_def)
  obtain s' where s': "index_pages tx fuel d physical fuel None (map_option (\<lambda>n. nat (f64_int n)) (limit r)) [] s =
      (Inr (first_rows (map_option (\<lambda>n. nat (f64_int n)) (limit r)) (index_scan d r items)), s')" "moved tx d V s s'"
    using index_pages_rows [OF assms(1,2) p(2) s ready(2), of "map_option (\<lambda>n. nat (f64_int n)) (limit r)" "[]"] ready(1) by auto
  show ?thesis using False s'(1) moved_ready [OF s'(2) assms(3,4)] assms(5) p(1) by (auto simp: scanByIndex_def eff_simps Let_def)
qed

lemma index_get_first:
  assumes "index_contract tx d V" and "rows_fit tx d V INDEX_SCAN_PAGE_BYTES" and "store_items tx V items"
    and "scan_ready d V items fuel s"
  shows "\<exists>s'. getByIndex tx fuel d key s =
      (Inr (case index_scan d (empty_range\<lparr>gte := Some key, lte := Some key\<rparr>) items of [] \<Rightarrow> None | item # _ \<Rightarrow> Some (snd item)), s') \<and>
      scan_ready d V items fuel s'"
proof -
  let ?r = "empty_range\<lparr>gte := Some key, lte := Some key\<rparr>"
  have valid: "assertValidScanRange ?r = Inr ()" "?r\<lparr>limit := None\<rparr> = ?r" by (simp_all add: assertValidScanRange_def empty_range_def)
  obtain physical where p: "indexRangeToPhysicalRange (?r\<lparr>limit := None\<rparr>) = Inr physical" "physical_shape physical"
    using physical_exists [OF valid(1)] by blast
  note ready = ready_rows [OF assms(1,3,4) p(1)]
  have s: "view_ok V s" "length (view_keys V s) < fuel" using assms(4) by (simp_all add: scan_ready_def)
  have fuel: "length (ahead physical None (view_keys V s)) < fuel" using ahead_length [of physical None "view_keys V s"] s(2) by linarith
  obtain page cursor s1 where r: "page_chunks tx d physical 1 INDEX_SCAN_PAGE_BYTES fuel 1 [] 4 None s = (Inr (page, cursor), s1)"
      "moved tx d V s s1" "page_ok tx d V physical 1 (view_keys V s) None [] page cursor"
    using page_chunks_rows [OF assms(1,2) p(2) s(1) _ _ _ _ fuel, of "[]" 4 1 1] by auto
  obtain others where "index_scan d ?r items = page @ others" "page = [] \<Longrightarrow> others = []"
    using r(3) ready(1) by (cases cursor) (auto simp: page_ok_def)
  then have "(case page of [] \<Rightarrow> None | item # _ \<Rightarrow> Some (snd item)) =
      (case index_scan d ?r items of [] \<Rightarrow> None | item # _ \<Rightarrow> Some (snd item))"
    by (cases page) auto
  moreover have "getByIndex tx fuel d key s = (Inr (case page of [] \<Rightarrow> None | item # _ \<Rightarrow> Some (snd item)), s1)"
    using r(1) p(1) unfolding valid(2) by (simp add: getByIndex_def loadVisibleIndexPage_def eff_simps)
  ultimately show ?thesis using moved_ready [OF r(2) assms(3,4)] by simp
qed

text \<open>
  So the worker's scans are the index reads that the executor of SQL relies on, for a table with one index.
\<close>

lemma worker_index_reads:
  assumes "index_contract tx d V" and "rows_fit tx d V INDEX_SCAN_PAGE_BYTES" and "store_items tx V items"
    and "\<And>r. op_scanByIndex db t (def_store d) (def_name d) r = scanByIndex tx fuel d r"
  shows "index_reads db t (scan_ready d V items fuel) (def_store d) [d] items"
proof -
  have "\<exists>s'. scanByIndex tx fuel d r s = (Inr (index_scan d r items), s') \<and> scan_ready d V items fuel s'"
    if "scan_range r" "scan_ready d V items fuel s" for r s
  proof -
    have "assertValidScanRange r = Inr ()" "limit r = None" using that(1) by (auto simp: scan_range_def assertValidScanRange_def)
    then show ?thesis using index_scan_rows [OF assms(1-3) that(2), of r] by (simp add: first_rows_def)
  qed
  then show ?thesis using assms(4) by (auto simp: index_reads_def)
qed


definition sample_index :: NormalizedIndexDef where
  "sample_index = \<lparr>def_store = js ''s'', def_name = js ''n'', def_keyPath = [js ''a''], def_compound = False,
     def_unique = False, def_internalStore = js ''i''\<rparr>"

definition sample_document :: "bool \<Rightarrow> bytes" where
  "sample_document b = text_encode (ok_text (VObject [(js ''a'', VBool b)]))"

lemma sample_keys: "extractLogicalIndexKey sample_index (sample_document b) = Inr (Some [if b then 0x21 else 0x20])"
proof -
  let ?v = "VObject [(js ''a'', VBool b)]"
  have "json_ok ?v" by (simp add: obj_of_def obj_put_def)
  then have "jsonDecode (sample_document b) = Inr ?v" unfolding sample_document_def by (rule jsonDecode_encoded)
  then have doc: "decodeIndexedDocument (sample_document b) = Inr ?v"
    by (auto simp: jsonDecode_def decodeIndexedDocument_def split: option.splits)
  have r: "resolveKeyPath ?v (js ''a'') = Some (VBool b)"
    by (simp add: resolveKeyPath_def js_def own_property_def is_object_def)
  show ?thesis
    by (simp add: extractLogicalIndexKey_def doc extractLogicalIndexKeyFromDocument_def sample_index_def r encodeDocumentIndexValue_def
        encodeIndexScalar_def encodeCompoundKeyPart_def)
qed

lemma sample_text: "sample_document b = map of_nat ([0x7b, 0x22, 0x61, 0x22, 0x3a] @ (if b then [0x74, 0x72, 0x75, 0x65] else [0x66, 0x61, 0x6c, 0x73, 0x65]) @ [0x7d])"
  by (simp add: sample_document_def ok_text_simps obj_of_def obj_put_def member_def json_quote_def quote_point_def js_def
      utf16_point_def text_encode_def utf8_def utf8_point_def to_scalar_def is_surrogate_def is_high_def)

text \<open>A transaction that holds the keys of the index; the entry of the old value of the second document is stale.\<close>

definition sample_docs :: "(bytes \<times> bytes) list" where
  "sample_docs = [([1], sample_document True), ([2], sample_document False)]"

definition sample_entries :: "bytes list" where
  "sample_entries = [encodeIndexEntryKey [0x20] [2], encodeIndexEntryKey [0x21] [1], encodeIndexEntryKey [0x21] [2]]"

definition sample_tx :: "bytes list index_tx" where
  "sample_tx = \<lparr>engine_get = (\<lambda>_ k. ret (map_of sample_docs k)), engine_get_many = (\<lambda>_ ks. ret (map (map_of sample_docs) ks)),
     engine_has = (\<lambda>_ k. ret (map_of sample_docs k \<noteq> None)),
     engine_delete = (\<lambda>_ k s. (Inr (k \<in> set s), filter (\<lambda>j. j \<noteq> k) s)),
     engine_scan = (\<lambda>_ r s. (Inr (map (\<lambda>k. (k, [])) (range_keys r s)), s)), engine_cursors = False,
     open_scan_cursor = (\<lambda>_ _. ret 0), scan_cursor_next = (\<lambda>_ _ _. ret ([], 0)), close_scan_cursor = (\<lambda>_. ret ()),
     get_many_value_states = Some (\<lambda>_ _. raise (Throw InternalError ''unsupported'')), get_many_value_sizes = None,
     tx_readwrite = True, tx_compression = None, tx_streams = stored_streams\<rparr>"

definition sample_view :: "bytes list index_view" where
  "sample_view = \<lparr>view_ok = (\<lambda>s. sorted_wrt (<) s \<and> encoded_keys s), view_keys = (\<lambda>s. s), view_docs = map_of sample_docs,
     doc_revision = (\<lambda>_. None), entry_revision = (\<lambda>_. None)\<rparr>"

lemma sample_contract: "index_contract sample_tx sample_index sample_view"
  unfolding index_contract_def
proof (intro conjI)
  have "extractLogicalIndexKey sample_index bs \<noteq> Inl e" if "map_of sample_docs p = Some bs" for p bs e
    using that sample_keys by (auto simp: sample_docs_def split: if_splits)
  then show "documents_readable sample_tx sample_index sample_view"
    by (auto simp: documents_readable_def sample_view_def sample_tx_def stored_value_def) (metis sum.exhaust)
  show "reads_index sample_tx sample_index sample_view"
    by (auto simp: reads_index_def sample_view_def sample_tx_def readIndexKeyScan_def eff_simps kept_def comp_def encoded_keys_def)
  show "reads_documents sample_tx sample_index sample_view"
    by (auto simp: reads_documents_def sample_view_def sample_tx_def eff_simps kept_def)
  show "reads_states sample_tx sample_index sample_view"
    by (auto simp: reads_states_def sample_view_def sample_tx_def eff_simps kept_def)
  show "deletes_entries sample_tx sample_index sample_view"
    by (auto simp: deletes_entries_def sample_view_def sample_tx_def sorted_wrt_filter encoded_keys_def)
qed

lemma sample_items: "store_items sample_tx sample_view sample_docs"
  by (auto simp: store_items_def sample_tx_def sample_view_def current_value_def stored_value_def fun_eq_iff sample_docs_def)

lemma sample_fit: "rows_fit sample_tx sample_index sample_view INDEX_SCAN_PAGE_BYTES"
  unfolding rows_fit_def
proof (intro allI impI)
  fix k p v
  assume row: "entry_row sample_tx sample_index sample_view k = Some (p, v)"
  then have "(p, v) \<in> set sample_docs"
    by (auto simp: entry_row_def current_value_def stored_value_def sample_tx_def sample_view_def
        split: sum.splits option.splits if_splits dest: map_of_SomeD)
  then have "length p = 1" "length v \<le> 11" by (auto simp: sample_docs_def sample_text)
  then show "12 + length p + length v \<le> INDEX_SCAN_PAGE_BYTES" by (simp add: INDEX_SCAN_PAGE_BYTES_def)
qed

lemma sample_ready: "scan_ready sample_index sample_view sample_docs 4 sample_entries"
proof -
  have "sorted_wrt (<) sample_entries"
    using index_entries_ordered [of "[0x20]" "[2]" _ "[0x21]" "[1]"] index_entries_ordered [of "[0x20]" "[2]" _ "[0x21]" "[2]"]
      index_entries_ordered [of "[0x21]" "[1]" _ "[0x21]" "[2]"] by (simp add: sample_entries_def)
  then show ?thesis
    using sample_keys by (auto simp: scan_ready_def sample_view_def index_complete_def sample_docs_def)
      (auto simp: sample_entries_def)
qed


end
