(* ===== verification/SqlPrint.thy ===== *)
theory SqlPrint
  imports SqlParser
begin

text \<open>
  A printer for statements, and the proof that \<open>parseSql\<close> reads back what it prints. The printer quotes
  every name, doubles quotes inside names and strings, parenthesizes the operands of AND and OR, and
  separates tokens by spaces.
\<close>

section \<open>The printer\<close>

type_synonym spec = "TokenKind \<times> jsstring"

abbreviation kw :: "string \<Rightarrow> spec" where
  "kw s \<equiv> (WordToken, js s)"

abbreviation symb :: "string \<Rightarrow> spec" where
  "symb s \<equiv> (SymbolToken, js s)"

abbreviation name_spec :: "jsstring \<Rightarrow> spec" where
  "name_spec n \<equiv> (IdentifierToken, n)"

definition integer_spec :: "int \<Rightarrow> spec list" where
  "integer_spec i = (if i < 0 then [symb ''-''] else []) @ [(NumberToken, decimal (nat \<bar>i\<bar>))]"

fun value_spec :: "SqlValueExpression \<Rightarrow> spec list" where
  "value_spec (Parameter i) = [(ParameterToken, js ''?'')]"
| "value_spec (Literal SqlNull) = [kw ''NULL'']"
| "value_spec (Literal (SqlBool b)) = [kw (if b then ''TRUE'' else ''FALSE'')]"
| "value_spec (Literal (SqlText s)) = [(StringToken, s)]"
| "value_spec (Literal (SqlNumber v)) = integer_spec (f64_int v)"
| "value_spec (Literal (SqlBigint i)) = integer_spec i"
| "value_spec (Literal (SqlBlob b)) = []"

fun operator_spec :: "SqlComparisonOperator \<Rightarrow> spec" where
  "operator_spec OpEq = symb ''=''"
| "operator_spec OpNe = symb ''!=''"
| "operator_spec OpLt = symb ''<''"
| "operator_spec OpLe = symb ''<=''"
| "operator_spec OpGt = symb ''>''"
| "operator_spec OpGe = symb ''>=''"

fun expression_spec :: "SqlExpression \<Rightarrow> spec list" where
  "expression_spec (Comparison c operator v) = name_spec c # operator_spec operator # value_spec v"
| "expression_spec (IsNull c negated) = name_spec c # kw ''IS'' # (if negated then [kw ''NOT''] else []) @ [kw ''NULL'']"
| "expression_spec (AndExpr l r) = symb ''('' # expression_spec l @ symb '')'' # kw ''AND'' # symb ''('' # expression_spec r @ [symb '')'']"
| "expression_spec (OrExpr l r) = symb ''('' # expression_spec l @ symb '')'' # kw ''OR'' # symb ''('' # expression_spec r @ [symb '')'']"

fun sep_list :: "('a \<Rightarrow> spec list) \<Rightarrow> 'a list \<Rightarrow> spec list" where
  "sep_list f [] = []"
| "sep_list f [x] = f x"
| "sep_list f (x # y # xs) = f x @ symb '','' # sep_list f (y # xs)"

fun type_spec :: "SqlColumnType \<Rightarrow> spec" where
  "type_spec IntegerType = kw ''INTEGER''"
| "type_spec RealType = kw ''REAL''"
| "type_spec TextType = kw ''TEXT''"
| "type_spec BooleanType = kw ''BOOLEAN''"
| "type_spec BlobType = kw ''BLOB''"

definition column_spec :: "SqlColumnDefinition \<Rightarrow> spec list" where
  "column_spec c = name_spec (column_name c) # type_spec (column_type c) #
     (if column_primaryKey c then [kw ''PRIMARY'', kw ''KEY''] else if column_nullable c then [] else [kw ''NOT'', kw ''NULL''])"

definition where_spec :: "SqlExpression option \<Rightarrow> spec list" where
  "where_spec w = (case w of None \<Rightarrow> [] | Some e \<Rightarrow> kw ''WHERE'' # expression_spec e)"

definition row_spec :: "SqlValueExpression list \<Rightarrow> spec list" where
  "row_spec row = symb ''('' # sep_list value_spec row @ [symb '')'']"

definition order_spec :: "jsstring \<times> SqlDirection \<Rightarrow> spec list" where
  "order_spec o1 = name_spec (fst o1) # (if snd o1 = Desc then [kw ''DESC''] else [])"

definition assignment_spec :: "jsstring \<times> SqlValueExpression \<Rightarrow> spec list" where
  "assignment_spec a = name_spec (fst a) # symb ''='' # value_spec (snd a)"

definition names_spec :: "jsstring list \<Rightarrow> spec list" where
  "names_spec ns = sep_list (\<lambda>n. [name_spec n]) ns"

definition limit_spec :: "SqlValueExpression option \<Rightarrow> SqlValueExpression option \<Rightarrow> spec list" where
  "limit_spec l off = (case l of None \<Rightarrow> [] | Some v \<Rightarrow> kw ''LIMIT'' # value_spec v @
     (case off of None \<Rightarrow> [] | Some w \<Rightarrow> kw ''OFFSET'' # value_spec w))"

fun statement_spec :: "SqlStatement \<Rightarrow> spec list" where
  "statement_spec (CreateTable t cs b) = [kw ''CREATE'', kw ''TABLE''] @ (if b then [kw ''IF'', kw ''NOT'', kw ''EXISTS''] else []) @
     name_spec t # symb ''('' # sep_list column_spec cs @ [symb '')'']"
| "statement_spec (DropTable t b) = [kw ''DROP'', kw ''TABLE''] @ (if b then [kw ''IF'', kw ''EXISTS''] else []) @ [name_spec t]"
| "statement_spec (Insert t cs rows) = [kw ''INSERT'', kw ''INTO'', name_spec t] @
     (case cs of None \<Rightarrow> [] | Some ns \<Rightarrow> symb ''('' # names_spec ns @ [symb '')'']) @ kw ''VALUES'' # sep_list row_spec rows"
| "statement_spec (Select t cs w orders l off) = kw ''SELECT'' # (case cs of None \<Rightarrow> [symb ''*''] | Some ns \<Rightarrow> names_spec ns) @
     kw ''FROM'' # name_spec t # where_spec w @ (if orders = [] then [] else kw ''ORDER'' # kw ''BY'' # sep_list order_spec orders) @ limit_spec l off"
| "statement_spec (Update t as w) = [kw ''UPDATE'', name_spec t, kw ''SET''] @ sep_list assignment_spec as @ where_spec w"
| "statement_spec (Delete t w) = [kw ''DELETE'', kw ''FROM'', name_spec t] @ where_spec w"

text \<open>The text of a token and of a list of tokens.\<close>

definition quote_text :: "code_unit \<Rightarrow> jsstring \<Rightarrow> jsstring" where
  "quote_text q s = q # concat (map (\<lambda>c. if c = q then [q, q] else [c]) s) @ [q]"

definition render_token :: "spec \<Rightarrow> jsstring" where
  "render_token t = (case fst t of IdentifierToken \<Rightarrow> quote_text quote_double (snd t) | StringToken \<Rightarrow> quote_text quote_single (snd t) | _ \<Rightarrow> snd t)"

definition render :: "spec list \<Rightarrow> jsstring" where
  "render ts = concat (map (\<lambda>t. render_token t @ [0x20]) ts)"

definition print_sql :: "SqlStatement \<Rightarrow> jsstring" where
  "print_sql s = render (statement_spec s)"

text \<open>Literals the printer can write: integers, not the negative zero, and no blobs.\<close>

fun plain_value :: "SqlValueExpression \<Rightarrow> bool" where
  "plain_value (Literal (SqlNumber v)) = (f64_is_safe_integer v \<and> \<not> f64_is_negative_zero v)"
| "plain_value (Literal (SqlBigint i)) = (max_safe_integer < \<bar>i\<bar>)"
| "plain_value (Literal (SqlBlob b)) = False"
| "plain_value _ = True"

fun depth :: "SqlExpression \<Rightarrow> nat" where
  "depth (AndExpr l r) = Suc (max (depth l) (depth r))"
| "depth (OrExpr l r) = Suc (max (depth l) (depth r))"
| "depth _ = 0"

fun plain_expression :: "SqlExpression \<Rightarrow> bool" where
  "plain_expression (Comparison c operator v) = plain_value v"
| "plain_expression (IsNull c b) = True"
| "plain_expression (AndExpr l r) = (plain_expression l \<and> plain_expression r)"
| "plain_expression (OrExpr l r) = (plain_expression l \<and> plain_expression r)"

definition plain_where :: "SqlExpression option \<Rightarrow> bool" where
  "plain_where w \<longleftrightarrow> (case w of None \<Rightarrow> True | Some e \<Rightarrow> plain_expression e \<and> depth e \<le> MAX_NESTING)"

fun printable :: "SqlStatement \<Rightarrow> bool" where
  "printable (Insert t cs rows) = list_all (list_all plain_value) rows"
| "printable (Select t cs w orders l off) = (plain_where w \<and> list_all plain_value (case l of None \<Rightarrow> [] | Some v \<Rightarrow> [v]) \<and>
     list_all plain_value (case off of None \<Rightarrow> [] | Some v \<Rightarrow> [v]))"
| "printable (Update t as w) = (list_all (plain_value \<circ> snd) as \<and> plain_where w)"
| "printable (Delete t w) = plain_where w"
| "printable _ = True"

section \<open>Scanning printed text\<close>

declare decimal.simps [simp del]

fun spec_ok :: "spec \<Rightarrow> bool" where
  "spec_ok (WordToken, s) = (case s of [] \<Rightarrow> False | c # cs \<Rightarrow> is_word_start c \<and> list_all is_word cs)"
| "spec_ok (IdentifierToken, s) = hasValidUnicode s"
| "spec_ok (StringToken, s) = hasValidUnicode s"
| "spec_ok (NumberToken, s) = (s \<noteq> [] \<and> list_all is_digit s \<and> length s \<le> MAX_NUMBER_LENGTH)"
| "spec_ok (SymbolToken, s) = (s \<in> set (map js [''('', '')'', '','', ''*'', ''='', ''<'', ''>'', ''-'', ''<='', ''>='', ''!='']))"
| "spec_ok (ParameterToken, s) = (s = js ''?'')"
| "spec_ok (EndToken, s) = False"

lemma quoted_escaped:
  "quoted q (concat (map (\<lambda>c. if c = q then [q, q] else [c]) s) @ q # d # after) =
     Some (s, Suc (length (concat (map (\<lambda>c. if c = q then [q, q] else [c]) s))))" if "d \<noteq> q"
proof (induction s)
  case Nil
  then show ?case using that by simp
next
  case (Cons c s)
  obtain e es where e: "concat (map (\<lambda>c. if c = q then [q, q] else [c]) s) @ q # d # after = e # es"
    by (cases "concat (map (\<lambda>c. if c = q then [q, q] else [c]) s)") auto
  show ?case using Cons by (cases "c = q") (auto simp: e [symmetric], simp add: e)
qed

text \<open>The scanner reads a printed token that is followed by a space.\<close>

definition scans :: "spec \<Rightarrow> bool" where
  "scans t \<longleftrightarrow> (\<forall>i after. \<exists>c cs. render_token t = c # cs \<and> \<not> is_space c \<and>
     \<not> starts_with (c # cs @ 0x20 # after) (js ''--'') \<and> \<not> starts_with (c # cs @ 0x20 # after) (js ''/*'') \<and>
     next_token i c (cs @ 0x20 # after) = Inr (token (fst t) (snd t) i, Suc (length cs)))"

lemma not_comment: "c \<noteq> 0x2d \<Longrightarrow> c \<noteq> 0x2f \<Longrightarrow> \<not> starts_with (c # cs) (js ''--'') \<and> \<not> starts_with (c # cs) (js ''/*'')"
  by (simp add: starts_with_def js_def)

lemma word_start_facts:
  assumes "is_word_start c"
  shows "\<not> is_space c" "c \<noteq> 0x2d" "c \<noteq> 0x2f" "c \<noteq> quote_single" "c \<noteq> quote_double" "\<not> is_digit c" "c \<noteq> 0x2e"
proof -
  have range: "0x41 \<le> unat c \<and> unat c \<le> 0x7a"
    using assms by (auto simp: is_word_start_def word_le_nat_alt)
  then show "\<not> is_space c" by (simp add: is_space_def Let_def)
  show "c \<noteq> 0x2d" "c \<noteq> 0x2f" "c \<noteq> quote_single" "c \<noteq> quote_double" "c \<noteq> 0x2e"
    using range by (auto simp: quote_single_def quote_double_def)
  show "\<not> is_digit c" using range by (simp add: is_digit_def word_le_nat_alt)
qed

lemma digit_facts:
  assumes "is_digit c"
  shows "\<not> is_space c" "c \<noteq> 0x2d" "c \<noteq> 0x2f" "c \<noteq> quote_single" "c \<noteq> quote_double" "\<not> is_word_start c" "c \<noteq> 0x2e" "c \<noteq> 0x2b"
proof -
  have range: "0x30 \<le> unat c \<and> unat c \<le> 0x39"
    using assms by (auto simp: is_digit_def word_le_nat_alt)
  then show "\<not> is_space c" by (simp add: is_space_def Let_def)
  show "c \<noteq> 0x2d" "c \<noteq> 0x2f" "c \<noteq> quote_single" "c \<noteq> quote_double" "c \<noteq> 0x2e" "c \<noteq> 0x2b"
    using range by (auto simp: quote_single_def quote_double_def)
  show "\<not> is_word_start c" using range by (auto simp: is_word_start_def word_le_nat_alt)
qed

lemma space_facts: "\<not> is_word 0x20" "\<not> is_digit 0x20"
  by (simp_all add: is_word_def is_word_start_def is_digit_def)

lemma takeWhile_all: "list_all P xs \<Longrightarrow> \<not> P y \<Longrightarrow> takeWhile P (xs @ y # ys) = xs"
  by (induction xs) auto

lemma scans_word:
  assumes "is_word_start c" and "list_all is_word cs"
  shows "scans (WordToken, c # cs)"
  unfolding scans_def
  using word_start_facts [OF assms(1)] assms not_comment [of c]
  by (auto simp: render_token_def next_token_def Let_def takeWhile_all space_facts)

lemma number_end_digits:
  assumes "is_digit c" and "list_all is_digit cs"
  shows "number_end (c # cs @ 0x20 # after) = Some (Suc (length cs))"
proof -
  have "digits_at (c # cs @ 0x20 # after) 1 = length cs"
    using takeWhile_all [OF assms(2) space_facts(2)] by (simp add: digits_at_def)
  moreover have "read_at (c # cs @ 0x20 # after) (Suc (length cs)) = Some 0x20" by (simp add: read_at_def)
  ultimately show ?thesis by (simp add: number_end_def)
qed

lemma scans_number:
  assumes "is_digit c" and "list_all is_digit cs" and "length (c # cs) \<le> MAX_NUMBER_LENGTH"
  shows "scans (NumberToken, c # cs)"
  unfolding scans_def
  using digit_facts [OF assms(1)] assms not_comment [of c] number_end_digits [OF assms(1,2)]
  by (auto simp: render_token_def next_token_def Let_def)

lemma scansI:
  assumes "render_token t = c # cs" and "\<not> is_space c"
    and "\<And>after. \<not> starts_with (c # cs @ 0x20 # after) (js ''--'') \<and> \<not> starts_with (c # cs @ 0x20 # after) (js ''/*'')"
    and "\<And>i after. next_token i c (cs @ 0x20 # after) = Inr (token (fst t) (snd t) i, Suc (length cs))"
  shows "scans t"
  unfolding scans_def using assms by blast

lemma scans_quoted:
  assumes "hasValidUnicode s" and "q = quote_single \<or> q = quote_double" and "k = (if q = quote_single then StringToken else IdentifierToken)"
  shows "scans (k, s)"
proof (rule scansI)
  let ?e = "concat (map (\<lambda>c. if c = q then [q, q] else [c]) s)"
  have q: "q = 0x27 \<or> q = 0x22" using assms(2) by (auto simp: quote_single_def quote_double_def)
  show "render_token (k, s) = q # (?e @ [q])"
    using assms(2,3) by (auto simp: render_token_def quote_text_def quote_single_def quote_double_def)
  show "\<not> is_space q" using q by (auto simp: is_space_def)
  show "\<not> starts_with (q # (?e @ [q]) @ 0x20 # after) (js ''--'') \<and> \<not> starts_with (q # (?e @ [q]) @ 0x20 # after) (js ''/*'')" for after
    using q by (intro not_comment) auto
  have "(0x20 :: code_unit) \<noteq> q" using q by auto
  from quoted_escaped [OF this]
  have "quoted q ((?e @ [q]) @ 0x20 # after) = Some (s, Suc (length ?e))" for after by simp
  then show "next_token i q ((?e @ [q]) @ 0x20 # after) = Inr (token (fst (k, s)) (snd (k, s)) i, Suc (length (?e @ [q])))" for i after
    unfolding next_token_def Let_def if_P [OF assms(2)] using assms(1) by (simp add: assms(3))
qed

lemmas scan_simps = render_token_def next_token_def Let_def js_def starts_with_def is_space_def is_word_start_def
  is_digit_def quote_single_def quote_double_def

lemma scans_one: "list_all (\<lambda>c. scans (SymbolToken, [c])) (js ''(),*=<>-'')"
proof -
  have "scans (SymbolToken, [0x28])" by (rule scansI [of _ "0x28" "[]"]) (simp_all add: scan_simps)
  moreover have "scans (SymbolToken, [0x29])" by (rule scansI [of _ "0x29" "[]"]) (simp_all add: scan_simps)
  moreover have "scans (SymbolToken, [0x2c])" by (rule scansI [of _ "0x2c" "[]"]) (simp_all add: scan_simps)
  moreover have "scans (SymbolToken, [0x2a])" by (rule scansI [of _ "0x2a" "[]"]) (simp_all add: scan_simps)
  moreover have "scans (SymbolToken, [0x3d])" by (rule scansI [of _ "0x3d" "[]"]) (simp_all add: scan_simps)
  moreover have "scans (SymbolToken, [0x3c])" by (rule scansI [of _ "0x3c" "[]"]) (simp_all add: scan_simps)
  moreover have "scans (SymbolToken, [0x3e])" by (rule scansI [of _ "0x3e" "[]"]) (simp_all add: scan_simps)
  moreover have "scans (SymbolToken, [0x2d])" by (rule scansI [of _ "0x2d" "[]"]) (simp_all add: scan_simps)
  ultimately show ?thesis by (simp add: js_def)
qed

lemma scans_two: "scans (SymbolToken, [0x3c, 0x3d])" "scans (SymbolToken, [0x3e, 0x3d])" "scans (SymbolToken, [0x21, 0x3d])"
proof -
  show "scans (SymbolToken, [0x3c, 0x3d])" by (rule scansI [of _ "0x3c" "[0x3d]"]) (simp_all add: scan_simps)
  show "scans (SymbolToken, [0x3e, 0x3d])" by (rule scansI [of _ "0x3e" "[0x3d]"]) (simp_all add: scan_simps)
  show "scans (SymbolToken, [0x21, 0x3d])" by (rule scansI [of _ "0x21" "[0x3d]"]) (simp_all add: scan_simps)
qed

lemma scans_symbol: "spec_ok (SymbolToken, s) \<Longrightarrow> scans (SymbolToken, s)"
  using scans_one scans_two by (auto simp: js_def)

lemma scans_parameter: "scans (ParameterToken, js ''?'')"
  by (simp add: scans_def render_token_def next_token_def Let_def js_def starts_with_def is_space_def is_word_start_def
    is_digit_def quote_single_def quote_double_def)

lemma spec_ok_scans: "spec_ok t \<Longrightarrow> scans t"
proof (induction t rule: spec_ok.induct)
  case (1 s)
  then show ?case by (auto intro: scans_word split: list.splits)
next
  case (2 s)
  then show ?case using scans_quoted [of s quote_double] by (simp add: quote_single_def quote_double_def)
next
  case (3 s)
  then show ?case using scans_quoted [of s quote_single] by (simp add: quote_single_def quote_double_def)
next
  case (4 s)
  then show ?case by (cases s) (auto intro: scans_number)
next
  case (5 s)
  then show ?case by (rule scans_symbol)
next
  case (6 s)
  then show ?case using scans_parameter by simp
qed simp

abbreviation spec_of :: "Token \<Rightarrow> spec" where
  "spec_of t \<equiv> (token_kind t, token_text t)"

lemma tokenize_render:
  "list_all spec_ok ts \<Longrightarrow> length tokens + length ts \<le> MAX_TOKENS \<Longrightarrow>
     \<exists>us. tokenize_from i (render ts) tokens = Inr (tokens @ us) \<and> map spec_of us = ts @ [(EndToken, [])]"
proof (induction ts arbitrary: i tokens)
  case Nil
  then show ?case by (simp add: render_def token_def)
next
  case (Cons t ts)
  obtain c cs where t: "render_token t = c # cs" "\<not> is_space c" "\<not> starts_with (c # cs @ 0x20 # render ts) (js ''--'')"
      "\<not> starts_with (c # cs @ 0x20 # render ts) (js ''/*'')"
      "next_token i c (cs @ 0x20 # render ts) = Inr (token (fst t) (snd t) i, Suc (length cs))"
    using spec_ok_scans [of t] Cons.prems(1) unfolding scans_def by fastforce
  have split: "render (t # ts) = c # cs @ 0x20 # render ts" using t(1) by (simp add: render_def)
  have "tokenize_from i (render (t # ts)) tokens = tokenize_from (i + Suc (length cs) + 1) (render ts) (tokens @ [token (fst t) (snd t) i])"
    unfolding split using t(2-5) Cons.prems(2) by (simp add: is_space_def)
  moreover obtain us where "tokenize_from (i + Suc (length cs) + 1) (render ts) (tokens @ [token (fst t) (snd t) i]) =
      Inr ((tokens @ [token (fst t) (snd t) i]) @ us)" "map spec_of us = ts @ [(EndToken, [])]"
    using Cons.IH [of "tokens @ [token (fst t) (snd t) i]" "i + Suc (length cs) + 1"] Cons.prems by auto
  ultimately show ?case by (intro exI [of _ "token (fst t) (snd t) i # us"]) (simp add: token_def)
qed

section \<open>Parsing printed tokens\<close>

text \<open>
  A parser method on a token list whose kinds and texts are known: \<open>steps p a x b\<close> says that from every
  parser with the tokens and counters \<open>a\<close> it gives \<open>x\<close> and leaves those of \<open>b\<close>.
\<close>

type_synonym pstate = "spec list \<times> nat \<times> nat \<times> nat"

definition erase :: "Parser \<Rightarrow> pstate" where
  "erase s = (map spec_of (rest s), p_parameterCount s, nesting s, predicates s)"

definition steps :: "'a parse \<Rightarrow> pstate \<Rightarrow> 'a \<Rightarrow> pstate \<Rightarrow> bool" where
  "steps p a x b \<longleftrightarrow> (\<forall>s. erase s = a \<longrightarrow> (\<exists>s'. p s = Some (Inr (x, s')) \<and> erase s' = b))"

definition is_kw :: "string \<Rightarrow> spec \<Rightarrow> bool" where
  "is_kw k t \<longleftrightarrow> fst t = WordToken \<and> to_upper (snd t) = js k"

definition is_sym :: "string \<Rightarrow> spec \<Rightarrow> bool" where
  "is_sym k t \<longleftrightarrow> fst t = SymbolToken \<and> snd t = js k"

lemma steps_bind: "steps p a x b \<Longrightarrow> steps (f x) b y c \<Longrightarrow> steps (bindp p f) a y c"
  unfolding steps_def bindp_def by fastforce

lemma steps_pure [simp]: "steps (pure x) a y b \<longleftrightarrow> x = y \<and> a = b"
proof -
  have "\<exists>s. erase s = a"
    by (cases a) (auto intro!: exI [of _ "\<lparr> rest = map (\<lambda>(k, t). token k t 0) (fst a), p_parameterCount = fst (snd a),
      nesting = fst (snd (snd a)), predicates = snd (snd (snd a)) \<rparr>"] simp: erase_def token_def comp_def case_prod_beta)
  then show ?thesis by (auto simp: steps_def pure_def)
qed

lemma bindp_assoc [simp]: "bindp (bindp p f) g = bindp p (\<lambda>x. bindp (f x) g)"
  by (auto simp: bindp_def fun_eq_iff split: option.splits sum.splits)

lemma bindp_pure_left [simp]: "bindp (pure x) f = f x"
  by (simp add: bindp_def pure_def)

lemma bindp_pure_right [simp]: "bindp p pure = p"
  by (auto simp: bindp_def pure_def fun_eq_iff split: option.splits sum.splits)

lemma bindp_if [simp]: "bindp (if b then p else q) f = (if b then bindp p f else bindp q f)"
  by simp

lemma erase_Cons:
  "erase s = (t # m, st) \<longleftrightarrow> (\<exists>u us. rest s = u # us \<and> spec_of u = t \<and> erase (s\<lparr>rest := us\<rparr>) = (m, st))"
  by (auto simp: erase_def Cons_eq_map_conv map_eq_Cons_conv)

lemma steps_current:
  assumes "\<And>u. spec_of u = t \<Longrightarrow> steps (f u) (t # m, st) y c"
  shows "steps (bindp current f) (t # m, st) y c"
  using assms unfolding steps_def by (fastforce simp: bindp_def current_def erase_Cons)

lemma steps_advance: "steps (f ()) (m, st) y c \<Longrightarrow> steps (bindp advance f) (t # m, st) y c"
  unfolding steps_def by (fastforce simp: bindp_def advance_def erase_Cons)

lemma steps_acceptKeyword:
  assumes "if is_kw k t then steps (f True) (m, st) y c else steps (f False) (t # m, st) y c"
  shows "steps (bindp (acceptKeyword k) f) (t # m, st) y c"
  unfolding acceptKeyword_def bindp_assoc
  by (rule steps_current) (use assms in \<open>auto simp: is_kw_def intro: steps_advance split: if_splits\<close>)

lemma steps_acceptSymbol:
  assumes "if is_sym k t then steps (f True) (m, st) y c else steps (f False) (t # m, st) y c"
  shows "steps (bindp (acceptSymbol k) f) (t # m, st) y c"
  unfolding acceptSymbol_def bindp_assoc
  by (rule steps_current) (use assms in \<open>auto simp: is_sym_def intro: steps_advance split: if_splits\<close>)

lemma steps_expectKeyword:
  "is_kw k t \<Longrightarrow> steps (f ()) (m, st) y c \<Longrightarrow> steps (bindp (expectKeyword k) f) (t # m, st) y c"
  unfolding expectKeyword_def bindp_assoc by (rule steps_acceptKeyword) simp

lemma steps_expectSymbol:
  "is_sym k t \<Longrightarrow> steps (f ()) (m, st) y c \<Longrightarrow> steps (bindp (expectSymbol k) f) (t # m, st) y c"
  unfolding expectSymbol_def bindp_assoc by (rule steps_acceptSymbol) simp

lemma steps_identifier_name:
  "name_ok n \<Longrightarrow> steps (f n) (m, st) y c \<Longrightarrow> steps (bindp identifier_name f) (name_spec n # m, st) y c"
  unfolding identifier_name_def bindp_assoc by (rule steps_current) (auto intro: steps_advance)

lemma steps_assertUnique: "n \<notin> set ns \<Longrightarrow> steps (f ()) a y c \<Longrightarrow> steps (bindp (assertUnique ns n l) f) a y c"
  by (simp add: assertUnique_def)

lemmas steps_rules = steps_acceptKeyword steps_acceptSymbol steps_expectKeyword steps_expectSymbol steps_identifier_name
  steps_assertUnique

lemma keyword_match [simp]: "is_kw k (kw w) \<longleftrightarrow> to_upper (js w) = js k" "\<not> is_kw k (IdentifierToken, n)"
    "\<not> is_kw k (symb s)" "\<not> is_kw k (StringToken, n)" "\<not> is_kw k (NumberToken, n)" "\<not> is_kw k (ParameterToken, n)" "\<not> is_kw k (EndToken, n)"
    "is_sym k (symb s) \<longleftrightarrow> js s = js k" "\<not> is_sym k (kw w)" "\<not> is_sym k (IdentifierToken, n)" "\<not> is_sym k (StringToken, n)"
    "\<not> is_sym k (NumberToken, n)" "\<not> is_sym k (ParameterToken, n)" "\<not> is_sym k (EndToken, n)"
  by (simp_all add: is_kw_def is_sym_def)

text \<open>Integers.\<close>

lemma parseNumber_decimal:
  assumes "i < 0 \<longleftrightarrow> neg" and "SQL_INTEGER_MIN \<le> i" and "i \<le> SQL_INTEGER_MAX"
  shows "parseNumber ((if neg then js ''-'' else []) @ decimal (nat \<bar>i\<bar>)) pos =
    Inr (if \<bar>i\<bar> \<le> max_safe_integer then SqlNumber (f64_of_int i) else SqlBigint i)"
proof -
  let ?s = "(if neg then js ''-'' else []) @ decimal (nat \<bar>i\<bar>)"
  obtain c cs where d: "decimal (nat \<bar>i\<bar>) = c # cs" "is_digit c" using decimal_head by blast
  have sign: "split_sign ?s = (neg, decimal (nat \<bar>i\<bar>))"
    using digit_facts(2,8) [OF d(2)] by (simp add: split_sign_def d(1) js_def)
  then have "is_integer_text ?s" using decimal_text by (simp add: is_integer_text_def)
  moreover have "signed_value ?s = i" unfolding signed_value_def sign using assms(1) decimal_text by auto
  ultimately show ?thesis using assms(2,3) by (auto simp: parseNumber_def)
qed

lemma steps_number_value:
  assumes "\<And>pos. parseNumber (sign @ n) pos = Inr v" and "steps (f (Literal v)) (m, st) y c"
  shows "steps (bindp (number_value pos sign) f) ((NumberToken, n) # m, st) y c"
  unfolding number_value_def bindp_assoc
  by (rule steps_current) (use assms in \<open>auto intro!: steps_advance\<close>)

lemma steps_integer:
  assumes "SQL_INTEGER_MIN \<le> i" and "i \<le> SQL_INTEGER_MAX"
    and "steps (f (Literal (if \<bar>i\<bar> \<le> max_safe_integer then SqlNumber (f64_of_int i) else SqlBigint i))) (m, st) y c"
  shows "steps (bindp value_expr f) (integer_spec i @ m, st) y c"
proof -
  have number: "steps (bindp (number_value pos (if i < 0 then js ''-'' else [])) f) ((NumberToken, decimal (nat \<bar>i\<bar>)) # m, st) y c" for pos
    using parseNumber_decimal [OF refl assms(1,2)] assms(3) by (intro steps_number_value)
  show ?thesis
  proof (cases "i < 0")
    case True
    have "steps (bindp value_expr f) (symb ''-'' # (NumberToken, decimal (nat \<bar>i\<bar>)) # m, st) y c"
      unfolding value_expr_def bindp_assoc
      by (rule steps_current) (use number True in \<open>auto simp: keyword_value_def sign_prefix_def intro!: steps_rules\<close>)
    then show ?thesis using True by (simp add: integer_spec_def)
  next
    case False
    have "steps (bindp value_expr f) ((NumberToken, decimal (nat \<bar>i\<bar>)) # m, st) y c"
      unfolding value_expr_def bindp_assoc
      by (rule steps_current) (use number False in \<open>auto simp: keyword_value_def sign_prefix_def intro!: steps_rules\<close>)
    then show ?thesis using False by (simp add: integer_spec_def)
  qed
qed

text \<open>The state after a value: its parameter, if it is one, has been counted.\<close>

definition numbered_at :: "nat \<Rightarrow> nat list \<Rightarrow> bool" where
  "numbered_at pc ps \<longleftrightarrow> ps = [pc..<pc + length ps]"

lemma numbered_at_append [simp]: "numbered_at pc (ps @ qs) \<longleftrightarrow> numbered_at pc ps \<and> numbered_at (pc + length ps) qs"
proof -
  have "[pc..<pc + length (ps @ qs)] = [pc..<pc + length ps] @ [pc + length ps..<pc + length ps + length qs]"
    using upt_add_eq_append [of pc "pc + length ps" "length qs"] by (simp add: add.assoc)
  then show ?thesis unfolding numbered_at_def by (simp only: append_eq_append_conv length_upt add_diff_cancel_left' disjI1)
qed

lemma numbered_at_simps [simp]: "numbered_at pc []" "numbered_at pc [i] \<longleftrightarrow> i = pc"
  by (auto simp: numbered_at_def)

lemma steps_value:
  assumes "value_expr_ok v" and "plain_value v" and "numbered_at pc (value_params v)"
    and "steps (f v) (m, pc + length (value_params v), ne, pr) y c"
  shows "steps (bindp value_expr f) (value_spec v @ m, pc, ne, pr) y c"
proof (cases v)
  case (Parameter i)
  have "steps (bindp parameter_value f) (m, pc, ne, pr) y c"
    using assms(3,4) Parameter unfolding steps_def by (fastforce simp: bindp_def parameter_value_def erase_def)
  then have "steps (bindp value_expr f) ((ParameterToken, js ''?'') # m, pc, ne, pr) y c"
    unfolding value_expr_def bindp_assoc by (intro steps_current) (auto intro!: steps_advance)
  then show ?thesis using Parameter by simp
next
  case (Literal w)
  show ?thesis
  proof (cases w)
    case (SqlNumber x)
    then have x: "f64_is_safe_integer x" "x = f64_of_int (f64_int x)" using assms(2) Literal safe_integer_f64 by auto
    then have b: "\<bar>f64_int x\<bar> \<le> max_safe_integer" by (simp add: f64_is_safe_integer_def)
    then have "SQL_INTEGER_MIN \<le> f64_int x" "f64_int x \<le> SQL_INTEGER_MAX"
      by (auto simp: max_safe_integer_def SQL_INTEGER_MIN_def SQL_INTEGER_MAX_def)
    then show ?thesis using steps_integer [of "f64_int x" f m "(pc, ne, pr)" y c] assms(4) b x(2) Literal SqlNumber by simp
  next
    case (SqlBigint i)
    then show ?thesis using steps_integer [of i f m "(pc, ne, pr)" y c] assms Literal by simp
  next
    case (SqlText s)
    have "steps (bindp value_expr f) ((StringToken, s) # m, pc, ne, pr) y c"
      unfolding value_expr_def bindp_assoc
      by (rule steps_current) (use assms(4) Literal SqlText in \<open>auto intro!: steps_advance\<close>)
    then show ?thesis using Literal SqlText by simp
  next
    case SqlNull
    have "steps (bindp value_expr f) (kw ''NULL'' # m, pc, ne, pr) y c"
      unfolding value_expr_def bindp_assoc
      by (rule steps_current) (use assms(4) Literal SqlNull in
        \<open>auto simp: keyword_value_def to_upper_def js_def is_kw_def intro!: steps_rules\<close>)
    then show ?thesis using Literal SqlNull by simp
  next
    case (SqlBool b)
    have "steps (bindp value_expr f) (kw (if b then ''TRUE'' else ''FALSE'') # m, pc, ne, pr) y c"
      unfolding value_expr_def bindp_assoc
      by (rule steps_current) (use assms(4) Literal SqlBool in
        \<open>auto simp: keyword_value_def to_upper_def js_def is_kw_def intro!: steps_rules\<close>)
    then show ?thesis using Literal SqlBool by simp
  qed (use assms(2) Literal in simp)
qed

text \<open>Expressions.\<close>

lemma steps_counters:
  "steps (f ()) (m, pc, ne, Suc pr) y c \<Longrightarrow> steps (bindp count_predicate f) (m, pc, ne, pr) y c"
  "steps (h (bound < pr)) (m, pc, ne, pr) y c \<Longrightarrow> steps (bindp (too_many predicates bound) h) (m, pc, ne, pr) y c"
  "steps (h (bound < ne)) (m, pc, ne, pr) y c \<Longrightarrow> steps (bindp (too_many nesting bound) h) (m, pc, ne, pr) y c"
  "steps (f ()) (m, pc, g ne, pr) y c \<Longrightarrow> steps (bindp (change_nesting g) f) (m, pc, ne, pr) y c"
  unfolding steps_def
  by (fastforce simp: bindp_def count_predicate_def too_many_def change_nesting_def erase_def)+

lemma operator_lookup: "map_of comparison_operators (snd (operator_spec operator)) = Some operator" "fst (operator_spec operator) = SymbolToken"
  by (cases operator; simp add: comparison_operators_def js_def)+

lemma steps_comparison:
  assumes "value_expr_ok v" and "plain_value v" and "numbered_at pc (value_params v)"
  shows "steps (comparison_tail n) (operator_spec operator # value_spec v @ m, pc, ne, pr) (Comparison n operator v)
    (m, pc + length (value_params v), ne, pr)"
proof -
  have not_is: "\<not> is_kw ''IS'' (operator_spec operator)" using operator_lookup(2) [of operator] by (simp add: is_kw_def)
  have tail: "steps (bindp current (\<lambda>t.
       case (if token_kind t = SymbolToken then map_of comparison_operators (token_text t) else None) of
         None \<Rightarrow> syntax_error msg
       | Some operator \<Rightarrow> bindp advance (\<lambda>_. bindp value_expr (\<lambda>v. pure (Comparison n operator v)))))
     (operator_spec operator # value_spec v @ m, pc, ne, pr) (Comparison n operator v) (m, pc + length (value_params v), ne, pr)" for msg
  proof (rule steps_current)
    fix u :: Token assume "spec_of u = operator_spec operator"
    then have "token_kind u = SymbolToken" "map_of comparison_operators (token_text u) = Some operator"
      using operator_lookup [of operator] by (metis fst_conv snd_conv)+
    then show "steps (case (if token_kind u = SymbolToken then map_of comparison_operators (token_text u) else None) of
         None \<Rightarrow> syntax_error msg
       | Some operator \<Rightarrow> bindp advance (\<lambda>_. bindp value_expr (\<lambda>v. pure (Comparison n operator v))))
      (operator_spec operator # value_spec v @ m, pc, ne, pr) (Comparison n operator v) (m, pc + length (value_params v), ne, pr)"
      using assms by (auto intro!: steps_advance steps_value)
  qed
  show ?thesis unfolding comparison_tail_def
    by (rule steps_acceptKeyword) (simp add: not_is tail)
qed

lemma steps_is_null:
  "steps (comparison_tail n) (kw ''IS'' # kw ''NOT'' # kw ''NULL'' # m, st) (IsNull n True) (m, st)"
  "steps (comparison_tail n) (kw ''IS'' # kw ''NULL'' # m, st) (IsNull n False) (m, st)"
  by (auto simp: comparison_tail_def is_kw_def to_upper_def js_def intro!: steps_rules)

lemma steps_leaf:
  assumes "expression_ok e" and "plain_expression e" and "numbered_at pc (expression_params e)" and "depth e = 0" and "pr < MAX_PREDICATES"
  shows "steps (predicate_expr (Suc fuel)) (expression_spec e @ m, pc, ne, pr) e (m, pc + length (expression_params e), ne, Suc pr)"
  using assms
  by (cases e) (auto intro!: steps_rules steps_counters steps_comparison steps_is_null)

lemma steps_stop:
  "\<not> is_kw ''OR'' t \<Longrightarrow> steps (or_loop (Suc fuel) e) (t # m, st) e (t # m, st)"
  "\<not> is_kw ''AND'' t \<Longrightarrow> steps (and_loop (Suc fuel) e) (t # m, st) e (t # m, st)"
  by (auto intro!: steps_rules)

lemma spec_length: "3 \<le> length (expression_spec e)" if "plain_expression e"
proof -
  have "1 \<le> length (value_spec v)" if "plain_value v" for v
    using that by (cases v rule: value_spec.cases) (auto simp: integer_spec_def)
  then show ?thesis using that by (induction e) auto
qed

lemma steps_paren:
  assumes "steps (or_expr fuel) (sp @ symb '')'' # m, pc, Suc ne, pr) e (symb '')'' # m, pc', Suc ne, pr')" and "ne < MAX_NESTING"
  shows "steps (predicate_expr (Suc fuel)) (symb ''('' # sp @ symb '')'' # m, pc, ne, pr) e (m, pc', ne, pr')"
proof -
  have "steps (bindp (change_nesting (\<lambda>n. n - 1)) (\<lambda>_. pure e)) (m, pc', Suc ne, pr') e (m, pc', ne, pr')"
    by (rule steps_counters) simp
  then show ?thesis
    using assms by (auto intro!: steps_rules steps_counters steps_bind [OF assms(1)])
qed

lemma steps_keyword: "is_kw k t \<Longrightarrow> steps (f True) (m, st) y c \<Longrightarrow> steps (bindp (acceptKeyword k) f) (t # m, st) y c"
  by (rule steps_acceptKeyword) simp

lemma keyword_and: "is_kw ''AND'' (kw ''AND'')" and keyword_or: "is_kw ''OR'' (kw ''OR'')"
  by (simp_all add: is_kw_def to_upper_def js_def)

lemma steps_leaf_or:
  assumes "expression_ok e" and "plain_expression e" and "numbered_at pc (expression_params e)" and "depth e = 0" and "pr < MAX_PREDICATES"
    and "3 \<le> fuel" and "\<not> is_kw ''OR'' t" and "\<not> is_kw ''AND'' t"
  shows "steps (or_expr fuel) (expression_spec e @ t # m, pc, ne, pr) e (t # m, pc + length (expression_params e), ne, Suc pr)"
proof -
  obtain f where f: "fuel = Suc (Suc (Suc f))" using assms(6) by (metis Suc_le_D numeral_3_eq_3 Suc_le_mono)
  show ?thesis unfolding f or_expr.simps and_expr.simps
    by (rule steps_bind, rule steps_bind, rule steps_leaf [OF assms(1-5)], rule steps_stop, rule assms, rule steps_stop, rule assms)
qed

lemma steps_or_expr:
  "expression_ok e \<Longrightarrow> plain_expression e \<Longrightarrow> numbered_at pc (expression_params e) \<Longrightarrow> ne + depth e \<le> MAX_NESTING \<Longrightarrow>
   pr + leaves e \<le> MAX_PREDICATES \<Longrightarrow> length (expression_spec e) \<le> fuel \<Longrightarrow> \<not> is_kw ''OR'' t \<Longrightarrow> \<not> is_kw ''AND'' t \<Longrightarrow>
   steps (or_expr fuel) (expression_spec e @ t # m, pc, ne, pr) e (t # m, pc + length (expression_params e), ne, pr + leaves e)"
proof (induction e arbitrary: fuel pc ne pr t m)
  case (Comparison n operator v)
  then show ?case
    using steps_leaf_or [of "Comparison n operator v"] spec_length [of "Comparison n operator v"] by simp
next
  case (IsNull n b)
  then show ?case using steps_leaf_or [of "IsNull n b"] spec_length [of "IsNull n b"] by simp
next
  case (AndExpr l r)
  obtain f where f: "fuel = Suc (Suc (Suc (Suc (Suc f))))"
    using AndExpr.prems(6) by (auto simp: le_eq_less_or_eq intro!: that [of "fuel - 5"])
  let ?pl = "length (expression_params l)" and ?pr = "length (expression_params r)"
  have right: "steps (predicate_expr (Suc (Suc f))) (symb ''('' # expression_spec r @ symb '')'' # t # m, pc + ?pl, ne, pr + leaves l) r
      (t # m, pc + ?pl + ?pr, ne, pr + leaves l + leaves r)"
    using AndExpr.prems f by (intro steps_paren AndExpr.IH(2)) auto
  have left: "steps (predicate_expr (Suc (Suc (Suc f)))) (symb ''('' # expression_spec l @ symb '')'' # kw ''AND'' # symb ''('' #
      expression_spec r @ symb '')'' # t # m, pc, ne, pr) l
      (kw ''AND'' # symb ''('' # expression_spec r @ symb '')'' # t # m, pc + ?pl, ne, pr + leaves l)"
    using AndExpr.prems f by (intro steps_paren AndExpr.IH(1)) auto
  have loop: "steps (and_loop (Suc (Suc (Suc f))) l)
      (kw ''AND'' # symb ''('' # expression_spec r @ symb '')'' # t # m, pc + ?pl, ne, pr + leaves l) (AndExpr l r)
      (t # m, pc + ?pl + ?pr, ne, pr + leaves l + leaves r)"
    by (subst and_loop.simps, rule steps_keyword [OF keyword_and])
      (simp only: if_True, rule steps_bind, rule right, rule steps_stop, rule AndExpr.prems)
  have "steps (or_expr fuel) (symb ''('' # expression_spec l @ symb '')'' # kw ''AND'' # symb ''('' # expression_spec r @ symb '')'' # t # m, pc, ne, pr)
      (AndExpr l r) (t # m, pc + ?pl + ?pr, ne, pr + leaves l + leaves r)"
    unfolding f or_expr.simps and_expr.simps by (rule steps_bind, rule steps_bind, rule left, rule loop, rule steps_stop, rule AndExpr.prems)
  then show ?case by (simp add: add.assoc)
next
  case (OrExpr l r)
  obtain f where f: "fuel = Suc (Suc (Suc (Suc (Suc f))))"
    using OrExpr.prems(6) by (auto simp: le_eq_less_or_eq intro!: that [of "fuel - 5"])
  let ?pl = "length (expression_params l)" and ?pr = "length (expression_params r)"
  have right: "steps (predicate_expr (Suc (Suc f))) (symb ''('' # expression_spec r @ symb '')'' # t # m, pc + ?pl, ne, pr + leaves l) r
      (t # m, pc + ?pl + ?pr, ne, pr + leaves l + leaves r)"
    using OrExpr.prems f by (intro steps_paren OrExpr.IH(2)) auto
  have left: "steps (predicate_expr (Suc (Suc (Suc f)))) (symb ''('' # expression_spec l @ symb '')'' # kw ''OR'' # symb ''('' #
      expression_spec r @ symb '')'' # t # m, pc, ne, pr) l
      (kw ''OR'' # symb ''('' # expression_spec r @ symb '')'' # t # m, pc + ?pl, ne, pr + leaves l)"
    using OrExpr.prems f by (intro steps_paren OrExpr.IH(1)) auto
  have other: "\<not> is_kw ''AND'' (kw ''OR'')" by (simp add: is_kw_def to_upper_def js_def)
  have loop: "steps (or_loop (Suc (Suc (Suc (Suc f)))) l)
      (kw ''OR'' # symb ''('' # expression_spec r @ symb '')'' # t # m, pc + ?pl, ne, pr + leaves l) (OrExpr l r)
      (t # m, pc + ?pl + ?pr, ne, pr + leaves l + leaves r)"
    by (subst or_loop.simps, rule steps_keyword [OF keyword_or])
      (simp only: if_True and_expr.simps, rule steps_bind, rule steps_bind, rule right, rule steps_stop, rule OrExpr.prems, rule steps_stop, rule OrExpr.prems)
  have "steps (or_expr fuel) (symb ''('' # expression_spec l @ symb '')'' # kw ''OR'' # symb ''('' # expression_spec r @ symb '')'' # t # m, pc, ne, pr)
      (OrExpr l r) (t # m, pc + ?pl + ?pr, ne, pr + leaves l + leaves r)"
    unfolding f or_expr.simps and_expr.simps by (rule steps_bind, rule steps_bind, rule left, rule steps_stop, rule other, rule loop)
  then show ?case by (simp add: add.assoc)
qed

text \<open>Lists.\<close>

fun chain :: "('v \<Rightarrow> 'x \<Rightarrow> bool) \<Rightarrow> ('v \<Rightarrow> 'x \<Rightarrow> 'v) \<Rightarrow> 'v \<Rightarrow> 'x list \<Rightarrow> bool" where
  "chain P add v [] = True"
| "chain P add v (x # xs) = (P v x \<and> chain P add (add v x) xs)"

lemma steps_do_while:
  assumes body: "\<And>v x pc t m. P v x \<Longrightarrow> numbered_at pc (ps x) \<Longrightarrow> F t \<Longrightarrow>
      steps (body v) (sp x @ t # m, pc, ne, pr) (add v x) (t # m, pc + length (ps x), ne, pr)"
    and comma: "F (symb '','')"
  shows "xs \<noteq> [] \<Longrightarrow> length xs \<le> fuel \<Longrightarrow> chain P add v xs \<Longrightarrow> numbered_at pc (concat (map ps xs)) \<Longrightarrow> F t \<Longrightarrow> \<not> is_sym '','' t \<Longrightarrow>
    steps (do_while_comma fuel body v) (sep_list sp xs @ t # m, pc, ne, pr) (foldl add v xs) (t # m, pc + length (concat (map ps xs)), ne, pr)"
proof (induction xs arbitrary: v pc fuel)
  case Nil
  then show ?case by simp
next
  case (Cons x xs)
  then obtain f where f: "fuel = Suc f" by (cases fuel) auto
  show ?case
  proof (cases xs)
    case Nil
    have "steps (body v) (sp x @ t # m, pc, ne, pr) (add v x) (t # m, pc + length (ps x), ne, pr)"
      using Cons.prems Nil by (intro body) auto
    then have "steps (do_while_comma (Suc f) body v) (sp x @ t # m, pc, ne, pr) (add v x) (t # m, pc + length (ps x), ne, pr)"
      unfolding do_while_comma.simps by (rule steps_bind, intro steps_acceptSymbol) (use Cons.prems(6) in simp)
    then show ?thesis using Nil f by simp
  next
    case (Cons y ys)
    have first: "steps (body v) (sp x @ symb '','' # sep_list sp xs @ t # m, pc, ne, pr) (add v x)
        (symb '','' # sep_list sp xs @ t # m, pc + length (ps x), ne, pr)"
      using Cons.prems comma by (intro body) auto
    have rest_list: "steps (do_while_comma f body (add v x)) (sep_list sp xs @ t # m, pc + length (ps x), ne, pr) (foldl add (add v x) xs)
        (t # m, pc + length (ps x) + length (concat (map ps xs)), ne, pr)"
      using Cons.prems f Cons by (intro Cons.IH) auto
    have "steps (do_while_comma (Suc f) body v) (sp x @ symb '','' # sep_list sp xs @ t # m, pc, ne, pr) (foldl add (add v x) xs)
        (t # m, pc + length (ps x) + length (concat (map ps xs)), ne, pr)"
      unfolding do_while_comma.simps by (rule steps_bind [OF first], intro steps_acceptSymbol) (use rest_list in simp)
    then show ?thesis using f Cons by (simp add: add.assoc)
  qed
qed

lemma foldl_append: "foldl (\<lambda>v x. v @ [x]) acc xs = acc @ xs"
  by (induction xs arbitrary: acc) auto

lemma chain_append:
  "list_all Q xs \<Longrightarrow> distinct (map nm (acc @ xs)) \<Longrightarrow> chain (\<lambda>v x. Q x \<and> nm x \<notin> set (map nm v)) (\<lambda>v x. v @ [x]) acc xs"
  by (induction xs arbitrary: acc) auto

lemma chain_all: "list_all Q xs \<Longrightarrow> chain (\<lambda>v. Q) add acc xs"
  by (induction xs arbitrary: acc) auto

lemma concat_empty [simp]: "concat (map (\<lambda>_. []) xs) = []"
  by (induction xs) auto

lemma sep_list_length: "(\<And>x. x \<in> set xs \<Longrightarrow> sp x \<noteq> []) \<Longrightarrow> length xs \<le> length (sep_list sp xs)"
proof (induction sp xs rule: sep_list.induct)
  case (3 f x y xs)
  then have "length (y # xs) \<le> length (sep_list f (y # xs))" by simp
  then show ?case by simp
qed (auto simp: Suc_le_eq)

lemma steps_names:
  assumes "names_ok ns" and "ns \<noteq> []" and "length ns \<le> fuel" and "\<not> is_sym '','' t"
  shows "steps (identifierList fuel) (names_spec ns @ t # m, st) ns (t # m, st)"
proof -
  obtain pc ne pr where st: "st = (pc, ne, pr)" by (cases st)
  have "steps (identifierList fuel) (names_spec ns @ t # m, pc, ne, pr) (foldl (\<lambda>v x. v @ [x]) [] ns)
      (t # m, pc + length (concat (map (\<lambda>_. [] :: nat list) ns)), ne, pr)"
    unfolding identifierList_def names_spec_def
    by (rule steps_do_while [where P = "\<lambda>v x. name_ok x \<and> id x \<notin> set (map id v)" and F = "\<lambda>_. True" and ps = "\<lambda>_. []"])
      (use assms chain_append [of name_ok ns id "[]"] in \<open>auto simp: names_ok_def intro!: steps_rules\<close>)
  then show ?thesis by (simp add: foldl_append st)
qed

lemma steps_value_list:
  assumes "list_all value_expr_ok row" and "list_all plain_value row" and "row \<noteq> []" and "length row \<le> fuel"
    and "numbered_at pc (row_params row)" and "\<not> is_sym '','' t"
  shows "steps (value_list fuel) (sep_list value_spec row @ t # m, pc, ne, pr) row (t # m, pc + length (row_params row), ne, pr)"
proof -
  have "steps (value_list fuel) (sep_list value_spec row @ t # m, pc, ne, pr) (foldl (\<lambda>v x. v @ [x]) [] row)
      (t # m, pc + length (row_params row), ne, pr)"
    unfolding value_list_def
    by (rule steps_do_while [where P = "\<lambda>v x. value_expr_ok x \<and> plain_value x" and F = "\<lambda>_. True"])
      (use assms in \<open>auto simp: list_all_iff intro!: steps_value chain_all\<close>)
  then show ?thesis by (simp add: foldl_append)
qed

lemma steps_where:
  assumes "where_ok w" and "plain_where w" and "numbered_at pc (option_params expression_params w)" and "length (where_spec w) \<le> fuel"
    and "\<not> is_kw ''WHERE'' t" and "\<not> is_kw ''OR'' t" and "\<not> is_kw ''AND'' t"
  shows "steps (where_clause fuel) (where_spec w @ t # m, pc, 0, 0) w
    (t # m, pc + length (option_params expression_params w), 0, case w of None \<Rightarrow> 0 | Some e \<Rightarrow> leaves e)"
proof (cases w)
  case None
  then show ?thesis using assms(5) by (auto simp: where_clause_def where_spec_def option_params_def intro!: steps_rules)
next
  case (Some e)
  then have "steps (or_expr fuel) (expression_spec e @ t # m, pc, 0, 0) e (t # m, pc + length (expression_params e), 0, 0 + leaves e)"
    using assms by (intro steps_or_expr) (auto simp: where_ok_def plain_where_def option_params_def where_spec_def)
  then show ?thesis using Some
    by (auto simp: where_clause_def where_spec_def option_params_def is_kw_def to_upper_def js_def intro!: steps_rules steps_bind)
qed

text \<open>Clauses and statements.\<close>

lemma steps_row:
  assumes "list_all value_expr_ok row" and "list_all plain_value row" and "row \<noteq> []" and "length row \<le> fuel"
    and "numbered_at pc (row_params row)" and "w = None \<or> w = Some (length row)"
  shows "steps (insert_row fuel (rows, w)) (row_spec row @ m, pc, ne, pr) (rows @ [row], Some (length row))
    (m, pc + length (row_params row), ne, pr)"
proof -
  have "\<not> is_sym '','' (symb '')'')" by (simp add: is_sym_def js_def)
  note list = steps_value_list [OF assms(1-5) this]
  have "steps (bindp (value_list fuel) (\<lambda>row'. bindp (expectSymbol '')'') (\<lambda>_.
       let width' = (case w of None \<Rightarrow> length row' | Some w \<Rightarrow> w) in
       if length row' \<noteq> width' then syntax_error msg else pure (rows @ [row'], Some width'))))
     (sep_list value_spec row @ symb '')'' # m, pc, ne, pr) (rows @ [row], Some (length row)) (m, pc + length (row_params row), ne, pr)" for msg
    by (rule steps_bind [OF list]) (use assms(6) in \<open>auto intro!: steps_rules\<close>)
  then show ?thesis by (auto simp: insert_row_def row_spec_def intro!: steps_expectSymbol)
qed

lemma steps_order_item:
  assumes "name_ok (fst x)" and "fst x \<notin> set (map fst orders)" and "\<not> is_kw ''DESC'' t" and "\<not> is_kw ''ASC'' t"
  shows "steps (order_item orders) (order_spec x @ t # m, st) (orders @ [x]) (t # m, st)"
  using assms by (cases x; cases "snd x") (auto simp: order_item_def order_spec_def is_kw_def to_upper_def js_def intro!: steps_rules)

lemma steps_order_by:
  assumes "names_ok (map fst orders)" and "length orders \<le> fuel" and "\<not> is_kw ''ORDER'' t" and "\<not> is_kw ''DESC'' t" and "\<not> is_kw ''ASC'' t"
    and "\<not> is_sym '','' t"
  shows "steps (order_by fuel) ((if orders = [] then [] else kw ''ORDER'' # kw ''BY'' # sep_list order_spec orders) @ t # m, pc, ne, pr) orders
    (t # m, pc, ne, pr)"
proof (cases "orders = []")
  case True
  then show ?thesis using assms(3) by (auto simp: order_by_def intro!: steps_rules)
next
  case False
  have "steps (do_while_comma fuel order_item []) (sep_list order_spec orders @ t # m, pc, ne, pr) (foldl (\<lambda>v x. v @ [x]) [] orders)
      (t # m, pc + length (concat (map (\<lambda>_. [] :: nat list) orders)), ne, pr)"
    by (rule steps_do_while [where P = "\<lambda>v x. name_ok (fst x) \<and> fst x \<notin> set (map fst v)" and ps = "\<lambda>_. []"
        and F = "\<lambda>t. \<not> is_kw ''DESC'' t \<and> \<not> is_kw ''ASC'' t"])
      (use assms False chain_append [of "\<lambda>x. name_ok (fst x)" orders fst "[]"] in
        \<open>auto simp: names_ok_def list_all_iff steps_order_item\<close>)
  then show ?thesis using False
    by (auto simp: order_by_def foldl_append is_kw_def to_upper_def js_def intro!: steps_rules)
qed

lemma steps_count:
  assumes "count_ok v" and "plain_value v" and "numbered_at pc (value_params v)"
    and "steps (f v) (m, pc + length (value_params v), ne, pr) y c"
  shows "steps (bindp (rowCount clause) f) (value_spec v @ m, pc, ne, pr) y c"
proof -
  have "value_expr_ok v"
    using assms(1) by (cases v rule: count_ok.cases)
      (auto simp: number_ok_def f64_is_safe_integer_def f64_is_integer_def)
  then show ?thesis unfolding rowCount_def bindp_assoc
    using assms by (intro steps_value) (cases v rule: count_ok.cases; auto)+
qed

lemma steps_limit:
  assumes "list_all count_ok (case l of None \<Rightarrow> [] | Some v \<Rightarrow> [v])" and "list_all count_ok (case off of None \<Rightarrow> [] | Some v \<Rightarrow> [v])"
    and "list_all plain_value (case l of None \<Rightarrow> [] | Some v \<Rightarrow> [v])" and "list_all plain_value (case off of None \<Rightarrow> [] | Some v \<Rightarrow> [v])"
    and "off \<noteq> None \<longrightarrow> l \<noteq> None" and "numbered_at pc (option_params value_params l @ option_params value_params off)"
    and "\<not> is_kw ''LIMIT'' t" and "\<not> is_kw ''OFFSET'' t"
  shows "steps limit_clause (limit_spec l off @ t # m, pc, ne, pr) (l, off)
    (t # m, pc + length (option_params value_params l @ option_params value_params off), ne, pr)"
  using assms
  by (cases l; cases off) (auto simp: limit_clause_def limit_spec_def option_params_def is_kw_def to_upper_def js_def add.assoc
    intro!: steps_rules steps_count)

lemma steps_assignment:
  assumes "name_ok (fst a)" and "fst a \<notin> set (map fst as)" and "value_expr_ok (snd a)" and "plain_value (snd a)"
    and "numbered_at pc (value_params (snd a))"
  shows "steps (assignment as) (assignment_spec a @ m, pc, ne, pr) (as @ [a]) (m, pc + length (value_params (snd a)), ne, pr)"
  using assms by (cases a) (auto simp: assignment_def assignment_spec_def intro!: steps_rules steps_value)

lemma steps_constraints:
  assumes "\<not> is_kw ''PRIMARY'' t" and "\<not> is_kw ''NOT'' t" and "\<not> is_kw ''NULL'' t"
  shows "steps (constraint_loop (Suc f) p nu sp n) (t # m, st) (p, nu, sp, n) (t # m, st)"
    and "steps (constraint_loop (Suc (Suc f)) False nu sp 0) (kw ''PRIMARY'' # kw ''KEY'' # t # m, st) (True, nu, sp, Suc 0) (t # m, st)"
    and "steps (constraint_loop (Suc (Suc f)) p nu False n) (kw ''NOT'' # kw ''NULL'' # t # m, st) (p, False, True, n) (t # m, st)"
proof -
  show stop: "steps (constraint_loop (Suc f) p nu sp n) (t # m, st) (p, nu, sp, n) (t # m, st)" for f p nu sp n
    using assms by (auto intro!: steps_rules)
  have words: "is_kw ''PRIMARY'' (kw ''PRIMARY'')" "is_kw ''KEY'' (kw ''KEY'')" "is_kw ''NOT'' (kw ''NOT'')" "is_kw ''NULL'' (kw ''NULL'')"
      "\<not> is_kw ''PRIMARY'' (kw ''NOT'')"
    by (simp_all add: is_kw_def to_upper_def js_def)
  show "steps (constraint_loop (Suc (Suc f)) False nu sp 0) (kw ''PRIMARY'' # kw ''KEY'' # t # m, st) (True, nu, sp, Suc 0) (t # m, st)"
    by (subst constraint_loop.simps, rule steps_keyword [OF words(1)], simp only: if_True if_False, rule steps_expectKeyword [OF words(2)])
      (use stop in \<open>simp del: constraint_loop.simps\<close>)
  show "steps (constraint_loop (Suc (Suc f)) p nu False n) (kw ''NOT'' # kw ''NULL'' # t # m, st) (p, False, True, n) (t # m, st)"
    by (subst constraint_loop.simps, rule steps_acceptKeyword, simp only: words if_False, rule steps_keyword [OF words(3)],
      simp only: if_True if_False, rule steps_expectKeyword [OF words(4)]) (use stop in \<open>simp del: constraint_loop.simps\<close>)
qed

lemma steps_column:
  assumes "name_ok (column_name c)" and "column_name c \<notin> set (map column_name cs)" and "column_primaryKey c \<longrightarrow> \<not> column_nullable c \<and> n = 0"
    and "3 \<le> fuel" and "\<not> is_kw ''PRIMARY'' t" and "\<not> is_kw ''NOT'' t" and "\<not> is_kw ''NULL'' t"
  shows "steps (column_definition fuel (cs, n)) (column_spec c @ t # m, st) (cs @ [c], n + (if column_primaryKey c then 1 else 0)) (t # m, st)"
proof -
  have f: "fuel = Suc (Suc (fuel - 2))" using assms(4) by simp
  have type: "map_of COLUMN_TYPES (to_upper (snd (type_spec ty))) = Some ty" "fst (type_spec ty) = WordToken" for ty
    by (cases ty; simp add: COLUMN_TYPES_def to_upper_def js_def)+
  let ?flags = "if column_primaryKey c then [kw ''PRIMARY'', kw ''KEY''] else if column_nullable c then [] else [kw ''NOT'', kw ''NULL'']"
  have loop: "steps (constraint_loop fuel False True False n) (?flags @ t # m, st)
      (column_primaryKey c, column_primaryKey c \<or> column_nullable c, \<not> column_primaryKey c \<and> \<not> column_nullable c,
       n + (if column_primaryKey c then 1 else 0)) (t # m, st)"
    using steps_constraints(1) [OF assms(5-7), where f = "Suc (fuel - 2)"] steps_constraints(2,3) [OF assms(5-7), where f = "fuel - 2"] assms(3)
    by (subst f, cases "column_primaryKey c"; cases "column_nullable c") (simp_all del: constraint_loop.simps)
  have "steps (bindp current (\<lambda>u.
       case (if token_kind u = WordToken then map_of COLUMN_TYPES (to_upper (token_text u)) else None) of
         None \<Rightarrow> syntax_error msg
       | Some type \<Rightarrow>
           bindp advance (\<lambda>_.
           bindp (constraint_loop fuel False True False n) (\<lambda>(primary, null, specified, count').
             if primary \<and> null \<and> specified then syntax_error msg2
             else pure (cs @ [\<lparr> column_name = column_name c, column_type = type, column_primaryKey = primary,
                                      column_nullable = (if primary then False else null) \<rparr>], count')))))
     (type_spec (column_type c) # ?flags @ t # m, st) (cs @ [c], n + (if column_primaryKey c then 1 else 0)) (t # m, st)" for msg msg2
  proof (rule steps_current)
    fix u :: Token assume "spec_of u = type_spec (column_type c)"
    then have "token_kind u = WordToken" "map_of COLUMN_TYPES (to_upper (token_text u)) = Some (column_type c)"
      using type [of "column_type c"] by (metis fst_conv snd_conv)+
    moreover have "steps (bindp advance (\<lambda>_.
           bindp (constraint_loop fuel False True False n) (\<lambda>(primary, null, specified, count').
             if primary \<and> null \<and> specified then syntax_error msg2
             else pure (cs @ [\<lparr> column_name = column_name c, column_type = column_type c, column_primaryKey = primary,
                                      column_nullable = (if primary then False else null) \<rparr>], count'))))
      (type_spec (column_type c) # ?flags @ t # m, st) (cs @ [c], n + (if column_primaryKey c then 1 else 0)) (t # m, st)"
      by (rule steps_advance, rule steps_bind [OF loop]) (use assms(3) in auto)
    ultimately show "steps (case (if token_kind u = WordToken then map_of COLUMN_TYPES (to_upper (token_text u)) else None) of
         None \<Rightarrow> syntax_error msg
       | Some type \<Rightarrow>
           bindp advance (\<lambda>_.
           bindp (constraint_loop fuel False True False n) (\<lambda>(primary, null, specified, count').
             if primary \<and> null \<and> specified then syntax_error msg2
             else pure (cs @ [\<lparr> column_name = column_name c, column_type = type, column_primaryKey = primary,
                                      column_nullable = (if primary then False else null) \<rparr>], count'))))
      (type_spec (column_type c) # ?flags @ t # m, st) (cs @ [c], n + (if column_primaryKey c then 1 else 0)) (t # m, st)"
      by (simp only: if_True option.case simp_thms)
  qed
  then show ?thesis using assms(1,2) by (auto simp: column_definition_def column_spec_def intro!: steps_rules)
qed

lemma foldl_columns:
  "foldl (\<lambda>v c. (fst v @ [c], snd v + (if column_primaryKey c then 1 else 0))) (cs, n) ds = (cs @ ds, n + primary_count ds)"
  by (induction ds arbitrary: cs n) (auto simp: primary_count_def)

lemma chain_columns:
  "list_all (\<lambda>c. name_ok (column_name c) \<and> (column_primaryKey c \<longrightarrow> \<not> column_nullable c)) ds \<Longrightarrow> distinct (map column_name (cs @ ds)) \<Longrightarrow>
   n + primary_count ds \<le> 1 \<Longrightarrow>
   chain (\<lambda>v c. name_ok (column_name c) \<and> column_name c \<notin> set (map column_name (fst v)) \<and>
      (column_primaryKey c \<longrightarrow> \<not> column_nullable c \<and> snd v = 0))
    (\<lambda>v c. (fst v @ [c], snd v + (if column_primaryKey c then 1 else 0))) (cs, n) ds"
  by (induction ds arbitrary: cs n) (auto simp: primary_count_def split: if_splits)

lemma foldl_rows: "list_all (\<lambda>row. length row = n) rows \<Longrightarrow>
    foldl (\<lambda>v row. (fst v @ [row], Some (length row))) (acc, w) rows = (acc @ rows, if rows = [] then w else Some n)"
  by (induction rows arbitrary: acc w) auto

lemma chain_rows:
  "list_all (\<lambda>row. row \<noteq> [] \<and> length row = n \<and> list_all value_expr_ok row \<and> list_all plain_value row \<and> length row \<le> fuel) rows \<Longrightarrow>
   w = None \<or> w = Some n \<Longrightarrow>
   chain (\<lambda>v row. (snd v = None \<or> snd v = Some (length row)) \<and> row \<noteq> [] \<and> list_all value_expr_ok row \<and> list_all plain_value row \<and> length row \<le> fuel)
     (\<lambda>v row. (fst v @ [row], Some (length row))) (acc, w) rows"
  by (induction rows arbitrary: acc w) auto

lemma chain_assignments:
  "list_all (\<lambda>a. name_ok (fst a) \<and> value_expr_ok (snd a) \<and> plain_value (snd a)) as \<Longrightarrow> distinct (map fst (acc @ as)) \<Longrightarrow>
   chain (\<lambda>v a. (name_ok (fst a) \<and> value_expr_ok (snd a) \<and> plain_value (snd a)) \<and> fst a \<notin> set (map fst v)) (\<lambda>v a. v @ [a]) acc as"
  by (rule chain_append)

abbreviation end_spec :: spec where
  "end_spec \<equiv> (EndToken, [])"

declare js_eq_iff [simp]

lemma to_upper_js [simp]: "list_all (\<lambda>c. \<not> (97 \<le> (of_char c :: code_unit) \<and> of_char c \<le> (122 :: code_unit))) w \<Longrightarrow> to_upper (js w) = js w"
  by (induction w) (auto simp: to_upper_def js_def)

lemmas word_simps = is_kw_def is_sym_def to_upper_def js_def

lemma steps_createTable:
  assumes "statement_ok (CreateTable t cs b)" and "length cs \<le> fuel" and "3 \<le> fuel"
  shows "steps (createTable fuel) (tl (statement_spec (CreateTable t cs b)) @ [end_spec], 0, 0, 0) (CreateTable t cs b) ([end_spec], 0, 0, 0)"
proof -
  have ok: "name_ok t" "cs \<noteq> []" "list_all (\<lambda>c. name_ok (column_name c) \<and> (column_primaryKey c \<longrightarrow> \<not> column_nullable c)) cs"
      "distinct (map column_name cs)" "primary_count cs \<le> 1"
    using assms(1) by (auto simp: columns_ok_def names_ok_def primary_count_def list_all_iff)
  have "steps (do_while_comma fuel (column_definition fuel) ([], 0)) (sep_list column_spec cs @ symb '')'' # [end_spec], 0, 0, 0)
      (foldl (\<lambda>v c. (fst v @ [c], snd v + (if column_primaryKey c then 1 else 0))) ([], 0) cs)
      (symb '')'' # [end_spec], 0 + length (concat (map (\<lambda>_. [] :: nat list) cs)), 0, 0)"
  proof (rule steps_do_while [where P = "\<lambda>v c. name_ok (column_name c) \<and> column_name c \<notin> set (map column_name (fst v)) \<and>
        (column_primaryKey c \<longrightarrow> \<not> column_nullable c \<and> snd v = 0)" and
        F = "\<lambda>t. \<not> is_kw ''PRIMARY'' t \<and> \<not> is_kw ''NOT'' t \<and> \<not> is_kw ''NULL'' t"])
    fix v :: "SqlColumnDefinition list \<times> nat" and c :: SqlColumnDefinition and pc t m
    assume "name_ok (column_name c) \<and> column_name c \<notin> set (map column_name (fst v)) \<and> (column_primaryKey c \<longrightarrow> \<not> column_nullable c \<and> snd v = 0)"
      and "\<not> is_kw ''PRIMARY'' t \<and> \<not> is_kw ''NOT'' t \<and> \<not> is_kw ''NULL'' t"
    then show "steps (column_definition fuel v) (column_spec c @ t # m, pc, 0, 0) (fst v @ [c], snd v + (if column_primaryKey c then 1 else 0))
        (t # m, pc + length ([] :: nat list), 0, 0)"
      using steps_column [of c "fst v" "snd v" fuel t m "(pc, 0, 0)"] assms(3) by simp
  next
    show "chain (\<lambda>v c. name_ok (column_name c) \<and> column_name c \<notin> set (map column_name (fst v)) \<and>
        (column_primaryKey c \<longrightarrow> \<not> column_nullable c \<and> snd v = 0))
      (\<lambda>v c. (fst v @ [c], snd v + (if column_primaryKey c then 1 else 0))) ([], 0 :: nat) cs"
      using chain_columns [of cs "[]" 0] ok by simp
  qed (use ok assms(2) in simp_all)
  then have columns: "steps (do_while_comma fuel (column_definition fuel) ([], 0)) (sep_list column_spec cs @ symb '')'' # [end_spec], 0, 0, 0)
      (cs, primary_count cs) (symb '')'' # [end_spec], 0, 0, 0)" by (simp add: foldl_columns)
  have body: "steps (bindp identifier_name (\<lambda>table. bindp (expectSymbol ''('') (\<lambda>_.
     bindp (do_while_comma fuel (column_definition fuel) ([], 0)) (\<lambda>(columns, _).
     bindp (expectSymbol '')'') (\<lambda>_. pure (CreateTable table columns b))))))
    (name_spec t # symb ''('' # sep_list column_spec cs @ symb '')'' # [end_spec], 0, 0, 0) (CreateTable t cs b) ([end_spec], 0, 0, 0)"
    using ok(1) by (auto intro!: steps_rules steps_bind [OF columns])
  show ?thesis
    using body by (cases b) (auto simp: createTable_def intro!: steps_rules)
qed

lemma steps_dropTable:
  assumes "statement_ok (DropTable t b)"
  shows "steps dropTable (tl (statement_spec (DropTable t b)) @ [end_spec], 0, 0, 0) (DropTable t b) ([end_spec], 0, 0, 0)"
  using assms by (cases b) (auto simp: dropTable_def intro!: steps_rules)

lemma row_length: "list_all plain_value row \<Longrightarrow> length row \<le> length (sep_list value_spec row)"
proof (rule sep_list_length)
  fix v assume "list_all plain_value row" "v \<in> set row"
  then have "plain_value v" by (auto simp: list_all_iff)
  then show "value_spec v \<noteq> []" by (cases v rule: value_spec.cases) (auto simp: integer_spec_def)
qed

lemma spec_member: "x \<in> set xs \<Longrightarrow> length (f x) \<le> length (sep_list f xs)"
  by (induction f xs rule: sep_list.induct) auto

lemma steps_insert_stmt:
  assumes "statement_ok (Insert t cs rows)" and "printable (Insert t cs rows)" and "numbered_at 0 (statement_params (Insert t cs rows))"
    and "length (statement_spec (Insert t cs rows)) \<le> fuel"
  shows "steps (insert_stmt fuel) (tl (statement_spec (Insert t cs rows)) @ [end_spec], 0, 0, 0) (Insert t cs rows)
    ([end_spec], length (statement_params (Insert t cs rows)), 0, 0)"
proof -
  define n where "n = length (hd rows)"
  have rows_ok: "rows_ok rows" and plain: "list_all (list_all plain_value) rows" using assms(1,2) by simp_all
  have rows: "rows \<noteq> []" "list_all plain_value row" "row \<noteq> []" "length row = n" "list_all value_expr_ok row" "length row \<le> fuel"
    if "row \<in> set rows" for row
  proof -
    show *: "rows \<noteq> []" "list_all plain_value row" "row \<noteq> []" "length row = n" "list_all value_expr_ok row"
      using rows_ok plain that unfolding rows_ok_def n_def list_all_iff by blast+
    have "length (row_spec row) \<le> length (sep_list row_spec rows)" using spec_member [OF that] .
    then show "length row \<le> fuel" using row_length [OF *(2)] assms(4) by (simp add: row_spec_def)
  qed
  have nonempty: "rows \<noteq> []" using assms(1) by (simp add: rows_ok_def)
  have vals: "steps (do_while_comma fuel (insert_row fuel) ([], w)) (sep_list row_spec rows @ end_spec # [], 0, 0, 0)
      (rows, Some n) ([end_spec], length (statement_params (Insert t cs rows)), 0, 0)" if w: "w = None \<or> w = Some n" for w
  proof -
    have "steps (do_while_comma fuel (insert_row fuel) ([], w)) (sep_list row_spec rows @ end_spec # [], 0, 0, 0)
      (foldl (\<lambda>v row. (fst v @ [row], Some (length row))) ([], w) rows) (end_spec # [], 0 + length (concat (map row_params rows)), 0, 0)"
    proof (rule steps_do_while [where P = "\<lambda>v row. (snd v = None \<or> snd v = Some (length row)) \<and> row \<noteq> [] \<and> list_all value_expr_ok row \<and>
        list_all plain_value row \<and> length row \<le> fuel" and F = "\<lambda>_. True"])
      fix v :: "SqlValueExpression list list \<times> nat option" and row pc t m
      assume "(snd v = None \<or> snd v = Some (length row)) \<and> row \<noteq> [] \<and> list_all value_expr_ok row \<and> list_all plain_value row \<and> length row \<le> fuel"
        and "numbered_at pc (row_params row)"
      then show "steps (insert_row fuel v) (row_spec row @ t # m, pc, 0, 0) (fst v @ [row], Some (length row)) (t # m, pc + length (row_params row), 0, 0)"
        using steps_row [of row fuel pc "snd v" "fst v" "t # m" 0 0] by simp
    next
      show "chain (\<lambda>v row. (snd v = None \<or> snd v = Some (length row)) \<and> row \<noteq> [] \<and> list_all value_expr_ok row \<and>
          list_all plain_value row \<and> length row \<le> fuel) (\<lambda>v row. (fst v @ [row], Some (length row))) ([], w) rows"
        using chain_rows [of n fuel rows w "[]"] rows w by (simp add: list_all_iff)
      show "length rows \<le> fuel"
        using sep_list_length [of rows row_spec] assms(4) by (simp add: row_spec_def)
    qed (use nonempty assms(3) in simp_all)
    moreover have "list_all (\<lambda>row. length row = n) rows" using rows(4) by (simp add: list_all_iff)
    ultimately show ?thesis using nonempty foldl_rows [of n rows "[]" w] by simp
  qed
  have body: "steps (bindp (expectKeyword ''VALUES'') (\<lambda>_. bindp (do_while_comma fuel (insert_row fuel) ([], map_option length cs)) (\<lambda>(rows, _).
       pure (Insert t cs rows)))) (kw ''VALUES'' # sep_list row_spec rows @ end_spec # [], 0, 0, 0) (Insert t cs rows)
     ([end_spec], length (statement_params (Insert t cs rows)), 0, 0)"
  proof -
    have "map_option length cs = None \<or> map_option length cs = Some n"
      using assms(1) by (auto simp: n_def split: option.splits)
    then show ?thesis by (auto intro!: steps_expectKeyword steps_bind [OF vals])
  qed
  show ?thesis
  proof (cases cs)
    case None
    then show ?thesis using body assms(1) by (auto simp: insert_stmt_def intro!: steps_rules)
  next
    case (Some ns)
    then have "names_ok ns" "length ns = n" using assms(1) by (auto simp: n_def)
    moreover have "n \<noteq> 0" using rows(3,4) nonempty by (metis last_in_set length_0_conv)
    moreover have "length ns \<le> fuel" using sep_list_length [of ns "\<lambda>n. [name_spec n]"] assms(4) Some by (simp add: names_spec_def)
    ultimately have columns: "steps (identifierList fuel) (names_spec ns @ symb '')'' # kw ''VALUES'' # sep_list row_spec rows @ [end_spec], 0, 0, 0) ns
        (symb '')'' # kw ''VALUES'' # sep_list row_spec rows @ [end_spec], 0, 0, 0)"
      by (intro steps_names) auto
    show ?thesis using body assms(1) Some
      by (auto simp: insert_stmt_def intro!: steps_rules steps_bind [OF columns])
  qed
qed

lemma steps_delete_stmt:
  assumes "statement_ok (Delete t w)" and "printable (Delete t w)" and "numbered_at 0 (statement_params (Delete t w))"
    and "length (statement_spec (Delete t w)) \<le> fuel"
  shows "\<exists>pr. steps (delete_stmt fuel) (tl (statement_spec (Delete t w)) @ [end_spec], 0, 0, 0) (Delete t w)
    ([end_spec], length (statement_params (Delete t w)), 0, pr)"
proof -
  have "steps (where_clause fuel) (where_spec w @ end_spec # [], 0, 0, 0) w
      (end_spec # [], 0 + length (option_params expression_params w), 0, case w of None \<Rightarrow> 0 | Some e \<Rightarrow> leaves e)"
    using assms by (intro steps_where) auto
  from steps_bind [OF this, of "\<lambda>cond. pure (Delete t cond)"] show ?thesis
    using assms(1) by (auto simp: delete_stmt_def intro!: steps_rules exI)
qed

lemma steps_update_stmt:
  assumes "statement_ok (Update t as w)" and "printable (Update t as w)" and "numbered_at 0 (statement_params (Update t as w))"
    and "length (statement_spec (Update t as w)) \<le> fuel"
  shows "\<exists>pr. steps (update_stmt fuel) (tl (statement_spec (Update t as w)) @ [end_spec], 0, 0, 0) (Update t as w)
    ([end_spec], length (statement_params (Update t as w)), 0, pr)"
proof -
  let ?k = "length (concat (map (value_params \<circ> snd) as))"
  obtain t1 m1 where t1: "where_spec w @ [end_spec] = t1 # m1" "\<not> is_sym '','' t1"
    by (cases w) (auto simp: where_spec_def)
  have cond: "steps (where_clause fuel) (where_spec w @ end_spec # [], ?k, 0, 0) w
      (end_spec # [], ?k + length (option_params expression_params w), 0, case w of None \<Rightarrow> 0 | Some e \<Rightarrow> leaves e)"
    using assms by (intro steps_where) auto
  have "steps (do_while_comma fuel assignment []) (sep_list assignment_spec as @ t1 # m1, 0, 0, 0) (foldl (\<lambda>v a. v @ [a]) [] as)
      (t1 # m1, 0 + length (concat (map (\<lambda>a. value_params (snd a)) as)), 0, 0)"
  proof (rule steps_do_while [where P = "\<lambda>v a. (name_ok (fst a) \<and> value_expr_ok (snd a) \<and> plain_value (snd a)) \<and> fst a \<notin> set (map fst v)"
      and F = "\<lambda>_. True"])
    show "chain (\<lambda>v a. (name_ok (fst a) \<and> value_expr_ok (snd a) \<and> plain_value (snd a)) \<and> fst a \<notin> set (map fst v)) (\<lambda>v a. v @ [a]) [] as"
      using assms(1,2) by (intro chain_append) (auto simp: names_ok_def list_all_iff)
    show "length as \<le> fuel" using sep_list_length [of as assignment_spec] assms(4) by (simp add: assignment_spec_def)
  qed (use assms t1(2) in \<open>auto intro: steps_assignment simp: comp_def\<close>)
  then have list: "steps (do_while_comma fuel assignment []) (sep_list assignment_spec as @ t1 # m1, 0, 0, 0) as (t1 # m1, ?k, 0, 0)"
    by (simp add: foldl_append comp_def)
  from steps_bind [OF cond, of "\<lambda>cond. pure (Update t as cond)"] have rest_steps:
    "steps (bindp (where_clause fuel) (\<lambda>cond. pure (Update t as cond))) (t1 # m1, ?k, 0, 0) (Update t as w)
      ([end_spec], ?k + length (option_params expression_params w), 0, case w of None \<Rightarrow> 0 | Some e \<Rightarrow> leaves e)"
    using t1(1) by simp
  have "steps (update_stmt fuel) (name_spec t # kw ''SET'' # sep_list assignment_spec as @ t1 # m1, 0, 0, 0) (Update t as w)
      ([end_spec], ?k + length (option_params expression_params w), 0, case w of None \<Rightarrow> 0 | Some e \<Rightarrow> leaves e)"
    unfolding update_stmt_def using assms(1) by (intro steps_rules steps_bind [OF list] rest_steps) auto
  then show ?thesis using t1(1) by (auto simp: comp_def)
qed

lemma steps_select_stmt:
  assumes "statement_ok (Select t cs w orders l off)" and "printable (Select t cs w orders l off)"
    and "numbered_at 0 (statement_params (Select t cs w orders l off))"
    and "length (statement_spec (Select t cs w orders l off)) \<le> fuel"
  shows "\<exists>pr. steps (select_stmt fuel) (tl (statement_spec (Select t cs w orders l off)) @ [end_spec], 0, 0, 0) (Select t cs w orders l off)
    ([end_spec], length (statement_params (Select t cs w orders l off)), 0, pr)"
proof -
  let ?k = "length (option_params expression_params w)" and ?pr = "case w of None \<Rightarrow> 0 | Some e \<Rightarrow> leaves e"
  let ?lp = "option_params value_params l @ option_params value_params off"
  let ?order = "if orders = [] then [] else kw ''ORDER'' # kw ''BY'' # sep_list order_spec orders"
  obtain t2 m2 where t2: "limit_spec l off @ [end_spec] = t2 # m2" "t2 = end_spec \<or> t2 = kw ''LIMIT''"
    by (cases l) (auto simp: limit_spec_def)
  obtain t1 m1 where t1: "?order @ t2 # m2 = t1 # m1" "t1 = t2 \<or> t1 = kw ''ORDER''"
    by (cases "orders = []") auto
  have limit: "steps limit_clause (t2 # m2, ?k, 0, ?pr) (l, off) ([end_spec], ?k + length ?lp, 0, ?pr)"
    using steps_limit [of l off ?k end_spec "[]" 0 ?pr] assms(1-3) t2(1) by simp
  have "length orders \<le> fuel" using sep_list_length [of orders order_spec] assms(4) by (auto simp: order_spec_def split: if_splits)
  then have order: "steps (order_by fuel) (t1 # m1, ?k, 0, ?pr) orders (t2 # m2, ?k, 0, ?pr)"
    using steps_order_by [of orders fuel t2 m2 ?k 0 ?pr] assms(1) t1(1) t2(2) by auto
  have cond: "steps (where_clause fuel) (where_spec w @ t1 # m1, 0, 0, 0) w (t1 # m1, 0 + ?k, 0, ?pr)"
    using assms t1(2) t2(2) by (intro steps_where) (auto split: if_splits)
  have tail: "steps (bindp identifier_name (\<lambda>table. bindp (where_clause fuel) (\<lambda>cond. bindp (order_by fuel) (\<lambda>orderBy.
      bindp limit_clause (\<lambda>(limit, offset). pure (Select table cs cond orderBy limit offset))))))
     (name_spec t # where_spec w @ t1 # m1, 0, 0, 0) (Select t cs w orders l off) ([end_spec], ?k + length ?lp, 0, ?pr)"
  proof (rule steps_identifier_name)
    show "name_ok t" using assms(1) by simp
    show "steps (bindp (where_clause fuel) (\<lambda>cond. bindp (order_by fuel) (\<lambda>orderBy.
        bindp limit_clause (\<lambda>(limit, offset). pure (Select t cs cond orderBy limit offset)))))
      (where_spec w @ t1 # m1, 0, 0, 0) (Select t cs w orders l off) ([end_spec], ?k + length ?lp, 0, ?pr)"
      by (rule steps_bind [OF cond [unfolded add_0_left]], rule steps_bind [OF order], rule steps_bind [OF limit]) simp
  qed
  have "steps (select_stmt fuel) ((case cs of None \<Rightarrow> [symb ''*''] | Some ns \<Rightarrow> names_spec ns) @ kw ''FROM'' # name_spec t # where_spec w @ t1 # m1, 0, 0, 0)
      (Select t cs w orders l off) ([end_spec], ?k + length ?lp, 0, ?pr)"
  proof (cases cs)
    case None
    then show ?thesis unfolding select_stmt_def using tail by (auto intro!: steps_acceptSymbol steps_expectKeyword)
  next
    case (Some ns)
    then have ns: "names_ok ns" "ns \<noteq> []" using assms(1) by auto
    have "length ns \<le> fuel" using sep_list_length [of ns "\<lambda>n. [name_spec n]"] assms(4) Some by (simp add: names_spec_def)
    then have columns: "steps (identifierList fuel) (names_spec ns @ kw ''FROM'' # name_spec t # where_spec w @ t1 # m1, 0, 0, 0) ns
        (kw ''FROM'' # name_spec t # where_spec w @ t1 # m1, 0, 0, 0)"
      using ns by (intro steps_names) auto
    obtain n ns' where split: "names_spec ns = name_spec n # ns'" using ns(2) by (cases ns; cases "tl ns") (auto simp: names_spec_def)
    show ?thesis unfolding select_stmt_def using Some tail split
      by (auto intro!: steps_acceptSymbol steps_expectKeyword steps_bind [OF columns [unfolded split append_Cons]])
  qed
  then show ?thesis using t1(1) [symmetric] t2(1) [symmetric] by auto
qed

lemma steps_parseStatement:
  assumes "statement_ok st" and "printable st" and "numbered_at 0 (statement_params st)" and "length (statement_spec st) + 3 \<le> fuel"
  shows "\<exists>pr. steps (parseStatement fuel) (statement_spec st @ [end_spec], 0, 0, 0) st ([end_spec], length (statement_params st), 0, pr)"
proof (cases st)
  case (CreateTable t cs b)
  have "length cs \<le> fuel" using sep_list_length [of cs column_spec] assms(4) CreateTable by (simp add: column_spec_def split: if_splits)
  then show ?thesis using assms steps_createTable [of t cs b fuel] CreateTable
    by (auto simp: parseStatement_def intro!: exI [of _ 0] steps_acceptKeyword)
next
  case (DropTable t b)
  then show ?thesis using assms steps_dropTable [of t b] by (auto simp: parseStatement_def intro!: exI [of _ 0] steps_acceptKeyword)
next
  case (Insert t cs rows)
  then show ?thesis using assms steps_insert_stmt [of t cs rows fuel] by (auto simp: parseStatement_def intro!: exI [of _ 0] steps_acceptKeyword)
next
  case (Select t cs w orders l off)
  then obtain pr where "steps (select_stmt fuel) (tl (statement_spec st) @ [end_spec], 0, 0, 0) st ([end_spec], length (statement_params st), 0, pr)"
    using assms steps_select_stmt [of t cs w orders l off fuel] by auto
  then show ?thesis using Select by (auto simp: parseStatement_def intro!: exI [of _ pr] steps_acceptKeyword)
next
  case (Update t as w)
  then obtain pr where "steps (update_stmt fuel) (tl (statement_spec st) @ [end_spec], 0, 0, 0) st ([end_spec], length (statement_params st), 0, pr)"
    using assms steps_update_stmt [of t as w fuel] by auto
  then show ?thesis using Update by (auto simp: parseStatement_def intro!: exI [of _ pr] steps_acceptKeyword)
next
  case (Delete t w)
  then obtain pr where "steps (delete_stmt fuel) (tl (statement_spec st) @ [end_spec], 0, 0, 0) st ([end_spec], length (statement_params st), 0, pr)"
    using assms steps_delete_stmt [of t w fuel] by auto
  then show ?thesis using Delete by (auto simp: parseStatement_def intro!: exI [of _ pr] steps_acceptKeyword)
qed

text \<open>Printed tokens are in the form the scanner reads.\<close>

lemma decimal_length: "n < 10 ^ k \<Longrightarrow> length (decimal n) \<le> max 1 k"
proof (induction n arbitrary: k rule: decimal.induct)
  case (1 n)
  show ?case
  proof (cases "n < 10")
    case True
    then show ?thesis by (simp add: decimal.simps [of n])
  next
    case False
    then obtain j where j: "k = Suc j" using "1.prems" by (cases k) auto
    then have "n div 10 < 10 ^ j" using "1.prems" by (simp add: less_mult_imp_div_less mult.commute)
    moreover have "j \<noteq> 0" using False "1.prems" j by (cases j) auto
    ultimately show ?thesis using "1.IH" [OF False, of j] False j by (simp add: decimal.simps [of n])
  qed
qed

lemma integer_spec_ok: "SQL_INTEGER_MIN \<le> i \<Longrightarrow> i \<le> SQL_INTEGER_MAX \<Longrightarrow> list_all spec_ok (integer_spec i)"
proof -
  assume i: "SQL_INTEGER_MIN \<le> i" "i \<le> SQL_INTEGER_MAX"
  then have "nat \<bar>i\<bar> < 10 ^ 19" by (simp add: SQL_INTEGER_MIN_def SQL_INTEGER_MAX_def)
  then have "length (decimal (nat \<bar>i\<bar>)) \<le> 19" using decimal_length by fastforce
  then show ?thesis using decimal_text [of "nat \<bar>i\<bar>"] by (simp add: integer_spec_def MAX_NUMBER_LENGTH_def)
qed

lemma value_spec_ok: "value_expr_ok v \<Longrightarrow> plain_value v \<Longrightarrow> list_all spec_ok (value_spec v)"
proof (cases v rule: value_spec.cases)
  case (5 x)
  assume "plain_value v"
  then have "\<bar>f64_int x\<bar> \<le> max_safe_integer" using 5 by (simp add: f64_is_safe_integer_def)
  then show ?thesis using 5 by (auto simp: max_safe_integer_def SQL_INTEGER_MIN_def SQL_INTEGER_MAX_def intro!: integer_spec_ok)
qed (auto intro: integer_spec_ok simp: js_def is_word_def is_word_start_def)

lemma keyword_spec_ok: "list_all (\<lambda>w. spec_ok (kw w)) [''CREATE'', ''TABLE'', ''IF'', ''NOT'', ''EXISTS'', ''DROP'', ''INSERT'', ''INTO'',
    ''VALUES'', ''SELECT'', ''FROM'', ''WHERE'', ''ORDER'', ''BY'', ''DESC'', ''LIMIT'', ''OFFSET'', ''UPDATE'', ''SET'', ''DELETE'', ''PRIMARY'', ''KEY'',
    ''NULL'', ''IS'', ''AND'', ''OR'', ''INTEGER'', ''REAL'', ''TEXT'', ''BOOLEAN'', ''BLOB'']"
  by (simp add: js_def is_word_def is_word_start_def)

lemma name_spec_ok: "name_ok n \<Longrightarrow> hasValidUnicode n"
  by (simp add: invalid_identifier_def)

lemma operator_spec_ok: "spec_ok (operator_spec operator)"
  by (cases operator) simp_all

lemma expression_spec_ok: "expression_ok e \<Longrightarrow> plain_expression e \<Longrightarrow> list_all spec_ok (expression_spec e)"
  using keyword_spec_ok by (induction e) (auto simp: operator_spec_ok value_spec_ok name_spec_ok simp del: spec_ok.simps(1))

lemma sep_list_ok: "(\<And>x. x \<in> set xs \<Longrightarrow> list_all spec_ok (f x)) \<Longrightarrow> list_all spec_ok (sep_list f xs)"
  by (induction f xs rule: sep_list.induct) auto

lemma where_spec_ok: "where_ok w \<Longrightarrow> plain_where w \<Longrightarrow> list_all spec_ok (where_spec w)"
  using keyword_spec_ok expression_spec_ok
  by (cases w) (auto simp: where_spec_def where_ok_def plain_where_def simp del: spec_ok.simps(1))

lemma count_value_ok: "count_ok v \<Longrightarrow> value_expr_ok v"
  by (cases v rule: count_ok.cases) (auto simp: number_ok_def f64_is_safe_integer_def f64_is_integer_def)

lemma limit_spec_ok:
  assumes "list_all count_ok (case l of None \<Rightarrow> [] | Some v \<Rightarrow> [v])" and "list_all count_ok (case off of None \<Rightarrow> [] | Some v \<Rightarrow> [v])"
    and "list_all plain_value (case l of None \<Rightarrow> [] | Some v \<Rightarrow> [v])" and "list_all plain_value (case off of None \<Rightarrow> [] | Some v \<Rightarrow> [v])"
  shows "list_all spec_ok (limit_spec l off)"
  using keyword_spec_ok assms
  by (cases l; cases off) (auto simp: limit_spec_def value_spec_ok count_value_ok simp del: spec_ok.simps(1))

lemma column_spec_ok: "name_ok (column_name c) \<Longrightarrow> list_all spec_ok (column_spec c)"
  using keyword_spec_ok
  by (cases "column_type c") (auto simp: column_spec_def name_spec_ok simp del: spec_ok.simps(1))

lemma names_spec_ok: "list_all name_ok ns \<Longrightarrow> list_all spec_ok (names_spec ns)"
  unfolding names_spec_def by (rule sep_list_ok) (auto simp: list_all_iff name_spec_ok)

lemma statement_spec_ok:
  assumes "statement_ok st" and "printable st"
  shows "list_all spec_ok (statement_spec st)"
proof (cases st)
  case (CreateTable t cs b)
  then have "list_all spec_ok (sep_list column_spec cs)"
    using assms(1) by (intro sep_list_ok column_spec_ok) (auto simp: columns_ok_def names_ok_def list_all_iff)
  then show ?thesis using assms(1) CreateTable keyword_spec_ok by (auto simp: name_spec_ok simp del: spec_ok.simps(1))
next
  case (DropTable t b)
  then show ?thesis using assms(1) keyword_spec_ok by (auto simp: name_spec_ok simp del: spec_ok.simps(1))
next
  case (Insert t cs rows)
  have "rows_ok rows" "list_all (list_all plain_value) rows" using assms Insert by simp_all
  then have "value_expr_ok v \<and> plain_value v" if "row \<in> set rows" "v \<in> set row" for row v
    using that unfolding rows_ok_def list_all_iff by blast
  then have "list_all spec_ok (row_spec row)" if "row \<in> set rows" for row
    using that by (auto simp: row_spec_def intro!: sep_list_ok value_spec_ok)
  then have "list_all spec_ok (sep_list row_spec rows)" by (rule sep_list_ok)
  then show ?thesis using assms(1) Insert keyword_spec_ok
    by (auto simp: name_spec_ok names_ok_def names_spec_ok simp del: spec_ok.simps(1) split: option.splits)
next
  case (Select t cs w orders l off)
  have "list_all spec_ok (sep_list order_spec orders)"
    using assms(1) Select keyword_spec_ok
    by (intro sep_list_ok) (auto simp: order_spec_def names_ok_def list_all_iff name_spec_ok simp del: spec_ok.simps(1))
  moreover have "list_all spec_ok (limit_spec l off)" using assms Select by (intro limit_spec_ok) auto
  moreover have "list_all spec_ok (where_spec w)" using assms Select by (intro where_spec_ok) auto
  ultimately show ?thesis using assms(1) Select keyword_spec_ok
    by (auto simp: name_spec_ok names_ok_def names_spec_ok simp del: spec_ok.simps(1) split: option.splits)
next
  case (Update t as w)
  have "list_all spec_ok (sep_list assignment_spec as)"
  proof (rule sep_list_ok)
    fix a assume "a \<in> set as"
    then have "name_ok (fst a)" "value_expr_ok (snd a)" "plain_value (snd a)"
      using assms Update by (auto simp: names_ok_def list_all_iff)
    then show "list_all spec_ok (assignment_spec a)"
      by (auto simp: assignment_spec_def value_spec_ok name_spec_ok simp del: spec_ok.simps(1))
  qed
  moreover have "list_all spec_ok (where_spec w)" using assms Update by (intro where_spec_ok) auto
  ultimately show ?thesis using assms(1) Update keyword_spec_ok by (auto simp: name_spec_ok simp del: spec_ok.simps(1))
next
  case (Delete t w)
  moreover have "list_all spec_ok (where_spec w)" using assms Delete by (intro where_spec_ok) auto
  ultimately show ?thesis using assms(1) keyword_spec_ok by (auto simp: name_spec_ok simp del: spec_ok.simps(1))
qed

section \<open>Round trip\<close>

lemma parse_printed:
  assumes "statement_ok st" and "printable st" and "statement_params st = [0..<k]"
    and "length (print_sql st) \<le> MAX_SQL_LENGTH" and "length (statement_spec st) \<le> MAX_TOKENS"
  shows "parseSql (print_sql st) = Some (Inr \<lparr> statement = st, parameterCount = k \<rparr>)"
proof -
  obtain tokens where tokens: "tokenize (print_sql st) = Inr tokens" "map spec_of tokens = statement_spec st @ [end_spec]"
    using tokenize_render [OF statement_spec_ok [OF assms(1,2)], of "[]" 0] assms(5)
    by (auto simp: tokenize_def print_sql_def)
  have len: "length tokens = length (statement_spec st) + 1" using arg_cong [OF tokens(2), of length] by simp
  have k: "numbered_at 0 (statement_params st)" "length (statement_params st) = k" using assms(3) by (simp_all add: numbered_at_def)
  let ?fuel = "4 * length tokens + 4"
  obtain pr where stmt: "steps (parseStatement ?fuel) (statement_spec st @ [end_spec], 0, 0, 0) st ([end_spec], k, 0, pr)"
    using steps_parseStatement [OF assms(1,2) k(1), of ?fuel] len k(2) by auto
  have finish: "steps (finish st) ([end_spec], k, 0, pr) \<lparr> statement = st, parameterCount = k \<rparr> ([end_spec], k, 0, pr)"
    by (simp add: steps_def finish_def erase_def)
  have "steps (bindp (acceptSymbol '';'') (\<lambda>_. bindp current (\<lambda>t. if token_kind t \<noteq> EndToken then syntax_error m else finish st)))
      ([end_spec], k, 0, pr) \<lparr> statement = st, parameterCount = k \<rparr> ([end_spec], k, 0, pr)" for m
    using finish by (auto intro!: steps_acceptSymbol steps_current)
  then have "steps (parse_tokens ?fuel) (statement_spec st @ [end_spec], 0, 0, 0) \<lparr> statement = st, parameterCount = k \<rparr> ([end_spec], k, 0, pr)"
    unfolding parse_tokens_def by (rule steps_bind [OF stmt])
  then obtain s' where "parse_tokens ?fuel (new_parser tokens) = Some (Inr (\<lparr> statement = st, parameterCount = k \<rparr>, s'))"
  proof -
    have "erase (new_parser tokens) = (statement_spec st @ [end_spec], 0, 0, 0)" using tokens(2) by (simp add: erase_def new_parser_def)
    then show thesis using \<open>steps (parse_tokens ?fuel) _ _ _\<close> that unfolding steps_def by blast
  qed
  then show ?thesis using tokens(1) assms(4) by (simp add: parseSql_def)
qed

text \<open>
  C26. Parsing the text of a statement gives the statement back, with its parameters counted: for every
  well-formed statement with integer, string, boolean and NULL literals whose condition is nested at most
  64 deep and whose text is within the limits of the parser. Quoted names and strings may contain any
  characters, quotes, keywords and comment signs included.
\<close>

theorem parseSql_print_round_trip:
  assumes "statement_ok st" and "printable st" and "statement_params st = [0..<k]"
    and "length (print_sql st) \<le> MAX_SQL_LENGTH" and "length (statement_spec st) \<le> MAX_TOKENS"
  shows "parseSql (print_sql st) = Some (Inr \<lparr> statement = st, parameterCount = k \<rparr>)"
  by (rule parse_printed [OF assms])

definition sample_select :: SqlStatement where
  "sample_select = Select (js ''a\"b'') (Some [js ''select'', js ''x'']) (Some (OrExpr (Comparison (js ''x'') OpLe (Literal (SqlNumber (f64_of_int (-5)))))
     (Comparison (js ''select'') OpEq (Parameter 0)))) [(js ''x'', Desc)] (Some (Parameter 1)) None"

lemma sample_select_ok: "statement_ok sample_select" "printable sample_select" "statement_params sample_select = [0..<2]"
  "length (print_sql sample_select) \<le> MAX_SQL_LENGTH" "length (statement_spec sample_select) \<le> MAX_TOKENS"
proof -
  have v: "f64_is_safe_integer (f64_of_int (-5))" "f64_int (f64_of_int (-5)) = -5"
    using f64_of_int_safe [of "-5"] by (simp_all add: max_safe_integer_def)
  have nz: "\<not> f64_is_negative_zero (f64_of_int (-5))"
  proof
    assume "f64_is_negative_zero (f64_of_int (-5))"
    then have "f64_scaled (f64_of_int (-5)) = 0" by (simp add: f64_negative_zero_iff f64_scaled_def)
    then show False using v(2) by (simp add: f64_int_def)
  qed
  have names: "name_ok (js ''a\"b'')" "name_ok (js ''select'')" "name_ok (js ''x'')"
    by (simp_all add: invalid_identifier_def js_def hasControlCharacters_def hasValidUnicode_def FORBIDDEN_IDENTIFIERS_def
      to_lower_def MAX_IDENTIFIER_LENGTH_def is_high_def)
  have ok: "number_ok (f64_of_int (-5))" using v(1) by (simp add: number_ok_def f64_is_safe_integer_def f64_is_integer_def)
  show "statement_ok sample_select"
    using names ok by (simp add: sample_select_def where_ok_def names_ok_def MAX_PREDICATES_def)
  show "printable sample_select" using v nz by (simp add: sample_select_def plain_where_def MAX_NESTING_def)
  show "statement_params sample_select = [0..<2]" by (simp add: sample_select_def option_params_def upt_rec)
  show "length (print_sql sample_select) \<le> MAX_SQL_LENGTH"
    using v(2) by (simp add: sample_select_def print_sql_def where_spec_def names_spec_def order_spec_def limit_spec_def integer_spec_def
      render_def render_token_def quote_text_def js_def MAX_SQL_LENGTH_def decimal.simps quote_double_def)
  show "length (statement_spec sample_select) \<le> MAX_TOKENS"
    by (simp add: sample_select_def where_spec_def names_spec_def order_spec_def limit_spec_def integer_spec_def MAX_TOKENS_def v(2))
qed

theorem parseSql_print_round_trip_witness:
  "parseSql (print_sql sample_select) = Some (Inr \<lparr> statement = sample_select, parameterCount = 2 \<rparr>)"
  by (rule parseSql_print_round_trip [OF sample_select_ok])

theorem parseSql_well_formed_witness:
  "statement_ok sample_select \<and> parseSql (print_sql sample_select) = Some (Inr \<lparr> statement = sample_select, parameterCount = 2 \<rparr>)"
  using parseSql_well_formed [OF parse_printed [OF sample_select_ok]] parse_printed [OF sample_select_ok] by simp

end
