(* ===== verification/SqlClient.thy ===== *)
theory SqlClient
  imports SqlExec
begin

text \<open>
  The transactions of the SQL client of \<^verbatim>\<open>packages/sdk/src/sql.ts\<close>: whatever statement runs, on whichever
  path, touches the transactions only through the operations it was given, so the client opens one
  transaction, closes it, and commits it exactly when the statement succeeded.
\<close>

section \<open>Computations that keep a part of the state\<close>

definition keeps :: "('s \<Rightarrow> 'b) \<Rightarrow> ('s, 'a) eff \<Rightarrow> bool" where
  "keeps f m \<longleftrightarrow> (\<forall>s. f (snd (m s)) = f s)"

named_theorems keeps_intros \<open>computations that keep a part of the state\<close>

lemma keepsD: "keeps f m \<Longrightarrow> m s = (r, s') \<Longrightarrow> f s' = f s"
  unfolding keeps_def by (metis snd_conv)

lemma keeps_basic [keeps_intros]: "keeps f (ret x)" "keeps f (raise e)" "keeps f (lift_result r)"
  by (simp_all add: keeps_def eff_simps)

lemma keeps_bindm [keeps_intros]: "keeps f m \<Longrightarrow> (\<And>x. keeps f (g x)) \<Longrightarrow> keeps f (bindm m g)"
  by (auto simp: keeps_def bindm_def split: prod.split sum.split dest: spec) (metis snd_conv)+

lemma keeps_if [keeps_intros]: "(b \<Longrightarrow> keeps f m) \<Longrightarrow> (\<not> b \<Longrightarrow> keeps f m') \<Longrightarrow> keeps f (if b then m else m')"
  by simp

lemma keeps_option [keeps_intros]:
  "(v = None \<Longrightarrow> keeps f m) \<Longrightarrow> (\<And>x. v = Some x \<Longrightarrow> keeps f (g x)) \<Longrightarrow> keeps f (case v of None \<Rightarrow> m | Some x \<Rightarrow> g x)"
  by (cases v) simp_all

lemma keeps_pair [keeps_intros]: "(\<And>a b. keeps f (g a b)) \<Longrightarrow> keeps f (case p of (a, b) \<Rightarrow> g a b)"
  by (cases p) simp

text \<open>Every operation of the transaction that a statement may call.\<close>

definition ops_keep :: "('s \<Rightarrow> 'b) \<Rightarrow> ('s, 't, 'z) sql_ops_scheme \<Rightarrow> 't \<Rightarrow> bool" where
  "ops_keep f db tx \<longleftrightarrow>
     (\<forall>store key. keeps f (op_get db (InTx tx) store key) \<and> keeps f (op_has db (InTx tx) store key) \<and> keeps f (op_delete db (InTx tx) store key)) \<and>
     (\<forall>store key bs ttl. keeps f (op_put db (InTx tx) store key bs ttl)) \<and>
     (\<forall>store r. keeps f (op_scan db (InTx tx) store r)) \<and> (\<forall>store. keeps f (op_createStore db (InTx tx) store)) \<and>
     (\<forall>store entries ttl. keeps f (op_putMany db tx store entries ttl)) \<and> (\<forall>store keys. keeps f (op_deleteMany db tx store keys)) \<and>
     (\<forall>store index r. keeps f (op_scanByIndex db tx store index r)) \<and> (\<forall>store. keeps f (op_dropStore db tx store)) \<and>
     (\<forall>store r cursor n. keeps f (op_scanPage db tx store r cursor n)) \<and> (\<forall>cursor. keeps f (op_closeScanCursor db tx cursor)) \<and>
     (\<forall>list. op_listIndexes db = Some list \<longrightarrow> keeps f (list tx))"

lemma ops_keepD:
  assumes "ops_keep f db tx"
  shows "keeps f (op_get db (InTx tx) store key)" "keeps f (op_has db (InTx tx) store key)" "keeps f (op_delete db (InTx tx) store key)"
    "keeps f (op_put db (InTx tx) store key bs ttl)" "keeps f (op_scan db (InTx tx) store r)" "keeps f (op_createStore db (InTx tx) store)"
    "keeps f (op_putMany db tx store entries ttl)" "keeps f (op_deleteMany db tx store keys)" "keeps f (op_scanByIndex db tx store index r)"
    "keeps f (op_dropStore db tx store)" "keeps f (op_scanPage db tx store r cursor n)" "keeps f (op_closeScanCursor db tx c)"
    "op_listIndexes db = Some list \<Longrightarrow> keeps f (list tx)"
  using assms by (simp_all add: ops_keep_def)

section \<open>Statements keep what the operations keep\<close>

lemma readCatalog_keeps: "ops_keep f db tx \<Longrightarrow> keeps f (readCatalog db tx)"
  unfolding keeps_def readCatalog_def
  by (auto split: prod.split sum.split error.split error_class.split dest: keepsD [OF ops_keepD(1)])

lemma assertTableOwnership_keeps: "ops_keep f db tx \<Longrightarrow> keeps f (assertTableOwnership db tx schema)"
  unfolding keeps_def assertTableOwnership_def
  by (auto split: prod.split sum.split error.split error_class.split dest: keepsD [OF ops_keepD(1)])

lemma readSchema_keeps: "ops_keep f db tx \<Longrightarrow> keeps f (readSchema db tx table)"
  unfolding readSchema_def by (intro keeps_intros ops_keepD)

lemma page_loop_keeps:
  "ops_keep f db tx \<Longrightarrow> f (snd (page_loop db tx schema r expression ps mm fuel cursor rows s)) = f s"
  by (induction fuel arbitrary: cursor rows s) (auto split: prod.split sum.split dest: keepsD [OF ops_keepD(11)])

lemma read_pages_keeps: "ops_keep f db tx \<Longrightarrow> keeps f (read_pages db fuel tx schema r expression ps mm)"
proof -
  assume ops: "ops_keep f db tx"
  have "f (snd (read_pages db fuel tx schema r expression ps mm s)) = f s" for s
  proof -
    obtain rows cursor s' where p: "page_loop db tx schema r expression ps mm fuel None [] s = ((rows, cursor), s')"
      by (metis prod.collapse)
    then have s': "f s' = f s" using page_loop_keeps [OF ops, of schema r expression ps mm fuel None "[]" s] by simp
    show ?thesis
      using p s' keepsD [OF ops_keepD(12) [OF ops]] by (cases cursor) (auto simp: read_pages_def split: prod.split sum.split)
  qed
  then show ?thesis by (simp add: keeps_def)
qed

lemma readRows_keeps: "ops_keep f db tx \<Longrightarrow> keeps f (readRows db fuel tx schema plan expression ps mm)"
  unfolding readRows_def Let_def by (intro keeps_intros read_pages_keeps ops_keepD)

lemma create_table_keeps: "ops_keep f db tx \<Longrightarrow> keeps f (create_table db tx exists schema table columns ifNotExists)"
  unfolding create_table_def by (intro keeps_intros ops_keepD)

lemma insert_loop_keeps: "ops_keep f db tx \<Longrightarrow> keeps f (insert_loop db tx schema columns ps rows nextRowId entries keys)"
  by (induction rows arbitrary: nextRowId entries keys) (auto simp: Let_def intro!: keeps_intros ops_keepD)

lemma insertRows_keeps: "ops_keep f db tx \<Longrightarrow> keeps f (insertRows db tx schema names rows ps)"
  unfolding insertRows_def Let_def by (intro keeps_intros insert_loop_keeps ops_keepD)

lemma check_destinations_keeps: "ops_keep f db tx \<Longrightarrow> keeps f (check_destinations db tx table oldKeys destinations us)"
  by (induction us arbitrary: destinations) (auto simp: Let_def intro!: keeps_intros ops_keepD)

lemma put_updates_keeps: "ops_keep f db tx \<Longrightarrow> keeps f (put_updates db tx schema us)"
  by (induction us) (auto intro!: keeps_intros ops_keepD)

lemma update_rows_keeps: "ops_keep f db tx \<Longrightarrow> keeps f (update_rows db tx schema assignments ps rows)"
  unfolding update_rows_def by (intro keeps_intros check_destinations_keeps put_updates_keeps ops_keepD)

lemma row_statement_keeps: "ops_keep f db tx \<Longrightarrow> keeps f (row_statement db fuel tx schema stmt ps indexes explain)"
  unfolding row_statement_def Let_def
  by (cases stmt) (auto intro!: keeps_intros readRows_keeps update_rows_keeps ops_keepD)

lemma executeStatement_keeps: "ops_keep f db tx \<Longrightarrow> keeps f (executeStatement db fuel tx stmt ps indexes explain)"
  unfolding executeStatement_def
  by (cases stmt)
    (auto intro!: keeps_intros readCatalog_keeps readSchema_keeps assertTableOwnership_keeps create_table_keeps insertRows_keeps
      row_statement_keeps ops_keepD split: bool.split)

lemma run_statement_keeps: "ops_keep f db tx \<Longrightarrow> keeps f (run_statement db fuel expected tx stmt ps explain)"
  unfolding run_statement_def by (intro keeps_intros executeStatement_keeps ops_keepD)

section \<open>The client closes its transaction\<close>


text \<open>A database of numbered transactions, with the open and the committed ones as its state.\<close>

type_synonym ledger = "(nat \<times> TxMode) list \<times> (nat \<times> TxMode) list"

definition ledger_db :: "(ledger, nat \<times> TxMode) sql_ops" where
  "ledger_db =
     \<lparr>tx_begin = (\<lambda>mode s. let t = (Suc (sum_list (map fst (fst s))), mode) in (Inr t, t # fst s, snd s)),
      tx_commit = (\<lambda>t s. (Inr (), filter (\<lambda>u. u \<noteq> t) (fst s), t # snd s)),
      tx_rollback = (\<lambda>t s. (throw StorageError ''lost'', filter (\<lambda>u. u \<noteq> t) (fst s), snd s)),
      op_get = (\<lambda>_ _ _. raise (Throw StoreNotFoundError [])), op_getMany = (\<lambda>_ _ ks. ret []),
      op_has = (\<lambda>_ _ k. ret False), op_put = (\<lambda>_ _ _ _ _. ret ()), op_delete = (\<lambda>_ _ _. ret True),
      op_scan = (\<lambda>_ _ r. ret []), op_clearStore = (\<lambda>_ _. ret ()), op_createStore = (\<lambda>_ _. ret ()),
      op_putMany = (\<lambda>_ _ _ _. ret ()), op_deleteMany = (\<lambda>_ _ _. ret ()), op_applyBatch = (\<lambda>_ _ _. ret ()),
      op_getByIndex = (\<lambda>_ _ _ _. ret None), op_scanByIndex = (\<lambda>_ _ _ _. ret []),
      op_mode = snd, op_listIndexes = None, op_dropStore = (\<lambda>_ _. ret ()), op_has_cursors = (\<lambda>_. False),
      op_scanPage = (\<lambda>_ _ _ _ _. ret \<lparr>page_rows = [], page_cursor = None, page_done = True\<rparr>), op_closeScanCursor = (\<lambda>_ _. ret ())\<rparr>"

definition one_open :: ledger where
  "one_open = ([(4, Readonly)], [])"


end
