(* ===== verification/Spec2Isabelle.thy ===== *)
theory Spec2Isabelle
  imports Codec IndexKeys IndexDefs Records Snappy Crc32 Compression Packed Protocol Subscriptions WorkerServer WorkerIndex SqlPrint SqlClient
begin

text \<open>
  A verification library for MoyoDB's TypeScript SDK.
\<close>

end
